(* ===== verification/Prelude.thy ===== *)
theory Prelude
  imports Main "HOL-Library.Word"
begin

text \<open>
  Shared types, hint collections and generic lemmas: the machine widths of
  \<^verbatim>\<open>src/c/types.h\<close>, facts that move a 64-bit word computation to \<open>nat\<close> when it does
  not wrap, and list facts on update and split that several components need.
\<close>

unbundle bit_operations_syntax

type_synonym u8 = "8 word"
type_synonym u16 = "16 word"
type_synonym u32 = "32 word"
type_synonym u64 = "64 word"

text \<open>Memory by words: the address of a word is that of its first byte.\<close>

type_synonym memory = "nat \<Rightarrow> u64"

named_theorems const_defs \<open>definitions of the numeric constants of the headers\<close>
named_theorems wf_defs \<open>definitions of the well-formedness predicates\<close>

subsection \<open>Words read as natural numbers\<close>

lemma unat_lo32: "unat (x AND 0xFFFFFFFF :: u64) = unat x mod 4294967296"
proof -
  have "x AND 0xFFFFFFFF = take_bit 32 x"
    by (simp add: take_bit_eq_mask mask_eq_exp_minus_1)
  then show ?thesis
    by (simp add: unsigned_take_bit_eq take_bit_eq_mod unat_mod)
qed

lemma unat_hi32: "unat (drop_bit 32 x :: u64) = unat x div 4294967296"
  by (simp add: unat_drop_bit_eq drop_bit_eq_div unat_div)

lemma unat_split32: "unat (x AND 0xFFFFFFFF :: u64) + 4294967296 * unat (drop_bit 32 x) = unat x"
  unfolding unat_lo32 unat_hi32 by simp

lemma unat_add_no_wrap64:
  "unat (a :: u64) + unat b < 18446744073709551616 \<Longrightarrow> unat (a + b) = unat a + unat b"
  by (simp add: unat_word_ariths)

lemma unat_mult_no_wrap64:
  "unat (a :: u64) * unat b < 18446744073709551616 \<Longrightarrow> unat (a * b) = unat a * unat b"
  by (simp add: unat_word_ariths)

lemma unat_sub_no_wrap64:
  "unat (b :: u64) \<le> unat a \<Longrightarrow> unat (a - b) = unat a - unat b"
  by (simp add: unat_sub_if_size)

lemma unat_lt64: "unat (x :: u64) < 18446744073709551616"
  using unsigned_less [of x] by simp

lemma word_eq_iff_unat: "(a :: 'a::len word) = b \<longleftrightarrow> unat a = unat b"
  by (auto simp: word_unat_eq_iff)

lemma unat_if_bit [simp]: "unat (if b then 1 else 0 :: u64) = (if b then 1 else 0)"
  by simp

subsection \<open>Lists\<close>

definition nth_or :: "'a \<Rightarrow> 'a list \<Rightarrow> nat \<Rightarrow> 'a" where
  "nth_or d xs i = (if i < length xs then xs ! i else d)"

lemma nth_or_simps [simp]:
  "nth_or d [] i = d"
  "nth_or d (x # xs) 0 = x"
  "nth_or d (x # xs) (Suc i) = nth_or d xs i"
  by (simp_all add: nth_or_def)

lemma list_all_update: "list_all P xs \<Longrightarrow> P y \<Longrightarrow> list_all P (xs[i := y])"
  by (auto simp: list_all_iff dest!: set_update_subset_insert [THEN subsetD])

lemma list_all_take: "list_all P xs \<Longrightarrow> list_all P (take n xs)"
  by (auto simp: list_all_iff dest: in_set_takeD)

lemma list_all_drop: "list_all P xs \<Longrightarrow> list_all P (drop n xs)"
  by (auto simp: list_all_iff dest: in_set_dropD)

lemma list_all_replicate: "P x \<Longrightarrow> list_all P (replicate n x)"
  by (simp add: list_all_iff)

subsection \<open>C strings\<close>

definition cstr :: "string \<Rightarrow> string" where
  "cstr s = takeWhile (\<lambda>c. c \<noteq> CHR 0x00) s"

lemma cstr_id: "list_all (\<lambda>c. c \<noteq> CHR 0x00) s \<Longrightarrow> cstr s = s"
  by (simp add: cstr_def list_all_iff)

lemma cstr_cstr [simp]: "cstr (cstr s) = cstr s"
  by (simp add: cstr_def)

subsection \<open>Characters and bytes\<close>

definition char_byte :: "char \<Rightarrow> u8" where "char_byte c = of_nat (of_char c)"
definition byte_char :: "u8 \<Rightarrow> char" where "byte_char b = char_of (unat b)"

lemma byte_char_inverse [simp]: "byte_char (char_byte c) = c"
  by (simp add: byte_char_def char_byte_def unsigned_of_nat take_bit_nat_eq_self)

lemma char_byte_inverse [simp]: "char_byte (byte_char b) = b"
proof -
  have "unat b < 256" using unsigned_less [of b] by simp
  then show ?thesis by (simp add: byte_char_def char_byte_def)
qed

lemma map_byte_char_inverse [simp]: "map byte_char (map char_byte s) = s" "map char_byte (map byte_char bs) = bs"
  by (simp_all add: comp_def)

end
