(* ===== verification/Console.thy ===== *)
theory Console
  imports Prelude
begin

unbundle bit_operations_syntax

text \<open>
  The virtual frame buffers of \<^verbatim>\<open>src/c/framebuffer.c\<close>. A frame buffer is a record with the
  fields of the C structure (the function pointers always hold the functions below); the
  file's static variables \<open>frame_buffers\<close> and \<open>active_index\<close> and the physical screen all of
  them draw on are the record \<open>console\<close>. The screen maps the index of a pixel to its colour.

  Dimensions and positions are numbers: they are bounded by the bytes of the history that
  the boot allocator provides, far below 2^32. The glyph table \<open>font\<close> is a parameter, code
  point and row to the byte of pixels. A row is the list of its cells.
\<close>

subsection \<open>State\<close>

record frame_buffer =
  width :: nat
  height :: nat
  pixels_per_scanline :: nat
  cursor_position_x :: nat
  cursor_position_y :: nat
  content :: "u8 list"
  cols :: nat
  rows :: nat
  hist_rows :: nat
  base :: nat
  count :: nat
  view_offset :: nat

type_synonym screen = "nat \<Rightarrow> u32"
type_synonym font = "u8 \<Rightarrow> nat \<Rightarrow> u8"

record console =
  frame_buffers :: "frame_buffer list"
  active_index :: nat
  pixels :: screen

definition VBUF_COUNT :: nat where "VBUF_COUNT = 4"
definition VBUF_GLYPH_WIDTH :: nat where "VBUF_GLYPH_WIDTH = 8"
definition VBUF_GLYPH_HEIGHT :: nat where "VBUF_GLYPH_HEIGHT = 16"
definition VBUF_INDICATOR_MAX :: nat where "VBUF_INDICATOR_MAX = 64"

definition WHITE :: u32 where "WHITE = 0x00FFFFFF"

definition is_active :: "nat \<Rightarrow> console \<Rightarrow> bool" where
  "is_active i con \<longleftrightarrow> i = active_index con"

definition cursor_x :: "frame_buffer \<Rightarrow> nat" where
  "cursor_x self = cursor_position_x self * VBUF_GLYPH_WIDTH"

definition cursor_y :: "frame_buffer \<Rightarrow> nat" where
  "cursor_y self = cursor_position_y self * VBUF_GLYPH_HEIGHT"

subsection \<open>Drawing\<close>

definition glyph_bit :: "font \<Rightarrow> u8 \<Rightarrow> nat \<Rightarrow> nat \<Rightarrow> bool" where
  "glyph_bit font c row col =
     (let code = (if 127 < c then of_nat (of_char CHR ''?'') else c)
      in (font code row AND drop_bit col 0x80) \<noteq> 0)"

definition draw_char :: "font \<Rightarrow> nat \<Rightarrow> nat \<Rightarrow> nat \<Rightarrow> u8 \<Rightarrow> u32 \<Rightarrow> screen \<Rightarrow> screen" where
  "draw_char font ppsl x y c color =
     fold (\<lambda>row. fold (\<lambda>col s. if glyph_bit font c row col then s((y + row) * ppsl + (x + col) := color) else s)
         [0..<VBUF_GLYPH_WIDTH]) [0..<VBUF_GLYPH_HEIGHT]"

definition fill_cell :: "nat \<Rightarrow> nat \<Rightarrow> nat \<Rightarrow> u32 \<Rightarrow> screen \<Rightarrow> screen" where
  "fill_cell ppsl x y color =
     fold (\<lambda>row. fold (\<lambda>col s. s((y + row) * ppsl + (x + col) := color)) [0..<VBUF_GLYPH_WIDTH])
       [0..<VBUF_GLYPH_HEIGHT]"

definition draw_cursor :: "frame_buffer \<Rightarrow> screen \<Rightarrow> screen" where
  "draw_cursor self s =
     (if view_offset self \<noteq> 0 then s
      else fill_cell (pixels_per_scanline self) (cursor_x self) (cursor_y self) WHITE s)"

definition erase_cursor :: "frame_buffer \<Rightarrow> screen \<Rightarrow> screen" where
  "erase_cursor self s =
     (if view_offset self \<noteq> 0 then s
      else fill_cell (pixels_per_scanline self) (cursor_x self) (cursor_y self) 0 s)"

text \<open>The first loop copies upwards row by row, the second clears the rows that are left.\<close>

definition scroll_up :: "frame_buffer \<Rightarrow> screen \<Rightarrow> screen" where
  "scroll_up self s =
     (let ppsl = pixels_per_scanline self;
          s = fold (\<lambda>y. fold (\<lambda>x s. s(y * ppsl + x := s ((y + VBUF_GLYPH_HEIGHT) * ppsl + x))) [0..<width self])
                [0..<height self - VBUF_GLYPH_HEIGHT] s
      in fold (\<lambda>y. fold (\<lambda>x s. s(y * ppsl + x := 0)) [0..<width self])
           [height self - VBUF_GLYPH_HEIGHT..<height self] s)"

definition clear_screen :: "frame_buffer \<Rightarrow> screen \<Rightarrow> screen" where
  "clear_screen self =
     fold (\<lambda>y. fold (\<lambda>x s. s(y * pixels_per_scanline self + x := 0)) [0..<width self]) [0..<height self]"

subsection \<open>The history ring\<close>

definition logical_row :: "frame_buffer \<Rightarrow> nat \<Rightarrow> nat" where
  "logical_row self index = ((base self + index) mod hist_rows self) * cols self"

definition row_cells :: "frame_buffer \<Rightarrow> nat \<Rightarrow> u8 list" where
  "row_cells self start = take (cols self) (drop start (content self))"

definition clear_logical_row :: "frame_buffer \<Rightarrow> nat \<Rightarrow> frame_buffer" where
  "clear_logical_row self index =
     self\<lparr>content := fold (\<lambda>col cs. cs[logical_row self index + col := 0]) [0..<cols self] (content self)\<rparr>"

definition os_vbuf_max_view_offset :: "frame_buffer \<Rightarrow> nat" where
  "os_vbuf_max_view_offset self = count self - rows self"

definition os_vbuf_visible_row :: "frame_buffer \<Rightarrow> nat \<Rightarrow> nat option" where
  "os_vbuf_visible_row self screen_row =
     (if rows self \<le> screen_row then None
      else Some (logical_row self (count self - rows self - view_offset self + screen_row)))"

definition content_scroll_up :: "frame_buffer \<Rightarrow> frame_buffer" where
  "content_scroll_up self =
     (let self = (if count self < hist_rows self then self\<lparr>count := count self + 1\<rparr>
                  else self\<lparr>base := (base self + 1) mod hist_rows self\<rparr>)
      in clear_logical_row self (count self - 1))"

definition content_put :: "frame_buffer \<Rightarrow> nat \<Rightarrow> nat \<Rightarrow> u8 \<Rightarrow> frame_buffer" where
  "content_put self col row c =
     (if rows self \<le> row \<or> cols self \<le> col then self
      else self\<lparr>content := (content self)[logical_row self (count self - rows self + row) + col := c]\<rparr>)"

subsection \<open>Rendering and scrolling back\<close>

text \<open>The digits of \<open>indicator_put_uint\<close>; its buffer takes 12.\<close>

primrec indicator_digits :: "nat \<Rightarrow> nat \<Rightarrow> string" where
  "indicator_digits 0 v = []"
| "indicator_digits (Suc n) v = (if v = 0 then [] else indicator_digits n (v div 10) @ [char_of (48 + v mod 10)])"

definition indicator_put :: "string \<Rightarrow> string \<Rightarrow> string" where
  "indicator_put text s = text @ take (VBUF_INDICATOR_MAX - 1 - length text) s"

definition indicator_put_uint :: "string \<Rightarrow> nat \<Rightarrow> string" where
  "indicator_put_uint text v = indicator_put text (if v = 0 then ''0'' else indicator_digits 12 v)"

definition indicator_text :: "frame_buffer \<Rightarrow> string" where
  "indicator_text self =
     (let text = indicator_put [] ''-- SCROLL '';
          text = indicator_put_uint text (view_offset self);
          text = indicator_put text ''/'';
          text = indicator_put_uint text (os_vbuf_max_view_offset self)
      in indicator_put text '' --'')"

definition draw_scroll_indicator :: "font \<Rightarrow> frame_buffer \<Rightarrow> screen \<Rightarrow> screen" where
  "draw_scroll_indicator font self s =
     (let text = indicator_text self;
          y = (rows self - 1) * VBUF_GLYPH_HEIGHT;
          s = fold (\<lambda>row. fold (\<lambda>x s. s((y + row) * pixels_per_scanline self + x := 0)) [0..<width self])
                [0..<VBUF_GLYPH_HEIGHT] s
      in fold (\<lambda>i. draw_char font (pixels_per_scanline self) (i * VBUF_GLYPH_WIDTH) y (of_nat (of_char (text ! i))) WHITE)
           [0..<min (length text) (cols self)] s)"

definition draw_row :: "font \<Rightarrow> frame_buffer \<Rightarrow> nat \<Rightarrow> u8 list \<Rightarrow> screen \<Rightarrow> screen" where
  "draw_row font self y row =
     fold (\<lambda>x s. let c = row ! x
       in if c \<noteq> 0
          then draw_char font (pixels_per_scanline self) (x * VBUF_GLYPH_WIDTH) (y * VBUF_GLYPH_HEIGHT) c WHITE s
          else s) [0..<cols self]"

definition render_frame_buffer :: "font \<Rightarrow> frame_buffer \<Rightarrow> screen \<Rightarrow> screen" where
  "render_frame_buffer font self s =
     (let s = clear_screen self s;
          s = fold (\<lambda>y s. case os_vbuf_visible_row self y of
                None \<Rightarrow> s
              | Some start \<Rightarrow> draw_row font self y (row_cells self start) s) [0..<rows self] s
      in if view_offset self \<noteq> 0 then draw_scroll_indicator font self s else draw_cursor self s)"

definition get_active_frame_buffer :: "console \<Rightarrow> frame_buffer" where
  "get_active_frame_buffer con = frame_buffers con ! active_index con"

definition update_fb :: "nat \<Rightarrow> (frame_buffer \<Rightarrow> frame_buffer) \<Rightarrow> console \<Rightarrow> console" where
  "update_fb i f con = con\<lparr>frame_buffers := (frame_buffers con)[i := f (frame_buffers con ! i)]\<rparr>"

definition draw_with :: "(frame_buffer \<Rightarrow> screen \<Rightarrow> screen) \<Rightarrow> nat \<Rightarrow> console \<Rightarrow> console" where
  "draw_with draw i con = con\<lparr>pixels := draw (frame_buffers con ! i) (pixels con)\<rparr>"

definition draw_if_active :: "(frame_buffer \<Rightarrow> screen \<Rightarrow> screen) \<Rightarrow> nat \<Rightarrow> console \<Rightarrow> console" where
  "draw_if_active draw i con = (if is_active i con then draw_with draw i con else con)"

definition os_vbuf_scroll :: "font \<Rightarrow> int \<Rightarrow> console \<Rightarrow> console" where
  "os_vbuf_scroll font delta_rows con =
     (let i = active_index con; self = frame_buffers con ! i;
          nxt = int (view_offset self) - delta_rows;
          nxt = (if nxt < 0 then 0 else nxt);
          nxt = (if int (os_vbuf_max_view_offset self) < nxt then int (os_vbuf_max_view_offset self) else nxt)
      in if nat nxt = view_offset self then con
         else draw_with (render_frame_buffer font) i (update_fb i (\<lambda>fb. fb\<lparr>view_offset := nat nxt\<rparr>) con))"

definition os_vbuf_scroll_to_bottom :: "font \<Rightarrow> console \<Rightarrow> console" where
  "os_vbuf_scroll_to_bottom font con =
     (let i = active_index con
      in if view_offset (frame_buffers con ! i) = 0 then con
         else draw_with (render_frame_buffer font) i (update_fb i (\<lambda>fb. fb\<lparr>view_offset := 0\<rparr>) con))"

definition os_vbuf_screen_rows :: "console \<Rightarrow> nat" where
  "os_vbuf_screen_rows con = rows (get_active_frame_buffer con)"

subsection \<open>Output\<close>

definition newline :: "nat \<Rightarrow> console \<Rightarrow> console" where
  "newline i con =
     (let con = update_fb i (\<lambda>fb. fb\<lparr>cursor_position_x := 0, cursor_position_y := cursor_position_y fb + 1\<rparr>) con;
          self = frame_buffers con ! i
      in if rows self \<le> cursor_position_y self
         then (let con = update_fb i content_scroll_up con;
                   con = draw_if_active scroll_up i con
               in update_fb i (\<lambda>fb. fb\<lparr>cursor_position_y := cursor_position_y fb - 1\<rparr>) con)
         else con)"

definition write_char :: "font \<Rightarrow> nat \<Rightarrow> u8 \<Rightarrow> console \<Rightarrow> console" where
  "write_char font i c con =
     (let con = (if view_offset (frame_buffers con ! i) \<noteq> 0
                 then draw_if_active (render_frame_buffer font) i (update_fb i (\<lambda>fb. fb\<lparr>view_offset := 0\<rparr>) con)
                 else con);
          con = draw_if_active erase_cursor i con
      in if c = 0x0A then draw_if_active draw_cursor i (newline i con)
         else (let con = update_fb i (\<lambda>fb. content_put fb (cursor_position_x fb) (cursor_position_y fb) c) con;
                   con = draw_if_active (\<lambda>fb. draw_char font (pixels_per_scanline fb) (cursor_x fb) (cursor_y fb) c WHITE) i con;
                   con = update_fb i (\<lambda>fb. fb\<lparr>cursor_position_x := cursor_position_x fb + 1\<rparr>) con;
                   self = frame_buffers con ! i;
                   con = (if cols self \<le> cursor_position_x self then newline i con else con)
               in draw_if_active draw_cursor i con))"

definition write_string :: "font \<Rightarrow> nat \<Rightarrow> string \<Rightarrow> console \<Rightarrow> console" where
  "write_string font i s = fold (write_char font i) (map (of_nat \<circ> of_char) (cstr s))"

definition switch_active_frame_buffer :: "font \<Rightarrow> nat \<Rightarrow> console \<Rightarrow> console" where
  "switch_active_frame_buffer font index con =
     (if VBUF_COUNT \<le> index \<or> index = active_index con then con
      else draw_with (render_frame_buffer font) index (con\<lparr>active_index := index\<rparr>))"

subsection \<open>Initialisation\<close>

definition os_vbuf_effective_hist_rows :: "nat \<Rightarrow> nat \<Rightarrow> nat" where
  "os_vbuf_effective_hist_rows h hist = (let rows = h div VBUF_GLYPH_HEIGHT in if hist < rows then rows else hist)"

definition os_vbuf_content_bytes :: "nat \<Rightarrow> nat \<Rightarrow> nat \<Rightarrow> nat" where
  "os_vbuf_content_bytes w h hist = (w div VBUF_GLYPH_WIDTH) * os_vbuf_effective_hist_rows h hist * VBUF_COUNT"

text \<open>Each buffer gets its share of the content area, cleared.\<close>

definition initialize_virtual_buffers :: "nat \<Rightarrow> nat \<Rightarrow> nat \<Rightarrow> nat \<Rightarrow> screen \<Rightarrow> console" where
  "initialize_virtual_buffers w h ppsl hist s =
     (let cols = w div VBUF_GLYPH_WIDTH; rows = h div VBUF_GLYPH_HEIGHT;
          hist = os_vbuf_effective_hist_rows h hist;
          fb = \<lparr>width = w, height = h, pixels_per_scanline = ppsl, cursor_position_x = 0, cursor_position_y = 0,
                content = replicate (cols * hist) 0, cols = cols, rows = rows, hist_rows = hist, base = 0,
                count = rows, view_offset = 0\<rparr>
      in \<lparr>frame_buffers = replicate VBUF_COUNT fb, active_index = 0, pixels = s\<rparr>)"

subsection \<open>What a drawing loop does to a pixel\<close>

lemma fold_draw:
  "fold (\<lambda>i s. if P i then s(f i := c) else s) is s = (\<lambda>p. if \<exists>i \<in> set is. P i \<and> f i = p then c else s p)"
  by (induction "is" arbitrary: s) (auto simp: fun_eq_iff)

lemma fold_draw2:
  "fold (\<lambda>row. fold (\<lambda>col s. if P row col then s(f row col := c) else s) xs) ys s =
     (\<lambda>p. if \<exists>row \<in> set ys. \<exists>col \<in> set xs. P row col \<and> f row col = p then c else s p)"
  unfolding fold_draw by (induction ys arbitrary: s) (auto simp: fun_eq_iff)

lemmas fold_fill2 = fold_draw2 [where P = "\<lambda>_ _. True", simplified]

lemma pixel_index: "(x :: nat) < ppsl \<Longrightarrow> x' < ppsl \<Longrightarrow> y * ppsl + x = y' * ppsl + x' \<longleftrightarrow> y = y' \<and> x = x'"
proof
  assume x: "x < ppsl" "x' < ppsl" and eq: "y * ppsl + x = y' * ppsl + x'"
  have "y = (y * ppsl + x) div ppsl" "x = (y * ppsl + x) mod ppsl" using x(1) by simp_all
  moreover have "(y' * ppsl + x') div ppsl = y'" "(y' * ppsl + x') mod ppsl = x'" using x(2) by simp_all
  ultimately show "y = y' \<and> x = x'" unfolding eq by simp
qed simp

text \<open>The glyph cell of a pixel.\<close>

lemma in_cell:
  "Y < cy * 16 + 16 \<and> cy * 16 \<le> Y \<longleftrightarrow> Y div 16 = (cy :: nat)" "X < cx * 8 + 8 \<and> cx * 8 \<le> X \<longleftrightarrow> X div 8 = (cx :: nat)"
  by (auto simp: div_nat_eqI)

lemma draw_char_at:
  assumes "cx * 8 + 8 \<le> ppsl" "X < ppsl"
  shows "draw_char font ppsl (cx * 8) (cy * 16) c color s (Y * ppsl + X) =
    (if Y div 16 = cy \<and> X div 8 = cx \<and> glyph_bit font c (Y mod 16) (X mod 8) then color else s (Y * ppsl + X))"
proof -
  have "(\<exists>row \<in> {0..<16}. \<exists>col \<in> {0..<8}. glyph_bit font c row col \<and> (cy * 16 + row) * ppsl + (cx * 8 + col) = Y * ppsl + X) \<longleftrightarrow>
      Y div 16 = cy \<and> X div 8 = cx \<and> glyph_bit font c (Y mod 16) (X mod 8)" (is "?l \<longleftrightarrow> ?r")
  proof
    assume ?l
    then obtain row col where rc: "row < 16" "col < 8" "glyph_bit font c row col" "(cy * 16 + row) * ppsl + (cx * 8 + col) = Y * ppsl + X"
      by auto
    then have "Y = cy * 16 + row" "X = cx * 8 + col"
      using pixel_index [of "cx * 8 + col" ppsl X "cy * 16 + row" Y] assms by auto
    then show ?r using rc by simp
  next
    assume r: ?r
    then have "Y = cy * 16 + Y mod 16" "X = cx * 8 + X mod 8" by (metis div_mult_mod_eq)+
    then show ?l using r by (intro bexI [of _ "Y mod 16"] bexI [of _ "X mod 8"]) auto
  qed
  then show ?thesis
    unfolding draw_char_def VBUF_GLYPH_HEIGHT_def VBUF_GLYPH_WIDTH_def fold_draw2 set_upt by simp
qed

lemma fill_cell_at:
  assumes "cx * 8 + 8 \<le> ppsl" "X < ppsl"
  shows "fill_cell ppsl (cx * 8) (cy * 16) color s (Y * ppsl + X) =
    (if Y div 16 = cy \<and> X div 8 = cx then color else s (Y * ppsl + X))"
proof -
  have "(\<exists>row \<in> {0..<16}. \<exists>col \<in> {0..<8}. (cy * 16 + row) * ppsl + (cx * 8 + col) = Y * ppsl + X) \<longleftrightarrow>
      Y div 16 = cy \<and> X div 8 = cx" (is "?l \<longleftrightarrow> ?r")
  proof
    assume ?l
    then obtain row col where rc: "row < 16" "col < 8" "(cy * 16 + row) * ppsl + (cx * 8 + col) = Y * ppsl + X"
      by auto
    then have "Y = cy * 16 + row" "X = cx * 8 + col"
      using pixel_index [of "cx * 8 + col" ppsl X "cy * 16 + row" Y] assms by auto
    then show ?r using rc by simp
  next
    assume r: ?r
    then have "Y = cy * 16 + Y mod 16" "X = cx * 8 + X mod 8" by (metis div_mult_mod_eq)+
    then show ?l by (intro bexI [of _ "Y mod 16"] bexI [of _ "X mod 8"]) auto
  qed
  then show ?thesis
    unfolding fill_cell_def VBUF_GLYPH_HEIGHT_def VBUF_GLYPH_WIDTH_def fold_fill2 set_upt by simp
qed

lemma fill_rows_at:
  assumes "w \<le> ppsl" "X < w"
  shows "fold (\<lambda>y. fold (\<lambda>x s. s(y * ppsl + x := color)) [0..<w]) [a..<b] s (Y * ppsl + X) =
    (if a \<le> Y \<and> Y < b then color else s (Y * ppsl + X))"
proof -
  have "(\<exists>y \<in> {a..<b}. \<exists>x \<in> {0..<w}. y * ppsl + x = Y * ppsl + X) \<longleftrightarrow> a \<le> Y \<and> Y < b"
    using pixel_index [of _ ppsl X _ Y] assms by fastforce
  then show ?thesis unfolding fold_fill2 set_upt by simp
qed

text \<open>Copying upwards reads only rows that have not been written yet.\<close>

lemma copy_rows_at:
  assumes "w \<le> ppsl" "X < w" "0 < h"
  shows "fold (\<lambda>y. fold (\<lambda>x s. s(y * ppsl + x := s ((y + h) * ppsl + x))) [0..<w]) [0..<n] (s :: screen) (Y * ppsl + X) =
    (if Y < n then s ((Y + h) * ppsl + X) else s (Y * ppsl + X))"
  using assms(2)
proof (induction n arbitrary: Y X)
  case (Suc n)
  define S where "S = fold (\<lambda>y. fold (\<lambda>x s. s(y * ppsl + x := s ((y + h) * ppsl + x))) [0..<w]) [0..<n] s"
  have ih: "S (Y * ppsl + X) = (if Y < n then s ((Y + h) * ppsl + X) else s (Y * ppsl + X))" if "X < w" for X Y
    unfolding S_def by (rule Suc.IH [OF that])
  have row: "fold (\<lambda>x s. s(n * ppsl + x := s ((n + h) * ppsl + x))) [0..<k] t (Y * ppsl + X) =
      (if Y = n \<and> X < k then t ((n + h) * ppsl + X) else t (Y * ppsl + X))" if "k \<le> w" "X < w" for k and t :: "nat \<Rightarrow> _" and Y X
    using that
  proof (induction k arbitrary: X Y)
    case (Suc k)
    define T where "T = fold (\<lambda>x s. s(n * ppsl + x := s ((n + h) * ppsl + x))) [0..<k] t"
    have k: "k \<le> w" "k < w" using Suc.prems by simp_all
    have "T ((n + h) * ppsl + k) = (if n + h = n \<and> k < k then t ((n + h) * ppsl + k) else t ((n + h) * ppsl + k))"
      unfolding T_def by (rule Suc.IH [OF k])
    then have "T ((n + h) * ppsl + k) = t ((n + h) * ppsl + k)" by (simp only: if_cancel)
    moreover have "T (Y * ppsl + X) = (if Y = n \<and> X < k then t ((n + h) * ppsl + X) else t (Y * ppsl + X))"
      unfolding T_def by (rule Suc.IH [OF k(1) Suc.prems(2)])
    moreover have "n * ppsl + k = Y * ppsl + X \<longleftrightarrow> n = Y \<and> k = X"
      using pixel_index [of k ppsl X n Y] Suc.prems assms(1) k by simp
    ultimately have "(T(n * ppsl + k := T ((n + h) * ppsl + k))) (Y * ppsl + X) =
        (if Y = n \<and> X < Suc k then t ((n + h) * ppsl + X) else t (Y * ppsl + X))"
      by (auto simp: less_Suc_eq)
    moreover have "fold (\<lambda>x s. s(n * ppsl + x := s ((n + h) * ppsl + x))) [0..<Suc k] t =
        T(n * ppsl + k := T ((n + h) * ppsl + k))" by (simp add: T_def)
    ultimately show ?case by (simp only:)
  qed simp
  have "fold (\<lambda>y. fold (\<lambda>x s. s(y * ppsl + x := s ((y + h) * ppsl + x))) [0..<w]) [0..<Suc n] s =
      fold (\<lambda>x s. s(n * ppsl + x := s ((n + h) * ppsl + x))) [0..<w] S" by (simp add: S_def)
  moreover have "fold (\<lambda>x s. s(n * ppsl + x := s ((n + h) * ppsl + x))) [0..<w] S (Y * ppsl + X) =
      (if Y = n \<and> X < w then S ((n + h) * ppsl + X) else S (Y * ppsl + X))"
    using row [of w X S Y] Suc.prems by blast
  ultimately show ?case using ih [of X] Suc.prems assms(3) by (simp only: less_Suc_eq) auto
qed simp

subsection \<open>The history as a list of rows\<close>

definition history :: "frame_buffer \<Rightarrow> u8 list list" where
  "history self = map (\<lambda>i. row_cells self (logical_row self i)) [0..<count self]"

definition fb_ok :: "frame_buffer \<Rightarrow> bool" where
  "fb_ok fb \<longleftrightarrow> 0 < cols fb \<and> 0 < rows fb \<and> cols fb * 8 \<le> width fb \<and> rows fb * 16 \<le> height fb \<and>
     height fb < rows fb * 16 + 16 \<and> width fb \<le> pixels_per_scanline fb \<and>
     rows fb \<le> count fb \<and> count fb \<le> hist_rows fb \<and> base fb < hist_rows fb \<and>
     length (content fb) = cols fb * hist_rows fb \<and>
     cursor_position_x fb < cols fb \<and> cursor_position_y fb < rows fb \<and> view_offset fb \<le> count fb - rows fb"

lemma fb_okD:
  assumes "fb_ok fb"
  shows "0 < cols fb" "0 < rows fb" "cols fb * 8 \<le> width fb" "rows fb * 16 \<le> height fb" "height fb < rows fb * 16 + 16"
    "width fb \<le> pixels_per_scanline fb" "rows fb \<le> count fb" "count fb \<le> hist_rows fb" "base fb < hist_rows fb"
    "length (content fb) = cols fb * hist_rows fb" "cursor_position_x fb < cols fb" "cursor_position_y fb < rows fb"
    "view_offset fb \<le> count fb - rows fb"
  using assms by (auto simp: fb_ok_def)

lemma ring_inj: "i < n \<Longrightarrow> j < n \<Longrightarrow> (b + i) mod n = (b + j) mod n \<longleftrightarrow> i = (j :: nat)"
proof (induction i j rule: linorder_wlog)
  case (le i j)
  have "i = j" if eq: "(b + j) mod n = (b + i) mod n"
  proof -
    have "n dvd (b + j) - (b + i)" using eq le by (subst mod_eq_dvd_iff_nat [symmetric]) simp_all
    then show ?thesis using le dvd_imp_le [of n "j - i"] by force
  qed
  then show ?case by auto
qed auto

lemma row_index:
  assumes "(k :: nat) * c + x = k' * c + x'" "x < c" "x' < c"
  shows "k = k' \<and> x = x'"
  using assms by (metis pixel_index)

lemma row_end:
  assumes "(k :: nat) < n" "x < c"
  shows "k * c + x < c * n"
proof -
  have "k * c + x < Suc k * c" using assms(2) by simp
  also have "\<dots> \<le> n * c" using assms(1) by (intro mult_le_mono1) simp
  finally show ?thesis by (simp add: mult.commute)
qed

lemma row_fits: "(k :: nat) < n \<Longrightarrow> k * c + c \<le> c * n"
  using mult_le_mono1 [of "Suc k" n c] by (simp add: mult.commute add.commute)

text \<open>Overwriting a stretch of the history with one value.\<close>

lemma fold_put_length: "length (fold (\<lambda>i cs. cs[a + i := v]) [0..<n] cs) = length cs"
  by (induction n) auto

lemma fold_put_nth:
  "j < length cs \<Longrightarrow> fold (\<lambda>i cs. cs[a + i := v]) [0..<n] cs ! j = (if a \<le> j \<and> j < a + n then v else cs ! j)"
  by (induction n) (auto simp: nth_list_update fold_put_length less_Suc_eq)

lemma row_cells_nth: "start + cols fb \<le> length (content fb) \<Longrightarrow> x < cols fb \<Longrightarrow> row_cells fb start ! x = content fb ! (start + x)"
  by (simp add: row_cells_def)

lemma length_row_cells: "start + cols fb \<le> length (content fb) \<Longrightarrow> length (row_cells fb start) = cols fb"
  by (simp add: row_cells_def)

lemma logical_row_simps [simp]:
  "logical_row (fb\<lparr>content := cs\<rparr>) = logical_row fb" "logical_row (fb\<lparr>view_offset := v\<rparr>) = logical_row fb"
  "logical_row (fb\<lparr>cursor_position_x := x\<rparr>) = logical_row fb" "logical_row (fb\<lparr>cursor_position_y := x\<rparr>) = logical_row fb"
  "logical_row (fb\<lparr>count := k\<rparr>) = logical_row fb"
  by (simp_all add: logical_row_def fun_eq_iff)

lemma length_history [simp]: "length (history fb) = count fb" by (simp add: history_def)

lemma history_nth: "i < count fb \<Longrightarrow> history fb ! i = row_cells fb (logical_row fb i)" by (simp add: history_def)

lemma history_row:
  assumes "fb_ok fb" "i < count fb"
  shows "logical_row fb i + cols fb \<le> length (content fb)" "length (history fb ! i) = cols fb"
    "x < cols fb \<Longrightarrow> history fb ! i ! x = content fb ! (logical_row fb i + x)"
proof -
  show *: "logical_row fb i + cols fb \<le> length (content fb)"
    unfolding logical_row_def using fb_okD [OF assms(1)] assms(2) by (metis row_fits mod_less_divisor less_le_trans)
  then show "length (history fb ! i) = cols fb" "x < cols fb \<Longrightarrow> history fb ! i ! x = content fb ! (logical_row fb i + x)"
    using assms(2) by (simp_all add: history_nth length_row_cells row_cells_nth)
qed

lemma history_eqI:
  assumes "fb_ok fb" "length h = count fb" "\<And>i. i < count fb \<Longrightarrow> length (h ! i) = cols fb"
    "\<And>i x. i < count fb \<Longrightarrow> x < cols fb \<Longrightarrow> content fb ! (logical_row fb i + x) = h ! i ! x"
  shows "history fb = h"
  by (rule nth_equalityI, use assms in simp) (rule nth_equalityI, use assms history_row in simp_all)

lemma content_put_ok:
  "fb_ok fb \<Longrightarrow> fb_ok (content_put fb x y c)"
  by (auto simp: fb_ok_def content_put_def)

lemma history_content_put:
  assumes ok: "fb_ok fb" and x: "x < cols fb" and y: "y < rows fb"
  shows "history (content_put fb x y c) = (history fb)[count fb - rows fb + y := (history fb ! (count fb - rows fb + y))[x := c]]"
    (is "_ = ?h")
proof (rule history_eqI)
  let ?fb = "content_put fb x y c" and ?k = "count fb - rows fb + y"
  have f [simp]: "cols ?fb = cols fb" "count ?fb = count fb" "logical_row ?fb = logical_row fb"
    by (simp_all add: content_put_def logical_row_def fun_eq_iff)
  have k: "?k < count fb" using fb_okD(7) [OF ok] y by simp
  show "fb_ok ?fb" using ok by (rule content_put_ok)
  show "length ?h = count ?fb" by simp
  show "length (?h ! i) = cols ?fb" if "i < count ?fb" for i
    using that k by (simp add: nth_list_update history_row [OF ok])
  show "content ?fb ! (logical_row ?fb i + x') = ?h ! i ! x'" if i: "i < count ?fb" and x': "x' < cols ?fb" for i x'
  proof -
    have "logical_row fb ?k + x = logical_row fb i + x' \<longleftrightarrow> ?k = i \<and> x = x'"
      using row_index [of _ "cols fb" x _ x'] ring_inj [of ?k "hist_rows fb" i "base fb"] x x' i k fb_okD(8) [OF ok]
      by (auto simp: logical_row_def)
    moreover have "logical_row fb ?k + x < length (content fb)" using history_row(1) [OF ok k] x by simp
    ultimately show ?thesis
      using i x' k x y by (auto simp: content_put_def nth_list_update history_row [OF ok])
  qed
qed

text \<open>One row further: the oldest row is dropped once the ring is full.\<close>

definition ring_advance :: "frame_buffer \<Rightarrow> frame_buffer" where
  "ring_advance fb = (if count fb < hist_rows fb then fb\<lparr>count := count fb + 1\<rparr>
     else fb\<lparr>base := (base fb + 1) mod hist_rows fb\<rparr>)"

lemma content_scroll_up_eq: "content_scroll_up fb = clear_logical_row (ring_advance fb) (count (ring_advance fb) - 1)"
  by (simp add: content_scroll_up_def ring_advance_def Let_def)

lemma content_scroll_up_ok: "fb_ok fb \<Longrightarrow> fb_ok (content_scroll_up fb)"
  by (auto simp: fb_ok_def content_scroll_up_def clear_logical_row_def fold_put_length Let_def)

lemma content_scroll_up_fields [simp]:
  "cols (content_scroll_up fb) = cols fb" "rows (content_scroll_up fb) = rows fb" "width (content_scroll_up fb) = width fb"
  "height (content_scroll_up fb) = height fb" "pixels_per_scanline (content_scroll_up fb) = pixels_per_scanline fb"
  "hist_rows (content_scroll_up fb) = hist_rows fb" "view_offset (content_scroll_up fb) = view_offset fb"
  "cursor_position_x (content_scroll_up fb) = cursor_position_x fb" "cursor_position_y (content_scroll_up fb) = cursor_position_y fb"
  by (auto simp: content_scroll_up_def clear_logical_row_def Let_def)

lemma history_content_scroll_up:
  assumes ok: "fb_ok fb"
  shows "history (content_scroll_up fb) = (if count fb < hist_rows fb then history fb else tl (history fb)) @ [replicate (cols fb) 0]"
    (is "_ = ?h")
proof (rule history_eqI)
  let ?fb = "content_scroll_up fb" and ?a = "ring_advance fb"
  note D = fb_okD [OF ok]
  show "fb_ok ?fb" using ok by (rule content_scroll_up_ok)
  have c: "count ?fb = count ?a" "0 < count fb" "logical_row ?fb = logical_row ?a" "cols ?a = cols fb" "content ?a = content fb"
    "hist_rows ?a = hist_rows fb" "0 < count ?a" "count ?a \<le> hist_rows fb"
    using D by (auto simp: content_scroll_up_eq clear_logical_row_def ring_advance_def)
  show "length ?h = count ?fb" using c(2) D(8) unfolding c(1) by (simp add: ring_advance_def)
  show "length (?h ! i) = cols ?fb" if "i < count ?fb" for i
    using that D unfolding c(1) by (auto simp: ring_advance_def nth_append nth_tl history_row [OF ok] split: if_splits)
  show "content ?fb ! (logical_row ?fb i + x) = ?h ! i ! x" if i: "i < count ?fb" and x: "x < cols ?fb" for i x
  proof -
    let ?l = "count ?a - 1"
    have x': "x < cols fb" using x by simp
    have i': "i < count ?a" using i c(1) by simp
    have in_row: "logical_row ?a ?l \<le> logical_row ?a i + x \<and> logical_row ?a i + x < logical_row ?a ?l + cols fb \<longleftrightarrow> i = ?l"
    proof
      assume b: "logical_row ?a ?l \<le> logical_row ?a i + x \<and> logical_row ?a i + x < logical_row ?a ?l + cols fb"
      define z where "z = logical_row ?a i + x - logical_row ?a ?l"
      have "logical_row ?a i + x = logical_row ?a ?l + z" "z < cols fb" using b by (auto simp: z_def)
      then show "i = ?l"
        using row_index [of _ "cols fb" x _ z] ring_inj [of i "hist_rows fb" ?l "base ?a"] x' i' c by (auto simp: logical_row_def)
    qed (use x' in auto)
    have k: "logical_row ?a i + x < length (content fb)"
      unfolding logical_row_def c(4,6) D(10) using x' D(9) by (intro row_end mod_less_divisor) auto
    have "content ?fb ! (logical_row ?a i + x) = (if i = ?l then 0 else content fb ! (logical_row ?a i + x))"
      using fold_put_nth [of "logical_row ?a i + x" "content fb" "logical_row ?a ?l" 0 "cols fb"] k in_row
      by (simp add: content_scroll_up_eq clear_logical_row_def c)
    also have "\<dots> = ?h ! i ! x"
    proof (cases "count fb < hist_rows fb")
      case True
      then show ?thesis using i' x' by (auto simp: ring_advance_def nth_append history_row [OF ok] less_Suc_eq)
    next
      case False
      then have "logical_row ?a i = logical_row fb (Suc i)" by (simp add: ring_advance_def logical_row_def mod_simps)
      then show ?thesis using i' x' False c(2) by (auto simp: ring_advance_def nth_append nth_tl history_row [OF ok])
    qed
    finally show ?thesis unfolding c(3) .
  qed
qed

subsection \<open>What the history promises\<close>

text \<open>
  The specification: text wrapped at the width of the screen, the rows that are finished and
  the one the cursor stands in. The history keeps the last rows of it, padded to a screen.
\<close>

type_synonym page = "u8 list list \<times> u8 list"

fun put_page :: "nat \<Rightarrow> u8 \<Rightarrow> page \<Rightarrow> page" where
  "put_page w c (finished, cur) =
     (if c = 0x0A then (finished @ [cur], [])
      else if w \<le> length cur + 1 then (finished @ [cur @ [c]], []) else (finished, cur @ [c]))"

definition page_of :: "nat \<Rightarrow> u8 list \<Rightarrow> page" where "page_of w cs = fold (put_page w) cs ([], [])"

definition padded :: "nat \<Rightarrow> u8 list \<Rightarrow> u8 list" where "padded w r = r @ replicate (w - length r) 0"

fun page_rows :: "nat \<Rightarrow> nat \<Rightarrow> page \<Rightarrow> u8 list list" where
  "page_rows w h (finished, cur) =
     map (padded w) (finished @ [cur]) @ replicate (h - length finished - 1) (replicate w 0)"

definition last_n :: "nat \<Rightarrow> 'a list \<Rightarrow> 'a list" where "last_n n xs = drop (length xs - n) xs"

lemma last_n_snoc: "0 < n \<Longrightarrow> last_n n (xs @ [x]) = (if length xs < n then last_n n xs else tl (last_n n xs)) @ [x]"
  by (auto simp: last_n_def drop_Suc tl_drop Suc_diff_le not_less)

lemma length_last_n: "length (last_n n xs) = min n (length xs)" by (auto simp: last_n_def)

definition fb_rows :: "frame_buffer \<Rightarrow> page \<Rightarrow> bool" where
  "fb_rows fb p \<longleftrightarrow> history fb = last_n (hist_rows fb) (page_rows (cols fb) (rows fb) p) \<and>
     cursor_position_y fb = min (length (fst p)) (rows fb - 1)"

text \<open>The effect of the output operations on one buffer, apart from the screen.\<close>

definition newline_fb :: "frame_buffer \<Rightarrow> frame_buffer" where
  "newline_fb fb =
     (let fb = fb\<lparr>cursor_position_x := 0, cursor_position_y := cursor_position_y fb + 1\<rparr>
      in if rows fb \<le> cursor_position_y fb
         then (let fb = content_scroll_up fb in fb\<lparr>cursor_position_y := cursor_position_y fb - 1\<rparr>) else fb)"

definition write_fb :: "u8 \<Rightarrow> frame_buffer \<Rightarrow> frame_buffer" where
  "write_fb c fb =
     (let fb = fb\<lparr>view_offset := 0\<rparr>
      in if c = 0x0A then newline_fb fb
         else (let fb = content_put fb (cursor_position_x fb) (cursor_position_y fb) c;
                   fb = fb\<lparr>cursor_position_x := cursor_position_x fb + 1\<rparr>
               in if cols fb \<le> cursor_position_x fb then newline_fb fb else fb))"

lemma content_scroll_up_cursor [simp]:
  "content_scroll_up (fb\<lparr>cursor_position_x := x\<rparr>) = (content_scroll_up fb)\<lparr>cursor_position_x := x\<rparr>"
  "content_scroll_up (fb\<lparr>cursor_position_y := x\<rparr>) = (content_scroll_up fb)\<lparr>cursor_position_y := x\<rparr>"
  by (cases "count fb < hist_rows fb"; simp add: content_scroll_up_def clear_logical_row_def logical_row_def Let_def)+

lemma content_put_fields [simp]:
  "cols (content_put fb x y c) = cols fb" "rows (content_put fb x y c) = rows fb"
  "cursor_position_x (content_put fb x y c) = cursor_position_x fb" "cursor_position_y (content_put fb x y c) = cursor_position_y fb"
  "view_offset (content_put fb x y c) = view_offset fb" "width (content_put fb x y c) = width fb"
  "height (content_put fb x y c) = height fb" "pixels_per_scanline (content_put fb x y c) = pixels_per_scanline fb"
  "hist_rows (content_put fb x y c) = hist_rows fb" "count (content_put fb x y c) = count fb"
  by (simp_all add: content_put_def)

lemma newline_fb_eq:
  "newline_fb fb =
     (if rows fb \<le> cursor_position_y fb + 1
      then (content_scroll_up fb)\<lparr>cursor_position_x := 0, cursor_position_y := cursor_position_y fb\<rparr>
      else fb\<lparr>cursor_position_x := 0, cursor_position_y := cursor_position_y fb + 1\<rparr>)"
  by (simp add: newline_fb_def Let_def)

lemma history_cursor [simp]:
  "history (fb\<lparr>cursor_position_x := x\<rparr>) = history fb" "history (fb\<lparr>cursor_position_y := x\<rparr>) = history fb"
  "history (fb\<lparr>view_offset := x\<rparr>) = history fb"
  by (simp_all add: history_def row_cells_def)

lemma fb_rows_cursor [simp]:
  "fb_rows (fb\<lparr>cursor_position_x := x\<rparr>) p = fb_rows fb p" "fb_rows (fb\<lparr>view_offset := x\<rparr>) p = fb_rows fb p"
  by (simp_all add: fb_rows_def)

lemma newline_fb_ok:
  assumes "fb_ok (fb\<lparr>cursor_position_x := 0\<rparr>)"
  shows "fb_ok (newline_fb fb)"
proof -
  have "fb_ok (content_scroll_up (fb\<lparr>cursor_position_x := 0\<rparr>))" using assms by (rule content_scroll_up_ok)
  then show ?thesis using assms by (auto simp: newline_fb_eq fb_ok_def)
qed

lemma newline_fb_rows:
  assumes ok: "fb_ok (fb\<lparr>cursor_position_x := 0\<rparr>)" and r: "fb_rows fb (finished, cur)"
  shows "fb_rows (newline_fb fb) (finished @ [cur], [])"
proof -
  let ?fb = "fb\<lparr>cursor_position_x := 0\<rparr>"
  note D = fb_okD [OF ok, simplified]
  have y: "cursor_position_y fb = min (length finished) (rows fb - 1)" and
    h: "history fb = last_n (hist_rows fb) (page_rows (cols fb) (rows fb) (finished, cur))"
    using r by (auto simp: fb_rows_def)
  show ?thesis
  proof (cases "rows fb \<le> cursor_position_y fb + 1")
    case False
    then have l: "Suc (length finished) < rows fb" using y by (simp add: min_def split: if_splits)
    then have "rows fb - length finished - 1 = Suc (rows fb - length finished - 2)" by simp
    then have "page_rows (cols fb) (rows fb) (finished, cur) = page_rows (cols fb) (rows fb) (finished @ [cur], [])"
      by (simp add: padded_def)
    then show ?thesis using l y h by (simp add: fb_rows_def newline_fb_eq del: page_rows.simps)
  next
    case True
    then have l: "rows fb \<le> length finished + 1" using y by simp
    have H: "0 < hist_rows fb" using D(9) by simp
    have "history (content_scroll_up fb) =
        (if count fb < hist_rows fb then history fb else tl (history fb)) @ [replicate (cols fb) 0]"
      using history_content_scroll_up [OF ok] by simp
    moreover have "count fb = min (hist_rows fb) (length (page_rows (cols fb) (rows fb) (finished, cur)))"
      using length_history [of fb] unfolding h length_last_n by simp
    then have "count fb < hist_rows fb \<longleftrightarrow> length (page_rows (cols fb) (rows fb) (finished, cur)) < hist_rows fb" by auto
    moreover have "page_rows (cols fb) (rows fb) (finished @ [cur], []) =
        page_rows (cols fb) (rows fb) (finished, cur) @ [replicate (cols fb) 0]" using l by (simp add: padded_def)
    ultimately have "history (content_scroll_up fb) = last_n (hist_rows fb) (page_rows (cols fb) (rows fb) (finished @ [cur], []))"
      using H by (simp del: page_rows.simps add: h last_n_snoc)
    then show ?thesis using True y l by (simp add: fb_rows_def newline_fb_eq)
  qed
qed

lemma current_row:
  assumes ok: "fb_ok fb" and r: "fb_rows fb (finished, cur)"
  defines "P \<equiv> page_rows (cols fb) (rows fb) (finished, cur)" and "k \<equiv> count fb - rows fb + cursor_position_y fb"
  shows "length P - hist_rows fb + k = length finished" "history fb ! k = padded (cols fb) cur"
proof -
  note D = fb_okD [OF ok]
  have y: "cursor_position_y fb = min (length finished) (rows fb - 1)" and h: "history fb = last_n (hist_rows fb) P"
    using r by (auto simp: fb_rows_def P_def)
  have n: "count fb = min (hist_rows fb) (length P)" using length_history [of fb] unfolding h length_last_n by simp
  show k: "length P - hist_rows fb + k = length finished"
    using n y D(2,7,8,9) unfolding P_def k_def by (auto simp: min_def split: if_splits)
  have "drop (length P - hist_rows fb) P ! k = P ! (length P - hist_rows fb + k)" by (rule nth_drop) simp
  also have "\<dots> = padded (cols fb) cur" unfolding k unfolding P_def by (simp add: nth_append)
  finally show "history fb ! k = padded (cols fb) cur" unfolding h last_n_def .
qed

lemma put_fb_rows:
  assumes ok: "fb_ok fb" and r: "fb_rows fb (finished, cur)" and x: "cursor_position_x fb = length cur"
  shows "fb_rows (content_put fb (cursor_position_x fb) (cursor_position_y fb) c) (finished, cur @ [c])"
proof -
  note D = fb_okD [OF ok]
  let ?P = "page_rows (cols fb) (rows fb) (finished, cur)" and ?k = "count fb - rows fb + cursor_position_y fb"
  have y: "cursor_position_y fb = min (length finished) (rows fb - 1)" and h: "history fb = last_n (hist_rows fb) ?P"
    using r by (auto simp: fb_rows_def)
  note k = current_row [OF ok r]
  have "(padded (cols fb) cur)[length cur := c] = padded (cols fb) (cur @ [c])"
    using D(11) x by (cases "cols fb - length cur") (auto simp: padded_def list_update_append)
  moreover have "(last_n (hist_rows fb) ?P)[?k := v] = last_n (hist_rows fb) (?P[length finished := v])" for v
  proof -
    have "?k = length finished - (length ?P - hist_rows fb)" "length ?P - hist_rows fb \<le> length finished"
      using k(1) by linarith+
    then show ?thesis unfolding last_n_def by (simp add: drop_update_swap del: page_rows.simps)
  qed
  moreover have "?P[length finished := padded (cols fb) (cur @ [c])] = page_rows (cols fb) (rows fb) (finished, cur @ [c])"
    by (simp add: list_update_append)
  ultimately have "history (content_put fb (cursor_position_x fb) (cursor_position_y fb) c) =
      last_n (hist_rows fb) (page_rows (cols fb) (rows fb) (finished, cur @ [c]))"
    using history_content_put [OF ok D(11,12), of c] k(2) by (simp add: h x del: page_rows.simps)
  then show ?thesis using y by (simp add: fb_rows_def content_put_def)
qed

lemma put_cursor_ok: "fb_ok fb \<Longrightarrow> cursor_position_x fb + 1 < cols fb \<Longrightarrow>
    fb_ok ((content_put fb x y c)\<lparr>cursor_position_x := cursor_position_x fb + 1\<rparr>)"
  by (auto simp: fb_ok_def content_put_def)

definition fb_shows :: "frame_buffer \<Rightarrow> page \<Rightarrow> bool" where
  "fb_shows fb p \<longleftrightarrow> fb_rows fb p \<and> cursor_position_x fb = length (snd p)"

lemma write_fb_shows:
  assumes ok: "fb_ok fb" and s: "fb_shows fb p"
  shows "fb_ok (write_fb c fb) \<and> fb_shows (write_fb c fb) (put_page (cols fb) c p) \<and> view_offset (write_fb c fb) = 0"
proof -
  obtain finished cur where p: "p = (finished, cur)" by fastforce
  let ?fb = "fb\<lparr>view_offset := 0\<rparr>"
  let ?put = "(content_put ?fb (cursor_position_x fb) (cursor_position_y fb) c)\<lparr>cursor_position_x := cursor_position_x fb + 1\<rparr>"
  have ok': "fb_ok ?fb" "fb_ok (?fb\<lparr>cursor_position_x := 0\<rparr>)" using ok by (auto simp: fb_ok_def)
  have s': "fb_rows ?fb (finished, cur)" "cursor_position_x fb = length cur" using s by (simp_all add: fb_shows_def p)
  have v: "view_offset (newline_fb f) = view_offset f" "cursor_position_x (newline_fb f) = 0" "cols (newline_fb f) = cols f" for f
    by (simp_all add: newline_fb_eq)
  have put: "fb_rows ?put (finished, cur @ [c])"
    using put_fb_rows [OF ok'(1) s'(1)] s'(2) by simp
  have put_ok: "fb_ok (?put\<lparr>cursor_position_x := 0\<rparr>)" using content_put_ok [OF ok'(1)] fb_okD(1) [OF ok]
    by (simp add: fb_ok_def content_put_def)
  have w: "view_offset ?put = 0" "cols ?put = cols fb" by (simp_all add: content_put_def)
  show ?thesis
  proof (cases "c = 0x0A")
    case True
    then show ?thesis using newline_fb_ok [OF ok'(2)] newline_fb_rows [OF ok'(2) s'(1)]
      by (simp add: write_fb_def fb_shows_def p v)
  next
    case F: False
    show ?thesis
    proof (cases "cols fb \<le> length cur + 1")
      case True
      then have "write_fb c fb = newline_fb ?put" using F s'(2) w by (simp add: write_fb_def Let_def)
      then show ?thesis using newline_fb_ok [OF put_ok] newline_fb_rows [OF put_ok put] F True w
        by (simp add: fb_shows_def p v)
    next
      case False
      then have "write_fb c fb = ?put" using F s'(2) w by (simp add: write_fb_def Let_def)
      then show ?thesis using put_cursor_ok [OF ok'(1)] put F False s'(2) w by (simp add: fb_shows_def p)
    qed
  qed
qed

subsection \<open>What the screen shows\<close>

definition screen_row :: "frame_buffer \<Rightarrow> nat \<Rightarrow> u8 list" where
  "screen_row fb y = history fb ! (count fb - rows fb - view_offset fb + y)"

definition text_pixel :: "font \<Rightarrow> frame_buffer \<Rightarrow> nat \<Rightarrow> nat \<Rightarrow> u32" where
  "text_pixel font fb Y X =
     (if Y div 16 < rows fb \<and> X div 8 < cols fb \<and> screen_row fb (Y div 16) ! (X div 8) \<noteq> 0 \<and>
         glyph_bit font (screen_row fb (Y div 16) ! (X div 8)) (Y mod 16) (X mod 8)
      then WHITE else 0)"

definition text_shown :: "font \<Rightarrow> frame_buffer \<Rightarrow> screen \<Rightarrow> bool" where
  "text_shown font fb s \<longleftrightarrow> (\<forall>Y X. Y < height fb \<longrightarrow> X < width fb \<longrightarrow> s (Y * pixels_per_scanline fb + X) = text_pixel font fb Y X)"

definition cursor_shown :: "font \<Rightarrow> frame_buffer \<Rightarrow> screen \<Rightarrow> bool" where
  "cursor_shown font fb s \<longleftrightarrow> (\<forall>Y X. Y < height fb \<longrightarrow> X < width fb \<longrightarrow>
     s (Y * pixels_per_scanline fb + X) =
       (if Y div 16 = cursor_position_y fb \<and> X div 8 = cursor_position_x fb then WHITE else text_pixel font fb Y X))"

lemma visible_row:
  assumes "fb_ok fb" "y < rows fb"
  shows "\<exists>start. os_vbuf_visible_row fb y = Some start \<and> row_cells fb start = screen_row fb y"
    "length (screen_row fb y) = cols fb"
proof -
  have k: "count fb - rows fb - view_offset fb + y < count fb" using fb_okD [OF assms(1)] assms(2) by simp
  then show "\<exists>start. os_vbuf_visible_row fb y = Some start \<and> row_cells fb start = screen_row fb y"
    using assms(2) by (simp add: os_vbuf_visible_row_def screen_row_def history_nth)
  show "length (screen_row fb y) = cols fb" unfolding screen_row_def by (rule history_row(2) [OF assms(1) k])
qed

lemma put_screen_row:
  assumes "fb_ok fb" "view_offset fb = 0" "x < cols fb" "y < rows fb" "y' < rows fb"
  shows "screen_row (content_put fb x y c) y' = (if y' = y then (screen_row fb y)[x := c] else screen_row fb y')"
  using assms fb_okD(7) [OF assms(1)] by (simp add: screen_row_def history_content_put [OF assms(1,3,4)])

lemma content_scroll_up_count: "fb_ok fb \<Longrightarrow> count (content_scroll_up fb) = min (hist_rows fb) (count fb + 1)"
  using fb_okD(8) [of fb] by (auto simp: content_scroll_up_def clear_logical_row_def Let_def)

lemma scroll_screen_row:
  assumes "fb_ok fb" "view_offset fb = 0" "y < rows fb"
  shows "screen_row (content_scroll_up fb) y = (if y + 1 = rows fb then replicate (cols fb) 0 else screen_row fb (y + 1))"
proof (cases "count fb < hist_rows fb")
  case True
  then have "count (content_scroll_up fb) - rows fb + y = count fb - rows fb + (y + 1)" "count (content_scroll_up fb) = count fb + 1"
    using assms fb_okD(7) [OF assms(1)] by (simp_all add: content_scroll_up_count)
  then show ?thesis
    using assms True fb_okD(7) [OF assms(1)] by (auto simp: screen_row_def history_content_scroll_up nth_append)
next
  case False
  then show ?thesis
    using assms fb_okD(7,8) [OF assms(1)]
    by (auto simp: screen_row_def history_content_scroll_up content_scroll_up_count nth_append nth_tl)
qed

lemma screen_row_cursor [simp]:
  "screen_row (fb\<lparr>cursor_position_x := x\<rparr>) = screen_row fb" "screen_row (fb\<lparr>cursor_position_y := x\<rparr>) = screen_row fb"
  by (simp_all add: screen_row_def fun_eq_iff)

lemma erase_cursor_text:
  assumes "fb_ok fb" "view_offset fb = 0" "cursor_shown font fb s"
    "screen_row fb (cursor_position_y fb) ! cursor_position_x fb = 0"
  shows "text_shown font fb (erase_cursor fb s)"
proof -
  have "cursor_position_x fb * 8 + 8 \<le> pixels_per_scanline fb" using fb_okD(3,6,11) [OF assms(1)] by linarith
  then show ?thesis
    using assms fb_okD(6) [OF assms(1)]
    by (auto simp: text_shown_def cursor_shown_def erase_cursor_def cursor_x_def cursor_y_def VBUF_GLYPH_WIDTH_def
        VBUF_GLYPH_HEIGHT_def fill_cell_at text_pixel_def)
qed

lemma draw_cursor_text:
  assumes "fb_ok fb" "view_offset fb = 0" "text_shown font fb s"
  shows "cursor_shown font fb (draw_cursor fb s)"
proof -
  have "cursor_position_x fb * 8 + 8 \<le> pixels_per_scanline fb" using fb_okD(3,6,11) [OF assms(1)] by linarith
  then show ?thesis
    using assms fb_okD(6) [OF assms(1)]
    by (auto simp: text_shown_def cursor_shown_def draw_cursor_def cursor_x_def cursor_y_def VBUF_GLYPH_WIDTH_def
        VBUF_GLYPH_HEIGHT_def fill_cell_at)
qed

definition blank_glyph :: "font \<Rightarrow> bool" where "blank_glyph font \<longleftrightarrow> font 0 = (\<lambda>_. 0)"

lemma put_char_text:
  assumes "fb_ok fb" "view_offset fb = 0" "text_shown font fb s" "blank_glyph font"
    "screen_row fb (cursor_position_y fb) ! cursor_position_x fb = 0"
  shows "text_shown font (content_put fb (cursor_position_x fb) (cursor_position_y fb) c)
    (draw_char font (pixels_per_scanline fb) (cursor_x fb) (cursor_y fb) c WHITE s)"
proof -
  have "cursor_position_x fb * 8 + 8 \<le> pixels_per_scanline fb" using fb_okD(3,6,11) [OF assms(1)] by linarith
  moreover have "\<not> glyph_bit font 0 row col" for row col using assms(4) by (simp add: glyph_bit_def blank_glyph_def)
  ultimately show ?thesis
    using assms fb_okD(6,11,12) [OF assms(1)] visible_row(2) [OF assms(1)]
    by (auto simp: text_shown_def cursor_x_def cursor_y_def VBUF_GLYPH_WIDTH_def VBUF_GLYPH_HEIGHT_def draw_char_at
        text_pixel_def put_screen_row nth_list_update)
qed

lemma scroll_up_at:
  assumes "width fb \<le> pixels_per_scanline fb" "X < width fb" "Y < height fb"
  shows "scroll_up fb s (Y * pixels_per_scanline fb + X) =
    (if Y + 16 < height fb then s ((Y + 16) * pixels_per_scanline fb + X) else 0)"
  using assms by (auto simp: scroll_up_def Let_def VBUF_GLYPH_HEIGHT_def copy_rows_at fill_rows_at)

definition newline_px :: "frame_buffer \<Rightarrow> screen \<Rightarrow> screen" where
  "newline_px fb s = (if rows fb \<le> cursor_position_y fb + 1 then scroll_up fb s else s)"

lemma newline_text:
  assumes ok: "fb_ok (fb\<lparr>cursor_position_x := 0\<rparr>)" and v: "view_offset fb = 0" and t: "text_shown font fb s"
  shows "text_shown font (newline_fb fb) (newline_px fb s)"
proof (cases "rows fb \<le> cursor_position_y fb + 1")
  case False
  then show ?thesis using t by (simp add: newline_px_def newline_fb_eq text_shown_def text_pixel_def)
next
  case True
  note D = fb_okD [OF ok, simplified]
  have row: "screen_row (content_scroll_up fb) y = (if y + 1 = rows fb then replicate (cols fb) 0 else screen_row fb (y + 1))"
    if "y < rows fb" for y
    using scroll_screen_row [OF ok, of y] v that by simp
  have "scroll_up fb s (Y * pixels_per_scanline fb + X) = text_pixel font (content_scroll_up fb) Y X"
    if Y: "Y < height fb" and X: "X < width fb" for Y X
  proof (cases "Y + 16 < height fb")
    case True
    then have "scroll_up fb s (Y * pixels_per_scanline fb + X) = text_pixel font fb (Y + 16) X"
      using scroll_up_at [OF D(6) X Y, of s] t X by (simp add: text_shown_def)
    moreover have "Y div 16 < rows fb" using True D(5) by (intro less_mult_imp_div_less) linarith
    moreover have "(Y + 16) div 16 = Suc (Y div 16)" by simp
    ultimately show ?thesis using row [of "Y div 16"] by (auto simp: text_pixel_def)
  next
    case False
    then have "Y div 16 + 1 = rows fb \<or> rows fb \<le> Y div 16" using D(4) by linarith
    then show ?thesis using False scroll_up_at [OF D(6) X Y, of s] row [of "Y div 16"] by (auto simp: text_pixel_def)
  qed
  then show ?thesis using True by (simp add: newline_px_def newline_fb_eq text_shown_def text_pixel_def)
qed

text \<open>A full redraw.\<close>

lemma draw_row_at:
  assumes "cols fb * 8 \<le> pixels_per_scanline fb" "X < pixels_per_scanline fb"
  shows "draw_row font fb y row s (Y * pixels_per_scanline fb + X) =
    (if Y div 16 = y \<and> X div 8 < cols fb \<and> row ! (X div 8) \<noteq> 0 \<and> glyph_bit font (row ! (X div 8)) (Y mod 16) (X mod 8)
     then WHITE else s (Y * pixels_per_scanline fb + X))"
proof -
  have "fold (\<lambda>x s. let c = row ! x in if c \<noteq> 0
          then draw_char font (pixels_per_scanline fb) (x * VBUF_GLYPH_WIDTH) (y * VBUF_GLYPH_HEIGHT) c WHITE s else s)
        [0..<n] s (Y * pixels_per_scanline fb + X) =
    (if Y div 16 = y \<and> X div 8 < n \<and> row ! (X div 8) \<noteq> 0 \<and> glyph_bit font (row ! (X div 8)) (Y mod 16) (X mod 8)
     then WHITE else s (Y * pixels_per_scanline fb + X))" if "n * 8 \<le> pixels_per_scanline fb" for n
    using that
  proof (induction n)
    case (Suc n)
    then have "n * 8 + 8 \<le> pixels_per_scanline fb" by simp
    then show ?case using Suc assms(2)
      by (auto simp: Let_def VBUF_GLYPH_WIDTH_def VBUF_GLYPH_HEIGHT_def draw_char_at less_Suc_eq)
  qed simp
  then show ?thesis using assms(1) by (simp add: draw_row_def)
qed

lemma clear_screen_at:
  assumes "width fb \<le> pixels_per_scanline fb" "X < width fb" "Y < height fb"
  shows "clear_screen fb s (Y * pixels_per_scanline fb + X) = 0"
  using fill_rows_at [OF assms(1,2), of 0 0 "height fb" s Y] assms(3) by (simp add: clear_screen_def)

definition draw_rows :: "font \<Rightarrow> frame_buffer \<Rightarrow> nat \<Rightarrow> screen \<Rightarrow> screen" where
  "draw_rows font fb n s = fold (\<lambda>y s. case os_vbuf_visible_row fb y of None \<Rightarrow> s
     | Some start \<Rightarrow> draw_row font fb y (row_cells fb start) s) [0..<n] s"

lemma draw_rows_at:
  assumes "fb_ok fb" "X < width fb" "n \<le> rows fb"
  shows "draw_rows font fb n s (Y * pixels_per_scanline fb + X) =
    (if Y div 16 < n \<and> X div 8 < cols fb \<and> screen_row fb (Y div 16) ! (X div 8) \<noteq> 0 \<and>
        glyph_bit font (screen_row fb (Y div 16) ! (X div 8)) (Y mod 16) (X mod 8)
     then WHITE else s (Y * pixels_per_scanline fb + X))"
  using assms(3)
proof (induction n)
  case (Suc n)
  note D = fb_okD [OF assms(1)]
  obtain start where start: "os_vbuf_visible_row fb n = Some start" "row_cells fb start = screen_row fb n"
    using visible_row(1) [OF assms(1), of n] Suc.prems by auto
  have "draw_rows font fb (Suc n) s = draw_row font fb n (screen_row fb n) (draw_rows font fb n s)"
    by (simp add: draw_rows_def start)
  then show ?case
    using Suc draw_row_at [of fb X font n "screen_row fb n" "draw_rows font fb n s" Y] assms(2) D(3,6) by (auto simp: less_Suc_eq)
qed (simp add: draw_rows_def)

lemma render_text:
  assumes "fb_ok fb"
  shows "text_shown font fb (draw_rows font fb (rows fb) (clear_screen fb s))"
  using draw_rows_at [OF assms _ order_refl] clear_screen_at [OF fb_okD(6) [OF assms]] by (simp add: text_shown_def text_pixel_def)

lemma render_eq:
  "render_frame_buffer font fb s =
    (if view_offset fb \<noteq> 0 then draw_scroll_indicator font fb else draw_cursor fb)
      (draw_rows font fb (rows fb) (clear_screen fb s))"
  by (simp add: render_frame_buffer_def draw_rows_def Let_def)

lemma render_cursor:
  assumes "fb_ok fb" "view_offset fb = 0"
  shows "cursor_shown font fb (render_frame_buffer font fb s)"
  using draw_cursor_text [OF assms render_text [OF assms(1)]] assms(2) by (simp add: render_eq)

text \<open>A redraw does not depend on what the screen showed.\<close>

lemma draw_char_cong: "s p = s' p \<Longrightarrow> draw_char font ppsl x y c color s p = draw_char font ppsl x y c color s' p"
  unfolding draw_char_def fold_draw2 by (simp only:)

lemma fold_draw_char_cong:
  "s p = s' p \<Longrightarrow> fold (\<lambda>i. draw_char font ppsl (f i) y (g i) color) is s p = fold (\<lambda>i. draw_char font ppsl (f i) y (g i) color) is s' p"
proof (induction "is" arbitrary: s s')
  case (Cons i "is")
  show ?case unfolding fold_Cons comp_def by (rule Cons.IH, rule draw_char_cong, rule Cons.prems)
qed simp

lemma draw_scroll_indicator_cong: "s p = s' p \<Longrightarrow> draw_scroll_indicator font fb s p = draw_scroll_indicator font fb s' p"
  unfolding draw_scroll_indicator_def Let_def by (intro fold_draw_char_cong) (simp add: fold_fill2)

lemma render_any:
  assumes "fb_ok fb" "Y < height fb" "X < width fb"
  shows "render_frame_buffer font fb s (Y * pixels_per_scanline fb + X) = render_frame_buffer font fb s' (Y * pixels_per_scanline fb + X)"
proof (cases "view_offset fb = 0")
  case True
  then show ?thesis using render_cursor [OF assms(1) True] assms by (simp add: cursor_shown_def)
next
  case False
  then show ?thesis
    using render_text [OF assms(1)] assms by (auto simp: render_eq text_shown_def intro: draw_scroll_indicator_cong)
qed

subsection \<open>The console as a whole\<close>

definition write_px :: "font \<Rightarrow> u8 \<Rightarrow> frame_buffer \<Rightarrow> screen \<Rightarrow> screen" where
  "write_px font c fb s =
     (let s = (if view_offset fb \<noteq> 0 then render_frame_buffer font (fb\<lparr>view_offset := 0\<rparr>) s else s);
          fb = fb\<lparr>view_offset := 0\<rparr>;
          s = erase_cursor fb s
      in if c = 0x0A then draw_cursor (newline_fb fb) (newline_px fb s)
         else (let put = content_put fb (cursor_position_x fb) (cursor_position_y fb) c;
                   s = draw_char font (pixels_per_scanline put) (cursor_x put) (cursor_y put) c WHITE s;
                   put = put\<lparr>cursor_position_x := cursor_position_x put + 1\<rparr>
               in if cols put \<le> cursor_position_x put then draw_cursor (newline_fb put) (newline_px put s)
                  else draw_cursor put s))"

lemma scroll_up_dims:
  "scroll_up (fb\<lparr>cursor_position_x := x\<rparr>) = scroll_up fb" "scroll_up (fb\<lparr>cursor_position_y := x\<rparr>) = scroll_up fb"
  "scroll_up (content_scroll_up fb) = scroll_up fb"
  by (simp_all add: scroll_up_def fun_eq_iff)

text \<open>The state in which buffer \<open>i\<close> has become \<open>a\<close> and, if it is the active one, the screen \<open>s\<close>.\<close>

definition with_fb :: "nat \<Rightarrow> console \<Rightarrow> frame_buffer \<Rightarrow> screen \<Rightarrow> console" where
  "with_fb i con a s = con\<lparr>frame_buffers := (frame_buffers con)[i := a], pixels := (if i = active_index con then s else pixels con)\<rparr>"

lemma with_fb_ops:
  assumes "i < length (frame_buffers con)"
  shows "update_fb i f (with_fb i con a s) = with_fb i con (f a) s"
    "draw_if_active d i (with_fb i con a s) = with_fb i con a (d a s)"
    "frame_buffers (with_fb i con a s) ! i = a"
  using assms by (simp_all add: with_fb_def update_fb_def draw_if_active_def draw_with_def is_active_def)

lemma newline_with_fb:
  assumes "i < length (frame_buffers con)"
  shows "newline i (with_fb i con a s) = with_fb i con (newline_fb a) (newline_px a s)"
  by (simp add: newline_def Let_def with_fb_ops [OF assms] newline_fb_def newline_px_def scroll_up_dims)

lemma write_char_with_fb:
  assumes "i < length (frame_buffers con)"
  shows "write_char font i c (with_fb i con a s) = with_fb i con (write_fb c a) (write_px font c a s)"
proof -
  note ops = with_fb_ops [OF assms] newline_with_fb [OF assms]
  define b where "b = a\<lparr>view_offset := 0\<rparr>"
  define t where "t = (if view_offset a \<noteq> 0 then render_frame_buffer font b s else s)"
  have snap: "(if view_offset a \<noteq> 0
      then draw_if_active (render_frame_buffer font) i (update_fb i (\<lambda>fb. fb\<lparr>view_offset := 0\<rparr>) (with_fb i con a s))
      else with_fb i con a s) = with_fb i con b t"
  proof (cases "view_offset a = 0")
    case True
    then have "b = a" by (simp add: b_def)
    then show ?thesis using True by (simp add: t_def)
  qed (simp add: ops b_def t_def)
  show ?thesis
    unfolding write_char_def ops(3) snap unfolding write_fb_def write_px_def b_def [symmetric] t_def [symmetric] Let_def ops
    by (simp add: ops)
qed

lemma write_char_eq:
  assumes "i < length (frame_buffers con)"
  shows "write_char font i c con = con\<lparr>frame_buffers := (frame_buffers con)[i := write_fb c (frame_buffers con ! i)],
    pixels := (if i = active_index con then write_px font c (frame_buffers con ! i) (pixels con) else pixels con)\<rparr>"
proof -
  have "con = with_fb i con (frame_buffers con ! i) (pixels con)" by (simp add: with_fb_def)
  then show ?thesis using write_char_with_fb [OF assms] by (metis with_fb_def)
qed

lemma cursor_cell_empty:
  assumes "fb_ok fb" "fb_shows fb p" "view_offset fb = 0"
  shows "screen_row fb (cursor_position_y fb) ! cursor_position_x fb = 0"
proof -
  obtain finished cur where p: "p = (finished, cur)" by fastforce
  show ?thesis
    using current_row(2) [OF assms(1), of finished cur] assms fb_okD(11) [OF assms(1)]
    by (simp add: screen_row_def fb_shows_def p padded_def nth_append)
qed

lemma write_px_shown:
  assumes ok: "fb_ok fb" and s: "fb_shows fb p" and g: "blank_glyph font"
    and shown: "\<And>Y X. Y < height fb \<Longrightarrow> X < width fb \<Longrightarrow>
      s (Y * pixels_per_scanline fb + X) = render_frame_buffer font fb t (Y * pixels_per_scanline fb + X)"
  shows "cursor_shown font (write_fb c fb) (write_px font c fb s)"
proof -
  obtain finished cur where p: "p = (finished, cur)" by fastforce
  let ?fb = "fb\<lparr>view_offset := 0\<rparr>"
  let ?x = "cursor_position_x fb" and ?y = "cursor_position_y fb"
  let ?put = "(content_put ?fb ?x ?y c)\<lparr>cursor_position_x := ?x + 1\<rparr>"
  define s1 where "s1 = (if view_offset fb \<noteq> 0 then render_frame_buffer font ?fb s else s)"
  define s2 where "s2 = erase_cursor ?fb s1"
  have ok': "fb_ok ?fb" "fb_ok (?fb\<lparr>cursor_position_x := 0\<rparr>)" using ok by (auto simp: fb_ok_def)
  have put_ok: "fb_ok (?put\<lparr>cursor_position_x := 0\<rparr>)"
    using content_put_ok [OF ok'(1)] fb_okD(1) [OF ok] by (simp add: fb_ok_def content_put_def)
  have zero: "screen_row ?fb ?y ! ?x = 0"
    using cursor_cell_empty [OF ok'(1), of p] s by (simp add: fb_shows_def)
  have s1: "cursor_shown font ?fb s1"
  proof (cases "view_offset fb = 0")
    case True
    then have e: "?fb = fb" by simp
    show ?thesis unfolding e using render_cursor [OF ok True, of font t] shown True by (simp add: s1_def cursor_shown_def)
  next
    case False
    then show ?thesis using render_cursor [OF ok'(1)] by (simp add: s1_def)
  qed
  have s2: "text_shown font ?fb s2" unfolding s2_def by (rule erase_cursor_text [OF ok'(1) _ s1]) (use zero in simp_all)
  have cur: "cursor_shown font (newline_fb f) (draw_cursor (newline_fb f) (newline_px f s))"
    if "fb_ok (f\<lparr>cursor_position_x := 0\<rparr>)" "view_offset f = 0" "text_shown font f s" for f s
    using draw_cursor_text [OF newline_fb_ok [OF that(1)] _ newline_text [OF that]] that(2) by (simp add: newline_fb_eq)
  show ?thesis
  proof (cases "c = 0x0A")
    case True
    then show ?thesis using cur [OF ok'(2) _ s2] by (simp add: write_fb_def write_px_def s1_def s2_def Let_def)
  next
    case F: False
    define s3 where "s3 = draw_char font (pixels_per_scanline fb) (cursor_x ?fb) (cursor_y ?fb) c WHITE s2"
    have "text_shown font (content_put ?fb ?x ?y c) s3"
      using put_char_text [OF ok'(1) _ s2 g] zero by (simp add: s3_def)
    then have s3: "text_shown font ?put s3" by (simp add: text_shown_def text_pixel_def)
    have xy: "cursor_x (content_put f x y c) = cursor_x f" "cursor_y (content_put f x y c) = cursor_y f" for f x y
      by (simp_all add: cursor_x_def cursor_y_def)
    show ?thesis
    proof (cases "cols fb \<le> ?x + 1")
      case True
      then have "write_fb c fb = newline_fb ?put" "write_px font c fb s = draw_cursor (newline_fb ?put) (newline_px ?put s3)"
        using F by (simp_all add: write_fb_def write_px_def Let_def xy s1_def s2_def s3_def)
      then show ?thesis using cur [OF put_ok _ s3] by simp
    next
      case False
      have "write_fb c fb = ?put" "write_px font c fb s = draw_cursor ?put s3"
        using F False by (simp_all add: write_fb_def write_px_def Let_def xy s1_def s2_def s3_def)
      moreover have "fb_ok ?put" using put_cursor_ok [OF ok'(1)] False by simp
      ultimately show ?thesis using draw_cursor_text [OF _ _ s3] by simp
    qed
  qed
qed

text \<open>Start of the kernel (\<^verbatim>\<open>kernel.c\<close>): initialise, clear the screen, draw the cursor.\<close>

definition console_boot :: "nat \<Rightarrow> nat \<Rightarrow> nat \<Rightarrow> nat \<Rightarrow> screen \<Rightarrow> console" where
  "console_boot w h ppsl hist s =
     (let con = initialize_virtual_buffers w h ppsl hist s;
          con = draw_with clear_screen 0 con
      in draw_with draw_cursor 0 con)"

text \<open>What can happen to the console, with the text each buffer has been given.\<close>

inductive console_run :: "font \<Rightarrow> console \<Rightarrow> console \<Rightarrow> (nat \<Rightarrow> u8 list) \<Rightarrow> bool" for font con0 where
  run_start: "console_run font con0 con0 (\<lambda>_. [])"
| run_write: "console_run font con0 con texts \<Longrightarrow> i < VBUF_COUNT \<Longrightarrow>
    console_run font con0 (write_char font i c con) (texts(i := texts i @ [c]))"
| run_switch: "console_run font con0 con texts \<Longrightarrow> console_run font con0 (switch_active_frame_buffer font index con) texts"
| run_scroll: "console_run font con0 con texts \<Longrightarrow> console_run font con0 (os_vbuf_scroll font delta con) texts"
| run_bottom: "console_run font con0 con texts \<Longrightarrow> console_run font con0 (os_vbuf_scroll_to_bottom font con) texts"

lemma run_write_string:
  assumes "console_run font con0 con texts" "i < VBUF_COUNT"
  shows "console_run font con0 (write_string font i s con) (texts(i := texts i @ map (of_nat \<circ> of_char) (cstr s)))"
proof -
  have "console_run font con0 (fold (write_char font i) cs con) (texts(i := texts i @ cs))" for cs
    using assms(1)
  proof (induction cs arbitrary: con texts)
    case (Cons c cs)
    show ?case using Cons.IH [OF run_write [OF Cons.prems assms(2), of c]] by (simp cong: if_cong)
  qed simp
  then show ?thesis by (simp add: write_string_def)
qed

definition fb_shape :: "frame_buffer \<Rightarrow> nat \<Rightarrow> nat \<Rightarrow> nat \<Rightarrow> nat \<Rightarrow> bool" where
  "fb_shape fb w h ppsl hist \<longleftrightarrow> width fb = w \<and> height fb = h \<and> pixels_per_scanline fb = ppsl \<and> cols fb = w div 8 \<and>
     rows fb = h div 16 \<and> hist_rows fb = hist"

definition buffers_ok :: "nat \<Rightarrow> nat \<Rightarrow> nat \<Rightarrow> nat \<Rightarrow> console \<Rightarrow> (nat \<Rightarrow> u8 list) \<Rightarrow> bool" where
  "buffers_ok w h ppsl hist con texts \<longleftrightarrow> length (frame_buffers con) = VBUF_COUNT \<and> active_index con < VBUF_COUNT \<and>
     (\<forall>i < VBUF_COUNT. let fb = frame_buffers con ! i
        in fb_ok fb \<and> fb_shape fb w h ppsl hist \<and> fb_shows fb (page_of (w div 8) (texts i)))"

definition screen_ok :: "font \<Rightarrow> nat \<Rightarrow> nat \<Rightarrow> nat \<Rightarrow> console \<Rightarrow> bool" where
  "screen_ok font w h ppsl con \<longleftrightarrow> (\<forall>y < h. \<forall>x < w. \<forall>s.
     pixels con (y * ppsl + x) = render_frame_buffer font (get_active_frame_buffer con) s (y * ppsl + x))"

lemma buffers_okD:
  assumes "buffers_ok w h ppsl hist con texts"
  shows "length (frame_buffers con) = VBUF_COUNT" "active_index con < VBUF_COUNT"
    "i < VBUF_COUNT \<Longrightarrow> fb_ok (frame_buffers con ! i)" "i < VBUF_COUNT \<Longrightarrow> fb_shape (frame_buffers con ! i) w h ppsl hist"
    "i < VBUF_COUNT \<Longrightarrow> fb_shows (frame_buffers con ! i) (page_of (w div 8) (texts i))"
  using assms by (auto simp: buffers_ok_def Let_def)

lemma write_fb_shape: "fb_shape fb w h ppsl hist \<Longrightarrow> fb_shape (write_fb c fb) w h ppsl hist"
  by (simp add: fb_shape_def write_fb_def newline_fb_eq Let_def)

lemma page_of_snoc: "page_of w (cs @ [c]) = put_page w c (page_of w cs)" by (simp add: page_of_def)

lemma write_buffers_ok:
  assumes "buffers_ok w h ppsl hist con texts" "i < VBUF_COUNT"
  shows "buffers_ok w h ppsl hist (write_char font i c con) (texts(i := texts i @ [c]))"
proof -
  note B = buffers_okD [OF assms(1)]
  have "cols (frame_buffers con ! i) = w div 8" using B(4) [OF assms(2)] by (simp add: fb_shape_def)
  then show ?thesis
    using assms(2) B write_fb_shows [OF B(3,5) [OF assms(2)], of c] write_fb_shape [OF B(4) [OF assms(2)], of c]
    by (auto simp: buffers_ok_def write_char_eq nth_list_update page_of_snoc Let_def)
qed

lemma write_screen_ok:
  assumes B: "buffers_ok w h ppsl hist con texts" and S: "screen_ok font w h ppsl con" and g: "blank_glyph font"
    and i: "i < VBUF_COUNT"
  shows "screen_ok font w h ppsl (write_char font i c con)"
proof (cases "i = active_index con")
  case False
  then show ?thesis using S i buffers_okD(1) [OF B] by (simp add: screen_ok_def write_char_eq get_active_frame_buffer_def)
next
  case True
  let ?fb = "frame_buffers con ! i"
  note D = buffers_okD(3,4,5) [OF B i]
  have dims: "width ?fb = w" "height ?fb = h" "pixels_per_scanline ?fb = ppsl" using D(2) by (simp_all add: fb_shape_def)
  have S': "pixels con (Y * ppsl + X) = render_frame_buffer font ?fb (\<lambda>_. 0) (Y * ppsl + X)" if "Y < h" "X < w" for Y X
    using S that unfolding screen_ok_def get_active_frame_buffer_def True [symmetric] by blast
  have w: "fb_ok (write_fb c ?fb)" "view_offset (write_fb c ?fb) = 0" using write_fb_shows [OF D(1,3)] by blast+
  have w': "width (write_fb c ?fb) = w" "height (write_fb c ?fb) = h" "pixels_per_scanline (write_fb c ?fb) = ppsl"
    using write_fb_shape [OF D(2)] by (simp_all add: fb_shape_def)
  have "cursor_shown font (write_fb c ?fb) (write_px font c ?fb (pixels con))"
    by (rule write_px_shown [OF D(1,3) g, where t = "\<lambda>_. 0"]) (simp add: dims S')
  then have px: "write_px font c ?fb (pixels con) (Y * ppsl + X) = render_frame_buffer font (write_fb c ?fb) s (Y * ppsl + X)"
    if "Y < h" "X < w" for Y X s
    using render_cursor [OF w, of font s] that by (simp add: cursor_shown_def w')
  have "pixels (write_char font i c con) = write_px font c ?fb (pixels con)"
    "get_active_frame_buffer (write_char font i c con) = write_fb c ?fb"
    using True i buffers_okD(1) [OF B] by (simp_all add: write_char_eq get_active_frame_buffer_def)
  then show ?thesis using px by (simp add: screen_ok_def)
qed

lemma redraw_ok:
  assumes "i < VBUF_COUNT" "frame_buffers con = (frame_buffers con0)[i := fb]" "active_index con = i"
    "pixels con = render_frame_buffer font fb s" "fb_ok fb" "fb_shape fb w h ppsl hist" "length (frame_buffers con0) = VBUF_COUNT"
  shows "screen_ok font w h ppsl con"
  using assms render_any [OF assms(5)] by (auto simp: screen_ok_def get_active_frame_buffer_def fb_shape_def)

lemma view_buffers_ok:
  assumes "buffers_ok w h ppsl hist con texts" "i < VBUF_COUNT"
    "v \<le> os_vbuf_max_view_offset (frame_buffers con ! i)"
  defines "fb \<equiv> (frame_buffers con ! i)\<lparr>view_offset := v\<rparr>"
  shows "buffers_ok w h ppsl hist (con\<lparr>frame_buffers := (frame_buffers con)[i := fb], pixels := s\<rparr>) texts"
    "fb_ok fb" "fb_shape fb w h ppsl hist"
proof -
  show f: "fb_ok fb" "fb_shape fb w h ppsl hist"
    using buffers_okD(3,4) [OF assms(1,2)] assms(3) by (auto simp: fb_def fb_ok_def fb_shape_def os_vbuf_max_view_offset_def)
  have "fb_shows fb (page_of (w div 8) (texts i))" using buffers_okD(5) [OF assms(1,2)] by (simp add: fb_def fb_shows_def)
  then show "buffers_ok w h ppsl hist (con\<lparr>frame_buffers := (frame_buffers con)[i := fb], pixels := s\<rparr>) texts"
    using f assms(2) buffers_okD [OF assms(1)] by (auto simp: buffers_ok_def nth_list_update Let_def)
qed

lemma boot_ok:
  assumes "8 \<le> w" "16 \<le> h" "w \<le> ppsl"
  shows "buffers_ok w h ppsl (os_vbuf_effective_hist_rows h hist) (console_boot w h ppsl hist s) (\<lambda>_. [])"
    "screen_ok font w h ppsl (console_boot w h ppsl hist s)"
proof -
  let ?hist = "os_vbuf_effective_hist_rows h hist"
  define fb where "fb = \<lparr>width = w, height = h, pixels_per_scanline = ppsl, cursor_position_x = 0, cursor_position_y = 0,
      content = replicate ((w div 8) * ?hist) 0, cols = w div 8, rows = h div 16, hist_rows = ?hist, base = 0,
      count = h div 16, view_offset = 0\<rparr>"
  have H: "h div 16 \<le> ?hist" "0 < h div 16" "0 < w div 8"
    using assms by (auto simp: os_vbuf_effective_hist_rows_def VBUF_GLYPH_HEIGHT_def Let_def div_greater_zero_iff)
  have ok: "fb_ok fb" using assms H by (simp add: fb_ok_def fb_def)
  have con: "frame_buffers (console_boot w h ppsl hist s) = replicate VBUF_COUNT fb" "active_index (console_boot w h ppsl hist s) = 0"
    "pixels (console_boot w h ppsl hist s) = draw_cursor fb (clear_screen fb s)"
    by (simp_all add: console_boot_def initialize_virtual_buffers_def fb_def Let_def draw_with_def VBUF_COUNT_def
        VBUF_GLYPH_WIDTH_def VBUF_GLYPH_HEIGHT_def)
  have row: "history fb ! i = replicate (w div 8) 0" if "i < h div 16" for i
    using that history_row [OF ok, of i] H by (auto simp: fb_def intro!: nth_equalityI)
  have hist: "history fb = replicate (h div 16) (replicate (w div 8) 0)"
    by (rule nth_equalityI) (use row in \<open>simp_all add: fb_def\<close>)
  have "replicate (h div 16) r = r # replicate (h div 16 - Suc 0) r" for r :: "u8 list" using H(2) by (cases "h div 16") simp_all
  then have "fb_shows fb ([], [])"
    using H by (simp add: fb_shows_def fb_rows_def hist last_n_def padded_def) (simp add: fb_def)
  then show "buffers_ok w h ppsl ?hist (console_boot w h ppsl hist s) (\<lambda>_. [])"
    using ok by (simp add: buffers_ok_def con VBUF_COUNT_def page_of_def fb_shape_def) (simp add: fb_def)
  have v: "view_offset fb = 0" "width fb = w" "height fb = h" "pixels_per_scanline fb = ppsl" by (simp_all add: fb_def)
  have k: "count fb = h div 16" "view_offset fb = 0" "rows fb = h div 16" "cols fb = w div 8" by (simp_all add: fb_def)
  have "text_pixel font fb Y X = 0" for Y X
    by (auto simp: text_pixel_def screen_row_def hist k)
  then have "text_shown font fb (clear_screen fb s)"
    using clear_screen_at [OF fb_okD(6) [OF ok]] by (simp add: text_shown_def)
  then show "screen_ok font w h ppsl (console_boot w h ppsl hist s)"
    using draw_cursor_text [OF ok v(1)] render_cursor [OF ok v(1)]
    by (simp add: screen_ok_def con get_active_frame_buffer_def VBUF_COUNT_def cursor_shown_def v)
qed

text \<open>Scrolling back and forth redraws the active buffer at another offset, or does nothing.\<close>

definition redrawn :: "font \<Rightarrow> nat \<Rightarrow> console \<Rightarrow> console" where
  "redrawn font v con = draw_with (render_frame_buffer font) (active_index con)
     (update_fb (active_index con) (\<lambda>fb. fb\<lparr>view_offset := v\<rparr>) con)"

lemma scroll_redraws:
  "os_vbuf_scroll font delta con = con \<or>
    (\<exists>v \<le> os_vbuf_max_view_offset (get_active_frame_buffer con). os_vbuf_scroll font delta con = redrawn font v con)"
proof -
  define fb where "fb = get_active_frame_buffer con"
  define v where "v = nat (min (int (os_vbuf_max_view_offset fb)) (max 0 (int (view_offset fb) - delta)))"
  have "os_vbuf_scroll font delta con = (if v = view_offset fb then con else redrawn font v con)"
    unfolding os_vbuf_scroll_def redrawn_def Let_def v_def fb_def get_active_frame_buffer_def by (auto simp: min_def max_def)
  moreover have "v \<le> os_vbuf_max_view_offset fb" by (simp add: v_def)
  ultimately show ?thesis unfolding fb_def by metis
qed

lemma scroll_to_bottom_redraws:
  "os_vbuf_scroll_to_bottom font con = con \<or> os_vbuf_scroll_to_bottom font con = redrawn font 0 con"
  by (simp add: os_vbuf_scroll_to_bottom_def redrawn_def Let_def)

lemma redraw_step:
  assumes B: "buffers_ok w h ppsl hist con texts" and v: "v \<le> os_vbuf_max_view_offset (get_active_frame_buffer con)"
  shows "buffers_ok w h ppsl hist (redrawn font v con) texts" "screen_ok font w h ppsl (redrawn font v con)"
proof -
  let ?i = "active_index con"
  let ?fb = "(frame_buffers con ! ?i)\<lparr>view_offset := v\<rparr>"
  note D = buffers_okD(1,2) [OF B] and v' = v [unfolded get_active_frame_buffer_def]
  have c: "redrawn font v con = con\<lparr>frame_buffers := (frame_buffers con)[?i := ?fb], pixels := render_frame_buffer font ?fb (pixels con)\<rparr>"
    using D by (simp add: redrawn_def draw_with_def update_fb_def)
  show "buffers_ok w h ppsl hist (redrawn font v con) texts" unfolding c by (rule view_buffers_ok [OF B D(2) v'])
  show "screen_ok font w h ppsl (redrawn font v con)"
    by (rule redraw_ok [OF D(2) _ _ _ view_buffers_ok(2,3) [OF B D(2) v'] D(1)]) (simp_all add: c)
qed

lemma run_ok:
  assumes "console_run font (console_boot w h ppsl hist s) con texts" "8 \<le> w" "16 \<le> h" "w \<le> ppsl" "blank_glyph font"
  shows "buffers_ok w h ppsl (os_vbuf_effective_hist_rows h hist) con texts \<and> screen_ok font w h ppsl con"
  using assms(1)
proof induction
  case run_start
  show ?case using boot_ok [OF assms(2-4)] by blast
next
  case (run_write con texts i c)
  then show ?case using write_buffers_ok write_screen_ok [OF _ _ assms(5)] by blast
next
  case (run_switch con texts index)
  show ?case
  proof (cases "VBUF_COUNT \<le> index \<or> index = active_index con")
    case True
    then show ?thesis using run_switch.IH by (simp add: switch_active_frame_buffer_def)
  next
    case False
    let ?con = "con\<lparr>active_index := index, pixels := render_frame_buffer font (frame_buffers con ! index) (pixels con)\<rparr>"
    have i: "index < VBUF_COUNT" using False by simp
    have B: "buffers_ok w h ppsl (os_vbuf_effective_hist_rows h hist) con texts" using run_switch.IH ..
    have "screen_ok font w h ppsl ?con"
      by (rule redraw_ok [OF i, where ?con0.0 = con and fb = "frame_buffers con ! index" and s = "pixels con"])
        (use buffers_okD [OF B] i in simp_all)
    moreover have "buffers_ok w h ppsl (os_vbuf_effective_hist_rows h hist) ?con texts" using B i by (simp add: buffers_ok_def Let_def)
    moreover have "switch_active_frame_buffer font index con = ?con"
      using False by (simp add: switch_active_frame_buffer_def draw_with_def)
    ultimately show ?thesis by simp
  qed
next
  case (run_scroll con texts delta)
  show ?case using scroll_redraws [of font delta con] redraw_step [OF conjunct1 [OF run_scroll.IH]] run_scroll.IH by metis
next
  case (run_bottom con texts)
  show ?case using scroll_to_bottom_redraws [of font con] redraw_step [OF conjunct1 [OF run_bottom.IH], of 0] run_bottom.IH by auto
qed

subsection \<open>Drawing stays inside the screen\<close>

definition visible :: "nat \<Rightarrow> nat \<Rightarrow> nat \<Rightarrow> nat \<Rightarrow> bool" where
  "visible w h ppsl p \<longleftrightarrow> (\<exists>Y < h. \<exists>X < w. p = Y * ppsl + X)"


lemma visibleI: "Y < h \<Longrightarrow> X < w \<Longrightarrow> visible w h ppsl (Y * ppsl + X)" by (auto simp: visible_def)

lemma fold_inside: "(\<And>i s. i \<in> set is \<Longrightarrow> d i s p = s p) \<Longrightarrow> fold d is s p = s p"
  by (induction "is" arbitrary: s) simp_all

lemma draw_char_inside:
  assumes "y + 16 \<le> h" "x + 8 \<le> w" "\<not> visible w h ppsl p"
  shows "draw_char font ppsl x y c color s p = s p"
proof -
  have "visible w h ppsl ((y + row) * ppsl + (x + col))" if "row < 16" "col < 8" for row col
    using that assms(1,2) by (intro visibleI) simp_all
  then have "p \<noteq> (y + row) * ppsl + (x + col)" if "row < 16" "col < 8" for row col using that assms(3) by blast
  then show ?thesis
    unfolding draw_char_def VBUF_GLYPH_HEIGHT_def VBUF_GLYPH_WIDTH_def by (intro fold_inside) auto
qed

lemma fill_inside:
  "(\<And>i j. i < m \<Longrightarrow> j < n \<Longrightarrow> visible w h ppsl (f i j)) \<Longrightarrow> \<not> visible w h ppsl p \<Longrightarrow>
    fold (\<lambda>i. fold (\<lambda>j s. s(f i j := color)) [0..<n]) [a..<m] s p = s p"
  unfolding fold_fill2 by auto

lemma fill_cell_inside:
  "y + 16 \<le> h \<Longrightarrow> x + 8 \<le> w \<Longrightarrow> \<not> visible w h ppsl p \<Longrightarrow> fill_cell ppsl x y color s p = s p"
  unfolding fill_cell_def VBUF_GLYPH_HEIGHT_def VBUF_GLYPH_WIDTH_def by (rule fill_inside) (auto intro!: visibleI)

lemma cursor_inside:
  assumes "fb_ok fb" "\<not> visible (width fb) (height fb) (pixels_per_scanline fb) p"
  shows "draw_cursor fb s p = s p" "erase_cursor fb s p = s p"
proof -
  have "cursor_x fb + 8 \<le> width fb" "cursor_y fb + 16 \<le> height fb"
    using fb_okD(3,4,11,12) [OF assms(1)] by (simp_all add: cursor_x_def cursor_y_def VBUF_GLYPH_HEIGHT_def VBUF_GLYPH_WIDTH_def)
  then show "draw_cursor fb s p = s p" "erase_cursor fb s p = s p"
    using fill_cell_inside assms(2) by (simp_all add: draw_cursor_def erase_cursor_def)
qed

lemma clear_screen_inside:
  "\<not> visible (width fb) (height fb) (pixels_per_scanline fb) p \<Longrightarrow> clear_screen fb s p = s p"
  unfolding clear_screen_def by (rule fill_inside) (auto intro!: visibleI)

lemma copy_inside:
  assumes "\<not> visible w h ppsl p" "n \<le> h"
  shows "fold (\<lambda>y. fold (\<lambda>x s. s(y * ppsl + x := s ((y + k) * ppsl + x))) [0..<w]) [0..<n] s p = s p"
proof (intro fold_inside)
  fix y x s
  assume "y \<in> set [0..<n]" "x \<in> set [0..<w]"
  then have "visible w h ppsl (y * ppsl + x)" using assms(2) by (intro visibleI) simp_all
  then have "p \<noteq> y * ppsl + x" using assms(1) by blast
  then show "(s(y * ppsl + x := s ((y + k) * ppsl + x))) p = s p" by simp
qed

lemma scroll_up_inside:
  assumes "\<not> visible (width fb) (height fb) (pixels_per_scanline fb) p"
  shows "scroll_up fb s p = s p"
  unfolding scroll_up_def Let_def
  by (subst fill_inside [where w = "width fb" and h = "height fb" and ppsl = "pixels_per_scanline fb"])
    (use assms in \<open>auto intro!: visibleI copy_inside\<close>)

lemma render_inside:
  assumes ok: "fb_ok fb" and p: "\<not> visible (width fb) (height fb) (pixels_per_scanline fb) p"
  shows "render_frame_buffer font fb s p = s p"
proof -
  note D = fb_okD [OF ok]
  have row: "draw_row font fb y r s p = s p" if "y < rows fb" for y r s
    unfolding draw_row_def VBUF_GLYPH_HEIGHT_def VBUF_GLYPH_WIDTH_def
    by (rule fold_inside) (use that D(3,4) p in \<open>auto simp: Let_def intro!: draw_char_inside [where w = "width fb" and h = "height fb"]\<close>)
  have rows: "draw_rows font fb (rows fb) s p = s p" for s
    unfolding draw_rows_def by (rule fold_inside) (auto simp: row split: option.splits)
  have "draw_scroll_indicator font fb s p = s p" for s
  proof -
    have "fold (\<lambda>row. fold (\<lambda>x s. s(((rows fb - 1) * 16 + row) * pixels_per_scanline fb + x := 0)) [0..<width fb]) [0..<16] s p = s p"
      by (rule fill_inside [OF visibleI p]) (use D(2,4) in auto)
    moreover have "fold (\<lambda>i. draw_char font (pixels_per_scanline fb) (i * 8) ((rows fb - 1) * 16) (f i) WHITE) [0..<min n (cols fb)] t p = t p" for f n t
      by (rule fold_inside, rule draw_char_inside [OF _ _ p]) (use D(2,3,4) in auto)
    ultimately show ?thesis
      unfolding draw_scroll_indicator_def Let_def VBUF_GLYPH_HEIGHT_def VBUF_GLYPH_WIDTH_def by simp
  qed
  then show ?thesis using rows cursor_inside(1) [OF ok p] clear_screen_inside [OF p] by (simp add: render_eq)
qed

lemma write_px_inside:
  assumes ok: "fb_ok fb" and p: "\<not> visible (width fb) (height fb) (pixels_per_scanline fb) p"
  shows "write_px font c fb s p = s p"
proof -
  let ?fb = "fb\<lparr>view_offset := 0\<rparr>"
  let ?put = "(content_put ?fb (cursor_position_x fb) (cursor_position_y fb) c)\<lparr>cursor_position_x := cursor_position_x fb + 1\<rparr>"
  have ok': "fb_ok ?fb" "fb_ok (?fb\<lparr>cursor_position_x := 0\<rparr>)" using ok by (auto simp: fb_ok_def)
  have put_ok: "fb_ok (?put\<lparr>cursor_position_x := 0\<rparr>)"
    using content_put_ok [OF ok'(1)] fb_okD(1) [OF ok] by (simp add: fb_ok_def content_put_def)
  have nl: "draw_cursor (newline_fb f) (newline_px f t) p = t p"
    if "fb_ok (f\<lparr>cursor_position_x := 0\<rparr>)" "width f = width fb" "height f = height fb"
      "pixels_per_scanline f = pixels_per_scanline fb" for f t
    using cursor_inside(1) [OF newline_fb_ok [OF that(1)], of p] scroll_up_inside [of f p t] that p
    by (simp add: newline_fb_eq newline_px_def)
  have "draw_cursor ?put t p = t p" if "cursor_position_x fb + 1 < cols fb" for t
  proof -
    have "fb_ok ?put" using put_cursor_ok [OF ok'(1)] that by simp
    then show ?thesis using cursor_inside(1) [of ?put p t] p by simp
  qed
  moreover have "draw_char font (pixels_per_scanline fb) (cursor_position_x fb * 8) (cursor_position_y fb * 16) c WHITE t p = t p" for t
    by (rule draw_char_inside [OF _ _ p]) (use fb_okD(3,4,11,12) [OF ok] in simp_all)
  moreover note nl [OF ok'(2)] nl [OF put_ok] render_inside [OF ok'(1)] cursor_inside(2) [OF ok'(1)]
  ultimately show ?thesis
    using p by (simp add: write_px_def Let_def cursor_x_def cursor_y_def VBUF_GLYPH_HEIGHT_def VBUF_GLYPH_WIDTH_def)
qed

lemma redrawn_inside:
  assumes B: "buffers_ok w h ppsl hist con texts" and v: "v \<le> os_vbuf_max_view_offset (get_active_frame_buffer con)"
    and p: "\<not> visible w h ppsl p"
  shows "pixels (redrawn font v con) p = pixels con p"
proof -
  note D = buffers_okD(1,2) [OF B]
  let ?fb = "(frame_buffers con ! active_index con)\<lparr>view_offset := v\<rparr>"
  note f = view_buffers_ok(2,3) [OF B D(2) v [unfolded get_active_frame_buffer_def]]
  show ?thesis
    using render_inside [OF f(1), of p] f(2) D p by (simp add: redrawn_def draw_with_def update_fb_def fb_shape_def)
qed

lemma run_inside:
  assumes run: "console_run font (console_boot w h ppsl hist s) con texts" and dims: "8 \<le> w" "16 \<le> h" "w \<le> ppsl"
    and g: "blank_glyph font" and p: "\<not> visible w h ppsl p"
  shows "pixels con p = s p"
  using run
proof induction
  case run_start
  have fb: "fb_ok (frame_buffers (console_boot w h ppsl hist s) ! 0)" "fb_shape (frame_buffers (console_boot w h ppsl hist s) ! 0) w h ppsl (os_vbuf_effective_hist_rows h hist)"
    using buffers_okD(3,4) [OF boot_ok(1) [OF dims, of hist s]] by (simp_all add: VBUF_COUNT_def)
  moreover have "pixels (initialize_virtual_buffers w h ppsl hist s) = s" by (simp add: initialize_virtual_buffers_def Let_def)
  ultimately show ?case
    using cursor_inside(1) [OF fb(1), of p] clear_screen_inside [of "frame_buffers (console_boot w h ppsl hist s) ! 0" p] p
    by (simp add: console_boot_def fb_shape_def draw_with_def Let_def)
next
  case (run_write con texts i c)
  note B = buffers_okD [OF conjunct1 [OF run_ok [OF run_write.hyps(1) dims g]]]
  show ?case
    using run_write.IH write_px_inside [OF B(3) [OF run_write.hyps(2)], of p font c "pixels con"] B(1) B(4) [OF run_write.hyps(2)] run_write.hyps(2) p
    by (auto simp: write_char_eq fb_shape_def)
next
  case (run_switch con texts index)
  note B = buffers_okD [OF conjunct1 [OF run_ok [OF run_switch.hyps(1) dims g]]]
  show ?case
    using run_switch.IH render_inside [OF B(3) [of index], of p] B(4) [of index] p
    by (simp add: switch_active_frame_buffer_def draw_with_def fb_shape_def)
next
  case (run_scroll con texts delta)
  show ?case
    using scroll_redraws [of font delta con] redrawn_inside [OF conjunct1 [OF run_ok [OF run_scroll.hyps(1) dims g]] _ p] run_scroll.IH
    by metis
next
  case (run_bottom con texts)
  show ?case
    using scroll_to_bottom_redraws [of font con] redrawn_inside [OF conjunct1 [OF run_ok [OF run_bottom.hyps(1) dims g]] _ p, of 0] run_bottom.IH
    by auto
qed

subsection \<open>Properties\<close>

definition demo_font :: font where "demo_font c row = (if c = 0 then 0 else 0x81)"

lemma demo_blank: "blank_glyph demo_font" by (simp add: blank_glyph_def demo_font_def fun_eq_iff)

lemma demo_run:
  "console_run demo_font (console_boot 16 32 16 3 s)
     (switch_active_frame_buffer demo_font 1 (write_string demo_font 0 [CHR ''a'', CHR ''b'', CHR ''c'', CHR 0x0A, CHR ''d'']
       (console_boot 16 32 16 3 s)))
     ((\<lambda>_. [])(0 := [97, 98, 99, 10, 100]))"
  using run_switch [OF run_write_string [OF run_start, of 0 demo_font "console_boot 16 32 16 3 s" "[CHR ''a'', CHR ''b'', CHR ''c'', CHR 0x0A, CHR ''d'']"], of 1]
  by (simp add: VBUF_COUNT_def cstr_def)

text \<open>
  C6. What the screen shows after any sequence of output, switching and scrolling is, pixel
  for pixel, what a full redraw of the active buffer would draw: the incremental drawing of
  \<^verbatim>\<open>write_char\<close> and \<^verbatim>\<open>newline\<close> agrees with \<^verbatim>\<open>render_frame_buffer\<close>.
\<close>

theorem screen_is_full_redraw:
  assumes "console_run font (console_boot w h ppsl hist s) con texts" "8 \<le> w" "16 \<le> h" "w \<le> ppsl" "blank_glyph font"
    and "y < h" "x < w"
  shows "pixels con (y * ppsl + x) = render_frame_buffer font (get_active_frame_buffer con) junk (y * ppsl + x)"
  using run_ok [OF assms(1-5)] assms(6,7) by (simp add: screen_ok_def)

theorem screen_is_full_redraw_witness:
  "pixels (switch_active_frame_buffer demo_font 1 (write_string demo_font 0 [CHR ''a'', CHR ''b'', CHR ''c'', CHR 0x0A, CHR ''d'']
      (console_boot 16 32 16 3 (\<lambda>_. 7)))) (5 * 16 + 3) =
   render_frame_buffer demo_font (get_active_frame_buffer (switch_active_frame_buffer demo_font 1
     (write_string demo_font 0 [CHR ''a'', CHR ''b'', CHR ''c'', CHR 0x0A, CHR ''d''] (console_boot 16 32 16 3 (\<lambda>_. 7))))) (\<lambda>_. 9) (5 * 16 + 3)"
  by (rule screen_is_full_redraw [OF demo_run]) (simp_all add: demo_blank)

text \<open>
  C11. The history ring implements a scrollback: each buffer holds the last rows of the text
  written to it, wrapped at the width of the screen and padded to a screenful, row \<open>y\<close> of the
  screen is the row of that list which lies \<open>view_offset\<close> rows above the bottom, and the cursor
  stands after the last character of the unfinished line, on the row of that line or on the
  bottom row once the screen is full.
\<close>

theorem history_keeps_text:
  assumes "console_run font (console_boot w h ppsl hist s) con texts" "8 \<le> w" "16 \<le> h" "w \<le> ppsl" "blank_glyph font"
    and "i < VBUF_COUNT"
  shows "let fb = frame_buffers con ! i;
      p = page_of (w div 8) (texts i);
      rs = last_n (os_vbuf_effective_hist_rows h hist) (page_rows (w div 8) (h div 16) p)
    in history fb = rs \<and>
       cursor_position_x fb = length (snd p) \<and> cursor_position_y fb = min (length (fst p)) (h div 16 - 1) \<and>
       (y < h div 16 \<longrightarrow> (\<exists>start. os_vbuf_visible_row fb y = Some start \<and>
          row_cells fb start = rs ! (length rs - h div 16 - view_offset fb + y)))"
proof -
  note B = buffers_okD [OF conjunct1 [OF run_ok [OF assms(1-5)]]]
  let ?fb = "frame_buffers con ! i"
  have f: "fb_ok ?fb" "fb_shape ?fb w h ppsl (os_vbuf_effective_hist_rows h hist)" "fb_shows ?fb (page_of (w div 8) (texts i))"
    using B(3-5) [OF assms(6)] by simp_all
  then have h: "history ?fb = last_n (os_vbuf_effective_hist_rows h hist) (page_rows (w div 8) (h div 16) (page_of (w div 8) (texts i)))"
    by (simp add: fb_shows_def fb_rows_def fb_shape_def)
  moreover have "cursor_position_x ?fb = length (snd (page_of (w div 8) (texts i)))"
    "cursor_position_y ?fb = min (length (fst (page_of (w div 8) (texts i)))) (h div 16 - 1)"
    using f(2,3) by (simp_all add: fb_shows_def fb_rows_def fb_shape_def)
  ultimately show ?thesis
    using visible_row(1) [OF f(1), of y] f(2) length_history [of ?fb]
    by (simp add: Let_def screen_row_def fb_shape_def)
qed

theorem history_keeps_text_witness:
  "history (frame_buffers (switch_active_frame_buffer demo_font 1 (write_string demo_font 0 [CHR ''a'', CHR ''b'', CHR ''c'', CHR 0x0A, CHR ''d'']
      (console_boot 16 32 16 3 (\<lambda>_. 7)))) ! 0) = [[97, 98], [99, 0], [100, 0]] \<and>
   cursor_position_x (frame_buffers (switch_active_frame_buffer demo_font 1
      (write_string demo_font 0 [CHR ''a'', CHR ''b'', CHR ''c'', CHR 0x0A, CHR ''d''] (console_boot 16 32 16 3 (\<lambda>_. 7)))) ! 0) = 1"
proof -
  have "page_of 2 [97, 98, 99, 10, 100] = ([[97, 98], [99]], [100])"
    "last_n (os_vbuf_effective_hist_rows 32 3) (page_rows 2 2 (page_of 2 [97, 98, 99, 10, 100])) = [[97, 98], [99, 0], [100, 0]]"
    by code_simp+
  then show ?thesis
    using history_keeps_text [OF demo_run [of "\<lambda>_. 7"], where i = 0] by (simp add: Let_def VBUF_COUNT_def demo_blank)
qed

text \<open>
  C30. The console writes no pixel outside the visible part of the scanlines, and every buffer
  stays well formed: its ring indices and its cursor are in range and it is never scrolled
  back beyond its history.
\<close>

theorem console_stays_inside:
  assumes "console_run font (console_boot w h ppsl hist s) con texts" "8 \<le> w" "16 \<le> h" "w \<le> ppsl" "blank_glyph font"
  shows "(\<not> visible w h ppsl p \<longrightarrow> pixels con p = s p) \<and> active_index con < VBUF_COUNT \<and>
    list_all (\<lambda>fb. length (content fb) = (w div 8) * os_vbuf_effective_hist_rows h hist \<and> base fb < hist_rows fb \<and>
      count fb \<le> hist_rows fb \<and> cursor_position_x fb < w div 8 \<and> cursor_position_y fb < h div 16 \<and>
      view_offset fb \<le> os_vbuf_max_view_offset fb) (frame_buffers con)"
proof -
  note B = buffers_okD [OF conjunct1 [OF run_ok [OF assms]]]
  have "length (content fb) = (w div 8) * os_vbuf_effective_hist_rows h hist \<and> base fb < hist_rows fb \<and>
      count fb \<le> hist_rows fb \<and> cursor_position_x fb < w div 8 \<and> cursor_position_y fb < h div 16 \<and>
      view_offset fb \<le> os_vbuf_max_view_offset fb" if "fb \<in> set (frame_buffers con)" for fb
  proof -
    have "fb_ok fb" "fb_shape fb w h ppsl (os_vbuf_effective_hist_rows h hist)"
      using that B(1,3,4) by (auto simp: in_set_conv_nth)
    then show ?thesis using fb_okD [of fb] by (simp add: fb_shape_def os_vbuf_max_view_offset_def)
  qed
  then show ?thesis using run_inside [OF assms] B(2) by (simp add: list_all_iff)
qed

theorem console_stays_inside_witness:
  "pixels (switch_active_frame_buffer demo_font 1 (write_string demo_font 0 [CHR ''a'', CHR ''b'', CHR ''c'', CHR 0x0A, CHR ''d'']
      (console_boot 16 32 16 3 (\<lambda>_. 7)))) 512 = 7"
  using console_stays_inside [OF demo_run [of "\<lambda>_. 7"], of 512] by (auto simp: demo_blank visible_def)

end
