(* ===== verification/Process.thy ===== *)
theory Process
  imports Console
begin

unbundle bit_operations_syntax

text \<open>
  The processes of \<^verbatim>\<open>src/c/process.c\<close> and the timer interrupt of \<^verbatim>\<open>src/c/interrupt.c\<close> that
  switches between them: the layout of the guarded stacks, the frame \<open>spawn\<close> builds for a
  process that has never run, the circular run queue and the round robin of
  \<open>c_timer_switch\<close>, and the switch of the registers in \<open>asm_timer_handler\<close>.

  Addresses are numbers; \<open>area\<close> is the address of \<open>g_stack_area\<close>. Memory is a map from the
  addresses of 8-byte words to the words. The cells of the run queue are numbered in the order
  \<open>spawn\<close> allocates them; a PCB is named by the index of its process, and its word 2, the
  saved stack pointer, is a component of the state.
\<close>

subsection \<open>Processes\<close>

datatype process_state_t = PROCESS_STATE_READY | PROCESS_STATE_RUNNING

definition PROCESS_COUNT :: nat where "PROCESS_COUNT = VBUF_COUNT"
definition PROCESS_STDIN_BUF_SIZE :: nat where "PROCESS_STDIN_BUF_SIZE = 256"

record process =
  proc_id :: u32
  proc_name :: string
  proc_state :: process_state_t
  stdout_buffer :: nat
  stdin_buf :: "char list"
  stdin_len :: nat
  read_pos :: nat
  ready :: bool
  env :: u64
  live_blocks :: u64
  gc_roots :: u64

record processes =
  g_processes :: "process list"
  g_current_process_index :: nat
  screen :: console

definition initialize_processes :: "process list \<Rightarrow> process list \<times> nat" where
  "initialize_processes ps =
     (map (\<lambda>i. (ps ! i)\<lparr>proc_id := of_nat i, proc_name := [CHR ''F'', char_of (49 + i)],
          proc_state := (if i = 0 then PROCESS_STATE_RUNNING else PROCESS_STATE_READY), stdout_buffer := i,
          stdin_len := 0, read_pos := 0, ready := False, env := 0, live_blocks := 0, gc_roots := 0\<rparr>)
        [0..<PROCESS_COUNT], 0)"

definition update_process :: "nat \<Rightarrow> (process \<Rightarrow> process) \<Rightarrow> 'a processes_scheme \<Rightarrow> 'a processes_scheme" where
  "update_process i f s = s\<lparr>g_processes := (g_processes s)[i := f (g_processes s ! i)]\<rparr>"

definition get_current_process :: "'a processes_scheme \<Rightarrow> process" where
  "get_current_process s = g_processes s ! g_current_process_index s"

definition get_process :: "nat \<Rightarrow> 'a processes_scheme \<Rightarrow> process" where
  "get_process index s = g_processes s ! index"

definition switch_active_process :: "font \<Rightarrow> nat \<Rightarrow> 'a processes_scheme \<Rightarrow> 'a processes_scheme" where
  "switch_active_process font index s =
     (if PROCESS_COUNT \<le> index \<or> index = g_current_process_index s then s
      else (let s = update_process (g_current_process_index s) (\<lambda>p. p\<lparr>proc_state := PROCESS_STATE_READY\<rparr>) s;
                s = s\<lparr>g_current_process_index := index\<rparr>;
                s = update_process index (\<lambda>p. p\<lparr>proc_state := PROCESS_STATE_RUNNING\<rparr>) s
            in s\<lparr>screen := switch_active_frame_buffer font index (screen s)\<rparr>))"

definition process_stdin_push :: "char \<Rightarrow> process \<Rightarrow> process" where
  "process_stdin_push c proc =
     (let proc = (if stdin_len proc < PROCESS_STDIN_BUF_SIZE - 1
                  then proc\<lparr>stdin_buf := (stdin_buf proc)[stdin_len proc := c], stdin_len := stdin_len proc + 1\<rparr>
                  else proc)
      in if c = CHR 0x0A then proc\<lparr>ready := True\<rparr> else proc)"

subsection \<open>Stacks and their guards\<close>

definition STACK_SIZE :: nat where "STACK_SIZE = 256 * 1024"
definition STACK_GUARD_SIZE :: nat where "STACK_GUARD_SIZE = 64 * 1024"
definition STACK_SLOT_SIZE :: nat where "STACK_SLOT_SIZE = STACK_GUARD_SIZE + STACK_SIZE"
definition STACK_AREA_SIZE :: nat where "STACK_AREA_SIZE = PROCESS_COUNT * STACK_SLOT_SIZE + STACK_GUARD_SIZE"
definition STACK_CANARY :: u64 where "STACK_CANARY = 0x5441434B47554152"
definition STACK_GUARD_MARGIN :: nat where "STACK_GUARD_MARGIN = 4096"

definition stack_slot :: "nat \<Rightarrow> nat \<Rightarrow> nat" where
  "stack_slot area i = area + i * STACK_SLOT_SIZE"

definition stack_usable_base :: "nat \<Rightarrow> nat \<Rightarrow> nat" where
  "stack_usable_base area i = stack_slot area i + STACK_GUARD_SIZE"

definition os_process_guard_base :: "nat \<Rightarrow> nat \<Rightarrow> nat" where
  "os_process_guard_base area i = (if PROCESS_COUNT < i then 0 else stack_slot area i)"

definition os_process_guard_size :: nat where "os_process_guard_size = STACK_GUARD_SIZE"

text \<open>The loops over the slots return at the first slot whose guard holds the address.\<close>

definition guard_of :: "nat \<Rightarrow> nat \<Rightarrow> nat option" where
  "guard_of area va =
     List.find (\<lambda>i. \<not> (va < stack_slot area i \<or> stack_slot area i + STACK_GUARD_SIZE \<le> va)) [0..<PROCESS_COUNT + 1]"

definition os_process_guard_side :: "nat \<Rightarrow> nat \<Rightarrow> nat" where
  "os_process_guard_side area va = (case guard_of area va of None \<Rightarrow> 0 | Some i \<Rightarrow> 1)"

definition os_process_guard_is_upper :: "nat \<Rightarrow> nat \<Rightarrow> nat \<Rightarrow> bool" where
  "os_process_guard_is_upper area va rsp =
     (case guard_of area va of None \<Rightarrow> False
      | Some i \<Rightarrow>
          if i = 0 then False
          else (let prev_lo = stack_usable_base area (i - 1) in prev_lo \<le> rsp \<and> rsp \<le> prev_lo + STACK_SIZE))"

definition os_process_in_stack_guard :: "nat \<Rightarrow> nat \<Rightarrow> bool" where
  "os_process_in_stack_guard area va \<longleftrightarrow>
     list_ex (\<lambda>i. stack_slot area i \<le> va \<and> va < stack_slot area i + STACK_GUARD_SIZE) [0..<PROCESS_COUNT + 1]"

definition os_process_stack_base :: "nat \<Rightarrow> nat \<Rightarrow> nat" where
  "os_process_stack_base area i = (if PROCESS_COUNT \<le> i then 0 else stack_usable_base area i)"

definition stack_of :: "nat \<Rightarrow> nat \<Rightarrow> nat option" where
  "stack_of area rsp =
     List.find (\<lambda>i. stack_usable_base area i \<le> rsp \<and> rsp \<le> stack_usable_base area i + STACK_SIZE) [0..<PROCESS_COUNT]"

definition os_process_stack_contains :: "nat \<Rightarrow> nat \<Rightarrow> bool" where
  "os_process_stack_contains area rsp \<longleftrightarrow> stack_of area rsp \<noteq> None"

definition os_process_stack_low_for :: "nat \<Rightarrow> nat \<Rightarrow> nat" where
  "os_process_stack_low_for area rsp = (case stack_of area rsp of None \<Rightarrow> 0 | Some i \<Rightarrow> stack_usable_base area i)"

definition stack_canary_init :: "nat \<Rightarrow> nat \<Rightarrow> memory \<Rightarrow> memory" where
  "stack_canary_init area proc_index mem = mem(stack_usable_base area proc_index := STACK_CANARY)"

text \<open>The result and the two output parameters \<open>out_low\<close> and \<open>out_used\<close>.\<close>

definition os_process_stack_check :: "nat \<Rightarrow> memory \<Rightarrow> nat \<Rightarrow> bool \<times> nat \<times> nat" where
  "os_process_stack_check area mem rsp =
     (case List.find (\<lambda>i. mem (stack_usable_base area i) \<noteq> STACK_CANARY) [0..<PROCESS_COUNT] of
        Some i \<Rightarrow> (False, stack_usable_base area i, STACK_SIZE)
      | None \<Rightarrow>
          (case stack_of area rsp of
             Some i \<Rightarrow>
               let low = stack_usable_base area i; high = low + STACK_SIZE
               in (low + STACK_GUARD_MARGIN \<le> rsp, low, high - rsp)
           | None \<Rightarrow> (True, 0, 0)))"

subsection \<open>Spawning\<close>

record sched =
  cell_car :: "nat \<Rightarrow> nat"
  cell_cdr :: "nat \<Rightarrow> nat"
  cells :: nat
  run_queue :: "nat option"
  current_process :: "nat option"
  saved_rsp :: "nat \<Rightarrow> nat"
  g_tick_counter :: u64

definition os_process_get_saved_rsp :: "nat \<Rightarrow> sched \<Rightarrow> nat" where
  "os_process_get_saved_rsp pcb s = saved_rsp s pcb"

definition os_process_set_saved_rsp :: "nat \<Rightarrow> nat \<Rightarrow> sched \<Rightarrow> sched" where
  "os_process_set_saved_rsp pcb rsp s = s\<lparr>saved_rsp := (saved_rsp s)(pcb := rsp)\<rparr>"

text \<open>The first process becomes a circle of one; a later one goes behind the anchor.\<close>

definition enqueue :: "nat \<Rightarrow> sched \<Rightarrow> sched" where
  "enqueue pcb s =
     (let new_cell = cells s; s = s\<lparr>cells := new_cell + 1, cell_car := (cell_car s)(new_cell := pcb)\<rparr>
      in case run_queue s of
           None \<Rightarrow> s\<lparr>cell_cdr := (cell_cdr s)(new_cell := new_cell), run_queue := Some new_cell\<rparr>
         | Some anchor \<Rightarrow>
             s\<lparr>cell_cdr := (cell_cdr s)(new_cell := cell_cdr s anchor, anchor := new_cell)\<rparr>)"

text \<open>Where FXSAVE and FXRSTOR put the state of a context with its registers at \<open>rsp\<close>.\<close>

definition fxsave_address :: "nat \<Rightarrow> nat" where
  "fxsave_address rsp = (rsp - 528 + 15) div 16 * 16"

definition spawn_stack_top :: "nat \<Rightarrow> nat \<Rightarrow> nat" where
  "spawn_stack_top area proc_index =
     (let stack_top = stack_usable_base area proc_index + STACK_SIZE
      in if stack_top mod 16 \<noteq> 8 then stack_top - 8 else stack_top)"

definition spawn_frame :: "nat \<Rightarrow> u64 list \<Rightarrow> u64 \<Rightarrow> nat \<Rightarrow> memory \<Rightarrow> memory \<times> nat" where
  "spawn_frame area fpu_default trampoline proc_index mem =
     (let mem = stack_canary_init area proc_index mem;
          stack_top = spawn_stack_top area proc_index;
          frame_base = stack_top - 160;
          mem = fold (\<lambda>i mem. mem(frame_base + 8 * i := 0)) [0..<15] mem;
          mem = mem(frame_base + 8 * 9 := of_nat proc_index);
          fxsave_area = fxsave_address frame_base;
          mem = fold (\<lambda>i mem. mem(fxsave_area + 8 * i := fpu_default ! i)) [0..<64] mem;
          iretq_frame = stack_top - 40;
          mem = mem(iretq_frame := trampoline, iretq_frame + 8 := 0x08, iretq_frame + 16 := 0x202,
            iretq_frame + 24 := of_nat (stack_top - 16), iretq_frame + 32 := 0x10)
      in (mem, frame_base))"

definition spawn :: "nat \<Rightarrow> u64 list \<Rightarrow> u64 \<Rightarrow> nat \<Rightarrow> memory \<times> sched \<Rightarrow> memory \<times> sched" where
  "spawn area fpu_default trampoline proc_index ms =
     (let (mem, frame_base) = spawn_frame area fpu_default trampoline proc_index (fst ms)
      in (mem, enqueue proc_index (os_process_set_saved_rsp proc_index frame_base (snd ms))))"

definition process_scheduler_start :: "nat \<Rightarrow> u64 list \<Rightarrow> u64 \<Rightarrow> memory \<times> sched \<Rightarrow> memory \<times> sched" where
  "process_scheduler_start area fpu_default trampoline ms = fold (spawn area fpu_default trampoline) [0..<PROCESS_COUNT] ms"

subsection \<open>The timer interrupt\<close>

text \<open>
  \<open>c_timer_switch\<close>: the new state and the stack pointer to load, or the panic about a stack
  that has overflowed. The sampler \<open>g_tick_sample_interval\<close> is off and writes only to the serial line.
\<close>

definition c_timer_switch :: "nat \<Rightarrow> memory \<Rightarrow> nat \<Rightarrow> sched \<Rightarrow> (nat \<times> nat, nat \<times> sched) sum" where
  "c_timer_switch area mem current_rsp s =
     (let s = s\<lparr>g_tick_counter := g_tick_counter s + 1\<rparr>;
          (ok, stack_low, stack_used) = os_process_stack_check area mem current_rsp
      in if \<not> ok then Inl (stack_low, stack_used)
         else (let (s, next_cell) =
                 (case current_process s of
                    None \<Rightarrow> (s, the (run_queue s))
                  | Some current_cell \<Rightarrow>
                      (os_process_set_saved_rsp (cell_car s current_cell) current_rsp s, cell_cdr s current_cell));
               s = s\<lparr>current_process := Some next_cell\<rparr>
           in Inr (os_process_get_saved_rsp (cell_car s next_cell) s, s)))"

text \<open>
  The registers of a context: the general ones in the order of their addresses once pushed
  (\<open>r15\<close> first, \<open>rax\<close> last), the FXSAVE image and what IRETQ restores.
\<close>

record cpu =
  gprs :: "u64 list"
  fpu_image :: "u64 list"
  iret_rip :: u64
  iret_cs :: u64
  iret_rflags :: u64
  iret_rsp :: nat
  iret_ss :: u64

text \<open>Storing and loading consecutive words.\<close>

definition store_words :: "nat \<Rightarrow> u64 list \<Rightarrow> memory \<Rightarrow> memory" where
  "store_words a ws mem = fold (\<lambda>i mem. mem(a + 8 * i := ws ! i)) [0..<length ws] mem"

definition load_words :: "nat \<Rightarrow> nat \<Rightarrow> memory \<Rightarrow> u64 list" where
  "load_words a n mem = map (\<lambda>i. mem (a + 8 * i)) [0..<n]"

text \<open>
  \<open>asm_timer_handler\<close> up to the call: the processor aligns the stack and pushes five words,
  the handler the fifteen registers, and saves the FPU below them.
\<close>

definition timer_entry :: "cpu \<Rightarrow> memory \<Rightarrow> memory \<times> nat" where
  "timer_entry c mem =
     (let frame = iret_rsp c div 16 * 16 - 160;
          mem = store_words frame (gprs c @ [iret_rip c, iret_cs c, iret_rflags c, of_nat (iret_rsp c), iret_ss c]) mem
      in (store_words (fxsave_address frame) (fpu_image c) mem, frame))"

text \<open>The rest of it: the registers come from the stack that \<open>c_timer_switch\<close> returned.\<close>

definition timer_exit :: "nat \<Rightarrow> memory \<Rightarrow> cpu" where
  "timer_exit frame mem =
     \<lparr>gprs = load_words frame 15 mem, fpu_image = load_words (fxsave_address frame) 64 mem, iret_rip = mem (frame + 120),
      iret_cs = mem (frame + 128), iret_rflags = mem (frame + 136), iret_rsp = unat (mem (frame + 144)), iret_ss = mem (frame + 152)\<rparr>"

definition asm_timer_handler ::
  "nat \<Rightarrow> memory \<times> cpu \<times> sched \<Rightarrow> (nat \<times> nat, memory \<times> cpu \<times> sched) sum" where
  "asm_timer_handler area st =
     (let (mem, c, s) = st; (mem, frame) = timer_entry c mem
      in case c_timer_switch area mem frame s of
           Inl e \<Rightarrow> Inl e
         | Inr (next_rsp, s) \<Rightarrow> Inr (mem, timer_exit next_rsp mem, s))"

subsection \<open>The layout of the stacks\<close>

lemmas layout_defs = STACK_SIZE_def STACK_GUARD_SIZE_def STACK_SLOT_SIZE_def STACK_AREA_SIZE_def PROCESS_COUNT_def VBUF_COUNT_def
  stack_slot_def stack_usable_base_def

lemma four: "i < PROCESS_COUNT \<longleftrightarrow> i = 0 \<or> i = 1 \<or> i = 2 \<or> i = (3 :: nat)"
  by (auto simp: PROCESS_COUNT_def VBUF_COUNT_def)

lemma find_upt_unique:
  assumes "k < n" "P k" "\<And>i. P i \<Longrightarrow> i = k"
  shows "List.find P [0..<n] = Some k"
proof (cases "List.find P [0..<n]")
  case None
  then show ?thesis using assms(1,2) by (auto simp: find_None_iff)
next
  case (Some j)
  then have "P j" by (auto simp: find_Some_iff)
  then show ?thesis using assms(3) Some by simp
qed

lemma find_upt_None: "List.find P [0..<n] = None \<longleftrightarrow> (\<forall>i < n. \<not> P i)"
  by (auto simp: find_None_iff)

lemma slot_unique:
  assumes "area + i * 327680 + a \<le> v" "v < area + i * 327680 + a + 327680"
    "area + j * 327680 + a \<le> v" "v < area + j * 327680 + a + 327680"
  shows "i = (j :: nat)"
  using assms by linarith

lemma guard_of_Some:
  assumes "i \<le> PROCESS_COUNT" "stack_slot area i \<le> va" "va < stack_slot area i + STACK_GUARD_SIZE"
  shows "guard_of area va = Some i"
  unfolding guard_of_def
proof (rule find_upt_unique)
  fix j
  assume "\<not> (va < stack_slot area j \<or> stack_slot area j + STACK_GUARD_SIZE \<le> va)"
  then show "j = i" using assms slot_unique [of area j 0 va i] by (simp add: layout_defs)
qed (use assms in auto)

lemma guard_of_None:
  "guard_of area va = None \<longleftrightarrow> (\<forall>i \<le> PROCESS_COUNT. \<not> (stack_slot area i \<le> va \<and> va < stack_slot area i + STACK_GUARD_SIZE))"
  unfolding guard_of_def find_upt_None by (auto simp: less_Suc_eq_le)

lemma stack_of_Some:
  assumes "i < PROCESS_COUNT" "stack_usable_base area i \<le> r" "r \<le> stack_usable_base area i + STACK_SIZE"
  shows "stack_of area r = Some i"
  unfolding stack_of_def
proof (rule find_upt_unique)
  fix j
  assume "stack_usable_base area j \<le> r \<and> r \<le> stack_usable_base area j + STACK_SIZE"
  then show "j = i" using assms slot_unique [of area j 65536 r i] by (simp add: layout_defs)
qed (use assms in auto)

lemma in_stack_guard_iff: "os_process_in_stack_guard area va \<longleftrightarrow> guard_of area va \<noteq> None"
  unfolding guard_of_None os_process_in_stack_guard_def list_ex_iff
  by (auto simp: less_Suc_eq_le simp del: upt_Suc)

lemma in_stack_guard_eq:
  "os_process_in_stack_guard area va \<longleftrightarrow>
     area \<le> va \<and> va < area + STACK_AREA_SIZE \<and> (va - area) mod STACK_SLOT_SIZE < STACK_GUARD_SIZE"
proof
  assume "os_process_in_stack_guard area va"
  then obtain i where i: "i < 5" "area + i * 327680 \<le> va" "va < area + i * 327680 + 65536"
    by (auto simp: os_process_in_stack_guard_def list_ex_iff layout_defs)
  define z where "z = va - area - i * 327680"
  have "va - area = i * 327680 + z" "z < 65536" using i by (simp_all add: z_def)
  then have "(va - area) mod 327680 < 65536" by simp
  then show "area \<le> va \<and> va < area + STACK_AREA_SIZE \<and> (va - area) mod STACK_SLOT_SIZE < STACK_GUARD_SIZE"
    using i by (simp add: layout_defs)
next
  assume a: "area \<le> va \<and> va < area + STACK_AREA_SIZE \<and> (va - area) mod STACK_SLOT_SIZE < STACK_GUARD_SIZE"
  define i where "i = (va - area) div 327680"
  have "va - area = i * 327680 + (va - area) mod 327680" by (simp add: i_def)
  moreover have "i < 5" using a by (auto simp: i_def layout_defs)
  ultimately show "os_process_in_stack_guard area va"
    using a by (auto simp: os_process_in_stack_guard_def list_ex_iff layout_defs intro!: bexI [of _ i])
qed

text \<open>
  The guards: an address is in a guard exactly when it lies in the first 64 KB of a slot or
  in the 64 KB behind the last one, so every stack has a guard right below and right above it;
  \<open>os_process_guard_side\<close> only tells guard from no guard (its comment promises 2 for the upper
  side of a stack), and for a stack pointer inside stack \<open>i\<close> the fault is reported as an upper
  one exactly in the guard above it.
\<close>

theorem guard_classification:
  "(os_process_in_stack_guard area va \<longleftrightarrow>
      area \<le> va \<and> va < area + STACK_AREA_SIZE \<and> (va - area) mod STACK_SLOT_SIZE < STACK_GUARD_SIZE) \<and>
   os_process_guard_side area va = (if os_process_in_stack_guard area va then 1 else 0) \<and>
   (i < PROCESS_COUNT \<and> stack_usable_base area i \<le> r \<and> r < stack_usable_base area i + STACK_SIZE \<longrightarrow>
      (os_process_guard_is_upper area va r \<longleftrightarrow>
         stack_usable_base area i + STACK_SIZE \<le> va \<and> va < stack_usable_base area i + STACK_SIZE + os_process_guard_size))"
proof (intro conjI impI)
  show "os_process_in_stack_guard area va \<longleftrightarrow>
      area \<le> va \<and> va < area + STACK_AREA_SIZE \<and> (va - area) mod STACK_SLOT_SIZE < STACK_GUARD_SIZE"
    by (rule in_stack_guard_eq)
  show "os_process_guard_side area va = (if os_process_in_stack_guard area va then 1 else 0)"
    by (auto simp: os_process_guard_side_def in_stack_guard_iff split: option.splits)
next
  assume r: "i < PROCESS_COUNT \<and> stack_usable_base area i \<le> r \<and> r < stack_usable_base area i + STACK_SIZE"
  show "os_process_guard_is_upper area va r \<longleftrightarrow>
      stack_usable_base area i + STACK_SIZE \<le> va \<and> va < stack_usable_base area i + STACK_SIZE + os_process_guard_size" (is "_ \<longleftrightarrow> ?above")
  proof
    assume "os_process_guard_is_upper area va r"
    then obtain j where j: "guard_of area va = Some j" "j \<noteq> 0" "stack_usable_base area (j - 1) \<le> r"
      "r \<le> stack_usable_base area (j - 1) + STACK_SIZE"
      by (auto simp: os_process_guard_is_upper_def Let_def split: option.splits if_splits)
    have "stack_slot area j \<le> va" "va < stack_slot area j + STACK_GUARD_SIZE" using j(1) by (auto simp: guard_of_def find_Some_iff)
    moreover have "j - 1 = i" using j r slot_unique [of area "j - 1" 65536 r i] by (simp add: layout_defs)
    then have "j = Suc i" using j(2) by simp
    ultimately show ?above by (simp add: layout_defs os_process_guard_size_def)
  next
    assume ?above
    then have "guard_of area va = Some (i + 1)" using r by (intro guard_of_Some) (simp_all add: layout_defs os_process_guard_size_def)
    then show "os_process_guard_is_upper area va r" using r by (simp add: os_process_guard_is_upper_def)
  qed
qed

subsection \<open>Saving and restoring a context\<close>

lemma unat_of_nat64: "x < 2 ^ 64 \<Longrightarrow> unat (of_nat x :: u64) = x"
  by (simp add: unat_of_nat take_bit_eq_mod)

lemma store_words_at:
  "store_words a ws mem p = (if \<exists>i < length ws. p = a + 8 * i then ws ! ((p - a) div 8) else mem p)"
proof -
  have "fold (\<lambda>i mem. mem(a + 8 * i := ws ! i)) [0..<n] mem p = (if \<exists>i < n. p = a + 8 * i then ws ! ((p - a) div 8) else mem p)" for n
    by (induction n) (auto simp: less_Suc_eq)
  then show ?thesis by (simp add: store_words_def)
qed

lemma store_words_same: "i < length ws \<Longrightarrow> store_words a ws mem (a + 8 * i) = ws ! i"
  by (auto simp: store_words_at)

lemma store_words_other: "p < a \<or> a + 8 * length ws \<le> p \<Longrightarrow> store_words a ws mem p = mem p"
  by (auto simp: store_words_at)

lemma load_store_same: "length ws = n \<Longrightarrow> load_words a n (store_words a ws mem) = ws"
  by (auto simp: load_words_def store_words_same intro: nth_equalityI)

lemma load_words_cong: "(\<And>i. i < n \<Longrightarrow> m (a + 8 * i) = m' (a + 8 * i)) \<Longrightarrow> load_words a n m = load_words a n m'"
  by (simp add: load_words_def)

definition cpu_wf :: "cpu \<Rightarrow> bool" where
  "cpu_wf c \<longleftrightarrow> length (gprs c) = 15 \<and> length (fpu_image c) = 64 \<and> iret_rsp c < 2 ^ 64"

lemma fxsave_bounds: "528 \<le> f \<Longrightarrow> f - 528 \<le> fxsave_address f \<and> fxsave_address f + 512 < f"
  unfolding fxsave_address_def by linarith

text \<open>What a context needs of memory: 528 bytes below its frame and the 160 bytes of the frame.\<close>

lemma timer_exit_cong:
  assumes "528 \<le> f" "\<And>p. f - 528 \<le> p \<Longrightarrow> p < f + 160 \<Longrightarrow> m p = m' p"
  shows "timer_exit f m = timer_exit f m'"
proof -
  have "load_words f 15 m = load_words f 15 m'" "load_words (fxsave_address f) 64 m = load_words (fxsave_address f) 64 m'"
    using fxsave_bounds [OF assms(1)] by (auto intro!: load_words_cong assms(2))
  then show ?thesis using assms(2) by (simp add: timer_exit_def)
qed

lemma timer_entry_exit:
  assumes "cpu_wf c" "704 \<le> iret_rsp c"
  shows "(case timer_entry c mem of (m, f) \<Rightarrow> timer_exit f m) = c"
proof -
  let ?f = "iret_rsp c div 16 * 16 - 160"
  let ?ws = "gprs c @ [iret_rip c, iret_cs c, iret_rflags c, of_nat (iret_rsp c), iret_ss c]"
  let ?m1 = "store_words ?f ?ws mem" and ?m = "store_words (fxsave_address ?f) (fpu_image c) (store_words ?f ?ws mem)"
  have l: "length ?ws = 20" "length (fpu_image c) = 64" "length (gprs c) = 15" using assms(1) by (simp_all add: cpu_wf_def)
  have f: "528 \<le> ?f" using assms(2) by linarith
  have fx: "load_words (fxsave_address ?f) 64 ?m = fpu_image c" using l(2) by (rule load_store_same)
  have frame: "?m (?f + 8 * i) = ?ws ! i" if "i < 20" for i
    using fxsave_bounds [OF f] that l by (simp add: store_words_other store_words_same del: append.simps)
  have "load_words ?f 15 ?m = gprs c"
    unfolding load_words_def using l(3) frame by (intro nth_equalityI) (simp_all add: nth_append)
  moreover have "?m (?f + 120) = iret_rip c" "?m (?f + 128) = iret_cs c" "?m (?f + 136) = iret_rflags c"
    "?m (?f + 144) = of_nat (iret_rsp c)" "?m (?f + 152) = iret_ss c"
    using frame [of 15] frame [of 16] frame [of 17] frame [of 18] frame [of 19] l(3) by (simp_all add: nth_append)
  moreover have "unat (of_nat (iret_rsp c) :: u64) = iret_rsp c" using assms(1) by (simp add: cpu_wf_def unat_of_nat64)
  ultimately show ?thesis using fx by (simp add: timer_entry_def timer_exit_def Let_def)
qed

lemma timer_entry_outside:
  assumes "cpu_wf c" "704 \<le> iret_rsp c" "timer_entry c mem = (m, f)"
  shows "f = iret_rsp c div 16 * 16 - 160" "p < f - 528 \<or> f + 160 \<le> p \<Longrightarrow> m p = mem p"
proof -
  show f: "f = iret_rsp c div 16 * 16 - 160" using assms(3) by (simp add: timer_entry_def Let_def)
  have "528 \<le> f" unfolding f using assms(2) by linarith
  from fxsave_bounds [OF this] show "p < f - 528 \<or> f + 160 \<le> p \<Longrightarrow> m p = mem p"
    using assms(1,3) f by (auto simp: timer_entry_def Let_def cpu_wf_def store_words_other)
qed

text \<open>The context of a process that has never run.\<close>

definition spawned :: "nat \<Rightarrow> u64 list \<Rightarrow> u64 \<Rightarrow> nat \<Rightarrow> cpu" where
  "spawned area fpu_default trampoline i =
     \<lparr>gprs = (replicate 15 0)[9 := of_nat i], fpu_image = fpu_default, iret_rip = trampoline, iret_cs = 0x08,
      iret_rflags = 0x202, iret_rsp = spawn_stack_top area i - 16, iret_ss = 0x10\<rparr>"

lemma spawn_frame_words:
  fixes area i :: nat
  assumes "length fpu_default = 64"
  defines "st \<equiv> spawn_stack_top area i"
  shows "spawn_frame area fpu_default trampoline i mem =
    (let m = store_words (st - 160) (replicate 15 0) (stack_canary_init area i mem);
         m = m(st - 160 + 8 * 9 := of_nat i);
         m = store_words (fxsave_address (st - 160)) fpu_default m
     in (m(st - 40 := trampoline, st - 40 + 8 := 0x08, st - 40 + 16 := 0x202, st - 40 + 24 := of_nat (st - 16),
         st - 40 + 32 := 0x10), st - 160))"
proof -
  have "fold (\<lambda>i mem. mem(a + 8 * i := 0)) [0..<15] m = store_words a (replicate 15 0) m" for a m
    unfolding store_words_def by (intro fold_cong) simp_all
  then show ?thesis unfolding spawn_frame_def Let_def st_def store_words_def assms(1) by simp
qed

lemma spawn_stack_top_bounds:
  assumes "area mod 16 = 0"
  shows "spawn_stack_top area i = stack_usable_base area i + STACK_SIZE - 8" "spawn_stack_top area i mod 16 = 8"
proof -
  obtain k where "area = 16 * k" using assms by (metis mod_0_imp_dvd dvdE)
  then have e: "stack_usable_base area i + STACK_SIZE = 16 * (k + i * 20480 + 20480)" by (simp add: layout_defs)
  show "spawn_stack_top area i = stack_usable_base area i + STACK_SIZE - 8"
    unfolding spawn_stack_top_def Let_def e by simp
  then have "spawn_stack_top area i = 8 + 16 * (k + i * 20480 + 20479)" unfolding e by simp
  then show "spawn_stack_top area i mod 16 = 8" by (simp only: mod_mult_self2) simp
qed

lemma spawn_frame_context:
  assumes fpu: "length fpu_default = 64" and area: "area mod 16 = 0" "area + STACK_AREA_SIZE < 2 ^ 64" and i: "i < PROCESS_COUNT"
    and sp: "spawn_frame area fpu_default trampoline i mem = (m, f)"
  shows "f = stack_usable_base area i + STACK_SIZE - 168" "timer_exit f m = spawned area fpu_default trampoline i"
    "m (stack_usable_base area i) = STACK_CANARY"
    "p < stack_usable_base area i \<or> stack_usable_base area i + STACK_SIZE \<le> p \<Longrightarrow> m p = mem p"
proof -
  define st where "st = spawn_stack_top area i"
  note sp' = sp [unfolded spawn_frame_words [OF fpu], folded st_def]
  have st: "st = stack_usable_base area i + STACK_SIZE - 8" unfolding st_def by (rule spawn_stack_top_bounds(1) [OF area(1)])
  have big: "262136 \<le> st" unfolding st by (simp add: layout_defs)
  show f: "f = stack_usable_base area i + STACK_SIZE - 168" using sp' st by (simp add: Let_def layout_defs)
  have f': "f = st - 160" "528 \<le> f" using f st by (simp_all add: layout_defs)
  define m1 where "m1 = (store_words f (replicate 15 0) (stack_canary_init area i mem))(f + 72 := of_nat i)"
  define m2 where "m2 = store_words (fxsave_address f) fpu_default m1"
  have m: "m = m2(f + 120 := trampoline, f + 128 := 0x08, f + 136 := 0x202, f + 144 := of_nat (st - 16), f + 152 := 0x10)"
  proof -
    have "st = f + 160" using big f'(1) by simp
    then show ?thesis using sp' unfolding m2_def m1_def Let_def by (simp add: add.commute)
  qed
  note fx = fxsave_bounds [OF f'(2)]
  have m2: "m2 p = m1 p" if "f \<le> p" for p using that fx fpu by (simp add: m2_def store_words_other)
  have regs: "m (f + 8 * k) = (replicate 15 0)[9 := of_nat i] ! k" if "k < 15" for k
    using that m2 [of "f + 8 * k"] store_words_same [of k "replicate 15 0" f] by (auto simp: m m1_def nth_list_update)
  then have "load_words f 15 m = (replicate 15 0)[9 := of_nat i]" unfolding load_words_def by (intro nth_equalityI) simp_all
  moreover have "load_words (fxsave_address f) 64 m = load_words (fxsave_address f) 64 m2"
    using fx by (intro load_words_cong) (simp add: m)
  then have "load_words (fxsave_address f) 64 m = fpu_default" using load_store_same [OF fpu] by (simp add: m2_def)
  moreover have "unat (of_nat (st - 16) :: u64) = st - 16"
    using area(2) i st by (intro unat_of_nat64) (auto simp: layout_defs)
  ultimately show "timer_exit f m = spawned area fpu_default trampoline i"
    by (simp add: timer_exit_def spawned_def m st_def)
  have low: "stack_usable_base area i + 8 \<le> f - 528" "f + 160 \<le> stack_usable_base area i + STACK_SIZE"
    using f by (simp_all add: layout_defs)
  have far: "m p = stack_canary_init area i mem p" if "p < f - 528 \<or> f + 160 \<le> p" for p
    using that fx fpu f'(2) by (auto simp: m m2_def m1_def store_words_other)
  show "m (stack_usable_base area i) = STACK_CANARY" using far [of "stack_usable_base area i"] low by (simp add: stack_canary_init_def)
  show "p < stack_usable_base area i \<or> stack_usable_base area i + STACK_SIZE \<le> p \<Longrightarrow> m p = mem p"
    using far [of p] low by (auto simp: stack_canary_init_def layout_defs)
qed

subsection \<open>Execution with timer interrupts\<close>

text \<open>
  The machine between boot and the end of time: the process that runs computes, and the timer
  interrupts it. Computing may write anywhere except on the guard words of the stacks and on
  what an interrupt saved of the other processes, the 528 bytes below and the 160 bytes above
  their saved stack pointers: the collector, in particular, rewrites the protected variables
  of the interrupted functions, which lie above the saved frame on the same stack. The last
  component records for every process the context it had when it was last interrupted (the one
  \<open>spawn\<close> made, before it has run).
\<close>

definition same_stacks :: "nat \<Rightarrow> nat set \<Rightarrow> memory \<Rightarrow> memory \<Rightarrow> bool" where
  "same_stacks area ps m m' \<longleftrightarrow>
     (\<forall>i \<in> ps. \<forall>p. stack_usable_base area i \<le> p \<longrightarrow> p < stack_usable_base area i + STACK_SIZE \<longrightarrow> m' p = m p)"

definition same_frames :: "sched \<Rightarrow> nat set \<Rightarrow> memory \<Rightarrow> memory \<Rightarrow> bool" where
  "same_frames s ps m m' \<longleftrightarrow>
     (\<forall>i \<in> ps. \<forall>p. saved_rsp s i - 528 \<le> p \<longrightarrow> p < saved_rsp s i + 160 \<longrightarrow> m' p = m p)"

definition guards_kept :: "nat \<Rightarrow> memory \<Rightarrow> bool" where
  "guards_kept area m \<longleftrightarrow> (\<forall>i < PROCESS_COUNT. m (stack_usable_base area i) = STACK_CANARY)"

definition on_stack :: "nat \<Rightarrow> nat \<Rightarrow> cpu \<Rightarrow> bool" where
  "on_stack area i c \<longleftrightarrow> cpu_wf c \<and> stack_usable_base area i + 712 \<le> iret_rsp c \<and> iret_rsp c \<le> stack_usable_base area i + STACK_SIZE"

definition off_stacks :: "nat \<Rightarrow> cpu \<Rightarrow> bool" where
  "off_stacks area c \<longleftrightarrow> cpu_wf c \<and> 704 \<le> iret_rsp c \<and> (iret_rsp c \<le> area \<or> area + STACK_AREA_SIZE + 720 \<le> iret_rsp c)"

definition running :: "sched \<Rightarrow> nat" where "running s = cell_car s (the (current_process s))"

definition no_processes :: "sched \<Rightarrow> bool" where
  "no_processes s \<longleftrightarrow> cells s = 0 \<and> run_queue s = None \<and> current_process s = None"

inductive os_run :: "nat \<Rightarrow> u64 list \<Rightarrow> u64 \<Rightarrow> memory \<times> cpu \<times> sched \<Rightarrow> (nat \<Rightarrow> cpu) \<Rightarrow> bool"
  for area fpu_default trampoline where
  run_boot: "no_processes s0 \<Longrightarrow> process_scheduler_start area fpu_default trampoline (m0, s0) = (m, s) \<Longrightarrow> off_stacks area c \<Longrightarrow>
    asm_timer_handler area (m, c, s) = Inr st \<Longrightarrow> os_run area fpu_default trampoline st (spawned area fpu_default trampoline)"
| run_compute: "os_run area fpu_default trampoline (m, c, s) ctx \<Longrightarrow> on_stack area (running s) c' \<Longrightarrow>
    same_frames s ({..<PROCESS_COUNT} - {running s}) m m' \<Longrightarrow> guards_kept area m' \<Longrightarrow>
    os_run area fpu_default trampoline (m', c', s) ctx"
| run_tick: "os_run area fpu_default trampoline (m, c, s) ctx \<Longrightarrow> asm_timer_handler area (m, c, s) = Inr st \<Longrightarrow>
    os_run area fpu_default trampoline st (ctx(running s := c))"

definition next_process :: "nat \<Rightarrow> nat" where "next_process p = (p + 3) mod 4"

definition queue_ok :: "sched \<Rightarrow> bool" where
  "queue_ok s \<longleftrightarrow> run_queue s = Some 0 \<and> (\<forall>k < 4. cell_car s k = k \<and> cell_cdr s k = next_process k) \<and>
     (case current_process s of None \<Rightarrow> True | Some k \<Rightarrow> k < 4)"

definition contexts_ok :: "nat \<Rightarrow> memory \<Rightarrow> sched \<Rightarrow> (nat \<Rightarrow> cpu) \<Rightarrow> nat set \<Rightarrow> bool" where
  "contexts_ok area m s ctx ps \<longleftrightarrow> (\<forall>i < 4. m (stack_usable_base area i) = STACK_CANARY) \<and>
     (\<forall>i \<in> ps. on_stack area i (ctx i) \<and> stack_usable_base area i + 536 \<le> saved_rsp s i \<and>
        saved_rsp s i + 160 \<le> stack_usable_base area i + STACK_SIZE \<and> timer_exit (saved_rsp s i) m = ctx i)"

lemma contexts_ok_same:
  assumes "contexts_ok area m s ctx ps" "same_frames s ps m m'" "\<forall>i < 4. m' (stack_usable_base area i) = STACK_CANARY"
    "saved_rsp s' = saved_rsp s"
  shows "contexts_ok area m' s' ctx ps"
proof -
  have "timer_exit (saved_rsp s i) m' = timer_exit (saved_rsp s i) m" if "i \<in> ps" for i
    using assms(1,2) that by (intro timer_exit_cong) (auto simp: contexts_ok_def same_frames_def)
  then show ?thesis using assms by (simp add: contexts_ok_def)
qed

lemma same_stacks_frames:
  "contexts_ok area m s ctx ps \<Longrightarrow> same_stacks area ps m m' \<Longrightarrow> same_frames s ps m m'"
  unfolding contexts_ok_def same_stacks_def same_frames_def by fastforce

lemma enqueue_fields:
  "run_queue (enqueue i s) = (case run_queue s of None \<Rightarrow> Some (cells s) | Some a \<Rightarrow> Some a)"
  "cells (enqueue i s) = cells s + 1" "current_process (enqueue i s) = current_process s"
  "cell_car (enqueue i s) = (cell_car s)(cells s := i)" "saved_rsp (enqueue i s) = saved_rsp s"
  "cell_cdr (enqueue i s) = (case run_queue s of None \<Rightarrow> (cell_cdr s)(cells s := cells s)
     | Some a \<Rightarrow> (cell_cdr s)(cells s := cell_cdr s a, a := cells s))"
  by (simp_all add: enqueue_def Let_def split: option.splits)

lemma stack_check_Inr:
  assumes "c_timer_switch area m r s = Inr (r', s')"
  shows "(r', s') = (let s = s\<lparr>g_tick_counter := g_tick_counter s + 1\<rparr>;
     (s, next_cell) = (case current_process s of None \<Rightarrow> (s, the (run_queue s))
        | Some current_cell \<Rightarrow> (os_process_set_saved_rsp (cell_car s current_cell) r s, cell_cdr s current_cell))
   in (saved_rsp s (cell_car s next_cell), s\<lparr>current_process := Some next_cell\<rparr>))"
  using assms by (auto simp: c_timer_switch_def Let_def os_process_get_saved_rsp_def os_process_set_saved_rsp_def split: prod.splits if_splits option.splits)

definition spawned_ok :: "nat \<Rightarrow> u64 list \<Rightarrow> u64 \<Rightarrow> nat set \<Rightarrow> memory \<Rightarrow> sched \<Rightarrow> bool" where
  "spawned_ok area fpu_default trampoline ps m s \<longleftrightarrow> (\<forall>i \<in> ps. m (stack_usable_base area i) = STACK_CANARY \<and>
     saved_rsp s i = stack_usable_base area i + STACK_SIZE - 168 \<and>
     timer_exit (saved_rsp s i) m = spawned area fpu_default trampoline i)"

lemma stacks_apart:
  assumes "i \<noteq> j" "stack_usable_base area j \<le> p" "p < stack_usable_base area j + STACK_SIZE"
  shows "p < stack_usable_base area i \<or> stack_usable_base area i + STACK_SIZE \<le> p"
  using assms slot_unique [of area i 65536 p j] by (simp add: layout_defs) linarith

lemma spawn_ok:
  assumes fpu: "length fpu_default = 64" and area: "area mod 16 = 0" "area + STACK_AREA_SIZE < 2 ^ 64" and i: "i < PROCESS_COUNT" "i \<notin> ps"
    and K: "spawned_ok area fpu_default trampoline ps m s"
    and sp: "spawn area fpu_default trampoline i (m, s) = (m', s')"
  shows "spawned_ok area fpu_default trampoline (insert i ps) m' s'" "s' = enqueue i (s\<lparr>saved_rsp := saved_rsp s'\<rparr>)"
proof -
  obtain f where f: "spawn_frame area fpu_default trampoline i m = (m', f)" "s' = enqueue i (os_process_set_saved_rsp i f s)"
    using sp by (auto simp: spawn_def split: prod.splits)
  note ctx = spawn_frame_context [OF fpu area i(1) f(1)]
  have rsp: "saved_rsp s' = (saved_rsp s)(i := f)"
    unfolding f(2) by (simp add: enqueue_def Let_def os_process_set_saved_rsp_def split: option.splits)
  have keep: "m' p = m p" if "j \<in> ps" "stack_usable_base area j \<le> p" "p < stack_usable_base area j + STACK_SIZE" for j p
    using that stacks_apart [of i j area p] ctx(4) [of p] i(2) by auto
  have "timer_exit (saved_rsp s j) m' = timer_exit (saved_rsp s j) m" if "j \<in> ps" for j
    using K that by (intro timer_exit_cong keep [OF that]) (auto simp: spawned_ok_def layout_defs)
  moreover have "m' (stack_usable_base area j) = m (stack_usable_base area j)" if "j \<in> ps" for j
    by (rule keep [OF that]) (simp_all add: STACK_SIZE_def)
  ultimately show "spawned_ok area fpu_default trampoline (insert i ps) m' s'"
    using K ctx i(2) by (auto simp: spawned_ok_def rsp)
  show "s' = enqueue i (s\<lparr>saved_rsp := saved_rsp s'\<rparr>)" unfolding rsp unfolding f(2) by (simp add: os_process_set_saved_rsp_def)
qed

lemma start_ok:
  assumes fpu: "length fpu_default = 64" and area: "area mod 16 = 0" "area + STACK_AREA_SIZE < 2 ^ 64"
    and s0: "no_processes s0" and st: "process_scheduler_start area fpu_default trampoline (m0, s0) = (m, s)"
  shows "queue_ok s" "current_process s = None" "spawned_ok area fpu_default trampoline {..<4} m s"
proof -
  note spawn = spawn_ok [OF fpu area]
  let ?sp = "spawn area fpu_default trampoline"
  obtain m1 s1 where 1: "?sp 0 (m0, s0) = (m1, s1)" by fastforce
  obtain m2 s2 where 2: "?sp 1 (m1, s1) = (m2, s2)" by fastforce
  obtain m3 s3 where 3: "?sp 2 (m2, s2) = (m3, s3)" by fastforce
  have "[0..<PROCESS_COUNT] = [0, 1, 2, 3]" by code_simp
  then have 4: "?sp 3 (m3, s3) = (m, s)" using st 1 2 3 by (simp add: process_scheduler_start_def)
  have K0: "spawned_ok area fpu_default trampoline {} m0 s0" by (simp add: spawned_ok_def)
  note K1 = spawn [OF _ _ K0 1, simplified four, simplified]
  note K2 = spawn [OF _ _ K1(1) 2, simplified four, simplified]
  note K3 = spawn [OF _ _ K2(1) 3, simplified four, simplified]
  note K4 = spawn [OF _ _ K3(1) 4, simplified four, simplified]
  have "{..<4} = {3, 2, Suc 0, 0}" by auto
  then show "spawned_ok area fpu_default trampoline {..<4} m s" using K4(1) by simp
  note q = enqueue_fields no_processes_def fun_upd_def
  have "run_queue s1 = Some 0 \<and> cells s1 = 1 \<and> current_process s1 = None \<and> cell_car s1 0 = 0 \<and> cell_cdr s1 0 = 0"
    by (subst (1 2 3 4 5) K1(2)) (use s0 in \<open>simp add: q\<close>)
  then have "run_queue s2 = Some 0 \<and> cells s2 = 2 \<and> current_process s2 = None \<and> cell_car s2 0 = 0 \<and> cell_car s2 1 = 1 \<and>
      cell_cdr s2 0 = 1 \<and> cell_cdr s2 1 = 0"
    by (subst (1 2 3 4 5 6 7) K2(2)) (simp add: q)
  then have "run_queue s3 = Some 0 \<and> cells s3 = 3 \<and> current_process s3 = None \<and> cell_car s3 0 = 0 \<and> cell_car s3 1 = 1 \<and>
      cell_car s3 2 = 2 \<and> cell_cdr s3 0 = 2 \<and> cell_cdr s3 1 = 0 \<and> cell_cdr s3 2 = 1"
    by (subst (1 2 3 4 5 6 7 8 9) K3(2)) (simp add: q)
  then have "run_queue s = Some 0 \<and> current_process s = None \<and> cell_car s 0 = 0 \<and> cell_car s 1 = 1 \<and>
      cell_car s 2 = 2 \<and> cell_car s 3 = 3 \<and> cell_cdr s 0 = 3 \<and> cell_cdr s 1 = 0 \<and> cell_cdr s 2 = 1 \<and> cell_cdr s 3 = 2"
    by (subst (1 2 3 4 5 6 7 8 9 10) K4(2)) (simp add: q)
  then show "queue_ok s" "current_process s = None"
    by (auto simp: queue_ok_def next_process_def four [unfolded PROCESS_COUNT_def VBUF_COUNT_def])
qed

definition os_ok :: "nat \<Rightarrow> memory \<times> cpu \<times> sched \<Rightarrow> (nat \<Rightarrow> cpu) \<Rightarrow> bool" where
  "os_ok area st ctx \<longleftrightarrow> (case st of (m, c, s) \<Rightarrow> queue_ok s \<and> current_process s \<noteq> None \<and> on_stack area (running s) c \<and>
     contexts_ok area m s ctx ({..<4} - {running s}))"

lemma running_lt: "queue_ok s \<Longrightarrow> current_process s = Some k \<Longrightarrow> k < 4 \<and> running s = k"
  by (simp add: queue_ok_def running_def)

lemma next_process_lt: "next_process k < 4" "next_process k \<noteq> k"
  unfolding next_process_def by (simp, presburger)

lemma boot_tick_ok:
  assumes "queue_ok s" "current_process s = None" "contexts_ok area m s ctx {..<4}" "off_stacks area c"
    and t: "asm_timer_handler area (m, c, s) = Inr (m', c', s')"
  shows "os_ok area (m', c', s') ctx" "running s' = 0" "c' = ctx 0"
proof -
  obtain f where e: "timer_entry c m = (m', f)" and sw: "c_timer_switch area m' f s = Inr (saved_rsp s' 0, s')"
    and c': "c' = timer_exit (saved_rsp s' 0) m'"
    and s': "s' = s\<lparr>g_tick_counter := g_tick_counter s + 1, current_process := Some 0\<rparr>"
  proof -
    obtain m1 f where e: "timer_entry c m = (m1, f)" by fastforce
    obtain r where sw: "c_timer_switch area m1 f s = Inr (r, s')" and r: "m' = m1" "c' = timer_exit r m1"
      using t by (auto simp: asm_timer_handler_def e split: sum.splits)
    have "(r, s') = (saved_rsp s 0, s\<lparr>g_tick_counter := g_tick_counter s + 1, current_process := Some 0\<rparr>)"
      using stack_check_Inr [OF sw] assms(1,2) by (simp add: queue_ok_def)
    then show ?thesis using that [of f] e sw r by simp
  qed
  have c: "cpu_wf c" "704 \<le> iret_rsp c" using assms(4) by (auto simp: off_stacks_def)
  note out = timer_entry_outside [OF c e]
  have same: "same_stacks area {..<4} m m'" unfolding same_stacks_def
  proof (intro ballI allI impI)
    fix i p
    assume "i \<in> {..<4 :: nat}" "stack_usable_base area i \<le> p" "p < stack_usable_base area i + STACK_SIZE"
    then have "area \<le> p" "p < area + STACK_AREA_SIZE" by (auto simp: layout_defs)
    moreover have "f + 160 \<le> area \<or> area + STACK_AREA_SIZE \<le> f - 528" using assms(4) unfolding out(1) off_stacks_def by linarith
    ultimately show "m' p = m p" by (intro out(2)) linarith
  qed
  have can: "\<forall>i < 4. m' (stack_usable_base area i) = STACK_CANARY"
    using assms(3) same by (auto simp: contexts_ok_def same_stacks_def layout_defs)
  have ok: "contexts_ok area m' s' ctx {..<4}" by (rule contexts_ok_same [OF assms(3) same_stacks_frames [OF assms(3) same] can]) (simp add: s')
  have q: "queue_ok s'" using assms(1) by (simp add: s' queue_ok_def)
  show r: "running s' = 0" using q by (simp add: running_def s' queue_ok_def)
  show c'': "c' = ctx 0" using ok c' by (simp add: contexts_ok_def)
  show "os_ok area (m', c', s') ctx" using ok q r c'' by (auto simp: os_ok_def contexts_ok_def s')
qed

lemma entry_ok:
  assumes on: "on_stack area k c" and ctx: "contexts_ok area m s ctx ({..<4} - {k})" and e: "timer_entry c m = (m', f)"
  shows "f = iret_rsp c div 16 * 16 - 160" "stack_usable_base area k + 8 \<le> f - 528" "f + 160 \<le> stack_usable_base area k + STACK_SIZE"
    "528 \<le> f" "same_stacks area ({..<4} - {k}) m m'" "\<forall>i < 4. m' (stack_usable_base area i) = STACK_CANARY"
    "timer_exit f m' = c"
proof -
  have c: "cpu_wf c" "704 \<le> iret_rsp c" using on by (auto simp: on_stack_def)
  note out = timer_entry_outside [OF c e]
  show "f = iret_rsp c div 16 * 16 - 160" by (rule out(1))
  show b: "stack_usable_base area k + 8 \<le> f - 528" "f + 160 \<le> stack_usable_base area k + STACK_SIZE" "528 \<le> f"
    using on unfolding out(1) on_stack_def by auto
  show same: "same_stacks area ({..<4} - {k}) m m'" unfolding same_stacks_def
  proof (intro ballI allI impI)
    fix i p
    assume "i \<in> {..<4} - {k}" "stack_usable_base area i \<le> p" "p < stack_usable_base area i + STACK_SIZE"
    then show "m' p = m p" using stacks_apart [of k i area p] b by (intro out(2)) auto
  qed
  show "\<forall>i < 4. m' (stack_usable_base area i) = STACK_CANARY"
  proof (intro allI impI)
    fix i :: nat
    assume i: "i < 4"
    have "m' (stack_usable_base area i) = m (stack_usable_base area i)"
    proof (cases "i = k")
      case True
      then show ?thesis using b by (intro out(2)) simp
    next
      case False
      then show ?thesis using same i by (auto simp: same_stacks_def STACK_SIZE_def)
    qed
    then show "m' (stack_usable_base area i) = STACK_CANARY" using ctx i by (simp add: contexts_ok_def)
  qed
  show "timer_exit f m' = c" using timer_entry_exit [OF c, of m] e by simp
qed

lemma tick_ok:
  assumes ok: "os_ok area (m, c, s) ctx" and t: "asm_timer_handler area (m, c, s) = Inr (m', c', s')"
  shows "os_ok area (m', c', s') (ctx(running s := c))" "running s' = next_process (running s)" "c' = ctx (next_process (running s))"
proof -
  obtain k where k: "current_process s = Some k" and q: "queue_ok s" and on: "on_stack area (running s) c"
    and ctx: "contexts_ok area m s ctx ({..<4} - {running s})" using ok by (auto simp: os_ok_def)
  note run = running_lt [OF q k]
  note nxt = next_process_lt [of k]
  obtain f where e: "timer_entry c m = (m', f)" and c': "c' = timer_exit (saved_rsp s' (next_process k)) m'"
    and s': "s' = s\<lparr>g_tick_counter := g_tick_counter s + 1, saved_rsp := (saved_rsp s)(k := f), current_process := Some (next_process k)\<rparr>"
  proof -
    obtain m1 f where e: "timer_entry c m = (m1, f)" by fastforce
    obtain r where sw: "c_timer_switch area m1 f s = Inr (r, s')" and r: "m' = m1" "c' = timer_exit r m1"
      using t by (auto simp: asm_timer_handler_def e split: sum.splits)
    have "(r, s') = (((saved_rsp s)(k := f)) (next_process k),
        s\<lparr>g_tick_counter := g_tick_counter s + 1, saved_rsp := (saved_rsp s)(k := f), current_process := Some (next_process k)\<rparr>)"
      using stack_check_Inr [OF sw] q k run nxt by (simp add: queue_ok_def os_process_set_saved_rsp_def)
    then show ?thesis using that [of f] e r by simp
  qed
  note E = entry_ok [OF on ctx e]
  have K: "contexts_ok area m' s ctx ({..<4} - {k})"
    using contexts_ok_same [OF ctx same_stacks_frames [OF ctx E(5)] E(6) refl] run by simp
  have all: "contexts_ok area m' s' (ctx(k := c)) {..<4}"
    using K E(2-4,7) on run by (auto simp: contexts_ok_def s')
  have q': "queue_ok s'" using q nxt by (simp add: s' queue_ok_def)
  show r: "running s' = next_process (running s)" using running_lt [OF q', of "next_process k"] run by (simp add: s')
  show c'': "c' = ctx (next_process (running s))" using all c' nxt run by (simp add: contexts_ok_def)
  have "on_stack area (next_process k) (ctx (next_process k))" using ctx nxt run by (simp add: contexts_ok_def)
  then show "os_ok area (m', c', s') (ctx(running s := c))"
    using all q' r c'' nxt run by (auto simp: os_ok_def contexts_ok_def s')
qed

lemma spawned_contexts:
  assumes "spawned_ok area fpu_default trampoline {..<4} m s"
    and on: "\<And>i. i < 4 \<Longrightarrow> on_stack area i (spawned area fpu_default trampoline i)"
  shows "contexts_ok area m s (spawned area fpu_default trampoline) {..<4}"
proof -
  have k: "m (stack_usable_base area i) = STACK_CANARY" "saved_rsp s i = stack_usable_base area i + STACK_SIZE - 168"
    "timer_exit (saved_rsp s i) m = spawned area fpu_default trampoline i" if "i < 4" for i
    using assms(1) that unfolding spawned_ok_def by blast+
  have "stack_usable_base area i + 536 \<le> saved_rsp s i \<and> saved_rsp s i + 160 \<le> stack_usable_base area i + STACK_SIZE" if "i < 4" for i
    using k(2) [OF that] by (simp add: STACK_SIZE_def)
  then show ?thesis using on k(1,3) unfolding contexts_ok_def by blast
qed

lemma spawned_on_stack:
  assumes "length fpu_default = 64" "area mod 16 = 0" "area + STACK_AREA_SIZE < 2 ^ 64" "i < 4"
  shows "on_stack area i (spawned area fpu_default trampoline i)"
  using assms spawn_stack_top_bounds(1) [OF assms(2), of i] by (auto simp: on_stack_def cpu_wf_def spawned_def layout_defs)

lemma run_os_ok:
  assumes run: "os_run area fpu_default trampoline st ctx" and fpu: "length fpu_default = 64"
    and area: "area mod 16 = 0" "area + STACK_AREA_SIZE < 2 ^ 64"
  shows "os_ok area st ctx"
  using run
proof induction
  case (run_boot s0 m0 m s c st)
  obtain m' c' s' where st: "st = (m', c', s')" by (metis prod_cases3)
  note S = start_ok [OF fpu area run_boot(1,2)]
  have "contexts_ok area m s (spawned area fpu_default trampoline) {..<4}"
    by (rule spawned_contexts [OF S(3) spawned_on_stack [OF fpu area]])
  from boot_tick_ok(1) [OF S(1,2) this run_boot(3) run_boot(4) [unfolded st]] show ?case unfolding st .
next
  case (run_compute m c s ctx c' m')
  have ok: "contexts_ok area m s ctx ({..<4} - {running s})" using run_compute.IH by (simp add: os_ok_def)
  have same: "same_frames s ({..<4} - {running s}) m m'" using run_compute.hyps(3) by (simp add: PROCESS_COUNT_def VBUF_COUNT_def)
  have "m' (stack_usable_base area i) = STACK_CANARY" if "i < 4" for i
    using that run_compute.hyps(4) by (simp add: guards_kept_def PROCESS_COUNT_def VBUF_COUNT_def)
  then show ?case using contexts_ok_same [OF ok same _ refl] run_compute.IH run_compute.hyps(2) by (simp add: os_ok_def)
next
  case (run_tick m c s ctx st)
  obtain m' c' s' where st: "st = (m', c', s')" by (metis prod_cases3)
  show ?case using tick_ok(1) [OF run_tick.IH run_tick.hyps(2) [unfolded st]] unfolding st .
qed

lemma tick_decides:
  assumes ok: "os_ok area (m, c, s) ctx"
  defines "low \<equiv> stack_usable_base area (running s)" and "f \<equiv> iret_rsp c div 16 * 16 - 160"
  shows "if low + STACK_GUARD_MARGIN \<le> f then \<exists>st. asm_timer_handler area (m, c, s) = Inr st
    else asm_timer_handler area (m, c, s) = Inl (low, low + STACK_SIZE - f)"
proof -
  obtain k where k: "current_process s = Some k" "queue_ok s" and on: "on_stack area (running s) c"
    and ctx: "contexts_ok area m s ctx ({..<4} - {running s})" using ok by (auto simp: os_ok_def)
  have r: "running s < PROCESS_COUNT" using running_lt [OF k(2,1)] by (simp add: PROCESS_COUNT_def VBUF_COUNT_def)
  obtain m' f' where e: "timer_entry c m = (m', f')" by fastforce
  note E = entry_ok [OF on ctx e]
  have f': "f' = f" using E(1) by (simp add: f_def)
  have "stack_of area f = Some (running s)" using E(2,3) r unfolding f' by (intro stack_of_Some) simp_all
  moreover have "List.find (\<lambda>i. m' (stack_usable_base area i) \<noteq> STACK_CANARY) [0..<PROCESS_COUNT] = None"
    using E(6) by (simp add: find_upt_None PROCESS_COUNT_def VBUF_COUNT_def)
  ultimately have "os_process_stack_check area m' f = (low + STACK_GUARD_MARGIN \<le> f, low, low + STACK_SIZE - f)"
    by (simp add: os_process_stack_check_def low_def Let_def)
  then show ?thesis by (auto simp: asm_timer_handler_def e f' c_timer_switch_def Let_def split: prod.splits)
qed

subsection \<open>Properties of the scheduler\<close>

text \<open>States reached from a state with \<open>n\<close> timer interrupts on the way.\<close>

inductive ticks :: "nat \<Rightarrow> memory \<times> cpu \<times> sched \<Rightarrow> nat \<Rightarrow> memory \<times> cpu \<times> sched \<Rightarrow> bool" for area st where
  ticks_none: "ticks area st 0 st"
| ticks_compute: "ticks area st n (m, c, s) \<Longrightarrow> on_stack area (running s) c' \<Longrightarrow>
    same_frames s ({..<PROCESS_COUNT} - {running s}) m m' \<Longrightarrow> guards_kept area m' \<Longrightarrow>
    ticks area st n (m', c', s)"
| ticks_tick: "ticks area st n (m, c, s) \<Longrightarrow> asm_timer_handler area (m, c, s) = Inr st' \<Longrightarrow> ticks area st (Suc n) st'"

inductive_cases ticksE: "ticks area st n st'"

lemma ticks_run:
  assumes "ticks area st n st'" "os_run area fpu_default trampoline st ctx" "length fpu_default = 64" "area mod 16 = 0"
    "area + STACK_AREA_SIZE < 2 ^ 64"
  shows "(\<exists>ctx'. os_run area fpu_default trampoline st' ctx') \<and> running (snd (snd st')) = (next_process ^^ n) (running (snd (snd st)))"
  using assms(1)
proof induction
  case ticks_none
  show ?case using assms(2) by auto
next
  case (ticks_compute n m c s c' m')
  then show ?case using run_compute by fastforce
next
  case (ticks_tick n m c s st')
  obtain m' c' s' where st': "st' = (m', c', s')" by (metis prod_cases3)
  obtain ctx' where ctx': "os_run area fpu_default trampoline (m, c, s) ctx'" using ticks_tick.IH by blast
  have "running s' = next_process (running s)"
    using tick_ok(2) [OF run_os_ok [OF ctx' assms(3-5)] ticks_tick.hyps(2) [unfolded st']] .
  then show ?case using run_tick [OF ctx' ticks_tick.hyps(2)] ticks_tick.IH by (auto simp: st')
qed

lemma next_process_iter: "p < 4 \<Longrightarrow> (next_process ^^ n) p = (p + 3 * n) mod 4"
  by (induction n) (simp_all add: next_process_def mod_simps algebra_simps)

lemma running_bound: "os_ok area (m, c, s) ctx \<Longrightarrow> running s < 4"
  using running_lt by (auto simp: os_ok_def)

lemma boots:
  assumes fpu: "length fpu_default = 64" and area: "area mod 16 = 0" "area + STACK_AREA_SIZE < 2 ^ 64" "1024 \<le> area"
  shows "\<exists>m s. os_run area fpu_default trampoline (m, spawned area fpu_default trampoline 0, s) (spawned area fpu_default trampoline) \<and>
    running s = 0"
proof -
  define s0 where "s0 = \<lparr>cell_car = \<lambda>_. 0, cell_cdr = \<lambda>_. 0, cells = 0, run_queue = None, current_process = None,
    saved_rsp = \<lambda>_. 0, g_tick_counter = 0\<rparr>"
  define c where "c = \<lparr>gprs = replicate 15 0, fpu_image = replicate 64 0, iret_rip = 0, iret_cs = 8, iret_rflags = 0x202,
    iret_rsp = 1024, iret_ss = 0x10\<rparr>"
  have s0: "no_processes s0" by (simp add: no_processes_def s0_def)
  obtain m s where st: "process_scheduler_start area fpu_default trampoline (\<lambda>_. 0, s0) = (m, s)" by fastforce
  note S = start_ok [OF fpu area(1,2) s0 st]
  have c: "off_stacks area c" using area(3) by (simp add: off_stacks_def cpu_wf_def c_def)
  obtain m' f where e: "timer_entry c m = (m', f)" by fastforce
  have out: "f = 864" "p < 336 \<or> 1024 \<le> p \<Longrightarrow> m' p = m p" for p
    using timer_entry_outside [OF _ _ e] c by (auto simp: off_stacks_def c_def)
  have "m' (stack_usable_base area i) = STACK_CANARY" if "i < 4" for i
    using out(2) [of "stack_usable_base area i"] S(3) area(3) that by (auto simp: spawned_ok_def layout_defs)
  then have "List.find (\<lambda>i. m' (stack_usable_base area i) \<noteq> STACK_CANARY) [0..<PROCESS_COUNT] = None"
    by (simp add: find_upt_None PROCESS_COUNT_def VBUF_COUNT_def)
  moreover have "stack_of area f = None" unfolding stack_of_def find_upt_None using area(3) out(1) by (auto simp: layout_defs)
  ultimately have "os_process_stack_check area m' f = (True, 0, 0)" by (simp add: os_process_stack_check_def)
  then obtain m1 c1 s1 where t: "asm_timer_handler area (m, c, s) = Inr (m1, c1, s1)"
    using S(2) by (auto simp: asm_timer_handler_def e c_timer_switch_def Let_def split: prod.splits)
  from run_boot [OF s0 st c t] have run: "os_run area fpu_default trampoline (m1, c1, s1) (spawned area fpu_default trampoline)" .
  show ?thesis using boot_tick_ok(2,3) [OF S(1,2) spawned_contexts [OF S(3) spawned_on_stack [OF fpu area(1,2)]] c t] run by auto
qed

text \<open>
  C4. Switching is transparent: at a timer interrupt the process whose turn it is continues
  with exactly the registers it had when it was last interrupted, or with the ones \<open>spawn\<close>
  prepared, whatever the other processes have computed since, collections that rewrite the
  protected variables on its stack included.
\<close>

theorem contexts_survive:
  assumes "os_run area fpu_default trampoline (m, c, s) ctx" "asm_timer_handler area (m, c, s) = Inr (m', c', s')"
    "length fpu_default = 64" "area mod 16 = 0" "area + STACK_AREA_SIZE < 2 ^ 64"
  shows "running s' = next_process (running s) \<and> c' = ctx (running s') \<and> running s' \<noteq> running s"
  using tick_ok(2,3) [OF run_os_ok [OF assms(1,3-5)] assms(2)] next_process_lt by simp

theorem contexts_survive_witness:
  "\<exists>m c s m' s' ctx. os_run 1048576 (replicate 64 0) 5 (m, c, s) ctx \<and>
     asm_timer_handler 1048576 (m, c, s) = Inr (m', spawned 1048576 (replicate 64 0) 5 3, s')"
proof -
  have h: "length (replicate 64 (0 :: u64)) = 64" "(1048576 :: nat) mod 16 = 0" "1048576 + STACK_AREA_SIZE < 2 ^ 64" "1024 \<le> (1048576 :: nat)"
    by (simp_all add: layout_defs)
  obtain m s where run: "os_run 1048576 (replicate 64 0) 5 (m, spawned 1048576 (replicate 64 0) 5 0, s) (spawned 1048576 (replicate 64 0) 5)"
    and r: "running s = 0" using boots [OF h] by blast
  have "STACK_GUARD_MARGIN + stack_usable_base 1048576 0 \<le> iret_rsp (spawned 1048576 (replicate 64 0) 5 0) div 16 * 16 - 160"
    by (simp add: spawned_def spawn_stack_top_def layout_defs STACK_GUARD_MARGIN_def)
  then obtain m' c' s' where t: "asm_timer_handler 1048576 (m, spawned 1048576 (replicate 64 0) 5 0, s) = Inr (m', c', s')"
    using tick_decides [OF run_os_ok [OF run h(1-3)]] r by (auto simp: add.commute)
  have "c' = spawned 1048576 (replicate 64 0) 5 3"
    using contexts_survive [OF run t h(1-3)] r by (simp add: next_process_def)
  then show ?thesis using run t by blast
qed

text \<open>
  C25. Round robin: the timer interrupt switches exactly when the frame it pushes lies above the
  4 KB margin of the stack of the interrupted process (otherwise it stops the machine), and for
  every process there is a number of interrupts, at least one and at most four, after which it
  runs, whatever was computed between them. A process that is interrupted gets its next turn
  at the fourth interrupt, and the other three the ones before.
\<close>

theorem every_process_runs:
  assumes "os_run area fpu_default trampoline (m, c, s) ctx" "length fpu_default = 64" "area mod 16 = 0"
    "area + STACK_AREA_SIZE < 2 ^ 64"
  shows "((\<exists>st. asm_timer_handler area (m, c, s) = Inr st) \<longleftrightarrow>
      stack_usable_base area (running s) + STACK_GUARD_MARGIN \<le> iret_rsp c div 16 * 16 - 160) \<and>
    (i < PROCESS_COUNT \<longrightarrow> (\<exists>n \<in> {1..4}. (\<forall>st. ticks area (m, c, s) n st \<longrightarrow> running (snd (snd st)) = i) \<and>
       (\<forall>k \<in> {1..<n}. \<forall>st. ticks area (m, c, s) k st \<longrightarrow> running (snd (snd st)) \<noteq> i)))"
proof (intro conjI impI)
  show "(\<exists>st. asm_timer_handler area (m, c, s) = Inr st) \<longleftrightarrow>
      stack_usable_base area (running s) + STACK_GUARD_MARGIN \<le> iret_rsp c div 16 * 16 - 160"
    using tick_decides [OF run_os_ok [OF assms]] by (auto split: if_splits)
next
  assume i: "i < PROCESS_COUNT"
  define n where "n = (if running s = i then 4 else (running s + 4 - i) mod 4)"
  have r: "running s < 4" by (rule running_bound [OF run_os_ok [OF assms]])
  have n: "n \<in> {1..4} \<and> (running s + 3 * n) mod 4 = i \<and> (\<forall>k \<in> {1..<n}. (running s + 3 * k) mod 4 \<noteq> i)"
  proof -
    have "running s = 0 \<or> running s = 1 \<or> running s = 2 \<or> running s = 3" using r by linarith
    then show ?thesis using i unfolding n_def four by (elim disjE) (auto simp: atLeastLessThan_nat_numeral)
  qed
  have "running (snd (snd st)) = (running s + 3 * k) mod 4" if "ticks area (m, c, s) k st" for k st
    using ticks_run [OF that assms] next_process_iter [OF r] by simp
  then show "\<exists>n \<in> {1..4}. (\<forall>st. ticks area (m, c, s) n st \<longrightarrow> running (snd (snd st)) = i) \<and>
      (\<forall>k \<in> {1..<n}. \<forall>st. ticks area (m, c, s) k st \<longrightarrow> running (snd (snd st)) \<noteq> i)"
    using n by (intro bexI [of _ n]) auto
qed

theorem every_process_runs_witness:
  "\<exists>m c s n. (\<exists>st. asm_timer_handler 1048576 (m, c, s) = Inr st) \<and> running s = 0 \<and> 1 \<le> n \<and> n \<le> 4 \<and>
     (\<lambda>st. running (snd (snd st))) ` {st. ticks 1048576 (m, c, s) n st} \<subseteq> {0}"
proof -
  have h: "length (replicate 64 (0 :: u64)) = 64" "(1048576 :: nat) mod 16 = 0" "1048576 + STACK_AREA_SIZE < 2 ^ 64" "1024 \<le> (1048576 :: nat)"
    by (simp_all add: layout_defs)
  obtain m s where run: "os_run 1048576 (replicate 64 0) 5 (m, spawned 1048576 (replicate 64 0) 5 0, s) (spawned 1048576 (replicate 64 0) 5)"
    and r: "running s = 0" using boots [OF h] by blast
  let ?c = "spawned 1048576 (replicate 64 0) 5 0"
  have "stack_usable_base 1048576 0 + STACK_GUARD_MARGIN \<le> iret_rsp ?c div 16 * 16 - 160"
    by (simp add: spawned_def spawn_stack_top_def layout_defs STACK_GUARD_MARGIN_def)
  then have sw: "\<exists>st. asm_timer_handler 1048576 (m, ?c, s) = Inr st"
    using every_process_runs [OF run h(1-3)] r by simp
  have "0 < PROCESS_COUNT" by (simp add: four)
  then obtain n where "n \<in> {1..4}" "\<forall>st. ticks 1048576 (m, ?c, s) n st \<longrightarrow> running (snd (snd st)) = 0"
    using every_process_runs [OF run h(1-3), of 0] by blast
  then show ?thesis using sw r by (intro exI [of _ m] exI [of _ ?c] exI [of _ s] exI [of _ n]) auto
qed

text \<open>
  A process whose stack pointer has come within the margin of 4 KB above the bottom of its
  stack is reported at the next timer interrupt, with its own stack and what it has used of it.
\<close>

theorem overflow_reported:
  assumes "os_run area fpu_default trampoline (m, c, s) ctx" "length fpu_default = 64" "area mod 16 = 0"
    "area + STACK_AREA_SIZE < 2 ^ 64" "iret_rsp c < stack_usable_base area (running s) + STACK_GUARD_MARGIN + 160"
  shows "\<exists>used. asm_timer_handler area (m, c, s) = Inl (os_process_stack_base area (running s), used) \<and>
    STACK_SIZE - STACK_GUARD_MARGIN < used \<and> used \<le> STACK_SIZE"
proof -
  note ok = run_os_ok [OF assms(1-4)]
  let ?f = "iret_rsp c div 16 * 16 - 160" and ?low = "stack_usable_base area (running s)"
  have on: "?low + 712 \<le> iret_rsp c" using ok by (simp add: os_ok_def on_stack_def)
  then have f: "?low \<le> ?f" "?f < ?low + STACK_GUARD_MARGIN" using assms(5) by linarith+
  have "asm_timer_handler area (m, c, s) = Inl (?low, ?low + STACK_SIZE - ?f)" using tick_decides [OF ok] f(2) by simp
  moreover have "os_process_stack_base area (running s) = ?low"
    using running_bound [OF ok] by (simp add: os_process_stack_base_def PROCESS_COUNT_def VBUF_COUNT_def)
  moreover have "STACK_SIZE - STACK_GUARD_MARGIN < ?low + STACK_SIZE - ?f \<and> ?low + STACK_SIZE - ?f \<le> STACK_SIZE"
    using f unfolding STACK_SIZE_def STACK_GUARD_MARGIN_def by (intro conjI; linarith)
  ultimately show ?thesis by auto
qed

end
