(* ===== verification/Keyboard.thy ===== *)
theory Keyboard
  imports Process
begin

unbundle bit_operations_syntax

text \<open>
  The keyboard interrupt of \<^verbatim>\<open>src/c/interrupt.c\<close>: the scan code tables, \<open>backspace\<close> and the
  whole of \<open>c_keyboard_handler\<close>, on the state of theories \<open>Process\<close> and \<open>Console\<close> and the
  shift flag. What the code does to the input line of each process is then compared with a
  specification of a line editor.
\<close>

subsection \<open>The tables\<close>

record keyboard = processes +
  key_shift_pressed :: bool

definition normal_keys :: "(u8 \<times> char) list" where
  "normal_keys =
     [(0x02, CHR ''1''), (0x03, CHR ''2''), (0x04, CHR ''3''), (0x05, CHR ''4''), (0x06, CHR ''5''),
      (0x07, CHR ''6''), (0x08, CHR ''7''), (0x09, CHR ''8''), (0x0A, CHR ''9''), (0x0B, CHR ''0''),
      (0x0C, CHR ''-''), (0x0D, CHR ''=''), (0x0E, CHR 0x08),
      (0x10, CHR ''q''), (0x11, CHR ''w''), (0x12, CHR ''e''), (0x13, CHR ''r''), (0x14, CHR ''t''),
      (0x15, CHR ''y''), (0x16, CHR ''u''), (0x17, CHR ''i''), (0x18, CHR ''o''), (0x19, CHR ''p''),
      (0x1A, CHR ''[''), (0x1B, CHR '']''), (0x1C, CHR 0x0A),
      (0x1E, CHR ''a''), (0x1F, CHR ''s''), (0x20, CHR ''d''), (0x21, CHR ''f''), (0x22, CHR ''g''),
      (0x23, CHR ''h''), (0x24, CHR ''j''), (0x25, CHR ''k''), (0x26, CHR ''l''),
      (0x27, CHR '';''), (0x28, CHR 0x27), (0x29, CHR 0x60),
      (0x2B, CHR 0x5C), (0x2C, CHR ''z''), (0x2D, CHR ''x''), (0x2E, CHR ''c''), (0x2F, CHR ''v''),
      (0x30, CHR ''b''), (0x31, CHR ''n''), (0x32, CHR ''m''), (0x33, CHR '',''), (0x34, CHR ''.''), (0x35, CHR ''/''),
      (0x39, CHR '' '')]"

definition shift_keys :: "(u8 \<times> char) list" where
  "shift_keys =
     [(0x02, CHR ''!''), (0x03, CHR ''@''), (0x04, CHR ''#''), (0x05, CHR ''$''), (0x06, CHR ''%''),
      (0x07, CHR ''^''), (0x08, CHR ''&''), (0x09, CHR ''*''), (0x0A, CHR ''(''), (0x0B, CHR '')''),
      (0x0C, CHR ''_''), (0x0D, CHR ''+''), (0x0E, CHR 0x08),
      (0x10, CHR ''Q''), (0x11, CHR ''W''), (0x12, CHR ''E''), (0x13, CHR ''R''), (0x14, CHR ''T''),
      (0x15, CHR ''Y''), (0x16, CHR ''U''), (0x17, CHR ''I''), (0x18, CHR ''O''), (0x19, CHR ''P''),
      (0x1A, CHR ''{''), (0x1B, CHR ''}''), (0x1C, CHR 0x0A),
      (0x1E, CHR ''A''), (0x1F, CHR ''S''), (0x20, CHR ''D''), (0x21, CHR ''F''), (0x22, CHR ''G''),
      (0x23, CHR ''H''), (0x24, CHR ''J''), (0x25, CHR ''K''), (0x26, CHR ''L''),
      (0x27, CHR '':''), (0x28, CHR 0x22), (0x29, CHR ''~''),
      (0x2B, CHR ''|''), (0x2C, CHR ''Z''), (0x2D, CHR ''X''), (0x2E, CHR ''C''), (0x2F, CHR ''V''),
      (0x30, CHR ''B''), (0x31, CHR ''N''), (0x32, CHR ''M''), (0x33, CHR ''<''), (0x34, CHR ''>''), (0x35, CHR ''?''),
      (0x39, CHR '' '')]"

text \<open>An entry the initialisers leave out is 0.\<close>

definition SCANCODE_NORMAL :: "u8 \<Rightarrow> char" where
  "SCANCODE_NORMAL scancode = (case map_of normal_keys scancode of None \<Rightarrow> CHR 0x00 | Some c \<Rightarrow> c)"

definition SCANCODE_SHIFT :: "u8 \<Rightarrow> char" where
  "SCANCODE_SHIFT scancode = (case map_of shift_keys scancode of None \<Rightarrow> CHR 0x00 | Some c \<Rightarrow> c)"

subsection \<open>The handler\<close>

definition backspace :: "console \<Rightarrow> console" where
  "backspace con =
     (let i = active_index con
      in if cursor_position_x (frame_buffers con ! i) \<le> 0 then con
         else (let con = draw_with erase_cursor i con;
                   con = update_fb i (\<lambda>fb. fb\<lparr>cursor_position_x := cursor_position_x fb - 1\<rparr>) con;
                   con = draw_with erase_cursor i con
               in draw_with draw_cursor i con))"

definition c_keyboard_handler :: "font \<Rightarrow> u8 \<Rightarrow> keyboard \<Rightarrow> keyboard" where
  "c_keyboard_handler font scancode s =
     (if scancode = 0x2A \<or> scancode = 0x36 then s\<lparr>key_shift_pressed := True\<rparr>
      else if scancode = 0xAA \<or> scancode = 0xB6 then s\<lparr>key_shift_pressed := False\<rparr>
      else if scancode AND 0x80 \<noteq> 0 then s
      else if 0x3B \<le> scancode \<and> scancode \<le> 0x3E then switch_active_process font (unat (scancode - 0x3B)) s
      else if key_shift_pressed s \<and> (scancode = 0x49 \<or> scancode = 0x51)
      then (let page = int (os_vbuf_screen_rows (screen s))
            in s\<lparr>screen := os_vbuf_scroll font (if scancode = 0x49 then - page else page) (screen s)\<rparr>)
      else (let c = (if key_shift_pressed s then SCANCODE_SHIFT scancode else SCANCODE_NORMAL scancode)
            in if c = CHR 0x00 then s
               else (let s = s\<lparr>screen := os_vbuf_scroll_to_bottom font (screen s)\<rparr>;
                         i = g_current_process_index s; current = g_processes s ! i
                     in if ready current then s
                        else if c = CHR 0x08
                        then (if 0 < stdin_len current
                              then update_process i (\<lambda>p. p\<lparr>stdin_len := stdin_len p - 1\<rparr>) (s\<lparr>screen := backspace (screen s)\<rparr>)
                              else s)
                        else update_process i (process_stdin_push c)
                               (s\<lparr>screen := write_char font (stdout_buffer current) (char_byte c) (screen s)\<rparr>))))"

text \<open>\<open>c_keyboard_isr\<close> for each scan code the controller delivers.\<close>

definition c_keyboard_isr :: "font \<Rightarrow> u8 list \<Rightarrow> keyboard \<Rightarrow> keyboard" where
  "c_keyboard_isr font scancodes s = fold (c_keyboard_handler font) scancodes s"

subsection \<open>A line editor\<close>

text \<open>
  What the handler is meant to do to the input: an editor with a line for every process, of at
  most 255 characters, that accepts nothing more once it has been entered.
\<close>

record line =
  line_text :: string
  entered :: bool

record editor =
  line_of :: "nat \<Rightarrow> line"
  current_line :: nat
  shifted :: bool

definition edit_line :: "char \<Rightarrow> line \<Rightarrow> line" where
  "edit_line c l =
     (if entered l then l
      else if c = CHR 0x08 then l\<lparr>line_text := butlast (line_text l)\<rparr>
      else \<lparr>line_text = take 255 (line_text l @ [c]), entered = (c = CHR 0x0A)\<rparr>)"

definition editor_step :: "u8 \<Rightarrow> editor \<Rightarrow> editor" where
  "editor_step scancode e =
     (if scancode = 0x2A \<or> scancode = 0x36 then e\<lparr>shifted := True\<rparr>
      else if scancode = 0xAA \<or> scancode = 0xB6 then e\<lparr>shifted := False\<rparr>
      else if 0x80 \<le> scancode then e
      else if scancode \<in> {0x3B, 0x3C, 0x3D, 0x3E} then e\<lparr>current_line := unat scancode - 0x3B\<rparr>
      else (case map_of (if shifted e then shift_keys else normal_keys) scancode of
              None \<Rightarrow> e
            | Some c \<Rightarrow> e\<lparr>line_of := (line_of e)(current_line e := edit_line c (line_of e (current_line e)))\<rparr>))"

definition input_of :: "process \<Rightarrow> string" where "input_of p = take (stdin_len p) (stdin_buf p)"

definition abs_editor :: "keyboard \<Rightarrow> editor" where
  "abs_editor s =
     \<lparr>line_of = (\<lambda>i. if i < PROCESS_COUNT then \<lparr>line_text = input_of (g_processes s ! i), entered = ready (g_processes s ! i)\<rparr>
                     else \<lparr>line_text = [], entered = False\<rparr>),
      current_line = g_current_process_index s, shifted = key_shift_pressed s\<rparr>"

definition process_ok :: "process \<Rightarrow> bool" where
  "process_ok p \<longleftrightarrow> length (stdin_buf p) = PROCESS_STDIN_BUF_SIZE \<and> stdin_len p < PROCESS_STDIN_BUF_SIZE"

definition keyboard_ok :: "keyboard \<Rightarrow> bool" where
  "keyboard_ok s \<longleftrightarrow> length (g_processes s) = PROCESS_COUNT \<and> g_current_process_index s < PROCESS_COUNT \<and>
     list_all process_ok (g_processes s)"

lemma push_input:
  assumes "process_ok p"
  shows "process_ok (process_stdin_push c p)" "input_of (process_stdin_push c p) = take 255 (input_of p @ [c])"
    "ready (process_stdin_push c p) = (ready p \<or> c = CHR 0x0A)" "stdout_buffer (process_stdin_push c p) = stdout_buffer p"
proof -
  have l: "length (input_of p) = stdin_len p" using assms by (simp add: input_of_def process_ok_def)
  show "process_ok (process_stdin_push c p)" using assms
    by (auto simp: process_ok_def process_stdin_push_def Let_def PROCESS_STDIN_BUF_SIZE_def)
  show "input_of (process_stdin_push c p) = take 255 (input_of p @ [c])"
  proof (cases "stdin_len p < 255")
    case True
    then show ?thesis using assms l
      by (simp add: process_stdin_push_def process_ok_def PROCESS_STDIN_BUF_SIZE_def input_of_def take_Suc_conv_app_nth min_def Let_def)
  next
    case False
    then have "stdin_len p = 255" using assms by (simp add: process_ok_def PROCESS_STDIN_BUF_SIZE_def)
    then show ?thesis using l by (simp add: process_stdin_push_def PROCESS_STDIN_BUF_SIZE_def input_of_def)
  qed
qed (auto simp: process_stdin_push_def Let_def)

lemma key_tables_ascii: "map_of normal_keys k = Some c \<or> map_of shift_keys k = Some c \<Longrightarrow> c \<noteq> CHR 0x00"
  by (auto simp: normal_keys_def shift_keys_def split: if_splits)

lemma break_code: "(x :: u8) AND 0x80 \<noteq> 0 \<longleftrightarrow> 0x80 \<le> x"
proof -
  have "bit x 7 \<longleftrightarrow> odd (unat x div 128)" using bit_unsigned_iff [of x 7, where 'a = nat] by (simp add: bit_iff_odd)
  moreover have "unat x < 256" using unsigned_less [of x, where 'a = nat] by simp
  then have "unat x div 128 = (if unat x < 128 then 0 else 1)" by (auto intro: div_nat_eqI)
  ultimately have "bit x 7 \<longleftrightarrow> 128 \<le> unat x" by simp
  moreover have "x AND 0x80 \<noteq> 0 \<longleftrightarrow> bit x 7"
    using and_exp_eq_0_iff_not_bit [of x 7] by simp
  ultimately show ?thesis by (simp add: word_le_nat_alt)
qed

lemma function_key:
  "0x3B \<le> (x :: u8) \<and> x \<le> 0x3E \<longleftrightarrow> x \<in> {0x3B, 0x3C, 0x3D, 0x3E}"
  "x \<in> {0x3B, 0x3C, 0x3D, 0x3E} \<Longrightarrow> unat (x - 0x3B) = unat x - 0x3B \<and> unat x - 0x3B < PROCESS_COUNT"
proof -
  have "0x3B \<le> unat x \<and> unat x \<le> 0x3E \<longleftrightarrow> unat x = 0x3B \<or> unat x = 0x3C \<or> unat x = 0x3D \<or> unat x = 0x3E" by auto
  then show "0x3B \<le> x \<and> x \<le> 0x3E \<longleftrightarrow> x \<in> {0x3B, 0x3C, 0x3D, 0x3E}"
    by (simp add: word_le_nat_alt word_unat_eq_iff)
  show "x \<in> {0x3B, 0x3C, 0x3D, 0x3E} \<Longrightarrow> unat (x - 0x3B) = unat x - 0x3B \<and> unat x - 0x3B < PROCESS_COUNT"
    by (auto simp: PROCESS_COUNT_def VBUF_COUNT_def)
qed

lemma abs_update:
  assumes "i < length (g_processes s)" "i < PROCESS_COUNT"
  shows "abs_editor (update_process i f s) = (abs_editor s)\<lparr>line_of := (line_of (abs_editor s))
    (i := \<lparr>line_text = input_of (f (g_processes s ! i)), entered = ready (f (g_processes s ! i))\<rparr>)\<rparr>"
  using assms by (auto simp: abs_editor_def update_process_def fun_eq_iff)

lemma abs_screen [simp]: "abs_editor (s\<lparr>screen := con\<rparr>) = abs_editor s" by (simp add: abs_editor_def cong: if_cong)

lemma keyboard_ok_screen [simp]: "keyboard_ok (s\<lparr>screen := con\<rparr>) = keyboard_ok s" by (simp add: keyboard_ok_def)

lemma update_process_screen [simp]: "update_process i f (s\<lparr>screen := con\<rparr>) = (update_process i f s)\<lparr>screen := con\<rparr>"
  by (simp add: update_process_def)

lemma keyboard_ok_update:
  assumes "keyboard_ok s" "process_ok (f (g_processes s ! i))"
  shows "keyboard_ok (update_process i f s)"
proof -
  have "process_ok ((g_processes s)[i := f (g_processes s ! i)] ! n)" if "n < length (g_processes s)" for n
    using assms that by (cases "n = i") (auto simp: keyboard_ok_def list_all_length)
  then show ?thesis using assms by (simp add: keyboard_ok_def update_process_def list_all_length)
qed

lemma keyboard_okD:
  assumes "keyboard_ok s"
  shows "g_current_process_index s < length (g_processes s)" "i < PROCESS_COUNT \<Longrightarrow> process_ok (g_processes s ! i)"
  using assms by (auto simp: keyboard_ok_def list_all_length)

lemma switch_abs:
  assumes ok: "keyboard_ok s" and i: "i < PROCESS_COUNT"
  shows "abs_editor (switch_active_process font i s) = (abs_editor s)\<lparr>current_line := i\<rparr>"
    "keyboard_ok (switch_active_process font i s)"
proof -
  have st: "process_ok (p\<lparr>proc_state := st\<rparr>) = process_ok p" "input_of (p\<lparr>proc_state := st\<rparr>) = input_of p" for p st
    by (simp_all add: process_ok_def input_of_def)
  have e: "(abs_editor s)\<lparr>current_line := i\<rparr> = abs_editor (s\<lparr>g_current_process_index := i\<rparr>)"
    by (simp add: abs_editor_def cong: if_cong)
  show "abs_editor (switch_active_process font i s) = (abs_editor s)\<lparr>current_line := i\<rparr>"
    unfolding e using ok i
    by (auto simp: switch_active_process_def Let_def abs_editor_def update_process_def st keyboard_ok_def fun_eq_iff nth_list_update)
  show "keyboard_ok (switch_active_process font i s)"
    using ok i by (auto simp: switch_active_process_def Let_def update_process_def keyboard_ok_def st list_all_length nth_list_update)
qed

lemma handler_edits:
  assumes ok: "keyboard_ok s"
  shows "abs_editor (c_keyboard_handler font k s) = editor_step k (abs_editor s) \<and> keyboard_ok (c_keyboard_handler font k s)"
proof -
  let ?i = "g_current_process_index s" and ?p = "g_processes s ! g_current_process_index s"
  define table where "table = (if key_shift_pressed s then shift_keys else normal_keys)"
  have p: "process_ok ?p" "?i < length (g_processes s)" "?i < PROCESS_COUNT" "length (g_processes s) = PROCESS_COUNT"
    using ok keyboard_okD [OF ok] by (auto simp: keyboard_ok_def)
  have l: "length (input_of ?p) = stdin_len ?p" using p by (simp add: input_of_def process_ok_def)
  have no: "map_of shift_keys 0x49 = None" "map_of shift_keys 0x51 = None" by (simp_all add: shift_keys_def)
  have c: "(if key_shift_pressed s then SCANCODE_SHIFT k else SCANCODE_NORMAL k) =
      (case map_of table k of None \<Rightarrow> CHR 0x00 | Some c \<Rightarrow> c)"
    by (simp add: SCANCODE_SHIFT_def SCANCODE_NORMAL_def table_def)
  have table: "(if shifted (abs_editor s) then shift_keys else normal_keys) = table" by (simp add: abs_editor_def table_def)
  have cur: "line_of (abs_editor s) ?i = \<lparr>line_text = input_of ?p, entered = ready ?p\<rparr>" "current_line (abs_editor s) = ?i"
    using p by (simp_all add: abs_editor_def)
  let ?typed = "\<lambda>ch s. if ready ?p then s
       else if ch = CHR 0x08
       then (if 0 < stdin_len ?p then update_process ?i (\<lambda>p. p\<lparr>stdin_len := stdin_len p - 1\<rparr>) s else s)
       else update_process ?i (process_stdin_push ch) s"
  have typed: "abs_editor (?typed ch s) =
      (abs_editor s)\<lparr>line_of := (line_of (abs_editor s))(?i := edit_line ch (line_of (abs_editor s) ?i))\<rparr> \<and> keyboard_ok (?typed ch s)" for ch
  proof -
    have del: "process_ok (?p\<lparr>stdin_len := stdin_len ?p - 1\<rparr>)" "ready (?p\<lparr>stdin_len := stdin_len ?p - 1\<rparr>) = ready ?p"
      "input_of (?p\<lparr>stdin_len := stdin_len ?p - 1\<rparr>) = butlast (input_of ?p)"
      using p by (auto simp: process_ok_def input_of_def butlast_take)
    have line: "(abs_editor s)\<lparr>line_of := (line_of (abs_editor s))(?i := line_of (abs_editor s) ?i)\<rparr> = abs_editor s" by simp
    consider "ready ?p" | "\<not> ready ?p" "ch = CHR 0x08" "stdin_len ?p = 0" | "\<not> ready ?p" "ch = CHR 0x08" "0 < stdin_len ?p"
      | "\<not> ready ?p" "ch \<noteq> CHR 0x08" by blast
    then show ?thesis
    proof cases
      case 1
      then have "edit_line ch (line_of (abs_editor s) ?i) = line_of (abs_editor s) ?i" by (simp add: edit_line_def cur)
      then show ?thesis using 1 ok line by simp
    next
      case 2
      then have "edit_line ch (line_of (abs_editor s) ?i) = line_of (abs_editor s) ?i" using l by (simp add: edit_line_def cur)
      then show ?thesis using 2 ok line by simp
    next
      case 3
      then have "edit_line ch (line_of (abs_editor s) ?i) = \<lparr>line_text = butlast (input_of ?p), entered = ready ?p\<rparr>"
        by (simp add: edit_line_def cur)
      then show ?thesis using 3 keyboard_ok_update [OF ok, of "\<lambda>p. p\<lparr>stdin_len := stdin_len p - 1\<rparr>"] del p(2,3)
        by (simp add: abs_update)
    next
      case 4
      then have "edit_line ch (line_of (abs_editor s) ?i) = \<lparr>line_text = take 255 (input_of ?p @ [ch]), entered = (ch = CHR 0x0A)\<rparr>"
        by (simp add: edit_line_def cur)
      then show ?thesis using 4 keyboard_ok_update [OF ok, of "process_stdin_push ch"] push_input [OF p(1)] p(2,3)
        by (simp add: abs_update)
    qed
  qed
  note not_break = break_code [of k]
  consider (down) "k = 0x2A \<or> k = 0x36" | (up) "k = 0xAA \<or> k = 0xB6" "\<not> (k = 0x2A \<or> k = 0x36)"
    | (break) "0x80 \<le> k" "k \<noteq> 0xAA" "k \<noteq> 0xB6" "k \<noteq> 0x2A" "k \<noteq> 0x36"
    | (press) "\<not> 0x80 \<le> k" "k \<noteq> 0xAA" "k \<noteq> 0xB6" "k \<noteq> 0x2A" "k \<noteq> 0x36" by blast
  then show ?thesis
  proof cases
    case down
    then show ?thesis using ok by (auto simp: c_keyboard_handler_def editor_step_def abs_editor_def keyboard_ok_def cong: if_cong)
  next
    case up
    then show ?thesis using ok by (auto simp: c_keyboard_handler_def editor_step_def abs_editor_def keyboard_ok_def cong: if_cong)
  next
    case break
    then show ?thesis using ok not_break by (simp add: c_keyboard_handler_def editor_step_def)
  next
    case press
    show ?thesis
    proof (cases "k \<in> {0x3B, 0x3C, 0x3D, 0x3E}")
      case True
      then have "0x3B \<le> k \<and> k \<le> 0x3E" by (simp only: function_key(1))
      then have "c_keyboard_handler font k s = switch_active_process font (unat k - 0x3B) s"
        using press not_break function_key(2) [OF True] by (simp add: c_keyboard_handler_def)
      moreover have "editor_step k (abs_editor s) = (abs_editor s)\<lparr>current_line := unat k - 0x3B\<rparr>"
        using press True by (auto simp: editor_step_def)
      ultimately show ?thesis using switch_abs [OF ok, of "unat k - 0x3B" font] function_key(2) [OF True] by simp
    next
      case False
      then have F: "\<not> (0x3B \<le> k \<and> k \<le> 0x3E)" unfolding function_key(1) .
      have e: "editor_step k (abs_editor s) = (case map_of table k of None \<Rightarrow> abs_editor s
          | Some ch \<Rightarrow> (abs_editor s)\<lparr>line_of := (line_of (abs_editor s))(?i := edit_line ch (line_of (abs_editor s) ?i))\<rparr>)"
        using press False unfolding editor_step_def table cur(2) by simp
      show ?thesis
      proof (cases "key_shift_pressed s \<and> (k = 0x49 \<or> k = 0x51)")
        case True
        then have "map_of table k = None" using no by (auto simp: table_def)
        moreover obtain con where "c_keyboard_handler font k s = s\<lparr>screen := con\<rparr>"
          using press not_break F True by (simp add: c_keyboard_handler_def Let_def)
        ultimately show ?thesis using ok by (simp add: e)
      next
        case plain: False
        show ?thesis
        proof (cases "map_of table k")
          case None
          have "c_keyboard_handler font k s = s"
            unfolding c_keyboard_handler_def c Let_def using None press not_break F plain by auto
          then show ?thesis using ok None by (simp add: e)
        next
          case (Some ch)
          then have ch: "ch \<noteq> CHR 0x00" using key_tables_ascii [of k ch] by (auto simp: table_def split: if_splits)
          have "\<exists>con. c_keyboard_handler font k s = (?typed ch s)\<lparr>screen := con\<rparr>"
            unfolding c_keyboard_handler_def c Let_def using press not_break F plain Some ch by auto
          then show ?thesis using typed [of ch] Some by (auto simp: e)
        qed
      qed
    qed
  qed
qed

subsection \<open>Typing a text\<close>

text \<open>The scan codes a typist produces for a character: the key, with shift down when needed.\<close>

definition key_of :: "(u8 \<times> char) list \<Rightarrow> char \<Rightarrow> u8 option" where
  "key_of table c = map_of (map prod.swap table) c"

definition keystrokes :: "char \<Rightarrow> u8 list" where
  "keystrokes c =
     (case key_of normal_keys c of Some k \<Rightarrow> [k]
      | None \<Rightarrow> (case key_of shift_keys c of Some k \<Rightarrow> [0x2A, k, 0xAA] | None \<Rightarrow> []))"

definition typable :: "char \<Rightarrow> bool" where
  "typable c \<longleftrightarrow> c \<noteq> CHR 0x08 \<and> c \<noteq> CHR 0x0A \<and> (key_of normal_keys c \<noteq> None \<or> key_of shift_keys c \<noteq> None)"

definition plain_key :: "u8 \<Rightarrow> bool" where
  "plain_key k \<longleftrightarrow> k < 0x80 \<and> k \<notin> {0x2A, 0x36, 0x3B, 0x3C, 0x3D, 0x3E, 0x49, 0x51}"

lemma key_tables_plain: "list_all plain_key (map fst normal_keys)" "list_all plain_key (map fst shift_keys)"
  by (simp_all add: normal_keys_def shift_keys_def plain_key_def)

lemma key_tables_distinct: "distinct (map fst normal_keys)" "distinct (map fst shift_keys)"
  by (simp_all add: normal_keys_def shift_keys_def)

lemma key_of_table:
  assumes "distinct (map fst table)" "list_all plain_key (map fst table)" "key_of table c = Some k"
  shows "plain_key k \<and> map_of table k = Some c"
proof -
  have "(k, c) \<in> set table" using assms(3) by (auto simp: key_of_def dest: map_of_SomeD)
  then show ?thesis using assms(1,2) by (force simp: list_all_iff intro: map_of_is_SomeI)
qed

lemmas key_of_key = key_of_table [OF key_tables_distinct(1) key_tables_plain(1)] key_of_table [OF key_tables_distinct(2) key_tables_plain(2)]

lemma plain_key_step:
  assumes "plain_key k" "map_of (if shifted e then shift_keys else normal_keys) k = Some c"
  shows "editor_step k e = e\<lparr>line_of := (line_of e)(current_line e := edit_line c (line_of e (current_line e)))\<rparr>"
proof -
  have "\<not> 0x80 \<le> k" "k \<noteq> 0xAA" "k \<noteq> 0xB6" using assms(1) by (auto simp: plain_key_def not_le)
  then show ?thesis using assms by (simp add: editor_step_def plain_key_def)
qed

lemma fold_keystrokes:
  assumes "typable c \<or> c = CHR 0x0A" "\<not> shifted e"
  shows "fold editor_step (keystrokes c) e = e\<lparr>line_of := (line_of e)(current_line e := edit_line c (line_of e (current_line e)))\<rparr>"
proof (cases "key_of normal_keys c")
  case (Some k)
  then show ?thesis using plain_key_step [of k e c] key_of_key(1) [OF Some] assms(2) by (simp add: keystrokes_def)
next
  case None
  have "key_of normal_keys (CHR 0x0A) \<noteq> None" by code_simp
  then obtain k where k: "key_of shift_keys c = Some k" using assms(1) None by (auto simp: typable_def)
  have down: "editor_step 0x2A e' = e'\<lparr>shifted := True\<rparr>" and up: "editor_step 0xAA e' = e'\<lparr>shifted := False\<rparr>" for e'
    by (simp_all add: editor_step_def)
  have "editor_step k (e\<lparr>shifted := True\<rparr>) = (e\<lparr>shifted := True\<rparr>)\<lparr>line_of := (line_of e)(current_line e := edit_line c (line_of e (current_line e)))\<rparr>"
    using plain_key_step [of k "e\<lparr>shifted := True\<rparr>" c] key_of_key(2) [OF k] by simp
  then show ?thesis using None k assms(2) by (simp add: keystrokes_def down up)
qed

lemma fold_typing:
  assumes "list_all typable str" "\<not> shifted e" "\<not> entered (line_of e (current_line e))"
    "length (line_text (line_of e (current_line e)) @ str) \<le> 255"
  shows "fold editor_step (concat (map keystrokes str)) e =
    e\<lparr>line_of := (line_of e)(current_line e := \<lparr>line_text = line_text (line_of e (current_line e)) @ str, entered = False\<rparr>)\<rparr>"
  using assms
proof (induction str arbitrary: e)
  case Nil
  have "\<lparr>line_text = line_text l, entered = False\<rparr> = l" if "\<not> entered l" for l using that by (cases l) simp
  then have eq: "(line_of e)(current_line e := \<lparr>line_text = line_text (line_of e (current_line e)), entered = False\<rparr>) = line_of e"
    using Nil.prems(3) by (intro fun_upd_idem) simp
  show ?case unfolding append_Nil2 eq by simp
next
  case (Cons c str)
  have c: "typable c" "c \<noteq> CHR 0x0A" "c \<noteq> CHR 0x08" using Cons.prems(1) by (auto simp: typable_def)
  let ?l = "line_of e (current_line e)"
  have "edit_line c ?l = \<lparr>line_text = line_text ?l @ [c], entered = False\<rparr>"
    using c Cons.prems(3,4) by (simp add: edit_line_def)
  then have "fold editor_step (keystrokes c) e = e\<lparr>line_of := (line_of e)(current_line e := \<lparr>line_text = line_text ?l @ [c], entered = False\<rparr>)\<rparr>"
    using fold_keystrokes [of c e] c(1) Cons.prems(2) by simp
  then show ?case
    using Cons.IH [of "e\<lparr>line_of := (line_of e)(current_line e := \<lparr>line_text = line_text ?l @ [c], entered = False\<rparr>)\<rparr>"] Cons.prems
    by (simp cong: if_cong)
qed

lemma isr_edits:
  assumes "keyboard_ok s"
  shows "abs_editor (c_keyboard_isr font ks s) = fold editor_step ks (abs_editor s) \<and> keyboard_ok (c_keyboard_isr font ks s)"
  unfolding c_keyboard_isr_def using assms by (induction ks arbitrary: s) (simp_all add: handler_edits)

lemma typed_line:
  fixes font :: font
  assumes ok: "keyboard_ok s" and sh: "\<not> key_shift_pressed s" and r: "\<not> ready (get_current_process s)"
    and t: "list_all typable str" and l: "length (input_of (get_current_process s) @ str) < 255"
  defines "s' \<equiv> c_keyboard_isr font (concat (map keystrokes (str @ [CHR 0x0A]))) s"
  shows "keyboard_ok s'" "g_current_process_index s' = g_current_process_index s" "\<not> key_shift_pressed s'"
    "ready (get_current_process s')" "input_of (get_current_process s') = input_of (get_current_process s) @ str @ [CHR 0x0A]"
    "i < PROCESS_COUNT \<Longrightarrow> i \<noteq> g_current_process_index s \<Longrightarrow> input_of (g_processes s' ! i) = input_of (g_processes s ! i)"
proof -
  let ?i = "g_current_process_index s" and ?e = "abs_editor s"
  have i: "?i < PROCESS_COUNT" using ok by (simp add: keyboard_ok_def)
  have e: "\<not> shifted ?e" "line_of ?e ?i = \<lparr>line_text = input_of (get_current_process s), entered = False\<rparr>" "current_line ?e = ?i"
    using sh r i by (simp_all add: abs_editor_def get_current_process_def)
  have "abs_editor s' = ?e\<lparr>line_of := (line_of ?e)(?i := \<lparr>line_text = input_of (get_current_process s) @ str @ [CHR 0x0A], entered = True\<rparr>)\<rparr>"
    using fold_typing [OF t e(1)] fold_keystrokes [of "CHR 0x0A"] e l unfolding s'_def isr_edits [OF ok, THEN conjunct1]
    by (simp add: edit_line_def)
  note a = arg_cong [OF this, of current_line] arg_cong [OF this, of shifted] fun_cong [OF arg_cong [OF this, of line_of]]
  show "keyboard_ok s'" unfolding s'_def using isr_edits [OF ok] by blast
  show j: "g_current_process_index s' = ?i" "\<not> key_shift_pressed s'" using a(1,2) sh by (simp_all add: abs_editor_def)
  show "ready (get_current_process s')" "input_of (get_current_process s') = input_of (get_current_process s) @ str @ [CHR 0x0A]"
    using a(3) [of ?i] i j(1) by (simp_all add: abs_editor_def get_current_process_def)
  show "i < PROCESS_COUNT \<Longrightarrow> i \<noteq> ?i \<Longrightarrow> input_of (g_processes s' ! i) = input_of (g_processes s ! i)"
    using a(3) [of i] by (simp add: abs_editor_def)
qed

subsection \<open>What the keys do to the screen\<close>

definition stdouts_ok :: "keyboard \<Rightarrow> bool" where
  "stdouts_ok s \<longleftrightarrow> (\<forall>i < PROCESS_COUNT. stdout_buffer (g_processes s ! i) = i)"

lemma stdouts_update:
  assumes "stdouts_ok s" "stdout_buffer (f (g_processes s ! i)) = stdout_buffer (g_processes s ! i)"
  shows "stdouts_ok (update_process i f s)"
proof -
  have "stdout_buffer ((g_processes s)[i := f (g_processes s ! i)] ! n) = stdout_buffer (g_processes s ! n)" for n
  proof (cases "i < length (g_processes s)")
    case True
    then show ?thesis using assms(2) by (cases "n = i") simp_all
  qed (simp add: list_update_beyond)
  then show ?thesis using assms(1) by (simp add: stdouts_ok_def update_process_def)
qed

lemma backspace_key: "map_of normal_keys k = Some (CHR 0x08) \<or> map_of shift_keys k = Some (CHR 0x08) \<Longrightarrow> k = 0x0E"
  by (auto simp: normal_keys_def shift_keys_def split: if_splits)

lemma handler_press:
  assumes "plain_key k" "map_of (if key_shift_pressed s then shift_keys else normal_keys) k = Some c" "c \<noteq> CHR 0x08"
    "\<not> ready (get_current_process s)"
  defines "p \<equiv> get_current_process s"
  shows "c_keyboard_handler font k s = update_process (g_current_process_index s) (process_stdin_push c)
    (s\<lparr>screen := write_char font (stdout_buffer p) (char_byte c) (os_vbuf_scroll_to_bottom font (screen s))\<rparr>)"
proof -
  have k: "\<not> 0x80 \<le> k" "k \<noteq> 0xAA" "k \<noteq> 0xB6" "k \<noteq> 0x2A" "k \<noteq> 0x36" "k \<noteq> 0x49" "k \<noteq> 0x51" "k \<notin> {0x3B, 0x3C, 0x3D, 0x3E}"
    using assms(1) by (auto simp: plain_key_def not_le)
  have F: "\<not> (0x3B \<le> k \<and> k \<le> 0x3E)" using k(8) unfolding function_key(1) .
  have c: "(if key_shift_pressed s then SCANCODE_SHIFT k else SCANCODE_NORMAL k) = c"
    using assms(2) by (auto simp: SCANCODE_SHIFT_def SCANCODE_NORMAL_def split: if_splits)
  have "c \<noteq> CHR 0x00" using assms(2) key_tables_ascii [of k c] by (auto split: if_splits)
  then show ?thesis
    unfolding c_keyboard_handler_def c Let_def
    using k F break_code [of k] assms(3,4) by (auto simp: p_def get_current_process_def)
qed

text \<open>Every key but backspace does to the console what the operations of \<open>console_run\<close> do.\<close>

lemma handler_console:
  assumes ok: "keyboard_ok s" and out: "stdouts_ok s" and k: "k \<noteq> 0x0E"
    and run: "console_run font con0 (screen s) texts"
  shows "(\<exists>texts'. console_run font con0 (screen (c_keyboard_handler font k s)) texts') \<and> stdouts_ok (c_keyboard_handler font k s)"
proof -
  let ?i = "g_current_process_index s" and ?p = "g_processes s ! g_current_process_index s"
  let ?s = "s\<lparr>screen := os_vbuf_scroll_to_bottom font (screen s)\<rparr>"
  note bottom = run_bottom [OF run]
  have i: "stdout_buffer ?p = ?i" "?i < VBUF_COUNT"
    using ok out by (simp_all add: stdouts_ok_def keyboard_ok_def PROCESS_COUNT_def)
  have shift: "stdouts_ok (s\<lparr>key_shift_pressed := b\<rparr>)" "stdouts_ok (t\<lparr>screen := con\<rparr>) = stdouts_ok t" for b con t
    using out by (simp_all add: stdouts_ok_def)
  have switch: "(\<exists>texts'. console_run font con0 (screen (switch_active_process font n s)) texts') \<and> stdouts_ok (switch_active_process font n s)" for n
  proof (cases "PROCESS_COUNT \<le> n \<or> n = ?i")
    case True
    then show ?thesis using run out by (auto simp: switch_active_process_def)
  next
    case False
    let ?t = "update_process n (\<lambda>p. p\<lparr>proc_state := PROCESS_STATE_RUNNING\<rparr>)
      ((update_process ?i (\<lambda>p. p\<lparr>proc_state := PROCESS_STATE_READY\<rparr>) s)\<lparr>g_current_process_index := n\<rparr>)"
    have "stdouts_ok (u\<lparr>g_current_process_index := n\<rparr>) = stdouts_ok u" for u by (simp add: stdouts_ok_def)
    then have "stdouts_ok ?t"
      by (intro stdouts_update [where i = n]) (simp_all add: stdouts_update [OF out])
    moreover have "switch_active_process font n s = ?t\<lparr>screen := switch_active_frame_buffer font n (screen s)\<rparr>"
      using False by (simp add: switch_active_process_def Let_def update_process_def)
    ultimately show ?thesis using run_switch [OF run, of n] by (auto simp: shift)
  qed
  have push: "stdouts_ok (update_process ?i (process_stdin_push c) s)" for c
    using out by (intro stdouts_update) (auto simp: process_stdin_push_def Let_def)
  have writes: "\<exists>texts'. console_run font con0 (write_char font ?i b (os_vbuf_scroll_to_bottom font (screen s))) texts'" for b
    using run_write [OF bottom i(2), of b] by blast
  have no_bs: "(if key_shift_pressed s then SCANCODE_SHIFT k else SCANCODE_NORMAL k) \<noteq> CHR 0x08"
    using backspace_key [of k] k by (auto simp: SCANCODE_SHIFT_def SCANCODE_NORMAL_def split: option.splits)
  define c where "c = (if key_shift_pressed s then SCANCODE_SHIFT k else SCANCODE_NORMAL k)"
  have "c_keyboard_handler font k s \<in> {s\<lparr>key_shift_pressed := True\<rparr>, s\<lparr>key_shift_pressed := False\<rparr>, s, ?s,
      switch_active_process font (unat (k - 0x3B)) s,
      s\<lparr>screen := os_vbuf_scroll font (if k = 0x49 then - int (os_vbuf_screen_rows (screen s)) else int (os_vbuf_screen_rows (screen s))) (screen s)\<rparr>,
      (update_process ?i (process_stdin_push c) s)\<lparr>screen := write_char font ?i (char_byte c) (os_vbuf_scroll_to_bottom font (screen s))\<rparr>}"
    using no_bs unfolding c_keyboard_handler_def Let_def c_def [symmetric] by (auto simp: i)
  then show ?thesis
    using run bottom switch push writes out run_scroll [OF run] by (auto simp: shift) blast+
qed

definition typing :: "font \<Rightarrow> console \<Rightarrow> nat \<Rightarrow> keyboard \<Rightarrow> (nat \<Rightarrow> u8 list) \<Rightarrow> bool" where
  "typing font con0 i s texts \<longleftrightarrow> keyboard_ok s \<and> stdouts_ok s \<and> \<not> key_shift_pressed s \<and>
     g_current_process_index s = i \<and> console_run font con0 (screen s) texts"

lemma press_typing:
  assumes s: "keyboard_ok s" "stdouts_ok s" "g_current_process_index s = i" "console_run font con0 (screen s) texts"
    and k: "plain_key k" "map_of (if key_shift_pressed s then shift_keys else normal_keys) k = Some c" "c \<noteq> CHR 0x08"
    and r: "\<not> ready (g_processes s ! i)"
  defines "s' \<equiv> c_keyboard_handler font k s"
  shows "keyboard_ok s'" "stdouts_ok s'" "g_current_process_index s' = i" "key_shift_pressed s' = key_shift_pressed s"
    "console_run font con0 (screen s') (texts(i := texts i @ [char_byte c]))"
    "ready (g_processes s' ! i) \<longleftrightarrow> c = CHR 0x0A"
proof -
  have i: "i < PROCESS_COUNT" "length (g_processes s) = PROCESS_COUNT" using s(1,3) by (auto simp: keyboard_ok_def)
  have out: "stdout_buffer (g_processes s ! i) = i" using s(2) i by (simp add: stdouts_ok_def)
  have s': "s' = update_process i (process_stdin_push c)
      (s\<lparr>screen := write_char font i (char_byte c) (os_vbuf_scroll_to_bottom font (screen s))\<rparr>)"
    using handler_press [OF k, of font] r s(3) out by (simp add: s'_def get_current_process_def)
  show "keyboard_ok s'" unfolding s'_def using handler_edits [OF s(1)] by blast
  have "k \<noteq> 0x0E"
  proof
    assume k0: "k = 0x0E"
    have "map_of normal_keys 0x0E = Some (CHR 0x08)" "map_of shift_keys 0x0E = Some (CHR 0x08)"
      by (simp_all add: normal_keys_def shift_keys_def)
    then show False using k(2,3) k0 by (simp split: if_splits)
  qed
  then show "stdouts_ok s'" unfolding s'_def using handler_console [OF s(1,2) _ s(4)] by blast
  show "g_current_process_index s' = i" "key_shift_pressed s' = key_shift_pressed s" using s(3) by (simp_all add: s' update_process_def)
  have "i < VBUF_COUNT" using i by (simp add: PROCESS_COUNT_def)
  from run_write [OF run_bottom [OF s(4)] this, of "char_byte c"]
  show "console_run font con0 (screen s') (texts(i := texts i @ [char_byte c]))" by (simp add: s' update_process_def)
  show "ready (g_processes s' ! i) \<longleftrightarrow> c = CHR 0x0A"
    using i r by (auto simp: s' update_process_def process_stdin_push_def Let_def)
qed

lemma type_char:
  assumes t: "typing font con0 i s texts" and c: "typable c \<or> c = CHR 0x0A" and r: "\<not> ready (g_processes s ! i)"
  defines "s' \<equiv> c_keyboard_isr font (keystrokes c) s"
  shows "typing font con0 i s' (texts(i := texts i @ [char_byte c]))" "ready (g_processes s' ! i) \<longleftrightarrow> c = CHR 0x0A"
proof -
  have c8: "c \<noteq> CHR 0x08" using c by (auto simp: typable_def)
  note T = t [unfolded typing_def]
  have "typing font con0 i s' (texts(i := texts i @ [char_byte c])) \<and> (ready (g_processes s' ! i) \<longleftrightarrow> c = CHR 0x0A)"
  proof (cases "key_of normal_keys c")
    case (Some k)
    then have "s' = c_keyboard_handler font k s" by (simp add: s'_def keystrokes_def c_keyboard_isr_def)
    then show ?thesis using press_typing [of s i font con0 texts k c] key_of_key(1) [OF Some] T c8 r by (simp add: typing_def)
  next
    case None
    have "key_of normal_keys (CHR 0x0A) \<noteq> None" by code_simp
    then obtain k where k: "key_of shift_keys c = Some k" using c None by (auto simp: typable_def)
    have down: "c_keyboard_handler font 0x2A u = u\<lparr>key_shift_pressed := True\<rparr>"
      and up: "c_keyboard_handler font 0xAA u = u\<lparr>key_shift_pressed := False\<rparr>" for u
      by (simp_all add: c_keyboard_handler_def)
    let ?s = "s\<lparr>key_shift_pressed := True\<rparr>"
    have keep: "keyboard_ok (u\<lparr>key_shift_pressed := b\<rparr>) = keyboard_ok u" "stdouts_ok (u\<lparr>key_shift_pressed := b\<rparr>) = stdouts_ok u" for u b
      by (simp_all add: keyboard_ok_def stdouts_ok_def)
    have "s' = (c_keyboard_handler font k ?s)\<lparr>key_shift_pressed := False\<rparr>"
      using None k by (simp add: s'_def keystrokes_def c_keyboard_isr_def down up)
    then show ?thesis
      using press_typing [of ?s i font con0 texts k c] key_of_key(2) [OF k] T c8 r by (simp add: typing_def keep)
  qed
  then show "typing font con0 i s' (texts(i := texts i @ [char_byte c]))" "ready (g_processes s' ! i) \<longleftrightarrow> c = CHR 0x0A" by auto
qed

lemma isr_append: "c_keyboard_isr font (ks @ ks') s = c_keyboard_isr font ks' (c_keyboard_isr font ks s)"
  by (simp add: c_keyboard_isr_def)

lemma type_text:
  assumes "typing font con0 i s texts" "list_all typable str" "\<not> ready (g_processes s ! i)"
  shows "typing font con0 i (c_keyboard_isr font (concat (map keystrokes str)) s) (texts(i := texts i @ map char_byte str)) \<and>
    \<not> ready (g_processes (c_keyboard_isr font (concat (map keystrokes str)) s) ! i)"
  using assms
proof (induction str arbitrary: s texts)
  case Nil
  then show ?case by (simp add: c_keyboard_isr_def)
next
  case (Cons c str)
  have "typable c" "c \<noteq> CHR 0x0A" using Cons.prems(2) by (simp_all add: typable_def)
  note t = type_char [OF Cons.prems(1) _ Cons.prems(3), of c]
  have t1: "typing font con0 i (c_keyboard_isr font (keystrokes c) s) (texts(i := texts i @ [char_byte c]))"
    by (rule t(1)) (simp add: \<open>typable c\<close>)
  have r: "\<not> ready (g_processes (c_keyboard_isr font (keystrokes c) s) ! i)" using t(2) \<open>typable c\<close> \<open>c \<noteq> CHR 0x0A\<close> by blast
  show ?case using Cons.IH [OF t1 _ r] Cons.prems(2) by (simp add: isr_append cong: if_cong)
qed

lemma type_line:
  assumes "typing font con0 i s texts" "list_all typable str" "\<not> ready (g_processes s ! i)"
  shows "typing font con0 i (c_keyboard_isr font (concat (map keystrokes (str @ [CHR 0x0A]))) s)
    (texts(i := texts i @ map char_byte (str @ [CHR 0x0A])))"
  using type_text [OF assms] type_char(1) [of font con0 i _ "texts(i := texts i @ map char_byte str)" "CHR 0x0A"]
  by (simp add: isr_append cong: if_cong)

subsection \<open>Properties\<close>

text \<open>
  C10. The keyboard handler is a line editor: for any sequence of scan codes, what the processes
  have as input is what the editor of the specification holds, at most 255 characters each.
\<close>

theorem keyboard_edits_lines:
  assumes "keyboard_ok s"
  shows "abs_editor (c_keyboard_isr font scancodes s) = fold editor_step scancodes (abs_editor s) \<and>
    keyboard_ok (c_keyboard_isr font scancodes s)"
  by (rule isr_edits [OF assms])

definition demo_keyboard :: keyboard where
  "demo_keyboard =
     (let p = \<lparr>proc_id = 0, proc_name = [], proc_state = PROCESS_STATE_READY, stdout_buffer = 0,
            stdin_buf = replicate 256 (CHR 0x00), stdin_len = 0, read_pos = 0, ready = False, env = 0, live_blocks = 0, gc_roots = 0\<rparr>
      in \<lparr>g_processes = fst (initialize_processes (replicate 4 p)), g_current_process_index = 0,
          screen = console_boot 640 400 640 100 (\<lambda>_. 0), key_shift_pressed = False\<rparr>)"

lemma demo_keyboard_processes:
  "i < PROCESS_COUNT \<Longrightarrow> length (stdin_buf (g_processes demo_keyboard ! i)) = 256 \<and> stdin_len (g_processes demo_keyboard ! i) = 0 \<and>
     stdout_buffer (g_processes demo_keyboard ! i) = i \<and> \<not> ready (g_processes demo_keyboard ! i)"
  "length (g_processes demo_keyboard) = PROCESS_COUNT"
  by (simp_all add: demo_keyboard_def initialize_processes_def Let_def PROCESS_COUNT_def VBUF_COUNT_def)

lemma demo_keyboard_typing: "typing demo_font (console_boot 640 400 640 100 (\<lambda>_. 0)) 0 demo_keyboard (\<lambda>_. [])"
  using demo_keyboard_processes run_start
  by (auto simp: typing_def keyboard_ok_def stdouts_ok_def list_all_length process_ok_def PROCESS_STDIN_BUF_SIZE_def)
    (simp_all add: demo_keyboard_def Let_def PROCESS_COUNT_def VBUF_COUNT_def run_start)

theorem keyboard_edits_lines_witness:
  "line_of (abs_editor (c_keyboard_isr demo_font [0x1E, 0x2A, 0x30, 0xAA, 0x0E, 0x2E, 0x1C, 0x1E] demo_keyboard)) 0 =
     \<lparr>line_text = ''ac'' @ [CHR 0x0A], entered = True\<rparr>"
proof -
  have "abs_editor demo_keyboard = \<lparr>line_of = (\<lambda>_. \<lparr>line_text = [], entered = False\<rparr>), current_line = 0, shifted = False\<rparr>"
    using demo_keyboard_processes by (auto simp: abs_editor_def input_of_def fun_eq_iff) (simp_all add: demo_keyboard_def Let_def)
  then show ?thesis
    using keyboard_edits_lines [of demo_keyboard demo_font "[0x1E, 0x2A, 0x30, 0xAA, 0x0E, 0x2E, 0x1C, 0x1E]"] demo_keyboard_typing
    by (simp add: typing_def editor_step_def normal_keys_def shift_keys_def edit_line_def)
qed

text \<open>
  A line typed into the active process while its previous one is not pending arrives as
  its input, terminated by a newline and ready to be read; the other processes' input is
  untouched, and the line is echoed: the console has been given exactly these characters for
  the buffer of that process.
\<close>

theorem typed_line_arrives:
  assumes "typing font con0 i s texts" "list_all typable str" "\<not> ready (g_processes s ! i)"
    "length (input_of (g_processes s ! i) @ str) < 255"
  defines "s' \<equiv> c_keyboard_isr font (concat (map keystrokes (str @ [CHR 0x0A]))) s"
  shows "input_of (g_processes s' ! i) = input_of (g_processes s ! i) @ str @ [CHR 0x0A] \<and> ready (g_processes s' ! i) \<and>
    (j < PROCESS_COUNT \<and> j \<noteq> i \<longrightarrow> input_of (g_processes s' ! j) = input_of (g_processes s ! j)) \<and>
    console_run font con0 (screen s') (texts(i := texts i @ map char_byte (str @ [CHR 0x0A])))"
proof -
  have t: "keyboard_ok s" "\<not> key_shift_pressed s" "g_current_process_index s = i" using assms(1) by (simp_all add: typing_def)
  note L = typed_line [where font = font, OF t(1,2), unfolded get_current_process_def t(3), OF assms(3,2,4)]
  have "console_run font con0 (screen s') (texts(i := texts i @ map char_byte (str @ [CHR 0x0A])))"
    using type_line [OF assms(1-3)] by (simp add: typing_def s'_def)
  then show ?thesis using L(2,4,5,6) by (simp add: s'_def get_current_process_def)
qed

text \<open>
  Once the input of a process fills its buffer of 255 characters, Enter is accepted
  without being stored: the line is ready but has lost its newline, so that its last token runs
  on into the next line.
\<close>

theorem full_line_loses_newline:
  assumes "keyboard_ok s" "\<not> ready (get_current_process s)" "length (input_of (get_current_process s)) = 255"
  shows "input_of (get_current_process (c_keyboard_handler font 0x1C s)) = input_of (get_current_process s) \<and>
    ready (get_current_process (c_keyboard_handler font 0x1C s))"
proof -
  let ?i = "g_current_process_index s"
  have i: "?i < PROCESS_COUNT" using assms(1) by (simp add: keyboard_ok_def)
  have e: "line_of (abs_editor s) ?i = \<lparr>line_text = input_of (get_current_process s), entered = False\<rparr>" "current_line (abs_editor s) = ?i"
    using assms(2) i by (simp_all add: abs_editor_def get_current_process_def)
  have k: "map_of (if shifted (abs_editor s) then shift_keys else normal_keys) 0x1C = Some (CHR 0x0A)" "plain_key 0x1C"
    by (simp_all add: normal_keys_def shift_keys_def plain_key_def)
  have "abs_editor (c_keyboard_handler font 0x1C s) = (abs_editor s)\<lparr>line_of := (line_of (abs_editor s))
      (?i := \<lparr>line_text = input_of (get_current_process s), entered = True\<rparr>)\<rparr>"
    using handler_edits [OF assms(1), of font "0x1C"] plain_key_step [OF k(2,1)] e assms(3) by (simp add: edit_line_def)
  note a = arg_cong [OF this, of current_line] fun_cong [OF arg_cong [OF this, of line_of], of ?i]
  show ?thesis using a i by (simp add: abs_editor_def get_current_process_def)
qed

lemma cell_pixel:
  "row < 16 \<Longrightarrow> (cy * 16 + row) div 16 = (cy :: nat) \<and> (cy * 16 + row) mod 16 = row"
  "col < 8 \<Longrightarrow> (cx * 8 + col) div 8 = (cx :: nat) \<and> (cx * 8 + col) mod 8 = col"
  by (simp_all add: div_mult2_eq)

lemma cursor_at:
  assumes "fb_ok fb" "view_offset fb = 0" "X < width fb"
  shows "draw_cursor fb s (Y * pixels_per_scanline fb + X) =
      (if Y div 16 = cursor_position_y fb \<and> X div 8 = cursor_position_x fb then WHITE else s (Y * pixels_per_scanline fb + X))"
    "erase_cursor fb s (Y * pixels_per_scanline fb + X) =
      (if Y div 16 = cursor_position_y fb \<and> X div 8 = cursor_position_x fb then 0 else s (Y * pixels_per_scanline fb + X))"
proof -
  have "cursor_position_x fb * 8 + 8 \<le> pixels_per_scanline fb" "X < pixels_per_scanline fb"
    using fb_okD(3,6,11) [OF assms(1)] assms(3) by linarith+
  then show "draw_cursor fb s (Y * pixels_per_scanline fb + X) =
      (if Y div 16 = cursor_position_y fb \<and> X div 8 = cursor_position_x fb then WHITE else s (Y * pixels_per_scanline fb + X))"
    "erase_cursor fb s (Y * pixels_per_scanline fb + X) =
      (if Y div 16 = cursor_position_y fb \<and> X div 8 = cursor_position_x fb then 0 else s (Y * pixels_per_scanline fb + X))"
    using assms(2) by (auto simp: draw_cursor_def erase_cursor_def cursor_x_def cursor_y_def VBUF_GLYPH_WIDTH_def VBUF_GLYPH_HEIGHT_def fill_cell_at)
qed

lemma switch_pixels:
  assumes "j < VBUF_COUNT" "j \<noteq> active_index con" "active_index con < VBUF_COUNT"
  shows "pixels (switch_active_frame_buffer font (active_index con) (switch_active_frame_buffer font j con)) =
    render_frame_buffer font (frame_buffers con ! active_index con)
      (render_frame_buffer font (frame_buffers con ! j) (pixels con))"
  using assms by (simp add: switch_active_frame_buffer_def draw_with_def)

text \<open>
  Backspace erases a character from the screen and from the input, but not from the
  history: after typing a character in the middle of a row, deleting it and pressing Enter, its
  cell is dark, and lights up again when the user leaves the process and comes back.
\<close>

theorem deleted_character_returns:
  assumes run: "console_run font (console_boot w h ppsl hist s) con texts" and dims: "8 \<le> w" "16 \<le> h" "w \<le> ppsl" "blank_glyph font"
  defines "i \<equiv> active_index con"
  defines "fb \<equiv> frame_buffers con ! i"
  assumes fb: "view_offset fb = 0" "cursor_position_x fb + 1 < w div 8" "cursor_position_y fb + 1 < h div 16"
    and c: "c \<noteq> 0" "c \<noteq> 0x0A" "row < 16" "col < 8" "glyph_bit font c row col" and j: "j < VBUF_COUNT" "j \<noteq> i"
  defines "con' \<equiv> write_char font i 0x0A (backspace (write_char font i c con))"
  defines "p \<equiv> (cursor_position_y fb * 16 + row) * ppsl + (cursor_position_x fb * 8 + col)"
  shows "pixels con' p = 0 \<and> pixels (switch_active_frame_buffer font i (switch_active_frame_buffer font j con')) p = WHITE"
proof -
  note B = buffers_okD [OF conjunct1 [OF run_ok [OF run dims]]]
  have i: "i < VBUF_COUNT" "i = active_index con" "i < length (frame_buffers con)" using B(1,2) by (simp_all add: i_def)
  have ok: "fb_ok fb" and shape: "fb_shape fb w h ppsl (os_vbuf_effective_hist_rows h hist)" using B(3,4) [OF i(1)] by (simp_all add: fb_def)
  note D = fb_okD [OF ok] and shape' = shape [unfolded fb_shape_def]
  let ?x = "cursor_position_x fb" and ?y = "cursor_position_y fb"
  define f0 where "f0 = content_put fb ?x ?y c"
  define f1 where "f1 = f0\<lparr>cursor_position_x := ?x + 1\<rparr>"
  define f3 where "f3 = fb\<lparr>content := content f0, cursor_position_x := 0, cursor_position_y := ?y + 1\<rparr>"
  have fields: "view_offset f0 = 0" "cols f0 = cols fb" "rows f0 = rows fb" "cursor_position_x f0 = ?x" "cursor_position_y f0 = ?y"
    "pixels_per_scanline f0 = ppsl" "width f0 = w" "height f0 = h"
    using fb shape' by (simp_all add: f0_def)
  have ok0: "fb_ok f0" unfolding f0_def by (rule content_put_ok [OF ok])
  have f0: "f0 = fb\<lparr>content := content f0\<rparr>" using D(11,12) by (simp add: f0_def content_put_def)
  have v0: "fb\<lparr>view_offset := 0\<rparr> = fb" using fb(1) by simp
  have "write_fb c fb = f1"
    unfolding write_fb_def Let_def v0 using c(2) fb shape' by (simp add: f1_def f0_def)
  then have con1: "write_char font i c con = with_fb i con f1 (write_px font c fb (pixels con))"
    using write_char_eq [OF i(3), of font c] by (simp add: with_fb_def fb_def)
  define s2 where "s2 = draw_cursor f0 (erase_cursor f0 (erase_cursor f1 (write_px font c fb (pixels con))))"
  have f1': "f1\<lparr>cursor_position_x := ?x\<rparr> = f0" unfolding f1_def using fields(4) by simp
  have con2: "backspace (write_char font i c con) = with_fb i con f0 s2"
    unfolding con1 using i(1,3) f1' by (simp add: backspace_def with_fb_def draw_with_def update_fb_def Let_def s2_def f1_def i(2) [symmetric])
  have f3: "newline_fb f0 = f3" "newline_px f0 s = s" for s
    using fb shape' f0 by (simp_all add: newline_fb_eq newline_px_def f3_def fields) 
  define s3 where "s3 = draw_cursor f3 (erase_cursor f0 s2)"
  have v: "f0\<lparr>view_offset := 0\<rparr> = f0" using fields(1) by simp
  have con3: "con' = with_fb i con f3 s3"
    unfolding con'_def con2 write_char_with_fb [OF i(3)] write_fb_def write_px_def Let_def v f3 by (simp add: fields s3_def)
  have ok3: "fb_ok f3" using newline_fb_ok [of f0] ok0 D(1) fields by (simp add: f3 fb_ok_def)
  have f3': "view_offset f3 = 0" "width f3 = w" "height f3 = h" "pixels_per_scanline f3 = ppsl" using fb shape' by (simp_all add: f3_def)
  have X: "?x * 8 + col < w" "?y * 16 + row < h" using D(3,4,11,12) c(3,4) shape' by auto
  note cell = cell_pixel(1) [OF c(3), of ?y] cell_pixel(2) [OF c(4), of ?x]
  have "pixels con' p = s3 p" by (simp add: con3 with_fb_def i(2) [symmetric])
  also have "s3 p = 0"
    using cursor_at(1) [OF ok3 f3'(1), of "?x * 8 + col" "erase_cursor f0 s2" "?y * 16 + row"]
      cursor_at(2) [OF ok0 fields(1), of "?x * 8 + col" s2 "?y * 16 + row"] X cell
    by (simp add: s3_def p_def f3' fields) (simp add: f3_def)
  finally have dark: "pixels con' p = 0" .
  have "screen_row f3 ?y ! ?x = c"
  proof -
    have "screen_row f3 = screen_row f0" unfolding f3_def using f0 by (simp add: screen_row_def fun_eq_iff history_def row_cells_def)
    then show ?thesis
      using put_screen_row [OF ok fb(1) D(11,12,12), of c] visible_row(2) [OF ok D(12)] D(11) by (simp add: f0_def)
  qed
  then have "text_pixel font f3 (?y * 16 + row) (?x * 8 + col) = WHITE"
    using c cell D(11,12) by (simp add: text_pixel_def f3_def)
  then have "render_frame_buffer font f3 t p = WHITE" for t
    using render_cursor [OF ok3 f3'(1), of font t] X by (simp add: cursor_shown_def f3' p_def)
  then have "pixels (switch_active_frame_buffer font i (switch_active_frame_buffer font j con')) p = WHITE"
    using switch_pixels [of j con' font] j i(1,3) by (simp add: con3 with_fb_def i(2) [symmetric])
  with dark show ?thesis ..
qed

end
