(* ===== verification/Limbs.thy ===== *)
theory Limbs
  imports Prelude
begin

unbundle bit_operations_syntax

text \<open>
  The unsigned magnitudes of the bignum arithmetic (\<^verbatim>\<open>src/c/runtime.c\<close>, the
  \<^verbatim>\<open>mag_*\<close> helpers): arrays of 64-bit words of which the low 32 bits are used,
  \<open>limbs[0]\<close> the least significant. An array with its length is a \<open>u64 list\<close>; a
  routine that fills a caller's buffer and returns the effective length returns the
  buffer cut to that length. Every sum, product and shift is a 64-bit word operation,
  so the lemmas below also show that none of them wraps. \<open>mag_val\<close> reads a
  magnitude as a natural number; each routine is proved against it.
\<close>

subsection \<open>The routines\<close>

fun mag_val :: "u64 list \<Rightarrow> nat" where
  "mag_val [] = 0"
| "mag_val (x # xs) = unat x + 4294967296 * mag_val xs"

definition limbs_ok :: "u64 list \<Rightarrow> bool" where
  "limbs_ok xs = list_all (\<lambda>x. unat x < 4294967296) xs"

fun mag_len :: "u64 list \<Rightarrow> nat \<Rightarrow> nat" where
  "mag_len limbs 0 = 0"
| "mag_len limbs (Suc c) = (if 0 < c \<and> limbs ! c = 0 then mag_len limbs c else Suc c)"

definition mag_trim :: "u64 list \<Rightarrow> u64 list" where
  "mag_trim limbs = take (mag_len limbs (length limbs)) limbs"

fun mag_compare_from :: "u64 list \<Rightarrow> u64 list \<Rightarrow> nat \<Rightarrow> int" where
  "mag_compare_from a b 0 = 0"
| "mag_compare_from a b (Suc i) =
     (if a ! i \<noteq> b ! i then (if a ! i < b ! i then -1 else 1) else mag_compare_from a b i)"

definition mag_compare :: "u64 list \<Rightarrow> u64 list \<Rightarrow> int" where
  "mag_compare a b =
     (let alen = mag_len a (length a); blen = mag_len b (length b)
      in if alen \<noteq> blen then (if alen < blen then -1 else 1) else mag_compare_from a b alen)"

fun mag_add_loop :: "nat \<Rightarrow> u64 list \<Rightarrow> u64 list \<Rightarrow> u64 \<Rightarrow> u64 list" where
  "mag_add_loop 0 a b carry = [carry]"
| "mag_add_loop (Suc n) a b carry =
     (let av = nth_or 0 a 0; bv = nth_or 0 b 0; sum = av + bv + carry
      in (sum AND 0xFFFFFFFF) # mag_add_loop n (tl a) (tl b) (drop_bit 32 sum))"

definition mag_add :: "u64 list \<Rightarrow> u64 list \<Rightarrow> u64 list" where
  "mag_add a b = mag_trim (mag_add_loop (max (length a) (length b)) a b 0)"

fun mag_sub_loop :: "u64 list \<Rightarrow> u64 list \<Rightarrow> u64 \<Rightarrow> u64 list" where
  "mag_sub_loop [] b borrow = []"
| "mag_sub_loop (av # a) b borrow =
     (let bv = nth_or 0 b 0; diff = av - bv - borrow
      in (diff AND 0xFFFFFFFF) # mag_sub_loop a (tl b) (if av < bv + borrow then 1 else 0))"

definition mag_sub :: "u64 list \<Rightarrow> u64 list \<Rightarrow> u64 list" where
  "mag_sub a b = mag_trim (mag_sub_loop a b 0)"

fun mag_mul_row :: "u64 \<Rightarrow> u64 list \<Rightarrow> u64 list \<Rightarrow> u64 \<Rightarrow> u64 list" where
  "mag_mul_row ai [] (o1 # out) carry = (o1 + carry) # out"
| "mag_mul_row ai (bj # b) (o1 # out) carry =
     (let prod = ai * bj + o1 + carry
      in (prod AND 0xFFFFFFFF) # mag_mul_row ai b out (drop_bit 32 prod))"
| "mag_mul_row ai b [] carry = []"

fun mag_mul_loop :: "u64 list \<Rightarrow> u64 list \<Rightarrow> u64 list \<Rightarrow> u64 list" where
  "mag_mul_loop [] b out = out"
| "mag_mul_loop (ai # a) b out =
     (case mag_mul_row ai b out 0 of [] \<Rightarrow> [] | o1 # rest \<Rightarrow> o1 # mag_mul_loop a b rest)"

definition mag_mul :: "u64 list \<Rightarrow> u64 list \<Rightarrow> u64 list" where
  "mag_mul a b = mag_trim (mag_mul_loop a b (replicate (length a + length b) 0))"

fun mag_shl1 :: "u64 list \<Rightarrow> u64 \<Rightarrow> u64 list" where
  "mag_shl1 [] carry = []"
| "mag_shl1 (r # rem) carry =
     (((push_bit 1 r) OR carry) AND 0xFFFFFFFF) # mag_shl1 rem ((drop_bit 31 r) AND 1)"

fun mag_divmod_loop ::
  "nat \<Rightarrow> u64 list \<Rightarrow> u64 list \<Rightarrow> u64 list \<Rightarrow> u64 list \<Rightarrow> u64 list \<times> u64 list" where
  "mag_divmod_loop 0 a b quot rem = (quot, rem)"
| "mag_divmod_loop (Suc idx) a b quot rem =
     (let r1 = mag_shl1 rem 0;
          r2 = r1[0 := r1 ! 0 OR (drop_bit (idx mod 32) (a ! (idx div 32)) AND 1)];
          rlen = mag_len r2 (length r2)
      in if mag_compare (take rlen r2) b \<ge> 0
         then mag_divmod_loop idx a b
                (quot[idx div 32 := quot ! (idx div 32) OR push_bit (idx mod 32) 1])
                (mag_sub_loop (take rlen r2) b 0 @ drop rlen r2)
         else mag_divmod_loop idx a b quot r2)"

definition mag_divmod :: "u64 list \<Rightarrow> u64 list \<Rightarrow> u64 list \<times> u64 list" where
  "mag_divmod a0 b0 =
     (let a = mag_trim a0; b = mag_trim b0; z = replicate (length a) 0;
          (quot, rem) = mag_divmod_loop (32 * length a) a b z z
      in (mag_trim quot, mag_trim rem))"

fun mag_carry_out :: "nat \<Rightarrow> u64 \<Rightarrow> u64 list" where
  "mag_carry_out 0 carry = []"
| "mag_carry_out (Suc k) carry =
     (if carry \<noteq> 0 then (carry AND 0xFFFFFFFF) # mag_carry_out k (drop_bit 32 carry) else [])"

fun mag_mul_small_loop :: "u64 list \<Rightarrow> u64 \<Rightarrow> u64 \<Rightarrow> u64 list" where
  "mag_mul_small_loop [] mul carry = mag_carry_out 2 carry"
| "mag_mul_small_loop (x # limbs) mul carry =
     (let prod = x * mul + carry
      in (prod AND 0xFFFFFFFF) # mag_mul_small_loop limbs mul (drop_bit 32 prod))"

definition mag_mul_small_add_small :: "u64 list \<Rightarrow> u64 \<Rightarrow> u64 \<Rightarrow> u64 list" where
  "mag_mul_small_add_small limbs mul add = mag_trim (mag_mul_small_loop limbs mul add)"

fun mag_divmod_small_loop :: "u64 list \<Rightarrow> u64 \<Rightarrow> u64 list \<times> u64" where
  "mag_divmod_small_loop [] d = ([], 0)"
| "mag_divmod_small_loop (x # limbs) d =
     (let (q, r) = mag_divmod_small_loop limbs d; cur = push_bit 32 r OR x
      in (cur div d # q, cur mod d))"

definition mag_divmod_small :: "u64 list \<Rightarrow> u64 \<Rightarrow> u64 list \<times> u64" where
  "mag_divmod_small limbs d = (let (q, r) = mag_divmod_small_loop limbs d in (mag_trim q, r))"


subsection \<open>The value of a magnitude\<close>

lemma mag_val_append: "mag_val (xs @ ys) = mag_val xs + 2 ^ (32 * length xs) * mag_val ys"
  by (induction xs) (simp_all add: power_add algebra_simps)

lemma mag_val_replicate0 [simp]: "mag_val (replicate n 0) = 0"
  by (induction n) simp_all

lemma limbs_ok_simps [simp]:
  "limbs_ok []"
  "limbs_ok (x # xs) \<longleftrightarrow> unat x < 4294967296 \<and> limbs_ok xs"
  "limbs_ok (xs @ ys) \<longleftrightarrow> limbs_ok xs \<and> limbs_ok ys"
  by (simp_all add: limbs_ok_def)

lemma mag_val_bound: "limbs_ok xs \<Longrightarrow> mag_val xs < 2 ^ (32 * length xs)"
proof (induction xs)
  case (Cons x xs)
  then have "mag_val xs + 1 \<le> 2 ^ (32 * length xs)" "unat x < 4294967296" by simp_all
  then have "unat x + 4294967296 * mag_val xs < 4294967296 * (mag_val xs + 1)" by simp
  also have "\<dots> \<le> 4294967296 * 2 ^ (32 * length xs)"
    using \<open>mag_val xs + 1 \<le> 2 ^ (32 * length xs)\<close> by (intro mult_le_mono2)
  finally show ?case by (simp add: power_add)
qed simp

lemma limbs_ok_take: "limbs_ok xs \<Longrightarrow> limbs_ok (take n xs)"
  by (simp add: limbs_ok_def list_all_take)

lemma mag_len_le: "mag_len xs c \<le> c"
  by (induction xs c rule: mag_len.induct) auto

lemma mag_len_pos: "0 < c \<Longrightarrow> 0 < mag_len xs c"
  by (induction xs c rule: mag_len.induct) auto

lemma mag_len_zeros: "mag_len xs c \<le> i \<Longrightarrow> i < c \<Longrightarrow> xs ! i = 0"
  by (induction xs c rule: mag_len.induct) (auto split: if_splits simp: less_Suc_eq)

lemma mag_len_last: "1 < mag_len xs c \<Longrightarrow> xs ! (mag_len xs c - 1) \<noteq> 0"
  by (induction xs c rule: mag_len.induct) (auto split: if_splits)

lemma drop_mag_len: "drop (mag_len xs (length xs)) xs = replicate (length xs - mag_len xs (length xs)) 0"
proof (rule nth_equalityI)
  fix i assume "i < length (drop (mag_len xs (length xs)) xs)"
  then show "drop (mag_len xs (length xs)) xs ! i = replicate (length xs - mag_len xs (length xs)) 0 ! i"
    using mag_len_zeros [of xs "length xs" "mag_len xs (length xs) + i"] by simp
qed simp

lemma mag_val_take_len: "mag_val (take (mag_len xs (length xs)) xs) = mag_val xs"
proof -
  have "mag_val xs = mag_val (take (mag_len xs (length xs)) xs @ drop (mag_len xs (length xs)) xs)"
    by simp
  also have "\<dots> = mag_val (take (mag_len xs (length xs)) xs)"
    by (simp only: mag_val_append drop_mag_len mag_val_replicate0 mult_0_right add_0_right)
  finally show ?thesis ..
qed

lemma mag_val_trim [simp]: "mag_val (mag_trim xs) = mag_val xs"
  by (simp add: mag_trim_def mag_val_take_len)

lemma limbs_ok_trim [simp]: "limbs_ok xs \<Longrightarrow> limbs_ok (mag_trim xs)"
  by (simp add: mag_trim_def limbs_ok_take)

lemma length_trim_le: "length (mag_trim xs) \<le> length xs"
  by (simp add: mag_trim_def)

lemma mag_trim_Nil_iff [simp]: "mag_trim xs = [] \<longleftrightarrow> xs = []"
  using mag_len_pos [of "length xs" xs] by (cases xs) (auto simp: mag_trim_def simp del: mag_len.simps)

lemma mag_trim_last: "1 < length (mag_trim xs) \<Longrightarrow> last (mag_trim xs) \<noteq> 0"
proof -
  let ?n = "mag_len xs (length xs)"
  assume "1 < length (mag_trim xs)"
  then have n: "1 < ?n" "?n \<le> length xs"
    using mag_len_le [of xs "length xs"] by (simp_all add: mag_trim_def)
  then have "last (mag_trim xs) = xs ! (?n - 1)"
    by (subst last_conv_nth) (auto simp: mag_trim_def simp del: mag_len.simps)
  then show ?thesis using mag_len_last n(1) by metis
qed

lemma nth_or_0_tl: "mag_val a = unat (nth_or 0 a 0) + 4294967296 * mag_val (tl a)"
  by (cases a) simp_all

lemma limbs_ok_nth_or: "limbs_ok a \<Longrightarrow> unat (nth_or 0 a 0) < 4294967296"
  by (cases a) simp_all

lemma limbs_ok_tl: "limbs_ok a \<Longrightarrow> limbs_ok (tl a)"
  by (cases a) simp_all

lemma mag_add_loop_val:
  assumes "limbs_ok a" "limbs_ok b" "unat carry \<le> 1" "length a \<le> n" "length b \<le> n"
  shows "mag_val (mag_add_loop n a b carry) = mag_val a + mag_val b + unat carry
         \<and> limbs_ok (mag_add_loop n a b carry)"
  using assms
proof (induction n a b carry rule: mag_add_loop.induct)
  case (1 a b carry)
  then show ?case by simp
next
  case (2 n a b carry)
  let ?av = "nth_or 0 a 0" and ?bv = "nth_or 0 b 0"
  let ?sum = "?av + ?bv + carry"
  have bnd: "unat ?av < 4294967296" "unat ?bv < 4294967296"
    using 2 by (simp_all add: limbs_ok_nth_or)
  then have sum: "unat ?sum = unat ?av + unat ?bv + unat carry"
    using 2 by (simp add: unat_add_no_wrap64)
  have hi: "unat (drop_bit 32 ?sum) \<le> 1"
    unfolding unat_hi32 using sum bnd 2 by simp
  have IH: "mag_val (mag_add_loop n (tl a) (tl b) (drop_bit 32 ?sum)) =
      mag_val (tl a) + mag_val (tl b) + unat (drop_bit 32 ?sum) \<and>
      limbs_ok (mag_add_loop n (tl a) (tl b) (drop_bit 32 ?sum))"
    by (rule 2(1) [OF refl refl refl]) (use 2 hi in \<open>auto simp: limbs_ok_tl\<close>)
  have "mag_val a = unat ?av + 4294967296 * mag_val (tl a)" "mag_val b = unat ?bv + 4294967296 * mag_val (tl b)"
    by (rule nth_or_0_tl)+
  with IH sum unat_split32 [of ?sum] show ?case
    by (simp add: Let_def unat_lo32)
qed

subsection \<open>Addition, subtraction, multiplication\<close>

lemma mag_add_loop_length: "length (mag_add_loop n a b c) = Suc n"
  by (induction n a b c rule: mag_add_loop.induct) (simp_all add: Let_def)

lemma mag_add_val:
  assumes "limbs_ok a" "limbs_ok b"
  shows "mag_val (mag_add a b) = mag_val a + mag_val b" "limbs_ok (mag_add a b)"
  using mag_add_loop_val [OF assms, of 0 "max (length a) (length b)"]
  by (simp_all add: mag_add_def)

lemma mag_add_nonempty [simp]: "mag_add a b \<noteq> []"
  by (metis mag_add_def mag_trim_Nil_iff mag_add_loop_length length_0_conv nat.distinct(2))

text \<open>One limb of a subtraction: the difference of the low halves and the borrow.\<close>

lemma sub_limb:
  fixes av bv br :: u64
  assumes "unat av < 4294967296" "unat bv < 4294967296" "unat br \<le> 1"
  shows "unat ((av - bv - br) AND 0xFFFFFFFF) + unat bv + unat br =
           unat av + 4294967296 * (if av < bv + br then 1 else 0)"
proof -
  have s: "unat (bv + br) = unat bv + unat br"
    using assms by (simp add: unat_add_no_wrap64)
  show ?thesis
  proof (cases "av < bv + br")
    case True
    then have lt: "unat av < unat bv + unat br"
      using s by (simp add: word_less_nat_alt)
    have "unat (av - (bv + br)) = unat av + 18446744073709551616 - (unat bv + unat br)"
      using lt s unat_sub_if_size [of av "bv + br"] by (simp add: word_size)
    then have "unat (av - bv - br) = unat av + 18446744073709551616 - (unat bv + unat br)"
      by (simp only: diff_diff_eq)
    moreover have "(unat av + 18446744073709551616 - (unat bv + unat br)) mod 4294967296
        = unat av + 4294967296 - (unat bv + unat br)"
    proof -
      have "unat av + 18446744073709551616 - (unat bv + unat br)
          = (unat av + 4294967296 - (unat bv + unat br)) + 4294967295 * 4294967296"
        using assms lt by simp
      moreover have "unat av + 4294967296 - (unat bv + unat br) < 4294967296"
        using lt by simp
      ultimately show ?thesis
        by (metis mod_mult_self1 mod_less)
    qed
    ultimately show ?thesis
      using True assms lt unfolding unat_lo32 by simp
  next
    case False
    then have ge: "unat bv + unat br \<le> unat av"
      using s by (simp add: word_less_nat_alt)
    have "unat (av - (bv + br)) = unat av - (unat bv + unat br)"
      using ge s unat_sub_if_size [of av "bv + br"] by simp
    then have "unat (av - bv - br) = unat av - (unat bv + unat br)"
      by (simp only: diff_diff_eq)
    then show ?thesis
      using False assms ge unfolding unat_lo32 by simp
  qed
qed

lemma mag_sub_loop_length [simp]: "length (mag_sub_loop a b br) = length a"
  by (induction a b br rule: mag_sub_loop.induct) (simp_all add: Let_def)

lemma mag_sub_loop_val:
  assumes "limbs_ok a" "limbs_ok b" "unat br \<le> 1" "mag_val b + unat br \<le> mag_val a"
  shows "mag_val (mag_sub_loop a b br) + mag_val b + unat br = mag_val a
         \<and> limbs_ok (mag_sub_loop a b br)"
  using assms
proof (induction a b br rule: mag_sub_loop.induct)
  case (1 b br)
  then show ?case by simp
next
  case (2 av a b br)
  let ?bv = "nth_or 0 b 0" and ?br = "if av < nth_or 0 b 0 + br then 1 else 0 :: u64"
  have b: "mag_val b = unat ?bv + 4294967296 * mag_val (tl b)" by (rule nth_or_0_tl)
  have bnd: "unat av < 4294967296" "unat ?bv < 4294967296"
    using 2 by (simp_all add: limbs_ok_nth_or)
  have limb: "unat ((av - ?bv - br) AND 0xFFFFFFFF) + unat ?bv + unat br =
      unat av + 4294967296 * unat ?br"
    using sub_limb [OF bnd 2(4)] by simp
  have "unat ((av - ?bv - br) AND 0xFFFFFFFF) < 4294967296" by (simp add: unat_lo32)
  then have le: "mag_val (tl b) + unat ?br \<le> mag_val a"
    using 2(5) b limb by simp
  have "unat ?br \<le> 1" by simp
  from 2(1) [OF refl refl _ _ this le] 2
  have "mag_val (mag_sub_loop a (tl b) ?br) + mag_val (tl b) + unat ?br = mag_val a
      \<and> limbs_ok (mag_sub_loop a (tl b) ?br)"
    by (simp add: limbs_ok_tl)
  then show ?case
    using limb b by (simp add: Let_def unat_lo32)
qed

lemma mag_sub_val:
  assumes "limbs_ok a" "limbs_ok b" "mag_val b \<le> mag_val a"
  shows "mag_val (mag_sub a b) = mag_val a - mag_val b" "limbs_ok (mag_sub a b)"
  using mag_sub_loop_val [of a b 0] assms by (auto simp: mag_sub_def)

lemma mag_sub_nonempty [simp]: "mag_sub a b = [] \<longleftrightarrow> a = []"
  by (metis mag_sub_def mag_trim_Nil_iff mag_sub_loop_length length_0_conv)

lemma mul_limb:
  fixes x y o1 c :: u64
  assumes "unat x < 4294967296" "unat y < 4294967296" "unat o1 < 4294967296" "unat c < 4294967296"
  shows "unat (x * y + o1 + c) = unat x * unat y + unat o1 + unat c"
    and "unat x * unat y + unat o1 + unat c < 18446744073709551616"
proof -
  have "unat x * unat y \<le> 4294967295 * 4294967295"
    using assms by (intro mult_le_mono) simp_all
  then show "unat x * unat y + unat o1 + unat c < 18446744073709551616"
    using assms by simp
  then show "unat (x * y + o1 + c) = unat x * unat y + unat o1 + unat c"
    by (simp add: unat_add_no_wrap64 unat_mult_no_wrap64)
qed

lemma mag_mul_row_val:
  assumes "limbs_ok b" "limbs_ok out" "unat ai < 4294967296" "unat carry < 4294967296"
    "length out = length b + Suc k" "mag_val (drop (length b) out) = 0"
  shows "mag_val (mag_mul_row ai b out carry) = mag_val out + unat ai * mag_val b + unat carry
         \<and> limbs_ok (mag_mul_row ai b out carry)
         \<and> length (mag_mul_row ai b out carry) = length out
         \<and> drop (Suc (length b)) (mag_mul_row ai b out carry) = drop (Suc (length b)) out"
  using assms
proof (induction ai b out carry rule: mag_mul_row.induct)
  case (1 ai o1 out carry)
  then show ?case by (simp add: unat_0_iff)
next
  case (2 ai bj b o1 out carry)
  let ?prod = "ai * bj + o1 + carry"
  have prod: "unat ?prod = unat ai * unat bj + unat o1 + unat carry"
    using 2 by (intro mul_limb) simp_all
  have hi: "unat (drop_bit 32 ?prod) < 4294967296"
    unfolding unat_hi32 using unat_lt64 [of ?prod] by (simp add: div_less_iff_less_mult)
  have "mag_val (mag_mul_row ai b out (drop_bit 32 ?prod))
        = mag_val out + unat ai * mag_val b + unat (drop_bit 32 ?prod)
      \<and> limbs_ok (mag_mul_row ai b out (drop_bit 32 ?prod))
      \<and> length (mag_mul_row ai b out (drop_bit 32 ?prod)) = length out
      \<and> drop (Suc (length b)) (mag_mul_row ai b out (drop_bit 32 ?prod)) = drop (Suc (length b)) out"
    by (rule 2(1) [OF refl]) (use 2 hi in auto)
  with prod unat_split32 [of ?prod] show ?case
    by (simp add: Let_def unat_lo32 algebra_simps)
next
  case (3 ai bj carry)
  then show ?case by simp
qed

lemma mag_mul_loop_val:
  assumes "limbs_ok a" "limbs_ok b" "limbs_ok out"
    "length out = length a + length b" "mag_val (drop (length b) out) = 0"
  shows "mag_val (mag_mul_loop a b out) = mag_val out + mag_val a * mag_val b
         \<and> limbs_ok (mag_mul_loop a b out) \<and> length (mag_mul_loop a b out) = length out"
  using assms
proof (induction a b out rule: mag_mul_loop.induct)
  case (1 b out)
  then show ?case by simp
next
  case (2 ai a b out)
  let ?row = "mag_mul_row ai b out 0"
  have row: "mag_val ?row = mag_val out + unat ai * mag_val b"
    "limbs_ok ?row" "length ?row = length out"
    "drop (Suc (length b)) ?row = drop (Suc (length b)) out"
    using mag_mul_row_val [of b out ai 0 "length a"] 2(2-) by simp_all
  then obtain o1 rest where r: "?row = o1 # rest"
    using 2(5) by (cases ?row) auto
  have "mag_val (drop (Suc (length b)) out) = 0"
  proof -
    have "drop (length b) out \<noteq> []" using 2(5) by simp
    then obtain y ys where "drop (length b) out = y # ys"
      by (cases "drop (length b) out") auto
    moreover from this have "drop (Suc (length b)) out = ys"
      by (simp add: drop_Suc drop_tl)
    ultimately show ?thesis using 2(6) by simp
  qed
  then have z: "mag_val (drop (length b) rest) = 0"
    using row(4) r by simp
  have "mag_val (mag_mul_loop a b rest) = mag_val rest + mag_val a * mag_val b
      \<and> limbs_ok (mag_mul_loop a b rest) \<and> length (mag_mul_loop a b rest) = length rest"
    using 2(1) [OF r] 2(2-5) row(2,3) r z by simp
  with r row show ?case by (simp add: algebra_simps)
qed

lemma limbs_ok_replicate0 [simp]: "limbs_ok (replicate n 0)"
  by (simp add: limbs_ok_def list_all_iff)

lemma mag_mul_val:
  assumes "limbs_ok a" "limbs_ok b"
  shows "mag_val (mag_mul a b) = mag_val a * mag_val b" "limbs_ok (mag_mul a b)"
  using mag_mul_loop_val [OF assms, of "replicate (length a + length b) 0"]
  by (simp_all add: mag_mul_def)

lemma mag_mul_nonempty:
  assumes "limbs_ok a" "limbs_ok b" "a \<noteq> []"
  shows "mag_mul a b \<noteq> []"
proof -
  have "length (mag_mul_loop a b (replicate (length a + length b) 0)) = length a + length b"
    using mag_mul_loop_val [OF assms(1,2)] by simp
  then have "mag_mul_loop a b (replicate (length a + length b) 0) \<noteq> []"
    using assms(3) by (metis add_is_0 length_0_conv list.size(3))
  then show ?thesis by (simp add: mag_mul_def)
qed

subsection \<open>Comparison\<close>

lemma digit_less: "x < P \<Longrightarrow> m < n \<Longrightarrow> x + P * m < y + P * (n :: nat)"
proof -
  assume "x < P" "m < n"
  then have "x + P * m < P * Suc m" by simp
  also have "\<dots> \<le> P * n" using \<open>m < n\<close> by (intro mult_le_mono2) simp
  finally show ?thesis by simp
qed

lemma mag_val_take_Suc:
  "i < length xs \<Longrightarrow> mag_val (take (Suc i) xs) = mag_val (take i xs) + 2 ^ (32 * i) * unat (xs ! i)"
  by (simp add: take_Suc_conv_app_nth mag_val_append)

lemma mag_compare_from_sgn:
  assumes "limbs_ok a" "limbs_ok b" "i \<le> length a" "i \<le> length b"
  shows "mag_compare_from a b i = sgn (int (mag_val (take i a)) - int (mag_val (take i b)))"
  using assms
proof (induction a b i rule: mag_compare_from.induct)
  case (1 a b)
  then show ?case by simp
next
  case (2 a b i)
  let ?P = "2 ^ (32 * i) :: nat"
  have bnd: "mag_val (take i a) < ?P" "mag_val (take i b) < ?P"
    using mag_val_bound [of "take i a"] mag_val_bound [of "take i b"] 2
    by (simp_all add: limbs_ok_take min_def)
  have ta: "mag_val (take (Suc i) a) = mag_val (take i a) + ?P * unat (a ! i)"
    and tb: "mag_val (take (Suc i) b) = mag_val (take i b) + ?P * unat (b ! i)"
    using 2 by (simp_all add: mag_val_take_Suc)
  consider "a ! i = b ! i" | "a ! i < b ! i" | "b ! i < a ! i" by force
  then show ?case
  proof cases
    case 1
    then show ?thesis using 2 ta tb by simp
  next
    case a: 2
    then have "mag_val (take (Suc i) a) < mag_val (take (Suc i) b)"
      unfolding ta tb using bnd by (intro digit_less) (simp_all add: word_less_nat_alt)
    then show ?thesis using a by auto
  next
    case b: 3
    then have "mag_val (take (Suc i) b) < mag_val (take (Suc i) a)"
      unfolding ta tb using bnd by (intro digit_less) (simp_all add: word_less_nat_alt)
    then show ?thesis using b by (auto simp: sgn_if)
  qed
qed

lemma mag_len_less_val:
  assumes "limbs_ok a" "a \<noteq> []" "mag_len a (length a) < mag_len b (length b)"
  shows "mag_val a < mag_val b"
proof -
  let ?m = "mag_len a (length a)" and ?n = "mag_len b (length b)"
  have "0 < ?m" using assms mag_len_pos [of "length a" a] by simp
  then have n: "1 < ?n" using assms by simp
  have "mag_val a < 2 ^ (32 * ?m)"
    using mag_val_bound [OF limbs_ok_take [OF assms(1), of ?m]] mag_len_le [of a "length a"]
    by (simp add: mag_val_take_len min.absorb2)
  also have "\<dots> \<le> 2 ^ (32 * (?n - 1))" using assms n by (intro power_increasing) auto
  also have "\<dots> \<le> 2 ^ (32 * (?n - 1)) * unat (b ! (?n - 1))"
    using mag_len_last [OF n] by (simp add: Suc_le_eq unat_gt_0)
  also have "\<dots> \<le> mag_val (take (Suc (?n - 1)) b)"
    using mag_len_le [of b "length b"] n by (subst mag_val_take_Suc) auto
  also have "\<dots> = mag_val b" using n mag_val_take_len [of b] by simp
  finally show ?thesis .
qed

lemma mag_compare_sgn:
  assumes "limbs_ok a" "limbs_ok b" "a \<noteq> []" "b \<noteq> []"
  shows "mag_compare a b = sgn (int (mag_val a) - int (mag_val b))"
proof -
  consider "mag_len a (length a) = mag_len b (length b)"
    | "mag_len a (length a) < mag_len b (length b)" | "mag_len b (length b) < mag_len a (length a)"
    by linarith
  then show ?thesis
  proof cases
    case 1
    then show ?thesis
      using mag_compare_from_sgn [OF assms(1,2), of "mag_len a (length a)"]
        mag_len_le [of a "length a"] mag_len_le [of b "length b"] mag_val_take_len [of a] mag_val_take_len [of b]
      by (simp add: mag_compare_def Let_def)
  next
    case 2
    then show ?thesis using mag_len_less_val [of a b] assms by (simp add: mag_compare_def Let_def)
  next
    case 3
    then show ?thesis using mag_len_less_val [of b a] assms by (simp add: mag_compare_def Let_def)
  qed
qed

lemma unat_lt32_iff: "unat (w :: u64) < 4294967296 \<longleftrightarrow> take_bit 32 w = w"
proof -
  have "unat (take_bit 32 w) = unat w mod 4294967296"
    unfolding unsigned_take_bit_eq by (simp add: take_bit_eq_mod)
  then show ?thesis
    by (metis mod_less mod_less_divisor word_eq_iff_unat zero_less_numeral)
qed

subsection \<open>Long division, one bit at a time\<close>

lemma or_1_even: "even (x :: u64) \<Longrightarrow> unat b \<le> 1 \<Longrightarrow> x OR b = x + b"
proof -
  assume x: "even x" and b: "unat b \<le> 1"
  then have "unat b = 0 \<or> unat b = 1" by arith
  then have "b = 0 \<or> b = 1" by (simp add: word_eq_iff_unat)
  with x show ?thesis
    by (auto intro!: disjunctive_add [symmetric] simp: bit_1_iff bit_0)
qed

lemma unat_and_1: "unat (x AND 1 :: u64) = unat x mod 2"
  by (simp add: and_one_eq unat_mod)

lemma shl1_limb:
  fixes r c :: u64
  assumes "unat r < 4294967296" "unat c \<le> 1"
  shows "unat ((push_bit 1 r OR c) AND 0xFFFFFFFF) + 4294967296 * unat (drop_bit 31 r AND 1)
         = 2 * unat r + unat c"
proof -
  have "push_bit 1 r OR c = push_bit 1 r + c"
    by (rule or_1_even) (use assms in simp_all)
  also have "\<dots> = 2 * r + c" by simp
  finally have e: "push_bit 1 r OR c = 2 * r + c" .
  have v: "unat (2 * r + c) = 2 * unat r + unat c"
    using assms by (simp add: unat_add_no_wrap64 unat_mult_no_wrap64)
  have "unat (drop_bit 31 r) = unat r div 2147483648"
    by (simp add: unat_drop_bit_eq drop_bit_eq_div unat_div)
  moreover have "unat r div 2147483648 < 2" using assms(1) by simp
  ultimately have h: "unat (drop_bit 31 r AND 1) = unat r div 2147483648"
    unfolding unat_and_1 by simp
  have "(2 * unat r + unat c) div 2 div 2147483648 = (2 * unat r + unat c) div 4294967296"
    by (simp flip: div_mult2_eq)
  moreover have "(2 * unat r + unat c) div 2 = unat r" using assms(2) by simp
  ultimately have d: "unat r div 2147483648 = (2 * unat r + unat c) div 4294967296" by simp
  show ?thesis unfolding e unat_lo32 v h d by (rule mod_mult_div_eq)
qed

lemma div_pow_Suc: "(n :: nat) div 2 ^ Suc i = n div 2 ^ i div 2"
  by (simp only: power_Suc2 div_mult2_eq)

lemma double_half_le: "R \<le> A div 2 \<Longrightarrow> 2 * R + A mod 2 \<le> (A :: nat)"
  by presburger

lemma mag_shl1_length [simp]: "length (mag_shl1 rem c) = length rem"
  by (induction rem c rule: mag_shl1.induct) simp_all

lemma mag_shl1_carry:
  "limbs_ok rem \<Longrightarrow> unat c \<le> 1 \<Longrightarrow>
     limbs_ok (mag_shl1 rem c) \<and>
     (\<exists>k. mag_val (mag_shl1 rem c) + 2 ^ (32 * length rem) * k = 2 * mag_val rem + unat c)"
proof (induction rem c rule: mag_shl1.induct)
  case (1 carry)
  then show ?case by simp
next
  case (2 r rem carry)
  let ?c = "drop_bit 31 r AND 1"
  have c: "unat ?c \<le> 1" unfolding unat_and_1 by simp
  obtain k where k: "mag_val (mag_shl1 rem ?c) + 2 ^ (32 * length rem) * k = 2 * mag_val rem + unat ?c"
    and ok: "limbs_ok (mag_shl1 rem ?c)"
    using 2(1) 2(2) c by auto
  have limb: "unat ((push_bit 1 r OR carry) AND 0xFFFFFFFF) + 4294967296 * unat ?c = 2 * unat r + unat carry"
    by (rule shl1_limb) (use 2 in simp_all)
  have "mag_val (mag_shl1 (r # rem) carry) + 2 ^ (32 * length (r # rem)) * k
      = unat ((push_bit 1 r OR carry) AND 0xFFFFFFFF)
        + 4294967296 * (mag_val (mag_shl1 rem ?c) + 2 ^ (32 * length rem) * k)"
    by (simp add: power_add algebra_simps)
  also have "\<dots> = 2 * mag_val (r # rem) + unat carry"
    unfolding k using limb by simp
  finally show ?case using ok by (auto simp: unat_lo32)
qed

lemma mag_shl1_val:
  assumes "limbs_ok rem" "unat c \<le> 1" "2 * mag_val rem + unat c < 2 ^ (32 * length rem)"
  shows "mag_val (mag_shl1 rem c) = 2 * mag_val rem + unat c" "limbs_ok (mag_shl1 rem c)"
proof -
  obtain k where k: "mag_val (mag_shl1 rem c) + 2 ^ (32 * length rem) * k = 2 * mag_val rem + unat c"
    and "limbs_ok (mag_shl1 rem c)"
    using mag_shl1_carry assms(1,2) by blast
  then show "limbs_ok (mag_shl1 rem c)" by simp
  have "k = 0"
  proof (rule ccontr)
    assume "k \<noteq> 0"
    then have "2 ^ (32 * length rem) * 1 \<le> (2 :: nat) ^ (32 * length rem) * k"
      by (intro mult_le_mono2) simp
    then show False using k assms(3) by linarith
  qed
  then show "mag_val (mag_shl1 rem c) = 2 * mag_val rem + unat c" using k by simp
qed

lemma mag_val_split:
  "k < length a \<Longrightarrow>
     mag_val a = mag_val (take k a) + 2 ^ (32 * k) * (unat (a ! k) + 4294967296 * mag_val (drop (Suc k) a))"
  by (subst id_take_nth_drop [of k a]) (simp_all add: mag_val_append min_def)

lemma div_mod2_low:
  fixes x h :: nat
  assumes "j < 32"
  shows "(x + 4294967296 * h) div 2 ^ j mod 2 = x div 2 ^ j mod 2"
proof -
  have p: "(4294967296 :: nat) = 2 ^ j * (2 * 2 ^ (31 - j))"
    using assms by (simp flip: power_Suc power_add)
  have "(x + 4294967296 * h) div 2 ^ j = (x + 2 ^ j * (2 * 2 ^ (31 - j) * h)) div 2 ^ j"
    by (simp only: p mult.assoc)
  also have "\<dots> = x div 2 ^ j + 2 * 2 ^ (31 - j) * h" by simp
  finally show ?thesis by (simp only: mult.assoc mod_mult_self2)
qed

lemma mag_val_bit:
  assumes "limbs_ok a" "idx div 32 < length a"
  shows "mag_val a div 2 ^ idx mod 2 = unat (a ! (idx div 32)) div 2 ^ (idx mod 32) mod 2"
proof -
  let ?k = "idx div 32" and ?j = "idx mod 32"
  let ?hi = "unat (a ! ?k) + 4294967296 * mag_val (drop (Suc ?k) a)"
  have low: "mag_val (take ?k a) < 2 ^ (32 * ?k)"
    using mag_val_bound [OF limbs_ok_take [OF assms(1), of ?k]] assms(2) by simp
  have "mag_val a div 2 ^ idx = mag_val a div 2 ^ (32 * ?k) div 2 ^ ?j"
    by (simp only: div_mult2_eq [symmetric] power_add [symmetric] mult_div_mod_eq)
  also have "mag_val a div 2 ^ (32 * ?k) = ?hi"
    using low by (subst mag_val_split [OF assms(2)]) simp
  finally show ?thesis using div_mod2_low [of ?j] by simp
qed

lemma unat_bit_of_limb:
  "unat (drop_bit j x AND 1 :: u64) = unat x div 2 ^ j mod 2"
  unfolding unat_and_1 unat_drop_bit_eq by (simp only: drop_bit_eq_div)

lemma mag_val_set_bit:
  assumes "limbs_ok q" "idx div 32 < length q" "mag_val q div 2 ^ idx mod 2 = 0"
  defines "q' \<equiv> q[idx div 32 := q ! (idx div 32) OR push_bit (idx mod 32) 1]"
  shows "mag_val q' = mag_val q + 2 ^ idx" "limbs_ok q'"
proof -
  let ?k = "idx div 32" and ?j = "idx mod 32"
  let ?x = "q ! ?k"
  have j: "?j < 32" by simp
  have x: "unat ?x < 4294967296" using assms(1,2) by (simp add: limbs_ok_def list_all_length)
  have "unat ?x div 2 ^ ?j mod 2 = 0" using mag_val_bit [OF assms(1,2)] assms(3) by simp
  then have "\<not> bit (unat ?x) ?j"
    by (simp add: bit_iff_odd even_iff_mod_2_eq_zero)
  then have nb: "\<not> bit ?x ?j"
    by (simp add: bit_unsigned_iff)
  have or: "?x OR push_bit ?j 1 = ?x + push_bit ?j 1"
    using nb by (intro disjunctive_add [symmetric]) (auto simp: bit_simps)
  have lt: "unat (?x OR push_bit ?j 1) < 4294967296"
  proof -
    have "take_bit 32 ?x = ?x" using x by (simp add: unat_lt32_iff)
    moreover have "take_bit 32 (push_bit ?j 1 :: u64) = push_bit ?j 1"
      using j by (auto intro!: bit_word_eqI simp: bit_simps)
    ultimately show ?thesis by (simp add: unat_lt32_iff)
  qed
  have p: "unat (push_bit ?j 1 :: u64) = 2 ^ ?j"
  proof -
    have "(2 :: nat) ^ ?j < 2 ^ 64" using j by (intro power_strict_increasing) auto
    then show ?thesis
      unfolding unsigned_push_bit_eq by (simp add: push_bit_eq_mult take_bit_nat_eq_self)
  qed
  have e: "unat (?x OR push_bit ?j 1) = unat ?x + 2 ^ ?j"
  proof -
    have "(2 :: nat) ^ ?j \<le> 2 ^ 31" using j by (intro power_increasing) auto
    then show ?thesis unfolding or using x p by (subst unat_add_no_wrap64) simp_all
  qed
  have "mag_val q' = mag_val (take ?k q) + 2 ^ (32 * ?k) * (unat (?x OR push_bit ?j 1) + 4294967296 * mag_val (drop (Suc ?k) q))"
    using assms(2) by (subst mag_val_split [of ?k]) (simp_all add: q'_def)
  also have "\<dots> = mag_val q + 2 ^ (32 * ?k) * 2 ^ ?j"
    unfolding e using mag_val_split [OF assms(2)] by (simp add: algebra_simps)
  also have "\<dots> = mag_val q + 2 ^ idx"
    by (simp only: power_add [symmetric] mult_div_mod_eq)
  finally show "mag_val q' = mag_val q + 2 ^ idx" .
  show "limbs_ok q'"
    using assms(1) lt by (simp add: q'_def limbs_ok_def list_all_update)
qed


lemma mag_sub_in_place:
  assumes "limbs_ok r" "limbs_ok b" "mag_val b \<le> mag_val r"
  defines "n \<equiv> mag_len r (length r)"
  shows "mag_val (mag_sub_loop (take n r) b 0 @ drop n r) = mag_val r - mag_val b"
    "limbs_ok (mag_sub_loop (take n r) b 0 @ drop n r)"
proof -
  have v: "mag_val (take n r) = mag_val r" by (simp add: n_def mag_val_take_len)
  have d: "drop n r = replicate (length r - n) 0" by (simp add: n_def drop_mag_len)
  have "mag_val (mag_sub_loop (take n r) b 0) + mag_val b = mag_val r \<and> limbs_ok (mag_sub_loop (take n r) b 0)"
    using mag_sub_loop_val [of "take n r" b 0] assms(1-3) v by (simp add: limbs_ok_take)
  then show "mag_val (mag_sub_loop (take n r) b 0 @ drop n r) = mag_val r - mag_val b"
    "limbs_ok (mag_sub_loop (take n r) b 0 @ drop n r)"
    unfolding d by (auto simp: mag_val_append)
qed

text \<open>
  The state of the loop before bit \<open>idx - 1\<close> is processed: the bits of the dividend
  from \<open>idx\<close> upwards are divided, and the quotient has no bit below \<open>idx\<close>.
\<close>

definition divmod_inv :: "nat \<Rightarrow> u64 list \<Rightarrow> u64 list \<Rightarrow> u64 list \<Rightarrow> u64 list \<Rightarrow> bool" where
  "divmod_inv idx a b q r \<longleftrightarrow>
     limbs_ok q \<and> limbs_ok r \<and> length q = length a \<and> length r = length a \<and>
     mag_val r < mag_val b \<and>
     (\<exists>Q. mag_val q = Q * 2 ^ idx \<and> mag_val a div 2 ^ idx = Q * mag_val b + mag_val r)"

lemma divmod_invI:
  assumes "limbs_ok q" "limbs_ok r" "length q = length a" "length r = length a"
    "mag_val r < mag_val b" "mag_val q = Q * 2 ^ idx" "mag_val a div 2 ^ idx = Q * mag_val b + mag_val r"
  shows "divmod_inv idx a b q r"
  using assms unfolding divmod_inv_def by blast

lemma divmod_shift_in:
  assumes "divmod_inv (Suc idx) a b q r" "limbs_ok a" "idx < 32 * length a"
  defines "r1 \<equiv> mag_shl1 r 0"
  defines "r2 \<equiv> r1[0 := r1 ! 0 OR (drop_bit (idx mod 32) (a ! (idx div 32)) AND 1)]"
  shows "mag_val r2 = 2 * mag_val r + mag_val a div 2 ^ idx mod 2" "limbs_ok r2"
    "length r2 = length a"
proof -
  have inv: "limbs_ok r" "length r = length a"
    and Q: "\<exists>Q. mag_val a div 2 ^ Suc idx = Q * mag_val b + mag_val r"
    using assms(1) by (auto simp: divmod_inv_def)
  let ?b = "drop_bit (idx mod 32) (a ! (idx div 32)) AND 1"
  have idx: "idx div 32 < length a" using assms(3) by (simp add: div_less_iff_less_mult mult.commute)
  have bit: "unat ?b = mag_val a div 2 ^ idx mod 2"
    unfolding mag_val_bit [OF assms(2) idx] by (rule unat_bit_of_limb)
  have "mag_val r \<le> mag_val a div 2 ^ Suc idx" using Q by auto
  moreover have "mag_val a div 2 ^ Suc idx = mag_val a div 2 ^ idx div 2"
    by (rule div_pow_Suc)
  ultimately have "2 * mag_val r + unat ?b \<le> mag_val a div 2 ^ idx"
    unfolding bit by (metis double_half_le)
  also have "\<dots> \<le> mag_val a" by simp
  also have "\<dots> < 2 ^ (32 * length a)" by (rule mag_val_bound [OF assms(2)])
  finally have lt: "2 * mag_val r + unat ?b < 2 ^ (32 * length r)" using inv by simp
  have r1: "mag_val r1 = 2 * mag_val r" "limbs_ok r1"
    using mag_shl1_val [of r 0] inv lt by (simp_all add: r1_def)
  obtain x xs where x: "r1 = x # xs" using idx inv by (cases r1) (auto simp: r1_def simp flip: length_0_conv)
  have "even (mag_val r1)" using r1 by simp
  then have "even (unat x)" unfolding x by simp
  then have "\<not> bit (unat x) 0" by (simp add: bit_0)
  then have "\<not> bit x 0" unfolding bit_unsigned_iff by simp
  then have ev: "even x" by (simp add: bit_0)
  have b1: "unat ?b \<le> 1" unfolding bit by simp
  have xl: "unat x < 4294967296" using r1 x by simp
  have or: "x OR ?b = x + ?b" by (rule or_1_even [OF ev b1])
  have ux: "unat (x OR ?b) = unat x + unat ?b"
    unfolding or using xl b1 by (simp add: unat_add_no_wrap64)
  show "mag_val r2 = 2 * mag_val r + mag_val a div 2 ^ idx mod 2"
    unfolding r2_def x using r1(1) x ux bit by simp
  have "unat x + unat ?b < 4294967296" using \<open>even (unat x)\<close> b1 xl by presburger
  then show "limbs_ok r2" unfolding r2_def x using r1(2) x ux by simp
  show "length r2 = length a" using inv by (simp add: r2_def r1_def)
qed

lemma divmod_step_arith:
  fixes A B R Q :: nat
  assumes "A div 2 = Q * B + R" "R < B"
  shows "2 * R + A mod 2 < B \<Longrightarrow> A = (2 * Q) * B + (2 * R + A mod 2)"
    and "B \<le> 2 * R + A mod 2 \<Longrightarrow> A = (2 * Q + 1) * B + (2 * R + A mod 2 - B)"
    and "2 * R + A mod 2 - B < B"
proof -
  have "A = 2 * (Q * B + R) + A mod 2" using assms(1) by (metis mult_div_mod_eq)
  then show "2 * R + A mod 2 < B \<Longrightarrow> A = (2 * Q) * B + (2 * R + A mod 2)"
    and "B \<le> 2 * R + A mod 2 \<Longrightarrow> A = (2 * Q + 1) * B + (2 * R + A mod 2 - B)"
    by (simp_all add: algebra_simps)
  show "2 * R + A mod 2 - B < B" using assms(2) by presburger
qed

lemma mag_divmod_loop_inv:
  assumes "limbs_ok a" "limbs_ok b" "b \<noteq> []" "idx \<le> 32 * length a" "divmod_inv idx a b q r"
  shows "case mag_divmod_loop idx a b q r of (q', r') \<Rightarrow> divmod_inv 0 a b q' r'"
  using assms
proof (induction idx a b q r rule: mag_divmod_loop.induct)
  case (1 a b quot rem)
  then show ?case by simp
next
  case (2 idx a b q r)
  let ?bit = "drop_bit (idx mod 32) (a ! (idx div 32)) AND 1"
  let ?r2 = "(mag_shl1 r 0)[0 := mag_shl1 r 0 ! 0 OR ?bit]"
  let ?n = "mag_len ?r2 (length ?r2)"
  let ?A = "mag_val a div 2 ^ idx"
  note prems = 2(3-7)
  have idx: "idx div 32 < length a"
    using prems(4) by (simp add: div_less_iff_less_mult mult.commute)
  have r2: "mag_val ?r2 = 2 * mag_val r + ?A mod 2" "limbs_ok ?r2" "length ?r2 = length a"
    using divmod_shift_in [OF prems(5,1)] prems(4) by simp_all
  obtain Q where Q: "mag_val q = Q * 2 ^ Suc idx" "?A div 2 = Q * mag_val b + mag_val r"
    and inv: "limbs_ok q" "length q = length a" "mag_val r < mag_val b"
    using prems(5) unfolding divmod_inv_def div_pow_Suc by blast
  note arith = divmod_step_arith [OF Q(2) inv(3)]
  have ne: "take ?n ?r2 \<noteq> []" 
    using mag_trim_Nil_iff [of ?r2] r2(3) idx by (auto simp: mag_trim_def simp flip: length_0_conv)
  have cmp: "mag_compare (take ?n ?r2) b \<ge> 0 \<longleftrightarrow> mag_val b \<le> mag_val ?r2"
    unfolding mag_compare_sgn [OF limbs_ok_take [OF r2(2)] prems(2) ne prems(3)] mag_val_take_len
    by (simp add: sgn_if)
  show ?case
  proof (cases "mag_val b \<le> mag_val ?r2")
    case True
    let ?q = "q[idx div 32 := q ! (idx div 32) OR push_bit (idx mod 32) 1]"
    let ?r = "mag_sub_loop (take ?n ?r2) b 0 @ drop ?n ?r2"
    have iq: "idx div 32 < length q" using idx inv(2) by simp
    have "mag_val q div 2 ^ idx = 2 * Q" unfolding Q(1) by simp
    then have b0: "mag_val q div 2 ^ idx mod 2 = 0" by simp
    have q: "mag_val ?q = (2 * Q + 1) * 2 ^ idx" "limbs_ok ?q"
      unfolding mag_val_set_bit(1) [OF inv(1) iq b0] Q(1)
      by (simp, rule mag_val_set_bit(2) [OF inv(1) iq b0])
    have r: "mag_val ?r = 2 * mag_val r + ?A mod 2 - mag_val b" "limbs_ok ?r"
      unfolding mag_sub_in_place(1) [OF r2(2) prems(2) True] r2(1)
      by (simp_all only: mag_sub_in_place(2) [OF r2(2) prems(2) True])
    have len: "length ?r = length a"
      unfolding length_append mag_sub_loop_length length_take length_drop r2(3)
      using mag_len_le [of ?r2 "length ?r2"] r2(3) by linarith
    have step: "divmod_inv idx a b ?q ?r"
    proof (rule divmod_invI [OF q(2) r(2) _ len _ q(1)])
      show "length ?q = length a" unfolding length_list_update by (rule inv(2))
      show "mag_val ?r < mag_val b" unfolding r(1) by (rule arith(3))
      show "?A = (2 * Q + 1) * mag_val b + mag_val ?r"
        unfolding r(1) by (rule arith(2) [OF True [unfolded r2(1)]])
    qed
    have c: "mag_compare (take ?n ?r2) b \<ge> 0" using cmp True by blast
    show ?thesis
      unfolding mag_divmod_loop.simps Let_def if_P [OF c]
      by (rule 2(1) [OF refl refl refl c prems(1-3) Suc_leD [OF prems(4)] step])
  next
    case False
    then have lt: "2 * mag_val r + ?A mod 2 < mag_val b" unfolding r2(1) by simp
    have step: "divmod_inv idx a b q ?r2"
    proof (rule divmod_invI [OF inv(1) r2(2) inv(2) r2(3)])
      show "mag_val ?r2 < mag_val b" unfolding r2(1) by (rule lt)
      show "mag_val q = 2 * Q * 2 ^ idx" unfolding Q(1) by simp
      show "?A = 2 * Q * mag_val b + mag_val ?r2" unfolding r2(1) by (rule arith(1) [OF lt])
    qed
    have c: "\<not> mag_compare (take ?n ?r2) b \<ge> 0" using cmp False by blast
    show ?thesis
      unfolding mag_divmod_loop.simps Let_def if_not_P [OF c]
      by (rule 2(2) [OF refl refl refl c prems(1-3) Suc_leD [OF prems(4)] step])
  qed
qed

lemma mag_divmod_val:
  assumes "limbs_ok a" "limbs_ok b" "mag_val b \<noteq> 0" "mag_divmod a b = (q, r)"
  shows "mag_val q = mag_val a div mag_val b" "mag_val r = mag_val a mod mag_val b"
    "limbs_ok q" "limbs_ok r" "a \<noteq> [] \<Longrightarrow> q \<noteq> []" "a \<noteq> [] \<Longrightarrow> r \<noteq> []"
proof -
  let ?a = "mag_trim a" and ?b = "mag_trim b"
  let ?z = "replicate (length ?a) 0 :: u64 list"
  obtain q0 r0 where qr: "mag_divmod_loop (32 * length ?a) ?a ?b ?z ?z = (q0, r0)" by fastforce
  have "b \<noteq> []" using assms(3) by auto
  have "mag_val ?a div 2 ^ (32 * length ?a) = 0"
    using mag_val_bound [of ?a] assms(1) by simp
  then have "divmod_inv (32 * length ?a) ?a ?b ?z ?z"
    using assms(3) by (auto simp: divmod_inv_def)
  then have inv: "divmod_inv 0 ?a ?b q0 r0"
    using mag_divmod_loop_inv [of ?a ?b "32 * length ?a" ?z ?z] assms \<open>b \<noteq> []\<close> qr by simp
  have e: "q = mag_trim q0" "r = mag_trim r0"
    using assms(4) qr by (simp_all add: mag_divmod_def Let_def)
  have "mag_val a = mag_val q0 * mag_val b + mag_val r0" "mag_val r0 < mag_val b"
    using inv by (auto simp: divmod_inv_def)
  then show "mag_val q = mag_val a div mag_val b" "mag_val r = mag_val a mod mag_val b"
    unfolding e by (simp_all add: mult.commute)
  show "limbs_ok q" "limbs_ok r"
    unfolding e using inv by (auto simp: divmod_inv_def)
  have "length q0 = length ?a" "length r0 = length ?a"
    using inv by (simp_all add: divmod_inv_def)
  then show "a \<noteq> [] \<Longrightarrow> q \<noteq> []" "a \<noteq> [] \<Longrightarrow> r \<noteq> []"
    unfolding e mag_trim_Nil_iff by (metis length_0_conv mag_trim_Nil_iff)+
qed

subsection \<open>One-word multipliers and divisors\<close>

lemma mag_carry_out_val:
  assumes "unat carry < 4294967296"
  shows "mag_val (mag_carry_out (Suc k) carry) = unat carry" "limbs_ok (mag_carry_out (Suc k) carry)"
proof -
  have "unat (drop_bit 32 carry) = 0" unfolding unat_hi32 using assms by simp
  then have "drop_bit 32 carry = 0" by (simp only: word_eq_iff_unat unsigned_0)
  then show "mag_val (mag_carry_out (Suc k) carry) = unat carry" "limbs_ok (mag_carry_out (Suc k) carry)"
    using assms by (cases k; simp add: unat_lo32)+
qed

lemma mag_mul_small_loop_val:
  assumes "limbs_ok limbs" "unat mul < 4294967296" "unat carry < 4294967296"
  shows "mag_val (mag_mul_small_loop limbs mul carry) = mag_val limbs * unat mul + unat carry
         \<and> limbs_ok (mag_mul_small_loop limbs mul carry)"
  using assms
proof (induction limbs mul carry rule: mag_mul_small_loop.induct)
  case (1 mul carry)
  then show ?case
    unfolding mag_mul_small_loop.simps numeral_2_eq_2 by (simp only: mag_carry_out_val) simp
next
  case (2 x limbs mul carry)
  let ?prod = "x * mul + carry"
  have prod: "unat ?prod = unat x * unat mul + unat carry"
    using mul_limb [of x mul 0 carry] 2(2-) by simp
  have hi: "unat (drop_bit 32 ?prod) < 4294967296"
    unfolding unat_hi32 using unat_lt64 [of ?prod] by (simp add: div_less_iff_less_mult)
  have "mag_val (mag_mul_small_loop limbs mul (drop_bit 32 ?prod)) = mag_val limbs * unat mul + unat (drop_bit 32 ?prod)
      \<and> limbs_ok (mag_mul_small_loop limbs mul (drop_bit 32 ?prod))"
    by (rule 2(1) [OF refl _ 2(3) hi]) (use 2(2) in simp)
  then show ?case
    using prod unat_split32 [of ?prod] by (simp add: Let_def unat_lo32 algebra_simps)
qed

lemma mag_mul_small_add_small_val:
  assumes "limbs_ok limbs" "unat mul < 4294967296" "unat add < 4294967296"
  shows "mag_val (mag_mul_small_add_small limbs mul add) = mag_val limbs * unat mul + unat add"
    "limbs_ok (mag_mul_small_add_small limbs mul add)"
  using mag_mul_small_loop_val [OF assms] by (simp_all add: mag_mul_small_add_small_def)

lemma mag_mul_small_add_small_nonempty: "limbs \<noteq> [] \<Longrightarrow> mag_mul_small_add_small limbs mul add \<noteq> []"
  by (cases limbs) (simp_all add: mag_mul_small_add_small_def Let_def)

lemma shl32_or:
  fixes r x :: u64
  assumes "unat r < 4294967296" "unat x < 4294967296"
  shows "unat (push_bit 32 r OR x) = 4294967296 * unat r + unat x"
proof -
  have x: "take_bit 32 x = x" using assms(2) by (simp add: unat_lt32_iff)
  have nb: "\<not> bit x n" if "32 \<le> n" for n
    using that by (subst x [symmetric]) (simp add: bit_simps)
  have "push_bit 32 r OR x = push_bit 32 r + x"
    by (rule disjunctive_add [symmetric]) (use nb in \<open>auto simp: bit_simps not_le\<close>)
  moreover have "push_bit 32 r = r * 4294967296" by (simp add: push_bit_eq_mult)
  ultimately have e: "push_bit 32 r OR x = r * 4294967296 + x" by metis
  have m: "unat (r * 4294967296) = unat r * 4294967296"
    using assms(1) by (subst unat_mult_no_wrap64) simp_all
  show ?thesis unfolding e using m assms by (subst unat_add_no_wrap64) simp_all
qed

lemma mag_divmod_small_loop_val:
  assumes "limbs_ok limbs" "0 < unat d" "unat d < 4294967296" "mag_divmod_small_loop limbs d = (q, r)"
  shows "mag_val limbs = mag_val q * unat d + unat r \<and> unat r < unat d \<and> limbs_ok q \<and> length q = length limbs"
  using assms
proof (induction limbs d arbitrary: q r rule: mag_divmod_small_loop.induct)
  case (1 d)
  then show ?case by simp
next
  case (2 x limbs d)
  obtain q0 r0 where qr: "mag_divmod_small_loop limbs d = (q0, r0)" by fastforce
  let ?cur = "push_bit 32 r0 OR x"
  have IH: "mag_val limbs = mag_val q0 * unat d + unat r0" "unat r0 < unat d" "limbs_ok q0"
    "length q0 = length limbs"
    using 2(1) [OF _ 2(3,4) qr] 2(2) by simp_all
  have cur: "unat ?cur = 4294967296 * unat r0 + unat x"
    by (rule shl32_or) (use IH 2 in simp_all)
  have e: "q = ?cur div d # q0" "r = ?cur mod d"
    using 2(5) qr by (simp_all add: Let_def)
  have "unat ?cur < unat d * 4294967296" unfolding cur using IH(2) 2(2) by simp
  then have "unat (?cur div d) < 4294967296"
    unfolding unat_div by (simp add: div_less_iff_less_mult 2(3) mult.commute)
  moreover have "mag_val (x # limbs) = mag_val q * unat d + unat r"
  proof -
    have "mag_val (x # limbs) = 4294967296 * mag_val q0 * unat d + unat ?cur"
      unfolding cur using IH(1) by (simp add: algebra_simps)
    also have "unat ?cur = unat (?cur div d) * unat d + unat (?cur mod d)"
      unfolding unat_div unat_mod by simp
    finally show ?thesis unfolding e by (simp add: algebra_simps)
  qed
  moreover have "unat r < unat d" unfolding e unat_mod using 2(3) by simp
  ultimately show ?case using IH e by simp
qed

lemma mag_divmod_small_val:
  assumes "limbs_ok limbs" "0 < unat d" "unat d < 4294967296" "mag_divmod_small limbs d = (q, r)"
  shows "mag_val q = mag_val limbs div unat d" "unat r = mag_val limbs mod unat d" "limbs_ok q"
    "length q \<le> length limbs" "limbs \<noteq> [] \<Longrightarrow> q \<noteq> []"
proof -
  obtain q0 where q0: "mag_divmod_small_loop limbs d = (q0, r)" and q: "q = mag_trim q0"
    using assms(4) by (auto simp: mag_divmod_small_def split: prod.splits)
  note v = mag_divmod_small_loop_val [OF assms(1-3) q0]
  show "mag_val q = mag_val limbs div unat d" "unat r = mag_val limbs mod unat d" "limbs_ok q"
    using v q by (simp_all add: mult.commute)
  show "length q \<le> length limbs" using v q length_trim_le [of q0] by simp
  show "limbs \<noteq> [] \<Longrightarrow> q \<noteq> []" using v q by (metis length_0_conv mag_trim_Nil_iff)
qed

end
