(* ===== verification/Values.thy ===== *)
theory Values
  imports Limbs
begin

unbundle bit_operations_syntax

text \<open>
  The tagged 64-bit value \<open>lisp_val_t\<close> of \<^verbatim>\<open>src/c/runtime.h\<close>. The low four bits are
  the tag: immediates have bit 0 clear, addresses have it set. A fixnum is a sign and
  magnitude: bit 63 the sign, bits 4 to 62 a 59-bit magnitude; there is no negative
  zero. Characters and single-floats keep their 32 bits in the upper half.

  The pure routines work on \<open>lval\<close>, the value an immutable \<open>lisp_val_t\<close> stands for: the
  word itself for an immediate, the contents of the heap object otherwise. Routines that
  depend on the identity or mutation of heap objects are modelled over an explicit store
  in theory \<open>Store\<close>.
\<close>

subsection \<open>Tags\<close>

definition TAG_MASK :: u64 where [const_defs]: "TAG_MASK = 0xF"
definition TAG_IS_POINTER_BIT :: u64 where [const_defs]: "TAG_IS_POINTER_BIT = 0x1"
definition TAG_FIXNUM :: u64 where [const_defs]: "TAG_FIXNUM = 0x0"
definition TAG_CONS :: u64 where [const_defs]: "TAG_CONS = 0x1"
definition TAG_CHAR :: u64 where [const_defs]: "TAG_CHAR = 0x2"
definition TAG_SYMBOL :: u64 where [const_defs]: "TAG_SYMBOL = 0x3"
definition TAG_SINGLE_FLOAT :: u64 where [const_defs]: "TAG_SINGLE_FLOAT = 0x4"
definition TAG_STRING :: u64 where [const_defs]: "TAG_STRING = 0x5"
definition TAG_INSTANCE :: u64 where [const_defs]: "TAG_INSTANCE = 0x7"
definition TAG_RAW_POINTER :: u64 where [const_defs]: "TAG_RAW_POINTER = 0x9"
definition TAG_FORWARD :: u64 where [const_defs]: "TAG_FORWARD = 0xF"
definition TAG_MARKER :: u64 where [const_defs]: "TAG_MARKER = 0xE"

text \<open>The first word of an instance says what it is.\<close>

definition MAGIC_FUNCTION_NATIVE :: u64 where [const_defs]: "MAGIC_FUNCTION_NATIVE = 0x0E"
definition MAGIC_FUNCTION_INTERPRETED :: u64 where [const_defs]: "MAGIC_FUNCTION_INTERPRETED = 0x1E"
definition MAGIC_PROCESS :: u64 where [const_defs]: "MAGIC_PROCESS = 0x2E"
definition MAGIC_MACRO :: u64 where [const_defs]: "MAGIC_MACRO = 0x3E"
definition MAGIC_BLOCK_EXIT :: u64 where [const_defs]: "MAGIC_BLOCK_EXIT = 0x4E"
definition MAGIC_STREAM :: u64 where [const_defs]: "MAGIC_STREAM = 0x5E"
definition MAGIC_CLASS_INSTANCE :: u64 where [const_defs]: "MAGIC_CLASS_INSTANCE = 0x6E"
definition MAGIC_CATCH_EXIT :: u64 where [const_defs]: "MAGIC_CATCH_EXIT = 0x7E"
definition MAGIC_GO_EXIT :: u64 where [const_defs]: "MAGIC_GO_EXIT = 0x8E"
definition MAGIC_BIGNUM :: u64 where [const_defs]: "MAGIC_BIGNUM = 0x9E"
definition MAGIC_VECTOR :: u64 where [const_defs]: "MAGIC_VECTOR = 0xAE"
definition MAGIC_FLOAT :: u64 where [const_defs]: "MAGIC_FLOAT = 0xBE"
definition MAGIC_BUILTIN_CLASS :: u64 where [const_defs]: "MAGIC_BUILTIN_CLASS = 0xCE"
definition MAGIC_STANDARD_CLASS :: u64 where [const_defs]: "MAGIC_STANDARD_CLASS = 0xDE"

definition os_tag_is_heap_ref :: "u64 \<Rightarrow> bool" where
  "os_tag_is_heap_ref tag \<longleftrightarrow>
     tag = TAG_CONS \<or> tag = TAG_SYMBOL \<or> tag = TAG_STRING \<or> tag = TAG_INSTANCE \<or> tag = TAG_FORWARD"

definition os_tag_holds_address :: "u64 \<Rightarrow> bool" where
  "os_tag_holds_address tag \<longleftrightarrow> tag AND TAG_IS_POINTER_BIT \<noteq> 0"

definition OS_HEAP_ALIGN :: u64 where [const_defs]: "OS_HEAP_ALIGN = 16"

definition os_heap_align_up :: "u64 \<Rightarrow> u64" where
  "os_heap_align_up n = (n + (OS_HEAP_ALIGN - 1)) AND NOT (OS_HEAP_ALIGN - 1)"

subsection \<open>Immediates\<close>

definition FIXNUM_SIGN_BIT :: u64 where [const_defs]: "FIXNUM_SIGN_BIT = 0x8000000000000000"
definition FIXNUM_MAGNITUDE_MASK :: u64 where
  [const_defs]: "FIXNUM_MAGNITUDE_MASK = 0x7FFFFFFFFFFFFFF"
definition FIXNUM_VALUE_SHIFT :: nat where [const_defs]: "FIXNUM_VALUE_SHIFT = 4"
definition CHAR_VALUE_SHIFT :: nat where [const_defs]: "CHAR_VALUE_SHIFT = 32"
definition SINGLE_FLOAT_VALUE_SHIFT :: nat where [const_defs]: "SINGLE_FLOAT_VALUE_SHIFT = 32"

definition os_make_fixnum :: "u64 \<Rightarrow> u64" where
  "os_make_fixnum n = push_bit FIXNUM_VALUE_SHIFT n"

definition os_make_fixnum_signed :: "bool \<Rightarrow> u64 \<Rightarrow> u64" where
  "os_make_fixnum_signed negative magnitude =
     (let val = push_bit FIXNUM_VALUE_SHIFT magnitude
      in if negative \<and> magnitude \<noteq> 0 then val OR FIXNUM_SIGN_BIT else val)"

definition os_fixnum_magnitude :: "u64 \<Rightarrow> u64" where
  "os_fixnum_magnitude val = drop_bit FIXNUM_VALUE_SHIFT val AND FIXNUM_MAGNITUDE_MASK"

definition os_fixnum_is_negative :: "u64 \<Rightarrow> bool" where
  "os_fixnum_is_negative val \<longleftrightarrow> val AND FIXNUM_SIGN_BIT \<noteq> 0"

definition os_make_char_from_code :: "u32 \<Rightarrow> u64" where
  "os_make_char_from_code code = push_bit CHAR_VALUE_SHIFT (ucast code) OR TAG_CHAR"

definition os_make_single_float :: "u32 \<Rightarrow> u64" where
  "os_make_single_float bits = push_bit SINGLE_FLOAT_VALUE_SHIFT (ucast bits) OR TAG_SINGLE_FLOAT"

definition os_single_float_value :: "u64 \<Rightarrow> u32" where
  "os_single_float_value val = ucast (drop_bit SINGLE_FLOAT_VALUE_SHIFT val)"

definition os_is_single_float :: "u64 \<Rightarrow> bool" where
  "os_is_single_float val \<longleftrightarrow> val AND TAG_MASK = TAG_SINGLE_FLOAT"

definition fixnum_wf :: "u64 \<Rightarrow> bool" where
  [wf_defs]: "fixnum_wf w \<longleftrightarrow>
     w AND TAG_MASK = TAG_FIXNUM \<and> (os_fixnum_is_negative w \<longrightarrow> os_fixnum_magnitude w \<noteq> 0)"

definition fixnum_int :: "u64 \<Rightarrow> int" where
  "fixnum_int w =
     (if os_fixnum_is_negative w then - uint (os_fixnum_magnitude w)
      else uint (os_fixnum_magnitude w))"

lemma mask59: "FIXNUM_MAGNITUDE_MASK = mask 59"
  by (simp add: const_defs mask_eq_exp_minus_1)

lemma tag_mask_eq: "TAG_MASK = mask 4"
  by (simp add: const_defs mask_eq_exp_minus_1)

lemma sign_bit_eq: "FIXNUM_SIGN_BIT = push_bit 63 1"
  by (simp add: const_defs)

lemma bit_push_bit_1: "bit (push_bit m 1 :: u64) n \<longleftrightarrow> n = m \<and> m < 64"
  by (auto simp: bit_simps)

lemma bit_sign_bit: "bit FIXNUM_SIGN_BIT n \<longleftrightarrow> n = 63"
  unfolding sign_bit_eq bit_push_bit_1 by simp

lemma os_fixnum_is_negative_bit: "os_fixnum_is_negative w \<longleftrightarrow> bit w 63"
  unfolding os_fixnum_is_negative_def sign_bit_eq by (rule bit_iff_and_push_bit_not_eq_0 [symmetric])

lemma bit_fixnum_magnitude: "bit (os_fixnum_magnitude w) n \<longleftrightarrow> n < 59 \<and> bit w (n + 4)"
  by (auto simp: os_fixnum_magnitude_def mask59 bit_simps FIXNUM_VALUE_SHIFT_def add.commute)

lemma fixnum_tag_bits: "w AND TAG_MASK = TAG_FIXNUM \<longleftrightarrow> (\<forall>n<4. \<not> bit w n)"
  unfolding tag_mask_eq TAG_FIXNUM_def take_bit_eq_mask [symmetric]
  by (auto simp: bit_eq_iff bit_take_bit_iff)

lemma bit_word_lt64: "bit (w :: u64) n \<Longrightarrow> n < 64"
  using bit_imp_le_length [of w n] by simp

lemma magnitude_bits:
  "unat m < 2 ^ 59 \<longleftrightarrow> (\<forall>n\<ge>59. \<not> bit (m :: u64) n)"
proof -
  have "unat m < 2 ^ 59 \<longleftrightarrow> take_bit 59 (unat m) = unat m"
    by (rule take_bit_nat_eq_self_iff [symmetric])
  also have "\<dots> \<longleftrightarrow> unat (take_bit 59 m) = unat m"
    by (simp only: unsigned_take_bit_eq)
  also have "\<dots> \<longleftrightarrow> take_bit 59 m = m" by (rule word_eq_iff_unat [symmetric])
  also have "\<dots> \<longleftrightarrow> (\<forall>n\<ge>59. \<not> bit m n)"
    using bit_word_lt64 [of m] by (auto simp: bit_eq_iff bit_take_bit_iff) (metis not_le)+
  finally show ?thesis .
qed

lemma magnitude_less: "unat (os_fixnum_magnitude w) < 2 ^ 59"
  unfolding magnitude_bits by (simp add: bit_fixnum_magnitude)

lemma magnitude_le_mask: "m \<le> FIXNUM_MAGNITUDE_MASK \<longleftrightarrow> unat m < 2 ^ 59"
  by (simp add: FIXNUM_MAGNITUDE_MASK_def word_le_nat_alt less_Suc_eq_le [symmetric])

lemma bit_make_fixnum_signed:
  "bit (os_make_fixnum_signed neg m) n \<longleftrightarrow>
     (4 \<le> n \<and> n < 64 \<and> bit m (n - 4)) \<or> (n = 63 \<and> neg \<and> m \<noteq> 0)"
  by (auto simp: os_make_fixnum_signed_def Let_def FIXNUM_VALUE_SHIFT_def bit_or_iff bit_sign_bit bit_push_bit_iff)

lemma word_zero_bits: "(m :: u64) = 0 \<longleftrightarrow> (\<forall>n. \<not> bit m n)"
  using bit_word_lt64 [of m] by (auto simp: bit_eq_iff)

text \<open>A magnitude that fits is stored exactly, with its sign; zero has no sign.\<close>

lemma make_fixnum_signed:
  assumes "unat m < 2 ^ 59"
  shows "os_fixnum_magnitude (os_make_fixnum_signed neg m) = m"
    "os_fixnum_is_negative (os_make_fixnum_signed neg m) \<longleftrightarrow> neg \<and> m \<noteq> 0"
    "fixnum_wf (os_make_fixnum_signed neg m)"
    "fixnum_int (os_make_fixnum_signed neg m) = (if neg then - uint m else uint m)"
proof -
  have b: "\<not> bit m n" if "59 \<le> n" for n using assms [unfolded magnitude_bits] that by simp
  show mag: "os_fixnum_magnitude (os_make_fixnum_signed neg m) = m"
  proof (rule bit_word_eqI)
    fix n
    show "bit (os_fixnum_magnitude (os_make_fixnum_signed neg m)) n = bit m n"
      using b [of n] by (cases "n < 59") (auto simp: bit_fixnum_magnitude bit_make_fixnum_signed)
  qed
  show sgn: "os_fixnum_is_negative (os_make_fixnum_signed neg m) \<longleftrightarrow> neg \<and> m \<noteq> 0"
    using b [of 59] by (simp add: os_fixnum_is_negative_bit bit_make_fixnum_signed)
  show "fixnum_wf (os_make_fixnum_signed neg m)"
    unfolding fixnum_wf_def mag sgn fixnum_tag_bits by (simp add: bit_make_fixnum_signed)
  show "fixnum_int (os_make_fixnum_signed neg m) = (if neg then - uint m else uint m)"
    unfolding fixnum_int_def mag sgn by auto
qed

lemma fixnum_word_eq:
  assumes "fixnum_wf w"
  shows "w = os_make_fixnum_signed (os_fixnum_is_negative w) (os_fixnum_magnitude w)"
proof (rule bit_word_eqI)
  fix n assume "n < LENGTH(64)"
  then have n: "n < 64" by simp
  have wf: "\<forall>n<4. \<not> bit w n" "bit w 63 \<Longrightarrow> os_fixnum_magnitude w \<noteq> 0"
    using assms by (simp_all add: fixnum_wf_def fixnum_tag_bits os_fixnum_is_negative_bit)
  consider "n < 4" | "4 \<le> n" "n < 63" | "n = 63" using n by linarith
  then show "bit w n \<longleftrightarrow> bit (os_make_fixnum_signed (os_fixnum_is_negative w) (os_fixnum_magnitude w)) n"
    by cases (use wf in \<open>auto simp: bit_make_fixnum_signed bit_fixnum_magnitude os_fixnum_is_negative_bit\<close>)
qed

lemma fixnum_int_inj:
  assumes "fixnum_wf a" "fixnum_wf b" "fixnum_int a = fixnum_int b"
  shows "a = b"
proof -
  have "os_fixnum_magnitude a = os_fixnum_magnitude b"
    using assms(3) uint_ge_0 [of "os_fixnum_magnitude a"] uint_ge_0 [of "os_fixnum_magnitude b"]
    unfolding fixnum_int_def word_uint_eq_iff by (simp split: if_splits; linarith)
  moreover have "os_fixnum_is_negative a = os_fixnum_is_negative b"
    using assms calculation by (auto simp: fixnum_int_def fixnum_wf_def uint_0_iff split: if_splits)
  ultimately show ?thesis
    by (subst fixnum_word_eq [OF assms(1)], subst fixnum_word_eq [OF assms(2)]) simp
qed

lemma fixnum_int_bound: "\<bar>fixnum_int w\<bar> < 2 ^ 59"
proof -
  have "int (unat (os_fixnum_magnitude w)) < int (2 ^ 59)"
    using magnitude_less by (simp only: of_nat_less_iff)
  then show ?thesis
    by (cases "os_fixnum_is_negative w") (simp_all add: fixnum_int_def)
qed

lemma fixnum_int_sign:
  assumes "fixnum_wf w"
  shows "os_fixnum_is_negative w \<longleftrightarrow> fixnum_int w < 0"
    and "uint (os_fixnum_magnitude w) = \<bar>fixnum_int w\<bar>"
  using assms by (auto simp: fixnum_int_def fixnum_wf_def uint_0_iff order_less_le)


subsection \<open>Facts about the other immediates, tags and alignment\<close>

lemma os_tag_heap_ref_address: "os_tag_is_heap_ref tag \<Longrightarrow> os_tag_holds_address tag"
  by (auto simp: os_tag_is_heap_ref_def os_tag_holds_address_def const_defs)

lemma bit_ucast_u32: "bit (ucast (x :: u32) :: u64) n \<longleftrightarrow> n < 32 \<and> bit x n"
  by (auto simp: bit_simps dest: bit_imp_le_length)

lemma bit_small_tag: "bit (t :: u64) n \<Longrightarrow> t AND TAG_MASK = t \<Longrightarrow> n < 4"
  unfolding tag_mask_eq take_bit_eq_mask [symmetric] by (metis bit_take_bit_iff)

lemma immediate_shift32:
  fixes x :: u32 and t :: u64
  assumes t: "t AND TAG_MASK = t"
  shows "ucast (drop_bit 32 (push_bit 32 (ucast x) OR t)) = x"
    "(push_bit 32 (ucast x) OR t) AND TAG_MASK = t"
proof -
  have b: "bit t n \<Longrightarrow> n < 4" for n by (rule bit_small_tag [OF _ t])
  show "ucast (drop_bit 32 (push_bit 32 (ucast x) OR t)) = x"
  proof (rule bit_word_eqI)
    fix n assume "n < LENGTH(32)"
    then show "bit (ucast (drop_bit 32 (push_bit 32 (ucast x) OR t)) :: u32) n = bit x n"
      using b [of "n + 32"] b [of "32 + n"]
      by (auto simp: bit_ucast_iff bit_drop_bit_eq bit_or_iff bit_push_bit_iff bit_ucast_u32)
  qed
  show "(push_bit 32 (ucast x) OR t) AND TAG_MASK = t"
    unfolding tag_mask_eq
    by (rule bit_word_eqI) (auto simp: bit_and_iff bit_or_iff bit_push_bit_iff bit_mask_iff dest: b)
qed

lemma os_single_float_roundtrip:
  "os_single_float_value (os_make_single_float bits) = bits"
  "os_is_single_float (os_make_single_float bits)"
proof -
  have t: "TAG_SINGLE_FLOAT AND TAG_MASK = TAG_SINGLE_FLOAT" by (simp add: const_defs)
  show "os_single_float_value (os_make_single_float bits) = bits"
    "os_is_single_float (os_make_single_float bits)"
    unfolding os_single_float_value_def os_make_single_float_def os_is_single_float_def
      SINGLE_FLOAT_VALUE_SHIFT_def
    by (rule immediate_shift32 [OF t])+
qed

lemma os_make_char_code:
  "ucast (drop_bit CHAR_VALUE_SHIFT (os_make_char_from_code code)) = code"
  "os_make_char_from_code code AND TAG_MASK = TAG_CHAR"
proof -
  have t: "TAG_CHAR AND TAG_MASK = TAG_CHAR" by (simp add: const_defs)
  show "ucast (drop_bit CHAR_VALUE_SHIFT (os_make_char_from_code code)) = code"
    "os_make_char_from_code code AND TAG_MASK = TAG_CHAR"
    unfolding os_make_char_from_code_def CHAR_VALUE_SHIFT_def
    by (rule immediate_shift32 [OF t])+
qed

subsection \<open>The value of an immutable object\<close>

datatype lval =
    Imm u64
  | Nil
  | Sym string
  | Str string
  | Cons lval lval
  | Bignum bool "u64 list"
  | DFloat u64
  | Vec "nat list" "lval list"
  | Obj u64 "lval list"

text \<open>
  What a primitive does instead of returning: the condition class of
  \<open>os_signal_condition\<close> with the arguments the code passes, or the stop of the machine in
  \<open>os_panic\<close> when the scratch arena of limbs is exhausted.
\<close>

datatype lsignal =
    DomainError lval string
  | DivisionByZero string "lval list"
  | IndexOutOfRange
  | ParseError string
  | ControlError
  | LimbArenaExhausted

type_synonym 'a lres = "lsignal + 'a"

definition is_fixnum :: "lval \<Rightarrow> bool" where
  "is_fixnum v = (case v of Imm w \<Rightarrow> w AND TAG_MASK = TAG_FIXNUM | _ \<Rightarrow> False)"

definition is_bignum :: "lval \<Rightarrow> bool" where
  "is_bignum v = (case v of Bignum _ _ \<Rightarrow> True | _ \<Rightarrow> False)"

end
