(* ===== verification/Heap.thy ===== *)
theory Heap
  imports Values
begin

unbundle bit_operations_syntax

text \<open>
  The heap of \<^verbatim>\<open>src/c/runtime.c\<close>: two half-spaces, allocation from one of them, and the collector
  that copies what is reachable into the other. The heap is memory; an object is the words at
  its address, and a value is a word whose low four bits say what it is.

  Addresses are natural numbers, and the memory maps the addresses of words to their contents.
  The variables the collector updates (globals, cached symbols, registered roots, the variables
  of the shadow stacks, function cells) are words of the same memory, outside both half-spaces.
  The linked lists of shadow-stack nodes and of function cells are lists of the addresses they
  hold. Sums of an address and a size are exact: for sizes that wrap around the address space,
  which C leaves undefined, the model says nothing. The counters and checks of the audit builds are
  left out.
\<close>

subsection \<open>Objects in memory\<close>

definition MAGIC_MUST_BE_BELOW :: u64 where "MAGIC_MUST_BE_BELOW = 0x1000"

text \<open>
  The layout of \<open>os_stream_t\<close> on x86-64: its size, and the offsets of the fields that the
  collector treats. \<open>kind\<close> is the low half of the first word, \<open>str_cap\<close> of the word at 1600.
\<close>

definition STREAM_SIZE :: nat where "STREAM_SIZE = 1656"
definition STR_BUF_OFFSET :: nat where "STR_BUF_OFFSET = 1592"
definition STR_CAP_OFFSET :: nat where "STR_CAP_OFFSET = 1600"
definition MOUNT_FILE_NODE_OFFSET :: nat where "MOUNT_FILE_NODE_OFFSET = 1632"
definition SELF_HANDLE_OFFSET :: nat where "SELF_HANDLE_OFFSET = 1640"
definition PENDING_TRANSFER_OFFSET :: nat where "PENDING_TRANSFER_OFFSET = 1648"
definition KIND_STRING_INPUT :: u32 where "KIND_STRING_INPUT = 4"
definition KIND_STRING_OUTPUT :: u32 where "KIND_STRING_OUTPUT = 5"

definition address_of :: "u64 \<Rightarrow> nat" where "address_of v = unat (v AND NOT TAG_MASK)"
definition tag_of :: "u64 \<Rightarrow> u64" where "tag_of v = v AND TAG_MASK"
definition tagged :: "nat \<Rightarrow> u64 \<Rightarrow> u64" where "tagged a tag = of_nat a OR tag"

text \<open>A copy of \<open>n\<close> bytes between disjoint blocks at word boundaries; the rest of a last word stays.\<close>

definition copy_bytes :: "nat \<Rightarrow> nat \<Rightarrow> nat \<Rightarrow> memory \<Rightarrow> memory" where
  "copy_bytes src dst n m =
     (\<lambda>a. if dst \<le> a \<and> a < dst + n \<and> (a - dst) mod 8 = 0
          then (let left = n - (a - dst); w = m (src + (a - dst))
                in if 8 \<le> left then w else (w AND mask (8 * left)) OR (m a AND NOT (mask (8 * left))))
          else m a)"

subsection \<open>State\<close>

definition GC_QUEUE_CAPACITY :: nat where "GC_QUEUE_CAPACITY = 65536"
definition GC_MAX_EXTRA_ROOTS :: nat where "GC_MAX_EXTRA_ROOTS = 2048"

datatype halt = Queue_exhausted | To_space_exhausted | Out_of_memory | Root_table_exhausted | Heap_base_too_low

record heap =
  mem :: memory
  nil :: u64
  g_from_start :: nat
  g_from_ptr :: nat
  g_from_end :: nat
  g_to_start :: nat
  g_to_ptr :: nat
  g_to_end :: nat
  g_from_soft_end :: nat
  g_from_soft_end_normal :: nat
  g_from_floor_end :: nat
  g_heap_exhausted_pending :: bool
  g_in_heap_signal :: bool
  g_gc_queue :: "nat \<Rightarrow> u64"
  g_gc_queue_head :: nat
  g_gc_queue_tail :: nat
  g_gc_collect_count :: nat
  globals :: "nat list"
  symbol_table :: "nat list"
  cached_symbols :: "nat list"
  extra_roots :: "nat list"
  shadow_stacks :: "nat list list"
  function_cells :: "nat list"

subsection \<open>Roots\<close>

definition os_gc_register_root :: "nat \<Rightarrow> heap \<Rightarrow> halt + heap" where
  "os_gc_register_root root_ptr h =
     (if root_ptr \<in> set (extra_roots h) then Inr h
      else if GC_MAX_EXTRA_ROOTS \<le> length (extra_roots h) then Inl Root_table_exhausted
      else Inr (h\<lparr>extra_roots := extra_roots h @ [root_ptr]\<rparr>))"

text \<open>The last entry takes the place of the one that goes.\<close>

fun replace_first :: "nat \<Rightarrow> nat \<Rightarrow> nat list \<Rightarrow> nat list" where
  "replace_first x y [] = []"
| "replace_first x y (z # zs) = (if z = x then y # zs else z # replace_first x y zs)"

definition os_gc_unregister_root :: "nat \<Rightarrow> heap \<Rightarrow> heap" where
  "os_gc_unregister_root root_ptr h =
     (if root_ptr \<in> set (extra_roots h)
      then h\<lparr>extra_roots := butlast (replace_first root_ptr (last (extra_roots h)) (extra_roots h))\<rparr> else h)"

subsection \<open>Copying\<close>

definition gc_queue_push :: "u64 \<Rightarrow> heap \<Rightarrow> halt + heap" where
  "gc_queue_push obj h =
     (if GC_QUEUE_CAPACITY \<le> g_gc_queue_tail h - g_gc_queue_head h then Inl Queue_exhausted
      else Inr (h\<lparr>g_gc_queue := (g_gc_queue h)(g_gc_queue_tail h mod GC_QUEUE_CAPACITY := obj),
                  g_gc_queue_tail := g_gc_queue_tail h + 1\<rparr>))"

definition gc_queue_pop :: "heap \<Rightarrow> (u64 \<times> heap) option" where
  "gc_queue_pop h =
     (if g_gc_queue_head h = g_gc_queue_tail h then None
      else Some (g_gc_queue h (g_gc_queue_head h mod GC_QUEUE_CAPACITY), h\<lparr>g_gc_queue_head := g_gc_queue_head h + 1\<rparr>))"

definition gc_to_alloc :: "u64 \<Rightarrow> heap \<Rightarrow> halt + nat \<times> heap" where
  "gc_to_alloc n h =
     (let aligned = unat (os_heap_align_up n); dst = g_to_ptr h
      in if g_to_end h < dst + aligned then Inl To_space_exhausted
         else Inr (dst, h\<lparr>g_to_ptr := dst + aligned\<rparr>))"

text \<open>What the collector copies for an object itself, from its tag and first word.\<close>

definition object_size :: "u64 \<Rightarrow> u64 \<Rightarrow> u64 option" where
  "object_size tag word0 =
     (if tag = TAG_CONS then Some 16
      else if tag = TAG_SYMBOL then Some 32
      else if tag = TAG_STRING then Some (8 + word0)
      else if tag = TAG_INSTANCE then Some 32
      else None)"

definition gc_copy_value :: "u64 \<Rightarrow> heap \<Rightarrow> halt + u64 \<times> heap" where
  "gc_copy_value obj h =
     (if obj = nil h then Inr (obj, h)
      else if \<not> os_tag_is_heap_ref (tag_of obj) then Inr (obj, h)
      else let addr = address_of obj
        in if g_to_start h \<le> addr \<and> addr < g_to_end h then Inr (obj, h)
           else let word0 = mem h addr
             in if tag_of word0 = TAG_FORWARD \<and> g_to_start h \<le> address_of word0 \<and> address_of word0 < g_to_end h
                then Inr (tagged (address_of word0) (tag_of obj), h)
                else case object_size (tag_of obj) word0 of
                    None \<Rightarrow> Inr (obj, h)
                  | Some n \<Rightarrow>
                      (case gc_to_alloc n h of
                         Inl e \<Rightarrow> Inl e
                       | Inr (dst, h) \<Rightarrow>
                           (let h = h\<lparr>mem := (copy_bytes addr dst (unat n) (mem h))(addr := tagged dst TAG_FORWARD)\<rparr>;
                                new_obj = tagged dst (tag_of obj)
                            in case gc_queue_push new_obj h of Inl e \<Rightarrow> Inl e | Inr h \<Rightarrow> Inr (new_obj, h))))"

text \<open>The assignment \<^verbatim>\<open>*a = gc_copy_value(*a)\<close>, for one variable or field and for several in order.\<close>

definition gc_copy_field :: "nat \<Rightarrow> heap \<Rightarrow> halt + heap" where
  "gc_copy_field a h =
     (case gc_copy_value (mem h a) h of Inl e \<Rightarrow> Inl e | Inr (v, h) \<Rightarrow> Inr (h\<lparr>mem := (mem h)(a := v)\<rparr>))"

primrec gc_copy_fields :: "nat list \<Rightarrow> heap \<Rightarrow> halt + heap" where
  "gc_copy_fields [] h = Inr h"
| "gc_copy_fields (a # as) h = (case gc_copy_field a h of Inl e \<Rightarrow> Inl e | Inr h \<Rightarrow> gc_copy_fields as h)"

definition store :: "nat \<Rightarrow> u64 \<Rightarrow> heap \<Rightarrow> heap" where "store a w h = h\<lparr>mem := (mem h)(a := w)\<rparr>"

text \<open>A block that an object owns, copied into fresh room.\<close>

definition gc_copy_block :: "nat \<Rightarrow> u64 \<Rightarrow> heap \<Rightarrow> halt + nat \<times> heap" where
  "gc_copy_block src n h =
     (case gc_to_alloc n h of
        Inl e \<Rightarrow> Inl e
      | Inr (dst, h) \<Rightarrow> Inr (dst, h\<lparr>mem := copy_bytes src dst (unat n) (mem h)\<rparr>))"

definition gc_relocate_bignum :: "nat \<Rightarrow> heap \<Rightarrow> halt + heap" where
  "gc_relocate_bignum w h =
     (let count = mem h (w + 16)
      in if count = 0 then Inr h
         else case gc_copy_block (unat (mem h (w + 24))) (8 * count) h of
             Inl e \<Rightarrow> Inl e
           | Inr (dst, h) \<Rightarrow> Inr (store (w + 24) (of_nat dst) h))"

text \<open>The product of the dimensions that follow the rank.\<close>

definition vector_total :: "nat \<Rightarrow> memory \<Rightarrow> u64" where
  "vector_total header m = fold (\<lambda>i total. total * m (header + 8 * (1 + i))) [0..<unat (m header)] 1"

definition gc_relocate_vector_block :: "nat \<Rightarrow> heap \<Rightarrow> halt + heap" where
  "gc_relocate_vector_block w h =
     (let old_header = unat (mem h (w + 8));
          rank = mem h old_header;
          total = vector_total old_header (mem h)
      in case gc_copy_block old_header (8 * (1 + rank + total)) h of
           Inl e \<Rightarrow> Inl e
         | Inr (dst, h) \<Rightarrow>
             (case gc_copy_fields (map (\<lambda>i. dst + 8 * (1 + unat rank) + 8 * i) [0..<unat total]) h of
                Inl e \<Rightarrow> Inl e
              | Inr h \<Rightarrow> Inr (store (w + 8) (of_nat dst) h)))"

definition is_string_stream :: "nat \<Rightarrow> memory \<Rightarrow> bool" where
  "is_string_stream s m \<longleftrightarrow>
     (let kind = (ucast (m s) :: u32) in kind = KIND_STRING_INPUT \<or> kind = KIND_STRING_OUTPUT)"

definition gc_relocate_stream :: "nat \<Rightarrow> heap \<Rightarrow> halt + heap" where
  "gc_relocate_stream w h =
     (case gc_copy_block (unat (mem h (w + 8))) (of_nat STREAM_SIZE) h of
        Inl e \<Rightarrow> Inl e
      | Inr (dst, h) \<Rightarrow>
          (case (if is_string_stream dst (mem h)
                 then (case gc_copy_block (unat (mem h (dst + STR_BUF_OFFSET)))
                         (ucast (ucast (mem h (dst + STR_CAP_OFFSET)) :: u32)) h of
                         Inl e \<Rightarrow> Inl e
                       | Inr (buf_dst, h) \<Rightarrow> Inr (store (dst + STR_BUF_OFFSET) (of_nat buf_dst) h))
                 else Inr h) of
             Inl e \<Rightarrow> Inl e
           | Inr h \<Rightarrow>
               (case gc_copy_fields [dst + MOUNT_FILE_NODE_OFFSET, dst + SELF_HANDLE_OFFSET, dst + PENDING_TRANSFER_OFFSET] h of
                  Inl e \<Rightarrow> Inl e
                | Inr h \<Rightarrow> Inr (store (w + 8) (of_nat dst) h))))"

definition gc_scan_instance :: "nat \<Rightarrow> heap \<Rightarrow> halt + heap" where
  "gc_scan_instance w h =
     (let magic = mem h w
      in if magic = MAGIC_FUNCTION_NATIVE then (if mem h (w + 24) \<noteq> nil h then gc_copy_fields [w + 24] h else Inr h)
         else if magic = MAGIC_FUNCTION_INTERPRETED \<or> magic = MAGIC_MACRO then gc_copy_fields [w + 8, w + 16, w + 24] h
         else if magic = MAGIC_PROCESS then gc_copy_fields [w + 8, w + 24] h
         else if magic = MAGIC_BLOCK_EXIT then gc_copy_fields [w + 8, w + 16] h
         else if magic = MAGIC_STREAM then gc_relocate_stream w h
         else if magic = MAGIC_CLASS_INSTANCE then gc_copy_fields [w + 8, w + 16] h
         else if magic = MAGIC_CATCH_EXIT then gc_copy_fields [w + 8, w + 16] h
         else if magic = MAGIC_GO_EXIT then gc_copy_fields [w + 8] h
         else if magic = MAGIC_BIGNUM then gc_relocate_bignum w h
         else if magic = MAGIC_VECTOR then (if mem h (w + 8) \<noteq> 0 then gc_relocate_vector_block w h else Inr h)
         else if magic = MAGIC_FLOAT then Inr h
         else if magic = MAGIC_BUILTIN_CLASS \<or> magic = MAGIC_STANDARD_CLASS then gc_copy_fields [w + 8, w + 16, w + 24] h
         else Inr h)"

definition gc_scan_object :: "u64 \<Rightarrow> heap \<Rightarrow> halt + heap" where
  "gc_scan_object obj h =
     (let w = address_of obj; tag = tag_of obj
      in if tag = TAG_CONS then gc_copy_fields [w, w + 8] h
         else if tag = TAG_SYMBOL then gc_copy_fields [w, w + 8, w + 16, w + 24] h
         else if tag = TAG_STRING then Inr h
         else if tag = TAG_INSTANCE then gc_scan_instance w h
         else Inr h)"

text \<open>\<open>None\<close> is a loop that does not end.\<close>

partial_function (option) gc_scan_queue :: "heap \<Rightarrow> (halt + heap) option" where
  "gc_scan_queue h =
     (case gc_queue_pop h of
        None \<Rightarrow> Some (Inr h)
      | Some (obj, h) \<Rightarrow> (case gc_scan_object obj h of Inl e \<Rightarrow> Some (Inl e) | Inr h \<Rightarrow> gc_scan_queue h))"

definition gc_fixup_all_function_cells :: "heap \<Rightarrow> halt + heap" where
  "gc_fixup_all_function_cells h = gc_copy_fields (function_cells h) h"

subsection \<open>A collection\<close>

text \<open>
  The reserve of \<open>HEAP_SIGNAL_RESERVE_MIN\<close> at the end of a half-space, kept for signalling that
  the heap is exhausted, and the floor below which nothing helps.
\<close>

definition HEAP_SIGNAL_RESERVE :: nat where
  "HEAP_SIGNAL_RESERVE = (32 + 8 * (1 + 1 + 8)) + 3 * 16 + 32768 + 32768 + 4096"
definition HEAP_HARD_FLOOR :: nat where "HEAP_HARD_FLOOR = 4096"

definition heap_apply_soft_end :: "heap \<Rightarrow> heap" where
  "heap_apply_soft_end h =
     h\<lparr>g_from_soft_end := (if g_heap_exhausted_pending h \<or> g_in_heap_signal h then g_from_floor_end h else g_from_soft_end_normal h)\<rparr>"

definition heap_update_soft_end :: "heap \<Rightarrow> heap" where
  "heap_update_soft_end h =
     (let half = g_from_end h - g_from_start h;
          (reserve, floor_bytes) = (if HEAP_SIGNAL_RESERVE \<le> half div 8 then (HEAP_SIGNAL_RESERVE, HEAP_HARD_FLOOR) else (0, 0))
      in heap_apply_soft_end (h\<lparr>g_from_soft_end_normal := g_from_end h - reserve, g_from_floor_end := g_from_end h - floor_bytes\<rparr>))"

definition heap_open_reserve :: "heap \<Rightarrow> heap" where
  "heap_open_reserve h = heap_apply_soft_end (h\<lparr>g_heap_exhausted_pending := True\<rparr>)"

definition gc_flip :: "heap \<Rightarrow> heap" where
  "gc_flip h =
     heap_update_soft_end (h\<lparr>g_from_start := g_to_start h, g_from_end := g_to_end h, g_from_ptr := g_to_ptr h,
       g_to_start := g_from_start h, g_to_end := g_from_end h, g_to_ptr := g_from_start h\<rparr>)"

definition gc_roots :: "heap \<Rightarrow> nat list" where
  "gc_roots h = globals h @ symbol_table h @ cached_symbols h @ extra_roots h @ concat (shadow_stacks h)"

definition os_gc_collect :: "heap \<Rightarrow> (halt + heap) option" where
  "os_gc_collect h =
     (let h = h\<lparr>g_gc_collect_count := g_gc_collect_count h + 1, g_to_ptr := g_to_start h, g_gc_queue_head := 0, g_gc_queue_tail := 0\<rparr>
      in case gc_copy_fields (gc_roots h) h of
           Inl e \<Rightarrow> Some (Inl e)
         | Inr h \<Rightarrow>
             (case gc_scan_queue h of
                None \<Rightarrow> None
              | Some (Inl e) \<Rightarrow> Some (Inl e)
              | Some (Inr h) \<Rightarrow>
                  (case gc_fixup_all_function_cells h of
                     Inl e \<Rightarrow> Some (Inl e)
                   | Inr h \<Rightarrow>
                       (case gc_scan_queue h of
                          None \<Rightarrow> None
                        | Some (Inl e) \<Rightarrow> Some (Inl e)
                        | Some (Inr h) \<Rightarrow> Some (Inr (gc_flip h))))))"

subsection \<open>Allocation\<close>

definition os_heap_init :: "u64 \<Rightarrow> u64 \<Rightarrow> heap \<Rightarrow> halt + heap" where
  "os_heap_init heap_base heap_size h =
     (let base = os_heap_align_up heap_base;
          lost = base - heap_base;
          usable = (if lost < heap_size then heap_size - lost else 0);
          half = unat ((usable div 2) AND NOT (OS_HEAP_ALIGN - 1));
          start = unat base;
          h = heap_update_soft_end (h\<lparr>g_from_start := start, g_from_ptr := start, g_from_end := start + half,
                g_to_start := start + half, g_to_ptr := start + half, g_to_end := start + half + half,
                g_heap_exhausted_pending := False, g_in_heap_signal := False\<rparr>)
      in if base \<le> MAGIC_MUST_BE_BELOW then Inl Heap_base_too_low else Inr h)"

definition os_alloc_bytes_slow :: "nat \<Rightarrow> heap \<Rightarrow> (halt + nat \<times> heap) option" where
  "os_alloc_bytes_slow aligned h =
     (case os_gc_collect h of
        None \<Rightarrow> None
      | Some (Inl e) \<Rightarrow> Some (Inl e)
      | Some (Inr h) \<Rightarrow>
          (let p = g_from_ptr h
           in if g_from_soft_end h < p + aligned
              then (let h = heap_open_reserve h
                    in if g_from_soft_end h < p + aligned then Some (Inl Out_of_memory) else Some (Inr (p, h)))
              else Some (Inr (p, h))))"

definition os_alloc_bytes :: "u64 \<Rightarrow> heap \<Rightarrow> (halt + nat \<times> heap) option" where
  "os_alloc_bytes n h =
     (let aligned = unat (os_heap_align_up n)
      in case (if g_from_soft_end h < g_from_ptr h + aligned then os_alloc_bytes_slow aligned h else Some (Inr (g_from_ptr h, h))) of
           None \<Rightarrow> None
         | Some (Inl e) \<Rightarrow> Some (Inl e)
         | Some (Inr (p, h)) \<Rightarrow> Some (Inr (p, h\<lparr>g_from_ptr := p + aligned\<rparr>)))"

text \<open>
  \<open>GC_PROTECT\<close> of a variable of the current process, which the collector then updates, and the
  end of its scope.
\<close>

definition gc_protect :: "nat \<Rightarrow> nat \<Rightarrow> heap \<Rightarrow> heap" where
  "gc_protect proc var h = h\<lparr>shadow_stacks := (shadow_stacks h)[proc := var # shadow_stacks h ! proc]\<rparr>"

definition gc_unprotect :: "nat \<Rightarrow> heap \<Rightarrow> heap" where
  "gc_unprotect proc h = h\<lparr>shadow_stacks := (shadow_stacks h)[proc := tl (shadow_stacks h ! proc)]\<rparr>"

text \<open>\<open>os_make_cons\<close>; its parameters are the variables at \<open>car_var\<close> and \<open>cdr_var\<close>.\<close>

definition os_make_cons :: "nat \<Rightarrow> nat \<Rightarrow> nat \<Rightarrow> heap \<Rightarrow> (halt + u64 \<times> heap) option" where
  "os_make_cons proc car_var cdr_var h =
     (case os_alloc_bytes 16 (gc_protect proc cdr_var (gc_protect proc car_var h)) of
        None \<Rightarrow> None
      | Some (Inl e) \<Rightarrow> Some (Inl e)
      | Some (Inr (cell, h)) \<Rightarrow>
          (let h = store (cell + 8) (mem h cdr_var) (store cell (mem h car_var) h)
           in Some (Inr (tagged cell TAG_CONS, gc_unprotect proc (gc_unprotect proc h)))))"

end
