(* ===== verification/Gc.thy ===== *)
theory Gc
  imports Heap "HOL-Library.Sublist"
begin

unbundle bit_operations_syntax

text \<open>
  The collector of \<^verbatim>\<open>src/c/runtime.c\<close> keeps the heap: what the roots reach is the same graph of
  objects before and after, moved to the other half-space.

  \<open>blocks\<close> are the pieces of memory an object consists of, \<open>slots\<close> its words that hold values, and
  \<open>raw\<close> everything else it holds. The invariant \<open>gc_inv\<close> follows the collector with a map \<open>f\<close> from
  the values copied to their copies and the blocks \<open>T\<close> given to each copy; a copied object waits
  in the queue with its old fields, is being scanned, or is done.
\<close>

subsection \<open>Tagged words\<close>

lemma and_not_mask_eq: "(v :: u64) AND NOT TAG_MASK = push_bit 4 (drop_bit 4 v)"
  by (rule bit_word_eqI) (auto simp: tag_mask_eq bit_simps)

lemma address_of_eq: "address_of v = unat v div 16 * 16"
proof -
  have "unat (push_bit 4 (drop_bit 4 v)) = unat (drop_bit 4 v) * 16"
  proof -
    have "unat (drop_bit 4 v) = unat v div 16" by (simp add: unat_drop_bit_eq drop_bit_eq_div unat_div)
    moreover have "unat v div 16 * 16 < 18446744073709551616" using unat_lt64 [of v] div_times_less_eq_dividend [of "unat v" 16] by linarith
    ultimately show ?thesis
      using unat_mult_no_wrap64 [of "drop_bit 4 v" 16] by (simp add: push_bit_eq_mult)
  qed
  then show ?thesis by (simp add: address_of_def and_not_mask_eq unat_drop_bit_eq drop_bit_eq_div unat_div)
qed

lemma dvd16_mod8: "16 dvd (d :: nat) \<Longrightarrow> d mod 8 = 0"
  by (elim dvdE) presburger

lemma address_aligned [simp]: "16 dvd address_of v" "address_of v mod 8 = 0"
proof -
  show "16 dvd address_of v" by (simp add: address_of_eq)
  then show "address_of v mod 8 = 0" by (rule dvd16_mod8)
qed

lemma address_lt: "address_of v < 2 ^ 64"
  using unat_lt64 [of v] div_times_less_eq_dividend [of "unat v" 16] unfolding address_of_eq by simp

lemma tag_of_idem: "tag_of v AND TAG_MASK = tag_of v"
  by (simp add: tag_of_def and.assoc)

lemma tagged_parts:
  assumes "16 dvd d" "d < 2 ^ 64" "t AND TAG_MASK = t"
  shows "address_of (tagged d t) = d" "tag_of (tagged d t) = t"
proof -
  obtain k where k: "d = 16 * k" using assms(1) by blast
  have d: "unat (of_nat d :: u64) = d" using assms(2) by (simp add: unsigned_of_nat take_bit_nat_eq_self)
  have w: "(of_nat d :: u64) AND NOT TAG_MASK = of_nat d"
    unfolding word_eq_iff_unat using address_of_eq [of "of_nat d"] by (simp only: address_of_def d) (simp add: k)
  then have z: "(of_nat d :: u64) AND TAG_MASK = 0"
    by (metis and.left_neutral bit.conj_cancel_right and.assoc and.commute and_zero_eq)
  have t0: "t AND NOT TAG_MASK = 0" using assms(3) by (metis and.assoc bit.conj_cancel_right and_zero_eq)
  show "address_of (tagged d t) = d" by (simp add: address_of_def tagged_def bit.conj_disj_distrib2 w t0 d)
  show "tag_of (tagged d t) = t" by (simp add: tag_of_def tagged_def bit.conj_disj_distrib2 z assms(3))
qed

lemma tagged_eta: "tagged (address_of v) (tag_of v) = v"
proof -
  have "v = (v AND NOT TAG_MASK) OR (v AND TAG_MASK)"
    by (metis bit.conj_disj_distrib bit.disj_cancel_left and.right_neutral)
  moreover have "of_nat (address_of v) = v AND NOT TAG_MASK" by (simp add: address_of_def)
  ultimately show ?thesis by (simp add: tagged_def tag_of_def)
qed

definition aligned_up :: "nat \<Rightarrow> nat" where "aligned_up n = (n + 15) div 16 * 16"

lemma os_heap_align_up_nat: "unat n + 15 < 2 ^ 64 \<Longrightarrow> unat (os_heap_align_up n) = aligned_up (unat n)"
proof -
  assume "unat n + 15 < 2 ^ 64"
  then have "unat (n + 15) = unat n + 15" using unat_add_no_wrap64 [of n 15] by simp
  moreover have "os_heap_align_up n = (n + 15) AND NOT TAG_MASK"
    by (simp add: os_heap_align_up_def OS_HEAP_ALIGN_def TAG_MASK_def)
  ultimately show ?thesis using address_of_eq [of "n + 15"] by (simp add: address_of_def aligned_up_def)
qed

lemma aligned_up_simps: "n \<le> aligned_up n" "16 dvd aligned_up n" "aligned_up 0 = 0" "aligned_up n < n + 16"
  by (auto simp: aligned_up_def)

lemma aligned_up_le: "16 dvd m \<Longrightarrow> n \<le> m \<Longrightarrow> aligned_up n \<le> m"
  unfolding aligned_up_def by (elim dvdE) auto

subsection \<open>Copied bytes\<close>

definition byte_at :: "memory \<Rightarrow> nat \<Rightarrow> u8" where
  "byte_at m p = ucast (drop_bit (8 * (p mod 8)) (m (p - p mod 8)))"

definition same_bytes :: "memory \<Rightarrow> nat \<Rightarrow> memory \<Rightarrow> nat \<Rightarrow> nat \<Rightarrow> bool" where
  "same_bytes m d m0 a n \<longleftrightarrow> (\<forall>i<n. byte_at m (d + i) = byte_at m0 (a + i))"

lemma bit_byte_at: "bit (byte_at m p) n \<longleftrightarrow> n < 8 \<and> bit (m (p - p mod 8)) (8 * (p mod 8) + n)"
  by (auto simp: byte_at_def bit_simps)

lemma same_bytes_word:
  assumes s: "same_bytes m d m0 a n" and al: "d mod 8 = 0" "a mod 8 = 0" "x mod 8 = 0" and x: "x + 8 \<le> n"
  shows "m (d + x) = m0 (a + x)"
proof (rule bit_word_eqI)
  fix k assume k: "k < LENGTH(64)"
  define i where "i = x + k div 8"
  have k8: "k div 8 < 8" using k by (simp add: less_mult_imp_div_less)
  have i: "i < n" "i mod 8 = k div 8" using x k8 al(3) by (auto simp: i_def mod_add_eq [symmetric])
  have md: "(d + i) mod 8 = k div 8" "(a + i) mod 8 = k div 8" using al(1,2) i(2) by (metis mod_add_eq add_0 mod_mod_trivial)+
  have mi: "d + i - k div 8 = d + x" "a + i - k div 8 = a + x" by (simp_all add: i_def)
  have "bit (byte_at m (d + i)) (k mod 8) = bit (byte_at m0 (a + i)) (k mod 8)" using s i(1) by (simp add: same_bytes_def)
  then show "bit (m (d + x)) k = bit (m0 (a + x)) k" by (simp add: bit_byte_at mi md)
qed

lemma byte_at_frame: "m (p - p mod 8) = m' (p - p mod 8) \<Longrightarrow> byte_at m p = byte_at m' p"
  by (simp add: byte_at_def)

lemma copy_bytes_outside: "a < dst \<or> dst + n \<le> a \<Longrightarrow> copy_bytes src dst n m a = m a"
  by (auto simp: copy_bytes_def)

lemma copy_bytes_same:
  assumes al: "dst mod 8 = 0" "src mod 8 = 0"
  shows "same_bytes (copy_bytes src dst n m) dst m src n"
  unfolding same_bytes_def
proof (intro allI impI)
  fix i assume i: "i < n"
  obtain x r where x: "i = x + r" "r < 8" "x mod 8 = 0"
    by (rule that [of "i - i mod 8" "i mod 8"]) (simp_all add: minus_mod_eq_mult_div)
  have md: "(dst + i) mod 8 = r" "(src + i) mod 8 = r" using al x by (metis mod_add_eq add_0 mod_less mod_mod_trivial)+
  have mi: "dst + i - r = dst + x" "src + i - r = src + x" using x(1) by simp_all
  have "bit (copy_bytes src dst n m (dst + x)) (8 * r + k) = bit (m (src + x)) (8 * r + k)" if k: "k < 8" for k
  proof (cases "8 \<le> n - x")
    case True
    then show ?thesis using x i by (simp add: copy_bytes_def)
  next
    case False
    have "8 * r + k < 8 * (n - x)" using i k x False by linarith
    then show ?thesis using x False i by (simp add: copy_bytes_def Let_def bit_simps)
  qed
  then show "byte_at (copy_bytes src dst n m) (dst + i) = byte_at m (src + i)"
    by (intro bit_word_eqI) (simp add: bit_byte_at mi md)
qed

lemma same_bytes_frame:
  assumes "same_bytes m d m0 a n" "d mod 8 = 0" "\<And>x. d \<le> x \<Longrightarrow> x < d + n \<Longrightarrow> m' x = m x"
  shows "same_bytes m' d m0 a n"
  unfolding same_bytes_def
proof (intro allI impI)
  fix i assume i: "i < n"
  have "(d + i) mod 8 = i mod 8" using assms(2) by (metis mod_add_eq add_0 mod_mod_trivial)
  moreover have "i mod 8 \<le> i" by simp
  ultimately have "d \<le> d + i - (d + i) mod 8" "d + i - (d + i) mod 8 < d + n" using i by linarith+
  then have "byte_at m' (d + i) = byte_at m (d + i)" by (intro byte_at_frame assms(3))
  then show "byte_at m' (d + i) = byte_at m0 (a + i)" using assms(1) i by (simp add: same_bytes_def)
qed

lemma same_bytes_shorter: "same_bytes m d m0 a n \<Longrightarrow> k \<le> n \<Longrightarrow> same_bytes m d m0 a k"
  by (simp add: same_bytes_def)

subsection \<open>Objects\<close>

definition header_size :: "memory \<Rightarrow> u64 \<Rightarrow> nat" where
  "header_size m v =
     (if tag_of v = TAG_CONS then 16 else if tag_of v = TAG_STRING then 8 + unat (m (address_of v)) else 32)"

definition stream_buffer :: "memory \<Rightarrow> nat \<Rightarrow> (nat \<times> nat) list" where
  "stream_buffer m s =
     (if is_string_stream s m
      then [(unat (m (s + STR_BUF_OFFSET)), unat (ucast (m (s + STR_CAP_OFFSET)) :: u32))] else [])"

definition vector_size :: "memory \<Rightarrow> nat \<Rightarrow> nat" where
  "vector_size m b = 8 * (1 + unat (m b) + unat (vector_total b m))"

definition parts :: "memory \<Rightarrow> u64 \<Rightarrow> (nat \<times> nat) list" where
  "parts m v =
     (let w = address_of v
      in if tag_of v \<noteq> TAG_INSTANCE then []
         else if m w = MAGIC_STREAM then (unat (m (w + 8)), STREAM_SIZE) # stream_buffer m (unat (m (w + 8)))
         else if m w = MAGIC_BIGNUM \<and> m (w + 16) \<noteq> 0 then [(unat (m (w + 24)), 8 * unat (m (w + 16)))]
         else if m w = MAGIC_VECTOR \<and> m (w + 8) \<noteq> 0 then [(unat (m (w + 8)), vector_size m (unat (m (w + 8))))]
         else [])"

definition blocks :: "memory \<Rightarrow> u64 \<Rightarrow> (nat \<times> nat) list" where
  "blocks m v = (address_of v, header_size m v) # parts m v"

text \<open>The fields of a plain instance, by its kind.\<close>

definition plain_slots :: "u64 \<Rightarrow> nat list" where
  "plain_slots magic =
     (if magic = MAGIC_FUNCTION_NATIVE then [24]
      else if magic = MAGIC_FUNCTION_INTERPRETED \<or> magic = MAGIC_MACRO \<or> magic = MAGIC_BUILTIN_CLASS \<or> magic = MAGIC_STANDARD_CLASS
      then [8, 16, 24]
      else if magic = MAGIC_PROCESS then [8, 24]
      else if magic = MAGIC_BLOCK_EXIT \<or> magic = MAGIC_CLASS_INSTANCE \<or> magic = MAGIC_CATCH_EXIT then [8, 16]
      else if magic = MAGIC_GO_EXIT then [8]
      else [])"

definition slots :: "memory \<Rightarrow> u64 \<Rightarrow> nat list" where
  "slots m v =
     (let w = address_of v
      in if tag_of v = TAG_CONS then [w, w + 8]
         else if tag_of v = TAG_SYMBOL then [w, w + 8, w + 16, w + 24]
         else if tag_of v \<noteq> TAG_INSTANCE then []
         else if m w = MAGIC_STREAM
         then (let s = unat (m (w + 8)) in [s + MOUNT_FILE_NODE_OFFSET, s + SELF_HANDLE_OFFSET, s + PENDING_TRANSFER_OFFSET])
         else if m w = MAGIC_VECTOR \<and> m (w + 8) \<noteq> 0
         then (let b = unat (m (w + 8)) in map (\<lambda>i. b + 8 * (1 + unat (m b)) + 8 * i) [0..<unat (vector_total b m)])
         else map (\<lambda>x. w + x) (plain_slots (m w)))"

definition words :: "memory \<Rightarrow> nat \<Rightarrow> nat \<Rightarrow> u64 list" where
  "words m a n = map (\<lambda>i. m (a + 8 * i)) [0..<n]"

definition bytes_of :: "memory \<Rightarrow> nat \<Rightarrow> nat \<Rightarrow> u8 list" where
  "bytes_of m a n = map (\<lambda>i. byte_at m (a + i)) [0..<n]"

definition plain_raw :: "memory \<Rightarrow> nat \<Rightarrow> u64 list" where
  "plain_raw m w = map (\<lambda>x. m (w + x)) (filter (\<lambda>x. x \<notin> set (plain_slots (m w))) [0, 8, 16, 24])"

lemma plain_raw_cong:
  assumes "m' w' = m w" "\<And>x. x \<in> {8, 16, 24} \<Longrightarrow> x \<notin> set (plain_slots (m w)) \<Longrightarrow> m' (w' + x) = m (w + x)"
  shows "plain_raw m' w' = plain_raw m w"
proof -
  have "m' (w' + x) = m (w + x)" if "x \<in> set (filter (\<lambda>x. x \<notin> set (plain_slots (m w))) [0, 8, 16, 24])" for x
  proof (cases "x = 0")
    case False
    then have "x \<in> {8, 16, 24}" "x \<notin> set (plain_slots (m w))" using that unfolding set_filter by auto
    then show ?thesis by (rule assms(2))
  qed (use assms(1) in simp)
  then show ?thesis unfolding plain_raw_def assms(1) by (intro map_cong refl) blast
qed

definition raw :: "memory \<Rightarrow> u64 \<Rightarrow> u64 list \<times> u8 list" where
  "raw m v =
     (let w = address_of v
      in if tag_of v = TAG_CONS \<or> tag_of v = TAG_SYMBOL then ([], [])
         else if tag_of v = TAG_STRING then ([m w], bytes_of m (w + 8) (unat (m w)))
         else if tag_of v \<noteq> TAG_INSTANCE then ([], [])
         else if m w = MAGIC_STREAM
         then (let s = unat (m (w + 8))
               in ([m w, m (w + 16), m (w + 24)] @ words m s 199 @ (if is_string_stream s m then [] else [m (s + STR_BUF_OFFSET)]) @
                     words m (s + STR_CAP_OFFSET) 4,
                   concat (map (\<lambda>(b, n). bytes_of m b n) (stream_buffer m s))))
         else if m w = MAGIC_BIGNUM \<and> m (w + 16) \<noteq> 0
         then (words m w 3 @ words m (unat (m (w + 24))) (unat (m (w + 16))), [])
         else if m w = MAGIC_VECTOR \<and> m (w + 8) \<noteq> 0
         then ([m w, m (w + 16), m (w + 24)] @ words m (unat (m (w + 8))) (1 + unat (m (unat (m (w + 8))))), [])
         else (plain_raw m w, []))"

definition fields :: "memory \<Rightarrow> u64 \<Rightarrow> u64 list" where "fields m v = map m (slots m v)"

definition room :: "(nat \<times> nat) list \<Rightarrow> nat set" where
  "room bs = (\<Union>(a, n)\<in>set bs. {a..<a + aligned_up n})"

lemma room_block: "(a, n) \<in> set bs \<Longrightarrow> a \<le> x \<Longrightarrow> x < a + n \<Longrightarrow> x \<in> room bs"
  using aligned_up_simps(1) [of n] by (force simp: room_def)

text \<open>An object is what its blocks hold.\<close>

lemma vector_total_cong: "(\<And>i. i < unat (m b) \<Longrightarrow> m' (b + 8 * (1 + i)) = m (b + 8 * (1 + i))) \<Longrightarrow> m' b = m b \<Longrightarrow>
  vector_total b m' = vector_total b m"
  unfolding vector_total_def by (intro fold_cong) auto

lemma header_in_blocks: "x < header_size m v \<Longrightarrow> address_of v + x \<in> room (blocks m v)"
  by (rule room_block [of "address_of v" "header_size m v"]) (simp_all add: blocks_def)

lemma words_cong: "(\<And>x. a \<le> x \<Longrightarrow> x < a + 8 * n \<Longrightarrow> m' x = m x) \<Longrightarrow> words m' a n = words m a n"
  by (simp add: words_def)

lemma bytes_of_cong:
  assumes "a mod 8 = 0" "\<And>x. a \<le> x \<Longrightarrow> x < a + n \<Longrightarrow> m' x = m x"
  shows "bytes_of m' a n = bytes_of m a n"
proof -
  have "same_bytes m' a m a n" by (rule same_bytes_frame [of m]) (use assms in \<open>auto simp: same_bytes_def\<close>)
  then show ?thesis by (simp add: bytes_of_def same_bytes_def)
qed

text \<open>The kinds of objects, each with its blocks.\<close>

lemma object_cases [case_names cons symbol string stream bignum vector plain other]:
  assumes "tag_of v = TAG_CONS \<Longrightarrow> P" "tag_of v = TAG_SYMBOL \<Longrightarrow> P" "tag_of v = TAG_STRING \<Longrightarrow> P"
    "tag_of v = TAG_INSTANCE \<Longrightarrow> m (address_of v) = MAGIC_STREAM \<Longrightarrow> P"
    "tag_of v = TAG_INSTANCE \<Longrightarrow> m (address_of v) = MAGIC_BIGNUM \<Longrightarrow> m (address_of v + 16) \<noteq> 0 \<Longrightarrow> P"
    "tag_of v = TAG_INSTANCE \<Longrightarrow> m (address_of v) = MAGIC_VECTOR \<Longrightarrow> m (address_of v + 8) \<noteq> 0 \<Longrightarrow> P"
    "tag_of v = TAG_INSTANCE \<Longrightarrow> m (address_of v) \<noteq> MAGIC_STREAM \<Longrightarrow>
       \<not> (m (address_of v) = MAGIC_BIGNUM \<and> m (address_of v + 16) \<noteq> 0) \<Longrightarrow>
       \<not> (m (address_of v) = MAGIC_VECTOR \<and> m (address_of v + 8) \<noteq> 0) \<Longrightarrow> P"
    "tag_of v \<notin> {TAG_CONS, TAG_SYMBOL, TAG_STRING, TAG_INSTANCE} \<Longrightarrow> P"
  shows P
  using assms by blast

lemmas object_layout_defs = blocks_def parts_def slots_def raw_def header_size_def Let_def

lemma tag_distinct [simp]:
  "TAG_CONS \<noteq> TAG_SYMBOL" "TAG_CONS \<noteq> TAG_STRING" "TAG_CONS \<noteq> TAG_INSTANCE" "TAG_SYMBOL \<noteq> TAG_CONS" "TAG_SYMBOL \<noteq> TAG_STRING"
  "TAG_SYMBOL \<noteq> TAG_INSTANCE" "TAG_STRING \<noteq> TAG_CONS" "TAG_STRING \<noteq> TAG_SYMBOL" "TAG_STRING \<noteq> TAG_INSTANCE"
  "TAG_INSTANCE \<noteq> TAG_CONS" "TAG_INSTANCE \<noteq> TAG_SYMBOL" "TAG_INSTANCE \<noteq> TAG_STRING"
  "MAGIC_STREAM \<noteq> MAGIC_BIGNUM" "MAGIC_STREAM \<noteq> MAGIC_VECTOR" "MAGIC_BIGNUM \<noteq> MAGIC_STREAM" "MAGIC_BIGNUM \<noteq> MAGIC_VECTOR"
  "MAGIC_VECTOR \<noteq> MAGIC_STREAM" "MAGIC_VECTOR \<noteq> MAGIC_BIGNUM"
  by (simp_all add: const_defs)

lemma stream_buffer_cong:
  "(\<And>x. s \<le> x \<Longrightarrow> x < s + STREAM_SIZE \<Longrightarrow> m' x = m x) \<Longrightarrow> stream_buffer m' s = stream_buffer m s"
  "(\<And>x. s \<le> x \<Longrightarrow> x < s + STREAM_SIZE \<Longrightarrow> m' x = m x) \<Longrightarrow> is_string_stream s m' = is_string_stream s m"
  by (simp_all add: stream_buffer_def is_string_stream_def STREAM_SIZE_def STR_BUF_OFFSET_def STR_CAP_OFFSET_def)

lemma plain_slots_none [simp]: "plain_slots MAGIC_STREAM = []" "plain_slots MAGIC_BIGNUM = []" "plain_slots MAGIC_VECTOR = []"
  by (simp_all add: plain_slots_def const_defs)

lemma plain_layout:
  assumes "tag_of v = TAG_INSTANCE" "m (address_of v) \<noteq> MAGIC_STREAM"
    "\<not> (m (address_of v) = MAGIC_BIGNUM \<and> m (address_of v + 16) \<noteq> 0)"
    "\<not> (m (address_of v) = MAGIC_VECTOR \<and> m (address_of v + 8) \<noteq> 0)"
  shows "blocks m v = [(address_of v, 32)]" "slots m v = map (\<lambda>x. address_of v + x) (plain_slots (m (address_of v)))"
    "raw m v = (plain_raw m (address_of v), [])"
  unfolding object_layout_defs using assms by (simp_all only: tag_distinct if_False if_True simp_thms)

lemma plain_slots_bound: "x \<in> set (plain_slots magic) \<Longrightarrow> x \<in> {8, 16, 24}"
  by (auto simp: plain_slots_def split: if_splits)

lemma slots_in_blocks: "a \<in> set (slots m v) \<Longrightarrow> a \<in> room (blocks m v) \<and> (\<exists>b k. (b, k) \<in> set (blocks m v) \<and> b \<le> a \<and> a + 8 \<le> b + k)"
proof -
  assume a: "a \<in> set (slots m v)"
  have "\<exists>b k. (b, k) \<in> set (blocks m v) \<and> b \<le> a \<and> a + 8 \<le> b + k"
  proof (cases rule: object_cases [where v = v and m = m])
    case stream then show ?thesis using a
      by (intro exI [of _ "unat (m (address_of v + 8))"] exI [of _ STREAM_SIZE])
        (auto simp: object_layout_defs STREAM_SIZE_def MOUNT_FILE_NODE_OFFSET_def SELF_HANDLE_OFFSET_def PENDING_TRANSFER_OFFSET_def)
  next
    case vector then show ?thesis using a
      by (intro exI [of _ "unat (m (address_of v + 8))"] exI [of _ "vector_size m (unat (m (address_of v + 8)))"])
        (auto simp: object_layout_defs vector_size_def)
  next
    case plain then show ?thesis using a
      by (intro exI [of _ "address_of v"] exI [of _ 32]) (auto simp: object_layout_defs dest!: plain_slots_bound)
  qed (use a in \<open>auto simp: object_layout_defs\<close>)
  then show ?thesis by (meson room_block less_le_trans less_add_same_cancel1 zero_less_numeral)
qed

lemma object_frame:
  assumes eq: "\<And>x. x \<in> room (blocks m v) \<Longrightarrow> m' x = m x"
    and al: "\<And>b. b \<in> set (blocks m v) \<Longrightarrow> 16 dvd fst b"
  shows "blocks m' v = blocks m v" "slots m' v = slots m v" "raw m' v = raw m v" "fields m' v = fields m v"
proof -
  let ?w = "address_of v"
  have h: "m' (?w + x) = m (?w + x)" if "x < header_size m v" for x using eq header_in_blocks [OF that] by blast
  have p: "m' x = m x" if "(a, n) \<in> set (parts m v)" "a \<le> x" "x < a + n" for a n x
    by (rule eq, rule room_block [OF _ that(2,3)]) (use that(1) in \<open>simp add: blocks_def\<close>)
  have w0: "m' ?w = m ?w" using h [of 0] by (simp add: header_size_def)
  have w: "m' (?w + 8) = m (?w + 8)" "m' (?w + 16) = m (?w + 16)" "m' (?w + 24) = m (?w + 24)" if "tag_of v = TAG_INSTANCE"
    using that h by (simp_all add: header_size_def)
  have "blocks m' v = blocks m v \<and> slots m' v = slots m v \<and> raw m' v = raw m v"
  proof (cases rule: object_cases [where v = v and m = m])
    case string
    have "m' x = m x" if "?w + 8 \<le> x" "x < ?w + 8 + unat (m ?w)" for x
      using h [of "x - ?w"] that string by (simp add: header_size_def)
    then have "bytes_of m' (?w + 8) (unat (m ?w)) = bytes_of m (?w + 8) (unat (m ?w))" by (intro bytes_of_cong) simp_all
    then show ?thesis using string w0 by (simp add: object_layout_defs)
  next
    case stream
    let ?s = "unat (m (?w + 8))"
    have s: "m' x = m x" if "?s \<le> x" "x < ?s + STREAM_SIZE" for x
      using p [of ?s STREAM_SIZE x] stream that by (simp add: parts_def Let_def)
    note c = stream_buffer_cong [of ?s m' m, OF s]
    have "bytes_of m' b n = bytes_of m b n" if "(b, n) \<in> set (stream_buffer m ?s)" for b n
      by (rule bytes_of_cong) (use stream that p [of b n] al [of "(b, n)"] in \<open>auto simp: parts_def blocks_def Let_def intro: dvd16_mod8\<close>)
    then have "concat (map (\<lambda>(b, n). bytes_of m' b n) (stream_buffer m ?s)) = concat (map (\<lambda>(b, n). bytes_of m b n) (stream_buffer m ?s))"
      by (intro arg_cong [where f = concat]) auto
    moreover have "words m' ?s 199 = words m ?s 199" "words m' (?s + STR_CAP_OFFSET) 4 = words m (?s + STR_CAP_OFFSET) 4"
      by (auto intro!: words_cong s simp: STREAM_SIZE_def STR_CAP_OFFSET_def)
    moreover have "m' (?s + STR_BUF_OFFSET) = m (?s + STR_BUF_OFFSET)" by (rule s) (simp_all add: STREAM_SIZE_def STR_BUF_OFFSET_def)
    ultimately show ?thesis using stream w0 w c by (simp add: object_layout_defs)
  next
    case bignum
    then have "m' x = m x" if "unat (m (?w + 24)) \<le> x" "x < unat (m (?w + 24)) + 8 * unat (m (?w + 16))" for x
      using p [of "unat (m (?w + 24))" "8 * unat (m (?w + 16))" x] that by (simp add: parts_def Let_def)
    then have "words m' (unat (m (?w + 24))) (unat (m (?w + 16))) = words m (unat (m (?w + 24))) (unat (m (?w + 16)))"
      by (rule words_cong)
    moreover have "words m' ?w 3 = words m ?w 3" using bignum w0 w by (simp add: words_def numeral_3_eq_3)
    ultimately show ?thesis using bignum w0 w by (simp add: object_layout_defs)
  next
    case vector
    let ?b = "unat (m (?w + 8))"
    have b: "m' x = m x" if "?b \<le> x" "x < ?b + vector_size m ?b" for x
      using p [of ?b "vector_size m ?b" x] vector that by (simp add: parts_def Let_def)
    have b0: "m' ?b = m ?b" by (rule b) (simp_all add: vector_size_def)
    moreover have t: "vector_total ?b m' = vector_total ?b m"
    proof (rule vector_total_cong)
      show "m' (?b + 8 * (1 + i)) = m (?b + 8 * (1 + i))" if "i < unat (m ?b)" for i
        by (rule b) (use that in \<open>simp_all add: vector_size_def\<close>)
    qed (rule b0)
    moreover have "words m' ?b (1 + unat (m ?b)) = words m ?b (1 + unat (m ?b))"
    proof (rule words_cong)
      show "m' x = m x" if "?b \<le> x" "x < ?b + 8 * (1 + unat (m ?b))" for x
        by (rule b) (use that in \<open>simp_all add: vector_size_def\<close>)
    qed
    ultimately show ?thesis using vector w0 w by (simp add: object_layout_defs vector_size_def)
  next
    case plain
    have "plain_raw m' ?w = plain_raw m ?w" using w0 w [OF plain(1)] by (intro plain_raw_cong) auto
    moreover have p: "m' ?w \<noteq> MAGIC_STREAM" "\<not> (m' ?w = MAGIC_BIGNUM \<and> m' (?w + 16) \<noteq> 0)" "\<not> (m' ?w = MAGIC_VECTOR \<and> m' (?w + 8) \<noteq> 0)"
      unfolding w0 w [OF plain(1)] using plain by blast+
    ultimately show ?thesis unfolding plain_layout [OF plain] plain_layout [OF plain(1) p] w0 by blast
  next
    case cons then show ?thesis by (simp add: object_layout_defs)
  next
    case symbol then show ?thesis by (simp add: object_layout_defs)
  next
    case other then show ?thesis by (simp add: object_layout_defs)
  qed
  then show "blocks m' v = blocks m v" and sl: "slots m' v = slots m v" and "raw m' v = raw m v" by simp_all
  show "fields m' v = fields m v" unfolding fields_def sl using eq slots_in_blocks by (intro map_cong) blast+
qed

subsection \<open>Well-formed heaps\<close>

definition is_ref :: "heap \<Rightarrow> u64 \<Rightarrow> bool" where
  "is_ref h v \<longleftrightarrow> v \<noteq> nil h \<and> os_tag_is_heap_ref (tag_of v)"

text \<open>What the roots reach.\<close>

inductive_set live :: "heap \<Rightarrow> u64 set" for h where
  live_root: "a \<in> set (gc_roots h) \<union> set (function_cells h) \<Longrightarrow> is_ref h (mem h a) \<Longrightarrow> mem h a \<in> live h"
| live_field: "v \<in> live h \<Longrightarrow> w \<in> set (fields (mem h) v) \<Longrightarrow> is_ref h w \<Longrightarrow> w \<in> live h"

definition sep :: "nat \<times> nat \<Rightarrow> nat \<times> nat \<Rightarrow> bool" where
  "sep b c \<longleftrightarrow> fst b + aligned_up (snd b) \<le> fst c \<or> fst c + aligned_up (snd c) \<le> fst b"

definition inside :: "nat \<Rightarrow> nat \<Rightarrow> nat \<times> nat \<Rightarrow> bool" where
  "inside lo hi b \<longleftrightarrow> 16 dvd fst b \<and> lo \<le> fst b \<and> fst b + aligned_up (snd b) \<le> hi"

definition outside :: "heap \<Rightarrow> nat \<Rightarrow> bool" where
  "outside h a \<longleftrightarrow> \<not> (g_from_start h \<le> a \<and> a < g_from_end h) \<and> \<not> (g_to_start h \<le> a \<and> a < g_to_end h)"

definition spaces_ok :: "heap \<Rightarrow> bool" where
  "spaces_ok h \<longleftrightarrow> 16 dvd g_from_start h \<and> 16 dvd g_from_ptr h \<and> 16 dvd g_to_start h \<and> 4096 \<le> g_from_start h \<and> 4096 \<le> g_to_start h \<and>
     g_from_start h \<le> g_from_ptr h \<and> g_from_ptr h \<le> g_from_end h \<and>
     g_to_end h = g_to_start h + (g_from_end h - g_from_start h) \<and> (g_from_end h \<le> g_to_start h \<or> g_to_end h \<le> g_from_start h) \<and>
     g_from_end h < 2 ^ 64 \<and> g_to_end h < 2 ^ 64 \<and> outside h (address_of (nil h))"

text \<open>
  An object in from-space. Only a string, whose first word is its length, may have a first word
  that looks like a forwarding header, and then not one into the heap.
\<close>

definition object_ok :: "heap \<Rightarrow> u64 \<Rightarrow> bool" where
  "object_ok h v \<longleftrightarrow> tag_of v \<in> {TAG_CONS, TAG_SYMBOL, TAG_STRING, TAG_INSTANCE} \<and>
     (\<forall>b\<in>set (blocks (mem h) v). inside (g_from_start h) (g_from_ptr h) b) \<and> sorted_wrt sep (blocks (mem h) v) \<and>
     (tag_of (mem h (address_of v)) = TAG_FORWARD \<longrightarrow> tag_of v = TAG_STRING \<and> outside h (address_of (mem h (address_of v))))"

definition heap_ok :: "heap \<Rightarrow> bool" where
  "heap_ok h \<longleftrightarrow> spaces_ok h \<and> (\<forall>a\<in>set (gc_roots h) \<union> set (function_cells h). outside h a) \<and>
     (\<forall>v\<in>live h. object_ok h v) \<and>
     (\<forall>v\<in>live h. \<forall>w\<in>live h. v \<noteq> w \<longrightarrow> (\<forall>b\<in>set (blocks (mem h) v). \<forall>c\<in>set (blocks (mem h) w). sep b c))"

lemma heap_okD:
  assumes "heap_ok h"
  shows "spaces_ok h" "a \<in> set (gc_roots h) \<Longrightarrow> outside h a" "a \<in> set (function_cells h) \<Longrightarrow> outside h a"
    "v \<in> live h \<Longrightarrow> object_ok h v"
    "v \<in> live h \<Longrightarrow> w \<in> live h \<Longrightarrow> v \<noteq> w \<Longrightarrow> b \<in> set (blocks (mem h) v) \<Longrightarrow> c \<in> set (blocks (mem h) w) \<Longrightarrow> sep b c"
  using assms by (auto simp: heap_ok_def)

lemma live_is_ref: "v \<in> live h \<Longrightarrow> is_ref h v"
  by (cases rule: live.cases) auto

lemma header_positive: "8 \<le> header_size m v"
  by (simp add: header_size_def)

lemma header_block: "(address_of v, header_size m v) \<in> set (blocks m v)"
  by (simp add: blocks_def)

lemma address_distinct:
  assumes "heap_ok h" "v \<in> live h" "w \<in> live h" "address_of v = address_of w"
  shows "v = w"
proof (rule ccontr)
  assume "v \<noteq> w"
  then have "sep (address_of v, header_size (mem h) v) (address_of w, header_size (mem h) w)"
    by (rule heap_okD(5) [OF assms(1-3)]) (rule header_block)+
  then show False
    using assms(4) header_positive [of "mem h" v] header_positive [of "mem h" w] aligned_up_simps(1) [of "header_size (mem h) v"]
      aligned_up_simps(1) [of "header_size (mem h) w"] by (simp add: sep_def)
qed

lemma header_inside:
  assumes "heap_ok h" "v \<in> live h"
  shows "g_from_start h \<le> address_of v" "address_of v + aligned_up (header_size (mem h) v) \<le> g_from_ptr h"
    "address_of v < g_from_end h"
proof -
  have i: "inside (g_from_start h) (g_from_ptr h) (address_of v, header_size (mem h) v)"
    using heap_okD(4) [OF assms] header_block by (auto simp: object_ok_def)
  then show "g_from_start h \<le> address_of v" "address_of v + aligned_up (header_size (mem h) v) \<le> g_from_ptr h" by (simp_all add: inside_def)
  then show "address_of v < g_from_end h"
    using heap_okD(1) [OF assms(1)] header_positive [of "mem h" v] aligned_up_simps(1) [of "header_size (mem h) v"] by (simp add: spaces_ok_def)
qed

lemma finite_live: "heap_ok h \<Longrightarrow> finite (live h)"
proof (rule finite_imageD [of address_of])
  assume h: "heap_ok h"
  have "address_of ` live h \<subseteq> {..<g_from_end h}"
  proof
    fix a assume "a \<in> address_of ` live h"
    then obtain v where "v \<in> live h" "a = address_of v" by (rule imageE)
    then show "a \<in> {..<g_from_end h}" using header_inside(3) [OF h, of v] by simp
  qed
  then show "finite (address_of ` live h)" by (rule finite_subset) simp
  show "inj_on address_of (live h)" by (rule inj_onI) (rule address_distinct [OF h])
qed

text \<open>The room that the live objects take is no more than what has been allocated.\<close>

definition total_size :: "(nat \<times> nat) list \<Rightarrow> nat" where "total_size bs = (\<Sum>b\<leftarrow>bs. aligned_up (snd b))"

lemma total_size_simps [simp]: "total_size [] = 0" "total_size (b # bs) = aligned_up (snd b) + total_size bs"
  "total_size (bs @ cs) = total_size bs + total_size cs"
  by (simp_all add: total_size_def)

lemma total_size_snd: "total_size bs = sum_list (map aligned_up (map snd bs))"
  by (simp add: total_size_def comp_def)

lemma sep_disjoint: "sep b c \<Longrightarrow> {fst b..<fst b + aligned_up (snd b)} \<inter> {fst c..<fst c + aligned_up (snd c)} = {}"
  by (auto simp: sep_def)

lemma room_simps [simp]: "room [] = {}" "room (b # bs) = {fst b..<fst b + aligned_up (snd b)} \<union> room bs" "room (bs @ cs) = room bs \<union> room cs"
  by (auto simp: room_def split: prod.splits)

lemma finite_room [simp]: "finite (room bs)"
  by (auto simp: room_def)

lemma sep_room: "(\<And>b c. b \<in> set bs \<Longrightarrow> c \<in> set cs \<Longrightarrow> sep b c) \<Longrightarrow> room bs \<inter> room cs = {}"
  unfolding room_def using sep_disjoint by fastforce

lemma card_room: "sorted_wrt sep bs \<Longrightarrow> card (room bs) = total_size bs"
proof (induction bs)
  case (Cons b bs)
  have "{fst b..<fst b + aligned_up (snd b)} \<inter> room bs = {}" using sep_room [of "[b]" bs] Cons.prems by simp
  then show ?case using Cons by (simp add: card_Un_disjoint)
qed simp

lemma room_inside: "(\<And>b. b \<in> set bs \<Longrightarrow> inside lo hi b) \<Longrightarrow> room bs \<subseteq> {lo..<hi}"
  by (force simp: room_def inside_def)

lemma live_fits:
  assumes "heap_ok h"
  shows "(\<Sum>v\<in>live h. total_size (blocks (mem h) v)) \<le> g_from_ptr h - g_from_start h"
proof -
  let ?R = "\<lambda>v. room (blocks (mem h) v)"
  have "(\<Sum>v\<in>live h. total_size (blocks (mem h) v)) = (\<Sum>v\<in>live h. card (?R v))"
    using heap_okD(4) [OF assms] by (intro sum.cong refl) (simp add: card_room object_ok_def)
  also have "\<dots> = card (\<Union>v\<in>live h. ?R v)"
    using heap_okD(5) [OF assms] by (intro card_UN_disjoint [symmetric] finite_live [OF assms]) (auto intro!: sep_room)
  also have "\<dots> \<le> card {g_from_start h..<g_from_ptr h}"
    using heap_okD(4) [OF assms] room_inside by (intro card_mono UN_least finite_atLeastLessThan) (simp add: object_ok_def room_inside)
  finally show ?thesis by simp
qed

subsection \<open>The invariant of the collector\<close>

text \<open>What does not change during a collection.\<close>

definition same_frame :: "heap \<Rightarrow> heap \<Rightarrow> bool" where
  "same_frame h0 h \<longleftrightarrow> h = h0\<lparr>mem := mem h, g_to_ptr := g_to_ptr h, g_gc_queue := g_gc_queue h, g_gc_queue_head := g_gc_queue_head h,
     g_gc_queue_tail := g_gc_queue_tail h, g_gc_collect_count := g_gc_collect_count h\<rparr>"

lemma same_frameD:
  assumes "same_frame h0 h"
  shows "nil h = nil h0" "g_from_start h = g_from_start h0" "g_from_ptr h = g_from_ptr h0" "g_from_end h = g_from_end h0"
    "g_to_start h = g_to_start h0" "g_to_end h = g_to_end h0" "globals h = globals h0" "symbol_table h = symbol_table h0"
    "cached_symbols h = cached_symbols h0" "extra_roots h = extra_roots h0" "shadow_stacks h = shadow_stacks h0"
    "function_cells h = function_cells h0" "g_heap_exhausted_pending h = g_heap_exhausted_pending h0" "g_in_heap_signal h = g_in_heap_signal h0"
proof -
  obtain m p q i j c where h: "h = h0\<lparr>mem := m, g_to_ptr := p, g_gc_queue := q, g_gc_queue_head := i, g_gc_queue_tail := j, g_gc_collect_count := c\<rparr>"
    using assms unfolding same_frame_def by blast
  show "nil h = nil h0" "g_from_start h = g_from_start h0" "g_from_ptr h = g_from_ptr h0" "g_from_end h = g_from_end h0"
    "g_to_start h = g_to_start h0" "g_to_end h = g_to_end h0" "globals h = globals h0" "symbol_table h = symbol_table h0"
    "cached_symbols h = cached_symbols h0" "extra_roots h = extra_roots h0" "shadow_stacks h = shadow_stacks h0"
    "function_cells h = function_cells h0" "g_heap_exhausted_pending h = g_heap_exhausted_pending h0" "g_in_heap_signal h = g_in_heap_signal h0"
    unfolding h by simp_all
qed

definition queue_of :: "heap \<Rightarrow> u64 list" where
  "queue_of h = map (\<lambda>i. g_gc_queue h (i mod GC_QUEUE_CAPACITY)) [g_gc_queue_head h..<g_gc_queue_tail h]"

definition queue_bounded :: "heap \<Rightarrow> bool" where
  "queue_bounded h \<longleftrightarrow> g_gc_queue_head h \<le> g_gc_queue_tail h \<and> g_gc_queue_tail h - g_gc_queue_head h \<le> GC_QUEUE_CAPACITY"

lemma push_queue:
  assumes "queue_bounded h"
  shows "gc_queue_push x h = (if length (queue_of h) < GC_QUEUE_CAPACITY
     then Inr (h\<lparr>g_gc_queue := (g_gc_queue h)(g_gc_queue_tail h mod GC_QUEUE_CAPACITY := x), g_gc_queue_tail := g_gc_queue_tail h + 1\<rparr>)
     else Inl Queue_exhausted)"
    "length (queue_of h) < GC_QUEUE_CAPACITY \<Longrightarrow> gc_queue_push x h = Inr h' \<Longrightarrow> queue_of h' = queue_of h @ [x] \<and> queue_bounded h'"
proof -
  show "gc_queue_push x h = (if length (queue_of h) < GC_QUEUE_CAPACITY
     then Inr (h\<lparr>g_gc_queue := (g_gc_queue h)(g_gc_queue_tail h mod GC_QUEUE_CAPACITY := x), g_gc_queue_tail := g_gc_queue_tail h + 1\<rparr>)
     else Inl Queue_exhausted)"
    by (simp add: gc_queue_push_def queue_of_def)
next
  assume l: "length (queue_of h) < GC_QUEUE_CAPACITY" and p: "gc_queue_push x h = Inr h'"
  let ?t = "g_gc_queue_tail h" and ?C = GC_QUEUE_CAPACITY
  have h': "h' = h\<lparr>g_gc_queue := (g_gc_queue h)(?t mod ?C := x), g_gc_queue_tail := ?t + 1\<rparr>"
    using p l by (simp add: gc_queue_push_def queue_of_def split: if_splits)
  have "i mod ?C \<noteq> ?t mod ?C" if "g_gc_queue_head h \<le> i" "i < ?t" for i
  proof
    assume "i mod ?C = ?t mod ?C"
    then have "?C dvd ?t - i" using that(2) by (metis mod_eq_dvd_iff_nat less_imp_le)
    then have "?C \<le> ?t - i" using that(2) by (auto dest: dvd_imp_le)
    then show False using l that by (simp add: queue_of_def)
  qed
  then have "map (\<lambda>i. g_gc_queue h' (i mod ?C)) [g_gc_queue_head h..<?t] = queue_of h"
    unfolding queue_of_def h' by (intro map_cong) auto
  moreover have "[g_gc_queue_head h..<?t + 1] = [g_gc_queue_head h..<?t] @ [?t]" using assms by (simp add: queue_bounded_def)
  ultimately have "queue_of h' = queue_of h @ [x]" unfolding queue_of_def h' by simp
  then show "queue_of h' = queue_of h @ [x] \<and> queue_bounded h'"
    using assms l by (auto simp: queue_bounded_def h' queue_of_def)
qed

lemma pop_queue:
  assumes "queue_bounded h"
  shows "queue_of h = [] \<Longrightarrow> gc_queue_pop h = None"
    "queue_of h = x # xs \<Longrightarrow> gc_queue_pop h = Some (x, h\<lparr>g_gc_queue_head := g_gc_queue_head h + 1\<rparr>)"
    "queue_of h = x # xs \<Longrightarrow> queue_of (h\<lparr>g_gc_queue_head := g_gc_queue_head h + 1\<rparr>) = xs \<and>
       queue_bounded (h\<lparr>g_gc_queue_head := g_gc_queue_head h + 1\<rparr>)"
proof -
  show "queue_of h = [] \<Longrightarrow> gc_queue_pop h = None" using assms by (auto simp: queue_of_def gc_queue_pop_def queue_bounded_def)
  assume q: "queue_of h = x # xs"
  have "\<not> g_gc_queue_tail h \<le> g_gc_queue_head h"
  proof
    assume "g_gc_queue_tail h \<le> g_gc_queue_head h"
    then show False using q by (simp add: queue_of_def)
  qed
  then have lt: "g_gc_queue_head h < g_gc_queue_tail h" by simp
  then have "[g_gc_queue_head h..<g_gc_queue_tail h] = g_gc_queue_head h # [Suc (g_gc_queue_head h)..<g_gc_queue_tail h]"
    by (rule upt_conv_Cons)
  then have q': "x = g_gc_queue h (g_gc_queue_head h mod GC_QUEUE_CAPACITY)"
    "xs = map (\<lambda>i. g_gc_queue h (i mod GC_QUEUE_CAPACITY)) [Suc (g_gc_queue_head h)..<g_gc_queue_tail h]"
    using q by (simp_all add: queue_of_def)
  show "gc_queue_pop h = Some (x, h\<lparr>g_gc_queue_head := g_gc_queue_head h + 1\<rparr>)" using lt q' by (simp add: gc_queue_pop_def)
  show "queue_of (h\<lparr>g_gc_queue_head := g_gc_queue_head h + 1\<rparr>) = xs \<and> queue_bounded (h\<lparr>g_gc_queue_head := g_gc_queue_head h + 1\<rparr>)"
    using lt q' assms by (auto simp: queue_of_def queue_bounded_def)
qed

definition moved :: "heap \<Rightarrow> (u64 \<Rightarrow> u64) \<Rightarrow> u64 \<Rightarrow> u64" where
  "moved h f v = (if is_ref h v then f v else v)"

text \<open>From-space: forwarding headers in what has been copied, the rest as it was.\<close>

definition from_ok :: "heap \<Rightarrow> (u64 \<Rightarrow> u64) \<Rightarrow> u64 set \<Rightarrow> heap \<Rightarrow> bool" where
  "from_ok h0 f D h \<longleftrightarrow> (\<forall>v\<in>D. mem h (address_of v) = tagged (address_of (f v)) TAG_FORWARD) \<and>
     (\<forall>x. g_from_start h0 \<le> x \<longrightarrow> x < g_from_end h0 \<longrightarrow> x \<notin> address_of ` D \<longrightarrow> mem h x = mem h0 x)"

text \<open>The blocks given to the copies.\<close>

definition copies_ok :: "heap \<Rightarrow> (u64 \<Rightarrow> u64) \<Rightarrow> (u64 \<Rightarrow> (nat \<times> nat) list) \<Rightarrow> u64 set \<Rightarrow> heap \<Rightarrow> bool" where
  "copies_ok h0 f T D h \<longleftrightarrow>
     (\<forall>v\<in>D. tag_of (f v) = tag_of v \<and> T v \<noteq> [] \<and> fst (hd (T v)) = address_of (f v) \<and>
        prefix (map snd (T v)) (map snd (blocks (mem h0) v)) \<and>
        (\<forall>b\<in>set (T v). inside (g_to_start h0) (g_to_ptr h) b) \<and> sorted_wrt sep (T v)) \<and>
     (\<forall>v\<in>D. \<forall>w\<in>D. v \<noteq> w \<longrightarrow> (\<forall>b\<in>set (T v). \<forall>c\<in>set (T w). sep b c)) \<and>
     g_to_ptr h = g_to_start h0 + (\<Sum>v\<in>D. total_size (T v))"

definition gray_ok :: "heap \<Rightarrow> (u64 \<Rightarrow> u64) \<Rightarrow> (u64 \<Rightarrow> (nat \<times> nat) list) \<Rightarrow> u64 \<Rightarrow> memory \<Rightarrow> bool" where
  "gray_ok h0 f T v m \<longleftrightarrow> T v = [(address_of (f v), header_size (mem h0) v)] \<and>
     same_bytes m (address_of (f v)) (mem h0) (address_of v) (header_size (mem h0) v)"

definition black_ok :: "heap \<Rightarrow> (u64 \<Rightarrow> u64) \<Rightarrow> (u64 \<Rightarrow> (nat \<times> nat) list) \<Rightarrow> u64 set \<Rightarrow> u64 \<Rightarrow> memory \<Rightarrow> bool" where
  "black_ok h0 f T D v m \<longleftrightarrow> T v = blocks m (f v) \<and> map snd (T v) = map snd (blocks (mem h0) v) \<and> raw m (f v) = raw (mem h0) v \<and>
     fields m (f v) = map (moved h0 f) (fields (mem h0) v) \<and> (\<forall>w\<in>set (fields (mem h0) v). is_ref h0 w \<longrightarrow> w \<in> D)"

definition gc_inv :: "heap \<Rightarrow> (u64 \<Rightarrow> u64) \<Rightarrow> (u64 \<Rightarrow> (nat \<times> nat) list) \<Rightarrow> u64 set \<Rightarrow> u64 list \<Rightarrow> u64 set \<Rightarrow> heap \<Rightarrow> bool" where
  "gc_inv h0 f T B G W h \<longleftrightarrow> same_frame h0 h \<and> queue_bounded h \<and> queue_of h = map f G \<and> distinct G \<and> set G \<inter> B = {} \<and>
     W \<inter> (B \<union> set G) = {} \<and> B \<union> set G \<union> W \<subseteq> live h0 \<and> from_ok h0 f (B \<union> set G \<union> W) h \<and> copies_ok h0 f T (B \<union> set G \<union> W) h \<and>
     (\<forall>v\<in>set G. gray_ok h0 f T v (mem h)) \<and> (\<forall>v\<in>B. black_ok h0 f T (B \<union> set G \<union> W) v (mem h))"

lemma gc_invD:
  assumes "gc_inv h0 f T B G W h"
  shows "same_frame h0 h" "queue_bounded h" "queue_of h = map f G" "distinct G" "set G \<inter> B = {}" "W \<inter> (B \<union> set G) = {}"
    "B \<union> set G \<union> W \<subseteq> live h0" "from_ok h0 f (B \<union> set G \<union> W) h" "copies_ok h0 f T (B \<union> set G \<union> W) h"
    "v \<in> set G \<Longrightarrow> gray_ok h0 f T v (mem h)" "v \<in> B \<Longrightarrow> black_ok h0 f T (B \<union> set G \<union> W) v (mem h)"
  using assms by (auto simp: gc_inv_def)

text \<open>Memory that belongs to no finished or waiting copy and not to from-space is free to change.\<close>

lemma gray_frame:
  assumes "gray_ok h0 f T v m" "\<And>x. x \<in> room (T v) \<Longrightarrow> m' x = m x"
  shows "gray_ok h0 f T v m'"
proof -
  have "same_bytes m' (address_of (f v)) (mem h0) (address_of v) (header_size (mem h0) v)"
  proof (rule same_bytes_frame [of m])
    show "m' x = m x" if "address_of (f v) \<le> x" "x < address_of (f v) + header_size (mem h0) v" for x
      by (rule assms(2), rule room_block [OF _ that]) (use assms(1) in \<open>simp add: gray_ok_def\<close>)
  qed (use assms(1) in \<open>simp_all add: gray_ok_def\<close>)
  then show ?thesis using assms(1) by (simp add: gray_ok_def)
qed

lemma black_frame:
  assumes "black_ok h0 f T D v m" "\<And>x. x \<in> room (T v) \<Longrightarrow> m' x = m x" "\<And>b. b \<in> set (T v) \<Longrightarrow> 16 dvd fst b"
  shows "black_ok h0 f T D v m'"
proof -
  have t: "T v = blocks m (f v)" using assms(1) by (simp add: black_ok_def)
  have al: "16 dvd fst b" if "b \<in> set (blocks m (f v))" for b using assms(3) that unfolding t by blast
  have eq: "m' x = m x" if "x \<in> room (blocks m (f v))" for x using assms(2) that unfolding t by blast
  show ?thesis using assms(1) object_frame [of m "f v" m', OF eq al] unfolding black_ok_def by metis
qed

subsection \<open>Steps of the collector\<close>

lemma same_frame_iff:
  "same_frame h0 h \<longleftrightarrow> (\<exists>m p q i j c. h = h0\<lparr>mem := m, g_to_ptr := p, g_gc_queue := q, g_gc_queue_head := i, g_gc_queue_tail := j,
     g_gc_collect_count := c\<rparr>)"
proof
  assume "\<exists>m p q i j c. h = h0\<lparr>mem := m, g_to_ptr := p, g_gc_queue := q, g_gc_queue_head := i, g_gc_queue_tail := j, g_gc_collect_count := c\<rparr>"
  then obtain m p q i j c where
    h: "h = h0\<lparr>mem := m, g_to_ptr := p, g_gc_queue := q, g_gc_queue_head := i, g_gc_queue_tail := j, g_gc_collect_count := c\<rparr>" by blast
  show "same_frame h0 h" unfolding same_frame_def h by simp
qed (unfold same_frame_def, blast)

lemma same_frame_updates [simp]:
  assumes "same_frame h0 h"
  shows "same_frame h0 (h\<lparr>mem := m\<rparr>)" "same_frame h0 (h\<lparr>g_to_ptr := p\<rparr>)" "same_frame h0 (h\<lparr>g_gc_queue := q\<rparr>)"
    "same_frame h0 (h\<lparr>g_gc_queue_head := i\<rparr>)" "same_frame h0 (h\<lparr>g_gc_queue_tail := i\<rparr>)"
proof -
  obtain m' p' q' i' j' c' where
    h: "h = h0\<lparr>mem := m', g_to_ptr := p', g_gc_queue := q', g_gc_queue_head := i', g_gc_queue_tail := j', g_gc_collect_count := c'\<rparr>"
    using assms unfolding same_frame_iff by blast
  show "same_frame h0 (h\<lparr>mem := m\<rparr>)" "same_frame h0 (h\<lparr>g_to_ptr := p\<rparr>)" "same_frame h0 (h\<lparr>g_gc_queue := q\<rparr>)"
    "same_frame h0 (h\<lparr>g_gc_queue_head := i\<rparr>)" "same_frame h0 (h\<lparr>g_gc_queue_tail := i\<rparr>)"
    unfolding same_frame_def h by simp_all
qed

lemma queue_updates [simp]:
  "queue_of (h\<lparr>mem := m\<rparr>) = queue_of h" "queue_of (h\<lparr>g_to_ptr := p\<rparr>) = queue_of h"
  "queue_bounded (h\<lparr>mem := m\<rparr>) = queue_bounded h" "queue_bounded (h\<lparr>g_to_ptr := p\<rparr>) = queue_bounded h"
  by (simp_all add: queue_of_def queue_bounded_def)

lemma copies_mem [simp]: "copies_ok h0 f T D (h\<lparr>mem := m\<rparr>) = copies_ok h0 f T D h"
  by (simp add: copies_ok_def)

lemma inv_mem:
  assumes h0: "heap_ok h0" and i: "gc_inv h0 f T B G W h"
    and fr: "\<And>x. g_from_start h0 \<le> x \<Longrightarrow> x < g_from_end h0 \<Longrightarrow> m' x = mem h x"
    and rm: "\<And>v x. v \<in> B \<union> set G \<Longrightarrow> x \<in> room (T v) \<Longrightarrow> m' x = mem h x"
  shows "gc_inv h0 f T B G W (h\<lparr>mem := m'\<rparr>)"
proof -
  note c = gc_invD [OF i]
  have al: "16 dvd fst b" if "v \<in> B" "b \<in> set (T v)" for v b using c(9) that by (auto simp: copies_ok_def inside_def)
  have "from_ok h0 f (B \<union> set G \<union> W) (h\<lparr>mem := m'\<rparr>)"
    using c(7,8) header_inside(1,3) [OF h0] fr by (fastforce simp: from_ok_def)
  moreover have "copies_ok h0 f T (B \<union> set G \<union> W) (h\<lparr>mem := m'\<rparr>)" using c(9) by simp
  moreover have "gray_ok h0 f T v m'" if "v \<in> set G" for v by (rule gray_frame [OF c(10) [OF that]]) (use rm that in blast)
  moreover have "black_ok h0 f T (B \<union> set G \<union> W) v m'" if "v \<in> B" for v
    by (rule black_frame [OF c(11) [OF that]]) (use rm that al in blast)+
  ultimately show ?thesis using c by (simp add: gc_inv_def)
qed

lemma prefix_total: "prefix (map snd bs) (map snd cs) \<Longrightarrow> total_size bs \<le> total_size cs"
  unfolding total_size_snd prefix_def by (auto simp del: map_map)

lemma total_size_dvd: "16 dvd total_size bs"
  by (induction bs) (simp_all add: aligned_up_simps(2))

lemma live_sum_bound:
  assumes h0: "heap_ok h0" and D: "D \<subseteq> live h0" and p: "\<And>v. v \<in> D \<Longrightarrow> prefix (map snd (T v)) (map snd (blocks (mem h0) v))"
  shows "g_to_start h0 + (\<Sum>v\<in>D. total_size (T v)) \<le> g_to_end h0"
proof -
  have "(\<Sum>v\<in>D. total_size (T v)) \<le> (\<Sum>v\<in>D. total_size (blocks (mem h0) v))" by (intro sum_mono prefix_total p)
  also have "\<dots> \<le> (\<Sum>v\<in>live h0. total_size (blocks (mem h0) v))" by (rule sum_mono2 [OF finite_live [OF h0] D]) simp
  also have "\<dots> \<le> g_from_ptr h0 - g_from_start h0" by (rule live_fits [OF h0])
  finally show ?thesis using heap_okD(1) [OF h0] unfolding spaces_ok_def by linarith
qed

lemma to_alloc:
  assumes "spaces_ok h" "g_to_start h \<le> g_to_ptr h" "g_to_ptr h + aligned_up (unat n) \<le> g_to_end h"
  shows "gc_to_alloc n h = Inr (g_to_ptr h, h\<lparr>g_to_ptr := g_to_ptr h + aligned_up (unat n)\<rparr>)"
proof -
  have "unat n + 15 < 2 ^ 64" using assms aligned_up_simps(1) [of "unat n"] unfolding spaces_ok_def by linarith
  then show ?thesis using os_heap_align_up_nat [of n] assms(3) by (simp add: gc_to_alloc_def Let_def)
qed

text \<open>A new block for \<open>v\<close>, whether it has blocks already or not.\<close>

lemma copies_extend:
  assumes h0: "heap_ok h0" and c: "copies_ok h0 f T D h" and D: "D \<subseteq> live h0" "v \<in> live h0"
    and T': "T' = T(v := (if v \<in> D then T v else []) @ [(g_to_ptr h, n)])"
    and p: "prefix (map snd (T' v)) (map snd (blocks (mem h0) v))"
    and f': "\<And>w. w \<in> D \<Longrightarrow> f' w = f w" "v \<notin> D \<Longrightarrow> f' v = tagged (g_to_ptr h) (tag_of v)"
  shows "copies_ok h0 f' T' (insert v D) (h\<lparr>g_to_ptr := g_to_ptr h + aligned_up n\<rparr>)"
    "g_to_ptr h + aligned_up n \<le> g_to_end h0" "16 dvd g_to_ptr h" "g_to_start h0 \<le> g_to_ptr h"
proof -
  have fin: "finite D" using D(1) finite_live [OF h0] finite_subset by blast
  have pre: "prefix (map snd (T' w)) (map snd (blocks (mem h0) w))" if "w \<in> insert v D" for w
    using that p c by (auto simp: copies_ok_def T')
  have ptr: "g_to_ptr h = g_to_start h0 + (\<Sum>w\<in>D. total_size (T w))" using c by (simp add: copies_ok_def)
  have "(\<Sum>w\<in>insert v D. total_size (T' w)) = (\<Sum>w\<in>D. total_size (T w)) + aligned_up n"
  proof (cases "v \<in> D")
    case True
    have "(\<Sum>w\<in>D. total_size (T' w)) = total_size (T' v) + (\<Sum>w\<in>D - {v}. total_size (T' w))" by (rule sum.remove [OF fin True])
    also have "(\<Sum>w\<in>D - {v}. total_size (T' w)) = (\<Sum>w\<in>D - {v}. total_size (T w))" by (intro sum.cong) (auto simp: T')
    also have "total_size (T' v) = total_size (T v) + aligned_up n" using True by (simp add: T')
    finally show ?thesis using sum.remove [OF fin True, of "\<lambda>w. total_size (T w)"] True by (simp add: insert_absorb)
  next
    case False
    have "(\<Sum>w\<in>D. total_size (T' w)) = (\<Sum>w\<in>D. total_size (T w))" by (intro sum.cong) (use False in \<open>auto simp: T'\<close>)
    then show ?thesis using False fin by (simp add: T')
  qed
  then have ptr': "g_to_ptr h + aligned_up n = g_to_start h0 + (\<Sum>w\<in>insert v D. total_size (T' w))" using ptr by simp
  show "g_to_ptr h + aligned_up n \<le> g_to_end h0"
    unfolding ptr' using D pre by (intro live_sum_bound [OF h0]) auto
  show lo: "g_to_start h0 \<le> g_to_ptr h" using ptr by simp
  have "16 dvd (\<Sum>w\<in>D. total_size (T w))" by (rule dvd_sum) (rule total_size_dvd)
  then show al: "16 dvd g_to_ptr h" using ptr heap_okD(1) [OF h0] by (simp add: spaces_ok_def)
  have old: "inside (g_to_start h0) (g_to_ptr h) b" if "w \<in> D" "b \<in> set (T w)" for w b using c that unfolding copies_ok_def by blast
  have in': "inside (g_to_start h0) (g_to_ptr h + aligned_up n) b" if "w \<in> insert v D" "b \<in> set (T' w)" for w b
  proof (cases "b = (g_to_ptr h, n)")
    case True then show ?thesis using lo al by (simp add: inside_def)
  next
    case False
    then have "w \<in> D" "b \<in> set (T w)" using that by (auto simp: T' split: if_splits)
    then show ?thesis using old by (fastforce simp: inside_def)
  qed
  have new: "sep b (g_to_ptr h, n) \<and> sep (g_to_ptr h, n) b" if "w \<in> D" "b \<in> set (T w)" for w b
    using old [OF that] by (simp add: sep_def inside_def)
  have "tag_of (f' w) = tag_of w \<and> T' w \<noteq> [] \<and> fst (hd (T' w)) = address_of (f' w) \<and> sorted_wrt sep (T' w)" if "w \<in> insert v D" for w
  proof (cases "w \<in> D")
    case True
    then show ?thesis using c f'(1) new [OF True] by (auto simp: copies_ok_def T' sorted_wrt_append)
  next
    case False
    then have "w = v" using that by simp
    moreover have "g_to_ptr h < 2 ^ 64"
      using \<open>g_to_ptr h + aligned_up n \<le> g_to_end h0\<close> heap_okD(1) [OF h0] unfolding spaces_ok_def by linarith
    ultimately show ?thesis using False f'(2) tagged_parts [OF al _ tag_of_idem] by (simp add: T')
  qed
  moreover have "sep b b'" if w: "w \<in> insert v D" "w' \<in> insert v D" "w \<noteq> w'" and b: "b \<in> set (T' w)" "b' \<in> set (T' w')" for w w' b b'
  proof (cases "b = (g_to_ptr h, n) \<and> w = v \<or> b' = (g_to_ptr h, n) \<and> w' = v")
    case True
    then show ?thesis using new w b by (auto simp: T' split: if_splits)
  next
    case False
    then have "w \<in> D" "w' \<in> D" "b \<in> set (T w)" "b' \<in> set (T w')" using w b by (auto simp: T' split: if_splits)
    then show ?thesis using c w(3) by (simp add: copies_ok_def)
  qed
  ultimately show "copies_ok h0 f' T' (insert v D) (h\<lparr>g_to_ptr := g_to_ptr h + aligned_up n\<rparr>)"
    unfolding copies_ok_def using pre in' ptr' by simp
qed

text \<open>
  The collector goes on: what is copied stays, and memory changes only in from-space, in fresh
  room and at the addresses \<open>X\<close>.
\<close>

definition advances :: "heap \<Rightarrow> nat set \<Rightarrow> (u64 \<Rightarrow> u64) \<Rightarrow> (u64 \<Rightarrow> (nat \<times> nat) list) \<Rightarrow> u64 set \<Rightarrow> heap \<Rightarrow>
    (u64 \<Rightarrow> u64) \<Rightarrow> (u64 \<Rightarrow> (nat \<times> nat) list) \<Rightarrow> u64 set \<Rightarrow> heap \<Rightarrow> bool" where
  "advances h0 X f T D h f' T' D' h' \<longleftrightarrow> D \<subseteq> D' \<and> (\<forall>v\<in>D. f' v = f v \<and> T' v = T v) \<and> g_to_ptr h \<le> g_to_ptr h' \<and>
     (\<forall>x. \<not> (g_from_start h0 \<le> x \<and> x < g_from_end h0) \<longrightarrow> \<not> (g_to_ptr h \<le> x \<and> x < g_to_end h0) \<longrightarrow> x \<notin> X \<longrightarrow> mem h' x = mem h x)"

lemma advances_refl [simp]: "advances h0 X f T D h f T D h"
  by (simp add: advances_def)

lemma advances_trans:
  assumes a: "advances h0 X f T D h f1 T1 D1 h1" and b: "advances h0 X f1 T1 D1 h1 f2 T2 D2 h2"
  shows "advances h0 X f T D h f2 T2 D2 h2"
proof -
  have "mem h2 x = mem h x" if x: "\<not> (g_from_start h0 \<le> x \<and> x < g_from_end h0)" "\<not> (g_to_ptr h \<le> x \<and> x < g_to_end h0)" "x \<notin> X" for x
  proof -
    have "\<not> (g_to_ptr h1 \<le> x \<and> x < g_to_end h0)" using a x(2) by (auto simp: advances_def)
    then have "mem h2 x = mem h1 x" using b x(1,3) unfolding advances_def by blast
    also have "\<dots> = mem h x" using a x unfolding advances_def by blast
    finally show ?thesis .
  qed
  moreover have "D \<subseteq> D2" "g_to_ptr h \<le> g_to_ptr h2" using a b by (auto simp: advances_def)
  moreover have "f2 v = f v \<and> T2 v = T v" if "v \<in> D" for v using a b that by (auto simp: advances_def)
  ultimately show ?thesis unfolding advances_def by blast
qed

lemma advances_mono: "advances h0 X f T D h f' T' D' h' \<Longrightarrow> X \<subseteq> Y \<Longrightarrow> advances h0 Y f T D h f' T' D' h'"
  unfolding advances_def by blast

lemma copies_okD:
  assumes "copies_ok h0 f T D h" "v \<in> D"
  shows "tag_of (f v) = tag_of v" "T v \<noteq> []" "fst (hd (T v)) = address_of (f v)" "prefix (map snd (T v)) (map snd (blocks (mem h0) v))"
    "b \<in> set (T v) \<Longrightarrow> inside (g_to_start h0) (g_to_ptr h) b" "sorted_wrt sep (T v)"
    "w \<in> D \<Longrightarrow> v \<noteq> w \<Longrightarrow> b \<in> set (T v) \<Longrightarrow> c \<in> set (T w) \<Longrightarrow> sep b c"
  using assms unfolding copies_ok_def by blast+

lemma copies_room:
  assumes "copies_ok h0 f T D h" "v \<in> D"
  shows "room (T v) \<subseteq> {g_to_start h0..<g_to_ptr h}" "w \<in> D \<Longrightarrow> v \<noteq> w \<Longrightarrow> room (T v) \<inter> room (T w) = {}"
    "g_to_start h0 \<le> address_of (f v)" "address_of (f v) < g_to_ptr h"
proof -
  show r: "room (T v) \<subseteq> {g_to_start h0..<g_to_ptr h}" by (rule room_inside) (rule copies_okD(5) [OF assms])
  show "w \<in> D \<Longrightarrow> v \<noteq> w \<Longrightarrow> room (T v) \<inter> room (T w) = {}" by (rule sep_room) (rule copies_okD(7) [OF assms])
  obtain b bs where b: "T v = b # bs" "fst b = address_of (f v)" using copies_okD(2,3) [OF assms] by (cases "T v") auto
  have "snd b = header_size (mem h0) v" using copies_okD(4) [OF assms] by (auto simp: b blocks_def prefix_def)
  then have "0 < aligned_up (snd b)" using header_positive [of "mem h0" v] aligned_up_simps(1) [of "snd b"] by linarith
  then have "address_of (f v) \<in> room (T v)" using b by simp
  then show "g_to_start h0 \<le> address_of (f v)" "address_of (f v) < g_to_ptr h" using r by auto
qed

lemma copies_to_ptr:
  assumes "heap_ok h0" "copies_ok h0 f T D h" "D \<subseteq> live h0"
  shows "g_to_start h0 \<le> g_to_ptr h" "g_to_ptr h \<le> g_to_end h0"
proof -
  have p: "g_to_ptr h = g_to_start h0 + (\<Sum>v\<in>D. total_size (T v))" using assms(2) by (simp add: copies_ok_def)
  then show "g_to_start h0 \<le> g_to_ptr h" by simp
  show "g_to_ptr h \<le> g_to_end h0" unfolding p by (rule live_sum_bound [OF assms(1,3)]) (rule copies_okD(4) [OF assms(2)])
qed

lemma spaces_disjoint:
  "spaces_ok h \<Longrightarrow> g_to_start h \<le> x \<Longrightarrow> x < g_to_end h \<Longrightarrow> \<not> (g_from_start h \<le> x \<and> x < g_from_end h)"
  by (auto simp: spaces_ok_def)

text \<open>The blocks of an object that are not its header, or not yet overwritten, are as they were.\<close>

lemma address_in_block:
  assumes "heap_ok h" "v \<in> live h" "b \<in> set (blocks (mem h) v)" "w \<in> live h" "fst b \<le> address_of w" "address_of w < fst b + aligned_up (snd b)"
  shows "v = w"
proof (rule ccontr)
  assume "v \<noteq> w"
  then have "sep b (address_of w, header_size (mem h) w)" by (rule heap_okD(5) [OF assms(1,2,4) _ assms(3) header_block])
  then show False using assms(5,6) header_positive [of "mem h" w] aligned_up_simps(1) [of "header_size (mem h) w"] by (simp add: sep_def)
qed

lemma from_header:
  assumes h0: "heap_ok h0" and i: "from_ok h0 f D h" "D \<subseteq> live h0" and v: "v \<in> live h0" "v \<notin> D"
    and x: "address_of v \<le> x" "x < address_of v + header_size (mem h0) v"
  shows "mem h x = mem h0 x"
proof -
  have le: "header_size (mem h0) v \<le> aligned_up (header_size (mem h0) v)" by (rule aligned_up_simps(1))
  have "x \<noteq> address_of w" if "w \<in> D" for w
    using address_in_block [OF h0 v(1) header_block, of w] that i(2) v(2) x le by auto
  moreover have "g_from_start h0 \<le> x" "x < g_from_end h0"
    using header_inside [OF h0 v(1)] x le heap_okD(1) [OF h0] unfolding spaces_ok_def by linarith+
  ultimately show ?thesis using i(1) unfolding from_ok_def by blast
qed

lemma from_part:
  assumes h0: "heap_ok h0" and i: "from_ok h0 f D h" "D \<subseteq> live h0" and v: "v \<in> live h0" "b \<in> set (parts (mem h0) v)"
    and x: "fst b \<le> x" "x < fst b + snd b"
  shows "mem h x = mem h0 x"
proof -
  have b: "b \<in> set (blocks (mem h0) v)" using v(2) by (simp add: blocks_def)
  have le: "snd b \<le> aligned_up (snd b)" by (rule aligned_up_simps(1))
  have o: "object_ok h0 v" by (rule heap_okD(4) [OF h0 v(1)])
  then have "sep (address_of v, header_size (mem h0) v) b" using v(2) by (simp add: object_ok_def blocks_def)
  then have "\<not> (fst b \<le> address_of v \<and> address_of v < fst b + aligned_up (snd b))"
    using header_positive [of "mem h0" v] aligned_up_simps(1) [of "header_size (mem h0) v"] by (auto simp: sep_def)
  then have "x \<noteq> address_of w" if "w \<in> D" for w
    using address_in_block [OF h0 v(1) b, of w] that i(2) x le by auto
  moreover have "inside (g_from_start h0) (g_from_ptr h0) b" using o b by (simp add: object_ok_def)
  then have "g_from_start h0 \<le> x" "x < g_from_end h0"
    using x le heap_okD(1) [OF h0] unfolding inside_def spaces_ok_def by linarith+
  ultimately show ?thesis using i(1) unfolding from_ok_def by blast
qed

lemma black_mono:
  assumes "black_ok h0 f T D v m" "v \<in> D" "D \<subseteq> D'" "\<And>w. w \<in> D \<Longrightarrow> f' w = f w \<and> T' w = T w"
  shows "black_ok h0 f' T' D' v m"
proof -
  have "moved h0 f' w = moved h0 f w" if "w \<in> set (fields (mem h0) v)" for w
    using assms(1,4) that by (auto simp: black_ok_def moved_def)
  then have "map (moved h0 f') (fields (mem h0) v) = map (moved h0 f) (fields (mem h0) v)" by simp
  then show ?thesis using assms by (auto simp: black_ok_def)
qed

lemma gray_mono: "gray_ok h0 f T v m \<Longrightarrow> f' v = f v \<Longrightarrow> T' v = T v \<Longrightarrow> gray_ok h0 f' T' v m"
  by (simp add: gray_ok_def)

lemma same_bytes_refl: "same_bytes m a m a n"
  by (simp add: same_bytes_def)

lemma same_bytes_trans: "same_bytes m d m1 a n \<Longrightarrow> same_bytes m1 a m2 c n \<Longrightarrow> same_bytes m d m2 c n"
  by (simp add: same_bytes_def)

text \<open>The size of a header in the code.\<close>

lemma object_size_header:
  assumes h0: "heap_ok h0" and v: "v \<in> live h0"
  obtains n where "object_size (tag_of v) (mem h0 (address_of v)) = Some n" "unat n = header_size (mem h0) v"
proof -
  have t: "tag_of v \<in> {TAG_CONS, TAG_SYMBOL, TAG_STRING, TAG_INSTANCE}" using heap_okD(4) [OF h0 v] by (simp add: object_ok_def)
  have "unat (8 + mem h0 (address_of v)) = 8 + unat (mem h0 (address_of v))" if "tag_of v = TAG_STRING"
  proof (subst unat_add_no_wrap64)
    have "8 + unat (mem h0 (address_of v)) = header_size (mem h0) v" using that by (simp add: header_size_def)
    also have "\<dots> < 18446744073709551616"
      using header_inside(2) [OF h0 v] aligned_up_simps(1) [of "header_size (mem h0) v"] heap_okD(1) [OF h0] unfolding spaces_ok_def by simp
    finally show "unat (8 :: u64) + unat (mem h0 (address_of v)) < 18446744073709551616" by simp
  qed simp
  then show ?thesis using t that by (auto simp: object_size_def header_size_def)
qed

subsection \<open>Copying a value\<close>

lemma is_ref_h: "same_frame h0 h \<Longrightarrow> is_ref h v = is_ref h0 v"
  by (simp add: is_ref_def same_frameD)

lemma same_frame_spaces: "same_frame h0 h \<Longrightarrow> spaces_ok h = spaces_ok h0"
  by (simp only: spaces_ok_def outside_def same_frameD)

lemma copies_cong: "copies_ok h0 f T D h \<Longrightarrow> g_to_ptr h' = g_to_ptr h \<Longrightarrow> copies_ok h0 f T D h'"
proof -
  assume c: "copies_ok h0 f T D h" and p: "g_to_ptr h' = g_to_ptr h"
  show "copies_ok h0 f T D h'" using c unfolding copies_ok_def p .
qed

lemma copy_not_ref: "\<not> is_ref h v \<Longrightarrow> gc_copy_value v h = Inr (v, h)"
  by (auto simp: gc_copy_value_def is_ref_def)

lemma copy_in_to_space: "g_to_start h \<le> address_of v \<Longrightarrow> address_of v < g_to_end h \<Longrightarrow> gc_copy_value v h = Inr (v, h)"
  by (simp add: gc_copy_value_def Let_def)

lemma forward_tag: "TAG_FORWARD AND TAG_MASK = TAG_FORWARD"
  by (simp add: const_defs)

text \<open>A value already copied, and the copy itself.\<close>

lemma copy_again:
  assumes h0: "heap_ok h0" and i: "gc_inv h0 f T B G W h" and v: "v \<in> B \<union> set G \<union> W"
  shows "gc_copy_value v h = Inr (f v, h)" "gc_copy_value (f v) h = Inr (f v, h)"
proof -
  note c = gc_invD [OF i] and fr = same_frameD [OF gc_invD(1) [OF i]]
  have live: "v \<in> live h0" using c(7) v by blast
  note r = copies_room [OF c(9) v] copies_to_ptr [OF h0 c(9,7)]
  have rng: "g_to_start h \<le> address_of (f v)" "address_of (f v) < g_to_end h" using r(3,4,6) fr by simp_all
  show "gc_copy_value (f v) h = Inr (f v, h)" by (rule copy_in_to_space [OF rng])
  have "\<not> (g_to_start h0 \<le> address_of v \<and> address_of v < g_to_end h0)"
    using header_inside(1,3) [OF h0 live] spaces_disjoint [OF heap_okD(1) [OF h0], of "address_of v"] by blast
  moreover have "mem h (address_of v) = tagged (address_of (f v)) TAG_FORWARD" using c(8) v by (simp add: from_ok_def)
  moreover have "address_of (tagged (address_of (f v)) TAG_FORWARD) = address_of (f v)" "tag_of (tagged (address_of (f v)) TAG_FORWARD) = TAG_FORWARD"
    by (rule tagged_parts [OF address_aligned(1) address_lt forward_tag])+
  moreover have "v \<noteq> nil h" "os_tag_is_heap_ref (tag_of v)" using live_is_ref [OF live] fr by (simp_all add: is_ref_def)
  moreover have "tagged (address_of (f v)) (tag_of v) = f v" using copies_okD(1) [OF c(9) v] tagged_eta [of "f v"] by simp
  ultimately show "gc_copy_value v h = Inr (f v, h)" using rng fr unfolding gc_copy_value_def Let_def by auto
qed

text \<open>A new object goes to the next free address of to-space, and into the queue.\<close>

lemma copies_new:
  assumes h0: "heap_ok h0" and i: "gc_inv h0 f T B G W h" and v: "v \<in> live h0" "v \<notin> B \<union> set G \<union> W"
  defines "n \<equiv> header_size (mem h0) v" and "f' \<equiv> f(v := tagged (g_to_ptr h) (tag_of v))"
  shows "copies_ok h0 f' (T(v := [(g_to_ptr h, n)])) (insert v (B \<union> set G \<union> W)) (h\<lparr>g_to_ptr := g_to_ptr h + aligned_up n\<rparr>)"
    "g_to_ptr h + aligned_up n \<le> g_to_end h0" "16 dvd g_to_ptr h" "g_to_start h0 \<le> g_to_ptr h"
proof -
  note c = gc_invD [OF i]
  have "prefix (map snd ((T(v := [(g_to_ptr h, n)])) v)) (map snd (blocks (mem h0) v))" by (simp add: blocks_def n_def)
  note e = copies_extend [where T' = "T(v := [(g_to_ptr h, n)])" and v = v and n = n and f' = f', OF h0 c(9,7) v(1) _ this]
  show "copies_ok h0 f' (T(v := [(g_to_ptr h, n)])) (insert v (B \<union> set G \<union> W)) (h\<lparr>g_to_ptr := g_to_ptr h + aligned_up n\<rparr>)"
    "g_to_ptr h + aligned_up n \<le> g_to_end h0" "16 dvd g_to_ptr h" "g_to_start h0 \<le> g_to_ptr h"
    using v(2) by (intro e; auto simp: f'_def)+
qed

lemma copy_value_new:
  assumes h0: "heap_ok h0" and i: "gc_inv h0 f T B G W h" and v: "v \<in> live h0" "v \<notin> B \<union> set G \<union> W"
  obtains n :: u64 where "unat n = header_size (mem h0) v"
    "gc_copy_value v h = (case gc_queue_push (tagged (g_to_ptr h) (tag_of v)) (h\<lparr>g_to_ptr := g_to_ptr h + aligned_up (unat n),
       mem := (copy_bytes (address_of v) (g_to_ptr h) (unat n) (mem h))(address_of v := tagged (g_to_ptr h) TAG_FORWARD)\<rparr>)
     of Inl e \<Rightarrow> Inl e | Inr h' \<Rightarrow> Inr (tagged (g_to_ptr h) (tag_of v), h'))"
proof -
  let ?dst = "g_to_ptr h" and ?a = "address_of v"
  note c = gc_invD [OF i] and fr = same_frameD [OF gc_invD(1) [OF i]]
  note e = copies_new [OF assms]
  have w0: "mem h ?a = mem h0 ?a"
    by (rule from_header [OF h0 c(8,7) v]) (use header_positive [of "mem h0" v] in simp_all)
  obtain n where n: "object_size (tag_of v) (mem h ?a) = Some n" "unat n = header_size (mem h0) v"
    using object_size_header [OF h0 v(1)] w0 by metis
  have "spaces_ok h" using heap_okD(1) [OF h0] same_frame_spaces [OF c(1)] by simp
  then have alloc: "gc_to_alloc n h = Inr (?dst, h\<lparr>g_to_ptr := ?dst + aligned_up (unat n)\<rparr>)"
    by (rule to_alloc) (use e(2,4) n(2) fr in simp_all)
  have nf: "\<not> (tag_of (mem h ?a) = TAG_FORWARD \<and> g_to_start h \<le> address_of (mem h ?a) \<and> address_of (mem h ?a) < g_to_end h)"
    using heap_okD(4) [OF h0 v(1)] w0 fr by (auto simp: object_ok_def outside_def)
  have nt: "\<not> (g_to_start h \<le> ?a \<and> ?a < g_to_end h)"
    using header_inside(1,3) [OF h0 v(1)] fr spaces_disjoint [OF heap_okD(1) [OF h0], of ?a] by auto
  show ?thesis
    by (rule that [OF n(2)]) (use live_is_ref [OF v(1)] nf nt n alloc fr in \<open>auto simp: gc_copy_value_def Let_def is_ref_def\<close>)
qed

lemma copy_new:
  assumes h0: "heap_ok h0" and i: "gc_inv h0 f T B G W h" and v: "v \<in> live h0" "v \<notin> B \<union> set G \<union> W"
    and l: "length G < GC_QUEUE_CAPACITY"
  obtains h' where "gc_copy_value v h = Inr (tagged (g_to_ptr h) (tag_of v), h')"
    "gc_inv h0 (f(v := tagged (g_to_ptr h) (tag_of v))) (T(v := [(g_to_ptr h, header_size (mem h0) v)])) B (G @ [v]) W h'"
    "advances h0 {} f T (B \<union> set G \<union> W) h (f(v := tagged (g_to_ptr h) (tag_of v)))
       (T(v := [(g_to_ptr h, header_size (mem h0) v)])) (insert v (B \<union> set G \<union> W)) h'"
proof -
  let ?D = "B \<union> set G \<union> W" and ?dst = "g_to_ptr h" and ?a = "address_of v"
  let ?f = "f(v := tagged ?dst (tag_of v))" and ?T = "T(v := [(?dst, header_size (mem h0) v)])"
  note c = gc_invD [OF i] and fr = same_frameD [OF gc_invD(1) [OF i]]
  note e = copies_new [OF h0 i v]
  have a: "g_from_start h0 \<le> ?a" "?a < g_from_end h0" using header_inside [OF h0 v(1)] by simp_all
  have nt: "\<not> (g_to_start h \<le> ?a \<and> ?a < g_to_end h)" using a fr spaces_disjoint [OF heap_okD(1) [OF h0], of ?a] by auto
  have header: "mem h x = mem h0 x" if "?a \<le> x" "x < ?a + header_size (mem h0) v" for x
    by (rule from_header [OF h0 c(8,7) v that])
  obtain n :: u64 where n: "unat n = header_size (mem h0) v"
    "gc_copy_value v h = (case gc_queue_push (tagged ?dst (tag_of v)) (h\<lparr>g_to_ptr := ?dst + aligned_up (unat n),
       mem := (copy_bytes ?a ?dst (unat n) (mem h))(?a := tagged ?dst TAG_FORWARD)\<rparr>)
     of Inl e \<Rightarrow> Inl e | Inr h' \<Rightarrow> Inr (tagged ?dst (tag_of v), h'))"
    by (rule copy_value_new [OF h0 i v])
  let ?m = "(copy_bytes ?a ?dst (unat n) (mem h))(?a := tagged ?dst TAG_FORWARD)"
  let ?h = "h\<lparr>g_to_ptr := ?dst + aligned_up (unat n), mem := ?m\<rparr>"
  let ?h' = "?h\<lparr>g_gc_queue := (g_gc_queue h)(g_gc_queue_tail h mod GC_QUEUE_CAPACITY := tagged ?dst (tag_of v)),
    g_gc_queue_tail := g_gc_queue_tail h + 1\<rparr>"
  have ql: "length (queue_of ?h) < GC_QUEUE_CAPACITY" using l c(3) by simp
  have qb: "queue_bounded ?h" using c(2) by simp
  have push: "gc_queue_push (tagged ?dst (tag_of v)) ?h = Inr ?h'" using push_queue(1) [OF qb] ql by simp
  have q: "queue_of ?h' = map f G @ [tagged ?dst (tag_of v)]" "queue_bounded ?h'"
    using push_queue(2) [OF qb ql push] c(3) by simp_all
  have copied: "gc_copy_value v h = Inr (tagged ?dst (tag_of v), ?h')" using n(2) push by simp
  have out: "?m x = mem h x" if "x \<noteq> ?a" "x < ?dst \<or> g_to_end h0 \<le> x" for x
    using that e(2) n(1) aligned_up_simps(1) [of "unat n"] by (auto simp: copy_bytes_outside)
  have mfrom: "?m x = mem h x" if "g_from_start h0 \<le> x" "x < g_from_end h0" "x \<noteq> ?a" for x
    using that(1,2) spaces_disjoint [OF heap_okD(1) [OF h0], of x] e(2,4) by (intro out [OF that(3)]) linarith
  have mroom: "?m x = mem h x" if "w \<in> ?D" "x \<in> room (T w)" for w x
  proof (rule out)
    have x: "g_to_start h0 \<le> x" "x < ?dst" using copies_room(1) [OF c(9) that(1)] that(2) by auto
    then show "x < ?dst \<or> g_to_end h0 \<le> x" by simp
    show "x \<noteq> ?a" using x e(2) nt fr by auto
  qed
  have same: "same_bytes ?m ?dst (mem h0) ?a (header_size (mem h0) v)"
  proof (rule same_bytes_trans [of _ _ "mem h"])
    have "same_bytes (copy_bytes ?a ?dst (unat n) (mem h)) ?dst (mem h) ?a (header_size (mem h0) v)"
      unfolding n(1) by (rule copy_bytes_same [OF dvd16_mod8 [OF e(3)]]) simp
    then show "same_bytes ?m ?dst (mem h) ?a (header_size (mem h0) v)"
    proof (rule same_bytes_frame [OF _ dvd16_mod8 [OF e(3)]])
      fix x assume "?dst \<le> x" "x < ?dst + header_size (mem h0) v"
      then have "x \<noteq> ?a" using nt fr e(2,4) aligned_up_simps(1) [of "header_size (mem h0) v"] by auto
      then show "?m x = copy_bytes ?a ?dst (unat n) (mem h) x" by simp
    qed
    show "same_bytes (mem h) ?a (mem h0) ?a (header_size (mem h0) v)"
      by (rule same_bytes_frame [OF same_bytes_refl]) (use header in auto)
  qed
  have fv: "address_of (?f v) = ?dst" using copies_okD(3) [OF e(1), of v] by simp
  have "from_ok h0 ?f (insert v ?D) ?h'"
    unfolding from_ok_def
  proof (intro conjI ballI allI impI)
    fix w assume w: "w \<in> insert v ?D"
    show "mem ?h' (address_of w) = tagged (address_of (?f w)) TAG_FORWARD"
    proof (cases "w = v")
      case True then show ?thesis using fv by simp
    next
      case False
      then have d: "w \<in> ?D" "w \<in> live h0" using w c(7) by auto
      then have "address_of w \<noteq> ?a" using address_distinct [OF h0 d(2) v(1)] False by blast
      then have "?m (address_of w) = mem h (address_of w)" by (intro mfrom header_inside(1,3) [OF h0 d(2)])
      then show ?thesis using c(8) d(1) False by (simp add: from_ok_def)
    qed
  next
    fix x assume x: "g_from_start h0 \<le> x" "x < g_from_end h0" "x \<notin> address_of ` insert v ?D"
    then have "?m x = mem h x" by (intro mfrom) auto
    then show "mem ?h' x = mem h0 x" using c(8) x by (simp add: from_ok_def)
  qed
  moreover have "copies_ok h0 ?f ?T (insert v ?D) ?h'" by (rule copies_cong [OF e(1)]) (simp add: n(1))
  moreover have "gray_ok h0 ?f ?T v ?m" using same fv by (simp add: gray_ok_def)
  moreover have "gray_ok h0 ?f ?T w ?m" if w: "w \<in> set G" for w
  proof (rule gray_mono)
    have "w \<in> ?D" using w by blast
    then show "gray_ok h0 f T w ?m" using mroom by (intro gray_frame [OF c(10) [OF w]]) blast
  qed (use w v(2) in auto)
  moreover have "black_ok h0 ?f ?T (insert v ?D) w ?m" if w: "w \<in> B" for w
  proof (rule black_mono)
    have d: "w \<in> ?D" using w by blast
    show "black_ok h0 f T ?D w ?m"
    proof (rule black_frame [OF c(11) [OF w]])
      show "?m x = mem h x" if "x \<in> room (T w)" for x using mroom [OF d that] .
      show "16 dvd fst b" if "b \<in> set (T w)" for b using copies_okD(5) [OF c(9) d that] by (simp add: inside_def)
    qed
  qed (use w v(2) in auto)
  ultimately have "gc_inv h0 ?f ?T B (G @ [v]) W ?h'"
    using c(1,4,5,6,7) q v by (auto simp: gc_inv_def insert_commute)
  moreover have "advances h0 {} f T ?D h ?f ?T (insert v ?D) ?h'"
    unfolding advances_def using v(2) a out by auto
  ultimately show ?thesis using that [of ?h'] copied by blast
qed

lemma copy_full:
  assumes "heap_ok h0" "gc_inv h0 f T B G W h" "v \<in> live h0" "v \<notin> B \<union> set G \<union> W" "GC_QUEUE_CAPACITY \<le> length G"
  shows "gc_copy_value v h = Inl Queue_exhausted"
proof -
  note c = gc_invD [OF assms(2)]
  show ?thesis
  proof (rule copy_value_new [OF assms(1-4)])
    fix n :: u64
    let ?h = "h\<lparr>g_to_ptr := g_to_ptr h + aligned_up (unat n),
       mem := (copy_bytes (address_of v) (g_to_ptr h) (unat n) (mem h))(address_of v := tagged (g_to_ptr h) TAG_FORWARD)\<rparr>"
    assume g: "gc_copy_value v h = (case gc_queue_push (tagged (g_to_ptr h) (tag_of v)) ?h
      of Inl e \<Rightarrow> Inl e | Inr h' \<Rightarrow> Inr (tagged (g_to_ptr h) (tag_of v), h'))"
    have "length (queue_of ?h) = length G" using c(3) by simp
    then have "gc_queue_push (tagged (g_to_ptr h) (tag_of v)) ?h = Inl Queue_exhausted"
      using push_queue(1) [of ?h] c(2) assms(5) by simp
    then show ?thesis using g by simp
  qed
qed

subsection \<open>Copying fields and blocks\<close>

text \<open>The only way to fail: more objects are alive than the queue holds.\<close>

definition exhausts :: "heap \<Rightarrow> halt + 'a \<Rightarrow> bool" where
  "exhausts h0 r \<longleftrightarrow> r = Inl Queue_exhausted \<and> GC_QUEUE_CAPACITY < card (live h0)"

text \<open>
  A word that held \<open>m1 x\<close> and is still to be treated, or has been already: the same variable may
  be a root more than once.
\<close>

definition pending :: "heap \<Rightarrow> memory \<Rightarrow> (u64 \<Rightarrow> u64) \<Rightarrow> u64 set \<Rightarrow> heap \<Rightarrow> nat \<Rightarrow> bool" where
  "pending h0 m1 f D h x \<longleftrightarrow> (mem h x = m1 x \<and> (is_ref h0 (m1 x) \<longrightarrow> m1 x \<in> live h0)) \<or>
     (mem h x = moved h0 f (m1 x) \<and> (is_ref h0 (m1 x) \<longrightarrow> m1 x \<in> D))"

definition settled :: "heap \<Rightarrow> memory \<Rightarrow> (u64 \<Rightarrow> u64) \<Rightarrow> u64 set \<Rightarrow> heap \<Rightarrow> nat \<Rightarrow> bool" where
  "settled h0 m1 f D h x \<longleftrightarrow> mem h x = moved h0 f (m1 x) \<and> (is_ref h0 (m1 x) \<longrightarrow> m1 x \<in> D)"

definition free_word :: "heap \<Rightarrow> (u64 \<Rightarrow> (nat \<times> nat) list) \<Rightarrow> u64 set \<Rightarrow> nat \<Rightarrow> bool" where
  "free_word h0 T W x \<longleftrightarrow> outside h0 x \<or> (\<exists>v\<in>W. x \<in> room (T v))"

lemma copy_value:
  assumes h0: "heap_ok h0" and i: "gc_inv h0 f T B G W h" and p: "pending h0 m1 f (B \<union> set G \<union> W) h x"
  obtains (full) "gc_copy_value (mem h x) h = Inl Queue_exhausted" "GC_QUEUE_CAPACITY < card (live h0)"
  | (copied) f' T' G' h' where "gc_copy_value (mem h x) h = Inr (moved h0 f' (m1 x), h')" "gc_inv h0 f' T' B G' W h'"
      "advances h0 {} f T (B \<union> set G \<union> W) h f' T' (B \<union> set G' \<union> W) h'" "is_ref h0 (m1 x) \<longrightarrow> m1 x \<in> B \<union> set G' \<union> W"
proof -
  let ?D = "B \<union> set G \<union> W" and ?v = "m1 x"
  note c = gc_invD [OF i]
  consider (new) "is_ref h0 ?v" "mem h x = ?v" "?v \<in> live h0" "?v \<notin> ?D"
    | (old) "gc_copy_value (mem h x) h = Inr (moved h0 f ?v, h)" "is_ref h0 ?v \<longrightarrow> ?v \<in> ?D"
  proof (cases "is_ref h0 ?v")
    case False
    then have "mem h x = ?v" using p by (auto simp: pending_def moved_def)
    then show ?thesis using False copy_not_ref [of h ?v] is_ref_h [OF c(1)] old by (simp add: moved_def)
  next
    case True
    show ?thesis
    proof (cases "?v \<in> ?D")
      case d: True
      have "mem h x = ?v \<or> mem h x = f ?v" using p True by (auto simp: pending_def moved_def)
      then have "gc_copy_value (mem h x) h = Inr (moved h0 f ?v, h)" using copy_again [OF h0 i d] True by (auto simp: moved_def)
      then show ?thesis using old d by blast
    next
      case False
      then have "mem h x = ?v" "?v \<in> live h0" using p True by (auto simp: pending_def)
      then show ?thesis using new True False by blast
    qed
  qed
  then show thesis
  proof cases
    case old
    then show ?thesis using copied [of f h T G] i by simp
  next
    case new
    show ?thesis
    proof (cases "length G < GC_QUEUE_CAPACITY")
      case True
      obtain h' where n: "gc_copy_value ?v h = Inr (tagged (g_to_ptr h) (tag_of ?v), h')"
        "gc_inv h0 (f(?v := tagged (g_to_ptr h) (tag_of ?v))) (T(?v := [(g_to_ptr h, header_size (mem h0) ?v)])) B (G @ [?v]) W h'"
        "advances h0 {} f T ?D h (f(?v := tagged (g_to_ptr h) (tag_of ?v)))
          (T(?v := [(g_to_ptr h, header_size (mem h0) ?v)])) (insert ?v ?D) h'"
        by (rule copy_new [OF h0 i new(3,4) True])
      have d: "insert ?v ?D = B \<union> set (G @ [?v]) \<union> W" by auto
      show ?thesis
        by (rule copied [OF _ n(2) n(3) [unfolded d]]) (use new n(1) in \<open>auto simp: moved_def\<close>)
    next
      case False
      have "insert ?v (set G) \<subseteq> live h0" using c(7) new(3) by auto
      then have "card (insert ?v (set G)) \<le> card (live h0)" by (rule card_mono [OF finite_live [OF h0]])
      moreover have "card (insert ?v (set G)) = Suc (length G)" using new(4) distinct_card [OF c(4)] by simp
      ultimately show ?thesis using full copy_full [OF h0 i new(3,4)] False new(2) by simp
    qed
  qed
qed

lemma free_word_safe:
  assumes h0: "heap_ok h0" and c: "copies_ok h0 f T (B \<union> set G \<union> W) h" "W \<inter> (B \<union> set G) = {}" "B \<union> set G \<union> W \<subseteq> live h0"
    and x: "free_word h0 T W x"
  shows "\<not> (g_from_start h0 \<le> x \<and> x < g_from_end h0)" "v \<in> B \<union> set G \<Longrightarrow> x \<notin> room (T v)" "\<not> (g_to_ptr h \<le> x \<and> x < g_to_end h0)"
proof -
  note p = copies_to_ptr [OF h0 c(1,3)]
  have rm: "x \<in> {g_to_start h0..<g_to_ptr h}" if "v \<in> B \<union> set G \<union> W" "x \<in> room (T v)" for v
    using copies_room(1) [OF c(1) that(1)] that(2) by blast
  show "\<not> (g_from_start h0 \<le> x \<and> x < g_from_end h0)"
    using x rm p spaces_disjoint [OF heap_okD(1) [OF h0], of x] by (fastforce simp: free_word_def outside_def)
  show "\<not> (g_to_ptr h \<le> x \<and> x < g_to_end h0)"
    using x rm p by (fastforce simp: free_word_def outside_def)
  show "x \<notin> room (T v)" if v: "v \<in> B \<union> set G"
  proof (cases "outside h0 x")
    case True
    then show ?thesis using rm [of v] v p by (auto simp: outside_def)
  next
    case False
    then obtain w where w: "w \<in> W" "x \<in> room (T w)" using x by (auto simp: free_word_def)
    then have "room (T v) \<inter> room (T w) = {}" using v c(2) by (intro copies_room(2) [OF c(1)]) auto
    then show ?thesis using w(2) by blast
  qed
qed

lemma free_word_advances:
  "free_word h0 T W x \<Longrightarrow> advances h0 X f T D h f' T' D' h' \<Longrightarrow> W \<subseteq> D \<Longrightarrow> free_word h0 T' W x"
  by (auto simp: free_word_def advances_def subset_iff)

lemma copy_field:
  assumes h0: "heap_ok h0" and i: "gc_inv h0 f T B G W h" and p: "pending h0 m1 f (B \<union> set G \<union> W) h x" and x: "free_word h0 T W x"
  obtains (full) "exhausts h0 (gc_copy_field x h)"
  | (copied) f' T' G' h' where "gc_copy_field x h = Inr h'" "gc_inv h0 f' T' B G' W h'"
      "advances h0 {x} f T (B \<union> set G \<union> W) h f' T' (B \<union> set G' \<union> W) h'" "settled h0 m1 f' (B \<union> set G' \<union> W) h' x"
proof (rule copy_value [OF h0 i p])
  assume "gc_copy_value (mem h x) h = Inl Queue_exhausted" "GC_QUEUE_CAPACITY < card (live h0)"
  then show thesis by (intro full) (simp add: exhausts_def gc_copy_field_def)
next
  fix f' T' G' h1
  assume a: "gc_copy_value (mem h x) h = Inr (moved h0 f' (m1 x), h1)" "gc_inv h0 f' T' B G' W h1"
    "advances h0 {} f T (B \<union> set G \<union> W) h f' T' (B \<union> set G' \<union> W) h1" "is_ref h0 (m1 x) \<longrightarrow> m1 x \<in> B \<union> set G' \<union> W"
  let ?m = "(mem h1)(x := moved h0 f' (m1 x))"
  note c = gc_invD [OF a(2)]
  have x': "free_word h0 T' W x" by (rule free_word_advances [OF x a(3)]) auto
  note safe = free_word_safe [OF h0 c(9,6,7) x']
  have i1: "gc_inv h0 f' T' B G' W (h1\<lparr>mem := ?m\<rparr>)"
    by (rule inv_mem [OF h0 a(2)]) (use safe(1,2) in auto)
  have adv: "advances h0 {x} f T (B \<union> set G \<union> W) h f' T' (B \<union> set G' \<union> W) (h1\<lparr>mem := ?m\<rparr>)"
    using a(3) by (auto simp: advances_def)
  have eq: "gc_copy_field x h = Inr (h1\<lparr>mem := ?m\<rparr>)" using a(1) by (simp add: gc_copy_field_def)
  have s: "settled h0 m1 f' (B \<union> set G' \<union> W) (h1\<lparr>mem := ?m\<rparr>) x" unfolding settled_def using a(4) by auto
  show thesis by (rule copied [OF eq i1 adv s])
qed

lemma pending_advances:
  assumes "pending h0 m1 f D h x" "advances h0 X f T D h f' T' D' h'" "x \<notin> X"
    "\<not> (g_from_start h0 \<le> x \<and> x < g_from_end h0)" "\<not> (g_to_ptr h \<le> x \<and> x < g_to_end h0)"
  shows "pending h0 m1 f' D' h' x"
proof -
  have "mem h' x = mem h x" using assms(2-5) unfolding advances_def by blast
  then show ?thesis using assms(1,2) by (auto simp: pending_def advances_def moved_def)
qed

lemma settled_pending: "settled h0 m1 f D h x \<Longrightarrow> pending h0 m1 f D h x"
  by (simp add: settled_def pending_def)

lemma copy_fields:
  assumes h0: "heap_ok h0" and i: "gc_inv h0 f T B G W h"
    and p: "\<And>x. x \<in> set xs \<Longrightarrow> pending h0 m1 f (B \<union> set G \<union> W) h x \<and> free_word h0 T W x"
  obtains (full) "exhausts h0 (gc_copy_fields xs h)"
  | (copied) f' T' G' h' where "gc_copy_fields xs h = Inr h'" "gc_inv h0 f' T' B G' W h'"
      "advances h0 (set xs) f T (B \<union> set G \<union> W) h f' T' (B \<union> set G' \<union> W) h'"
      "\<And>x. x \<in> set xs \<Longrightarrow> settled h0 m1 f' (B \<union> set G' \<union> W) h' x"
proof -
  have "exhausts h0 (gc_copy_fields xs h) \<or> (\<exists>f' T' G' h'. gc_copy_fields xs h = Inr h' \<and> gc_inv h0 f' T' B G' W h' \<and>
      advances h0 (set xs) f T (B \<union> set G \<union> W) h f' T' (B \<union> set G' \<union> W) h' \<and>
      (\<forall>x\<in>set xs. settled h0 m1 f' (B \<union> set G' \<union> W) h' x))"
    using i p
  proof (induction xs arbitrary: f T G h)
    case Nil
    then show ?case by (intro disjI2 exI [of _ f] exI [of _ T] exI [of _ G] exI [of _ h]) simp
  next
    case (Cons x xs)
    have px: "pending h0 m1 f (B \<union> set G \<union> W) h x" "free_word h0 T W x" using Cons.prems(2) by auto
    show ?case
    proof (rule copy_field [OF h0 Cons.prems(1) px])
      assume "exhausts h0 (gc_copy_field x h)"
      then show ?thesis by (simp add: exhausts_def)
    next
      fix f1 T1 G1 h1
      let ?D = "B \<union> set G \<union> W" and ?D1 = "B \<union> set G1 \<union> W"
      assume a: "gc_copy_field x h = Inr h1" "gc_inv h0 f1 T1 B G1 W h1" "advances h0 {x} f T ?D h f1 T1 ?D1 h1" "settled h0 m1 f1 ?D1 h1 x"
      note c = gc_invD [OF Cons.prems(1)] and c1 = gc_invD [OF a(2)]
      have "pending h0 m1 f1 ?D1 h1 y \<and> free_word h0 T1 W y" if y: "y \<in> set (x # xs)" for y
      proof
        have fy: "free_word h0 T W y" "pending h0 m1 f ?D h y" using Cons.prems(2) [OF y] by auto
        show "free_word h0 T1 W y" by (rule free_word_advances [OF fy(1) a(3)]) auto
        note s = free_word_safe [OF h0 c(9,6,7) fy(1)]
        show "pending h0 m1 f1 ?D1 h1 y"
          by (cases "y = x") (use settled_pending [OF a(4)] pending_advances [OF fy(2) a(3) _ s(1,3)] in auto)
      qed
      note p1 = this
      have ih: "exhausts h0 (gc_copy_fields xs h1) \<or> (\<exists>f' T' G' h'. gc_copy_fields xs h1 = Inr h' \<and> gc_inv h0 f' T' B G' W h' \<and>
          advances h0 (set xs) f1 T1 ?D1 h1 f' T' (B \<union> set G' \<union> W) h' \<and>
          (\<forall>x\<in>set xs. settled h0 m1 f' (B \<union> set G' \<union> W) h' x))"
        by (rule Cons.IH [OF a(2)]) (use p1 in auto)
      show ?thesis
      proof (cases "exhausts h0 (gc_copy_fields xs h1)")
        case True
        then show ?thesis using a(1) by (simp add: exhausts_def)
      next
        case False
        then obtain f' T' G' h' where b: "gc_copy_fields xs h1 = Inr h'" "gc_inv h0 f' T' B G' W h'"
          "advances h0 (set xs) f1 T1 ?D1 h1 f' T' (B \<union> set G' \<union> W) h'" "\<forall>x\<in>set xs. settled h0 m1 f' (B \<union> set G' \<union> W) h' x"
          using ih by blast
        have adv: "advances h0 (set (x # xs)) f T ?D h f' T' (B \<union> set G' \<union> W) h'"
          by (rule advances_trans [OF advances_mono [OF a(3)] advances_mono [OF b(3)]]) auto
        have "settled h0 m1 f' (B \<union> set G' \<union> W) h' x"
        proof (cases "x \<in> set xs")
          case False
          note s = free_word_safe [OF h0 c1(9,6,7) conjunct2 [OF p1 [of x]]]
          have "mem h' x = mem h1 x" using b(3) False s(1,3) unfolding advances_def by auto
          then show ?thesis using a(4) b(3) by (auto simp: settled_def advances_def moved_def)
        qed (use b(4) in blast)
        then have "\<forall>y\<in>set (x # xs). settled h0 m1 f' (B \<union> set G' \<union> W) h' y" using b(4) by simp
        moreover have "gc_copy_fields (x # xs) h = Inr h'" using a(1) b(1) by simp
        ultimately show ?thesis using b(2) adv by blast
      qed
    qed
  qed
  then show thesis
  proof (elim disjE exE conjE)
    fix f' T' G' h'
    assume a: "gc_copy_fields xs h = Inr h'" "gc_inv h0 f' T' B G' W h'" "advances h0 (set xs) f T (B \<union> set G \<union> W) h f' T' (B \<union> set G' \<union> W) h'"
      "\<forall>x\<in>set xs. settled h0 m1 f' (B \<union> set G' \<union> W) h' x"
    show thesis by (rule copied [OF a(1-3)]) (use a(4) in blast)
  qed (rule full)
qed

end
