(* ===== verification/GcScan.thy ===== *)
theory GcScan
  imports Gc
begin

unbundle bit_operations_syntax

text \<open>
  Scanning the copies: each kind of object has its own blocks and fields, and for each the scan
  turns a waiting copy into a finished one. The scan loop ends, because every turn finishes one
  more of the finitely many live objects.
\<close>

lemma inv_store:
  assumes h0: "heap_ok h0" and i: "gc_inv h0 f T B G W h" and x: "free_word h0 T W x"
  shows "gc_inv h0 f T B G W (store x w h)"
proof -
  note c = gc_invD [OF i]
  note s = free_word_safe [OF h0 c(9,6,7) x]
  show ?thesis unfolding store_def by (rule inv_mem [OF h0 i]) (use s(1,2) in auto)
qed

text \<open>A further block for the object being scanned.\<close>

lemma inv_block:
  assumes h0: "heap_ok h0" and i: "gc_inv h0 f T B G {v} h"
    and p: "prefix (map snd (T v) @ [n]) (map snd (blocks (mem h0) v))"
  defines "T' \<equiv> T(v := T v @ [(g_to_ptr h, n)])"
  shows "gc_inv h0 f T' B G {v} (h\<lparr>g_to_ptr := g_to_ptr h + aligned_up n\<rparr>)"
    "g_to_ptr h + aligned_up n \<le> g_to_end h0" "16 dvd g_to_ptr h" "g_to_start h0 \<le> g_to_ptr h"
proof -
  let ?D = "B \<union> set G \<union> {v}" and ?h1 = "h\<lparr>g_to_ptr := g_to_ptr h + aligned_up n\<rparr>"
  note c = gc_invD [OF i]
  have v: "v \<in> ?D" "v \<in> live h0" using c(7) by auto
  have t: "T' = T(v := (if v \<in> ?D then T v else []) @ [(g_to_ptr h, n)])" by (simp add: T'_def)
  have q: "prefix (map snd (T' v)) (map snd (blocks (mem h0) v))" using p by (simp add: T'_def)
  note e = copies_extend [OF h0 c(9,7) v(2) t q refl]
  have nv: "v \<notin> ?D \<Longrightarrow> f v = tagged (g_to_ptr h) (tag_of v)" using v(1) by blast
  show "g_to_ptr h + aligned_up n \<le> g_to_end h0" "16 dvd g_to_ptr h" "g_to_start h0 \<le> g_to_ptr h"
    using e(2-4) [OF nv] by blast+
  have tv: "T' w = T w" if "w \<in> B \<union> set G" for w using that c(6) by (auto simp: T'_def)
  have ce: "copies_ok h0 f T' ?D ?h1" using e(1) [OF nv] v(1) by (simp add: insert_absorb)
  have gr: "gray_ok h0 f T' w (mem h)" if "w \<in> set G" for w
    by (rule gray_mono [OF c(10) [OF that]]) (use tv that in blast)+
  have bl: "black_ok h0 f T' ?D w (mem h)" if "w \<in> B" for w
  proof -
    have tw: "T' w = T w" using tv that by blast
    show ?thesis using c(11) [OF that] unfolding black_ok_def tw .
  qed
  have fo: "from_ok h0 f ?D ?h1" using c(8) by (simp add: from_ok_def)
  have sf: "same_frame h0 ?h1" using c(1) by simp
  show "gc_inv h0 f T' B G {v} ?h1"
    unfolding gc_inv_def using c(2-7) sf fo ce gr bl by simp
qed

lemma copy_block:
  assumes h0: "heap_ok h0" and i: "gc_inv h0 f T B G {v} h"
    and p: "prefix (map snd (T v) @ [unat n]) (map snd (blocks (mem h0) v))"
  obtains h' where "gc_copy_block src n h = Inr (g_to_ptr h, h')" "gc_inv h0 f (T(v := T v @ [(g_to_ptr h, unat n)])) B G {v} h'"
    "mem h' = copy_bytes src (g_to_ptr h) (unat n) (mem h)" "16 dvd g_to_ptr h" "g_to_ptr h + aligned_up (unat n) \<le> g_to_end h0"
    "g_to_start h0 \<le> g_to_ptr h" "g_to_ptr h' = g_to_ptr h + aligned_up (unat n)"
proof -
  let ?dst = "g_to_ptr h" and ?T = "T(v := T v @ [(g_to_ptr h, unat n)])"
  let ?h1 = "h\<lparr>g_to_ptr := ?dst + aligned_up (unat n)\<rparr>"
  note c = gc_invD [OF i] and fr = same_frameD [OF gc_invD(1) [OF i]]
  note e = inv_block [OF h0 i p]
  have "spaces_ok h" using heap_okD(1) [OF h0] same_frame_spaces [OF c(1)] by simp
  then have alloc: "gc_to_alloc n h = Inr (?dst, ?h1)"
    by (rule to_alloc) (use e(2,4) fr in simp_all)
  let ?m = "copy_bytes src ?dst (unat n) (mem h)"
  have out: "?m x = mem h x" if "x < ?dst \<or> g_to_end h0 \<le> x" for x
    using that e(2) aligned_up_simps(1) [of "unat n"] by (intro copy_bytes_outside) linarith
  have tv: "?T w = T w" if "w \<in> B \<union> set G" for w using that c(6) by auto
  have "gc_inv h0 f ?T B G {v} (?h1\<lparr>mem := ?m\<rparr>)"
  proof (rule inv_mem [OF h0 e(1)])
    fix x assume "g_from_start h0 \<le> x" "x < g_from_end h0"
    then have "x < ?dst \<or> g_to_end h0 \<le> x" using spaces_disjoint [OF heap_okD(1) [OF h0], of x] e(4) by linarith
    then show "?m x = mem ?h1 x" using out by simp
  next
    fix w x assume w: "w \<in> B \<union> set G" and x: "x \<in> room (?T w)"
    have "x < ?dst" using copies_room(1) [OF c(9), of w] w x tv [OF w] by auto
    then show "?m x = mem ?h1 x" using out [of x] by simp
  qed
  then show ?thesis using that [of "?h1\<lparr>mem := ?m\<rparr>"] alloc e(2-4) by (simp add: gc_copy_block_def)
qed

definition progress :: "heap \<Rightarrow> (u64 \<Rightarrow> u64) \<Rightarrow> u64 set \<Rightarrow> heap \<Rightarrow> (u64 \<Rightarrow> u64) \<Rightarrow> u64 set \<Rightarrow> heap \<Rightarrow> bool" where
  "progress h0 f D h f' D' h' \<longleftrightarrow> D \<subseteq> D' \<and> (\<forall>v\<in>D. f' v = f v) \<and> (\<forall>x. outside h0 x \<longrightarrow> mem h' x = mem h x)"

lemma progress_refl [simp]: "progress h0 f D h f D h"
  by (simp add: progress_def)

lemma progress_trans:
  "progress h0 f D h f1 D1 h1 \<Longrightarrow> progress h0 f1 D1 h1 f2 D2 h2 \<Longrightarrow> progress h0 f D h f2 D2 h2"
  unfolding progress_def by (metis subset_eq)

lemma advances_progress:
  assumes "advances h0 X f T D h f' T' D' h'" "\<And>x. x \<in> X \<Longrightarrow> \<not> outside h0 x" "g_to_start h0 \<le> g_to_ptr h"
  shows "progress h0 f D h f' D' h'"
proof -
  have "mem h' x = mem h x" if x: "outside h0 x" for x
  proof -
    have "x \<notin> X" using assms(2) x by blast
    moreover have "\<not> (g_from_start h0 \<le> x \<and> x < g_from_end h0)" "\<not> (g_to_ptr h \<le> x \<and> x < g_to_end h0)"
      using x assms(3) by (auto simp: outside_def)
    ultimately show ?thesis using assms(1) unfolding advances_def by blast
  qed
  then show ?thesis using assms(1) by (auto simp: progress_def advances_def)
qed

text \<open>What scanning the object \<open>v\<close> achieves.\<close>

definition scanning :: "heap \<Rightarrow> (u64 \<Rightarrow> u64) \<Rightarrow> (u64 \<Rightarrow> (nat \<times> nat) list) \<Rightarrow> u64 set \<Rightarrow> u64 list \<Rightarrow> u64 \<Rightarrow> heap \<Rightarrow> bool" where
  "scanning h0 f T B G v h \<longleftrightarrow> heap_ok h0 \<and> gc_inv h0 f T B G {v} h \<and> gray_ok h0 f T v (mem h)"

definition scanned :: "heap \<Rightarrow> (u64 \<Rightarrow> u64) \<Rightarrow> u64 set \<Rightarrow> u64 list \<Rightarrow> u64 \<Rightarrow> heap \<Rightarrow> halt + heap \<Rightarrow> bool" where
  "scanned h0 f B G v h r \<longleftrightarrow> exhausts h0 r \<or>
     (\<exists>f' T' G' h'. r = Inr h' \<and> gc_inv h0 f' T' (insert v B) G' {} h' \<and> progress h0 f (B \<union> set G \<union> {v}) h f' (insert v B \<union> set G') h')"

lemma scanned_black:
  assumes "gc_inv h0 f' T' B G' {v} h'" "black_ok h0 f' T' (B \<union> set G' \<union> {v}) v (mem h')"
    "progress h0 f (B \<union> set G \<union> {v}) h f' (B \<union> set G' \<union> {v}) h'"
  shows "scanned h0 f B G v h (Inr h')"
proof -
  have d: "B \<union> set G' \<union> {v} = insert v B \<union> set G' \<union> {}" by auto
  note c = gc_invD [OF assms(1)]
  have "gc_inv h0 f' T' (insert v B) G' {} h'"
    unfolding gc_inv_def using c assms(2) unfolding d by auto
  then show ?thesis using assms(3) unfolding scanned_def by (intro disjI2) auto
qed

lemma scanningD:
  assumes "scanning h0 f T B G v h"
  shows "heap_ok h0" "gc_inv h0 f T B G {v} h" "v \<in> live h0" "T v = [(address_of (f v), header_size (mem h0) v)]"
    "same_bytes (mem h) (address_of (f v)) (mem h0) (address_of v) (header_size (mem h0) v)" "tag_of (f v) = tag_of v"
    "g_to_start h0 \<le> address_of (f v)" "address_of (f v) + header_size (mem h0) v \<le> g_to_ptr h" "g_to_ptr h \<le> g_to_end h0"
    "g_to_start h0 \<le> g_to_ptr h"
proof -
  show h0: "heap_ok h0" and i: "gc_inv h0 f T B G {v} h" using assms by (simp_all add: scanning_def)
  note c = gc_invD [OF i]
  show "v \<in> live h0" using c(7) by auto
  show t: "T v = [(address_of (f v), header_size (mem h0) v)]"
    "same_bytes (mem h) (address_of (f v)) (mem h0) (address_of v) (header_size (mem h0) v)"
    using assms by (simp_all add: scanning_def gray_ok_def)
  have v: "v \<in> B \<union> set G \<union> {v}" by simp
  show "tag_of (f v) = tag_of v" by (rule copies_okD(1) [OF c(9) v])
  have "inside (g_to_start h0) (g_to_ptr h) (address_of (f v), header_size (mem h0) v)" by (rule copies_okD(5) [OF c(9) v]) (simp add: t)
  then show "g_to_start h0 \<le> address_of (f v)" "address_of (f v) + header_size (mem h0) v \<le> g_to_ptr h"
    using aligned_up_simps(1) [of "header_size (mem h0) v"] by (simp_all add: inside_def)
  show "g_to_ptr h \<le> g_to_end h0" "g_to_start h0 \<le> g_to_ptr h" by (rule copies_to_ptr [OF h0 c(9,7)])+
qed

lemma scanning_word:
  assumes "scanning h0 f T B G v h" "x mod 8 = 0" "x + 8 \<le> header_size (mem h0) v"
  shows "mem h (address_of (f v) + x) = mem h0 (address_of v + x)"
  by (rule same_bytes_word [OF scanningD(5) [OF assms(1)] _ _ assms(2,3)]) simp_all

text \<open>The fields of the copy are treated in place, wherever they lie in its blocks.\<close>

lemma copy_slots:
  assumes h0: "heap_ok h0" and i: "gc_inv h0 f T B G {v} h"
    and ys: "list_all2 (\<lambda>y x. mem h y = mem h0 x \<and> y \<in> room (T v)) ys (slots (mem h0) v)"
  obtains (full) "exhausts h0 (gc_copy_fields ys h)"
  | (copied) f' T' G' h' where "gc_copy_fields ys h = Inr h'" "gc_inv h0 f' T' B G' {v} h'" "f' v = f v" "T' v = T v"
      "progress h0 f (B \<union> set G \<union> {v}) h f' (B \<union> set G' \<union> {v}) h'"
      "map (mem h') ys = map (moved h0 f') (fields (mem h0) v)"
      "\<forall>w\<in>set (fields (mem h0) v). is_ref h0 w \<longrightarrow> w \<in> B \<union> set G' \<union> {v}"
      "\<And>x. x \<in> room (T v) \<Longrightarrow> x \<notin> set ys \<Longrightarrow> mem h' x = mem h x"
proof -
  let ?D = "B \<union> set G \<union> {v}"
  note c = gc_invD [OF i]
  have v: "v \<in> ?D" "v \<in> live h0" using c(7) by auto
  have fl: "fields (mem h0) v = map (mem h) ys" unfolding fields_def
    by (rule nth_equalityI) (use ys in \<open>auto simp: list_all2_conv_all_nth\<close>)
  have rm: "y \<in> room (T v)" if "y \<in> set ys" for y
    using ys that by (auto simp: list_all2_conv_all_nth in_set_conv_nth)
  have to: "g_to_start h0 \<le> x \<and> x < g_to_ptr h" if "x \<in> room (T v)" for x using copies_room(1) [OF c(9) v(1)] that by auto
  note ptr = copies_to_ptr [OF h0 c(9,7)]
  have p: "pending h0 (mem h) f ?D h y \<and> free_word h0 T {v} y" if y: "y \<in> set ys" for y
    using rm [OF y] live_field [OF v(2), of "mem h y"] y by (auto simp: pending_def free_word_def fl)
  show thesis
  proof (rule copy_fields [OF h0 i p])
    assume "exhausts h0 (gc_copy_fields ys h)"
    then show thesis by (rule full)
  next
    fix f' T' G' h'
    let ?D' = "B \<union> set G' \<union> {v}"
    assume r: "gc_copy_fields ys h = Inr h'" "gc_inv h0 f' T' B G' {v} h'" "advances h0 (set ys) f T ?D h f' T' ?D' h'"
      "\<And>y. y \<in> set ys \<Longrightarrow> settled h0 (mem h) f' ?D' h' y"
    have fv: "f' v = f v" "T' v = T v" using r(3) v(1) by (auto simp: advances_def)
    have pr: "progress h0 f ?D h f' ?D' h'"
      by (rule advances_progress [OF r(3) _ ptr(1)]) (use rm to ptr(2) in \<open>fastforce simp: outside_def\<close>)
    have mp: "map (mem h') ys = map (moved h0 f') (fields (mem h0) v)" using r(4) by (simp add: fl settled_def)
    have cl: "\<forall>w\<in>set (fields (mem h0) v). is_ref h0 w \<longrightarrow> w \<in> ?D'" using r(4) by (auto simp: fl settled_def)
    have old: "mem h' x = mem h x" if x: "x \<in> room (T v)" "x \<notin> set ys" for x
    proof -
      have "\<not> (g_from_start h0 \<le> x \<and> x < g_from_end h0)"
        using spaces_disjoint [OF heap_okD(1) [OF h0], of x] to [OF x(1)] ptr(2) by simp
      then show ?thesis using r(3) to [OF x(1)] x(2) unfolding advances_def by auto
    qed
    show thesis by (rule copied [OF r(1,2) fv pr mp cl old])
  qed
qed

text \<open>Objects whose fields all lie in the header.\<close>

lemma scan_header:
  assumes s: "scanning h0 f T B G v h" and sl: "slots (mem h0) v = map (\<lambda>x. address_of v + x) offs"
    and offs: "\<And>x. x \<in> set offs \<Longrightarrow> x mod 8 = 0 \<and> x + 8 \<le> header_size (mem h0) v"
    and bl: "parts (mem h0) v = []"
    and shape: "\<And>m'. (\<And>x. x mod 8 = 0 \<Longrightarrow> x + 8 \<le> header_size (mem h0) v \<Longrightarrow> x \<notin> set offs \<Longrightarrow> m' (address_of (f v) + x) = mem h0 (address_of v + x)) \<Longrightarrow>
        (offs = [] \<Longrightarrow> m' = mem h) \<Longrightarrow>
        blocks m' (f v) = [(address_of (f v), header_size (mem h0) v)] \<and> raw m' (f v) = raw (mem h0) v \<and>
        slots m' (f v) = map (\<lambda>x. address_of (f v) + x) offs"
  shows "scanned h0 f B G v h (gc_copy_fields (map (\<lambda>x. address_of (f v) + x) offs) h)"
proof -
  let ?d = "address_of (f v)" and ?a = "address_of v" and ?ys = "map (\<lambda>x. address_of (f v) + x) offs"
  note d = scanningD [OF s]
  have rm: "?d + x \<in> room (T v)" if "x + 8 \<le> header_size (mem h0) v" for x
    unfolding d(4) by (rule room_block) (use that in auto)
  have l: "list_all2 (\<lambda>y x. mem h y = mem h0 x \<and> y \<in> room (T v)) ?ys (slots (mem h0) v)"
    using scanning_word [OF s] offs rm by (auto simp: list_all2_conv_all_nth sl)
  show ?thesis
  proof (rule copy_slots [OF d(1,2) l])
    assume "exhausts h0 (gc_copy_fields ?ys h)"
    then show ?thesis by (simp add: scanned_def)
  next
    fix f' T' G' h'
    assume r: "gc_copy_fields ?ys h = Inr h'" "gc_inv h0 f' T' B G' {v} h'" "f' v = f v" "T' v = T v"
      "progress h0 f (B \<union> set G \<union> {v}) h f' (B \<union> set G' \<union> {v}) h'"
      "map (mem h') ?ys = map (moved h0 f') (fields (mem h0) v)"
      "\<forall>w\<in>set (fields (mem h0) v). is_ref h0 w \<longrightarrow> w \<in> B \<union> set G' \<union> {v}"
      "\<And>x. x \<in> room (T v) \<Longrightarrow> x \<notin> set ?ys \<Longrightarrow> mem h' x = mem h x"
    have old: "mem h' (?d + x) = mem h0 (?a + x)" if x: "x mod 8 = 0" "x + 8 \<le> header_size (mem h0) v" "x \<notin> set offs" for x
      using r(8) [OF rm [OF x(2)]] x(3) scanning_word [OF s x(1,2)] by (simp add: image_iff)
    have nil: "mem h' = mem h" if "offs = []" using r(1) that by simp
    have sh: "blocks (mem h') (f v) = [(?d, header_size (mem h0) v)]" "raw (mem h') (f v) = raw (mem h0) v" "slots (mem h') (f v) = ?ys"
      using shape [of "mem h'"] old nil by blast+
    have "black_ok h0 f' T' (B \<union> set G' \<union> {v}) v (mem h')"
      unfolding black_ok_def r(3,4) sh d(4) using r(6,7) by (simp add: blocks_def bl fields_def sh(3) [unfolded fields_def])
    then show ?thesis unfolding r(1) using r(2,5) by (intro scanned_black)
  qed
qed

lemma scan_cons:
  assumes s: "scanning h0 f T B G v h" and k: "tag_of v = TAG_CONS"
  shows "scanned h0 f B G v h (gc_scan_object (f v) h)"
proof -
  have t: "tag_of (f v) = TAG_CONS" using scanningD(6) [OF s] k by simp
  have "scanned h0 f B G v h (gc_copy_fields (map (\<lambda>x. address_of (f v) + x) [0, 8]) h)"
    by (rule scan_header [OF s]) (use k t in \<open>auto simp: object_layout_defs\<close>)
  then show ?thesis using t by (simp add: gc_scan_object_def Let_def)
qed

lemma scan_symbol:
  assumes s: "scanning h0 f T B G v h" and k: "tag_of v = TAG_SYMBOL"
  shows "scanned h0 f B G v h (gc_scan_object (f v) h)"
proof -
  have t: "tag_of (f v) = TAG_SYMBOL" using scanningD(6) [OF s] k by simp
  have "scanned h0 f B G v h (gc_copy_fields (map (\<lambda>x. address_of (f v) + x) [0, 8, 16, 24]) h)"
    by (rule scan_header [OF s]) (use k t in \<open>auto simp: object_layout_defs\<close>)
  then show ?thesis using t by (simp add: gc_scan_object_def Let_def)
qed

lemma bytes_of_same:
  assumes "same_bytes m d m0 a n" "x + k \<le> n"
  shows "bytes_of m (d + x) k = bytes_of m0 (a + x) k"
  unfolding bytes_of_def
proof (rule map_cong [OF refl])
  fix i assume "i \<in> set [0..<k]"
  then have "x + i < n" using assms(2) by simp
  then have "byte_at m (d + (x + i)) = byte_at m0 (a + (x + i))" using assms(1) unfolding same_bytes_def by blast
  then show "byte_at m (d + x + i) = byte_at m0 (a + x + i)" by (simp add: add.assoc)
qed

lemma words_same:
  assumes "same_bytes m d m0 a n" "d mod 8 = 0" "a mod 8 = 0" "x mod 8 = 0" "x + 8 * k \<le> n"
  shows "words m (d + x) k = words m0 (a + x) k"
  unfolding words_def
proof (rule map_cong [OF refl])
  fix i assume "i \<in> set [0..<k]"
  then have "(x + 8 * i) mod 8 = 0" "x + 8 * i + 8 \<le> n" using assms(4,5) by auto
  then have "m (d + (x + 8 * i)) = m0 (a + (x + 8 * i))" by (intro same_bytes_word [OF assms(1-3)])
  then show "m (d + x + 8 * i) = m0 (a + x + 8 * i)" by (simp add: add.assoc)
qed

lemma scan_string:
  assumes s: "scanning h0 f T B G v h" and k: "tag_of v = TAG_STRING"
  shows "scanned h0 f B G v h (gc_scan_object (f v) h)"
proof -
  have t: "tag_of (f v) = TAG_STRING" using scanningD(6) [OF s] k by simp
  note d = scanningD [OF s]
  have hs: "header_size (mem h0) v = 8 + unat (mem h0 (address_of v))" using k by (simp add: header_size_def)
  have w: "mem h (address_of (f v)) = mem h0 (address_of v)" using scanning_word [OF s, of 0] hs by simp
  have "bytes_of (mem h) (address_of (f v) + 8) (unat (mem h0 (address_of v))) = bytes_of (mem h0) (address_of v + 8) (unat (mem h0 (address_of v)))"
    by (rule bytes_of_same [OF d(5)]) (simp add: hs)
  then have "scanned h0 f B G v h (gc_copy_fields (map (\<lambda>x. address_of (f v) + x) []) h)"
    by (intro scan_header [OF s]) (use k t w in \<open>simp_all add: object_layout_defs\<close>)
  then show ?thesis using t by (simp add: gc_scan_object_def)
qed

lemma copy_nil: "mem h a = nil h \<Longrightarrow> gc_copy_fields [a] h = Inr h"
  by (simp add: gc_copy_field_def gc_copy_value_def fun_upd_idem)

lemma scan_instance_plain:
  assumes "mem h w \<noteq> MAGIC_STREAM" "\<not> (mem h w = MAGIC_BIGNUM \<and> mem h (w + 16) \<noteq> 0)" "\<not> (mem h w = MAGIC_VECTOR \<and> mem h (w + 8) \<noteq> 0)"
  shows "gc_scan_instance w h = gc_copy_fields (map (\<lambda>x. w + x) (plain_slots (mem h w))) h"
proof -
  consider "mem h w = MAGIC_FUNCTION_NATIVE" | "mem h w = MAGIC_BIGNUM" | "mem h w = MAGIC_VECTOR" | "mem h w = MAGIC_FLOAT"
    | "mem h w \<notin> {MAGIC_FUNCTION_NATIVE, MAGIC_BIGNUM, MAGIC_VECTOR, MAGIC_FLOAT}" by blast
  then show ?thesis
  proof cases
    case 1 then show ?thesis using copy_nil [of h "w + 24"] by (simp add: gc_scan_instance_def plain_slots_def)
  next
    case 2 then show ?thesis using assms(2) by (simp add: gc_scan_instance_def gc_relocate_bignum_def const_defs plain_slots_def)
  next
    case 3 then show ?thesis using assms(3) by (simp add: gc_scan_instance_def const_defs plain_slots_def)
  next
    case 4 then show ?thesis by (simp add: gc_scan_instance_def const_defs plain_slots_def)
  next
    case 5 then show ?thesis using assms(1)
      unfolding gc_scan_instance_def plain_slots_def Let_def by (simp add: const_defs)
  qed
qed

lemma scan_plain:
  assumes s: "scanning h0 f T B G v h" and k: "tag_of v = TAG_INSTANCE" "mem h0 (address_of v) \<noteq> MAGIC_STREAM"
    "\<not> (mem h0 (address_of v) = MAGIC_BIGNUM \<and> mem h0 (address_of v + 16) \<noteq> 0)"
    "\<not> (mem h0 (address_of v) = MAGIC_VECTOR \<and> mem h0 (address_of v + 8) \<noteq> 0)"
  shows "scanned h0 f B G v h (gc_scan_object (f v) h)"
proof -
  let ?d = "address_of (f v)" and ?a = "address_of v"
  let ?offs = "plain_slots (mem h0 ?a)"
  have t: "tag_of (f v) = TAG_INSTANCE" using scanningD(6) [OF s] k by simp
  note l = plain_layout [of v "mem h0", OF k]
  have hs: "header_size (mem h0) v = 32" using k(1) by (simp add: header_size_def)
  have none: "?offs = []" if "mem h0 ?a = MAGIC_BIGNUM \<or> mem h0 ?a = MAGIC_VECTOR" using that by auto
  have keep: "m' ?d \<noteq> MAGIC_STREAM \<and> \<not> (m' ?d = MAGIC_BIGNUM \<and> m' (?d + 16) \<noteq> 0) \<and> \<not> (m' ?d = MAGIC_VECTOR \<and> m' (?d + 8) \<noteq> 0)"
    and zero: "m' ?d = mem h0 ?a"
    if m: "\<And>x. x mod 8 = 0 \<Longrightarrow> x + 8 \<le> 32 \<Longrightarrow> x \<notin> set ?offs \<Longrightarrow> m' (?d + x) = mem h0 (?a + x)" for m'
  proof -
    show z: "m' ?d = mem h0 ?a" using m [of 0] plain_slots_bound [of 0] by fastforce
    have "m' (?d + 16) = mem h0 (?a + 16)" if "mem h0 ?a = MAGIC_BIGNUM" using m [of 16] none that by simp
    moreover have "m' (?d + 8) = mem h0 (?a + 8)" if "mem h0 ?a = MAGIC_VECTOR" using m [of 8] none that by simp
    ultimately show "m' ?d \<noteq> MAGIC_STREAM \<and> \<not> (m' ?d = MAGIC_BIGNUM \<and> m' (?d + 16) \<noteq> 0) \<and> \<not> (m' ?d = MAGIC_VECTOR \<and> m' (?d + 8) \<noteq> 0)"
      using k(2-4) z by metis
  qed
  have "scanned h0 f B G v h (gc_copy_fields (map (\<lambda>x. ?d + x) ?offs) h)"
  proof (rule scan_header [OF s])
    show "slots (mem h0) v = map (\<lambda>x. ?a + x) ?offs" by (rule l(2))
    show "x mod 8 = 0 \<and> x + 8 \<le> header_size (mem h0) v" if "x \<in> set ?offs" for x using plain_slots_bound [OF that] hs by auto
    show "parts (mem h0) v = []" using l(1) by (simp add: blocks_def)
  next
    fix m' :: memory
    assume m: "\<And>x. x mod 8 = 0 \<Longrightarrow> x + 8 \<le> header_size (mem h0) v \<Longrightarrow> x \<notin> set ?offs \<Longrightarrow> m' (?d + x) = mem h0 (?a + x)"
    have m: "m' (?d + x) = mem h0 (?a + x)" if "x mod 8 = 0" "x + 8 \<le> 32" "x \<notin> set ?offs" for x
      using m [OF that(1) _ that(3)] that(2) hs by simp
    have z: "m' ?d = mem h0 ?a" by (rule zero) (rule m)
    have k': "m' ?d \<noteq> MAGIC_STREAM \<and> \<not> (m' ?d = MAGIC_BIGNUM \<and> m' (?d + 16) \<noteq> 0) \<and> \<not> (m' ?d = MAGIC_VECTOR \<and> m' (?d + 8) \<noteq> 0)"
      by (rule keep) (rule m)
    note l' = plain_layout [of "f v" m', OF t conjunct1 [OF k'] conjunct1 [OF conjunct2 [OF k']] conjunct2 [OF conjunct2 [OF k']]]
    have "plain_raw m' ?d = plain_raw (mem h0) ?a" by (rule plain_raw_cong) (use z m in auto)
    then show "blocks m' (f v) = [(?d, header_size (mem h0) v)] \<and> raw m' (f v) = raw (mem h0) v \<and> slots m' (f v) = map (\<lambda>x. ?d + x) ?offs"
      unfolding l(3) l' z hs by blast
  qed
  moreover have "gc_scan_object (f v) h = gc_copy_fields (map (\<lambda>x. ?d + x) ?offs) h"
  proof -
    have m: "mem h (?d + x) = mem h0 (?a + x)" if "x mod 8 = 0" "x + 8 \<le> 32" for x using scanning_word [OF s that(1)] that(2) hs by simp
    show ?thesis using scan_instance_plain [of h ?d] keep [of "mem h"] zero [of "mem h"] m t by (simp add: gc_scan_object_def)
  qed
  ultimately show ?thesis by simp
qed

lemma part_inside:
  assumes h0: "heap_ok h0" and v: "v \<in> live h0" and b: "b \<in> set (parts (mem h0) v)"
  shows "16 dvd fst b" "snd b < 2 ^ 64" "fst b < 2 ^ 64"
proof -
  have "inside (g_from_start h0) (g_from_ptr h0) b" using heap_okD(4) [OF h0 v] b by (simp add: object_ok_def blocks_def)
  then have i: "16 dvd fst b" "fst b + aligned_up (snd b) \<le> g_from_ptr h0" by (simp_all add: inside_def)
  then show "16 dvd fst b" by simp
  show "snd b < 2 ^ 64" "fst b < 2 ^ 64"
    using i aligned_up_simps(1) [of "snd b"] heap_okD(1) [OF h0] unfolding spaces_ok_def by linarith+
qed

text \<open>A part of the object being scanned is copied as it was before the collection.\<close>

lemma copy_part:
  assumes h0: "heap_ok h0" and i: "gc_inv h0 f T B G {v} h"
    and p: "prefix (map snd (T v) @ [unat n]) (map snd (blocks (mem h0) v))" and b: "(src, unat n) \<in> set (parts (mem h0) v)"
  obtains h' where "gc_copy_block src n h = Inr (g_to_ptr h, h')" "gc_inv h0 f (T(v := T v @ [(g_to_ptr h, unat n)])) B G {v} h'"
    "same_bytes (mem h') (g_to_ptr h) (mem h0) src (unat n)" "g_to_ptr h mod 8 = 0" "unat (of_nat (g_to_ptr h) :: u64) = g_to_ptr h"
    "progress h0 f (B \<union> set G \<union> {v}) h f (B \<union> set G \<union> {v}) h'" "\<And>x. x < g_to_ptr h \<Longrightarrow> mem h' x = mem h x"
    "g_to_ptr h' = g_to_ptr h + aligned_up (unat n)"
proof (rule copy_block [OF h0 i p])
  fix h'
  let ?dst = "g_to_ptr h"
  note c = gc_invD [OF i]
  have v: "v \<in> live h0" using c(7) by auto
  assume a: "gc_copy_block src n h = Inr (?dst, h')" "gc_inv h0 f (T(v := T v @ [(?dst, unat n)])) B G {v} h'"
    "mem h' = copy_bytes src ?dst (unat n) (mem h)" "16 dvd ?dst" "?dst + aligned_up (unat n) \<le> g_to_end h0" "g_to_start h0 \<le> ?dst"
    "g_to_ptr h' = ?dst + aligned_up (unat n)"
  note pi = part_inside [OF h0 v b, simplified]
  have d8: "?dst mod 8 = 0" "src mod 8 = 0" using a(4) pi(1) by (simp_all add: dvd16_mod8)
  have "same_bytes (mem h') ?dst (mem h) src (unat n)" unfolding a(3) by (rule copy_bytes_same [OF d8])
  moreover have "same_bytes (mem h) src (mem h0) src (unat n)"
    by (rule same_bytes_frame [OF same_bytes_refl d8(2)]) (use from_part [OF h0 c(8,7) v b] in simp)
  ultimately have s: "same_bytes (mem h') ?dst (mem h0) src (unat n)" by (rule same_bytes_trans)
  have "?dst < 2 ^ 64" using a(5) heap_okD(1) [OF h0] unfolding spaces_ok_def by linarith
  then have u: "unat (of_nat ?dst :: u64) = ?dst" by (simp add: unsigned_of_nat take_bit_nat_eq_self)
  have out: "mem h' x = mem h x" if "x < ?dst \<or> g_to_end h0 \<le> x" for x
    unfolding a(3) using that a(5) aligned_up_simps(1) [of "unat n"] by (intro copy_bytes_outside) linarith
  have pr: "progress h0 f (B \<union> set G \<union> {v}) h f (B \<union> set G \<union> {v}) h'"
    unfolding progress_def by (intro conjI ballI allI impI subset_refl refl out) (use a(6) in \<open>auto simp: outside_def\<close>)
  show thesis by (rule that [OF a(1,2) s d8(1) u pr _ a(7)]) (rule out, simp)
qed

text \<open>The last step sets a word of the header.\<close>

lemma store_progress:
  assumes "gc_inv h0 f T B G {v} h" "heap_ok h0" "x \<in> room (T v)"
  shows "progress h0 f D h f D (store x w h)"
proof -
  note c = gc_invD [OF assms(1)]
  have v: "v \<in> B \<union> set G \<union> {v}" by simp
  have "x \<in> {g_to_start h0..<g_to_ptr h}" using copies_room(1) [OF c(9) v] assms(3) by blast
  then have "\<not> outside h0 x" using copies_to_ptr [OF assms(2) c(9,7)] by (auto simp: outside_def)
  then show ?thesis by (auto simp: progress_def store_def)
qed

lemma scan_bignum:
  assumes s: "scanning h0 f T B G v h" and k: "tag_of v = TAG_INSTANCE" "mem h0 (address_of v) = MAGIC_BIGNUM" "mem h0 (address_of v + 16) \<noteq> 0"
  shows "scanned h0 f B G v h (gc_scan_object (f v) h)"
proof -
  let ?d = "address_of (f v)" and ?a = "address_of v" and ?count = "mem h0 (address_of v + 16)" and ?src = "unat (mem h0 (address_of v + 24))"
  let ?D = "B \<union> set G \<union> {v}" and ?dst = "g_to_ptr h" and ?n = "8 * mem h0 (address_of v + 16)"
  note d = scanningD [OF s]
  have t: "tag_of (f v) = TAG_INSTANCE" using d(6) k by simp
  have hs: "header_size (mem h0) v = 32" using k(1) by (simp add: header_size_def)
  have w: "mem h (?d + x) = mem h0 (?a + x)" if "x mod 8 = 0" "x + 8 \<le> 32" for x using scanning_word [OF s that(1)] that(2) hs by simp
  have ws: "mem h ?d = MAGIC_BIGNUM" "mem h (?d + 8) = mem h0 (?a + 8)" "mem h (?d + 16) = ?count" "mem h (?d + 24) = mem h0 (?a + 24)"
    using w [of 0] w [of 8] w [of 16] w [of 24] k(2) by simp_all
  have pt: "parts (mem h0) v = [(?src, 8 * unat ?count)]" using k by (simp add: parts_def Let_def)
  have n: "unat ?n = 8 * unat ?count" using part_inside(2) [OF d(1,3), of "(?src, 8 * unat ?count)"] pt by (subst unat_mult_no_wrap64) simp_all
  have p: "prefix (map snd (T v) @ [unat ?n]) (map snd (blocks (mem h0) v))" by (simp add: d(4) blocks_def pt n)
  have b: "(?src, unat ?n) \<in> set (parts (mem h0) v)" by (simp add: pt n)
  show ?thesis
  proof (rule copy_part [OF d(1,2) p b])
    fix h1
    let ?T = "T(v := T v @ [(?dst, unat ?n)])" and ?h2 = "store (?d + 24) (of_nat ?dst) h1"
    assume a: "gc_copy_block ?src ?n h = Inr (?dst, h1)" "gc_inv h0 f ?T B G {v} h1" "same_bytes (mem h1) ?dst (mem h0) ?src (unat ?n)"
      "?dst mod 8 = 0" "unat (of_nat ?dst :: u64) = ?dst" "progress h0 f ?D h f ?D h1" "\<And>x. x < ?dst \<Longrightarrow> mem h1 x = mem h x"
    have x: "?d + 24 \<in> room (?T v)" by (rule room_block [of ?d 32]) (simp_all add: d(4) hs)
    have i: "gc_inv h0 f ?T B G {v} ?h2" by (rule inv_store [OF d(1) a(2)]) (use x in \<open>auto simp: free_word_def\<close>)
    have lt: "?d + 32 \<le> ?dst" using d(8) hs by simp
    have hw: "mem ?h2 ?d = MAGIC_BIGNUM" "mem ?h2 (?d + 8) = mem h0 (?a + 8)" "mem ?h2 (?d + 16) = ?count" "mem ?h2 (?d + 24) = of_nat ?dst"
      using a(7) ws lt by (simp_all add: store_def)
    have "words (mem ?h2) (?dst + 0) (unat ?count) = words (mem h0) (?src + 0) (unat ?count)"
    proof (rule words_same)
      show "same_bytes (mem ?h2) ?dst (mem h0) ?src (unat ?n)" by (rule same_bytes_frame [OF a(3,4)]) (use lt in \<open>simp add: store_def\<close>)
      show "?src mod 8 = 0" using part_inside(1) [OF d(1,3) b] by (simp add: dvd16_mod8)
    qed (use a(4) n in simp_all)
    then have bl: "black_ok h0 f ?T ?D v (mem ?h2)"
      unfolding black_ok_def using t k hw a(5) d(4) n hs
      by (simp add: object_layout_defs fields_def words_def numeral_3_eq_3)
    have pr: "progress h0 f ?D h f ?D ?h2" by (rule progress_trans [OF a(6) store_progress [OF a(2) d(1) x]])
    have "gc_scan_object (f v) h = Inr ?h2"
      using t ws k(3) a(1) by (simp add: gc_scan_object_def gc_scan_instance_def gc_relocate_bignum_def const_defs)
    then show ?thesis using scanned_black [OF i bl pr] by simp
  qed
qed

lemma vector_total_moved:
  assumes "m b = m0 a" "\<And>i. i < unat (m0 a) \<Longrightarrow> m (b + 8 * (1 + i)) = m0 (a + 8 * (1 + i))"
  shows "vector_total b m = vector_total a m0"
  unfolding vector_total_def assms(1) by (intro fold_cong) (use assms(2) in auto)

lemma unat_block_size:
  assumes "8 * (1 + unat r + unat t) < 2 ^ 64"
  shows "unat (8 * (1 + r + t) :: u64) = 8 * (1 + unat r + unat t)"
proof -
  have a: "unat (1 + r) = 1 + unat r" using assms unat_add_no_wrap64 [of 1 r] by simp
  then have b: "unat (1 + r + t) = 1 + unat r + unat t" using assms unat_add_no_wrap64 [of "1 + r" t] by simp
  have "unat (8 :: u64) * unat (1 + r + t) < 18446744073709551616" unfolding b using assms by simp
  then have "unat (8 * (1 + r + t)) = unat (8 :: u64) * unat (1 + r + t)" by (rule unat_mult_no_wrap64)
  then show ?thesis unfolding b by simp
qed

lemma black_okI:
  assumes "blocks m (f v) = T v" "map snd (T v) = map snd (blocks (mem h0) v)" "raw m (f v) = raw (mem h0) v" "slots m (f v) = ys"
    "map m ys = map (moved h0 f) (fields (mem h0) v)" "\<forall>w\<in>set (fields (mem h0) v). is_ref h0 w \<longrightarrow> w \<in> D"
  shows "black_ok h0 f T D v m"
  unfolding black_ok_def fields_def [of m] assms(4) using assms by (simp del: map_map)

lemma scan_vector:
  assumes s: "scanning h0 f T B G v h" and k: "tag_of v = TAG_INSTANCE" "mem h0 (address_of v) = MAGIC_VECTOR" "mem h0 (address_of v + 8) \<noteq> 0"
  shows "scanned h0 f B G v h (gc_scan_object (f v) h)"
proof -
  let ?d = "address_of (f v)" and ?a = "address_of v" and ?src = "unat (mem h0 (address_of v + 8))"
  let ?rank = "mem h0 ?src" and ?total = "vector_total ?src (mem h0)" and ?D = "B \<union> set G \<union> {v}" and ?dst = "g_to_ptr h"
  define n where "n = 8 * (1 + ?rank + ?total)"
  note d = scanningD [OF s] and c = gc_invD [OF scanningD(2) [OF s]]
  have t: "tag_of (f v) = TAG_INSTANCE" using d(6) k by simp
  have hs: "header_size (mem h0) v = 32" using k(1) by (simp add: header_size_def)
  have w: "mem h (?d + x) = mem h0 (?a + x)" if "x mod 8 = 0" "x + 8 \<le> 32" for x using scanning_word [OF s that(1)] that(2) hs by simp
  have ws: "mem h ?d = MAGIC_VECTOR" "mem h (?d + 8) = mem h0 (?a + 8)" "mem h (?d + 16) = mem h0 (?a + 16)" "mem h (?d + 24) = mem h0 (?a + 24)"
    using w [of 0] w [of 8] w [of 16] w [of 24] k(2) by simp_all
  have pt: "parts (mem h0) v = [(?src, vector_size (mem h0) ?src)]" using k by (simp add: parts_def Let_def)
  have pin: "(?src, vector_size (mem h0) ?src) \<in> set (parts (mem h0) v)" by (simp add: pt)
  have vs: "vector_size (mem h0) ?src = 8 * (1 + unat ?rank + unat ?total)" by (simp add: vector_size_def)
  have nu: "unat n = 8 * (1 + unat ?rank + unat ?total)"
    unfolding n_def by (rule unat_block_size) (use part_inside(2) [OF d(1,3) pin] vs in simp)
  have p: "prefix (map snd (T v) @ [unat n]) (map snd (blocks (mem h0) v))" by (simp add: d(4) blocks_def pt nu vs)
  have b: "(?src, unat n) \<in> set (parts (mem h0) v)" by (simp add: pt nu vs)
  have old: "mem h x = mem h0 x" if "?src \<le> x" "x < ?src + unat n" for x using from_part [OF d(1) c(8,7) d(3) b] that by simp
  have here: "mem h ?src = ?rank" "vector_total ?src (mem h) = ?total"
    by (rule old, simp_all add: nu) (rule vector_total_moved; intro old; simp add: nu)
  let ?T = "T(v := T v @ [(?dst, unat n)])" and ?ys = "map (\<lambda>i. ?dst + 8 * (1 + unat ?rank) + 8 * i) [0..<unat ?total]"
  show ?thesis
  proof (rule copy_part [OF d(1,2) p b])
    fix h1
    assume a: "gc_copy_block ?src n h = Inr (?dst, h1)" "gc_inv h0 f ?T B G {v} h1" "same_bytes (mem h1) ?dst (mem h0) ?src (unat n)"
      "?dst mod 8 = 0" "unat (of_nat ?dst :: u64) = ?dst" "progress h0 f ?D h f ?D h1" "\<And>x. x < ?dst \<Longrightarrow> mem h1 x = mem h x"
    have s8: "?src mod 8 = 0" using part_inside(1) [OF d(1,3) b] by (simp add: dvd16_mod8)
    have new: "mem h1 (?dst + x) = mem h0 (?src + x)" if "x mod 8 = 0" "x + 8 \<le> unat n" for x
      by (rule same_bytes_word [OF a(3,4) s8 that])
    have rm: "?dst + x \<in> room (?T v)" if "x < unat n" for x by (rule room_block [of ?dst "unat n"]) (use that in auto)
    have sl: "slots (mem h0) v = map (\<lambda>i. ?src + 8 * (1 + unat ?rank) + 8 * i) [0..<unat ?total]"
      using k by (simp add: slots_def Let_def)
    have l: "list_all2 (\<lambda>y x. mem h1 y = mem h0 x \<and> y \<in> room (?T v)) ?ys (slots (mem h0) v)"
      using new [of "8 * (1 + unat ?rank) + 8 * i" for i] rm [of "8 * (1 + unat ?rank) + 8 * i" for i]
      unfolding sl by (auto simp: list_all2_conv_all_nth nu add.assoc)
    have e: "gc_scan_object (f v) h = (case gc_copy_fields ?ys h1 of Inl e \<Rightarrow> Inl e | Inr h2 \<Rightarrow> Inr (store (?d + 8) (of_nat ?dst) h2))"
      using t ws k(3) a(1) [unfolded n_def] here
      by (simp add: gc_scan_object_def gc_scan_instance_def gc_relocate_vector_block_def const_defs Let_def)
    show ?thesis
    proof (rule copy_slots [OF d(1) a(2) l])
      assume "exhausts h0 (gc_copy_fields ?ys h1)"
      then show ?thesis unfolding e scanned_def by (auto simp: exhausts_def)
    next
      fix f' T' G' h2
      let ?D' = "B \<union> set G' \<union> {v}" and ?h3 = "store (?d + 8) (of_nat ?dst) h2"
      assume r: "gc_copy_fields ?ys h1 = Inr h2" "gc_inv h0 f' T' B G' {v} h2" "f' v = f v" "T' v = ?T v"
        "progress h0 f ?D h1 f' ?D' h2" "map (mem h2) ?ys = map (moved h0 f') (fields (mem h0) v)"
        "\<forall>w\<in>set (fields (mem h0) v). is_ref h0 w \<longrightarrow> w \<in> ?D'" "\<And>x. x \<in> room (?T v) \<Longrightarrow> x \<notin> set ?ys \<Longrightarrow> mem h2 x = mem h1 x"
      have x: "?d + y \<in> room (?T v)" if "y < 32" for y by (rule room_block [of ?d 32]) (use that in \<open>simp_all add: d(4) hs\<close>)
      have xT: "?d + 8 \<in> room (T' v)" using x r(4) by simp
      have i: "gc_inv h0 f' T' B G' {v} ?h3" by (rule inv_store [OF d(1) r(2)]) (use xT in \<open>auto simp: free_word_def\<close>)
      have lt: "?d + 32 \<le> ?dst" using d(8) hs by simp
      have ge: "?dst + 8 * (1 + unat ?rank) \<le> y" if "y \<in> set ?ys" for y using that unfolding set_map by (elim imageE) simp
      have nd: "?d + y \<notin> set ?ys" if "y < 32" for y using ge [of "?d + y"] that lt by linarith
      have hd: "mem ?h3 (?d + y) = mem h (?d + y)" if "y < 32" "y \<noteq> 8" for y
        using r(8) [OF x [OF that(1)] nd [OF that(1)]] a(7) [of "?d + y"] lt that by (simp add: store_def)
      have hw: "mem ?h3 ?d = MAGIC_VECTOR" "mem ?h3 (?d + 8) = of_nat ?dst" "mem ?h3 (?d + 16) = mem h0 (?a + 16)" "mem ?h3 (?d + 24) = mem h0 (?a + 24)"
        using hd [of 0] hd [of 16] hd [of 24] ws by (simp_all add: store_def)
      have bk: "mem ?h3 (?dst + y) = mem h1 (?dst + y)" if "y < 8 * (1 + unat ?rank)" for y
      proof -
        have "?dst + y \<notin> set ?ys" using ge [of "?dst + y"] that by linarith
        moreover have "y < unat n" using that by (simp add: nu)
        ultimately show ?thesis using r(8) [OF rm] lt by (simp add: store_def)
      qed
      have sb: "same_bytes (mem ?h3) ?dst (mem h0) ?src (8 * (1 + unat ?rank))"
      proof (rule same_bytes_frame [of "mem h1"])
        show "same_bytes (mem h1) ?dst (mem h0) ?src (8 * (1 + unat ?rank))" by (rule same_bytes_shorter [OF a(3)]) (simp add: nu)
        show "mem ?h3 y = mem h1 y" if "?dst \<le> y" "y < ?dst + 8 * (1 + unat ?rank)" for y using bk [of "y - ?dst"] that by simp
      qed (rule a(4))
      have wd: "mem ?h3 (?dst + y) = mem h0 (?src + y)" if "y mod 8 = 0" "y + 8 \<le> 8 * (1 + unat ?rank)" for y
        by (rule same_bytes_word [OF sb a(4) s8 that])
      have rk: "mem ?h3 ?dst = ?rank" using wd [of 0] by simp
      have tot: "vector_total ?dst (mem ?h3) = ?total"
      proof (rule vector_total_moved)
        show "mem ?h3 ?dst = mem h0 ?src" by (rule rk)
        show "mem ?h3 (?dst + 8 * (1 + i)) = mem h0 (?src + 8 * (1 + i))" if "i < unat ?rank" for i by (rule wd) (use that in simp_all)
      qed
      have wr: "words (mem ?h3) ?dst (1 + unat ?rank) = words (mem h0) ?src (1 + unat ?rank)"
        using words_same [OF sb a(4) s8, of 0 "1 + unat ?rank"] by simp
      have nz: "(of_nat ?dst :: u64) \<noteq> 0" using a(5) lt by (metis le_zero_eq add_is_0 unat_0 zero_neq_numeral)
      have bv: "blocks (mem ?h3) (f v) = ?T v" using t hw nz a(5) rk tot nu hs d(4) by (simp add: object_layout_defs vector_size_def)
      have rv: "raw (mem ?h3) (f v) = raw (mem h0) v" using t k hw nz a(5) rk wr by (simp add: raw_def Let_def)
      have sv: "slots (mem ?h3) (f v) = ?ys" using t hw nz a(5) rk tot by (simp add: slots_def Let_def)
      have mv: "map (mem ?h3) ?ys = map (moved h0 f') (fields (mem h0) v)"
        unfolding r(6) [symmetric]
      proof (rule map_cong [OF refl])
        fix y assume "y \<in> set ?ys"
        then have "y \<noteq> ?d + 8" using nd [of 8] by fastforce
        then show "mem ?h3 y = mem h2 y" by (simp add: store_def)
      qed
      have "black_ok h0 f' T' ?D' v (mem ?h3)"
        by (rule black_okI [OF _ _ _ _ mv r(7)]) (simp_all only: r(3,4) bv rv sv, simp add: d(4) blocks_def pt nu vs)
      moreover have "progress h0 f ?D h f' ?D' ?h3"
        by (rule progress_trans [OF progress_trans [OF a(6) r(5)] store_progress [OF r(2) d(1) xT]])
      ultimately show ?thesis unfolding e r(1) using scanned_black [OF i] by simp
    qed
  qed
qed

lemmas stream_offsets = STREAM_SIZE_def STR_BUF_OFFSET_def STR_CAP_OFFSET_def MOUNT_FILE_NODE_OFFSET_def SELF_HANDLE_OFFSET_def
  PENDING_TRANSFER_OFFSET_def

lemma unat_up32: "unat (ucast (c :: u32) :: u64) = unat c"
proof -
  have "unat c < 2 ^ LENGTH(32)" by (rule unsigned_less)
  then have "unat c < 2 ^ LENGTH(64)" by simp
  then show ?thesis by (simp only: unsigned_ucast_eq take_bit_nat_eq_self)
qed

definition relocate_buffer :: "nat \<Rightarrow> heap \<Rightarrow> halt + heap" where
  "relocate_buffer dst h =
     (if is_string_stream dst (mem h)
      then (case gc_copy_block (unat (mem h (dst + STR_BUF_OFFSET))) (ucast (ucast (mem h (dst + STR_CAP_OFFSET)) :: u32)) h of
              Inl e \<Rightarrow> Inl e | Inr (buf_dst, h) \<Rightarrow> Inr (store (dst + STR_BUF_OFFSET) (of_nat buf_dst) h))
      else Inr h)"

text \<open>A string stream owns a buffer besides its block.\<close>

lemma copy_stream_buffer:
  assumes h0: "heap_ok h0" and i: "gc_inv h0 f T B G {v} h" and bl: "blocks (mem h0) v = (a, k) # (s, STREAM_SIZE) # stream_buffer (mem h0) s"
    and T: "T v = [(d, k), (dst, STREAM_SIZE)]" and dst: "dst mod 8 = 0"
    and same: "\<And>x. x mod 8 = 0 \<Longrightarrow> x + 8 \<le> STREAM_SIZE \<Longrightarrow> mem h (dst + x) = mem h0 (s + x)"
  obtains h' T' bufs where "relocate_buffer dst h = Inr h'" "gc_inv h0 f T' B G {v} h'" "T' v = (d, k) # (dst, STREAM_SIZE) # bufs"
    "stream_buffer (mem h') dst = bufs" "map snd bufs = map snd (stream_buffer (mem h0) s)"
    "concat (map (\<lambda>(b, n). bytes_of (mem h') b n) bufs) = concat (map (\<lambda>(b, n). bytes_of (mem h0) b n) (stream_buffer (mem h0) s))"
    "is_string_stream dst (mem h') = is_string_stream s (mem h0)"
    "\<And>x. x < g_to_ptr h \<Longrightarrow> x = dst + STR_BUF_OFFSET \<and> is_string_stream s (mem h0) \<or> mem h' x = mem h x"
    "progress h0 f (B \<union> set G \<union> {v}) h f (B \<union> set G \<union> {v}) h'" "\<And>b. b \<in> set bufs \<Longrightarrow> g_to_ptr h \<le> fst b \<and> fst b mod 8 = 0"
proof -
  let ?D = "B \<union> set G \<union> {v}" and ?buf = "unat (mem h0 (s + STR_BUF_OFFSET))" and ?cap = "ucast (mem h0 (s + STR_CAP_OFFSET)) :: u32"
  note c = gc_invD [OF i]
  have v: "v \<in> ?D" "v \<in> live h0" using c(7) by auto
  have w: "mem h dst = mem h0 s" "mem h (dst + STR_BUF_OFFSET) = mem h0 (s + STR_BUF_OFFSET)" "mem h (dst + STR_CAP_OFFSET) = mem h0 (s + STR_CAP_OFFSET)"
    using same [of 0] same [of STR_BUF_OFFSET] same [of STR_CAP_OFFSET] by (simp_all add: stream_offsets)
  have st: "is_string_stream dst (mem h) = is_string_stream s (mem h0)" by (simp add: is_string_stream_def w)
  show thesis
  proof (cases "is_string_stream s (mem h0)")
    case False
    show thesis
      by (rule that [of h T "[]"]) (use i T st False in \<open>simp_all add: relocate_buffer_def stream_buffer_def\<close>)
  next
    case True
    define n :: u64 where "n = ucast ?cap"
    have n: "unat n = unat ?cap" by (simp only: n_def unat_up32)
    have sb: "stream_buffer (mem h0) s = [(?buf, unat n)]" using True by (simp add: stream_buffer_def n)
    have p: "prefix (map snd (T v) @ [unat n]) (map snd (blocks (mem h0) v))" by (simp add: T bl sb)
    have b: "(?buf, unat n) \<in> set (parts (mem h0) v)" using bl sb by (simp add: blocks_def)
    have lt: "dst + STREAM_SIZE \<le> g_to_ptr h"
    proof -
      have "inside (g_to_start h0) (g_to_ptr h) (dst, STREAM_SIZE)" by (rule copies_okD(5) [OF c(9) v(1)]) (simp add: T)
      then show ?thesis using aligned_up_simps(1) [of STREAM_SIZE] by (simp add: inside_def)
    qed
    show thesis
    proof (rule copy_part [OF h0 i p b])
      fix h1
      let ?q = "g_to_ptr h" and ?T = "T(v := T v @ [(g_to_ptr h, unat n)])" and ?h2 = "store (dst + STR_BUF_OFFSET) (of_nat (g_to_ptr h)) h1"
      assume a: "gc_copy_block ?buf n h = Inr (?q, h1)" "gc_inv h0 f ?T B G {v} h1" "same_bytes (mem h1) ?q (mem h0) ?buf (unat n)"
        "?q mod 8 = 0" "unat (of_nat ?q :: u64) = ?q" "progress h0 f ?D h f ?D h1" "\<And>x. x < ?q \<Longrightarrow> mem h1 x = mem h x"
      have x: "dst + STR_BUF_OFFSET \<in> room (?T v)" by (rule room_block [of dst STREAM_SIZE]) (simp_all add: T stream_offsets)
      have i2: "gc_inv h0 f ?T B G {v} ?h2" by (rule inv_store [OF h0 a(2)]) (use x in \<open>auto simp: free_word_def\<close>)
      have keep: "x = dst + STR_BUF_OFFSET \<or> mem ?h2 x = mem h x" if "x < ?q" for x using a(7) [OF that] by (simp add: store_def)
      have w2: "mem ?h2 dst = mem h0 s" "mem ?h2 (dst + STR_CAP_OFFSET) = mem h0 (s + STR_CAP_OFFSET)" "mem ?h2 (dst + STR_BUF_OFFSET) = of_nat ?q"
        using keep [of dst] keep [of "dst + STR_CAP_OFFSET"] w lt by (simp_all add: stream_offsets store_def)
      have st2: "is_string_stream dst (mem ?h2) = is_string_stream s (mem h0)" by (simp add: is_string_stream_def w2)
      have sb2: "stream_buffer (mem ?h2) dst = [(?q, unat n)]" using st2 True by (simp add: stream_buffer_def w2 a(5) n)
      have "same_bytes (mem ?h2) ?q (mem h0) ?buf (unat n)"
        by (rule same_bytes_frame [OF a(3,4)]) (use lt in \<open>auto simp: store_def stream_offsets\<close>)
      then have bts: "bytes_of (mem ?h2) ?q (unat n) = bytes_of (mem h0) ?buf (unat n)" using bytes_of_same [of _ _ _ _ _ 0 "unat n"] by fastforce
      have eq: "relocate_buffer dst h = Inr ?h2" using True st a(1) by (simp add: relocate_buffer_def w n_def)
      have pr: "progress h0 f ?D h f ?D ?h2" by (rule progress_trans [OF a(6) store_progress [OF a(2) h0 x]])
      show thesis
      proof (rule that [OF eq i2])
        show "?T v = (d, k) # (dst, STREAM_SIZE) # [(?q, unat n)]" by (simp add: T)
        show "x = dst + STR_BUF_OFFSET \<and> is_string_stream s (mem h0) \<or> mem ?h2 x = mem h x" if "x < ?q" for x using keep [OF that] True by blast
      qed (use sb sb2 bts st2 pr a(4) in simp_all)
    qed
  qed
qed

lemma words_moved:
  "(\<And>x. x mod 8 = 0 \<Longrightarrow> x < 8 * n \<Longrightarrow> m (d + x) = m0 (a + x)) \<Longrightarrow> words m d n = words m0 a n"
  by (auto simp: words_def)

lemma stream_raw_moved:
  assumes "\<And>x. x mod 8 = 0 \<Longrightarrow> x < MOUNT_FILE_NODE_OFFSET \<Longrightarrow> x \<noteq> STR_BUF_OFFSET \<or> \<not> is_string_stream s m0 \<Longrightarrow> m (d + x) = m0 (s + x)"
    "is_string_stream d m = is_string_stream s m0"
  shows "words m d 199 = words m0 s 199" "words m (d + STR_CAP_OFFSET) 4 = words m0 (s + STR_CAP_OFFSET) 4"
    "(if is_string_stream d m then [] else [m (d + STR_BUF_OFFSET)]) = (if is_string_stream s m0 then [] else [m0 (s + STR_BUF_OFFSET)])"
proof -
  show "words m d 199 = words m0 s 199" by (rule words_moved, rule assms(1)) (simp_all add: stream_offsets)
  have "m (d + STR_CAP_OFFSET + x) = m0 (s + STR_CAP_OFFSET + x)" if "x mod 8 = 0" "x < 8 * 4" for x
    using assms(1) [of "STR_CAP_OFFSET + x"] that by (auto simp: stream_offsets add.assoc)
  then show "words m (d + STR_CAP_OFFSET) 4 = words m0 (s + STR_CAP_OFFSET) 4" by (rule words_moved)
  show "(if is_string_stream d m then [] else [m (d + STR_BUF_OFFSET)]) = (if is_string_stream s m0 then [] else [m0 (s + STR_BUF_OFFSET)])"
    using assms(1) [of STR_BUF_OFFSET] assms(2) by (simp add: stream_offsets)
qed

lemma scan_stream_end:
  assumes h0: "heap_ok h0" and i: "gc_inv h0 f T B G {v} h" and k: "tag_of v = TAG_INSTANCE" "mem h0 (address_of v) = MAGIC_STREAM"
    and t: "tag_of (f v) = TAG_INSTANCE" and d: "d = address_of (f v)" and a: "a = address_of v" and s: "s = unat (mem h0 (a + 8))"
    and T: "T v = (d, 32) # (dst, STREAM_SIZE) # bufs" and lt: "d + 32 \<le> dst" "dst mod 8 = 0" "unat (of_nat dst :: u64) = dst"
    and hd: "mem h d = MAGIC_STREAM" "mem h (d + 16) = mem h0 (a + 16)" "mem h (d + 24) = mem h0 (a + 24)"
    and sb: "stream_buffer (mem h) dst = bufs" "map snd bufs = map snd (stream_buffer (mem h0) s)"
    and bts: "concat (map (\<lambda>(b, n). bytes_of (mem h) b n) bufs) = concat (map (\<lambda>(b, n). bytes_of (mem h0) b n) (stream_buffer (mem h0) s))"
    and st: "is_string_stream dst (mem h) = is_string_stream s (mem h0)"
    and w: "\<And>x. x mod 8 = 0 \<Longrightarrow> x + 8 \<le> STREAM_SIZE \<Longrightarrow> x \<noteq> STR_BUF_OFFSET \<or> \<not> is_string_stream s (mem h0) \<Longrightarrow> mem h (dst + x) = mem h0 (s + x)"
    and bf: "\<And>b. b \<in> set bufs \<Longrightarrow> dst + STREAM_SIZE \<le> fst b \<and> fst b mod 8 = 0"
    and pr: "progress h0 f (B \<union> set G \<union> {v}) hh f (B \<union> set G \<union> {v}) h"
    and e: "r = (case gc_copy_fields [dst + MOUNT_FILE_NODE_OFFSET, dst + SELF_HANDLE_OFFSET, dst + PENDING_TRANSFER_OFFSET] h of
       Inl e \<Rightarrow> Inl e | Inr h3 \<Rightarrow> Inr (store (d + 8) (of_nat dst) h3))"
  shows "scanned h0 f B G v hh r"
proof -
  let ?ys = "[dst + MOUNT_FILE_NODE_OFFSET, dst + SELF_HANDLE_OFFSET, dst + PENDING_TRANSFER_OFFSET]" and ?D = "B \<union> set G \<union> {v}"
  have sl: "slots (mem h0) v = [s + MOUNT_FILE_NODE_OFFSET, s + SELF_HANDLE_OFFSET, s + PENDING_TRANSFER_OFFSET]"
    using k by (simp add: slots_def Let_def s a)
  have rm: "dst + x \<in> room (T v)" if "x < STREAM_SIZE" for x by (rule room_block [of dst STREAM_SIZE]) (use that T in auto)
  have rd: "d + y \<in> room (T v)" if "y < 32" for y by (rule room_block [of d 32]) (use that T in simp_all)
  have l: "list_all2 (\<lambda>y x. mem h y = mem h0 x \<and> y \<in> room (T v)) ?ys (slots (mem h0) v)"
    using w rm by (simp add: sl stream_offsets)
  show ?thesis
  proof (rule copy_slots [OF h0 i l])
    assume "exhausts h0 (gc_copy_fields ?ys h)"
    then show ?thesis unfolding e scanned_def by (auto simp: exhausts_def)
  next
    fix f' T' G' h3
    let ?D' = "B \<union> set G' \<union> {v}" and ?h = "store (d + 8) (of_nat dst) h3"
    assume r: "gc_copy_fields ?ys h = Inr h3" "gc_inv h0 f' T' B G' {v} h3" "f' v = f v" "T' v = T v" "progress h0 f ?D h f' ?D' h3"
      "map (mem h3) ?ys = map (moved h0 f') (fields (mem h0) v)" "\<forall>w\<in>set (fields (mem h0) v). is_ref h0 w \<longrightarrow> w \<in> ?D'"
      "\<And>x. x \<in> room (T v) \<Longrightarrow> x \<notin> set ?ys \<Longrightarrow> mem h3 x = mem h x"
    have x: "d + 8 \<in> room (T' v)" using rd [of 8] r(4) by simp
    have i3: "gc_inv h0 f' T' B G' {v} ?h" by (rule inv_store [OF h0 r(2)]) (use x in \<open>auto simp: free_word_def\<close>)
    have hk: "mem ?h (d + y) = mem h (d + y)" if "y < 32" "y \<noteq> 8" for y
      using r(8) [OF rd [OF that(1)]] that lt(1) by (auto simp: store_def stream_offsets)
    have hw: "mem ?h d = MAGIC_STREAM" "mem ?h (d + 8) = of_nat dst" "mem ?h (d + 16) = mem h0 (a + 16)" "mem ?h (d + 24) = mem h0 (a + 24)"
      using hk [of 0] hk [of 16] hk [of 24] hd by (simp_all add: store_def)
    have sk: "mem ?h (dst + y) = mem h (dst + y)" if "y < MOUNT_FILE_NODE_OFFSET" for y
      using r(8) [OF rm [of y]] that lt(1) by (auto simp: store_def stream_offsets)
    have st': "is_string_stream dst (mem ?h) = is_string_stream s (mem h0)"
      using sk [of 0] st by (simp add: is_string_stream_def stream_offsets)
    have sb': "stream_buffer (mem ?h) dst = bufs"
    proof -
      have "mem ?h (dst + STR_BUF_OFFSET) = mem h (dst + STR_BUF_OFFSET)" "mem ?h (dst + STR_CAP_OFFSET) = mem h (dst + STR_CAP_OFFSET)"
        by (rule sk, simp add: stream_offsets)+
      then show ?thesis unfolding sb(1) [symmetric] stream_buffer_def using st st' by simp
    qed
    have "bytes_of (mem ?h) b n = bytes_of (mem h) b n" if b: "(b, n) \<in> set bufs" for b n
    proof (rule bytes_of_cong)
      show "b mod 8 = 0" using bf [OF b] by simp
      fix y assume y: "b \<le> y" "y < b + n"
      have "y \<in> room (T v)" by (rule room_block [OF _ y]) (simp add: T b)
      moreover have "dst + STREAM_SIZE \<le> y" using bf [OF b] y(1) by simp
      ultimately show "mem ?h y = mem h y" using r(8) [of y] lt(1) by (auto simp: store_def stream_offsets)
    qed
    then have bt': "concat (map (\<lambda>(b, n). bytes_of (mem ?h) b n) bufs) = concat (map (\<lambda>(b, n). bytes_of (mem h0) b n) (stream_buffer (mem h0) s))"
      unfolding bts [symmetric] by (intro arg_cong [where f = concat] map_cong) auto
    have wk: "mem ?h (dst + x) = mem h0 (s + x)"
      if "x mod 8 = 0" "x < MOUNT_FILE_NODE_OFFSET" "x \<noteq> STR_BUF_OFFSET \<or> \<not> is_string_stream s (mem h0)" for x
      using sk [OF that(2)] w [OF that(1) _ that(3)] that(2) by (simp add: stream_offsets)
    have rw: "words (mem ?h) dst 199 = words (mem h0) s 199" "words (mem ?h) (dst + STR_CAP_OFFSET) 4 = words (mem h0) (s + STR_CAP_OFFSET) 4"
      "(if is_string_stream dst (mem ?h) then [] else [mem ?h (dst + STR_BUF_OFFSET)]) =
         (if is_string_stream s (mem h0) then [] else [mem h0 (s + STR_BUF_OFFSET)])"
      by (rule stream_raw_moved [of s "mem h0" "mem ?h" dst]; (rule wk | rule st'); assumption)+
    have hs: "header_size (mem ?h) (f v) = 32" "header_size (mem h0) v = 32" using t k(1) by (simp_all add: header_size_def)
    have bv: "blocks (mem ?h) (f v) = T v" using t hw lt(3) sb' hs d T by (simp add: blocks_def parts_def Let_def)
    have b0: "map snd (T v) = map snd (blocks (mem h0) v)" using k hs a s sb(2) T by (simp add: blocks_def parts_def Let_def)
    have "raw (mem ?h) (f v) = ([mem ?h d, mem ?h (d + 16), mem ?h (d + 24)] @ words (mem ?h) dst 199 @
        (if is_string_stream dst (mem ?h) then [] else [mem ?h (dst + STR_BUF_OFFSET)]) @ words (mem ?h) (dst + STR_CAP_OFFSET) 4,
        concat (map (\<lambda>(b, n). bytes_of (mem ?h) b n) bufs))"
      using t hw lt(3) sb' d unfolding raw_def Let_def by simp
    also have "\<dots> = raw (mem h0) v" unfolding rw bt' hw using k a s unfolding raw_def Let_def by simp
    finally have rv: "raw (mem ?h) (f v) = raw (mem h0) v" .
    have sv: "slots (mem ?h) (f v) = ?ys" using t hw lt(3) d by (simp add: slots_def Let_def)
    have mv: "map (mem ?h) ?ys = map (moved h0 f') (fields (mem h0) v)"
      unfolding r(6) [symmetric] using lt(1) by (simp add: store_def stream_offsets)
    have "black_ok h0 f' T' ?D' v (mem ?h)"
      by (rule black_okI [OF _ _ _ _ mv r(7)]) (simp_all only: r(3,4) bv rv sv b0)
    moreover have "progress h0 f ?D hh f' ?D' ?h"
      by (rule progress_trans [OF progress_trans [OF pr r(5)] store_progress [OF r(2) h0 x]])
    ultimately show ?thesis unfolding e r(1) using scanned_black [OF i3] by simp
  qed
qed

lemma scan_stream:
  assumes s: "scanning h0 f T B G v h" and k: "tag_of v = TAG_INSTANCE" "mem h0 (address_of v) = MAGIC_STREAM"
  shows "scanned h0 f B G v h (gc_scan_object (f v) h)"
proof -
  let ?d = "address_of (f v)" and ?a = "address_of v" and ?src = "unat (mem h0 (address_of v + 8))" and ?D = "B \<union> set G \<union> {v}" and ?dst = "g_to_ptr h"
  let ?ys = "[?dst + MOUNT_FILE_NODE_OFFSET, ?dst + SELF_HANDLE_OFFSET, ?dst + PENDING_TRANSFER_OFFSET]"
  note d = scanningD [OF s]
  have t: "tag_of (f v) = TAG_INSTANCE" using d(6) k by simp
  have hs: "header_size (mem h0) v = 32" using k(1) by (simp add: header_size_def)
  have w: "mem h (?d + x) = mem h0 (?a + x)" if "x mod 8 = 0" "x + 8 \<le> 32" for x using scanning_word [OF s that(1)] that(2) hs by simp
  have ws: "mem h ?d = MAGIC_STREAM" "mem h (?d + 8) = mem h0 (?a + 8)" "mem h (?d + 16) = mem h0 (?a + 16)" "mem h (?d + 24) = mem h0 (?a + 24)"
    using w [of 0] w [of 8] w [of 16] w [of 24] k(2) by simp_all
  have pt: "parts (mem h0) v = (?src, STREAM_SIZE) # stream_buffer (mem h0) ?src" using k by (simp add: parts_def Let_def)
  have n: "unat (of_nat STREAM_SIZE :: u64) = STREAM_SIZE" by (simp add: STREAM_SIZE_def)
  have bl: "blocks (mem h0) v = (?a, 32) # (?src, STREAM_SIZE) # stream_buffer (mem h0) ?src" by (simp add: blocks_def pt hs)
  have p: "prefix (map snd (T v) @ [unat (of_nat STREAM_SIZE :: u64)]) (map snd (blocks (mem h0) v))" by (simp add: d(4) bl hs n)
  have b: "(?src, unat (of_nat STREAM_SIZE :: u64)) \<in> set (parts (mem h0) v)" by (simp add: pt n)
  have lt: "?d + 32 \<le> ?dst" using d(8) hs by simp
  show ?thesis
  proof (rule copy_part [OF d(1,2) p b, unfolded n])
    fix h1
    let ?T = "T(v := T v @ [(?dst, STREAM_SIZE)])"
    assume a: "gc_copy_block ?src (of_nat STREAM_SIZE) h = Inr (?dst, h1)" "gc_inv h0 f ?T B G {v} h1" "same_bytes (mem h1) ?dst (mem h0) ?src STREAM_SIZE"
      "?dst mod 8 = 0" "unat (of_nat ?dst :: u64) = ?dst" "progress h0 f ?D h f ?D h1" "\<And>x. x < ?dst \<Longrightarrow> mem h1 x = mem h x"
      "g_to_ptr h1 = ?dst + aligned_up STREAM_SIZE"
    have s8: "?src mod 8 = 0" using part_inside(1) [OF d(1,3) b] by (simp add: dvd16_mod8)
    have T1: "?T v = [(?d, 32), (?dst, STREAM_SIZE)]" by (simp add: d(4) hs)
    have new: "mem h1 (?dst + x) = mem h0 (?src + x)" if "x mod 8 = 0" "x + 8 \<le> STREAM_SIZE" for x
      by (rule same_bytes_word [OF a(3,4) s8 that])
    have p1: "?dst + STREAM_SIZE \<le> g_to_ptr h1" using a(8) aligned_up_simps(1) [of STREAM_SIZE] by simp
    show ?thesis
    proof (rule copy_stream_buffer [OF d(1) a(2) bl T1 a(4) new])
      fix h2 T2 bufs
      assume q: "relocate_buffer ?dst h1 = Inr h2" "gc_inv h0 f T2 B G {v} h2" "T2 v = (?d, 32) # (?dst, STREAM_SIZE) # bufs"
        "stream_buffer (mem h2) ?dst = bufs" "map snd bufs = map snd (stream_buffer (mem h0) ?src)"
        "concat (map (\<lambda>(b, n). bytes_of (mem h2) b n) bufs) = concat (map (\<lambda>(b, n). bytes_of (mem h0) b n) (stream_buffer (mem h0) ?src))"
        "is_string_stream ?dst (mem h2) = is_string_stream ?src (mem h0)"
        "\<And>x. x < g_to_ptr h1 \<Longrightarrow> x = ?dst + STR_BUF_OFFSET \<and> is_string_stream ?src (mem h0) \<or> mem h2 x = mem h1 x"
        "progress h0 f ?D h1 f ?D h2" "\<And>b. b \<in> set bufs \<Longrightarrow> g_to_ptr h1 \<le> fst b \<and> fst b mod 8 = 0"
      have w2: "mem h2 (?dst + x) = mem h0 (?src + x)" if "x mod 8 = 0" "x + 8 \<le> STREAM_SIZE" "x \<noteq> STR_BUF_OFFSET \<or> \<not> is_string_stream ?src (mem h0)" for x
        using q(8) [of "?dst + x"] new [OF that(1,2)] that(2,3) p1 by auto
      have e: "gc_scan_object (f v) h = (case gc_copy_fields ?ys h2 of Inl e \<Rightarrow> Inl e | Inr h3 \<Rightarrow> Inr (store (?d + 8) (of_nat ?dst) h3))"
        using t ws a(1) q(1) [unfolded relocate_buffer_def]
        by (simp add: gc_scan_object_def gc_scan_instance_def gc_relocate_stream_def const_defs Let_def)
      show ?thesis
      proof (rule scan_stream_end [OF d(1) q(2) k t refl refl refl q(3) lt a(4,5) _ _ _ q(4-7) w2 _ progress_trans [OF a(6) q(9)] e])
        have hk: "mem h2 (?d + y) = mem h (?d + y)" if "y < 32" for y
          using q(8) [of "?d + y"] a(7) [of "?d + y"] that lt p1 by (auto simp: stream_offsets)
        show "mem h2 ?d = MAGIC_STREAM" "mem h2 (?d + 16) = mem h0 (?a + 16)" "mem h2 (?d + 24) = mem h0 (?a + 24)"
          using hk [of 0] hk [of 16] hk [of 24] ws by simp_all
        show "?dst + STREAM_SIZE \<le> fst b \<and> fst b mod 8 = 0" if "b \<in> set bufs" for b using q(10) [OF that] p1 by simp
      qed
    qed
  qed
qed

subsection \<open>The scan loop\<close>

lemma scan_object:
  assumes s: "scanning h0 f T B G v h"
  shows "scanned h0 f B G v h (gc_scan_object (f v) h)"
proof (cases rule: object_cases [where v = v and m = "mem h0"])
  case other
  then show ?thesis using heap_okD(4) [OF scanningD(1,3) [OF s]] by (simp add: object_ok_def)
next
  case cons then show ?thesis by (rule scan_cons [OF s])
next
  case symbol then show ?thesis by (rule scan_symbol [OF s])
next
  case string then show ?thesis by (rule scan_string [OF s])
next
  case stream then show ?thesis by (rule scan_stream [OF s])
next
  case bignum then show ?thesis by (rule scan_bignum [OF s])
next
  case vector then show ?thesis by (rule scan_vector [OF s])
next
  case plain then show ?thesis by (rule scan_plain [OF s])
qed

lemma pop_scanning:
  assumes h0: "heap_ok h0" and i: "gc_inv h0 f T B (v # G) {} h"
  defines "h1 \<equiv> h\<lparr>g_gc_queue_head := g_gc_queue_head h + 1\<rparr>"
  shows "gc_queue_pop h = Some (f v, h1)" "scanning h0 f T B G v h1"
proof -
  note c = gc_invD [OF i]
  have q: "queue_of h = f v # map f G" using c(3) by simp
  note p = pop_queue [OF c(2)]
  show "gc_queue_pop h = Some (f v, h1)" unfolding h1_def by (rule p(2) [OF q])
  have q1: "queue_of h1 = map f G" "queue_bounded h1" using p(3) [OF q] by (simp_all add: h1_def)
  have D: "B \<union> set (v # G) \<union> {} = B \<union> set G \<union> {v}" by auto
  have "from_ok h0 f (B \<union> set G \<union> {v}) h1" using c(8) unfolding D by (simp add: from_ok_def h1_def)
  moreover have "copies_ok h0 f T (B \<union> set G \<union> {v}) h1" using c(9) unfolding D by (rule copies_cong) (simp add: h1_def)
  moreover have "same_frame h0 h1" unfolding h1_def using c(1) by simp
  moreover have "mem h1 = mem h" by (simp add: h1_def)
  ultimately have "gc_inv h0 f T B G {v} h1"
    unfolding gc_inv_def using q1 c(4-7) c(10,11) D by auto
  moreover have "gray_ok h0 f T v (mem h1)" using c(10) [of v] by (simp add: h1_def)
  ultimately show "scanning h0 f T B G v h1" using h0 by (simp add: scanning_def)
qed

text \<open>Every step finishes one more live object, so the loop ends.\<close>

lemma scan_queue:
  assumes h0: "heap_ok h0" and i: "gc_inv h0 f T B G {} h"
  shows "\<exists>r. gc_scan_queue h = Some r \<and> (exhausts h0 r \<or>
    (\<exists>f' T' B' h'. r = Inr h' \<and> gc_inv h0 f' T' B' [] {} h' \<and> progress h0 f (B \<union> set G) h f' B' h'))"
  using i
proof (induction "card (live h0 - B)" arbitrary: f T B G h rule: less_induct)
  case less
  note i = less.prems
  note c = gc_invD [OF i]
  show ?case
  proof (cases G)
    case Nil
    then have "gc_queue_pop h = None" using pop_queue(1) [OF c(2)] c(3) by simp
    then have "gc_scan_queue h = Some (Inr h)" by (subst gc_scan_queue.simps) simp
    then show ?thesis using i Nil by (intro exI [of _ "Inr h"] conjI disjI2 exI [of _ f] exI [of _ T] exI [of _ B] exI [of _ h]) simp_all
  next
    case (Cons v G1)
    let ?h1 = "h\<lparr>g_gc_queue_head := g_gc_queue_head h + 1\<rparr>"
    note p = pop_scanning [OF h0 i [unfolded Cons]]
    note st = scan_object [OF p(2)]
    show ?thesis
    proof (cases "exhausts h0 (gc_scan_object (f v) ?h1)")
      case True
      then have "gc_scan_queue h = Some (Inl Queue_exhausted)" by (subst gc_scan_queue.simps) (simp add: p(1) exhausts_def)
      then show ?thesis using True by (simp add: exhausts_def)
    next
      case False
      then obtain f2 T2 G2 h2 where n: "gc_scan_object (f v) ?h1 = Inr h2" "gc_inv h0 f2 T2 (insert v B) G2 {} h2"
        "progress h0 f (B \<union> set G1 \<union> {v}) ?h1 f2 (insert v B \<union> set G2) h2" using st unfolding scanned_def by blast
      have v: "v \<in> live h0 - B" using c(5,7) Cons by auto
      have "card (live h0 - insert v B) < card (live h0 - B)"
        by (rule psubset_card_mono) (use v finite_live [OF h0] in auto)
      from less.hyps [OF this n(2)] obtain r where r: "gc_scan_queue h2 = Some r" "exhausts h0 r \<or>
        (\<exists>f' T' B' h'. r = Inr h' \<and> gc_inv h0 f' T' B' [] {} h' \<and> progress h0 f2 (insert v B \<union> set G2) h2 f' B' h')" by blast
      have eq: "gc_scan_queue h = Some r" by (subst gc_scan_queue.simps) (simp only: p(1) n(1) r(1) option.case prod.case sum.case)
      have pr: "progress h0 f (B \<union> set G) h f' B' h'" if "progress h0 f2 (insert v B \<union> set G2) h2 f' B' h'" for f' B' h'
      proof -
        have D: "B \<union> set G = B \<union> set G1 \<union> {v}" using Cons by auto
        have "progress h0 f (B \<union> set G) ?h1 f' B' h'" unfolding D by (rule progress_trans [OF n(3) that])
        then show ?thesis by (simp add: progress_def)
      qed
      show ?thesis using r(2) pr eq by blast
    qed
  qed
qed

end
