(* ===== verification/Collect.thy ===== *)
theory Collect
  imports GcScan
begin

unbundle bit_operations_syntax

text \<open>
  A whole collection, allocation on top of it, and what they promise: \<open>reclaimed h f h'\<close> says that
  what the roots of \<open>h'\<close> reach is the image under \<open>f\<close> of what the roots of \<open>h\<close> reach, kind by kind,
  field by field, and that nothing outside the heap but the roots has changed.
\<close>

subsection \<open>A whole collection\<close>

lemma advances_outside:
  assumes "advances h0 X f T D h f' T' D' h'" "g_to_start h0 \<le> g_to_ptr h" "outside h0 x" "x \<notin> X"
  shows "mem h' x = mem h x"
proof -
  have "\<not> (g_from_start h0 \<le> x \<and> x < g_from_end h0)" "\<not> (g_to_ptr h \<le> x \<and> x < g_to_end h0)"
    using assms(2,3) by (auto simp: outside_def)
  then show ?thesis using assms(1,4) unfolding advances_def by blast
qed

lemma inv_start:
  assumes "heap_ok h0"
  shows "gc_inv h0 f T {} [] {} (h0\<lparr>g_gc_collect_count := c, g_to_ptr := g_to_start h0, g_gc_queue_head := 0, g_gc_queue_tail := 0\<rparr>)"
proof -
  have "same_frame h0 (h0\<lparr>g_gc_collect_count := c, g_to_ptr := g_to_start h0, g_gc_queue_head := 0, g_gc_queue_tail := 0\<rparr>)"
    unfolding same_frame_def by simp
  then show ?thesis by (simp add: gc_inv_def queue_bounded_def queue_of_def from_ok_def copies_ok_def)
qed

text \<open>What has been treated stays so.\<close>

lemma settled_progress:
  assumes "settled h0 m1 f D h x" "progress h0 f D h f' D' h'" "outside h0 x"
  shows "settled h0 m1 f' D' h' x"
  using assms unfolding settled_def progress_def moved_def by (metis subsetD)

lemma settled_advances:
  assumes "settled h0 m1 f D h x" "advances h0 X f T D h f' T' D' h'" "mem h' x = mem h x"
  shows "settled h0 m1 f' D' h' x"
  using assms unfolding settled_def advances_def moved_def by (metis subsetD)

lemma live_marked:
  assumes i: "gc_inv h0 f T B [] {} h" and r: "\<And>a. a \<in> set (gc_roots h0) \<union> set (function_cells h0) \<Longrightarrow> is_ref h0 (mem h0 a) \<Longrightarrow> mem h0 a \<in> B"
  shows "B = live h0"
proof
  note c = gc_invD [OF i]
  show "B \<subseteq> live h0" using c(7) by simp
  show "live h0 \<subseteq> B"
  proof
    fix v assume "v \<in> live h0"
    then show "v \<in> B"
    proof induction
      case (live_field v w)
      then have "black_ok h0 f T (B \<union> set [] \<union> {}) v (mem h)" by (intro c(11))
      then show ?case using live_field.hyps by (simp add: black_ok_def)
    qed (rule r)
  qed
qed

definition evacuated :: "heap \<Rightarrow> (u64 \<Rightarrow> u64) \<Rightarrow> (u64 \<Rightarrow> (nat \<times> nat) list) \<Rightarrow> heap \<Rightarrow> bool" where
  "evacuated h0 f T h \<longleftrightarrow> gc_inv h0 f T (live h0) [] {} h \<and>
     (\<forall>a\<in>set (gc_roots h0) \<union> set (function_cells h0). mem h a = moved h0 f (mem h0 a)) \<and>
     (\<forall>a. outside h0 a \<longrightarrow> a \<notin> set (gc_roots h0) \<union> set (function_cells h0) \<longrightarrow> mem h a = mem h0 a)"

lemma collect_phases:
  assumes h0: "heap_ok h0"
  shows "\<exists>r. os_gc_collect h0 = Some r \<and> (exhausts h0 r \<or> (\<exists>f T h. r = Inr (gc_flip h) \<and> evacuated h0 f T h))"
proof -
  define h1 where "h1 = h0\<lparr>g_gc_collect_count := g_gc_collect_count h0 + 1, g_to_ptr := g_to_start h0, g_gc_queue_head := 0, g_gc_queue_tail := 0\<rparr>"
  let ?R = "set (gc_roots h0)" and ?C = "set (function_cells h0)"
  have roots: "gc_roots h1 = gc_roots h0" by (simp add: gc_roots_def h1_def)
  note collect = os_gc_collect_def [of h0, unfolded Let_def, folded h1_def, unfolded roots]
  have i1: "gc_inv h0 id (\<lambda>_. []) {} [] {} h1" unfolding h1_def by (rule inv_start [OF h0])
  have out: "outside h0 a" if "a \<in> ?R \<union> ?C" for a using heap_okD(2,3) [OF h0] that by blast
  have ref: "is_ref h0 (mem h0 a) \<longrightarrow> mem h0 a \<in> live h0" if "a \<in> ?R \<union> ?C" for a using live_root [of a h0] that by blast
  have p1: "pending h0 (mem h0) id ({} \<union> set [] \<union> {}) h1 x \<and> free_word h0 (\<lambda>_. []) {} x" if "x \<in> ?R" for x
    using ref [of x] out [of x] that by (auto simp: pending_def free_word_def h1_def)
  show ?thesis
  proof (rule copy_fields [OF h0 i1 p1])
    assume "exhausts h0 (gc_copy_fields (gc_roots h0) h1)"
    then show ?thesis unfolding collect by (auto simp: exhausts_def)
  next
    fix f2 T2 G2 h2
    assume a2: "gc_copy_fields (gc_roots h0) h1 = Inr h2" "gc_inv h0 f2 T2 {} G2 {} h2"
      "advances h0 ?R id (\<lambda>_. []) ({} \<union> set [] \<union> {}) h1 f2 T2 ({} \<union> set G2 \<union> {}) h2"
      "\<And>x. x \<in> ?R \<Longrightarrow> settled h0 (mem h0) f2 ({} \<union> set G2 \<union> {}) h2 x"
    have o2: "mem h2 x = mem h0 x" if "outside h0 x" "x \<notin> ?R" for x using advances_outside [OF a2(3) _ that] by (simp add: h1_def)
    obtain r3 where r3: "gc_scan_queue h2 = Some r3" "exhausts h0 r3 \<or>
        (\<exists>f' T' B' h'. r3 = Inr h' \<and> gc_inv h0 f' T' B' [] {} h' \<and> progress h0 f2 ({} \<union> set G2) h2 f' B' h')"
      using scan_queue [OF h0 a2(2)] by blast
    show ?thesis
    proof (cases "exhausts h0 r3")
      case True
      then show ?thesis unfolding collect by (auto simp: a2(1) r3(1) exhausts_def)
    next
      case False
      then obtain f3 T3 B3 h3 where a3: "r3 = Inr h3" "gc_inv h0 f3 T3 B3 [] {} h3" "progress h0 f2 (set G2) h2 f3 B3 h3" using r3(2) by auto
      note c3 = gc_invD [OF a3(2)]
      have cells: "function_cells h3 = function_cells h0" by (rule same_frameD(12) [OF c3(1)])
      have s3: "settled h0 (mem h0) f3 B3 h3 x" if "x \<in> ?R" for x
        using settled_progress [OF _ a3(3)] a2(4) [OF that] out that by simp
      have o3: "mem h3 x = mem h0 x" if "outside h0 x" "x \<notin> ?R" for x using a3(3) o2 [OF that] that(1) by (simp add: progress_def)
      have p3: "pending h0 (mem h0) f3 (B3 \<union> set [] \<union> {}) h3 x \<and> free_word h0 T3 {} x" if x: "x \<in> ?C" for x
      proof -
        have ox: "outside h0 x" "is_ref h0 (mem h0 x) \<longrightarrow> mem h0 x \<in> live h0" using out ref x by blast+
        have "pending h0 (mem h0) f3 B3 h3 x"
        proof (cases "x \<in> ?R")
          case True
          then show ?thesis by (intro settled_pending s3)
        next
          case False
          then show ?thesis using o3 [OF ox(1)] ox(2) by (simp add: pending_def)
        qed
        then show ?thesis using ox(1) by (simp add: free_word_def)
      qed
      show ?thesis
      proof (rule copy_fields [OF h0 a3(2) p3])
        assume "exhausts h0 (gc_copy_fields (function_cells h0) h3)"
        then show ?thesis unfolding collect
          by (auto simp: a2(1) r3(1) a3(1) gc_fixup_all_function_cells_def cells exhausts_def)
      next
        fix f4 T4 G4 h4
        let ?D4 = "B3 \<union> set G4 \<union> {}"
        assume a4: "gc_copy_fields (function_cells h0) h3 = Inr h4" "gc_inv h0 f4 T4 B3 G4 {} h4"
          "advances h0 ?C f3 T3 (B3 \<union> set [] \<union> {}) h3 f4 T4 ?D4 h4" "\<And>x. x \<in> ?C \<Longrightarrow> settled h0 (mem h0) f4 ?D4 h4 x"
        have D3: "B3 \<union> set [] \<union> {} = B3" by simp
        note to3 = copies_to_ptr [OF h0 c3(9,7)]
        have s4: "settled h0 (mem h0) f4 ?D4 h4 x" if "x \<in> ?R \<union> ?C" for x
        proof (cases "x \<in> ?C")
          case False
          then have x: "x \<in> ?R" "outside h0 x" using that out by blast+
          show ?thesis
            by (rule settled_advances [OF s3 [OF x(1)] a4(3) [unfolded D3]]) (rule advances_outside [OF a4(3) to3(1) x(2) False])
        qed (rule a4(4))
        obtain r5 where r5: "gc_scan_queue h4 = Some r5" "exhausts h0 r5 \<or>
            (\<exists>f' T' B' h'. r5 = Inr h' \<and> gc_inv h0 f' T' B' [] {} h' \<and> progress h0 f4 (B3 \<union> set G4) h4 f' B' h')"
          using scan_queue [OF h0 a4(2)] by blast
        show ?thesis
        proof (cases "exhausts h0 r5")
          case True
          then show ?thesis unfolding collect
            by (auto simp: a2(1) r3(1) a3(1) gc_fixup_all_function_cells_def cells a4(1) r5(1) exhausts_def)
        next
          case False
          then obtain f T B h where a5: "r5 = Inr h" "gc_inv h0 f T B [] {} h" "progress h0 f4 (B3 \<union> set G4) h4 f B h" using r5(2) by auto
          have s5: "settled h0 (mem h0) f B h x" if "x \<in> ?R \<union> ?C" for x
            using settled_progress [OF _ a5(3)] s4 [OF that] out that by simp
          have o5: "mem h x = mem h0 x" if x: "outside h0 x" "x \<notin> ?R \<union> ?C" for x
            using a5(3) x advances_outside [OF a4(3) to3(1) x(1)] o3 [OF x(1)] by (simp add: progress_def)
          have "B = live h0" by (rule live_marked [OF a5(2)]) (use s5 in \<open>simp add: settled_def\<close>)
          then have "evacuated h0 f T h" using a5(2) s5 o5 by (simp add: evacuated_def settled_def)
          moreover have "os_gc_collect h0 = Some (Inr (gc_flip h))" unfolding collect
            by (simp add: a2(1) r3(1) a3(1) gc_fixup_all_function_cells_def cells a4(1) r5(1) a5(1))
          ultimately show ?thesis by blast
        qed
      qed
    qed
  qed
qed

subsection \<open>The heap after a collection\<close>

lemma soft_end_simps [simp]:
  "mem (heap_apply_soft_end h) = mem h" "nil (heap_apply_soft_end h) = nil h" "g_from_start (heap_apply_soft_end h) = g_from_start h"
  "g_from_ptr (heap_apply_soft_end h) = g_from_ptr h" "g_from_end (heap_apply_soft_end h) = g_from_end h"
  "g_to_start (heap_apply_soft_end h) = g_to_start h" "g_to_ptr (heap_apply_soft_end h) = g_to_ptr h" "g_to_end (heap_apply_soft_end h) = g_to_end h"
  "gc_roots (heap_apply_soft_end h) = gc_roots h" "function_cells (heap_apply_soft_end h) = function_cells h"
  "mem (heap_update_soft_end h) = mem h" "nil (heap_update_soft_end h) = nil h" "g_from_start (heap_update_soft_end h) = g_from_start h"
  "g_from_ptr (heap_update_soft_end h) = g_from_ptr h" "g_from_end (heap_update_soft_end h) = g_from_end h"
  "g_to_start (heap_update_soft_end h) = g_to_start h" "g_to_ptr (heap_update_soft_end h) = g_to_ptr h" "g_to_end (heap_update_soft_end h) = g_to_end h"
  "gc_roots (heap_update_soft_end h) = gc_roots h" "function_cells (heap_update_soft_end h) = function_cells h"
  by (simp_all add: heap_apply_soft_end_def heap_update_soft_end_def gc_roots_def Let_def split: prod.splits)

lemma flip_simps [simp]:
  "mem (gc_flip h) = mem h" "nil (gc_flip h) = nil h" "g_from_start (gc_flip h) = g_to_start h" "g_from_end (gc_flip h) = g_to_end h"
  "g_from_ptr (gc_flip h) = g_to_ptr h" "g_to_start (gc_flip h) = g_from_start h" "g_to_end (gc_flip h) = g_from_end h"
  "g_to_ptr (gc_flip h) = g_from_start h" "gc_roots (gc_flip h) = gc_roots h" "function_cells (gc_flip h) = function_cells h"
  by (simp_all add: gc_flip_def) (simp_all add: gc_roots_def)

lemma outside_flip: "outside (gc_flip h) a = outside h a"
  by (auto simp: outside_def)

lemma raw_first: "tag_of v = TAG_STRING \<or> tag_of v = TAG_INSTANCE \<Longrightarrow> fst (raw m v) \<noteq> [] \<and> hd (fst (raw m v)) = m (address_of v)"
proof (cases rule: object_cases [where v = v and m = m])
  case plain
  assume "tag_of v = TAG_STRING \<or> tag_of v = TAG_INSTANCE"
  have "0 \<notin> set (plain_slots (m (address_of v)))" using plain_slots_bound [of 0] by fastforce
  then show ?thesis unfolding plain_layout(3) [of v m, OF plain] by (simp add: plain_raw_def)
next
  case bignum
  then show ?thesis by (simp add: raw_def Let_def words_def upt_conv_Cons)
qed (simp_all add: raw_def Let_def)

lemma fields_first: "tag_of v = TAG_CONS \<or> tag_of v = TAG_SYMBOL \<Longrightarrow> fields m v \<noteq> [] \<and> hd (fields m v) = m (address_of v)"
  by (auto simp: fields_def slots_def Let_def)

lemma evacuatedD:
  assumes h0: "heap_ok h0" and e: "evacuated h0 f T h" and v: "v \<in> live h0"
  shows "tag_of (f v) = tag_of v" "raw (mem h) (f v) = raw (mem h0) v" "fields (mem h) (f v) = map (moved h0 f) (fields (mem h0) v)"
    "blocks (mem h) (f v) = T v" "map snd (T v) = map snd (blocks (mem h0) v)" "is_ref h0 (f v)"
proof -
  have i: "gc_inv h0 f T (live h0) [] {} h" using e by (simp add: evacuated_def)
  note c = gc_invD [OF i]
  have b: "black_ok h0 f T (live h0) v (mem h)" using c(11) [OF v] by simp
  show "raw (mem h) (f v) = raw (mem h0) v" "fields (mem h) (f v) = map (moved h0 f) (fields (mem h0) v)"
    "blocks (mem h) (f v) = T v" "map snd (T v) = map snd (blocks (mem h0) v)" using b by (auto simp: black_ok_def)
  have d: "v \<in> live h0 \<union> set [] \<union> {}" using v by simp
  show t: "tag_of (f v) = tag_of v" by (rule copies_okD(1) [OF c(9) d])
  have "address_of (f v) \<noteq> address_of (nil h0)"
    using copies_room(3,4) [OF c(9) d] copies_to_ptr(2) [OF h0 c(9,7)] heap_okD(1) [OF h0] by (auto simp: spaces_ok_def outside_def)
  then show "is_ref h0 (f v)" using live_is_ref [OF v] t by (auto simp: is_ref_def)
qed

lemma moved_is_ref:
  assumes "heap_ok h0" "evacuated h0 f T h" "is_ref h0 w \<longrightarrow> w \<in> live h0"
  shows "is_ref h0 (moved h0 f w) = is_ref h0 w"
  using evacuatedD(6) [OF assms(1,2)] assms(3) by (auto simp: moved_def)

lemma evacuated_frame:
  assumes e: "evacuated h0 f T h"
  shows "is_ref (gc_flip h) w = is_ref h0 w" "gc_roots h = gc_roots h0" "function_cells h = function_cells h0" "same_frame h0 h"
proof -
  have i: "gc_inv h0 f T (live h0) [] {} h" using e by (simp add: evacuated_def)
  note fr = same_frameD [OF gc_invD(1) [OF i]]
  show "is_ref (gc_flip h) w = is_ref h0 w" "gc_roots h = gc_roots h0" "function_cells h = function_cells h0"
    using fr by (simp_all add: is_ref_def gc_roots_def)
  show "same_frame h0 h" by (rule gc_invD(1) [OF i])
qed

lemma live_moved:
  assumes h0: "heap_ok h0" and e: "evacuated h0 f T h"
  shows "live (gc_flip h) = f ` live h0"
proof
  note ev = evacuatedD [OF h0 e] and fr = evacuated_frame [OF e]
  have roots: "mem h a = moved h0 f (mem h0 a)" if "a \<in> set (gc_roots h0) \<union> set (function_cells h0)" for a
    using e that by (simp add: evacuated_def)
  have rf: "is_ref h0 w \<longrightarrow> w \<in> live h0" if "v \<in> live h0" "w \<in> set (fields (mem h0) v)" for v w using live_field that by blast
  have rr: "is_ref h0 (mem h0 a) \<longrightarrow> mem h0 a \<in> live h0" if "a \<in> set (gc_roots h0) \<union> set (function_cells h0)" for a using live_root that by blast
  show "live (gc_flip h) \<subseteq> f ` live h0"
  proof
    fix v assume "v \<in> live (gc_flip h)"
    then show "v \<in> f ` live h0"
    proof induction
      case (live_root a)
      then have a: "a \<in> set (gc_roots h0) \<union> set (function_cells h0)" "is_ref h0 (mem h a)" using fr by simp_all
      then have "is_ref h0 (mem h0 a)" using roots [OF a(1)] moved_is_ref [OF h0 e rr [OF a(1)]] by simp
      then show ?case using roots [OF a(1)] rr [OF a(1)] by (simp add: moved_def)
    next
      case (live_field v w)
      then obtain u where u: "u \<in> live h0" "v = f u" by blast
      have "w \<in> set (fields (mem h) (f u))" using live_field.hyps(2) u by simp
      then obtain x where x: "x \<in> set (fields (mem h0) u)" "w = moved h0 f x" unfolding ev(3) [OF u(1)] by auto
      have "is_ref h0 w" using live_field.hyps(3) fr by simp
      then have "is_ref h0 x" using x(2) moved_is_ref [OF h0 e rf [OF u(1) x(1)]] by simp
      then show ?case using x rf [OF u(1) x(1)] by (simp add: moved_def)
    qed
  qed
  show "f ` live h0 \<subseteq> live (gc_flip h)"
  proof
    fix v' assume "v' \<in> f ` live h0"
    then obtain v where v: "v \<in> live h0" "v' = f v" by blast
    from v(1) have "f v \<in> live (gc_flip h)"
    proof induction
      case (live_root a)
      then have "mem h a = f (mem h0 a)" using roots [of a] by (simp add: moved_def)
      moreover have "is_ref (gc_flip h) (f (mem h0 a))" using ev(6) [of "mem h0 a"] live.live_root [OF live_root] fr by simp
      ultimately show ?case using live.live_root [of a "gc_flip h"] live_root fr by simp
    next
      case (live_field v w)
      have "f w \<in> set (fields (mem h) (f v))" unfolding ev(3) [OF live_field.hyps(1)] using live_field.hyps(2,3) by (force simp: moved_def)
      moreover have "is_ref (gc_flip h) (f w)" using ev(6) [of w] live.live_field [OF live_field.hyps(1-3)] fr by simp
      ultimately show ?case using live.live_field [OF live_field.IH, of "f w"] by simp
    qed
    then show "v' \<in> live (gc_flip h)" using v(2) by simp
  qed
qed

lemma evacuated_inj:
  assumes h0: "heap_ok h0" and e: "evacuated h0 f T h"
  shows "inj_on f (live h0)"
proof (rule inj_onI, rule ccontr)
  fix v w assume a: "v \<in> live h0" "w \<in> live h0" "f v = f w" "v \<noteq> w"
  have i: "gc_inv h0 f T (live h0) [] {} h" using e by (simp add: evacuated_def)
  have c: "copies_ok h0 f T (live h0) h" using gc_invD(9) [OF i] by simp
  have "T v = T w" using evacuatedD(4) [OF h0 e] a(1-3) by metis
  moreover have "hd (T v) \<in> set (T v)" using copies_okD(2) [OF c a(1)] by simp
  ultimately have s: "sep (hd (T v)) (hd (T v))" using copies_okD(7) [OF c a(1,2,4)] by metis
  have "T v = (address_of (f v), header_size (mem h) (f v)) # parts (mem h) (f v)" using evacuatedD(4) [OF h0 e a(1)] by (simp add: blocks_def)
  then show False using s header_positive [of "mem h" "f v"] aligned_up_simps(1) [of "header_size (mem h) (f v)"] by (simp add: sep_def)
qed

lemma first_word:
  assumes h0: "heap_ok h0" and e: "evacuated h0 f T h" and v: "v \<in> live h0"
    and fw: "tag_of (mem h (address_of (f v))) = TAG_FORWARD"
  shows "tag_of v = TAG_STRING \<and> outside h0 (address_of (mem h (address_of (f v))))"
proof (cases "tag_of v = TAG_STRING \<or> tag_of v = TAG_INSTANCE")
  case True
  then have "mem h (address_of (f v)) = mem h0 (address_of v)"
    using raw_first [of v "mem h0"] raw_first [of "f v" "mem h"] evacuatedD(1,2) [OF h0 e v] by simp
  then show ?thesis using heap_okD(4) [OF h0 v] fw by (simp add: object_ok_def)
next
  case False
  then have t: "tag_of v = TAG_CONS \<or> tag_of v = TAG_SYMBOL" using heap_okD(4) [OF h0 v] by (auto simp: object_ok_def)
  have "mem h (address_of (f v)) = moved h0 f (mem h0 (address_of v))"
    using fields_first [of v "mem h0", OF t] fields_first [of "f v" "mem h"] t evacuatedD(1,3) [OF h0 e v] by (simp add: hd_map)
  moreover have "is_ref h0 (mem h0 (address_of v)) \<longrightarrow> mem h0 (address_of v) \<in> live h0"
    using fields_first [of v "mem h0", OF t] live_field [OF v] by (metis hd_in_set)
  ultimately have "tag_of (mem h0 (address_of v)) = TAG_FORWARD" using evacuatedD(1) [OF h0 e] fw by (auto simp: moved_def split: if_splits)
  then show ?thesis using heap_okD(4) [OF h0 v] False by (simp add: object_ok_def)
qed

lemma evacuated_object_ok:
  assumes h0: "heap_ok h0" and e: "evacuated h0 f T h" and v: "v \<in> live h0"
  shows "object_ok (gc_flip h) (f v)"
proof -
  have i: "gc_inv h0 f T (live h0) [] {} h" using e by (simp add: evacuated_def)
  note c = gc_invD [OF i] and fr = same_frameD [OF gc_invD(1) [OF i]]
  have d: "v \<in> live h0 \<union> set [] \<union> {}" using v by simp
  note ev = evacuatedD [OF h0 e v] and k = copies_okD [OF c(9) d]
  have o: "object_ok h0 v" by (rule heap_okD(4) [OF h0 v])
  have "outside (gc_flip h) a = outside h0 a" for a unfolding outside_flip by (simp only: outside_def fr)
  moreover have "tag_of (f v) \<in> {TAG_CONS, TAG_SYMBOL, TAG_STRING, TAG_INSTANCE}" using o ev(1) by (simp add: object_ok_def)
  moreover have "\<forall>b\<in>set (blocks (mem h) (f v)). inside (g_to_start h) (g_to_ptr h) b" unfolding ev(4) fr using k(5) by blast
  moreover have "sorted_wrt sep (blocks (mem h) (f v))" unfolding ev(4) by (rule k(6))
  ultimately show ?thesis unfolding object_ok_def flip_simps ev(1) using first_word [OF h0 e v] by blast
qed

lemma evacuated_spaces:
  assumes h0: "heap_ok h0" and e: "evacuated h0 f T h"
  shows "spaces_ok (gc_flip h)" "g_to_ptr h = g_to_start h0 + (\<Sum>v\<in>live h0. total_size (blocks (mem h0) v))"
proof -
  have i: "gc_inv h0 f T (live h0) [] {} h" using e by (simp add: evacuated_def)
  note c = gc_invD [OF i] and fr = same_frameD [OF gc_invD(1) [OF i]]
  note p = copies_to_ptr [OF h0 c(9,7)]
  have s: "(\<Sum>v\<in>live h0. total_size (T v)) = (\<Sum>v\<in>live h0. total_size (blocks (mem h0) v))"
    by (rule sum.cong [OF refl]) (simp only: total_size_snd evacuatedD(5) [OF h0 e])
  show eq: "g_to_ptr h = g_to_start h0 + (\<Sum>v\<in>live h0. total_size (blocks (mem h0) v))"
    using c(9) unfolding copies_ok_def by (simp add: s)
  have "16 dvd (\<Sum>v\<in>live h0. total_size (blocks (mem h0) v))" by (rule dvd_sum) (rule total_size_dvd)
  moreover have "outside (gc_flip h) a = outside h0 a" for a unfolding outside_flip by (simp only: outside_def fr)
  ultimately show "spaces_ok (gc_flip h)"
    using heap_okD(1) [OF h0] p eq fr unfolding spaces_ok_def flip_simps by auto
qed

lemma evacuated_heap_ok:
  assumes h0: "heap_ok h0" and e: "evacuated h0 f T h"
  shows "heap_ok (gc_flip h)"
proof -
  have i: "gc_inv h0 f T (live h0) [] {} h" using e by (simp add: evacuated_def)
  note c = gc_invD [OF i] and fr = same_frameD [OF gc_invD(1) [OF i]] and er = evacuated_frame [OF e]
  have "outside (gc_flip h) a = outside h0 a" for a unfolding outside_flip by (simp only: outside_def fr)
  then have "\<forall>a\<in>set (gc_roots (gc_flip h)) \<union> set (function_cells (gc_flip h)). outside (gc_flip h) a"
    unfolding flip_simps er using heap_okD(2,3) [OF h0] by blast
  moreover have "\<forall>v\<in>live (gc_flip h). object_ok (gc_flip h) v"
    unfolding live_moved [OF h0 e] using evacuated_object_ok [OF h0 e] by blast
  moreover have "\<forall>v\<in>live (gc_flip h). \<forall>w\<in>live (gc_flip h). v \<noteq> w \<longrightarrow>
      (\<forall>b\<in>set (blocks (mem (gc_flip h)) v). \<forall>k\<in>set (blocks (mem (gc_flip h)) w). sep b k)"
    unfolding live_moved [OF h0 e] flip_simps
  proof (intro ballI impI)
    fix v' w' b k assume a: "v' \<in> f ` live h0" "w' \<in> f ` live h0" "v' \<noteq> w'" "b \<in> set (blocks (mem h) v')" "k \<in> set (blocks (mem h) w')"
    then obtain v w where v: "v \<in> live h0" "w \<in> live h0" "v' = f v" "w' = f w" by blast
    then have d: "v \<in> live h0 \<union> set [] \<union> {}" "w \<in> live h0 \<union> set [] \<union> {}" "v \<noteq> w" using a(3) by auto
    show "sep b k" by (rule copies_okD(7) [OF c(9) d]) (use a v evacuatedD(4) [OF h0 e] in auto)
  qed
  ultimately show ?thesis unfolding heap_ok_def using evacuated_spaces(1) [OF h0 e] by blast
qed

subsection \<open>Allocation\<close>

definition soft_ok :: "heap \<Rightarrow> bool" where
  "soft_ok h \<longleftrightarrow> g_from_soft_end h \<le> g_from_end h \<and> g_from_soft_end_normal h \<le> g_from_end h \<and> g_from_floor_end h \<le> g_from_end h"

lemma soft_ok_update: "soft_ok (heap_update_soft_end h)"
  by (simp add: soft_ok_def heap_update_soft_end_def heap_apply_soft_end_def Let_def)

lemma soft_ok_flip: "soft_ok (gc_flip h)"
  by (simp add: gc_flip_def soft_ok_update)

lemma soft_ok_reserve: "soft_ok h \<Longrightarrow> soft_ok (heap_open_reserve h)"
  by (simp add: soft_ok_def heap_open_reserve_def heap_apply_soft_end_def)

lemma heap_okI:
  assumes "spaces_ok h" "\<And>a. a \<in> set (gc_roots h) \<union> set (function_cells h) \<Longrightarrow> outside h a" "live h \<subseteq> S"
    "\<And>v. v \<in> S \<Longrightarrow> object_ok h v"
    "\<And>v w b c. v \<in> S \<Longrightarrow> w \<in> S \<Longrightarrow> v \<noteq> w \<Longrightarrow> b \<in> set (blocks (mem h) v) \<Longrightarrow> c \<in> set (blocks (mem h) w) \<Longrightarrow> sep b c"
  shows "heap_ok h"
  unfolding heap_ok_def using assms by blast

lemma live_mono:
  assumes "set (gc_roots h') \<union> set (function_cells h') \<subseteq> set (gc_roots h) \<union> set (function_cells h)" "mem h' = mem h" "nil h' = nil h"
  shows "live h' \<subseteq> live h"
proof
  fix v assume "v \<in> live h'"
  then show "v \<in> live h"
  proof induction
    case (live_root a) then show ?case using assms live.live_root [of a h] by (auto simp: is_ref_def)
  next
    case (live_field v w) then show ?case using assms live.live_field [of v h w] by (auto simp: is_ref_def)
  qed
qed

text \<open>Fewer roots and more room allocated keep a heap well-formed.\<close>

lemma heap_ok_frame:
  assumes h: "heap_ok h" and r: "set (gc_roots h') \<union> set (function_cells h') \<subseteq> set (gc_roots h) \<union> set (function_cells h)"
    and s: "mem h' = mem h" "nil h' = nil h" "g_from_start h' = g_from_start h" "g_from_end h' = g_from_end h" "g_to_start h' = g_to_start h"
      "g_to_end h' = g_to_end h"
    and p: "g_from_ptr h \<le> g_from_ptr h'" "g_from_ptr h' \<le> g_from_end h" "16 dvd g_from_ptr h'"
  shows "heap_ok h'"
proof -
  have out: "outside h' a = outside h a" for a by (simp add: outside_def s)
  have obj: "object_ok h' v" if "v \<in> live h" for v
    using heap_okD(4) [OF h that] p(1) unfolding object_ok_def out s inside_def by fastforce
  have "spaces_ok h'"
    unfolding spaces_ok_def out s using heap_okD(1) [OF h, unfolded spaces_ok_def] p by (elim conjE, intro conjI) (assumption | linarith)+
  then show ?thesis
    using heap_okD(2,3,5) [OF h] obj r
    by (intro heap_okI [of h' "live h"] live_mono [OF r s(1,2)]) (auto simp: out s subset_iff)
qed

definition fresh :: "heap \<Rightarrow> nat \<Rightarrow> nat \<Rightarrow> bool" where
  "fresh h p n \<longleftrightarrow> inside (g_from_start h) (g_from_ptr h) (p, n) \<and> (\<forall>v\<in>live h. \<forall>b\<in>set (blocks (mem h) v). sep b (p, n))"

lemma bump_pointer:
  assumes h: "heap_ok h" and le: "g_from_ptr h + aligned_up n \<le> g_from_end h"
  shows "heap_ok (h\<lparr>g_from_ptr := g_from_ptr h + aligned_up n\<rparr>)" "fresh (h\<lparr>g_from_ptr := g_from_ptr h + aligned_up n\<rparr>) (g_from_ptr h) n"
proof -
  let ?h = "h\<lparr>g_from_ptr := g_from_ptr h + aligned_up n\<rparr>"
  have r: "gc_roots ?h = gc_roots h" by (simp add: gc_roots_def)
  have al: "16 dvd g_from_ptr h" "g_from_start h \<le> g_from_ptr h" using heap_okD(1) [OF h] by (simp_all add: spaces_ok_def)
  show "heap_ok ?h" by (rule heap_ok_frame [OF h]) (use le al aligned_up_simps(2) [of n] in \<open>simp_all add: r\<close>)
  have "live ?h \<subseteq> live h" by (rule live_mono) (simp_all add: r)
  moreover have "sep b (g_from_ptr h, n)" if "v \<in> live h" "b \<in> set (blocks (mem h) v)" for v b
    using heap_okD(4) [OF h that(1)] that(2) by (auto simp: object_ok_def inside_def sep_def)
  ultimately show "fresh ?h (g_from_ptr h) n" using al by (auto simp: fresh_def inside_def)
qed

lemma open_reserve_simps [simp]:
  "mem (heap_open_reserve h) = mem h" "nil (heap_open_reserve h) = nil h" "g_from_start (heap_open_reserve h) = g_from_start h"
  "g_from_ptr (heap_open_reserve h) = g_from_ptr h" "g_from_end (heap_open_reserve h) = g_from_end h"
  "g_to_start (heap_open_reserve h) = g_to_start h" "g_to_ptr (heap_open_reserve h) = g_to_ptr h" "g_to_end (heap_open_reserve h) = g_to_end h"
  "gc_roots (heap_open_reserve h) = gc_roots h" "function_cells (heap_open_reserve h) = function_cells h"
  by (simp_all add: heap_open_reserve_def) (simp_all add: gc_roots_def)

lemma heap_ok_open_reserve: "heap_ok h \<Longrightarrow> heap_ok (heap_open_reserve h)"
  by (rule heap_ok_frame) (use heap_okD(1) [of h] in \<open>simp_all only: open_reserve_simps spaces_ok_def, simp_all\<close>)

text \<open>The state in which an allocation finds room: as it was, or collected, perhaps with the reserve opened.\<close>

definition reclaimed :: "heap \<Rightarrow> (u64 \<Rightarrow> u64) \<Rightarrow> heap \<Rightarrow> bool" where
  "reclaimed h f h' \<longleftrightarrow> inj_on f (live h) \<and> live h' = f ` live h \<and>
     (\<forall>v\<in>live h. tag_of (f v) = tag_of v \<and> raw (mem h') (f v) = raw (mem h) v \<and>
        fields (mem h') (f v) = map (moved h f) (fields (mem h) v)) \<and>
     (\<forall>a\<in>set (gc_roots h) \<union> set (function_cells h). mem h' a = moved h f (mem h a)) \<and>
     (\<forall>a. outside h a \<longrightarrow> a \<notin> set (gc_roots h) \<union> set (function_cells h) \<longrightarrow> mem h' a = mem h a) \<and>
     nil h' = nil h \<and> gc_roots h' = gc_roots h \<and> function_cells h' = function_cells h \<and> (\<forall>a. outside h' a = outside h a)"

lemma reclaimed_refl: "reclaimed h id h"
proof -
  have "map (moved h id) vs = vs" for vs by (rule map_idI) (simp add: moved_def)
  then show ?thesis by (auto simp: reclaimed_def moved_def)
qed

lemma evacuated_reclaimed:
  assumes h0: "heap_ok h0" and e: "evacuated h0 f T h"
  shows "reclaimed h0 f (gc_flip h)"
proof -
  note ev = evacuatedD(1-3) [OF h0 e] and fr = evacuated_frame [OF e]
  note sf = same_frameD [OF fr(4)]
  have "outside (gc_flip h) a = outside h0 a" for a unfolding outside_flip by (simp only: outside_def sf)
  then show ?thesis
    unfolding reclaimed_def using evacuated_inj [OF h0 e] live_moved [OF h0 e] ev fr(2,3) sf(1) e [unfolded evacuated_def] by simp
qed

lemma collect_ok:
  assumes h: "heap_ok h"
  shows "\<exists>r. os_gc_collect h = Some r \<and> (exhausts h r \<or>
    (\<exists>f h'. r = Inr h' \<and> reclaimed h f h' \<and> heap_ok h' \<and> soft_ok h' \<and> g_from_start h' = g_to_start h \<and>
      g_from_end h' = g_to_start h + (g_from_end h - g_from_start h) \<and>
      g_from_floor_end h' \<ge> g_from_end h' - HEAP_HARD_FLOOR \<and>
      g_from_ptr h' = g_from_start h' + (\<Sum>v\<in>live h. total_size (blocks (mem h) v))))"
proof -
  obtain r where r: "os_gc_collect h = Some r" "exhausts h r \<or> (\<exists>f T h'. r = Inr (gc_flip h') \<and> evacuated h f T h')"
    using collect_phases [OF h] by blast
  have "\<exists>f h'. r = Inr h' \<and> reclaimed h f h' \<and> heap_ok h' \<and> soft_ok h' \<and> g_from_start h' = g_to_start h \<and>
      g_from_end h' = g_to_start h + (g_from_end h - g_from_start h) \<and> g_from_floor_end h' \<ge> g_from_end h' - HEAP_HARD_FLOOR \<and>
      g_from_ptr h' = g_from_start h' + (\<Sum>v\<in>live h. total_size (blocks (mem h) v))"
    if e: "r = Inr (gc_flip h1)" "evacuated h f T h1" for f T h1
  proof (intro exI conjI)
    note sf = same_frameD [OF evacuated_frame(4) [OF e(2)]]
    show "r = Inr (gc_flip h1)" by (rule e(1))
    show "reclaimed h f (gc_flip h1)" by (rule evacuated_reclaimed [OF h e(2)])
    show "heap_ok (gc_flip h1)" by (rule evacuated_heap_ok [OF h e(2)])
    show "soft_ok (gc_flip h1)" by (rule soft_ok_flip)
    show "g_from_start (gc_flip h1) = g_to_start h" by (simp add: sf)
    show "g_from_end (gc_flip h1) = g_to_start h + (g_from_end h - g_from_start h)" using heap_okD(1) [OF h] by (simp add: sf spaces_ok_def)
    show "g_from_end (gc_flip h1) - HEAP_HARD_FLOOR \<le> g_from_floor_end (gc_flip h1)"
      by (simp add: gc_flip_def heap_update_soft_end_def heap_apply_soft_end_def Let_def)
    show "g_from_ptr (gc_flip h1) = g_from_start (gc_flip h1) + (\<Sum>v\<in>live h. total_size (blocks (mem h) v))"
      using evacuated_spaces(2) [OF h e(2)] by (simp add: sf)
  qed
  then show ?thesis using r by blast
qed

lemma reclaimed_bump:
  assumes "reclaimed h f h1"
  shows "reclaimed h f (h1\<lparr>g_from_ptr := p\<rparr>)"
proof -
  have r: "gc_roots (h1\<lparr>g_from_ptr := p\<rparr>) = gc_roots h1" by (simp add: gc_roots_def)
  have "live (h1\<lparr>g_from_ptr := p\<rparr>) = live h1" by (intro equalityI live_mono) (simp_all add: r)
  then show ?thesis using assms by (simp add: reclaimed_def r outside_def)
qed

lemma reclaimed_open_reserve:
  assumes "reclaimed h f h1"
  shows "reclaimed h f (heap_open_reserve h1)"
proof -
  have "live (heap_open_reserve h1) = live h1" by (intro equalityI live_mono) simp_all
  then show ?thesis using assms by (simp add: reclaimed_def outside_def)
qed

definition allocated :: "heap \<Rightarrow> nat \<Rightarrow> nat \<Rightarrow> heap \<Rightarrow> bool" where
  "allocated h n p h' \<longleftrightarrow> heap_ok h' \<and> soft_ok h' \<and> fresh h' p n \<and> (\<exists>f. reclaimed h f h')"

lemma allocate:
  assumes "heap_ok h1" "soft_ok h1" "reclaimed h f h1" "g_from_ptr h1 + aligned_up n \<le> g_from_soft_end h1"
  shows "allocated h n (g_from_ptr h1) (h1\<lparr>g_from_ptr := g_from_ptr h1 + aligned_up n\<rparr>)"
proof -
  have le: "g_from_ptr h1 + aligned_up n \<le> g_from_end h1" using assms(2,4) by (simp add: soft_ok_def)
  have "soft_ok (h1\<lparr>g_from_ptr := g_from_ptr h1 + aligned_up n\<rparr>)" using assms(2) by (simp add: soft_ok_def)
  then show ?thesis unfolding allocated_def using bump_pointer [OF assms(1) le] reclaimed_bump [OF assms(3)] by blast
qed

text \<open>What the live objects and the request need, with the bytes below which nothing helps, does not fit.\<close>

definition no_room :: "heap \<Rightarrow> nat \<Rightarrow> bool" where
  "no_room h n \<longleftrightarrow> g_from_end h - g_from_start h < (\<Sum>v\<in>live h. total_size (blocks (mem h) v)) + aligned_up n + HEAP_HARD_FLOOR"

lemma alloc_bytes:
  assumes h: "heap_ok h" "soft_ok h" and n: "unat n + 15 < 2 ^ 64"
  shows "\<exists>r. os_alloc_bytes n h = Some r \<and> (exhausts h r \<or> (r = Inl Out_of_memory \<and> no_room h (unat n)) \<or>
    (\<exists>p h'. r = Inr (p, h') \<and> allocated h (unat n) p h'))"
proof (cases "g_from_soft_end h < g_from_ptr h + aligned_up (unat n)")
  case False
  then have "os_alloc_bytes n h = Some (Inr (g_from_ptr h, h\<lparr>g_from_ptr := g_from_ptr h + aligned_up (unat n)\<rparr>))"
    by (simp add: os_alloc_bytes_def Let_def os_heap_align_up_nat [OF n])
  then show ?thesis using allocate [OF h reclaimed_refl, of "unat n"] False by simp
next
  case True
  let ?a = "aligned_up (unat n)"
  have alloc: "os_alloc_bytes n h = (case os_alloc_bytes_slow ?a h of None \<Rightarrow> None | Some (Inl e) \<Rightarrow> Some (Inl e)
      | Some (Inr (p, h)) \<Rightarrow> Some (Inr (p, h\<lparr>g_from_ptr := p + ?a\<rparr>)))"
    using True by (simp add: os_alloc_bytes_def Let_def os_heap_align_up_nat [OF n])
  obtain r where r: "os_gc_collect h = Some r" "exhausts h r \<or>
    (\<exists>f h'. r = Inr h' \<and> reclaimed h f h' \<and> heap_ok h' \<and> soft_ok h' \<and> g_from_start h' = g_to_start h \<and>
      g_from_end h' = g_to_start h + (g_from_end h - g_from_start h) \<and>
      g_from_floor_end h' \<ge> g_from_end h' - HEAP_HARD_FLOOR \<and>
      g_from_ptr h' = g_from_start h' + (\<Sum>v\<in>live h. total_size (blocks (mem h) v)))"
    using collect_ok [OF h(1)] by blast
  show ?thesis
  proof (cases "exhausts h r")
    case True
    then show ?thesis by (simp add: alloc os_alloc_bytes_slow_def r(1) exhausts_def)
  next
    case False
    then obtain f h1 where g: "r = Inr h1" "reclaimed h f h1" "heap_ok h1" "soft_ok h1" "g_from_start h1 = g_to_start h"
      "g_from_end h1 = g_to_start h + (g_from_end h - g_from_start h)" "g_from_floor_end h1 \<ge> g_from_end h1 - HEAP_HARD_FLOOR"
      "g_from_ptr h1 = g_from_start h1 + (\<Sum>v\<in>live h. total_size (blocks (mem h) v))" using r(2) by blast
    let ?h2 = "heap_open_reserve h1"
    consider (room) "g_from_ptr h1 + ?a \<le> g_from_soft_end h1"
      | (reserve) "g_from_soft_end h1 < g_from_ptr h1 + ?a" "g_from_ptr ?h2 + ?a \<le> g_from_soft_end ?h2"
      | (full) "g_from_soft_end h1 < g_from_ptr h1 + ?a" "g_from_soft_end ?h2 < g_from_ptr ?h2 + ?a" by linarith
    then show ?thesis
    proof cases
      case room
      then have "os_alloc_bytes n h = Some (Inr (g_from_ptr h1, h1\<lparr>g_from_ptr := g_from_ptr h1 + ?a\<rparr>))"
        by (simp add: alloc os_alloc_bytes_slow_def r(1) g(1))
      then show ?thesis using allocate [OF g(3,4,2) room] by simp
    next
      case reserve
      then have "os_alloc_bytes n h = Some (Inr (g_from_ptr ?h2, ?h2\<lparr>g_from_ptr := g_from_ptr ?h2 + ?a\<rparr>))"
        by (simp add: alloc os_alloc_bytes_slow_def r(1) g(1) Let_def)
      then show ?thesis
        using allocate [OF heap_ok_open_reserve [OF g(3)] soft_ok_reserve [OF g(4)] reclaimed_open_reserve [OF g(2)] reserve(2)]
        by simp
    next
      case full
      then have eq: "os_alloc_bytes n h = Some (Inl Out_of_memory)"
        by (simp add: alloc os_alloc_bytes_slow_def r(1) g(1) Let_def)
      have "g_from_soft_end ?h2 = g_from_floor_end h1" by (simp add: heap_open_reserve_def heap_apply_soft_end_def)
      then have "no_room h (unat n)" using full(2) g(5-8) unfolding no_room_def by simp
      then show ?thesis using eq by simp
    qed
  qed
qed

subsection \<open>A new cons\<close>

lemma sep_sym: "sep b c \<Longrightarrow> sep c b"
  by (auto simp: sep_def)

text \<open>A fresh cons of live values, stored in a root, is one more object of a well-formed heap.\<close>

lemma fresh_cons:
  assumes h: "heap_ok h" and fr: "fresh h p 16" and x: "is_ref h x \<longrightarrow> x \<in> live h" "tag_of x \<noteq> TAG_FORWARD" and y: "is_ref h y \<longrightarrow> y \<in> live h"
    and r: "set (gc_roots h') \<union> set (function_cells h') \<subseteq> set (gc_roots h) \<union> set (function_cells h)" and a: "outside h a"
    and s: "mem h' = (mem h)(p := x, p + 8 := y, a := tagged p TAG_CONS)" "nil h' = nil h"
      "g_from_start h' = g_from_start h" "g_from_end h' = g_from_end h" "g_to_start h' = g_to_start h" "g_to_end h' = g_to_end h"
      "g_from_ptr h' = g_from_ptr h"
  shows "heap_ok h'"
proof (rule heap_okI [where S = "insert (tagged p TAG_CONS) (live h)"])
  let ?c = "tagged p TAG_CONS"
  note so = heap_okD(1) [OF h]
  have in': "16 dvd p" "g_from_start h \<le> p" "p + 16 \<le> g_from_ptr h" using fr aligned_up_simps(1) [of 16] by (auto simp: fresh_def inside_def)
  have "p < 2 ^ 64" using in'(3) so unfolding spaces_ok_def by linarith
  then have c: "address_of ?c = p" "tag_of ?c = TAG_CONS" using tagged_parts [OF in'(1), of TAG_CONS] by (simp_all add: const_defs)
  have out: "outside h' z = outside h z" for z by (simp add: outside_def s)
  have ne: "z \<noteq> p" "z \<noteq> p + 8" if "outside h z" for z using that in' so by (auto simp: outside_def spaces_ok_def)
  note ap = ne [OF a]
  have cb: "blocks (mem h') ?c = [(p, 16)]" "slots (mem h') ?c = [p, p + 8]" using c by (simp_all add: blocks_def parts_def header_size_def slots_def Let_def)
  have cf: "fields (mem h') ?c = [x, y]" unfolding fields_def cb(2) using ap by (simp add: s)
  have same: "mem h' z = mem h z" if v: "v \<in> live h" and z: "z \<in> room (blocks (mem h) v)" for v z
  proof -
    have "room (blocks (mem h) v) \<subseteq> {g_from_start h..<g_from_ptr h}"
      by (rule room_inside) (use heap_okD(4) [OF h v] in \<open>simp add: object_ok_def\<close>)
    then have "z \<in> {g_from_start h..<g_from_ptr h}" using z by blast
    then have "z \<noteq> a" using a so by (auto simp: outside_def spaces_ok_def)
    moreover have "room (blocks (mem h) v) \<inter> room [(p, 16)] = {}" using fr v by (intro sep_room) (auto simp: fresh_def)
    then have "z \<notin> {p..<p + 16}" using z by (auto simp: aligned_up_def)
    then have "z \<noteq> p" "z \<noteq> p + 8" by auto
    ultimately show ?thesis by (simp add: s)
  qed
  have al: "16 dvd fst b" if "v \<in> live h" "b \<in> set (blocks (mem h) v)" for v b
    using heap_okD(4) [OF h that(1)] that(2) by (simp add: object_ok_def inside_def)
  have ob: "blocks (mem h') v = blocks (mem h) v" "fields (mem h') v = fields (mem h) v" if "v \<in> live h" for v
    using object_frame [of "mem h" v "mem h'", OF same [OF that] al [OF that]] by simp_all
  show "spaces_ok h'" using so unfolding spaces_ok_def out s .
  have rt: "b \<in> set (gc_roots h) \<union> set (function_cells h)" "outside h b" if "b \<in> set (gc_roots h') \<union> set (function_cells h')" for b
  proof -
    show b: "b \<in> set (gc_roots h) \<union> set (function_cells h)" using that r by blast
    then show "outside h b" using heap_okD(2,3) [OF h] by blast
  qed
  show "outside h' b" if "b \<in> set (gc_roots h') \<union> set (function_cells h')" for b unfolding out by (rule rt(2) [OF that])
  show "live h' \<subseteq> insert ?c (live h)"
  proof
    fix v assume "v \<in> live h'"
    then show "v \<in> insert ?c (live h)"
    proof induction
      case (live_root b)
      note b = rt(1) [OF live_root.hyps(1)] and n = ne [OF rt(2) [OF live_root.hyps(1)]]
      have m: "mem h' b = (if b = a then ?c else mem h b)" using n by (simp add: s(1))
      show ?case
      proof (cases "b = a")
        case False
        then show ?thesis using live_root.hyps(2) live.live_root [OF b] m by (simp add: s(2) is_ref_def)
      qed (use m in simp)
    next
      case (live_field v w)
      have r: "is_ref h w" using live_field.hyps(3) by (simp add: is_ref_def s(2))
      show ?case
      proof (cases "v \<in> live h")
        case True
        then have "w \<in> live h" using live_field.hyps(2) r ob(2) [OF True] live.live_field [OF True] by simp
        then show ?thesis by simp
      next
        case False
        then have "w \<in> set [x, y]" using live_field.IH live_field.hyps(2) cf by simp
        then show ?thesis using r x(1) y by auto
      qed
    qed
  qed
  show "object_ok h' v" if "v \<in> insert ?c (live h)" for v
  proof (cases "v \<in> live h")
    case True
    have "address_of v \<in> room (blocks (mem h) v)" using header_in_blocks [of 0 "mem h" v] header_positive [of "mem h" v] by simp
    then show ?thesis using heap_okD(4) [OF h True] same [OF True] unfolding object_ok_def out s(3,7) ob(1) [OF True] by simp
  next
    case False
    then have v: "v = ?c" using that by simp
    show ?thesis unfolding object_ok_def v cb(1) c using fr x(2) ap by (simp add: fresh_def s)
  qed
  fix v w b k
  assume vw: "v \<in> insert ?c (live h)" "w \<in> insert ?c (live h)" "v \<noteq> w" and bk: "b \<in> set (blocks (mem h') v)" "k \<in> set (blocks (mem h') w)"
  have f: "sep b' (p, 16)" if "u \<in> live h" "b' \<in> set (blocks (mem h) u)" for u b' using fr that by (simp add: fresh_def)
  consider "v \<in> live h" "w \<in> live h" | "v = ?c" "w \<in> live h" | "v \<in> live h" "w = ?c" using vw by blast
  then show "sep b k"
  proof cases
    case 1 then show ?thesis using heap_okD(5) [OF h 1 vw(3)] bk ob(1) by simp
  next
    case 2 then show ?thesis using f [of w k] bk cb(1) ob(1) by (auto intro: sep_sym)
  next
    case 3 then show ?thesis using f [of v b] bk cb(1) ob(1) by auto
  qed
qed

text \<open>Writing the two words of a fresh cons changes no live object.\<close>

lemma fresh_frame:
  assumes h: "heap_ok h" and fr: "fresh h p 16" and v: "v \<in> live h" and m': "m' = (mem h)(p := x, p + 8 := y)"
  shows "raw m' v = raw (mem h) v" "fields m' v = fields (mem h) v" "p \<noteq> address_of v"
proof -
  have "room (blocks (mem h) v) \<inter> room [(p, 16)] = {}" using fr v by (intro sep_room) (auto simp: fresh_def)
  then have n: "z \<notin> {p..<p + 16}" if "z \<in> room (blocks (mem h) v)" for z using that by (auto simp: aligned_up_def)
  have "m' z = mem h z" if "z \<in> room (blocks (mem h) v)" for z using n [OF that] by (auto simp: m')
  moreover have "16 dvd fst b" if "b \<in> set (blocks (mem h) v)" for b
    using heap_okD(4) [OF h v] that by (simp add: object_ok_def inside_def)
  ultimately show "raw m' v = raw (mem h) v" "fields m' v = fields (mem h) v" using object_frame by blast+
  have "address_of v \<in> room (blocks (mem h) v)" using header_in_blocks [of 0 "mem h" v] header_positive [of "mem h" v] by simp
  then show "p \<noteq> address_of v" using n by fastforce
qed

lemma protect_simps [simp]:
  "mem (gc_protect i x h) = mem h" "nil (gc_protect i x h) = nil h" "g_from_start (gc_protect i x h) = g_from_start h"
  "g_from_ptr (gc_protect i x h) = g_from_ptr h" "g_from_end (gc_protect i x h) = g_from_end h" "g_to_start (gc_protect i x h) = g_to_start h"
  "g_to_end (gc_protect i x h) = g_to_end h" "function_cells (gc_protect i x h) = function_cells h" "soft_ok (gc_protect i x h) = soft_ok h"
  "mem (gc_unprotect i h) = mem h" "nil (gc_unprotect i h) = nil h" "g_from_start (gc_unprotect i h) = g_from_start h"
  "g_from_ptr (gc_unprotect i h) = g_from_ptr h" "g_from_end (gc_unprotect i h) = g_from_end h" "g_to_start (gc_unprotect i h) = g_to_start h"
  "g_to_end (gc_unprotect i h) = g_to_end h" "function_cells (gc_unprotect i h) = function_cells h"
  by (simp_all add: gc_protect_def gc_unprotect_def soft_ok_def)

lemma roots_protect:
  "i < length (shadow_stacks h) \<Longrightarrow> set (gc_roots (gc_protect i x h)) = insert x (set (gc_roots h))"
proof -
  assume i: "i < length (shadow_stacks h)"
  have "set (concat ((shadow_stacks h)[i := x # shadow_stacks h ! i])) = insert x (set (concat (shadow_stacks h)))"
    by (subst (3) id_take_nth_drop [OF i]) (auto simp: upd_conv_take_nth_drop [OF i])
  then show ?thesis by (auto simp: gc_roots_def gc_protect_def)
qed

lemma roots_unprotect: "set (gc_roots (gc_unprotect i h)) \<subseteq> set (gc_roots h)"
proof (cases "i < length (shadow_stacks h)")
  case True
  have "set (tl (shadow_stacks h ! i)) \<subseteq> set (shadow_stacks h ! i)" by (cases "shadow_stacks h ! i") auto
  moreover have "shadow_stacks h ! i \<in> set (shadow_stacks h)" using True by simp
  ultimately have "set (concat ((shadow_stacks h)[i := tl (shadow_stacks h ! i)])) \<subseteq> set (concat (shadow_stacks h))"
    using set_update_subset_insert [of "shadow_stacks h" i "tl (shadow_stacks h ! i)"] by (fastforce simp: subset_iff)
  then show ?thesis by (auto simp: gc_roots_def gc_unprotect_def)
next
  case False
  then have "gc_unprotect i h = h" by (simp add: gc_unprotect_def list_update_beyond)
  then show ?thesis by simp
qed

lemma reclaimed_value:
  assumes h: "heap_ok h" and r: "reclaimed h f h'" and a: "a \<in> set (gc_roots h) \<union> set (function_cells h)"
  shows "mem h' a = moved h f (mem h a)" "tag_of (mem h' a) = tag_of (mem h a)"
proof -
  show m: "mem h' a = moved h f (mem h a)" using r a by (simp add: reclaimed_def)
  have "tag_of (f v) = tag_of v" if "v \<in> live h" for v using r that by (simp add: reclaimed_def)
  then show "tag_of (mem h' a) = tag_of (mem h a)" unfolding m moved_def using live_root [OF a] by simp
qed

text \<open>
  The heap after \<open>os_make_cons\<close> against the heap before it, with the two arguments as roots:
  the live objects are moved by \<open>f\<close> and otherwise unchanged, every root holds its moved value,
  and \<open>c\<close> is a new pair of the moved arguments.
\<close>

definition cons_of :: "heap \<Rightarrow> (u64 \<Rightarrow> u64) \<Rightarrow> heap \<Rightarrow> u64 \<Rightarrow> u64 \<Rightarrow> u64 \<Rightarrow> bool" where
  "cons_of h f h' c x y \<longleftrightarrow> inj_on f (live h) \<and>
     (\<forall>v\<in>live h. tag_of (f v) = tag_of v \<and> raw (mem h') (f v) = raw (mem h) v \<and>
        fields (mem h') (f v) = map (moved h f) (fields (mem h) v)) \<and>
     (\<forall>a\<in>set (gc_roots h) \<union> set (function_cells h). mem h' a = moved h f (mem h a)) \<and>
     tag_of c = TAG_CONS \<and> c \<notin> f ` live h \<and> fields (mem h') c = [moved h f x, moved h f y]"

lemma make_cons:
  assumes h: "heap_ok (gc_protect proc cdr_var (gc_protect proc car_var h))" "soft_ok h" "proc < length (shadow_stacks h)"
    and t: "tag_of (mem h car_var) \<noteq> TAG_FORWARD" and a: "a \<in> set (gc_roots h) \<union> set (function_cells h)"
    and mk: "os_make_cons proc car_var cdr_var h = Some (Inr (c, h'))"
  shows "heap_ok (store a c h')"
    "\<exists>f. cons_of (gc_protect proc cdr_var (gc_protect proc car_var h)) f h' c (mem h car_var) (mem h cdr_var)"
proof -
  let ?hp = "gc_protect proc cdr_var (gc_protect proc car_var h)"
  have r: "os_alloc_bytes 16 ?hp = Some (Inr (p, h1)) \<Longrightarrow> allocated ?hp 16 p h1" for p h1
    using alloc_bytes [OF h(1), of 16] h(2) by (auto simp: exhausts_def)
  have roots: "set (gc_roots ?hp) = insert cdr_var (insert car_var (set (gc_roots h)))"
    using h(3) roots_protect [of proc "gc_protect proc car_var h"] roots_protect [of proc h] by (simp add: gc_protect_def)
  obtain p h1 where al: "os_alloc_bytes 16 ?hp = Some (Inr (p, h1))" and c: "c = tagged p TAG_CONS"
    and h': "h' = gc_unprotect proc (gc_unprotect proc (store (p + 8) (mem h1 cdr_var) (store p (mem h1 car_var) h1)))"
    using mk by (auto simp: os_make_cons_def Let_def split: option.splits sum.splits)
  obtain f where ok: "heap_ok h1" "fresh h1 p 16" "reclaimed ?hp f h1" using r [OF al] by (auto simp: allocated_def)
  note fr = ok(3) [unfolded reclaimed_def]
  have rf: "gc_roots h1 = gc_roots ?hp" "function_cells h1 = function_cells h" using fr by simp_all
  have vars: "car_var \<in> set (gc_roots h1) \<union> set (function_cells h1)" "cdr_var \<in> set (gc_roots h1) \<union> set (function_cells h1)"
    "a \<in> set (gc_roots h1) \<union> set (function_cells h1)" using a by (auto simp: rf roots)
  have out: "outside h1 x" if "x \<in> set (gc_roots h1) \<union> set (function_cells h1)" for x using heap_okD(2,3) [OF ok(1)] that by blast
  note so = heap_okD(1) [OF ok(1)]
  have in': "16 dvd p" "g_from_start h1 \<le> p" "p + 16 \<le> g_from_ptr h1" using ok(2) aligned_up_simps(1) [of 16] by (auto simp: fresh_def inside_def)
  have "p < 2 ^ 64" using in'(3) so unfolding spaces_ok_def by linarith
  then have cp: "address_of c = p" "tag_of c = TAG_CONS" using tagged_parts [OF in'(1), of TAG_CONS] by (simp_all add: const_defs c)
  have ne: "z \<noteq> p" "z \<noteq> p + 8" if "outside h1 z" for z using that in' so unfolding outside_def spaces_ok_def by linarith+
  have m': "mem h' = (mem h1)(p := mem h1 car_var, p + 8 := mem h1 cdr_var)" by (simp add: h' store_def)
  have lv: "live h1 = f ` live ?hp" using fr by simp
  have "fields (mem h') c = [mem h1 car_var, mem h1 cdr_var]"
    using cp by (simp add: fields_def slots_def m')
  moreover have "mem h1 car_var = moved ?hp f (mem h car_var)" "mem h1 cdr_var = moved ?hp f (mem h cdr_var)"
    using reclaimed_value(1) [OF h(1) ok(3), of car_var] reclaimed_value(1) [OF h(1) ok(3), of cdr_var] by (simp_all add: roots)
  moreover have "c \<notin> f ` live ?hp" using fresh_frame(3) [OF ok(1,2) _ m'] cp(1) unfolding lv [symmetric] by blast
  moreover have "raw (mem h') (f v) = raw (mem h1) (f v)" "fields (mem h') (f v) = fields (mem h1) (f v)" if "v \<in> live ?hp" for v
    using fresh_frame(1,2) [OF ok(1,2) _ m', of "f v"] that by (simp_all add: lv)
  moreover have "mem h' b = mem h1 b" if "b \<in> set (gc_roots ?hp) \<union> set (function_cells ?hp)" for b
    using ne [OF out, of b] that by (simp add: m' rf)
  ultimately show "\<exists>f. cons_of ?hp f h' c (mem h car_var) (mem h cdr_var)"
    using fr cp(2) unfolding cons_of_def by (intro exI [of _ f]) simp
  have tag: "tag_of (mem h1 car_var) \<noteq> TAG_FORWARD" using reclaimed_value(2) [OF h(1) ok(3), of car_var] t by (simp add: roots)
  have rs: "set (gc_roots (store a c h')) \<union> set (function_cells (store a c h')) \<subseteq> set (gc_roots h1) \<union> set (function_cells h1)"
  proof -
    let ?h2 = "store (p + 8) (mem h1 cdr_var) (store p (mem h1 car_var) h1)"
    have "set (gc_roots h') \<subseteq> set (gc_roots ?h2)" unfolding h' using roots_unprotect by blast
    then show ?thesis by (auto simp: gc_roots_def store_def h')
  qed
  show "heap_ok (store a c h')"
    by (rule fresh_cons [OF ok(1,2) _ tag _ rs out [OF vars(3)]])
      (use live_root [OF vars(1)] live_root [OF vars(2)] in \<open>simp_all add: h' store_def c\<close>)
qed

subsection \<open>Start of the heap\<close>

lemma aligned_down: "unat ((x :: u64) AND NOT (OS_HEAP_ALIGN - 1)) = unat x div 16 * 16"
  using address_of_eq [of x] by (simp add: address_of_def OS_HEAP_ALIGN_def TAG_MASK_def)

lemma init_spaces:
  assumes fit: "unat base + unat sz + 16 < 2 ^ 64" and r: "os_heap_init base sz h = Inr h'"
  defines "start \<equiv> aligned_up (unat base)" and "half \<equiv> (unat sz - (aligned_up (unat base) - unat base)) div 2 div 16 * 16"
  shows "g_from_start h' = start" "g_from_ptr h' = start" "g_from_end h' = start + half" "g_to_start h' = start + half"
    "g_to_end h' = start + half + half" "soft_ok h'" "mem h' = mem h" "nil h' = nil h" "gc_roots h' = gc_roots h"
    "function_cells h' = function_cells h" "4096 < start"
proof -
  have a: "unat (os_heap_align_up base) = start" unfolding start_def by (rule os_heap_align_up_nat) (use fit in simp)
  have le: "unat base \<le> start" "start < unat base + 16" unfolding start_def by (simp_all add: aligned_up_simps)
  have lost: "unat (os_heap_align_up base - base) = start - unat base" using unat_sub_no_wrap64 [of base "os_heap_align_up base"] le a by simp
  have usable: "unat (if os_heap_align_up base - base < sz then sz - (os_heap_align_up base - base) else 0) = unat sz - (start - unat base)"
    using unat_sub_no_wrap64 [of "os_heap_align_up base - base" sz] by (simp add: word_less_nat_alt lost)
  have half: "unat (((if os_heap_align_up base - base < sz then sz - (os_heap_align_up base - base) else 0) div 2) AND NOT (OS_HEAP_ALIGN - 1)) = half"
    unfolding aligned_down unat_div usable by (simp add: half_def start_def)
  have nb: "\<not> os_heap_align_up base \<le> MAGIC_MUST_BE_BELOW" using r by (auto simp: os_heap_init_def Let_def split: if_splits)
  then show "4096 < start" using a by (simp add: word_le_nat_alt MAGIC_MUST_BE_BELOW_def)
  have h': "h' = heap_update_soft_end (h\<lparr>g_from_start := start, g_from_ptr := start, g_from_end := start + half,
      g_to_start := start + half, g_to_ptr := start + half, g_to_end := start + half + half,
      g_heap_exhausted_pending := False, g_in_heap_signal := False\<rparr>)"
    using r nb unfolding os_heap_init_def Let_def half a by simp
  show "g_from_start h' = start" "g_from_ptr h' = start" "g_from_end h' = start + half" "g_to_start h' = start + half"
    "g_to_end h' = start + half + half" "soft_ok h'" "mem h' = mem h" "nil h' = nil h" "gc_roots h' = gc_roots h"
    "function_cells h' = function_cells h"
    unfolding h' by (simp_all add: soft_ok_update) (simp_all add: gc_roots_def)
qed

lemma live_none:
  assumes "\<And>a. a \<in> set (gc_roots h) \<union> set (function_cells h) \<Longrightarrow> \<not> is_ref h (mem h a)"
  shows "live h = {}"
proof -
  have "False" if "v \<in> live h" for v using that by induction (use assms in blast)+
  then show ?thesis by blast
qed

subsection \<open>Properties\<close>

text \<open>A heap with one object, a cons that is its own car, reached from one global.\<close>

definition example_cons :: u64 where "example_cons = 0x2001"

definition example_heap :: heap where
  "example_heap = \<lparr>mem = (\<lambda>_. 0)(16 := example_cons, 0x2000 := example_cons), nil = 0, g_from_start = 0x2000, g_from_ptr = 0x2010,
     g_from_end = 0x3000, g_to_start = 0x3000, g_to_ptr = 0x3000, g_to_end = 0x4000, g_from_soft_end = 0x3000,
     g_from_soft_end_normal = 0x3000, g_from_floor_end = 0x3000, g_heap_exhausted_pending = False, g_in_heap_signal = False,
     g_gc_queue = (\<lambda>_. 0), g_gc_queue_head = 0, g_gc_queue_tail = 0, g_gc_collect_count = 0, globals = [16], symbol_table = [],
     cached_symbols = [], extra_roots = [], shadow_stacks = [[]], function_cells = []\<rparr>"

lemma example_parts:
  "tag_of example_cons = TAG_CONS" "address_of example_cons = 0x2000" "gc_roots example_heap = [16]" "function_cells example_heap = []"
  "mem example_heap 16 = example_cons" "mem example_heap 0x2000 = example_cons" "mem example_heap 0x2008 = 0" "nil example_heap = 0"
  "g_from_start example_heap = 0x2000" "g_from_ptr example_heap = 0x2010" "g_from_end example_heap = 0x3000" "g_to_start example_heap = 0x3000"
  "g_to_end example_heap = 0x4000" "soft_ok example_heap"
  by (simp_all add: example_cons_def example_heap_def tag_of_def address_of_def TAG_MASK_def TAG_CONS_def gc_roots_def soft_ok_def)

lemma example_layout:
  "blocks (mem example_heap) example_cons = [(0x2000, 16)]" "fields (mem example_heap) example_cons = [example_cons, 0]"
  using example_parts by (simp_all add: blocks_def parts_def header_size_def fields_def slots_def Let_def)

lemma example_live: "live example_heap \<subseteq> {example_cons}"
proof
  fix v assume "v \<in> live example_heap"
  then show "v \<in> {example_cons}"
    by induction (use example_parts example_layout in \<open>auto simp: is_ref_def\<close>)
qed

lemma example_ok: "heap_ok example_heap"
proof (rule heap_okI [OF _ _ example_live])
  show "spaces_ok example_heap" unfolding spaces_ok_def outside_def example_parts by (simp add: address_of_def)
  show "outside example_heap a" if "a \<in> set (gc_roots example_heap) \<union> set (function_cells example_heap)" for a
    using that unfolding outside_def example_parts by simp
  show "object_ok example_heap v" if "v \<in> {example_cons}" for v
  proof -
    have v: "v = example_cons" using that by simp
    show ?thesis unfolding v object_ok_def example_layout example_parts by (simp add: inside_def aligned_up_def const_defs)
  qed
qed simp

lemma collect_returns:
  assumes "heap_ok h" "card (live h) \<le> GC_QUEUE_CAPACITY"
  obtains h' where "os_gc_collect h = Some (Inr h')"
  using collect_ok [OF assms(1)] assms(2) by (auto simp: exhausts_def)

lemma example_card: "card (live example_heap) \<le> GC_QUEUE_CAPACITY"
proof -
  have "card (live example_heap) \<le> card {example_cons}" by (rule card_mono [OF _ example_live]) simp
  then show ?thesis by (simp add: GC_QUEUE_CAPACITY_def)
qed

lemma example_is_live: "example_cons \<in> live example_heap"
  using live_root [of 16 example_heap] example_parts by (simp add: is_ref_def os_tag_is_heap_ref_def example_cons_def)

lemma example_not_ref: "\<not> is_ref example_heap 0"
  by (simp add: is_ref_def example_heap_def)

text \<open>
  C20. A collection of a well-formed heap always ends. The only failure is that the work queue is
  full, and then more objects are alive than its 65536 entries; to-space never runs out.
\<close>

theorem gc_returns:
  assumes "heap_ok h"
  shows "\<exists>r. os_gc_collect h = Some r \<and> (\<forall>e. r = Inl e \<longrightarrow> e = Queue_exhausted \<and> GC_QUEUE_CAPACITY < card (live h))"
  using collect_ok [OF assms] by (auto simp: exhausts_def)

lemma gc_returns_witness: "\<exists>h'. os_gc_collect example_heap = Some (Inr h')"
proof -
  obtain r where "os_gc_collect example_heap = Some r"
    "\<forall>e. r = Inl e \<longrightarrow> e = Queue_exhausted \<and> GC_QUEUE_CAPACITY < card (live example_heap)"
    using gc_returns [OF example_ok] by blast
  then show ?thesis using example_card by (cases r) auto
qed

text \<open>
  C1. A collection moves the graph of live objects and changes nothing else: there is an injective
  map of the live objects to the objects that are live afterwards; each keeps its tag and its
  contents that are not values, and its fields and all roots hold the moved values.
\<close>

theorem gc_preserves_heap:
  assumes "heap_ok h" "os_gc_collect h = Some (Inr h')"
  shows "\<exists>f. inj_on f (live h) \<and> live h' = f ` live h \<and>
    (\<forall>v\<in>live h. tag_of (f v) = tag_of v \<and> raw (mem h') (f v) = raw (mem h) v \<and>
       fields (mem h') (f v) = map (moved h f) (fields (mem h) v)) \<and>
    (\<forall>a\<in>set (gc_roots h) \<union> set (function_cells h). mem h' a = moved h f (mem h a)) \<and>
    (\<forall>a. outside h a \<longrightarrow> a \<notin> set (gc_roots h) \<union> set (function_cells h) \<longrightarrow> mem h' a = mem h a)"
proof -
  obtain f where "reclaimed h f h'" using collect_ok [OF assms(1)] assms(2) by (auto simp: exhausts_def)
  then show ?thesis unfolding reclaimed_def by blast
qed

lemma gc_preserves_heap_witness:
  "\<exists>h' c. os_gc_collect example_heap = Some (Inr h') \<and> mem h' 16 = c \<and> tag_of c = TAG_CONS \<and> fields (mem h') c = [c, 0]"
proof -
  obtain h' where g: "os_gc_collect example_heap = Some (Inr h')" by (rule collect_returns [OF example_ok example_card])
  obtain f where f: "tag_of (f example_cons) = tag_of example_cons"
    "fields (mem h') (f example_cons) = map (moved example_heap f) (fields (mem example_heap) example_cons)"
    "mem h' 16 = moved example_heap f (mem example_heap 16)"
    using gc_preserves_heap [OF example_ok g] example_is_live example_parts by auto
  have "is_ref example_heap example_cons" by (rule live_is_ref [OF example_is_live])
  then show ?thesis using g f example_parts example_layout example_not_ref by (auto simp: moved_def)
qed

text \<open>
  C7. A collection keeps the heap well-formed, in the other half-space: live objects are aligned,
  disjoint, inside the allocated part, and that part is exactly as long as they need.
\<close>

theorem gc_keeps_heap_ok:
  assumes "heap_ok h" "os_gc_collect h = Some (Inr h')"
  shows "heap_ok h' \<and> soft_ok h' \<and> g_from_start h' = g_to_start h \<and> g_from_end h' = g_to_end h \<and>
    g_from_ptr h' = g_from_start h' + (\<Sum>v\<in>live h. total_size (blocks (mem h) v))"
  using collect_ok [OF assms(1)] assms(2) heap_okD(1) [OF assms(1)] by (auto simp: exhausts_def spaces_ok_def)

lemma gc_keeps_heap_ok_witness:
  "\<exists>h'. os_gc_collect example_heap = Some (Inr h') \<and> heap_ok h' \<and> g_from_start h' = 0x3000 \<and> g_from_ptr h' = 0x3010"
proof -
  obtain h' where g: "os_gc_collect example_heap = Some (Inr h')" by (rule collect_returns [OF example_ok example_card])
  have "live example_heap = {example_cons}" using example_live example_is_live by blast
  then show ?thesis using gc_keeps_heap_ok [OF example_ok g] g example_parts example_layout by (auto simp: aligned_up_def)
qed

text \<open>
  C9. An allocation in a well-formed heap ends with an aligned block inside from-space that
  overlaps no live object, in a heap that is well-formed and holds the same graph; or it stops,
  because the work queue is full, or because the live objects and the request do not fit. The size
  must not be so large that an address wraps around.
\<close>

theorem alloc_bytes_safe:
  assumes "heap_ok h" "soft_ok h" "max (g_from_end h) (g_to_end h) + unat n + 15 < 2 ^ 64"
  shows "\<exists>r. os_alloc_bytes n h = Some r \<and>
    (case r of
       Inl e \<Rightarrow> e = Queue_exhausted \<and> GC_QUEUE_CAPACITY < card (live h) \<or>
         e = Out_of_memory \<and> g_from_end h - g_from_start h <
           (\<Sum>v\<in>live h. total_size (blocks (mem h) v)) + aligned_up (unat n) + HEAP_HARD_FLOOR
     | Inr (p, h') \<Rightarrow> heap_ok h' \<and> soft_ok h' \<and> (\<exists>f. reclaimed h f h') \<and> inside (g_from_start h') (g_from_ptr h') (p, unat n) \<and>
         (\<forall>v\<in>live h'. \<forall>b\<in>set (blocks (mem h') v). sep b (p, unat n)))"
proof -
  obtain r where r: "os_alloc_bytes n h = Some r" "exhausts h r \<or> (r = Inl Out_of_memory \<and> no_room h (unat n)) \<or>
    (\<exists>p h'. r = Inr (p, h') \<and> allocated h (unat n) p h')" using alloc_bytes [OF assms(1,2), of n] assms(3) by auto
  have "(\<forall>v\<in>live h'. \<forall>b\<in>set (blocks (mem h') v). sep b (p, unat n)) \<and> heap_ok h' \<and> soft_ok h' \<and> (\<exists>f. reclaimed h f h') \<and>
    inside (g_from_start h') (g_from_ptr h') (p, unat n)" if "allocated h (unat n) p h'" for p h'
    using that unfolding allocated_def fresh_def by blast
  then show ?thesis using r by (auto simp: exhausts_def no_room_def)
qed

lemma alloc_bytes_safe_witness:
  "\<exists>p h'. os_alloc_bytes 24 example_heap = Some (Inr (p, h')) \<and> heap_ok h' \<and> inside 0x2000 (g_from_ptr h') (p, 24)"
proof -
  have "os_alloc_bytes 24 example_heap = Some (Inr (0x2010, example_heap\<lparr>g_from_ptr := 0x2030\<rparr>))"
    by (simp add: os_alloc_bytes_def os_heap_align_up_def OS_HEAP_ALIGN_def example_heap_def)
  then show ?thesis using alloc_bytes_safe [OF example_ok, of 24] example_parts by auto
qed

text \<open>
  C23. \<open>os_make_cons\<close> keeps the heap well-formed even when it has to collect, and storing the new
  pair in any root is safe. Its two arguments are protected: with them as roots, the live
  objects of the heap before the call are moved by an injective map and keep their contents, all
  roots hold their moved values, and the new pair, none of these objects, holds the values the
  two variables had before the call, moved.
\<close>

theorem make_cons_keeps_heap_ok:
  assumes "heap_ok (gc_protect proc cdr_var (gc_protect proc car_var h))" "soft_ok h" "proc < length (shadow_stacks h)"
    "tag_of (mem h car_var) \<noteq> TAG_FORWARD" "a \<in> set (gc_roots h) \<union> set (function_cells h)"
    "os_make_cons proc car_var cdr_var h = Some (Inr (c, h'))"
  shows "heap_ok (store a c h') \<and>
    (\<exists>f. cons_of (gc_protect proc cdr_var (gc_protect proc car_var h)) f h' c (mem h car_var) (mem h cdr_var))"
  using make_cons [OF assms] by blast

lemma example_protected: "heap_ok (gc_protect 0 16 (gc_protect 0 16 example_heap))"
proof -
  let ?h = "gc_protect 0 16 (gc_protect 0 16 example_heap)"
  have "length (shadow_stacks example_heap) = 1" by (simp add: example_heap_def)
  then have r: "set (gc_roots ?h) = {16}" using example_parts by (simp add: roots_protect [of 0] gc_protect_def [of _ _ example_heap])
      (simp add: gc_roots_def example_heap_def)
  show ?thesis
    by (rule heap_ok_frame [OF example_ok]) (simp_all add: r example_parts)
qed

lemma make_cons_keeps_heap_ok_witness:
  "\<exists>c h' f. os_make_cons 0 16 16 example_heap = Some (Inr (c, h')) \<and> heap_ok (store 16 c h') \<and> c \<noteq> f example_cons \<and>
     fields (mem h') c = [f example_cons, f example_cons] \<and> fields (mem h') (f example_cons) = [f example_cons, 0]"
proof -
  let ?hp = "gc_protect 0 16 (gc_protect 0 16 example_heap)"
  have "\<exists>c h'. os_make_cons 0 16 16 example_heap = Some (Inr (c, h'))"
    by (simp add: os_make_cons_def os_alloc_bytes_def os_heap_align_up_def OS_HEAP_ALIGN_def example_heap_def gc_protect_def Let_def)
  then obtain c h' where m: "os_make_cons 0 16 16 example_heap = Some (Inr (c, h'))" by blast
  have "tag_of (mem example_heap 16) \<noteq> TAG_FORWARD" using example_parts by (simp add: const_defs)
  then obtain f where k: "heap_ok (store 16 c h')" "cons_of ?hp f h' c example_cons example_cons"
    using make_cons_keeps_heap_ok [OF example_protected _ _ _ _ m, of 16] example_parts by (auto simp: example_heap_def)
  have "length (shadow_stacks example_heap) = 1" by (simp add: example_heap_def)
  then have r: "16 \<in> set (gc_roots ?hp)" by (simp add: roots_protect [of 0] gc_protect_def [of _ _ example_heap])
  have ref: "is_ref ?hp v = is_ref example_heap v" for v by (simp add: is_ref_def)
  have "is_ref example_heap example_cons" by (rule live_is_ref [OF example_is_live])
  moreover from this have "example_cons \<in> live ?hp" using live_root [of 16 ?hp] r example_parts by (simp add: ref)
  ultimately show ?thesis
    using k m example_parts example_layout example_not_ref
    by (intro exI [of _ c] exI [of _ h'] exI [of _ f]) (auto simp: cons_of_def moved_def ref)
qed

text \<open>
  C39. \<open>os_heap_init\<close> splits the given region into two equal aligned half-spaces within it, and
  when no root holds a heap object yet the result is a well-formed heap.
\<close>

theorem heap_init_ok:
  assumes "unat base + unat sz + 16 < 2 ^ 64" "os_heap_init base sz h = Inr h'" "unat base + 16 \<le> unat base + unat sz"
    "outside h' (address_of (nil h))"
    "\<And>a. a \<in> set (gc_roots h) \<union> set (function_cells h) \<Longrightarrow> outside h' a \<and> \<not> is_ref h (mem h a)"
  shows "heap_ok h' \<and> soft_ok h' \<and> unat base \<le> g_from_start h' \<and> g_to_start h' = g_from_end h' \<and> g_to_end h' \<le> unat base + unat sz \<and>
    g_from_end h' - g_from_start h' = g_to_end h' - g_to_start h'"
proof -
  let ?start = "aligned_up (unat base)" and ?half = "(unat sz - (aligned_up (unat base) - unat base)) div 2 div 16 * 16"
  note i = init_spaces [OF assms(1,2)]
  have start: "unat base \<le> ?start" "?start < unat base + 16" "16 dvd ?start" by (simp_all add: aligned_up_simps)
  have half: "?half + ?half \<le> unat sz - (?start - unat base)" "16 dvd ?half" by simp_all
  have sp: "spaces_ok h'"
    unfolding spaces_ok_def i(1-5,8) using start half i(11) assms(1,3,4) by auto
  have ref: "is_ref h' w = is_ref h w" for w by (simp add: is_ref_def i(8))
  have lv: "live h' = {}" by (rule live_none) (use assms(5) in \<open>simp add: ref i(7,9,10)\<close>)
  have "heap_ok h'" by (rule heap_okI [OF sp _ equalityD1 [OF lv]]) (use assms(5) in \<open>auto simp: i(9,10)\<close>)
  then show ?thesis unfolding i(1-5) using start half assms(3) i(6) by simp
qed

lemma heap_init_ok_witness:
  "\<exists>h'. os_heap_init 0x10008 0x10000 (example_heap\<lparr>mem := (\<lambda>_. 0)\<rparr>) = Inr h' \<and> heap_ok h' \<and> g_from_start h' = 0x10010 \<and> g_to_end h' \<le> 0x20008"
proof -
  let ?h = "example_heap\<lparr>mem := (\<lambda>_. 0)\<rparr>"
  obtain h' where r: "os_heap_init 0x10008 0x10000 ?h = Inr h'"
    by (simp add: os_heap_init_def Let_def os_heap_align_up_def OS_HEAP_ALIGN_def MAGIC_MUST_BE_BELOW_def)
  have g: "gc_roots ?h = [16]" "function_cells ?h = []" "nil ?h = 0" by (simp_all add: gc_roots_def example_heap_def)
  note i = init_spaces [OF _ r, simplified, unfolded aligned_up_def, simplified]
  have "heap_ok h' \<and> soft_ok h' \<and> unat (0x10008 :: u64) \<le> g_from_start h' \<and> g_to_start h' = g_from_end h' \<and>
      g_to_end h' \<le> unat (0x10008 :: u64) + unat (0x10000 :: u64) \<and> g_from_end h' - g_from_start h' = g_to_end h' - g_to_start h'"
    by (rule heap_init_ok [OF _ r]) (simp_all add: g outside_def i is_ref_def address_of_def)
  then show ?thesis using r i by auto
qed

text \<open>
  The forwarding test of the collector mistakes a live string for a forwarded object when its
  length ends in the forwarding tag and lies in the address range of to-space: the string is
  not copied, and the reference is redirected to an address made from its length.
\<close>

theorem string_taken_as_forwarded:
  assumes "is_ref h v" "tag_of v = TAG_STRING" "\<not> (g_to_start h \<le> address_of v \<and> address_of v < g_to_end h)"
    "tag_of (mem h (address_of v)) = TAG_FORWARD"
    "g_to_start h \<le> address_of (mem h (address_of v))" "address_of (mem h (address_of v)) < g_to_end h"
  shows "gc_copy_value v h = Inr (tagged (address_of (mem h (address_of v))) TAG_STRING, h)"
  using assms by (auto simp: gc_copy_value_def is_ref_def Let_def)

definition flipped_heap :: heap where
  "flipped_heap = example_heap\<lparr>mem := (\<lambda>_. 0)(16 := 0x10005, 0x10000 := 0x200F), g_from_start := 0x10000, g_from_ptr := 0x12020,
     g_from_end := 0x1E000, g_to_start := 0x2000, g_to_ptr := 0x2000, g_to_end := 0x10000\<rparr>"

end
