(* ===== verification/P9.thy ===== *)
theory P9
  imports Prelude "HOL-Library.Monad_Syntax"
begin

unbundle bit_operations_syntax

text \<open>
  The 9P2000.u codec of \<^verbatim>\<open>src/c/p9.c\<close>. A message buffer is the list of its bytes, a
  position is a number (the buffers of the code have 8192 bytes, so positions do not wrap),
  and an access outside the buffer makes the operation \<open>None\<close>. The lengths a parser compares
  are 32-bit words, with the wrap-around of the C code.

  The wire format is stated apart from the code: \<open>tmsg_bytes\<close> and \<open>rmsg_bytes\<close> give the bytes
  of a request and of a reply. The locale \<open>p9_field\<close> is the contract of a field writer, the
  locale \<open>p9_codec\<close> that of a field writer with its reader.
\<close>

subsection \<open>Constants\<close>

definition P9_HEADER_SIZE :: nat where "P9_HEADER_SIZE = 7"
definition P9_QID_SIZE :: nat where "P9_QID_SIZE = 13"
definition P9_TVERSION :: u8 where "P9_TVERSION = 100"
definition P9_RVERSION :: u8 where "P9_RVERSION = 101"
definition P9_TATTACH :: u8 where "P9_TATTACH = 104"
definition P9_RATTACH :: u8 where "P9_RATTACH = 105"
definition P9_RERROR :: u8 where "P9_RERROR = 107"
definition P9_TWALK :: u8 where "P9_TWALK = 110"
definition P9_RWALK :: u8 where "P9_RWALK = 111"
definition P9_TOPEN :: u8 where "P9_TOPEN = 112"
definition P9_ROPEN :: u8 where "P9_ROPEN = 113"
definition P9_TCREATE :: u8 where "P9_TCREATE = 114"
definition P9_RCREATE :: u8 where "P9_RCREATE = 115"
definition P9_TREAD :: u8 where "P9_TREAD = 116"
definition P9_RREAD :: u8 where "P9_RREAD = 117"
definition P9_TWRITE :: u8 where "P9_TWRITE = 118"
definition P9_RWRITE :: u8 where "P9_RWRITE = 119"
definition P9_TCLUNK :: u8 where "P9_TCLUNK = 120"
definition P9_RCLUNK :: u8 where "P9_RCLUNK = 121"

lemmas p9_types = P9_TVERSION_def P9_RVERSION_def P9_TATTACH_def P9_RATTACH_def P9_RERROR_def
  P9_TWALK_def P9_RWALK_def P9_TOPEN_def P9_ROPEN_def P9_TCREATE_def P9_RCREATE_def
  P9_TREAD_def P9_RREAD_def P9_TWRITE_def P9_RWRITE_def P9_TCLUNK_def P9_RCLUNK_def

subsection \<open>Writing fields\<close>

type_synonym cursor = "u8 list \<times> nat"

fun put_bytes :: "u8 list \<Rightarrow> cursor \<Rightarrow> cursor option" where
  "put_bytes [] (buf, pos) = Some (buf, pos)"
| "put_bytes (b # bs) (buf, pos) =
     (if pos < length buf then put_bytes bs (buf[pos := b], Suc pos) else None)"

definition p9_put_u8 :: "u8 \<Rightarrow> cursor \<Rightarrow> cursor option" where
  "p9_put_u8 v = put_bytes [v]"

definition p9_put_u16 :: "u16 \<Rightarrow> cursor \<Rightarrow> cursor option" where
  "p9_put_u16 v = put_bytes [ucast (v AND 0xFF), ucast (drop_bit 8 v AND 0xFF)]"

definition p9_put_u32 :: "u32 \<Rightarrow> cursor \<Rightarrow> cursor option" where
  "p9_put_u32 v = put_bytes [ucast (v AND 0xFF), ucast (drop_bit 8 v AND 0xFF),
     ucast (drop_bit 16 v AND 0xFF), ucast (drop_bit 24 v AND 0xFF)]"

definition p9_put_u64 :: "u64 \<Rightarrow> cursor \<Rightarrow> cursor option" where
  "p9_put_u64 v = put_bytes (map (\<lambda>i. ucast (drop_bit (8 * i) v AND 0xFF)) [0..<8])"

definition p9_strlen :: "string \<Rightarrow> nat" where
  "p9_strlen s = length (cstr s)"

definition char_bytes :: "string \<Rightarrow> u8 list" where
  "char_bytes s = map (of_nat \<circ> of_char) (cstr s)"

definition p9_put_string :: "string \<Rightarrow> cursor \<Rightarrow> cursor option" where
  "p9_put_string s cur = do {
     cur \<leftarrow> p9_put_u16 (of_nat (p9_strlen s)) cur;
     put_bytes (char_bytes s) cur
   }"

definition p9_write_header :: "u8 list \<Rightarrow> u32 \<Rightarrow> u8 \<Rightarrow> u16 \<Rightarrow> u8 list option" where
  "p9_write_header buf total_size ty tag = do {
     cur \<leftarrow> p9_put_u32 total_size (buf, 0);
     cur \<leftarrow> p9_put_u8 ty cur;
     cur \<leftarrow> p9_put_u16 tag cur;
     Some (fst cur)
   }"

subsection \<open>Building requests\<close>

definition p9_finish :: "u8 \<Rightarrow> u16 \<Rightarrow> cursor \<Rightarrow> cursor option" where
  "p9_finish ty tag cur = do {
     buf \<leftarrow> p9_write_header (fst cur) (of_nat (snd cur)) ty tag;
     Some (buf, snd cur)
   }"

definition os_p9_build_tversion :: "u8 list \<Rightarrow> u16 \<Rightarrow> u32 \<Rightarrow> string \<Rightarrow> cursor option" where
  "os_p9_build_tversion buf tag msize version = do {
     cur \<leftarrow> p9_put_u32 msize (buf, P9_HEADER_SIZE);
     cur \<leftarrow> p9_put_string version cur;
     p9_finish P9_TVERSION tag cur
   }"

definition os_p9_build_tattach ::
  "u8 list \<Rightarrow> u16 \<Rightarrow> u32 \<Rightarrow> u32 \<Rightarrow> string \<Rightarrow> string \<Rightarrow> u32 \<Rightarrow> cursor option" where
  "os_p9_build_tattach buf tag fid afid uname aname n_uname = do {
     cur \<leftarrow> p9_put_u32 fid (buf, P9_HEADER_SIZE);
     cur \<leftarrow> p9_put_u32 afid cur;
     cur \<leftarrow> p9_put_string uname cur;
     cur \<leftarrow> p9_put_string aname cur;
     cur \<leftarrow> p9_put_u32 n_uname cur;
     p9_finish P9_TATTACH tag cur
   }"

primrec p9_put_strings :: "string list \<Rightarrow> cursor \<Rightarrow> cursor option" where
  "p9_put_strings [] cur = Some cur"
| "p9_put_strings (s # ss) cur = do { cur \<leftarrow> p9_put_string s cur; p9_put_strings ss cur }"

text \<open>Reading \<open>nwname\<close> pointers from a shorter array is an access outside it.\<close>

definition os_p9_build_twalk ::
  "u8 list \<Rightarrow> u16 \<Rightarrow> u32 \<Rightarrow> u32 \<Rightarrow> string list \<Rightarrow> u16 \<Rightarrow> cursor option" where
  "os_p9_build_twalk buf tag fid newfid wnames nwname = do {
     cur \<leftarrow> p9_put_u32 fid (buf, P9_HEADER_SIZE);
     cur \<leftarrow> p9_put_u32 newfid cur;
     cur \<leftarrow> p9_put_u16 nwname cur;
     cur \<leftarrow> (if unat nwname \<le> length wnames then p9_put_strings (take (unat nwname) wnames) cur else None);
     p9_finish P9_TWALK tag cur
   }"

definition os_p9_build_topen :: "u8 list \<Rightarrow> u16 \<Rightarrow> u32 \<Rightarrow> u8 \<Rightarrow> cursor option" where
  "os_p9_build_topen buf tag fid mode = do {
     cur \<leftarrow> p9_put_u32 fid (buf, P9_HEADER_SIZE);
     cur \<leftarrow> p9_put_u8 mode cur;
     p9_finish P9_TOPEN tag cur
   }"

definition os_p9_build_tread :: "u8 list \<Rightarrow> u16 \<Rightarrow> u32 \<Rightarrow> u64 \<Rightarrow> u32 \<Rightarrow> cursor option" where
  "os_p9_build_tread buf tag fid offset count = do {
     cur \<leftarrow> p9_put_u32 fid (buf, P9_HEADER_SIZE);
     cur \<leftarrow> p9_put_u64 offset cur;
     cur \<leftarrow> p9_put_u32 count cur;
     p9_finish P9_TREAD tag cur
   }"

definition os_p9_build_tclunk :: "u8 list \<Rightarrow> u16 \<Rightarrow> u32 \<Rightarrow> cursor option" where
  "os_p9_build_tclunk buf tag fid = do {
     cur \<leftarrow> p9_put_u32 fid (buf, P9_HEADER_SIZE);
     p9_finish P9_TCLUNK tag cur
   }"

definition os_p9_build_twrite ::
  "u8 list \<Rightarrow> u16 \<Rightarrow> u32 \<Rightarrow> u64 \<Rightarrow> u8 list \<Rightarrow> u32 \<Rightarrow> cursor option" where
  "os_p9_build_twrite buf tag fid offset data count = do {
     cur \<leftarrow> p9_put_u32 fid (buf, P9_HEADER_SIZE);
     cur \<leftarrow> p9_put_u64 offset cur;
     cur \<leftarrow> p9_put_u32 count cur;
     cur \<leftarrow> (if unat count \<le> length data then put_bytes (take (unat count) data) cur else None);
     p9_finish P9_TWRITE tag cur
   }"

definition os_p9_build_tcreate ::
  "u8 list \<Rightarrow> u16 \<Rightarrow> u32 \<Rightarrow> string \<Rightarrow> u32 \<Rightarrow> u8 \<Rightarrow> cursor option" where
  "os_p9_build_tcreate buf tag fid name perm mode = do {
     cur \<leftarrow> p9_put_u32 fid (buf, P9_HEADER_SIZE);
     cur \<leftarrow> p9_put_string name cur;
     cur \<leftarrow> p9_put_u32 perm cur;
     cur \<leftarrow> p9_put_u8 mode cur;
     cur \<leftarrow> p9_put_string [] cur;
     p9_finish P9_TCREATE tag cur
   }"

subsection \<open>Reading fields\<close>

definition p9_get_u8 :: "u8 list \<Rightarrow> nat \<Rightarrow> (u8 \<times> nat) option" where
  "p9_get_u8 buf pos = (if pos < length buf then Some (buf ! pos, pos + 1) else None)"

definition p9_get_u16 :: "u8 list \<Rightarrow> nat \<Rightarrow> (u16 \<times> nat) option" where
  "p9_get_u16 buf pos =
     (if pos + 1 < length buf
      then Some (ucast (buf ! pos) OR push_bit 8 (ucast (buf ! (pos + 1))), pos + 2)
      else None)"

definition p9_get_u32 :: "u8 list \<Rightarrow> nat \<Rightarrow> (u32 \<times> nat) option" where
  "p9_get_u32 buf pos =
     (if pos + 3 < length buf
      then Some (ucast (buf ! pos) OR push_bit 8 (ucast (buf ! (pos + 1))) OR
                 push_bit 16 (ucast (buf ! (pos + 2))) OR push_bit 24 (ucast (buf ! (pos + 3))), pos + 4)
      else None)"

text \<open>
  The copy into \<open>out\<close> keeps \<open>out_cap - 1\<close> bytes and a NUL; a null \<open>out\<close> (\<open>None\<close>) skips the
  copy. The subtraction wraps for a capacity of 0, and the copy then writes outside \<open>out\<close>.
\<close>

definition p9_get_string :: "u8 list \<Rightarrow> nat \<Rightarrow> u32 option \<Rightarrow> (string \<times> nat) option" where
  "p9_get_string buf pos out_cap = do {
     (len, pos) \<leftarrow> p9_get_u16 buf pos;
     (case out_cap of
        None \<Rightarrow> Some ([], pos + unat len)
      | Some cap \<Rightarrow>
          (let copy_len = (if unat (cap - 1) < unat len then unat (cap - 1) else unat len)
           in if pos + copy_len \<le> length buf \<and> copy_len < unat cap
              then Some (map (char_of \<circ> unat) (take copy_len (drop pos buf)), pos + unat len)
              else None))
   }"

subsection \<open>Parsing replies\<close>

datatype 'a parsed = Rejected | Parsed 'a

definition p9_check_min_len :: "u32 \<Rightarrow> u32 \<Rightarrow> bool" where
  "p9_check_min_len len required \<longleftrightarrow> required \<le> len"

text \<open>The prologue of every parser: the minimal length, then the type byte.\<close>

definition p9_expect :: "u8 \<Rightarrow> nat \<Rightarrow> u8 list \<Rightarrow> u32 \<Rightarrow> 'a parsed option \<Rightarrow> 'a parsed option" where
  "p9_expect ty required buf len rest =
     (if \<not> p9_check_min_len len (of_nat required) then Some Rejected
      else do {
        (t, pos) \<leftarrow> p9_get_u8 buf 4;
        (if t \<noteq> ty then Some Rejected else rest)
      })"

definition os_p9_parse_rversion :: "u8 list \<Rightarrow> u32 \<Rightarrow> u32 \<Rightarrow> (u32 \<times> string) parsed option" where
  "os_p9_parse_rversion buf len version_cap =
     p9_expect P9_RVERSION (P9_HEADER_SIZE + 4 + 2) buf len (do {
       (msize, pos) \<leftarrow> p9_get_u32 buf P9_HEADER_SIZE;
       (version, pos) \<leftarrow> p9_get_string buf pos (Some version_cap);
       Some (Parsed (msize, version))
     })"

definition os_p9_parse_rattach :: "u8 list \<Rightarrow> u32 \<Rightarrow> unit parsed option" where
  "os_p9_parse_rattach buf len =
     p9_expect P9_RATTACH (P9_HEADER_SIZE + P9_QID_SIZE) buf len (Some (Parsed ()))"

definition os_p9_parse_rwalk :: "u8 list \<Rightarrow> u32 \<Rightarrow> u16 parsed option" where
  "os_p9_parse_rwalk buf len =
     p9_expect P9_RWALK (P9_HEADER_SIZE + 2) buf len (do {
       (nwqid, pos) \<leftarrow> p9_get_u16 buf P9_HEADER_SIZE;
       Some (Parsed nwqid)
     })"

definition os_p9_parse_ropen :: "u8 list \<Rightarrow> u32 \<Rightarrow> unit parsed option" where
  "os_p9_parse_ropen buf len =
     p9_expect P9_ROPEN (P9_HEADER_SIZE + P9_QID_SIZE + 4) buf len (Some (Parsed ()))"

definition os_p9_parse_rread :: "u8 list \<Rightarrow> u32 \<Rightarrow> (nat \<times> u32) parsed option" where
  "os_p9_parse_rread buf len =
     p9_expect P9_RREAD (P9_HEADER_SIZE + 4) buf len (do {
       (count, pos) \<leftarrow> p9_get_u32 buf P9_HEADER_SIZE;
       (if \<not> p9_check_min_len len (of_nat (P9_HEADER_SIZE + 4) + count) then Some Rejected
        else Some (Parsed (pos, count)))
     })"

definition os_p9_parse_rclunk :: "u8 list \<Rightarrow> u32 \<Rightarrow> unit parsed option" where
  "os_p9_parse_rclunk buf len = p9_expect P9_RCLUNK P9_HEADER_SIZE buf len (Some (Parsed ()))"

definition os_p9_parse_rwrite :: "u8 list \<Rightarrow> u32 \<Rightarrow> u32 parsed option" where
  "os_p9_parse_rwrite buf len =
     p9_expect P9_RWRITE (P9_HEADER_SIZE + 4) buf len (do {
       (count, pos) \<leftarrow> p9_get_u32 buf P9_HEADER_SIZE;
       Some (Parsed count)
     })"

definition os_p9_parse_rcreate :: "u8 list \<Rightarrow> u32 \<Rightarrow> unit parsed option" where
  "os_p9_parse_rcreate buf len =
     p9_expect P9_RCREATE (P9_HEADER_SIZE + P9_QID_SIZE + 4) buf len (Some (Parsed ()))"

definition os_p9_check_error :: "u8 list \<Rightarrow> u32 \<Rightarrow> u32 \<Rightarrow> string parsed option" where
  "os_p9_check_error buf len errbuf_cap =
     p9_expect P9_RERROR (P9_HEADER_SIZE + 2) buf len (do {
       (text, pos) \<leftarrow> p9_get_string buf P9_HEADER_SIZE (Some errbuf_cap);
       Some (Parsed text)
     })"

subsection \<open>Little-endian numbers\<close>

definition le :: "nat \<Rightarrow> nat \<Rightarrow> u8 list" where
  "le n x = map (\<lambda>i. of_nat (x div 256 ^ i)) [0..<n]"

lemma length_le [simp]: "length (le n x) = n"
  by (simp add: le_def)

lemma bit_byte_of_nat: "bit (of_nat x :: u8) k \<longleftrightarrow> k < 8 \<and> bit x k"
  by (simp add: bit_of_nat_iff)

lemma bit_div_pow: "bit (unat (v :: 'a::len word) div 2 ^ j) k \<longleftrightarrow> bit v (j + k)"
proof -
  have "unat v div 2 ^ j = drop_bit j (unat v)" by (simp add: drop_bit_eq_div)
  then show ?thesis by (simp add: bit_simps)
qed

lemma byte_of_word: "(ucast (drop_bit k (v :: 'a::len word)) :: u8) = of_nat (unat v div 2 ^ k)"
  by (rule bit_word_eqI) (simp add: bit_byte_of_nat bit_div_pow bit_simps)

lemma byte_of_word_parts:
  "(ucast (drop_bit 8 (v :: 'a::len word)) :: u8) = of_nat (unat v div 256)"
  "(ucast (drop_bit 16 v) :: u8) = of_nat (unat v div 65536)"
  "(ucast (drop_bit 24 v) :: u8) = of_nat (unat v div 16777216)"
  "(ucast (drop_bit 32 v) :: u8) = of_nat (unat v div 4294967296)"
  "(ucast (drop_bit 40 v) :: u8) = of_nat (unat v div 1099511627776)"
  "(ucast (drop_bit 48 v) :: u8) = of_nat (unat v div 281474976710656)"
  "(ucast (drop_bit 56 v) :: u8) = of_nat (unat v div 72057594037927936)"
  by (simp_all only: byte_of_word) simp_all

lemma ucast_low_byte: "(ucast ((v :: 'a::len word) AND 0xFF) :: u8) = ucast v"
proof -
  have "(0xFF :: 'a word) = mask 8" by (simp add: mask_eq_exp_minus_1)
  then have "(ucast (v AND 0xFF) :: u8) = ucast (take_bit 8 v)" by (simp only: take_bit_eq_mask)
  also have "\<dots> = ucast v" by (rule bit_word_eqI) (simp add: bit_simps)
  finally show ?thesis .
qed

lemma le_words:
  "[ucast (v16 AND 0xFF), ucast (drop_bit 8 v16 AND 0xFF)] = le 2 (unat (v16 :: u16))"
  "[ucast (v32 AND 0xFF), ucast (drop_bit 8 v32 AND 0xFF), ucast (drop_bit 16 v32 AND 0xFF),
    ucast (drop_bit 24 v32 AND 0xFF)] = le 4 (unat (v32 :: u32))"
  "map (\<lambda>i. ucast (drop_bit (8 * i) v64 AND 0xFF)) [0..<8] = le 8 (unat (v64 :: u64))"
  by (simp_all add: le_def ucast_low_byte byte_of_word_parts upt_rec)

lemma bit_le_byte: "bit (ucast (of_nat (unat (v :: 'a::len word) div 2 ^ j) :: u8) :: 'a word) k \<longleftrightarrow> k < 8 \<and> bit v (j + k)"
  using bit_imp_le_length [of v "j + k"]
  by (auto simp: bit_ucast_iff bit_byte_of_nat bit_div_pow possible_bit_word)

lemma le_word16:
  "ucast (of_nat (unat v div 2 ^ 0) :: u8) OR push_bit 8 (ucast (of_nat (unat v div 2 ^ 8) :: u8)) = (v :: u16)"
proof (rule bit_word_eqI, goal_cases)
  case (1 k)
  then show ?case unfolding bit_or_iff bit_push_bit_iff bit_le_byte by auto
qed

lemma le_word32:
  "ucast (of_nat (unat v div 2 ^ 0) :: u8) OR push_bit 8 (ucast (of_nat (unat v div 2 ^ 8) :: u8)) OR
   push_bit 16 (ucast (of_nat (unat v div 2 ^ 16) :: u8)) OR push_bit 24 (ucast (of_nat (unat v div 2 ^ 24) :: u8)) = (v :: u32)"
proof (rule bit_word_eqI, goal_cases)
  case (1 k)
  consider "k < 8" | "8 \<le> k" "k < 16" | "16 \<le> k" "k < 24" | "24 \<le> k" by linarith
  then show ?case using 1 unfolding bit_or_iff bit_push_bit_iff bit_le_byte by cases auto
qed

lemma le_inject: "x < 256 ^ n \<Longrightarrow> y < 256 ^ n \<Longrightarrow> le n x = le n y \<longleftrightarrow> x = y"
proof (induction n arbitrary: x y)
  case (Suc n)
  have s: "le (Suc n) x = of_nat x # le n (x div 256)" for x
    unfolding le_def upt_conv_Cons [OF zero_less_Suc] by (simp add: map_Suc_upt [symmetric] div_mult2_eq del: upt_Suc)
  have "(of_nat x :: u8) = of_nat y \<longleftrightarrow> x mod 256 = y mod 256"
    by (simp add: word_of_nat_eq_iff take_bit_eq_mod)
  moreover have "x div 256 = y div 256 \<longleftrightarrow> le n (x div 256) = le n (y div 256)"
    using Suc by (subst Suc.IH) (auto simp: div_less_iff_less_mult mult.commute)
  ultimately show ?case
    unfolding s by (metis div_mult_mod_eq list.inject)
qed (simp add: le_def)

subsection \<open>The contract of a field writer\<close>

text \<open>
  \<open>writes w bs\<close>: at a position inside the buffer, \<open>w\<close> stores exactly the bytes \<open>bs\<close> and moves
  the position past them, and it fails exactly when they do not fit.
\<close>

definition writes :: "(cursor \<Rightarrow> cursor option) \<Rightarrow> u8 list \<Rightarrow> bool" where
  "writes w bs \<longleftrightarrow> (\<forall>buf pos. pos \<le> length buf \<longrightarrow> w (buf, pos) =
     (if pos + length bs \<le> length buf
      then Some (take pos buf @ bs @ drop (pos + length bs) buf, pos + length bs) else None))"

lemma writes_put_bytes [intro]: "writes (put_bytes bs) bs"
  unfolding writes_def
proof (intro allI impI)
  fix buf :: "u8 list" and pos :: nat
  assume "pos \<le> length buf"
  then show "put_bytes bs (buf, pos) =
      (if pos + length bs \<le> length buf then Some (take pos buf @ bs @ drop (pos + length bs) buf, pos + length bs) else None)"
  proof (induction bs arbitrary: buf pos)
    case (Cons b bs)
    show ?case
    proof (cases "pos < length buf")
      case True
      have "take (Suc pos) (buf[pos := b]) = take pos buf @ [b]"
        using True by (simp add: take_Suc_conv_app_nth)
      moreover have "drop (Suc (pos + length bs)) (buf[pos := b]) = drop (Suc (pos + length bs)) buf"
        by (simp add: drop_update_cancel)
      ultimately show ?thesis using Cons.IH [of "Suc pos" "buf[pos := b]"] True by simp
    qed simp
  qed simp
qed

lemma writes_bind:
  assumes "writes v as" "writes w bs"
  shows "writes (\<lambda>cur. v cur \<bind> w) (as @ bs)"
  unfolding writes_def
proof (intro allI impI)
  fix buf :: "u8 list" and pos :: nat
  assume pos: "pos \<le> length buf"
  show "v (buf, pos) \<bind> w = (if pos + length (as @ bs) \<le> length buf
      then Some (take pos buf @ (as @ bs) @ drop (pos + length (as @ bs)) buf, pos + length (as @ bs)) else None)"
  proof (cases "pos + length as \<le> length buf")
    case True
    let ?buf = "take pos buf @ as @ drop (pos + length as) buf"
    have v: "v (buf, pos) = Some (?buf, pos + length as)" using assms(1) pos True by (simp add: writes_def)
    have l: "length ?buf = length buf" using True by simp
    have "drop (length as) (drop pos buf) = drop (pos + length as) buf" by (simp add: add.commute)
    then have "take (pos + length as) ?buf = take pos buf @ as"
      "drop (pos + length as + length bs) ?buf = drop (pos + length as + length bs) buf"
      using True by (simp_all add: add_ac)
    then show ?thesis
      using assms(2) [unfolded writes_def, rule_format, of "pos + length as" ?buf] True
      unfolding v l by (simp add: add.assoc)
  next
    case False
    then show ?thesis using assms(1) pos by (simp add: writes_def)
  qed
qed

lemma writes_id: "writes Some []"
  by (simp add: writes_def)

locale p9_field =
  fixes put :: "'a \<Rightarrow> cursor \<Rightarrow> cursor option" and enc :: "'a \<Rightarrow> u8 list"
  assumes put_writes: "writes (put v) (enc v)"
begin

lemma put_position: "pos \<le> length buf \<Longrightarrow> put v (buf, pos) = Some (buf', pos') \<Longrightarrow> pos' = pos + length (enc v)"
  using put_writes [of v] by (auto simp: writes_def split: if_splits)

lemma put_keeps_length: "pos \<le> length buf \<Longrightarrow> put v (buf, pos) = Some (buf', pos') \<Longrightarrow> length buf' = length buf"
  using put_writes [of v] by (auto simp: writes_def split: if_splits)

lemma put_frame:
  "pos \<le> length buf \<Longrightarrow> put v (buf, pos) = Some (buf', pos') \<Longrightarrow> i < pos \<or> pos' \<le> i \<Longrightarrow> i < length buf \<Longrightarrow>
     buf' ! i = buf ! i"
  using put_writes [of v] by (auto simp: writes_def nth_append split: if_splits)

lemma put_fails: "pos \<le> length buf \<Longrightarrow> put v (buf, pos) = None \<longleftrightarrow> length buf < pos + length (enc v)"
  using put_writes [of v] by (auto simp: writes_def)

end

locale p9_codec = p9_field put enc
  for put :: "'a \<Rightarrow> cursor \<Rightarrow> cursor option" and enc :: "'a \<Rightarrow> u8 list" +
  fixes get :: "u8 list \<Rightarrow> nat \<Rightarrow> ('a \<times> nat) option"
  assumes get_enc: "get (xs @ enc v @ ys) (length xs) = Some (v, length xs + length (enc v))"
begin

lemma get_put:
  assumes "pos \<le> length buf" "put v (buf, pos) = Some (buf', pos')"
  shows "get buf' pos = Some (v, pos')"
proof -
  have "buf' = take pos buf @ enc v @ drop (pos + length (enc v)) buf" "pos' = pos + length (enc v)"
    using put_writes [of v] assms by (auto simp: writes_def split: if_splits)
  then show ?thesis using get_enc [of "take pos buf" v] assms(1) by simp
qed

lemma enc_inject: "enc v = enc w \<longleftrightarrow> v = w"
proof
  assume "enc v = enc w"
  then have "Some (v, length (enc v)) = Some (w, length (enc v))"
    using get_enc [of "[]" v "[]"] get_enc [of "[]" w "[]"] by (simp del: option.inject)
  then show "v = w" by simp
qed simp

end

interpretation p9_u8: p9_codec p9_put_u8 "\<lambda>v. [v]" p9_get_u8
proof unfold_locales
  show "writes (p9_put_u8 v) [v]" for v unfolding p9_put_u8_def by (rule writes_put_bytes)
  show "p9_get_u8 (xs @ [v] @ ys) (length xs) = Some (v, length xs + length [v])" for xs v ys
    by (simp add: p9_get_u8_def)
qed

interpretation p9_u16: p9_codec p9_put_u16 "\<lambda>v. le 2 (unat v)" p9_get_u16
proof unfold_locales
  show "writes (p9_put_u16 v) (le 2 (unat v))" for v
    unfolding p9_put_u16_def le_words by (rule writes_put_bytes)
  show "p9_get_u16 (xs @ le 2 (unat v) @ ys) (length xs) = Some (v, length xs + length (le 2 (unat v)))" for xs v ys
    using le_word16 [of v] by (simp add: p9_get_u16_def nth_append le_def upt_rec)
qed

interpretation p9_u32: p9_codec p9_put_u32 "\<lambda>v. le 4 (unat v)" p9_get_u32
proof unfold_locales
  show "writes (p9_put_u32 v) (le 4 (unat v))" for v
    unfolding p9_put_u32_def le_words by (rule writes_put_bytes)
  show "p9_get_u32 (xs @ le 4 (unat v) @ ys) (length xs) = Some (v, length xs + length (le 4 (unat v)))" for xs v ys
    using le_word32 [of v] by (simp add: p9_get_u32_def nth_append le_def upt_rec)
qed

interpretation p9_u64: p9_field p9_put_u64 "\<lambda>v. le 8 (unat v)"
  by unfold_locales (simp add: p9_put_u64_def le_words(3) writes_put_bytes)

definition string_bytes :: "string \<Rightarrow> u8 list" where
  "string_bytes s = le 2 (p9_strlen s mod 65536) @ char_bytes s"

interpretation p9_string: p9_field p9_put_string string_bytes
proof unfold_locales
  fix s
  have "writes (\<lambda>cur. p9_put_u16 (of_nat (p9_strlen s)) cur \<bind> put_bytes (char_bytes s))
      (le 2 (unat (of_nat (p9_strlen s) :: u16)) @ char_bytes s)"
    by (rule writes_bind [OF p9_u16.put_writes writes_put_bytes])
  moreover have "unat (of_nat (p9_strlen s) :: u16) = p9_strlen s mod 65536"
    by (simp add: unsigned_of_nat take_bit_eq_mod)
  ultimately show "writes (p9_put_string s) (string_bytes s)"
    by (simp add: p9_put_string_def [abs_def] string_bytes_def)
qed

subsection \<open>The wire format\<close>

datatype tmsg =
    Tversion u32 string
  | Tattach u32 u32 string string u32
  | Twalk u32 u32 "string list" u16
  | Topen u32 u8
  | Tread u32 u64 u32
  | Tclunk u32
  | Twrite u32 u64 "u8 list" u32
  | Tcreate u32 string u32 u8

primrec tmsg_type :: "tmsg \<Rightarrow> u8" where
  "tmsg_type (Tversion msize version) = P9_TVERSION"
| "tmsg_type (Tattach fid afid uname aname n_uname) = P9_TATTACH"
| "tmsg_type (Twalk fid newfid wnames nwname) = P9_TWALK"
| "tmsg_type (Topen fid mode) = P9_TOPEN"
| "tmsg_type (Tread fid offset count) = P9_TREAD"
| "tmsg_type (Tclunk fid) = P9_TCLUNK"
| "tmsg_type (Twrite fid offset data count) = P9_TWRITE"
| "tmsg_type (Tcreate fid name perm mode) = P9_TCREATE"

primrec tmsg_body :: "tmsg \<Rightarrow> u8 list" where
  "tmsg_body (Tversion msize version) = le 4 (unat msize) @ string_bytes version"
| "tmsg_body (Tattach fid afid uname aname n_uname) =
     le 4 (unat fid) @ le 4 (unat afid) @ string_bytes uname @ string_bytes aname @ le 4 (unat n_uname)"
| "tmsg_body (Twalk fid newfid wnames nwname) =
     le 4 (unat fid) @ le 4 (unat newfid) @ le 2 (unat nwname) @ concat (map string_bytes (take (unat nwname) wnames))"
| "tmsg_body (Topen fid mode) = le 4 (unat fid) @ [mode]"
| "tmsg_body (Tread fid offset count) = le 4 (unat fid) @ le 8 (unat offset) @ le 4 (unat count)"
| "tmsg_body (Tclunk fid) = le 4 (unat fid)"
| "tmsg_body (Twrite fid offset data count) =
     le 4 (unat fid) @ le 8 (unat offset) @ le 4 (unat count) @ take (unat count) data"
| "tmsg_body (Tcreate fid name perm mode) =
     le 4 (unat fid) @ string_bytes name @ le 4 (unat perm) @ [mode] @ string_bytes []"

definition message_bytes :: "u8 \<Rightarrow> u16 \<Rightarrow> u8 list \<Rightarrow> u8 list" where
  "message_bytes ty tag body = le 4 (7 + length body) @ [ty] @ le 2 (unat tag) @ body"

definition tmsg_bytes :: "u16 \<Rightarrow> tmsg \<Rightarrow> u8 list" where
  "tmsg_bytes tag m = message_bytes (tmsg_type m) tag (tmsg_body m)"

text \<open>
  The arguments a caller may pass: the counted arrays hold what is counted, and a name fits
  its 16-bit length field.
\<close>

primrec tmsg_ok :: "tmsg \<Rightarrow> bool" where
  "tmsg_ok (Tversion msize version) \<longleftrightarrow> p9_strlen version < 65536"
| "tmsg_ok (Tattach fid afid uname aname n_uname) \<longleftrightarrow> p9_strlen uname < 65536 \<and> p9_strlen aname < 65536"
| "tmsg_ok (Twalk fid newfid wnames nwname) \<longleftrightarrow>
     unat nwname \<le> length wnames \<and> list_all (\<lambda>s. p9_strlen s < 65536) wnames"
| "tmsg_ok (Topen fid mode) \<longleftrightarrow> True"
| "tmsg_ok (Tread fid offset count) \<longleftrightarrow> True"
| "tmsg_ok (Tclunk fid) \<longleftrightarrow> True"
| "tmsg_ok (Twrite fid offset data count) \<longleftrightarrow> unat count \<le> length data"
| "tmsg_ok (Tcreate fid name perm mode) \<longleftrightarrow> p9_strlen name < 65536"

text \<open>The builder each request goes through.\<close>

primrec os_p9_build :: "u8 list \<Rightarrow> u16 \<Rightarrow> tmsg \<Rightarrow> cursor option" where
  "os_p9_build buf tag (Tversion msize version) = os_p9_build_tversion buf tag msize version"
| "os_p9_build buf tag (Tattach fid afid uname aname n_uname) =
     os_p9_build_tattach buf tag fid afid uname aname n_uname"
| "os_p9_build buf tag (Twalk fid newfid wnames nwname) = os_p9_build_twalk buf tag fid newfid wnames nwname"
| "os_p9_build buf tag (Topen fid mode) = os_p9_build_topen buf tag fid mode"
| "os_p9_build buf tag (Tread fid offset count) = os_p9_build_tread buf tag fid offset count"
| "os_p9_build buf tag (Tclunk fid) = os_p9_build_tclunk buf tag fid"
| "os_p9_build buf tag (Twrite fid offset data count) = os_p9_build_twrite buf tag fid offset data count"
| "os_p9_build buf tag (Tcreate fid name perm mode) = os_p9_build_tcreate buf tag fid name perm mode"

lemma writes_at:
  assumes "writes w bs" "pos + length bs \<le> length buf"
  shows "w (buf, pos) = Some (take pos buf @ bs @ drop (pos + length bs) buf, pos + length bs)"
  using assms by (simp add: writes_def)

lemma writes_fail: "writes w bs \<Longrightarrow> pos \<le> length buf \<Longrightarrow> length buf < pos + length bs \<Longrightarrow> w (buf, pos) = None"
  by (simp add: writes_def)

lemma writes_header:
  "writes (\<lambda>cur. p9_put_u32 n cur \<bind> (\<lambda>cur. p9_put_u8 ty cur \<bind> p9_put_u16 tag))
     (le 4 (unat n) @ [ty] @ le 2 (unat tag))"
  by (intro writes_bind p9_u32.put_writes p9_u8.put_writes p9_u16.put_writes)

lemma p9_write_header_eq:
  assumes "7 \<le> length buf"
  shows "p9_write_header buf n ty tag = Some (le 4 (unat n) @ [ty] @ le 2 (unat tag) @ drop 7 buf)"
  using writes_at [OF writes_header, of 0 n ty tag buf] assms
  by (simp add: p9_write_header_def bind_eq_Some_conv split: bind_splits) (auto simp: bind_eq_Some_conv)

text \<open>The lemma every builder reduces to: a body that writes \<open>bs\<close>, then the header over the gap.\<close>

lemma build_exact:
  assumes "writes body bs" "7 \<le> length buf" "length buf < 4294967296"
  shows "body (buf, P9_HEADER_SIZE) \<bind> p9_finish ty tag =
    (if 7 + length bs \<le> length buf
     then Some (message_bytes ty tag bs @ drop (7 + length bs) buf, 7 + length bs) else None)"
proof (cases "7 + length bs \<le> length buf")
  case True
  have b: "body (buf, P9_HEADER_SIZE) = Some (take 7 buf @ bs @ drop (7 + length bs) buf, 7 + length bs)"
    using writes_at [OF assms(1) True] by (simp add: P9_HEADER_SIZE_def)
  have n: "unat (of_nat (7 + length bs) :: u32) = 7 + length bs"
    using True assms(3) by (simp add: unsigned_of_nat take_bit_nat_eq_self del: of_nat_add)
  show ?thesis
    using True unfolding b p9_finish_def
    by (simp add: p9_write_header_eq message_bytes_def n [simplified])
next
  case False
  then show ?thesis
    using writes_fail [OF assms(1,2)] by (simp add: P9_HEADER_SIZE_def)
qed

lemma put_strings_writes: "writes (p9_put_strings ss) (concat (map string_bytes ss))"
proof (induction ss)
  case Nil
  then show ?case by (simp add: writes_def)
next
  case (Cons s ss)
  then show ?case
    using writes_bind [OF p9_string.put_writes [of s] Cons] by (simp add: fun_eq_iff)
qed

lemmas field_writes = p9_u8.put_writes p9_u16.put_writes p9_u32.put_writes p9_u64.put_writes
  p9_string.put_writes put_strings_writes writes_put_bytes

text \<open>The fields of a request as one writer, and the writer's contract.\<close>

primrec tmsg_writer :: "tmsg \<Rightarrow> cursor \<Rightarrow> cursor option" where
  "tmsg_writer (Tversion msize version) = (\<lambda>cur. p9_put_u32 msize cur \<bind> p9_put_string version)"
| "tmsg_writer (Tattach fid afid uname aname n_uname) =
     (\<lambda>cur. p9_put_u32 fid cur \<bind> (\<lambda>cur. p9_put_u32 afid cur \<bind> (\<lambda>cur. p9_put_string uname cur \<bind>
        (\<lambda>cur. p9_put_string aname cur \<bind> p9_put_u32 n_uname))))"
| "tmsg_writer (Twalk fid newfid wnames nwname) =
     (\<lambda>cur. p9_put_u32 fid cur \<bind> (\<lambda>cur. p9_put_u32 newfid cur \<bind> (\<lambda>cur. p9_put_u16 nwname cur \<bind>
        p9_put_strings (take (unat nwname) wnames))))"
| "tmsg_writer (Topen fid mode) = (\<lambda>cur. p9_put_u32 fid cur \<bind> p9_put_u8 mode)"
| "tmsg_writer (Tread fid offset count) =
     (\<lambda>cur. p9_put_u32 fid cur \<bind> (\<lambda>cur. p9_put_u64 offset cur \<bind> p9_put_u32 count))"
| "tmsg_writer (Tclunk fid) = p9_put_u32 fid"
| "tmsg_writer (Twrite fid offset data count) =
     (\<lambda>cur. p9_put_u32 fid cur \<bind> (\<lambda>cur. p9_put_u64 offset cur \<bind> (\<lambda>cur. p9_put_u32 count cur \<bind>
        put_bytes (take (unat count) data))))"
| "tmsg_writer (Tcreate fid name perm mode) =
     (\<lambda>cur. p9_put_u32 fid cur \<bind> (\<lambda>cur. p9_put_string name cur \<bind> (\<lambda>cur. p9_put_u32 perm cur \<bind>
        (\<lambda>cur. p9_put_u8 mode cur \<bind> p9_put_string []))))"

lemma tmsg_writer_writes: "writes (tmsg_writer m) (tmsg_body m)"
  by (cases m) (simp_all only: tmsg_writer.simps tmsg_body.simps writes_bind field_writes)

lemma build_writer:
  "tmsg_ok m \<Longrightarrow> os_p9_build buf tag m = tmsg_writer m (buf, P9_HEADER_SIZE) \<bind> p9_finish (tmsg_type m) tag"
  by (cases m) (simp_all add: os_p9_build_tversion_def os_p9_build_tattach_def os_p9_build_twalk_def
    os_p9_build_topen_def os_p9_build_tread_def os_p9_build_tclunk_def os_p9_build_twrite_def os_p9_build_tcreate_def)

subsection \<open>The bytes of a field determine it\<close>

lemma unat_lt16: "unat (x :: u16) < 65536"
  using unsigned_less [of x] by simp

lemma unat_lt32: "unat (x :: u32) < 4294967296"
  using unsigned_less [of x] by simp

lemma le_word_app:
  "le 2 (unat (a :: u16)) @ x = le 2 (unat b) @ y \<longleftrightarrow> a = b \<and> x = y"
  "le 4 (unat (c :: u32)) @ x = le 4 (unat d) @ y \<longleftrightarrow> c = d \<and> x = y"
  "le 8 (unat (e :: u64)) @ x = le 8 (unat f) @ y \<longleftrightarrow> e = f \<and> x = y"
  by (simp_all add: le_inject word_unat_eq_iff unat_lt16 unat_lt32 unat_lt64)

lemma char_bytes_inject: "char_bytes s = char_bytes t \<longleftrightarrow> cstr s = cstr t"
proof -
  have "inj (of_nat \<circ> of_char :: char \<Rightarrow> u8)"
  proof (rule injI)
    fix c d :: char
    assume "(of_nat \<circ> of_char) c = ((of_nat \<circ> of_char) d :: u8)"
    then have "of_char c mod 256 = (of_char d mod 256 :: nat)"
      by (simp add: word_of_nat_eq_iff take_bit_eq_mod)
    then show "c = d" by (simp add: of_char_mod_256)
  qed
  then show ?thesis by (simp add: char_bytes_def inj_map_eq_map)
qed

lemma length_char_bytes [simp]: "length (char_bytes s) = p9_strlen s"
  by (simp add: char_bytes_def p9_strlen_def)

lemma string_bytes_app:
  assumes "p9_strlen s < 65536" "p9_strlen t < 65536"
  shows "string_bytes s @ x = string_bytes t @ y \<longleftrightarrow> cstr s = cstr t \<and> x = y"
proof -
  have "le 2 (p9_strlen s) = le 2 (p9_strlen t) \<longleftrightarrow> p9_strlen s = p9_strlen t"
    using assms by (simp add: le_inject)
  then show ?thesis
    using assms char_bytes_inject [of s t] by (auto simp: string_bytes_def p9_strlen_def)
qed

lemma strings_bytes_inject:
  "length ss = length ts \<Longrightarrow> list_all (\<lambda>s. p9_strlen s < 65536) ss \<Longrightarrow> list_all (\<lambda>s. p9_strlen s < 65536) ts \<Longrightarrow>
     concat (map string_bytes ss) = concat (map string_bytes ts) \<longleftrightarrow> map cstr ss = map cstr ts"
  by (induction ss ts rule: list_induct2) (simp_all add: string_bytes_app)

lemma build_tmsg:
  assumes "tmsg_ok m" "7 \<le> length buf" "length buf < 4294967296"
  shows "os_p9_build buf tag m =
    (if length (tmsg_bytes tag m) \<le> length buf
     then Some (tmsg_bytes tag m @ drop (length (tmsg_bytes tag m)) buf, length (tmsg_bytes tag m)) else None)"
proof -
  have "length (message_bytes (tmsg_type m) tag (tmsg_body m)) = 7 + length (tmsg_body m)"
    by (simp add: message_bytes_def)
  then show ?thesis
    using build_exact [OF tmsg_writer_writes assms(2,3), of m "tmsg_type m" tag] build_writer [OF assms(1)]
    by (simp add: tmsg_bytes_def)
qed

subsection \<open>Properties of the codec\<close>

text \<open>
  C13. Every builder fills a buffer with exactly the bytes of its 9P2000.u request (the size
  field counts the whole message), returns that length and leaves the rest of the buffer as
  it was; it writes outside exactly when the message does not fit.
\<close>

theorem build_message_exact:
  assumes "tmsg_ok m" "7 \<le> length buf" "length buf < 4294967296"
  shows "os_p9_build buf tag m =
    (if length (tmsg_bytes tag m) \<le> length buf
     then Some (tmsg_bytes tag m @ drop (length (tmsg_bytes tag m)) buf, length (tmsg_bytes tag m)) else None) \<and>
    take 4 (tmsg_bytes tag m) = le 4 (length (tmsg_bytes tag m))"
  using build_tmsg [OF assms] by (simp add: tmsg_bytes_def) (simp add: message_bytes_def)

theorem build_message_exact_witness:
  "os_p9_build (replicate 12 7) 9 (Topen 258 1) = Some ([12, 0, 0, 0, 112, 9, 0, 2, 1, 0, 0, 1], 12) \<and>
   os_p9_build (replicate 11 7) 9 (Topen 258 1) = None"
proof -
  have "tmsg_bytes 9 (Topen 258 1) = [12, 0, 0, 0, 112, 9, 0, 2, 1, 0, 0, 1]"
    by (simp add: tmsg_bytes_def message_bytes_def le_def upt_rec p9_types)
  then show ?thesis
    using build_message_exact [of "Topen 258 1" "replicate 12 7" 9] build_message_exact [of "Topen 258 1" "replicate 11 7" 9]
    by simp
qed

text \<open>What a builder reads of its arguments: a name up to its NUL, an array up to its count.\<close>

primrec tmsg_sent :: "tmsg \<Rightarrow> tmsg" where
  "tmsg_sent (Tversion msize version) = Tversion msize (cstr version)"
| "tmsg_sent (Tattach fid afid uname aname n_uname) = Tattach fid afid (cstr uname) (cstr aname) n_uname"
| "tmsg_sent (Twalk fid newfid wnames nwname) = Twalk fid newfid (map cstr (take (unat nwname) wnames)) nwname"
| "tmsg_sent (Topen fid mode) = Topen fid mode"
| "tmsg_sent (Tread fid offset count) = Tread fid offset count"
| "tmsg_sent (Tclunk fid) = Tclunk fid"
| "tmsg_sent (Twrite fid offset data count) = Twrite fid offset (take (unat count) data) count"
| "tmsg_sent (Tcreate fid name perm mode) = Tcreate fid (cstr name) perm mode"

text \<open>
  The requests are unambiguous: two messages with the same bytes have the same tag, the
  same type and the same fields, up to what follows the NUL of a name or the count of an array.
\<close>

theorem tmsg_bytes_unambiguous:
  assumes "tmsg_ok m" "tmsg_ok m'" "length (tmsg_bytes tag m) < 4294967296" "length (tmsg_bytes tag' m') < 4294967296"
    "tmsg_bytes tag m = tmsg_bytes tag' m'"
  shows "tag = tag' \<and> tmsg_sent m = tmsg_sent m'"
proof -
  have eq: "le 4 (7 + length (tmsg_body m)) = le 4 (7 + length (tmsg_body m'))"
    "tmsg_type m = tmsg_type m'" "tag = tag'" "tmsg_body m = tmsg_body m'"
    using assms(5) by (auto simp: tmsg_bytes_def message_bytes_def le_word_app)
  have s: "string_bytes s @ [] = string_bytes t @ [] \<longleftrightarrow> cstr s = cstr t"
    if "p9_strlen s < 65536" "p9_strlen t < 65536" for s t
    using string_bytes_app [OF that, of "[]" "[]"] by simp
  show ?thesis
    using eq(2,3,4) assms(1,2) s
    by (cases m; cases m') (auto simp: p9_types le_word_app p9_u32.enc_inject string_bytes_app strings_bytes_inject list_all_take)
qed

subsection \<open>Replies\<close>

datatype rmsg =
    Rversion u32 string
  | Rattach "u8 list"
  | Rwalk "u8 list list"
  | Ropen "u8 list" u32
  | Rcreate "u8 list" u32
  | Rread "u8 list"
  | Rwrite u32
  | Rclunk
  | Rerror string u32

primrec rmsg_type :: "rmsg \<Rightarrow> u8" where
  "rmsg_type (Rversion msize version) = P9_RVERSION"
| "rmsg_type (Rattach qid) = P9_RATTACH"
| "rmsg_type (Rwalk qids) = P9_RWALK"
| "rmsg_type (Ropen qid iounit) = P9_ROPEN"
| "rmsg_type (Rcreate qid iounit) = P9_RCREATE"
| "rmsg_type (Rread data) = P9_RREAD"
| "rmsg_type (Rwrite count) = P9_RWRITE"
| "rmsg_type Rclunk = P9_RCLUNK"
| "rmsg_type (Rerror ename errno) = P9_RERROR"

primrec rmsg_body :: "rmsg \<Rightarrow> u8 list" where
  "rmsg_body (Rversion msize version) = le 4 (unat msize) @ string_bytes version"
| "rmsg_body (Rattach qid) = qid"
| "rmsg_body (Rwalk qids) = le 2 (length qids) @ concat qids"
| "rmsg_body (Ropen qid iounit) = qid @ le 4 (unat iounit)"
| "rmsg_body (Rcreate qid iounit) = qid @ le 4 (unat iounit)"
| "rmsg_body (Rread data) = le 4 (length data) @ data"
| "rmsg_body (Rwrite count) = le 4 (unat count)"
| "rmsg_body Rclunk = []"
| "rmsg_body (Rerror ename errno) = string_bytes ename @ le 4 (unat errno)"

primrec rmsg_ok :: "rmsg \<Rightarrow> bool" where
  "rmsg_ok (Rversion msize version) \<longleftrightarrow> p9_strlen version < 65536"
| "rmsg_ok (Rattach qid) \<longleftrightarrow> length qid = P9_QID_SIZE"
| "rmsg_ok (Rwalk qids) \<longleftrightarrow> length qids < 65536 \<and> list_all (\<lambda>q. length q = P9_QID_SIZE) qids"
| "rmsg_ok (Ropen qid iounit) \<longleftrightarrow> length qid = P9_QID_SIZE"
| "rmsg_ok (Rcreate qid iounit) \<longleftrightarrow> length qid = P9_QID_SIZE"
| "rmsg_ok (Rread data) \<longleftrightarrow> True"
| "rmsg_ok (Rwrite count) \<longleftrightarrow> True"
| "rmsg_ok Rclunk \<longleftrightarrow> True"
| "rmsg_ok (Rerror ename errno) \<longleftrightarrow> p9_strlen ename < 65536"

definition rmsg_bytes :: "u16 \<Rightarrow> rmsg \<Rightarrow> u8 list" where
  "rmsg_bytes tag m = message_bytes (rmsg_type m) tag (rmsg_body m)"

text \<open>What a parser sees of a received message: its type byte and its body.\<close>

lemma expect_reply:
  assumes "buf = message_bytes ty' tag body @ stale" "7 + length body < 4294967296" "required < 4294967296"
  shows "p9_expect ty required buf (of_nat (7 + length body)) rest =
    (if ty' = ty \<and> required \<le> 7 + length body then rest else Some Rejected)"
proof -
  have "(of_nat required :: u32) \<le> of_nat (7 + length body) \<longleftrightarrow> required \<le> 7 + length body"
    using assms(2,3) by (simp add: word_le_nat_alt unsigned_of_nat take_bit_nat_eq_self del: of_nat_add)
  moreover have "p9_get_u8 buf 4 = Some (ty', 5)"
    using p9_u8.get_enc [of "le 4 (7 + length body)" ty' "le 2 (unat tag) @ body @ stale"]
    by (simp add: assms(1) message_bytes_def)
  ultimately show ?thesis by (simp add: p9_expect_def p9_check_min_len_def)
qed

lemma reply_word:
  assumes "buf = message_bytes ty tag body @ stale"
  shows "body = le 2 (unat (w16 :: u16)) @ rest \<Longrightarrow> p9_get_u16 buf P9_HEADER_SIZE = Some (w16, 9)"
    "body = le 4 (unat (w32 :: u32)) @ rest \<Longrightarrow> p9_get_u32 buf P9_HEADER_SIZE = Some (w32, 11)"
  using p9_u16.get_enc [of "le 4 (7 + length body) @ [ty] @ le 2 (unat tag)" w16 "rest @ stale"]
    p9_u32.get_enc [of "le 4 (7 + length body) @ [ty] @ le 2 (unat tag)" w32 "rest @ stale"]
  by (simp_all add: assms message_bytes_def P9_HEADER_SIZE_def)

text \<open>A string field keeps at most \<open>cap - 1\<close> characters.\<close>

lemma get_string_bytes:
  assumes "p9_strlen s < 65536" "cap \<noteq> 0"
  shows "p9_get_string (xs @ string_bytes s @ ys) (length xs) (Some cap) =
    Some (take (unat cap - 1) (cstr s), length xs + 2 + p9_strlen s)"
proof -
  let ?buf = "xs @ string_bytes s @ ys" and ?n = "of_nat (p9_strlen s) :: u16"
  have u: "unat ?n = p9_strlen s" using assms(1) by (simp add: unsigned_of_nat take_bit_nat_eq_self)
  have g: "p9_get_u16 ?buf (length xs) = Some (?n, length xs + 2)"
    using p9_u16.get_enc [of xs ?n "char_bytes s @ ys"] assms(1) by (simp add: string_bytes_def u)
  have c: "unat (cap - 1) = unat cap - 1" "0 < unat cap"
    using assms(2) by (simp_all add: unat_minus_one unat_gt_0)
  have id: "char_of (unat (of_nat (of_char c) :: u8)) = c" for c :: char
    by (simp add: unsigned_of_nat take_bit_eq_mod of_char_mod_256)
  have d: "drop 2 (string_bytes s) = char_bytes s" by (simp add: string_bytes_def)
  have l: "length (string_bytes s) = 2 + p9_strlen s" "length (cstr s) = p9_strlen s"
    by (simp_all add: string_bytes_def p9_strlen_def)
  have t: "map (char_of \<circ> unat) (take k (char_bytes s)) = take k (cstr s)" for k
    by (simp add: char_bytes_def take_map id comp_def)
  have a: "map (char_of \<circ> unat) (char_bytes s) = cstr s"
    by (simp add: char_bytes_def id comp_def)
  show ?thesis
    unfolding p9_get_string_def g using c
    by (auto simp: u d t l a min_def Let_def simp del: add_2_eq_Suc')
qed

definition received :: "rmsg \<Rightarrow> u8 list \<Rightarrow> u32 \<Rightarrow> bool" where
  "received m buf len \<longleftrightarrow> rmsg_ok m \<and>
     (\<exists>tag stale. buf = rmsg_bytes tag m @ stale \<and> len = of_nat (length (rmsg_bytes tag m)) \<and>
        length (rmsg_bytes tag m) < 4294967296)"

lemma received_expect:
  assumes "received m buf len" "required < 4294967296"
  shows "p9_expect ty required buf len rest =
    (if rmsg_type m = ty \<and> required \<le> 7 + length (rmsg_body m) then rest else Some Rejected)"
proof -
  obtain tag stale where r: "buf = message_bytes (rmsg_type m) tag (rmsg_body m) @ stale"
    "len = of_nat (length (rmsg_bytes tag m))" "length (rmsg_bytes tag m) < 4294967296"
    using assms(1) by (auto simp: received_def rmsg_bytes_def)
  have l: "length (rmsg_bytes tag m) = 7 + length (rmsg_body m)" by (simp add: rmsg_bytes_def message_bytes_def)
  show ?thesis using expect_reply [OF r(1) _ assms(2)] r(2,3) unfolding l by blast
qed

lemma received_word:
  assumes "received m buf len"
  shows "rmsg_body m = le 2 (unat (w16 :: u16)) @ rest \<Longrightarrow> p9_get_u16 buf P9_HEADER_SIZE = Some (w16, 9)"
    "rmsg_body m = le 4 (unat (w32 :: u32)) @ rest \<Longrightarrow> p9_get_u32 buf P9_HEADER_SIZE = Some (w32, 11)"
proof -
  obtain tag stale where buf: "buf = message_bytes (rmsg_type m) tag (rmsg_body m) @ stale"
    using assms by (auto simp: received_def rmsg_bytes_def)
  show "rmsg_body m = le 2 (unat w16) @ rest \<Longrightarrow> p9_get_u16 buf P9_HEADER_SIZE = Some (w16, 9)"
    by (rule reply_word(1) [OF buf])
  show "rmsg_body m = le 4 (unat w32) @ rest \<Longrightarrow> p9_get_u32 buf P9_HEADER_SIZE = Some (w32, 11)"
    by (rule reply_word(2) [OF buf])
qed

lemma received_length:
  "received m buf len \<Longrightarrow> len = of_nat (7 + length (rmsg_body m)) \<and> 7 + length (rmsg_body m) < 4294967296"
  by (auto simp: received_def rmsg_bytes_def message_bytes_def)

lemma unat_of_small: "x < 65536 \<Longrightarrow> unat (of_nat x :: u16) = x" "y < 4294967296 \<Longrightarrow> unat (of_nat y :: u32) = y"
  by (simp_all add: unsigned_of_nat take_bit_nat_eq_self)

lemmas parser_defs = os_p9_parse_rversion_def os_p9_parse_rattach_def os_p9_parse_rwalk_def os_p9_parse_ropen_def
  os_p9_parse_rcreate_def os_p9_parse_rread_def os_p9_parse_rwrite_def os_p9_parse_rclunk_def os_p9_check_error_def

lemma parse_received:
  assumes r: "received m buf len"
  shows "os_p9_parse_rattach buf len = Some (case m of Rattach _ \<Rightarrow> Parsed () | _ \<Rightarrow> Rejected)"
    and "os_p9_parse_rwalk buf len = Some (case m of Rwalk qids \<Rightarrow> Parsed (of_nat (length qids)) | _ \<Rightarrow> Rejected)"
    and "os_p9_parse_ropen buf len = Some (case m of Ropen _ _ \<Rightarrow> Parsed () | _ \<Rightarrow> Rejected)"
    and "os_p9_parse_rcreate buf len = Some (case m of Rcreate _ _ \<Rightarrow> Parsed () | _ \<Rightarrow> Rejected)"
    and "os_p9_parse_rread buf len = Some (case m of Rread data \<Rightarrow> Parsed (11, of_nat (length data)) | _ \<Rightarrow> Rejected)"
    and "os_p9_parse_rwrite buf len = Some (case m of Rwrite count \<Rightarrow> Parsed count | _ \<Rightarrow> Rejected)"
    and "os_p9_parse_rclunk buf len = Some (case m of Rclunk \<Rightarrow> Parsed () | _ \<Rightarrow> Rejected)"
proof -
  have ok: "rmsg_ok m" using r by (simp add: received_def)
  have len: "len = of_nat (7 + length (rmsg_body m))" "7 + length (rmsg_body m) < 4294967296"
    using received_length [OF r] by simp_all
  note facts = received_expect [OF r] P9_HEADER_SIZE_def P9_QID_SIZE_def p9_types
  show "os_p9_parse_rattach buf len = Some (case m of Rattach _ \<Rightarrow> Parsed () | _ \<Rightarrow> Rejected)"
    "os_p9_parse_ropen buf len = Some (case m of Ropen _ _ \<Rightarrow> Parsed () | _ \<Rightarrow> Rejected)"
    "os_p9_parse_rcreate buf len = Some (case m of Rcreate _ _ \<Rightarrow> Parsed () | _ \<Rightarrow> Rejected)"
    "os_p9_parse_rclunk buf len = Some (case m of Rclunk \<Rightarrow> Parsed () | _ \<Rightarrow> Rejected)"
    using ok by (cases m; simp add: parser_defs facts)+
  show "os_p9_parse_rwalk buf len = Some (case m of Rwalk qids \<Rightarrow> Parsed (of_nat (length qids)) | _ \<Rightarrow> Rejected)"
    using ok received_word(1) [OF r, of "of_nat (length (case m of Rwalk qids \<Rightarrow> qids | _ \<Rightarrow> []))" "drop 2 (rmsg_body m)"]
    by (cases m) (simp_all add: parser_defs facts unat_of_small)
  show "os_p9_parse_rwrite buf len = Some (case m of Rwrite count \<Rightarrow> Parsed count | _ \<Rightarrow> Rejected)"
    using received_word(2) [OF r, of "case m of Rwrite count \<Rightarrow> count | _ \<Rightarrow> 0" "[]"]
    by (cases m) (simp_all add: parser_defs facts)
  show "os_p9_parse_rread buf len = Some (case m of Rread data \<Rightarrow> Parsed (11, of_nat (length data)) | _ \<Rightarrow> Rejected)"
  proof (cases m)
    case (Rread data)
    then have n: "length data < 4294967296" "len = 11 + of_nat (length data)" using len by simp_all
    have "p9_get_u32 buf P9_HEADER_SIZE = Some (of_nat (length data), 11)"
      using received_word(2) [OF r, of "of_nat (length data)" data] n(1) Rread by (simp add: unat_of_small)
    moreover have "p9_check_min_len len (of_nat (P9_HEADER_SIZE + 4) + of_nat (length data))"
      by (simp add: n(2) p9_check_min_len_def P9_HEADER_SIZE_def)
    ultimately show ?thesis using Rread by (simp add: parser_defs facts)
  qed (simp_all add: parser_defs facts)
qed

lemma received_string:
  assumes "received m buf len" "rmsg_body m = xs @ string_bytes s @ ys" "p9_strlen s < 65536" "cap \<noteq> 0"
  shows "p9_get_string buf (7 + length xs) (Some cap) = Some (take (unat cap - 1) (cstr s), 9 + length xs + p9_strlen s)"
proof -
  obtain tag stale where "buf = message_bytes (rmsg_type m) tag (rmsg_body m) @ stale"
    using assms(1) by (auto simp: received_def rmsg_bytes_def)
  then show ?thesis
    using get_string_bytes [OF assms(3,4), of "le 4 (7 + length (rmsg_body m)) @ [rmsg_type m] @ le 2 (unat tag) @ xs" "ys @ stale"]
    by (simp add: message_bytes_def assms(2))
qed

lemma parse_received_strings:
  assumes r: "received m buf len" and cap: "cap \<noteq> 0"
  shows "os_p9_parse_rversion buf len cap =
      Some (case m of Rversion msize version \<Rightarrow> Parsed (msize, take (unat cap - 1) (cstr version)) | _ \<Rightarrow> Rejected)"
    and "os_p9_check_error buf len cap =
      Some (case m of Rerror ename _ \<Rightarrow> Parsed (take (unat cap - 1) (cstr ename)) | _ \<Rightarrow> Rejected)"
proof -
  have ok: "rmsg_ok m" using r by (simp add: received_def)
  note facts = received_expect [OF r] P9_HEADER_SIZE_def p9_types
  show "os_p9_parse_rversion buf len cap =
      Some (case m of Rversion msize version \<Rightarrow> Parsed (msize, take (unat cap - 1) (cstr version)) | _ \<Rightarrow> Rejected)"
  proof (cases m)
    case (Rversion msize version)
    then show ?thesis
      using ok received_word(2) [OF r, of msize "string_bytes version"]
        received_string [OF r _ _ cap, of "le 4 (unat msize)" version "[]"]
      by (simp add: parser_defs facts string_bytes_def)
  qed (simp_all add: parser_defs facts)
  show "os_p9_check_error buf len cap =
      Some (case m of Rerror ename _ \<Rightarrow> Parsed (take (unat cap - 1) (cstr ename)) | _ \<Rightarrow> Rejected)"
  proof (cases m)
    case (Rerror ename errno)
    then show ?thesis
      using ok received_string [OF r _ _ cap, of "[]" ename "le 4 (unat errno)"]
      by (simp add: parser_defs facts string_bytes_def)
  qed (simp_all add: parser_defs facts)
qed

text \<open>
  C14. Each parser accepts a received reply of its own type with the fields the reply carries
  (a name cut to the caller's buffer), rejects every other reply, and whatever the receive
  buffer holds after the message does not matter.
\<close>

theorem parse_replies:
  assumes "rmsg_ok m" "length (rmsg_bytes tag m) < 4294967296" "cap \<noteq> 0"
  shows "let buf = rmsg_bytes tag m @ stale; len = of_nat (length (rmsg_bytes tag m)) in
    os_p9_parse_rversion buf len cap =
      Some (case m of Rversion msize version \<Rightarrow> Parsed (msize, take (unat cap - 1) (cstr version)) | _ \<Rightarrow> Rejected) \<and>
    os_p9_parse_rattach buf len = Some (case m of Rattach _ \<Rightarrow> Parsed () | _ \<Rightarrow> Rejected) \<and>
    os_p9_parse_rwalk buf len = Some (case m of Rwalk qids \<Rightarrow> Parsed (of_nat (length qids)) | _ \<Rightarrow> Rejected) \<and>
    os_p9_parse_ropen buf len = Some (case m of Ropen _ _ \<Rightarrow> Parsed () | _ \<Rightarrow> Rejected) \<and>
    os_p9_parse_rcreate buf len = Some (case m of Rcreate _ _ \<Rightarrow> Parsed () | _ \<Rightarrow> Rejected) \<and>
    os_p9_parse_rread buf len = Some (case m of Rread data \<Rightarrow> Parsed (11, of_nat (length data)) | _ \<Rightarrow> Rejected) \<and>
    os_p9_parse_rwrite buf len = Some (case m of Rwrite count \<Rightarrow> Parsed count | _ \<Rightarrow> Rejected) \<and>
    os_p9_parse_rclunk buf len = Some (case m of Rclunk \<Rightarrow> Parsed () | _ \<Rightarrow> Rejected) \<and>
    os_p9_check_error buf len cap =
      Some (case m of Rerror ename _ \<Rightarrow> Parsed (take (unat cap - 1) (cstr ename)) | _ \<Rightarrow> Rejected)"
proof -
  have r: "received m (rmsg_bytes tag m @ stale) (of_nat (length (rmsg_bytes tag m)))"
    unfolding received_def using assms(1,2) by blast
  show ?thesis
    unfolding Let_def
    by (intro conjI parse_received [OF r] parse_received_strings [OF r assms(3)])
qed

theorem parse_replies_witness:
  "\<forall>stale. os_p9_parse_rread ([13, 0, 0, 0, 117, 0, 0, 2, 0, 0, 0, 65, 66] @ stale) 13 = Some (Parsed (11, 2)) \<and>
     os_p9_check_error ([13, 0, 0, 0, 117, 0, 0, 2, 0, 0, 0, 65, 66] @ stale) 13 128 = Some Rejected"
proof
  fix stale
  have "rmsg_bytes 0 (Rread [65, 66]) = [13, 0, 0, 0, 117, 0, 0, 2, 0, 0, 0, 65, 66]"
    by (simp add: rmsg_bytes_def message_bytes_def le_def upt_rec p9_types)
  then show "os_p9_parse_rread ([13, 0, 0, 0, 117, 0, 0, 2, 0, 0, 0, 65, 66] @ stale) 13 = Some (Parsed (11, 2)) \<and>
     os_p9_check_error ([13, 0, 0, 0, 117, 0, 0, 2, 0, 0, 0, 65, 66] @ stale) 13 128 = Some Rejected"
    using parse_replies [of "Rread [65, 66]" 0 128 stale] by (simp add: Let_def)
qed

subsection \<open>Hostile replies\<close>

lemma expect_total:
  assumes "unat len \<le> length buf" "7 \<le> required" "required < 4294967296"
    "required \<le> length buf \<Longrightarrow> rest \<noteq> None"
  shows "p9_expect ty required buf len rest \<noteq> None"
proof (cases "p9_check_min_len len (of_nat required)")
  case True
  then have "required \<le> unat len"
    using assms(3) by (simp add: p9_check_min_len_def word_le_nat_alt unat_of_small(2))
  then show ?thesis using assms by (simp add: p9_expect_def p9_get_u8_def)
qed (simp add: p9_expect_def)

lemma get_u16_total: "pos + 2 \<le> length buf \<Longrightarrow> \<exists>v. p9_get_u16 buf pos = Some (v, pos + 2)"
  by (simp add: p9_get_u16_def)

lemma get_u32_total: "pos + 4 \<le> length buf \<Longrightarrow> \<exists>v. p9_get_u32 buf pos = Some (v, pos + 4)"
  by (simp add: p9_get_u32_def)

lemma get_string_total:
  assumes "cap \<noteq> 0" "pos + 2 + unat cap \<le> Suc (length buf)"
  shows "p9_get_string buf pos (Some cap) \<noteq> None"
proof -
  have "0 < unat cap" using assms(1) by (simp add: unat_gt_0)
  moreover have "unat (cap - 1) = unat cap - 1" using assms(1) by (simp add: unat_minus_one)
  moreover obtain v where "p9_get_u16 buf pos = Some (v, pos + 2)"
    using get_u16_total [of pos buf] assms(2) calculation(1) by auto
  ultimately show ?thesis using assms(2) by (auto simp: p9_get_string_def Let_def)
qed

lemma parse_rread_cases:
  assumes "os_p9_parse_rread buf len = Some (Parsed (pos, count))"
  shows "pos = 11 \<and> 11 \<le> unat len \<and> (11 + unat count) mod 4294967296 \<le> unat len"
proof -
  have "unat (11 + count) = (11 + unat count) mod 4294967296" by (simp add: unat_word_ariths)
  then show ?thesis
    using assms by (auto simp: os_p9_parse_rread_def p9_expect_def p9_check_min_len_def P9_HEADER_SIZE_def
      word_le_nat_alt p9_get_u32_def bind_eq_Some_conv split: if_splits)
qed

text \<open>
  C15. No reply, well-formed or not, makes a parser touch a byte outside the receive buffer,
  provided the transport reports no more than it holds and the text buffers of the callers
  fit in it; and the data an Rread is accepted with lies inside the message, as long as its
  count field is below 2^32 - 11.
\<close>

theorem parsers_stay_inside:
  assumes "unat len \<le> length buf" "cap \<noteq> 0" "12 + unat cap \<le> length buf"
  shows "os_p9_parse_rversion buf len cap \<noteq> None \<and> os_p9_check_error buf len cap \<noteq> None \<and>
    os_p9_parse_rattach buf len \<noteq> None \<and> os_p9_parse_rwalk buf len \<noteq> None \<and> os_p9_parse_ropen buf len \<noteq> None \<and>
    os_p9_parse_rcreate buf len \<noteq> None \<and> os_p9_parse_rread buf len \<noteq> None \<and> os_p9_parse_rwrite buf len \<noteq> None \<and>
    os_p9_parse_rclunk buf len \<noteq> None \<and>
    (\<forall>pos count. os_p9_parse_rread buf len = Some (Parsed (pos, count)) \<longrightarrow> unat count < 4294967285 \<longrightarrow>
       pos + unat count \<le> unat len)"
proof -
  have str: "p9_get_string buf 7 (Some cap) \<noteq> None" "p9_get_string buf 11 (Some cap) \<noteq> None"
    using assms(2,3) by (intro get_string_total; simp)+
  have word: "7 + 4 \<le> length buf \<Longrightarrow> \<exists>v. p9_get_u32 buf 7 = Some (v, 11)"
    "7 + 2 \<le> length buf \<Longrightarrow> \<exists>v. p9_get_u16 buf 7 = Some (v, 9)"
    using get_u32_total [of 7 buf] get_u16_total [of 7 buf] by simp_all
  have rd: "\<forall>pos count. os_p9_parse_rread buf len = Some (Parsed (pos, count)) \<longrightarrow> unat count < 4294967285 \<longrightarrow>
      pos + unat count \<le> unat len"
    by (auto dest!: parse_rread_cases)
  have "os_p9_parse_rversion buf len cap \<noteq> None \<and> os_p9_check_error buf len cap \<noteq> None \<and>
    os_p9_parse_rattach buf len \<noteq> None \<and> os_p9_parse_rwalk buf len \<noteq> None \<and> os_p9_parse_ropen buf len \<noteq> None \<and>
    os_p9_parse_rcreate buf len \<noteq> None \<and> os_p9_parse_rread buf len \<noteq> None \<and> os_p9_parse_rwrite buf len \<noteq> None \<and>
    os_p9_parse_rclunk buf len \<noteq> None"
    unfolding parser_defs P9_HEADER_SIZE_def P9_QID_SIZE_def
    using str word by (intro conjI expect_total assms(1)) auto
  then show ?thesis using rd by blast
qed

theorem parsers_stay_inside_witness:
  "os_p9_check_error (107 # replicate 200 (107 :: u8)) 150 128 \<noteq> None"
  using parsers_stay_inside [of 150 "107 # replicate 200 (107 :: u8)" 128] by simp

text \<open>
  The bound check of Rread adds 11 to a 32-bit count and wraps: an 11-byte reply with the
  count 2^32 - 1 is accepted as 4294967295 bytes of data.
\<close>

theorem rread_count_wraps:
  "os_p9_parse_rread [11, 0, 0, 0, 117, 0, 0, 255, 255, 255, 255] 11 = Some (Parsed (11, 4294967295))"
  by (simp add: os_p9_parse_rread_def p9_expect_def p9_check_min_len_def p9_get_u8_def p9_get_u32_def
    P9_HEADER_SIZE_def P9_RREAD_def)

end
