(* ===== verification/Virtio9p.thy ===== *)
theory Virtio9p
  imports P9
begin

unbundle bit_operations_syntax

text \<open>
  The 9P client of \<^verbatim>\<open>src/c/virtio9p.c\<close>: the session, the allocation of fids, the requests
  and \<open>os_virtio9p_load_file\<close>. Its static variables are the record \<open>p9_client\<close>; the transport
  behind \<^verbatim>\<open>src/c/p9_transport.h\<close> is a record of functions over a device state, as the C
  code has it, and a parameter of every operation. An error text is cut to the caller's
  buffer as \<open>str_copy\<close> and \<open>str_append\<close> do; a null buffer is \<open>None\<close>.

  \<open>Fault\<close> is an access the C code makes outside an object: through a null error buffer, or
  beyond the receive or the result buffer. The theory goes on with what 9P2000 promises of a server,
  what the operations do against such a server, and a server with one file for the examples.
\<close>

subsection \<open>State and results\<close>

record 'd p9_transport =
  ensure_ready :: "'d \<Rightarrow> 'd \<times> string option"
  send :: "'d \<Rightarrow> u8 list \<Rightarrow> u32 \<Rightarrow> u32 \<Rightarrow> 'd \<times> string option"
  recv :: "'d \<Rightarrow> u8 list \<Rightarrow> 'd \<times> u8 list \<times> (string + u32)"

record 'd p9_client =
  g_session_ready :: bool
  g_next_fid :: u32
  g_p9_tx_buf :: "u8 list"
  g_p9_rx_buf :: "u8 list"
  device :: 'd

datatype 'a p9_result = Fault | Failed string | Done 'a

definition P9_MSIZE :: nat where "P9_MSIZE = 8192"
definition P9_MAX_PATH_COMPONENTS :: nat where "P9_MAX_PATH_COMPONENTS = 8"
definition P9_PATH_BUF_SIZE :: nat where "P9_PATH_BUF_SIZE = 256"
definition P9_NONUNAME :: u32 where "P9_NONUNAME = 0xFFFFFFFF"
definition P9_OREAD :: u8 where "P9_OREAD = 0"

definition client_init :: "'d \<Rightarrow> 'd p9_client" where
  "client_init d = \<lparr>g_session_ready = False, g_next_fid = 1, g_p9_tx_buf = replicate P9_MSIZE 0,
     g_p9_rx_buf = replicate P9_MSIZE 0, device = d\<rparr>"

subsection \<open>Text buffers and paths\<close>

definition str_copy :: "nat \<Rightarrow> string \<Rightarrow> string" where
  "str_copy cap src = take (cap - 1) (cstr src)"

definition str_append :: "string \<Rightarrow> nat \<Rightarrow> string \<Rightarrow> string" where
  "str_append dst cap src = dst @ take (cap - 1 - length dst) (cstr src)"

text \<open>\<open>set_err\<close> guards against a null buffer, \<open>str_append\<close> does not.\<close>

definition set_err :: "nat option \<Rightarrow> string \<Rightarrow> 'a p9_result" where
  "set_err err msg = (case err of None \<Rightarrow> Failed [] | Some cap \<Rightarrow> Failed (if cap = 0 then [] else str_copy cap msg))"

definition stage_error :: "nat option \<Rightarrow> string \<Rightarrow> string \<Rightarrow> string \<Rightarrow> 'a p9_result" where
  "stage_error err stage sep detail =
     (case err of
        None \<Rightarrow> Fault
      | Some cap \<Rightarrow>
          (if cap = 0 then Fault
           else Failed (str_append (str_append (str_copy cap stage) cap sep) cap detail)))"

fun split_loop :: "nat \<Rightarrow> string \<Rightarrow> string \<Rightarrow> string list" where
  "split_loop count cur [] = [cur]"
| "split_loop count cur (c # p) =
     (if count < P9_MAX_PATH_COMPONENTS
      then if c = CHR ''/'' then cur # split_loop (Suc count) [] p
           else split_loop count (cur @ [c]) p
      else [cur @ c # p])"

definition split_path :: "string \<Rightarrow> string list" where
  "split_path p =
     (case p of c # q \<Rightarrow> (if c = CHR ''/'' then split_loop 1 [] q else split_loop 1 [] p)
      | [] \<Rightarrow> split_loop 1 [] p)"

subsection \<open>One request\<close>

definition p9_rpc ::
  "'d p9_transport \<Rightarrow> u32 \<Rightarrow> string \<Rightarrow> nat option \<Rightarrow> 'd p9_client \<Rightarrow> u32 p9_result \<times> 'd p9_client" where
  "p9_rpc T tx_len stage err c =
     (case send T (device c) (g_p9_tx_buf c) tx_len (of_nat (length (g_p9_rx_buf c))) of
        (d, Some e) \<Rightarrow> (stage_error err stage '': '' e, c\<lparr>device := d\<rparr>)
      | (d, None) \<Rightarrow>
          (case recv T d (g_p9_rx_buf c) of
             (d, rx, Inl e) \<Rightarrow> (stage_error err stage '': '' e, c\<lparr>device := d, g_p9_rx_buf := rx\<rparr>)
           | (d, rx, Inr rx_len) \<Rightarrow>
               (case os_p9_check_error rx rx_len 128 of
                  None \<Rightarrow> Fault
                | Some (Parsed text) \<Rightarrow> stage_error err stage '': Rerror: '' text
                | Some Rejected \<Rightarrow> Done rx_len,
                c\<lparr>device := d, g_p9_rx_buf := rx\<rparr>)))"

text \<open>A request of the client: build it in the transmit buffer, exchange it, parse the reply.\<close>

definition p9_request ::
  "'d p9_transport \<Rightarrow> (u8 list \<Rightarrow> cursor option) \<Rightarrow> string \<Rightarrow> (u8 list \<Rightarrow> u32 \<Rightarrow> 'a parsed option) \<Rightarrow> string \<Rightarrow>
   nat option \<Rightarrow> 'd p9_client \<Rightarrow> 'a p9_result \<times> 'd p9_client" where
  "p9_request T build stage parse malformed err c =
     (case build (g_p9_tx_buf c) of
        None \<Rightarrow> (Fault, c)
      | Some (tx, tx_len) \<Rightarrow>
          (case p9_rpc T (of_nat tx_len) stage err (c\<lparr>g_p9_tx_buf := tx\<rparr>) of
             (Fault, c) \<Rightarrow> (Fault, c)
           | (Failed e, c) \<Rightarrow> (Failed e, c)
           | (Done rx_len, c) \<Rightarrow>
               (case parse (g_p9_rx_buf c) rx_len of
                  None \<Rightarrow> Fault
                | Some Rejected \<Rightarrow> set_err err malformed
                | Some (Parsed v) \<Rightarrow> Done v, c)))"

definition and_then ::
  "'a p9_result \<times> 'd p9_client \<Rightarrow> ('a \<Rightarrow> 'd p9_client \<Rightarrow> 'b p9_result \<times> 'd p9_client) \<Rightarrow> 'b p9_result \<times> 'd p9_client" where
  "and_then r f = (case r of (Fault, c) \<Rightarrow> (Fault, c) | (Failed e, c) \<Rightarrow> (Failed e, c) | (Done v, c) \<Rightarrow> f v c)"

subsection \<open>The operations\<close>

definition os_virtio9p_ensure_session ::
  "'d p9_transport \<Rightarrow> nat option \<Rightarrow> 'd p9_client \<Rightarrow> unit p9_result \<times> 'd p9_client" where
  "os_virtio9p_ensure_session T err c =
     (if g_session_ready c then (Done (), c)
      else case ensure_ready T (device c) of
        (d, Some e) \<Rightarrow> (set_err err e, c\<lparr>device := d\<rparr>)
      | (d, None) \<Rightarrow>
          and_then (p9_request T (\<lambda>buf. os_p9_build_tversion buf 0xFFFF (of_nat P9_MSIZE) ''9P2000.u'') ''Tversion''
              (\<lambda>rx n. os_p9_parse_rversion rx n 16) ''Tversion: malformed Rversion response'' err (c\<lparr>device := d\<rparr>))
            (\<lambda>_ c. and_then (p9_request T (\<lambda>buf. os_p9_build_tattach buf 0 0 0xFFFFFFFF ''root'' [] P9_NONUNAME) ''Tattach''
                os_p9_parse_rattach ''Tattach: malformed Rattach response'' err c)
              (\<lambda>_ c. (Done (), c\<lparr>g_session_ready := True\<rparr>))))"

definition os_virtio9p_open ::
  "'d p9_transport \<Rightarrow> string \<Rightarrow> u8 \<Rightarrow> nat option \<Rightarrow> 'd p9_client \<Rightarrow> u32 p9_result \<times> 'd p9_client" where
  "os_virtio9p_open T path mode err c =
     and_then (os_virtio9p_ensure_session T err c) (\<lambda>_ c.
       (let newfid = g_next_fid c;
            c = c\<lparr>g_next_fid := newfid + 1\<rparr>;
            wnames = split_path (str_copy P9_PATH_BUF_SIZE path);
            nwname = of_nat (length wnames)
        in and_then (p9_request T (\<lambda>buf. os_p9_build_twalk buf 0 0 newfid wnames nwname) ''Twalk''
               os_p9_parse_rwalk ''Twalk: malformed Rwalk response'' err c)
             (\<lambda>nwqid c. if nwqid \<noteq> nwname
                then (set_err err ''Twalk: path component not found (partial walk, check -fsdev path=)'', c)
                else and_then (p9_request T (\<lambda>buf. os_p9_build_topen buf 0 newfid mode) ''Topen''
                    os_p9_parse_ropen ''Topen: malformed Ropen response'' err c)
                  (\<lambda>_ c. (Done newfid, c)))))"

definition os_virtio9p_create ::
  "'d p9_transport \<Rightarrow> string \<Rightarrow> u32 \<Rightarrow> u8 \<Rightarrow> nat option \<Rightarrow> 'd p9_client \<Rightarrow> u32 p9_result \<times> 'd p9_client" where
  "os_virtio9p_create T path perm mode err c =
     and_then (os_virtio9p_ensure_session T err c) (\<lambda>_ c.
       (let newfid = g_next_fid c;
            c = c\<lparr>g_next_fid := newfid + 1\<rparr>;
            wnames = split_path (str_copy P9_PATH_BUF_SIZE path);
            ncomponents = length wnames
        in if ncomponents = 0 then (set_err err ''Tcreate: empty path'', c)
           else (let nparent = of_nat (ncomponents - 1);
                     filename = wnames ! (ncomponents - 1)
             in and_then (p9_request T (\<lambda>buf. os_p9_build_twalk buf 0 0 newfid wnames nparent) ''Twalk''
                    os_p9_parse_rwalk ''Twalk: malformed Rwalk response'' err c)
                  (\<lambda>nwqid c. if nwqid \<noteq> nparent
                     then (set_err err ''Twalk: parent directory not found (partial walk, check -fsdev path=)'', c)
                     else and_then (p9_request T (\<lambda>buf. os_p9_build_tcreate buf 0 newfid filename perm mode) ''Tcreate''
                         os_p9_parse_rcreate ''Tcreate: malformed Rcreate response'' err c)
                       (\<lambda>_ c. (Done newfid, c))))))"

text \<open>The data of a chunk is a position in the receive buffer and a count.\<close>

definition os_virtio9p_read_chunk ::
  "'d p9_transport \<Rightarrow> u32 \<Rightarrow> u64 \<Rightarrow> u32 \<Rightarrow> nat option \<Rightarrow> 'd p9_client \<Rightarrow> (nat \<times> u32) p9_result \<times> 'd p9_client" where
  "os_virtio9p_read_chunk T fid offset want err c =
     p9_request T (\<lambda>buf. os_p9_build_tread buf 0 fid offset want) ''Tread'' os_p9_parse_rread
       ''Tread: malformed Rread response'' err c"

definition os_virtio9p_write_chunk ::
  "'d p9_transport \<Rightarrow> u32 \<Rightarrow> u64 \<Rightarrow> u8 list \<Rightarrow> u32 \<Rightarrow> nat option \<Rightarrow> 'd p9_client \<Rightarrow> u32 p9_result \<times> 'd p9_client" where
  "os_virtio9p_write_chunk T fid offset data count err c =
     p9_request T (\<lambda>buf. os_p9_build_twrite buf 0 fid offset data count) ''Twrite'' os_p9_parse_rwrite
       ''Twrite: malformed Rwrite response'' err c"

definition os_virtio9p_close ::
  "'d p9_transport \<Rightarrow> u32 \<Rightarrow> nat option \<Rightarrow> 'd p9_client \<Rightarrow> unit p9_result \<times> 'd p9_client" where
  "os_virtio9p_close T fid err c =
     p9_request T (\<lambda>buf. os_p9_build_tclunk buf 0 fid) ''Tclunk'' os_p9_parse_rclunk
       ''Tclunk: malformed Rclunk response'' err c"

lemma load_loop_decreases:
  "(count :: u32) \<noteq> 0 \<Longrightarrow> \<not> (cap - length acc < unat count \<or> length rx < pos + unat count) \<Longrightarrow>
     cap - length (acc @ take (unat count) (drop pos rx)) < cap - length acc"
proof -
  assume a: "count \<noteq> 0" "\<not> (cap - length acc < unat count \<or> length rx < pos + unat count)"
  then have "length (take (unat count) (drop pos rx)) = unat count" "0 < unat count"
    by (auto simp: unat_gt_0)
  then show ?thesis using a(2) unfolding length_append by linarith
qed

text \<open>
  The loop of \<open>os_virtio9p_load_file\<close>; \<open>acc\<close> is what \<open>result_buf\<close> holds, so \<open>total\<close> and
  \<open>offset\<close> are its length. A chunk is copied without a check against the room that is left.
\<close>

function load_loop ::
  "'d p9_transport \<Rightarrow> u32 \<Rightarrow> nat \<Rightarrow> nat option \<Rightarrow> u8 list \<Rightarrow> 'd p9_client \<Rightarrow> u8 list p9_result \<times> 'd p9_client" where
  "load_loop T fid cap err acc c =
     (let remaining_cap = cap - length acc
      in if remaining_cap = 0 then (Done acc, c)
         else case os_virtio9p_read_chunk T fid (of_nat (length acc))
               (of_nat (if P9_MSIZE - 64 < remaining_cap then P9_MSIZE - 64 else remaining_cap)) err c of
             (Fault, c) \<Rightarrow> (Fault, c)
           | (Failed e, c) \<Rightarrow>
               (case os_virtio9p_close T fid None c of (Fault, c) \<Rightarrow> (Fault, c) | (_, c) \<Rightarrow> (Failed e, c))
           | (Done (pos, count), c) \<Rightarrow>
               (if count = 0 then (Done acc, c)
                else if remaining_cap < unat count \<or> length (g_p9_rx_buf c) < pos + unat count then (Fault, c)
                else load_loop T fid cap err (acc @ take (unat count) (drop pos (g_p9_rx_buf c))) c))"
  by pat_completeness auto

termination
  by (relation "measure (\<lambda>(T, fid, cap, err, acc, c). cap - length acc)")
    (simp, simp only: in_measure prod.case, rule load_loop_decreases)

declare load_loop.simps [simp del]

definition os_virtio9p_load_file ::
  "'d p9_transport \<Rightarrow> string \<Rightarrow> nat \<Rightarrow> nat option \<Rightarrow> 'd p9_client \<Rightarrow> u8 list p9_result \<times> 'd p9_client" where
  "os_virtio9p_load_file T path cap err c =
     and_then (os_virtio9p_open T path P9_OREAD err c) (\<lambda>fid c.
       and_then (load_loop T fid cap err [] c) (\<lambda>acc c.
         and_then (os_virtio9p_close T fid err c) (\<lambda>_ c. (Done acc, c))))"

subsection \<open>Paths\<close>

fun join_path :: "string list \<Rightarrow> string" where
  "join_path [] = []"
| "join_path [w] = w"
| "join_path (w # ws) = w @ ''/'' @ join_path ws"

definition strip_slash :: "string \<Rightarrow> string" where
  "strip_slash p = (case p of c # q \<Rightarrow> (if c = CHR ''/'' then q else p) | [] \<Rightarrow> p)"

lemma split_path_loop: "split_path p = split_loop 1 [] (strip_slash p)"
  by (auto simp: split_path_def strip_slash_def split: list.split)

lemma split_loop_nonempty: "split_loop k cur p \<noteq> []"
  by (induction k cur p rule: split_loop.induct) auto

lemma join_split_loop: "join_path (split_loop k cur p) = cur @ p"
proof (induction k cur p rule: split_loop.induct)
  case (2 k cur c p)
  have cons: "join_path (w # split_loop k' cur' p') = w @ ''/'' @ join_path (split_loop k' cur' p')" for w k' cur' p'
    using split_loop_nonempty [of k' cur' p'] by (cases "split_loop k' cur' p'") auto
  show ?case using 2 by (simp add: cons)
qed simp

lemma split_loop_length: "k \<le> P9_MAX_PATH_COMPONENTS \<Longrightarrow> length (split_loop k cur p) \<le> Suc P9_MAX_PATH_COMPONENTS - k"
  by (induction k cur p rule: split_loop.induct) (auto simp: P9_MAX_PATH_COMPONENTS_def)

lemma split_loop_names:
  "CHR ''/'' \<notin> set cur \<Longrightarrow> k + length (filter ((=) (CHR ''/'')) p) \<le> P9_MAX_PATH_COMPONENTS \<Longrightarrow> w \<in> set (split_loop k cur p) \<Longrightarrow>
     CHR ''/'' \<notin> set w"
proof (induction k cur p rule: split_loop.induct)
  case (2 k cur c p)
  show ?case
  proof (cases "k < P9_MAX_PATH_COMPONENTS")
    case True
    then show ?thesis using 2 by (auto split: if_splits)
  next
    case False
    then have "length (filter ((=) (CHR ''/'')) (c # p)) = 0" using "2.prems"(2) by linarith
    then show ?thesis using 2 False by (auto simp: filter_empty_conv split: if_splits)
  qed
qed auto

lemma join_path_length: "sum_list (map length ws) \<le> length (join_path ws)"
  by (induction ws rule: join_path.induct) auto

subsection \<open>What a request leaves unchanged\<close>

lemma rpc_frame:
  "p9_rpc T n stage err c = (r, c') \<Longrightarrow> g_session_ready c' = g_session_ready c \<and> g_next_fid c' = g_next_fid c"
  by (auto simp: p9_rpc_def split: prod.splits option.splits sum.splits)

lemma request_frame:
  "p9_request T build stage parse malformed err c = (r, c') \<Longrightarrow>
     g_session_ready c' = g_session_ready c \<and> g_next_fid c' = g_next_fid c"
  by (auto simp: p9_request_def dest!: rpc_frame split: prod.splits option.splits p9_result.splits)

lemma and_then_cases:
  assumes "and_then r f = (v, c')"
  obtains "r = (Fault, c')" "v = Fault"
    | e where "r = (Failed e, c')" "v = Failed e"
    | w c1 where "r = (Done w, c1)" "f w c1 = (v, c')"
  using assms by (cases r; cases "fst r") (auto simp: and_then_def)

lemma set_err_not_done [simp]: "set_err err m \<noteq> Done v"
  by (simp add: set_err_def split: option.split)

text \<open>The session flag is set exactly when the session has been established.\<close>

lemma ensure_session_frame:
  assumes "os_virtio9p_ensure_session T err c = (r, c')"
  shows "(g_session_ready c' \<longleftrightarrow> r = Done ()) \<and> g_next_fid c' = g_next_fid c \<and> (g_session_ready c \<longrightarrow> r = Done ())"
  using assms
  by (auto simp: os_virtio9p_ensure_session_def elim!: and_then_cases dest!: request_frame split: if_splits prod.splits option.splits)

lemma open_frame:
  assumes "os_virtio9p_open T path mode err c = (r, c')"
  shows "(\<forall>fid. r = Done fid \<longrightarrow> fid = g_next_fid c \<and> g_session_ready c') \<and>
    (g_session_ready c \<longrightarrow> g_session_ready c') \<and>
    (g_next_fid c' = g_next_fid c + 1 \<or> g_next_fid c' = g_next_fid c \<and> (\<forall>fid. r \<noteq> Done fid))"
  using assms
  by (auto simp: os_virtio9p_open_def Let_def elim!: and_then_cases dest!: request_frame ensure_session_frame split: if_splits)

lemma create_frame:
  assumes "os_virtio9p_create T path perm mode err c = (r, c')"
  shows "(\<forall>fid. r = Done fid \<longrightarrow> fid = g_next_fid c \<and> g_session_ready c') \<and>
    (g_session_ready c \<longrightarrow> g_session_ready c') \<and>
    (g_next_fid c' = g_next_fid c + 1 \<or> g_next_fid c' = g_next_fid c \<and> (\<forall>fid. r \<noteq> Done fid))"
  using assms
  by (auto simp: os_virtio9p_create_def Let_def elim!: and_then_cases dest!: request_frame ensure_session_frame split: if_splits)

lemma load_loop_frame:
  "load_loop T fid cap err acc c = (r, c') \<Longrightarrow>
     g_session_ready c' = g_session_ready c \<and> g_next_fid c' = g_next_fid c"
proof (induction T fid cap err acc c arbitrary: r c' rule: load_loop.induct)
  case (1 T fid cap err acc c)
  have read: "g_session_ready c1 = g_session_ready c \<and> g_next_fid c1 = g_next_fid c"
    if "os_virtio9p_read_chunk T fid off want err c = (v, c1)" for off want v c1
    using that by (auto simp: os_virtio9p_read_chunk_def dest: request_frame)
  have close: "g_session_ready c2 = g_session_ready c1 \<and> g_next_fid c2 = g_next_fid c1"
    if "os_virtio9p_close T fid None c1 = (v, c2)" for v c1 c2
    using that by (auto simp: os_virtio9p_close_def dest: request_frame)
  show ?case
    using "1.prems" "1.IH"
    by (subst (asm) load_loop.simps)
      (auto simp: Let_def dest!: read close split: if_splits prod.splits p9_result.splits)
qed

lemma load_file_frame:
  assumes "os_virtio9p_load_file T path cap err c = (r, c')"
  shows "(g_session_ready c \<longrightarrow> g_session_ready c') \<and> (g_next_fid c' = g_next_fid c + 1 \<or> g_next_fid c' = g_next_fid c)"
proof -
  obtain r1 c1 where o: "os_virtio9p_open T path P9_OREAD err c = (r1, c1)" by (rule prod.exhaust)
  have "g_session_ready c' = g_session_ready c1 \<and> g_next_fid c' = g_next_fid c1"
    using assms unfolding os_virtio9p_load_file_def o os_virtio9p_close_def
    by (elim and_then_cases) (force dest: request_frame load_loop_frame)+
  then show ?thesis using open_frame [OF o] by auto
qed

subsection \<open>The history of a client\<close>

text \<open>
  \<open>client_run T c fids n\<close>: after some calls from the initial state, \<open>n\<close> of which may have taken
  a fid, the client is in state \<open>c\<close> and has handed out \<open>fids\<close> (the latest first).
\<close>

definition handed :: "u32 p9_result \<Rightarrow> u32 list" where
  "handed r = (case r of Done fid \<Rightarrow> [fid] | _ \<Rightarrow> [])"

inductive client_run :: "'d p9_transport \<Rightarrow> 'd p9_client \<Rightarrow> u32 list \<Rightarrow> nat \<Rightarrow> bool" for T where
  start: "client_run T (client_init d) [] 0"
| session: "client_run T c fids n \<Longrightarrow> os_virtio9p_ensure_session T err c = (r, c') \<Longrightarrow> client_run T c' fids n"
| opened: "client_run T c fids n \<Longrightarrow> os_virtio9p_open T path mode err c = (r, c') \<Longrightarrow>
    client_run T c' (handed r @ fids) (Suc n)"
| created: "client_run T c fids n \<Longrightarrow> os_virtio9p_create T path perm mode err c = (r, c') \<Longrightarrow>
    client_run T c' (handed r @ fids) (Suc n)"
| chunk_read: "client_run T c fids n \<Longrightarrow> os_virtio9p_read_chunk T fid offset want err c = (rd, c') \<Longrightarrow>
    client_run T c' fids n"
| chunk_written: "client_run T c fids n \<Longrightarrow> os_virtio9p_write_chunk T fid offset data count err c = (wr, c') \<Longrightarrow>
    client_run T c' fids n"
| closed: "client_run T c fids n \<Longrightarrow> os_virtio9p_close T fid err c = (cl, c') \<Longrightarrow> client_run T c' fids n"
| loaded: "client_run T c fids n \<Longrightarrow> os_virtio9p_load_file T path cap err c = (ld, c') \<Longrightarrow>
    client_run T c' fids (Suc n)"

definition fids_ok :: "'d p9_client \<Rightarrow> u32 list \<Rightarrow> nat \<Rightarrow> bool" where
  "fids_ok c fids n \<longleftrightarrow> 0 < unat (g_next_fid c) \<and> unat (g_next_fid c) \<le> Suc n \<and> distinct fids \<and>
     list_all (\<lambda>f. 0 < f \<and> f < g_next_fid c) fids \<and> (fids \<noteq> [] \<longrightarrow> g_session_ready c)"

lemma fids_ok_step:
  assumes ok: "fids_ok c fids n" and n: "Suc n < 4294967295"
    and s: "g_session_ready c \<longrightarrow> g_session_ready c'"
    and f: "\<forall>fid. r = Done fid \<longrightarrow> fid = g_next_fid c \<and> g_session_ready c'"
    and nxt: "g_next_fid c' = g_next_fid c + 1 \<or> g_next_fid c' = g_next_fid c \<and> (\<forall>fid. r \<noteq> Done fid)"
  shows "fids_ok c' (handed r @ fids) (Suc n)"
proof -
  have lt: "unat (g_next_fid c) < 4294967295" using ok n by (simp add: fids_ok_def)
  then have inc: "unat (g_next_fid c + 1) = Suc (unat (g_next_fid c))" by (simp add: unat_word_ariths)
  have old: "list_all (\<lambda>f. 0 < f \<and> f < g_next_fid c') fids"
    using ok nxt inc by (auto simp: fids_ok_def list_all_iff word_less_nat_alt)
  have new: "g_next_fid c \<notin> set fids" "0 < g_next_fid c"
    using ok by (auto simp: fids_ok_def list_all_iff word_less_nat_alt)
  have "fid < g_next_fid c'" if "r = Done fid" for fid
    using that f nxt inc by (auto simp: word_less_nat_alt)
  then show ?thesis
    using ok old new f nxt inc s
    by (cases r) (auto simp: fids_ok_def handed_def)
qed

lemma client_run_fids: "client_run T c fids n \<Longrightarrow> n < 4294967295 \<Longrightarrow> fids_ok c fids n"
proof (induction rule: client_run.induct)
  case (loaded c fids n path cap err ld c')
  then show ?case
    using fids_ok_step [of c fids n c' "Fault :: u32 p9_result"] load_file_frame [OF loaded(2)]
    by (auto simp: handed_def)
next
  case (opened c fids n path mode err r c')
  then show ?case using fids_ok_step [of c fids n c' r] open_frame [OF opened(2)] by auto
next
  case (created c fids n path perm mode err r c')
  then show ?case using fids_ok_step [of c fids n c' r] create_frame [OF created(2)] by auto
qed (auto simp: fids_ok_def client_init_def os_virtio9p_read_chunk_def os_virtio9p_write_chunk_def os_virtio9p_close_def
    dest!: request_frame ensure_session_frame)

subsection \<open>A conforming server\<close>

text \<open>
  \<open>exchange T tag req d Q\<close>: from the device state \<open>d\<close> and with any buffers the transport
  carries the request \<open>req\<close>, and the server replies with one message; \<open>Q\<close> holds of it and of
  the state afterwards.
\<close>

definition exchange :: "'d p9_transport \<Rightarrow> u16 \<Rightarrow> tmsg \<Rightarrow> 'd \<Rightarrow> (rmsg \<Rightarrow> 'd \<Rightarrow> bool) \<Rightarrow> bool" where
  "exchange T tag req d Q \<longleftrightarrow>
     (\<forall>tx rx. length rx = P9_MSIZE \<longrightarrow> take (length (tmsg_bytes tag req)) tx = tmsg_bytes tag req \<longrightarrow>
       (\<exists>d' d'' m. send T d tx (of_nat (length (tmsg_bytes tag req))) (of_nat P9_MSIZE) = (d', None) \<and>
          Q m d'' \<and> rmsg_ok m \<and> length (rmsg_bytes tag m) \<le> P9_MSIZE \<and>
          recv T d' rx = (d'', rmsg_bytes tag m @ drop (length (rmsg_bytes tag m)) rx,
            Inr (of_nat (length (rmsg_bytes tag m))))))"

definition messages_ok :: "'d p9_client \<Rightarrow> bool" where
  "messages_ok c \<longleftrightarrow> length (g_p9_tx_buf c) = P9_MSIZE \<and> length (g_p9_rx_buf c) = P9_MSIZE"

text \<open>A request to a conforming server is answered, and its parser gets the reply.\<close>

lemma request_exchanged:
  assumes server: "exchange T tag req (device c) Q" and c: "messages_ok c"
    and req: "tmsg_ok req" "length (tmsg_bytes tag req) \<le> P9_MSIZE"
    and no_error: "\<And>e n d. \<not> Q (Rerror e n) d"
    and parse: "\<And>m d buf len. Q m d \<Longrightarrow> received m buf len \<Longrightarrow> parse buf len = Some (Parsed (val m))"
    and build': "\<And>buf. build buf = os_p9_build buf tag req"
  obtains m c' stale where "p9_request T build stage parse malformed err c = (Done (val m), c')" "Q m (device c')" "messages_ok c'"
    "g_p9_rx_buf c' = rmsg_bytes tag m @ stale" "g_session_ready c' = g_session_ready c" "g_next_fid c' = g_next_fid c"
proof -
  let ?n = "length (tmsg_bytes tag req)" and ?tx = "tmsg_bytes tag req @ drop (length (tmsg_bytes tag req)) (g_p9_tx_buf c)"
  have build: "os_p9_build (g_p9_tx_buf c) tag req = Some (?tx, ?n)"
    using build_tmsg [OF req(1), of "g_p9_tx_buf c" tag] c req(2) by (simp add: messages_ok_def P9_MSIZE_def)
  obtain d' d'' m where m: "send T (device c) ?tx (of_nat ?n) (of_nat P9_MSIZE) = (d', None)" "Q m d''" "rmsg_ok m"
    "length (rmsg_bytes tag m) \<le> P9_MSIZE"
    "recv T d' (g_p9_rx_buf c) = (d'', rmsg_bytes tag m @ drop (length (rmsg_bytes tag m)) (g_p9_rx_buf c),
      Inr (of_nat (length (rmsg_bytes tag m))))"
    using server c unfolding exchange_def messages_ok_def by (metis append_eq_conv_conj)
  let ?rx = "rmsg_bytes tag m @ drop (length (rmsg_bytes tag m)) (g_p9_rx_buf c)"
  let ?c = "c\<lparr>g_p9_tx_buf := ?tx, device := d'', g_p9_rx_buf := ?rx\<rparr>"
  have r: "received m ?rx (of_nat (length (rmsg_bytes tag m)))"
    unfolding received_def using m(3,4) by (auto simp: P9_MSIZE_def)
  have "os_p9_check_error ?rx (of_nat (length (rmsg_bytes tag m))) 128 = Some Rejected"
    using parse_received_strings(2) [OF r, of 128] m(2) no_error by (cases m) auto
  then have "p9_rpc T (of_nat ?n) stage err (c\<lparr>g_p9_tx_buf := ?tx\<rparr>) = (Done (of_nat (length (rmsg_bytes tag m))), ?c)"
    using m(1,5) c by (simp add: p9_rpc_def messages_ok_def)
  then have "p9_request T build stage parse malformed err c = (Done (val m), ?c)"
    using parse [OF m(2) r] by (simp add: p9_request_def build build')
  moreover have "messages_ok ?c" using c m(4) req(2) by (simp add: messages_ok_def)
  ultimately show ?thesis using that m(2) by force
qed

text \<open>
  What 9P2000 promises of a server that exports one file at a path, which nobody else writes
  meanwhile. The server keeps a table of
  the connection's fids: none before Tversion; the root after Tattach; a file after Twalk, which
  asks for a fid that is free; a file that can be read or written, by its mode, after Topen; and
  no more after Tclunk. A request is promised to succeed only for a fid it is for; other
  requests may be refused, and nothing is said of their replies. \<open>Elsewhere\<close> is a fid of another file.
  A read gets some of the next bytes, at least one unless at the end; a write stores the first
  \<open>write_limit\<close> bytes and says how many, as long as the file stays within \<open>size_limit\<close>.
\<close>

datatype fid_use = Attached | Walked | Opened u8 | Elsewhere

record 'd p9_server =
  healthy :: "'d \<Rightarrow> bool"
  fid_table :: "'d \<Rightarrow> u32 \<Rightarrow> fid_use option"
  exported :: "'d \<Rightarrow> u8 list"
  write_limit :: nat
  size_limit :: nat

definition P9_OWRITE :: u8 where "P9_OWRITE = 1"
definition P9_ORDWR :: u8 where "P9_ORDWR = 2"
definition P9_OTRUNC :: u8 where "P9_OTRUNC = 0x10"

definition may_read :: "u8 \<Rightarrow> bool" where "may_read mode \<longleftrightarrow> mode AND 3 = P9_OREAD \<or> mode AND 3 = P9_ORDWR"
definition may_write :: "u8 \<Rightarrow> bool" where "may_write mode \<longleftrightarrow> mode AND 3 = P9_OWRITE \<or> mode AND 3 = P9_ORDWR"

definition after_open :: "u8 \<Rightarrow> u8 list \<Rightarrow> u8 list" where
  "after_open mode data = (if mode AND P9_OTRUNC \<noteq> 0 then [] else data)"

definition overwrite :: "nat \<Rightarrow> 'a list \<Rightarrow> 'a list \<Rightarrow> 'a list" where
  "overwrite off data xs = take off xs @ data @ drop (off + length data) xs"

definition becomes :: "'d p9_server \<Rightarrow> (u32 \<Rightarrow> fid_use option) \<Rightarrow> u8 list \<Rightarrow> 'd \<Rightarrow> bool" where
  "becomes S fids data d \<longleftrightarrow> healthy S d \<and> fid_table S d = fids \<and> exported S d = data"

definition serves_session :: "'d p9_transport \<Rightarrow> 'd p9_server \<Rightarrow> bool" where
  "serves_session T S \<longleftrightarrow>
     (\<forall>d. healthy S d \<longrightarrow> (\<exists>d'. ensure_ready T d = (d', None) \<and> healthy S d' \<and> exported S d' = exported S d)) \<and>
     (\<forall>d. healthy S d \<longrightarrow> exchange T 0xFFFF (Tversion (of_nat P9_MSIZE) ''9P2000.u'') d
        (\<lambda>m d'. m = Rversion (of_nat P9_MSIZE) ''9P2000.u'' \<and> becomes S Map.empty (exported S d) d')) \<and>
     (\<forall>d. healthy S d \<longrightarrow> fid_table S d 0 = None \<longrightarrow>
        exchange T 0 (Tattach 0 0xFFFFFFFF ''root'' [] P9_NONUNAME) d
          (\<lambda>m d'. (\<exists>qid. m = Rattach qid) \<and> becomes S ((fid_table S d)(0 \<mapsto> Attached)) (exported S d) d'))"

definition serves_path :: "'d p9_transport \<Rightarrow> 'd p9_server \<Rightarrow> string \<Rightarrow> bool" where
  "serves_path T S path \<longleftrightarrow>
     (let wnames = split_path (str_copy P9_PATH_BUF_SIZE path) in
     (\<forall>d f. healthy S d \<longrightarrow> fid_table S d 0 = Some Attached \<longrightarrow> f \<noteq> 0xFFFFFFFF \<longrightarrow> fid_table S d f = None \<longrightarrow>
        exchange T 0 (Twalk 0 f wnames (of_nat (length wnames))) d (\<lambda>m d'.
          (\<exists>qids. m = Rwalk qids \<and> length qids = length wnames) \<and>
          becomes S ((fid_table S d)(f \<mapsto> Walked)) (exported S d) d')) \<and>
     (\<forall>d f mode. healthy S d \<longrightarrow> fid_table S d f = Some Walked \<longrightarrow> mode = P9_OREAD \<or> mode = P9_OWRITE OR P9_OTRUNC \<longrightarrow>
        exchange T 0 (Topen f mode) d (\<lambda>m d'. (\<exists>qid n. m = Ropen qid n) \<and>
          becomes S ((fid_table S d)(f \<mapsto> Opened mode)) (after_open mode (exported S d)) d')))"

definition serves_file :: "'d p9_transport \<Rightarrow> 'd p9_server \<Rightarrow> bool" where
  "serves_file T S \<longleftrightarrow>
     (\<forall>d f mode off want. healthy S d \<longrightarrow> fid_table S d f = Some (Opened mode) \<longrightarrow> may_read mode \<longrightarrow>
        unat off \<le> length (exported S d) \<longrightarrow> 0 < want \<longrightarrow> unat want \<le> P9_MSIZE - 64 \<longrightarrow>
        exchange T 0 (Tread f off want) d (\<lambda>m d'.
          (\<exists>n. m = Rread (take n (drop (unat off) (exported S d))) \<and> n \<le> unat want \<and> (unat off < length (exported S d) \<longrightarrow> 0 < n)) \<and>
          becomes S (fid_table S d) (exported S d) d')) \<and>
     (\<forall>d f mode off data. healthy S d \<longrightarrow> fid_table S d f = Some (Opened mode) \<longrightarrow> may_write mode \<longrightarrow>
        unat off \<le> length (exported S d) \<longrightarrow> data \<noteq> [] \<longrightarrow> length data \<le> P9_MSIZE - 64 \<longrightarrow> unat off + length data \<le> size_limit S \<longrightarrow>
        exchange T 0 (Twrite f off data (of_nat (length data))) d (\<lambda>m d'.
          m = Rwrite (of_nat (length (take (write_limit S) data))) \<and>
          becomes S (fid_table S d) (overwrite (unat off) (take (write_limit S) data) (exported S d)) d')) \<and>
     (\<forall>d f mode. healthy S d \<longrightarrow> fid_table S d f = Some (Opened mode) \<longrightarrow>
        exchange T 0 (Tclunk f) d (\<lambda>m d'. m = Rclunk \<and> becomes S ((fid_table S d)(f := None)) (exported S d) d')) \<and>
     (\<forall>d. healthy S d \<longrightarrow> length (exported S d) < 2 ^ 63) \<and> size_limit S < 2 ^ 63"

text \<open>
  The client and the server agree on the fids: once the session stands, 0 is the root, and the
  fids from the next one on are free.
\<close>

definition client_synced :: "'d p9_server \<Rightarrow> 'd p9_client \<Rightarrow> bool" where
  "client_synced S c \<longleftrightarrow> healthy S (device c) \<and> messages_ok c \<and> 0 < g_next_fid c \<and>
     (g_session_ready c \<longrightarrow> fid_table S (device c) 0 = Some Attached \<and> (\<forall>f \<ge> g_next_fid c. fid_table S (device c) f = None))"

lemma serves_sessionD:
  assumes "serves_session T S" "healthy S d"
  shows "\<exists>d'. ensure_ready T d = (d', None) \<and> healthy S d' \<and> exported S d' = exported S d"
    and "exchange T 0xFFFF (Tversion (of_nat P9_MSIZE) ''9P2000.u'') d
        (\<lambda>m d'. m = Rversion (of_nat P9_MSIZE) ''9P2000.u'' \<and> becomes S Map.empty (exported S d) d')"
    and "fid_table S d 0 = None \<Longrightarrow> exchange T 0 (Tattach 0 0xFFFFFFFF ''root'' [] P9_NONUNAME) d
          (\<lambda>m d'. (\<exists>qid. m = Rattach qid) \<and> becomes S ((fid_table S d)(0 \<mapsto> Attached)) (exported S d) d')"
  using assms unfolding serves_session_def by blast+

lemma serves_pathD:
  assumes "serves_path T S path" "healthy S d"
  shows "fid_table S d 0 = Some Attached \<Longrightarrow> f \<noteq> 0xFFFFFFFF \<Longrightarrow> fid_table S d f = None \<Longrightarrow>
        exchange T 0 (Twalk 0 f (split_path (str_copy P9_PATH_BUF_SIZE path))
          (of_nat (length (split_path (str_copy P9_PATH_BUF_SIZE path))))) d (\<lambda>m d'.
          (\<exists>qids. m = Rwalk qids \<and> length qids = length (split_path (str_copy P9_PATH_BUF_SIZE path))) \<and>
          becomes S ((fid_table S d)(f \<mapsto> Walked)) (exported S d) d')"
    and "fid_table S d f = Some Walked \<Longrightarrow> mode = P9_OREAD \<or> mode = P9_OWRITE OR P9_OTRUNC \<Longrightarrow>
        exchange T 0 (Topen f mode) d (\<lambda>m d'. (\<exists>qid n. m = Ropen qid n) \<and>
          becomes S ((fid_table S d)(f \<mapsto> Opened mode)) (after_open mode (exported S d)) d')"
  using assms unfolding serves_path_def Let_def by blast+

lemma serves_fileD:
  assumes "serves_file T S"
  shows "healthy S d \<Longrightarrow> fid_table S d f = Some (Opened mode) \<Longrightarrow> may_read mode \<Longrightarrow>
        unat off \<le> length (exported S d) \<Longrightarrow> 0 < want \<Longrightarrow> unat want \<le> P9_MSIZE - 64 \<Longrightarrow>
        exchange T 0 (Tread f off want) d (\<lambda>m d'.
          (\<exists>n. m = Rread (take n (drop (unat off) (exported S d))) \<and> n \<le> unat want \<and> (unat off < length (exported S d) \<longrightarrow> 0 < n)) \<and>
          becomes S (fid_table S d) (exported S d) d')"
    and "healthy S d \<Longrightarrow> fid_table S d f = Some (Opened mode) \<Longrightarrow> may_write mode \<Longrightarrow>
        unat off \<le> length (exported S d) \<Longrightarrow> data \<noteq> [] \<Longrightarrow> length data \<le> P9_MSIZE - 64 \<Longrightarrow> unat off + length data \<le> size_limit S \<Longrightarrow>
        exchange T 0 (Twrite f off data (of_nat (length data))) d (\<lambda>m d'.
          m = Rwrite (of_nat (length (take (write_limit S) data))) \<and>
          becomes S (fid_table S d) (overwrite (unat off) (take (write_limit S) data) (exported S d)) d')"
    and "healthy S d \<Longrightarrow> fid_table S d f = Some (Opened mode) \<Longrightarrow>
        exchange T 0 (Tclunk f) d (\<lambda>m d'. m = Rclunk \<and> becomes S ((fid_table S d)(f := None)) (exported S d) d')"
    and "healthy S d \<Longrightarrow> length (exported S d) < 2 ^ 63" "size_limit S < 2 ^ 63"
  using assms unfolding serves_file_def by blast+

lemma overwrite_end: "overwrite (length xs) data xs = xs @ data"
  by (simp add: overwrite_def)

lemma length_overwrite: "off \<le> length xs \<Longrightarrow> length (overwrite off data xs) = max (length xs) (off + length data)"
  by (simp add: overwrite_def)

lemma strings_length: "length (concat (map string_bytes ws)) \<le> 2 * length ws + sum_list (map length ws)"
proof (induction ws)
  case (Cons w ws)
  have "p9_strlen w \<le> length w" by (simp add: p9_strlen_def cstr_def length_takeWhile_le)
  then show ?case using Cons by (simp add: string_bytes_def)
qed simp

lemma path_names:
  fixes path :: string
  defines "wnames \<equiv> split_path (str_copy P9_PATH_BUF_SIZE path)"
  shows "length wnames \<le> 8" "list_all (\<lambda>s. p9_strlen s < 65536) wnames"
    "length (concat (map string_bytes wnames)) \<le> 300"
proof -
  let ?p = "strip_slash (str_copy P9_PATH_BUF_SIZE path)"
  have p: "length ?p \<le> 255"
  proof -
    have "length (strip_slash q) \<le> length q" for q by (auto simp: strip_slash_def split: list.split)
    moreover have "length (str_copy P9_PATH_BUF_SIZE path) \<le> 255" by (simp add: str_copy_def P9_PATH_BUF_SIZE_def)
    ultimately show ?thesis using order_trans by blast
  qed
  have w: "wnames = split_loop 1 [] ?p" by (simp add: wnames_def split_path_loop)
  show l: "length wnames \<le> 8"
    using split_loop_length [of 1 "[]" ?p] by (simp add: w P9_MAX_PATH_COMPONENTS_def)
  have s: "sum_list (map length wnames) \<le> 255"
    using join_path_length [of wnames] p by (simp add: w join_split_loop)
  then show "length (concat (map string_bytes wnames)) \<le> 300"
    using strings_length [of wnames] l by linarith
  show "list_all (\<lambda>s. p9_strlen s < 65536) wnames"
  proof (unfold list_all_iff, rule ballI)
    fix x assume "x \<in> set wnames"
    then have "length x \<le> 255" using s member_le_sum_list [of "length x" "map length wnames"] by simp
    then show "p9_strlen x < 65536" using length_takeWhile_le [of "\<lambda>c. c \<noteq> CHR 0x00" x]
      by (simp add: p9_strlen_def cstr_def)
  qed
qed

lemma small_messages:
  "length (tmsg_bytes tag (Tversion msize ''9P2000.u'')) \<le> P9_MSIZE"
  "length (tmsg_bytes tag (Tattach fid afid ''root'' [] n_uname)) \<le> P9_MSIZE"
  "length (tmsg_bytes tag (Topen fid mode)) \<le> P9_MSIZE"
  "length (tmsg_bytes tag (Tread fid off want)) \<le> P9_MSIZE"
  "length (tmsg_bytes tag (Tclunk fid)) \<le> P9_MSIZE"
  by (simp_all add: tmsg_bytes_def message_bytes_def P9_MSIZE_def string_bytes_def p9_strlen_def cstr_def)

lemma small_strings: "p9_strlen ''9P2000.u'' < 65536" "p9_strlen ''root'' < 65536" "p9_strlen [] < 65536"
  by (simp_all add: p9_strlen_def cstr_def)

lemma walk_message:
  fixes path :: string
  defines "wnames \<equiv> split_path (str_copy P9_PATH_BUF_SIZE path)"
  shows "tmsg_ok (Twalk 0 fid wnames (of_nat (length wnames)))"
    "length (tmsg_bytes 0 (Twalk 0 fid wnames (of_nat (length wnames)))) \<le> P9_MSIZE"
proof -
  have "unat (of_nat (length wnames) :: u16) = length wnames" using path_names(1) [of path] by (simp add: unat_of_small wnames_def)
  then show "tmsg_ok (Twalk 0 fid wnames (of_nat (length wnames)))"
    "length (tmsg_bytes 0 (Twalk 0 fid wnames (of_nat (length wnames)))) \<le> P9_MSIZE"
    using path_names [of path] by (simp_all add: wnames_def tmsg_bytes_def message_bytes_def P9_MSIZE_def)
qed

subsection \<open>The operations against it\<close>

lemma session_kept:
  assumes T: "serves_session T S" and c: "client_synced S c"
  obtains c' where "os_virtio9p_ensure_session T err c = (Done (), c')" "client_synced S c'" "g_session_ready c'"
    "g_next_fid c' = g_next_fid c" "exported S (device c') = exported S (device c)"
proof (cases "g_session_ready c")
  case False
  have c0: "healthy S (device c)" "messages_ok c" "0 < g_next_fid c" using c by (simp_all add: client_synced_def)
  obtain d where d: "ensure_ready T (device c) = (d, None)" "healthy S d" "exported S d = exported S (device c)"
    using serves_sessionD(1) [OF T c0(1)] by blast
  have m0: "messages_ok (c\<lparr>device := d\<rparr>)" using c0(2) by (simp add: messages_ok_def)
  have e1: "exchange T 0xFFFF (Tversion (of_nat P9_MSIZE) ''9P2000.u'') (device (c\<lparr>device := d\<rparr>))
        (\<lambda>m d'. m = Rversion (of_nat P9_MSIZE) ''9P2000.u'' \<and> becomes S Map.empty (exported S d) d')"
    using serves_sessionD(2) [OF T d(2)] by simp
  obtain m1 c1 where v: "p9_request T (\<lambda>buf. os_p9_build_tversion buf 0xFFFF (of_nat P9_MSIZE) ''9P2000.u'') ''Tversion''
      (\<lambda>rx n. os_p9_parse_rversion rx n 16) ''Tversion: malformed Rversion response'' err (c\<lparr>device := d\<rparr>) = (Done m1, c1)"
      "becomes S Map.empty (exported S d) (device c1)" "messages_ok c1" "g_next_fid c1 = g_next_fid (c\<lparr>device := d\<rparr>)"
    by (rule request_exchanged [OF e1 m0, where
        build = "\<lambda>buf. os_p9_build_tversion buf 0xFFFF (of_nat P9_MSIZE) ''9P2000.u''" and parse = "\<lambda>rx n. os_p9_parse_rversion rx n 16" and
        val = "\<lambda>m. case m of Rversion msize v \<Rightarrow> (msize, take 15 (cstr v)) | _ \<Rightarrow> (0, [])" and
        stage = "''Tversion''" and malformed = "''Tversion: malformed Rversion response''" and err = err])
      (auto simp: small_strings small_messages parse_received_strings)
  have h1: "healthy S (device c1)" "fid_table S (device c1) 0 = None" using v(2) by (simp_all add: becomes_def)
  obtain m2 c2 where a: "p9_request T (\<lambda>buf. os_p9_build_tattach buf 0 0 0xFFFFFFFF ''root'' [] P9_NONUNAME) ''Tattach''
      os_p9_parse_rattach ''Tattach: malformed Rattach response'' err c1 = (Done m2, c2)"
      "becomes S ((fid_table S (device c1))(0 \<mapsto> Attached)) (exported S (device c1)) (device c2)" "messages_ok c2" "g_next_fid c2 = g_next_fid c1"
    by (rule request_exchanged [OF serves_sessionD(3) [OF T h1] v(3), where
        build = "\<lambda>buf. os_p9_build_tattach buf 0 0 0xFFFFFFFF ''root'' [] P9_NONUNAME" and parse = os_p9_parse_rattach and val = "\<lambda>_. ()" and
        stage = "''Tattach''" and malformed = "''Tattach: malformed Rattach response''" and err = err])
      (auto simp: small_strings small_messages parse_received)
  have "os_virtio9p_ensure_session T err c = (Done (), c2\<lparr>g_session_ready := True\<rparr>)"
    using False by (simp add: os_virtio9p_ensure_session_def d(1) v(1) a(1) and_then_def)
  moreover have "client_synced S (c2\<lparr>g_session_ready := True\<rparr>)"
    using a(2-4) v(2,4) c0(3) by (auto simp: client_synced_def becomes_def messages_ok_def)
  ultimately show ?thesis using that a(2,4) v(2,4) d(3) by (simp add: becomes_def)
qed (use that c in \<open>simp add: os_virtio9p_ensure_session_def\<close>)

text \<open>Opening takes the next fid, which the server then holds as open.\<close>

lemma open_kept:
  assumes T: "serves_session T S" "serves_path T S path" and c: "client_synced S c" "g_next_fid c < 0xFFFFFFFF"
    and mode: "mode = P9_OREAD \<or> mode = P9_OWRITE OR P9_OTRUNC"
  obtains c' where "os_virtio9p_open T path mode err c = (Done (g_next_fid c), c')" "client_synced S c'"
    "g_next_fid c' = g_next_fid c + 1" "fid_table S (device c') (g_next_fid c) = Some (Opened mode)" "g_session_ready c'"
    "exported S (device c') = after_open mode (exported S (device c))"
proof -
  let ?ws = "split_path (str_copy P9_PATH_BUF_SIZE path)" and ?fid = "g_next_fid c" and ?K = "exported S (device c)"
  let ?n = "of_nat (length (split_path (str_copy P9_PATH_BUF_SIZE path))) :: u16"
  obtain c1 where s: "os_virtio9p_ensure_session T err c = (Done (), c1)" "client_synced S c1" "g_session_ready c1" "g_next_fid c1 = ?fid"
    "exported S (device c1) = ?K"
    by (rule session_kept [OF T(1) c(1)])
  have c1: "healthy S (device c1)" "messages_ok (c1\<lparr>g_next_fid := ?fid + 1\<rparr>)" "fid_table S (device c1) 0 = Some Attached"
    "0 < ?fid" "\<forall>f \<ge> ?fid. fid_table S (device c1) f = None"
    using s(2-4) by (auto simp: client_synced_def messages_ok_def)
  have fresh: "?fid \<noteq> 0xFFFFFFFF" "fid_table S (device c1) ?fid = None" using c(2) c1(5) by auto
  have walk: "exchange T 0 (Twalk 0 ?fid ?ws ?n) (device (c1\<lparr>g_next_fid := ?fid + 1\<rparr>)) (\<lambda>m d'.
      (\<exists>qids. m = Rwalk qids \<and> length qids = length ?ws) \<and> becomes S ((fid_table S (device c1))(?fid \<mapsto> Walked)) ?K d')"
    using serves_pathD(1) [OF T(2) c1(1,3) fresh] s(5) by simp
  obtain m2 c2 where t: "p9_request T (\<lambda>buf. os_p9_build_twalk buf 0 0 ?fid ?ws ?n) ''Twalk'' os_p9_parse_rwalk
      ''Twalk: malformed Rwalk response'' err (c1\<lparr>g_next_fid := ?fid + 1\<rparr>) =
        (Done (case m2 of Rwalk qids \<Rightarrow> of_nat (length qids) | _ \<Rightarrow> 0), c2)"
      "\<exists>qids. m2 = Rwalk qids \<and> length qids = length ?ws" "becomes S ((fid_table S (device c1))(?fid \<mapsto> Walked)) ?K (device c2)"
      "messages_ok c2" "g_session_ready c2 = g_session_ready (c1\<lparr>g_next_fid := ?fid + 1\<rparr>)" "g_next_fid c2 = g_next_fid (c1\<lparr>g_next_fid := ?fid + 1\<rparr>)"
    by (rule request_exchanged [OF walk c1(2) walk_message [where path = path and fid = ?fid], where
        build = "\<lambda>buf. os_p9_build_twalk buf 0 0 ?fid ?ws ?n" and parse = os_p9_parse_rwalk and
        val = "\<lambda>m. case m of Rwalk qids \<Rightarrow> of_nat (length qids) | _ \<Rightarrow> 0" and
        stage = "''Twalk''" and malformed = "''Twalk: malformed Rwalk response''" and err = err])
      (auto simp: parse_received)
  have d2: "healthy S (device c2)" "fid_table S (device c2) ?fid = Some Walked" using t(3) by (simp_all add: becomes_def)
  obtain m3 c3 where o: "p9_request T (\<lambda>buf. os_p9_build_topen buf 0 ?fid mode) ''Topen'' os_p9_parse_ropen
      ''Topen: malformed Ropen response'' err c2 = (Done m3, c3)" "messages_ok c3"
      "becomes S ((fid_table S (device c2))(?fid \<mapsto> Opened mode)) (after_open mode (exported S (device c2))) (device c3)"
      "g_session_ready c3 = g_session_ready c2" "g_next_fid c3 = g_next_fid c2"
    by (rule request_exchanged [OF serves_pathD(2) [OF T(2) d2 mode] t(4), where
        build = "\<lambda>buf. os_p9_build_topen buf 0 ?fid mode" and parse = os_p9_parse_ropen and val = "\<lambda>_. ()" and
        stage = "''Topen''" and malformed = "''Topen: malformed Ropen response''" and err = err])
      (auto simp: small_messages parse_received)
  have inc: "unat (?fid + 1) = Suc (unat ?fid)" using c(2) by (simp add: word_less_nat_alt unat_word_ariths)
  have "os_virtio9p_open T path mode err c = (Done ?fid, c3)"
    using t(2) by (auto simp: os_virtio9p_open_def s(1,4) t(1) o(1) and_then_def Let_def)
  moreover have "client_synced S c3"
    using o(2-5) t(3,5,6) c1(3-5) s(3) inc
    by (auto simp: client_synced_def becomes_def word_le_nat_alt word_less_nat_alt)
  ultimately show ?thesis using that o(3-5) t(3,5,6) s(3) by (simp add: becomes_def)
qed

lemma close_kept:
  assumes T: "serves_file T S" and c: "client_synced S c" "fid_table S (device c) f = Some (Opened mode)"
  obtains c' where "os_virtio9p_close T f err c = (Done (), c')" "client_synced S c'" "exported S (device c') = exported S (device c)"
    "fid_table S (device c') = (fid_table S (device c))(f := None)" "g_next_fid c' = g_next_fid c"
proof -
  have d: "healthy S (device c)" "messages_ok c" using c by (simp_all add: client_synced_def)
  obtain m1 c1 where r: "p9_request T (\<lambda>buf. os_p9_build_tclunk buf 0 f) ''Tclunk'' os_p9_parse_rclunk
      ''Tclunk: malformed Rclunk response'' err c = (Done m1, c1)" "messages_ok c1"
      "becomes S ((fid_table S (device c))(f := None)) (exported S (device c)) (device c1)"
      "g_session_ready c1 = g_session_ready c" "g_next_fid c1 = g_next_fid c"
    by (rule request_exchanged [OF serves_fileD(3) [OF T d(1) c(2)] d(2), where
        build = "\<lambda>buf. os_p9_build_tclunk buf 0 f" and parse = os_p9_parse_rclunk and val = "\<lambda>_. ()" and
        stage = "''Tclunk''" and malformed = "''Tclunk: malformed Rclunk response''" and err = err])
      (auto simp: small_messages parse_received)
  have "client_synced S c1" using r(2-5) c by (auto simp: client_synced_def becomes_def)
  then show ?thesis using that r(1,3,5) by (simp add: os_virtio9p_close_def becomes_def)
qed

lemma becomes_synced:
  assumes "client_synced S c" "becomes S (fid_table S (device c)) data (device c')" "messages_ok c'"
    "g_session_ready c' = g_session_ready c" "g_next_fid c' = g_next_fid c"
  shows "client_synced S c' \<and> fid_table S (device c') = fid_table S (device c) \<and> exported S (device c') = data"
  using assms by (auto simp: client_synced_def becomes_def)

text \<open>A chunk that is read is the next piece of the file, empty only at its end.\<close>

lemma read_kept:
  assumes T: "serves_file T S" and c: "client_synced S c" "fid_table S (device c) f = Some (Opened mode)" "may_read mode"
    and off: "unat off \<le> length (exported S (device c))" and want: "0 < want" "unat want \<le> P9_MSIZE - 64"
  obtains c' n where "os_virtio9p_read_chunk T f off want err c = (Done (11, of_nat n), c')" "client_synced S c'"
    "fid_table S (device c') = fid_table S (device c)" "exported S (device c') = exported S (device c)" "g_next_fid c' = g_next_fid c"
    "n \<le> unat want" "unat off + n \<le> length (exported S (device c))" "unat off < length (exported S (device c)) \<Longrightarrow> 0 < n"
    "11 + n \<le> length (g_p9_rx_buf c')" "take n (drop 11 (g_p9_rx_buf c')) = take n (drop (unat off) (exported S (device c)))"
proof -
  have d: "healthy S (device c)" "messages_ok c" using c by (simp_all add: client_synced_def)
  let ?K = "exported S (device c)"
  obtain m c' stale where r: "p9_request T (\<lambda>buf. os_p9_build_tread buf 0 f off want) ''Tread'' os_p9_parse_rread
      ''Tread: malformed Rread response'' err c = (Done (case m of Rread data \<Rightarrow> (11, of_nat (length data)) | _ \<Rightarrow> (0, 0)), c')"
      "\<exists>n. m = Rread (take n (drop (unat off) ?K)) \<and> n \<le> unat want \<and> (unat off < length ?K \<longrightarrow> 0 < n)"
      "becomes S (fid_table S (device c)) ?K (device c')" "messages_ok c'"
      "g_p9_rx_buf c' = rmsg_bytes 0 m @ stale" "g_session_ready c' = g_session_ready c" "g_next_fid c' = g_next_fid c"
    by (rule request_exchanged [OF serves_fileD(1) [OF T d(1) c(2,3) off want] d(2), where
        build = "\<lambda>buf. os_p9_build_tread buf 0 f off want" and parse = os_p9_parse_rread and
        val = "\<lambda>m. case m of Rread data \<Rightarrow> (11, of_nat (length data)) | _ \<Rightarrow> (0, 0)" and
        stage = "''Tread''" and malformed = "''Tread: malformed Rread response''" and err = err])
      (auto simp: small_messages parse_received)
  obtain k where k: "m = Rread (take k (drop (unat off) ?K))" "k \<le> unat want" "unat off < length ?K \<longrightarrow> 0 < k"
    using r(2) by blast
  define n where "n = length (take k (drop (unat off) ?K))"
  have n: "take n (drop (unat off) ?K) = take k (drop (unat off) ?K)" "n \<le> k" "unat off + n \<le> length ?K"
    using off by (auto simp: n_def min_def)
  have "os_virtio9p_read_chunk T f off want err c = (Done (11, of_nat n), c')"
    using r(1) unfolding os_virtio9p_read_chunk_def k(1) n_def by simp
  moreover have "0 < n" if "unat off < length ?K" using that k(3) by (simp add: n_def)
  moreover have "11 + n \<le> length (g_p9_rx_buf c')" "take n (drop 11 (g_p9_rx_buf c')) = take n (drop (unat off) ?K)"
    by (simp_all add: r(5) k(1) n(1) rmsg_bytes_def message_bytes_def n_def)
  ultimately show ?thesis
    using that [of n c'] becomes_synced [OF c(1) r(3,4,6,7)] r(7) k(2) n(2,3) by simp
qed

lemma write_kept:
  assumes T: "serves_file T S" and c: "client_synced S c" "fid_table S (device c) f = Some (Opened mode)" "may_write mode"
    and off: "unat off \<le> length (exported S (device c))"
    and data: "data \<noteq> []" "length data \<le> P9_MSIZE - 64" "unat off + length data \<le> size_limit S"
  obtains c' where
    "os_virtio9p_write_chunk T f off data (of_nat (length data)) err c = (Done (of_nat (length (take (write_limit S) data))), c')"
    "client_synced S c'" "fid_table S (device c') = fid_table S (device c)" "g_next_fid c' = g_next_fid c"
    "exported S (device c') = overwrite (unat off) (take (write_limit S) data) (exported S (device c))"
proof -
  have d: "healthy S (device c)" "messages_ok c" using c by (simp_all add: client_synced_def)
  let ?n = "of_nat (length data) :: u32"
  have n: "unat ?n = length data" using data(2) by (simp add: unat_of_small P9_MSIZE_def)
  have req: "tmsg_ok (Twrite f off data ?n)" "length (tmsg_bytes 0 (Twrite f off data ?n)) \<le> P9_MSIZE"
    using data(2) by (simp_all add: n tmsg_bytes_def message_bytes_def P9_MSIZE_def)
  obtain m c' where r: "p9_request T (\<lambda>buf. os_p9_build_twrite buf 0 f off data ?n) ''Twrite'' os_p9_parse_rwrite
      ''Twrite: malformed Rwrite response'' err c = (Done (case m of Rwrite k \<Rightarrow> k | _ \<Rightarrow> 0), c')"
      "m = Rwrite (of_nat (length (take (write_limit S) data)))"
      "becomes S (fid_table S (device c)) (overwrite (unat off) (take (write_limit S) data) (exported S (device c))) (device c')"
      "messages_ok c'" "g_session_ready c' = g_session_ready c" "g_next_fid c' = g_next_fid c"
    by (rule request_exchanged [OF serves_fileD(2) [OF T d(1) c(2,3) off data] d(2) req, where
        build = "\<lambda>buf. os_p9_build_twrite buf 0 f off data ?n" and parse = os_p9_parse_rwrite and
        val = "\<lambda>m. case m of Rwrite k \<Rightarrow> k | _ \<Rightarrow> 0" and
        stage = "''Twrite''" and malformed = "''Twrite: malformed Rwrite response''" and err = err])
      (auto simp: parse_received)
  then show ?thesis using that becomes_synced [OF c(1) r(3-6)] by (simp add: os_virtio9p_write_chunk_def)
qed

lemma chunk_size: "(if a < b then a else b) = min a (b :: nat)"
  by (simp add: min_def)

lemma load_loop_read:
  assumes "length acc < cap"
    "os_virtio9p_read_chunk T fid (of_nat (length acc)) (of_nat (min (P9_MSIZE - 64) (cap - length acc))) err c =
       (Done (pos, count), c1)"
  shows "load_loop T fid cap err acc c =
    (if count = 0 then (Done acc, c1)
     else if cap - length acc < unat count \<or> length (g_p9_rx_buf c1) < pos + unat count then (Fault, c1)
     else load_loop T fid cap err (acc @ take (unat count) (drop pos (g_p9_rx_buf c1))) c1)"
proof -
  have "cap - length acc \<noteq> 0" using assms(1) by simp
  then show ?thesis by (subst load_loop.simps) (simp only: Let_def chunk_size assms(2) prod.case p9_result.case if_False)
qed

lemma load_loop_served:
  assumes T: "serves_file T S" and sizes: "cap < 4294967296" and mode: "may_read mode"
  shows "client_synced S c \<Longrightarrow> fid_table S (device c) f = Some (Opened mode) \<Longrightarrow> exported S (device c) = K \<Longrightarrow> k \<le> length K \<Longrightarrow> k \<le> cap \<Longrightarrow>
    \<exists>c'. load_loop T f cap err (take k K) c = (Done (take cap K), c') \<and> client_synced S c' \<and>
      fid_table S (device c') f = Some (Opened mode) \<and> exported S (device c') = K \<and> g_next_fid c' = g_next_fid c"
proof (induction "cap - k" arbitrary: k c rule: less_induct)
  case less
  show ?case
  proof (cases "cap - k = 0")
    case True
    then show ?thesis using less.prems by (subst load_loop.simps) (simp add: Let_def)
  next
    case False
    let ?room = "cap - k" and ?off = "of_nat k :: u64"
    let ?want = "of_nat (min (P9_MSIZE - 64) ?room) :: u32"
    have off: "unat ?off = k" using less.prems(5) sizes by (simp add: unsigned_of_nat take_bit_nat_eq_self)
    have want: "unat ?want = min (P9_MSIZE - 64) ?room"
      using sizes by (simp add: unat_of_small min_def P9_MSIZE_def)
    have w0: "0 < ?want" using False want by (simp add: word_less_nat_alt P9_MSIZE_def)
    obtain c1 n where r: "os_virtio9p_read_chunk T f ?off ?want err c = (Done (11, of_nat n), c1)" "client_synced S c1"
      "fid_table S (device c1) = fid_table S (device c)" "exported S (device c1) = exported S (device c)" "g_next_fid c1 = g_next_fid c"
      "n \<le> unat ?want" "unat ?off + n \<le> length (exported S (device c))" "unat ?off < length (exported S (device c)) \<Longrightarrow> 0 < n"
      "11 + n \<le> length (g_p9_rx_buf c1)"
      "take n (drop 11 (g_p9_rx_buf c1)) = take n (drop (unat ?off) (exported S (device c)))"
      by (rule read_kept [OF T less.prems(1,2) mode, of ?off ?want err])
        (use w0 want less.prems(3,4) in \<open>simp_all add: off\<close>)
    have n: "unat (of_nat n :: u32) = n" using r(6) want sizes by (simp add: unat_of_small P9_MSIZE_def)
    have n0: "(of_nat n :: u32) = 0 \<longleftrightarrow> n = 0" unfolding unat_eq_zero [symmetric] n ..
    have fit: "n \<le> cap - k" "k + n \<le> length K" "k < length K \<Longrightarrow> 0 < n"
      using r(6-8) unfolding want off less.prems(3) by simp_all
    have l: "length (take k K) = k" using less.prems(4) by simp
    have room: "length (take k K) < cap" "n \<le> cap - length (take k K)"
      using False fit(1) unfolding l by simp_all
    have read: "os_virtio9p_read_chunk T f (of_nat (length (take k K)))
        (of_nat (min (P9_MSIZE - 64) (cap - length (take k K)))) err c = (Done (11, of_nat n), c1)"
      unfolding l by (rule r(1))
    have loop: "load_loop T f cap err (take k K) c =
        (if n = 0 then (Done (take k K), c1)
         else load_loop T f cap err (take k K @ take n (drop 11 (g_p9_rx_buf c1))) c1)"
      unfolding load_loop_read [OF room(1) read] n n0 using room(2) r(9) by (simp only: not_le [symmetric] simp_thms if_False)
    show ?thesis
    proof (cases "n = 0")
      case True
      then have "k = length K" using fit(3) less.prems(4) le_neq_implies_less by blast
      then have "take k K = take cap K" using less.prems(5) by simp
      then show ?thesis unfolding loop using True r(2-5) less.prems(2,3) by simp
    next
      case count: False
      have "take k K @ take n (drop 11 (g_p9_rx_buf c1)) = take (k + n) K"
        unfolding r(10) off less.prems(3) by (simp add: take_add)
      moreover have "\<exists>c'. load_loop T f cap err (take (k + n) K) c1 = (Done (take cap K), c') \<and> client_synced S c' \<and>
          fid_table S (device c') f = Some (Opened mode) \<and> exported S (device c') = K \<and> g_next_fid c' = g_next_fid c1"
        using count fit(1,2) False by (intro less.hyps) (simp_all add: r(2-4) less.prems(2,3))
      ultimately show ?thesis using count r(5) by (simp add: loop)
    qed
  qed
qed

subsection \<open>A server with one file\<close>

text \<open>
  A server for the examples: it exports one file, \<open>f\<close>, of at most \<open>room\<close> bytes, stores at most \<open>iounit\<close> bytes
  of a write, keeps the table of fids and refuses a request on a fid that is not in the state for it.
\<close>

record ramdisk =
  request :: "u8 list"
  disk :: "u8 list"
  fid_uses :: "u32 \<Rightarrow> fid_use option"

primrec le_value :: "u8 list \<Rightarrow> nat" where
  "le_value [] = 0"
| "le_value (b # bs) = unat b + 256 * le_value bs"

lemma le_Suc: "le (Suc n) x = of_nat x # le n (x div 256)"
  by (simp add: le_def upt_conv_Cons map_Suc_upt [symmetric] div_mult2_eq del: upt_Suc)

lemma le_value_le: "x < 256 ^ n \<Longrightarrow> le_value (le n x) = x"
proof (induction n arbitrary: x)
  case (Suc n)
  then have "x div 256 < 256 ^ n" by (simp add: less_mult_imp_div_less mult.commute)
  then show ?case using Suc.IH by (simp add: le_Suc unsigned_of_nat take_bit_eq_mod)
qed (simp add: le_def)

definition opened_with :: "(u8 \<Rightarrow> bool) \<Rightarrow> fid_use option \<Rightarrow> bool" where
  "opened_with access use = (case use of Some (Opened mode) \<Rightarrow> access mode | _ \<Rightarrow> False)"

definition ramdisk_reply :: "nat \<Rightarrow> nat \<Rightarrow> ramdisk \<Rightarrow> rmsg \<times> ramdisk" where
  "ramdisk_reply iounit room d =
     (let req = request d; ty = req ! 4; f = of_nat (le_value (take 4 (drop 7 req))); newfid = of_nat (le_value (take 4 (drop 11 req)));
          off = le_value (take 8 (drop 11 req)); fids = fid_uses d; refused = (Rerror ''refused'' 22, d) in
      if ty = P9_TVERSION then (Rversion 8192 ''9P2000.u'', d\<lparr>fid_uses := Map.empty\<rparr>)
      else if ty = P9_TATTACH
      then if fids f = None then (Rattach (replicate 13 0), d\<lparr>fid_uses := fids(f \<mapsto> Attached)\<rparr>) else refused
      else if ty = P9_TWALK
      then if fids f = Some Attached \<and> fids newfid = None \<and> drop 15 req = le 2 1 @ string_bytes ''f''
           then (Rwalk [replicate 13 0], d\<lparr>fid_uses := fids(newfid \<mapsto> Walked)\<rparr>) else refused
      else if ty = P9_TOPEN
      then if fids f = Some Walked
           then (Ropen (replicate 13 0) (of_nat iounit),
                 d\<lparr>fid_uses := fids(f \<mapsto> Opened (req ! 11)), disk := after_open (req ! 11) (disk d)\<rparr>) else refused
      else if ty = P9_TREAD
      then if opened_with may_read (fids f)
           then (Rread (take (le_value (take 4 (drop 19 req))) (drop off (disk d))), d) else refused
      else if ty = P9_TWRITE
      then let data = take iounit (drop 23 req) in
           if opened_with may_write (fids f) \<and> off \<le> length (disk d) \<and> off + length data \<le> room
           then (Rwrite (of_nat (length data)), d\<lparr>disk := overwrite off data (disk d)\<rparr>) else refused
      else if ty = P9_TCLUNK \<and> fids f \<noteq> None then (Rclunk, d\<lparr>fid_uses := fids(f := None)\<rparr>)
      else refused)"

definition ramdisk_transport :: "(ramdisk \<Rightarrow> rmsg \<times> ramdisk) \<Rightarrow> ramdisk p9_transport" where
  "ramdisk_transport reply = \<lparr>ensure_ready = (\<lambda>d. (d, None)),
     send = (\<lambda>d tx n cap. (d\<lparr>request := take (unat n) tx\<rparr>, None)),
     recv = (\<lambda>d rx. let (r, d') = reply d;
         m = rmsg_bytes (if request d ! 4 = P9_TVERSION then 0xFFFF else 0) r
       in (d', m @ drop (length m) rx, Inr (of_nat (length m))))\<rparr>"

definition ramdisk_server :: "nat \<Rightarrow> nat \<Rightarrow> ramdisk p9_server" where
  "ramdisk_server iounit room = \<lparr>healthy = (\<lambda>d. length (disk d) < 2 ^ 63), fid_table = fid_uses, exported = disk,
     write_limit = iounit, size_limit = room\<rparr>"

definition ramdisk_start :: "u8 list \<Rightarrow> ramdisk" where
  "ramdisk_start data = \<lparr>request = [], disk = data, fid_uses = Map.empty\<rparr>"

lemma ram_type: "tmsg_bytes tag m ! 4 = tmsg_type m"
  by (simp add: tmsg_bytes_def message_bytes_def nth_append)

lemma ramdisk_exchange:
  assumes r: "reply (d\<lparr>request := tmsg_bytes tag req\<rparr>) = (m, d')" and Q: "Q m d'"
    and tag: "tag = (if tmsg_type req = P9_TVERSION then 0xFFFF else 0)"
    and small: "length (tmsg_bytes tag req) \<le> P9_MSIZE" "rmsg_ok m" "length (rmsg_body m) \<le> P9_MSIZE - 7"
  shows "exchange (ramdisk_transport reply) tag req d Q"
  unfolding exchange_def
proof (intro allI impI)
  fix tx rx :: "u8 list"
  assume a: "take (length (tmsg_bytes tag req)) tx = tmsg_bytes tag req"
  have n: "unat (of_nat (length (tmsg_bytes tag req)) :: u32) = length (tmsg_bytes tag req)"
    using small(1) by (simp add: unat_of_small P9_MSIZE_def)
  have len: "length (rmsg_bytes tag m) \<le> P9_MSIZE"
    using small(3) by (simp add: rmsg_bytes_def message_bytes_def P9_MSIZE_def)
  let ?d = "d\<lparr>request := tmsg_bytes tag req\<rparr>"
  have "send (ramdisk_transport reply) d tx (of_nat (length (tmsg_bytes tag req))) (of_nat P9_MSIZE) = (?d, None)"
    by (simp add: ramdisk_transport_def n a)
  moreover have "recv (ramdisk_transport reply) ?d rx =
      (d', rmsg_bytes tag m @ drop (length (rmsg_bytes tag m)) rx, Inr (of_nat (length (rmsg_bytes tag m))))"
    by (simp add: ramdisk_transport_def r ram_type tag [symmetric] Let_def)
  ultimately show "\<exists>d' d'' m. send (ramdisk_transport reply) d tx (of_nat (length (tmsg_bytes tag req))) (of_nat P9_MSIZE) = (d', None) \<and>
      Q m d'' \<and> rmsg_ok m \<and> length (rmsg_bytes tag m) \<le> P9_MSIZE \<and>
      recv (ramdisk_transport reply) d' rx = (d'', rmsg_bytes tag m @ drop (length (rmsg_bytes tag m)) rx, Inr (of_nat (length (rmsg_bytes tag m))))"
    using Q len small(2) by blast
qed

lemma ram_fields:
  "take 4 (drop 7 (tmsg_bytes tag (Tattach f afid u a n))) = le 4 (unat f)"
  "take 4 (drop 7 (tmsg_bytes tag (Topen f mode))) = le 4 (unat f)" "tmsg_bytes tag (Topen f mode) ! 11 = mode"
  "take 4 (drop 7 (tmsg_bytes tag (Tclunk f))) = le 4 (unat f)"
  "take 4 (drop 7 (tmsg_bytes tag (Tread f off want))) = le 4 (unat f)"
  "take 8 (drop 11 (tmsg_bytes tag (Tread f off want))) = le 8 (unat off)"
  "take 4 (drop 19 (tmsg_bytes tag (Tread f off want))) = le 4 (unat want)"
  "take 4 (drop 7 (tmsg_bytes tag (Twalk f newfid ws nwname))) = le 4 (unat f)"
  "take 4 (drop 11 (tmsg_bytes tag (Twalk f newfid ws nwname))) = le 4 (unat newfid)"
  "drop 15 (tmsg_bytes tag (Twalk f newfid [w] 1)) = le 2 1 @ string_bytes w"
  "take 4 (drop 7 (tmsg_bytes tag (Twrite f off data count))) = le 4 (unat f)"
  "take 8 (drop 11 (tmsg_bytes tag (Twrite f off data count))) = le 8 (unat off)"
  "drop 23 (tmsg_bytes tag (Twrite f off data count)) = take (unat count) data"
  by (simp_all add: tmsg_bytes_def message_bytes_def nth_append)

lemma le_value_words:
  "le_value (le 4 0) = 0" "le_value (le 2 (unat (x :: u16))) = unat x" "le_value (le 4 (unat (y :: u32))) = unat y" "le_value (le 8 (unat (z :: u64))) = unat z"
  by (simp_all add: le_value_le unat_lt16 unat_lt32 unat_lt64)

lemmas message_sizes = small_messages [unfolded P9_MSIZE_def]

lemmas ramdisk_reply_simps = ramdisk_reply_def ram_type ram_fields le_value_words p9_types Let_def

lemmas ramdisk_server_simps = ramdisk_server_def becomes_def P9_MSIZE_def

lemma ramdisk_serves_file:
  assumes "iounit < 4294967296" "room < 2 ^ 63"
  shows "serves_file (ramdisk_transport (ramdisk_reply iounit room)) (ramdisk_server iounit room)"
proof -
  let ?T = "ramdisk_transport (ramdisk_reply iounit room)" and ?S = "ramdisk_server iounit room"
  have "exchange ?T 0 (Tread f off want) d (\<lambda>m d'.
          (\<exists>n. m = Rread (take n (drop (unat off) (exported ?S d))) \<and> n \<le> unat want \<and> (unat off < length (exported ?S d) \<longrightarrow> 0 < n)) \<and>
          becomes ?S (fid_table ?S d) (exported ?S d) d')"
    if a: "healthy ?S d" "fid_table ?S d f = Some (Opened mode)" "may_read mode" "0 < want" "unat want \<le> P9_MSIZE - 64"
    for d f mode and off :: u64 and want :: u32
  proof -
    have "0 < unat want" using a(4) by (simp add: word_less_nat_alt)
    then show ?thesis using a
      by (intro ramdisk_exchange) (auto simp: ramdisk_reply_simps message_sizes ramdisk_server_simps opened_with_def)
  qed
  moreover have "exchange ?T 0 (Twrite f off data (of_nat (length data))) d (\<lambda>m d'.
          m = Rwrite (of_nat (length (take (write_limit ?S) data))) \<and>
          becomes ?S (fid_table ?S d) (overwrite (unat off) (take (write_limit ?S) data) (exported ?S d)) d')"
    if a: "healthy ?S d" "fid_table ?S d f = Some (Opened mode)" "may_write mode" "unat off \<le> length (exported ?S d)"
      "length data \<le> P9_MSIZE - 64" "unat off + length data \<le> size_limit ?S"
    for d f mode and off :: u64 and data :: "u8 list"
  proof -
    have n: "unat (of_nat (length data) :: u32) = length data" using a(5) by (simp add: unat_of_small P9_MSIZE_def)
    have size: "length (tmsg_bytes 0 (Twrite f off data (of_nat (length data)))) \<le> 8192"
      using a(5) n by (simp add: tmsg_bytes_def message_bytes_def P9_MSIZE_def)
    show ?thesis using a assms(2)
      by (intro ramdisk_exchange)
        (auto simp: ramdisk_reply_simps n size ramdisk_server_simps opened_with_def length_overwrite)
  qed
  moreover have "exchange ?T 0 (Tclunk f) d (\<lambda>m d'. m = Rclunk \<and> becomes ?S ((fid_table ?S d)(f := None)) (exported ?S d) d')"
    if a: "healthy ?S d" "fid_table ?S d f = Some (Opened mode)" for d f mode
    using that by (intro ramdisk_exchange) (auto simp: ramdisk_reply_simps message_sizes ramdisk_server_simps)
  moreover have "healthy ?S d \<Longrightarrow> length (exported ?S d) < 2 ^ 63" "size_limit ?S < 2 ^ 63" for d
    using assms(2) by (simp_all add: ramdisk_server_def)
  ultimately show ?thesis unfolding serves_file_def by blast
qed

lemma ramdisk_serves_session:
  assumes "\<And>d. request d ! 4 = P9_TVERSION \<or> request d ! 4 = P9_TATTACH \<Longrightarrow> reply d = ramdisk_reply iounit room d"
  shows "serves_session (ramdisk_transport reply) (ramdisk_server iounit room)"
proof -
  let ?T = "ramdisk_transport reply" and ?S = "ramdisk_server iounit room"
  have version: "length (string_bytes ''9P2000.u'') = 10" by (simp add: string_bytes_def p9_strlen_def cstr_def)
  have "exchange ?T 0xFFFF (Tversion (of_nat P9_MSIZE) ''9P2000.u'') d
        (\<lambda>m d'. m = Rversion (of_nat P9_MSIZE) ''9P2000.u'' \<and> becomes ?S Map.empty (exported ?S d) d')" if "healthy ?S d" for d
    using that
    by (intro ramdisk_exchange)
      (auto simp: assms ramdisk_reply_simps message_sizes small_strings ramdisk_server_simps version)
  moreover have "exchange ?T 0 (Tattach 0 0xFFFFFFFF ''root'' [] P9_NONUNAME) d
          (\<lambda>m d'. (\<exists>qid. m = Rattach qid) \<and> becomes ?S ((fid_table ?S d)(0 \<mapsto> Attached)) (exported ?S d) d')"
    if "healthy ?S d" "fid_table ?S d 0 = None" for d
    using that
    by (intro ramdisk_exchange)
      (auto simp: assms ramdisk_reply_simps message_sizes ramdisk_server_simps P9_QID_SIZE_def)
  ultimately show ?thesis unfolding serves_session_def by (simp add: ramdisk_transport_def)
qed

lemma ramdisk_serves_path:
  assumes "\<And>d. request d ! 4 = P9_TWALK \<or> request d ! 4 = P9_TOPEN \<Longrightarrow> reply d = ramdisk_reply iounit room d"
    and path: "split_path (str_copy P9_PATH_BUF_SIZE path) = [''f'']"
  shows "serves_path (ramdisk_transport reply) (ramdisk_server iounit room) path"
proof -
  let ?T = "ramdisk_transport reply" and ?S = "ramdisk_server iounit room"
  have "exchange ?T 0 (Twalk 0 f [''f''] 1) d (\<lambda>m d'.
          (\<exists>qids. m = Rwalk qids \<and> length qids = 1) \<and> becomes ?S ((fid_table ?S d)(f \<mapsto> Walked)) (exported ?S d) d')"
    if "healthy ?S d" "fid_table ?S d 0 = Some Attached" "fid_table ?S d f = None" for d f
    using that walk_message(2) [where path = path and fid = f, unfolded path P9_MSIZE_def]
    by (intro ramdisk_exchange)
      (auto simp: assms(1) ramdisk_reply_simps ramdisk_server_simps P9_QID_SIZE_def)
  moreover have "exchange ?T 0 (Topen f mode) d (\<lambda>m d'. (\<exists>qid n. m = Ropen qid n) \<and>
          becomes ?S ((fid_table ?S d)(f \<mapsto> Opened mode)) (after_open mode (exported ?S d)) d')"
    if "healthy ?S d" "fid_table ?S d f = Some Walked" for d f mode
    using that
    by (intro ramdisk_exchange)
      (auto simp: assms(1) ramdisk_reply_simps message_sizes ramdisk_server_simps P9_QID_SIZE_def after_open_def)
  ultimately show ?thesis unfolding serves_path_def Let_def path by simp
qed

lemma ramdisk_path: "split_path (str_copy P9_PATH_BUF_SIZE ''f'') = [''f'']" "split_path (str_copy P9_PATH_BUF_SIZE ''/f'') = [''f'']"
  by code_simp+

lemma ramdisk_serves:
  "serves_session (ramdisk_transport (ramdisk_reply iounit room)) (ramdisk_server iounit room)"
  "split_path (str_copy P9_PATH_BUF_SIZE path) = [''f''] \<Longrightarrow>
     serves_path (ramdisk_transport (ramdisk_reply iounit room)) (ramdisk_server iounit room) path"
  by (rule ramdisk_serves_session ramdisk_serves_path; simp)+

lemma ramdisk_start_synced: "length data < 2 ^ 63 \<Longrightarrow> client_synced (ramdisk_server iounit room) (client_init (ramdisk_start data))"
  by (simp add: client_synced_def messages_ok_def client_init_def ramdisk_server_def ramdisk_start_def)

subsection \<open>Properties of the client\<close>

text \<open>
  C8. Against a server that exports a file as 9P2000 has it, \<open>os_virtio9p_load_file\<close> always returns,
  and returns the file, cut to the capacity of the caller's buffer, however the server splits it
  into chunks. The fid it took is free again, and the client and the server still agree. The fids, of
  which each call takes one, must not have run out.
\<close>

theorem load_file_content:
  assumes "serves_session T S" "serves_path T S path" "serves_file T S" "client_synced S c" "g_next_fid c < 0xFFFFFFFF"
    "cap < 4294967296"
  shows "\<exists>c'. os_virtio9p_load_file T path cap err c = (Done (take cap (exported S (device c))), c') \<and> client_synced S c' \<and>
    g_next_fid c' = g_next_fid c + 1 \<and> fid_table S (device c') (g_next_fid c) = None \<and> exported S (device c') = exported S (device c)"
proof -
  let ?K = "exported S (device c)" and ?f = "g_next_fid c"
  have trunc: "after_open P9_OREAD K = K" and mode: "may_read P9_OREAD" for K
    by (simp_all add: after_open_def P9_OREAD_def may_read_def)
  obtain c1 where o: "os_virtio9p_open T path P9_OREAD err c = (Done ?f, c1)" "client_synced S c1" "g_next_fid c1 = ?f + 1"
    "fid_table S (device c1) ?f = Some (Opened P9_OREAD)" "exported S (device c1) = ?K"
    by (rule open_kept [OF assms(1,2,4,5), of P9_OREAD err]) (simp_all add: trunc)
  obtain c2 where l: "load_loop T ?f cap err [] c1 = (Done (take cap ?K), c2)" "client_synced S c2"
    "fid_table S (device c2) ?f = Some (Opened P9_OREAD)" "exported S (device c2) = ?K" "g_next_fid c2 = g_next_fid c1"
    using load_loop_served [OF assms(3,6) mode o(2,4,5), of 0 err] by auto
  obtain c3 where "os_virtio9p_close T ?f err c2 = (Done (), c3)" "client_synced S c3" "exported S (device c3) = exported S (device c2)"
    "fid_table S (device c3) = (fid_table S (device c2))(?f := None)" "g_next_fid c3 = g_next_fid c2"
    by (rule close_kept [OF assms(3) l(2,3)])
  then show ?thesis using l(4,5) o(3) by (simp add: os_virtio9p_load_file_def o(1) l(1) and_then_def)
qed

theorem load_file_content_witness:
  "\<exists>c'. os_virtio9p_load_file (ramdisk_transport (ramdisk_reply 512 4096)) ''f'' 100 (Some 80) (client_init (ramdisk_start [42, 43])) =
     (Done [42, 43], c')"
  using load_file_content [OF ramdisk_serves(1) ramdisk_serves(2) [OF ramdisk_path(1)] ramdisk_serves_file
      ramdisk_start_synced [of "[42, 43]"], of 512 4096 100 "Some 80"]
  by (auto simp: client_init_def ramdisk_server_def ramdisk_start_def)

text \<open>
  C36. The client trusts the count of an Rread: when a server that else conforms answers the
  first read of a file with more data than the caller's buffer holds, the copy runs past that buffer.
\<close>

theorem load_file_trusts_count:
  assumes "serves_session T S" "serves_path T S path" "client_synced S c" "g_next_fid c < 0xFFFFFFFF" "0 < cap" "cap < 4294967296"
    "\<And>d. fid_table S d (g_next_fid c) = Some (Opened P9_OREAD) \<Longrightarrow>
       exchange T 0 (Tread (g_next_fid c) 0 (of_nat (min (P9_MSIZE - 64) cap))) d (\<lambda>m d'. \<exists>data. m = Rread data \<and> cap < length data)"
  shows "fst (os_virtio9p_load_file T path cap err c) = Fault"
proof -
  let ?fid = "g_next_fid c" and ?want = "of_nat (min (P9_MSIZE - 64) cap) :: u32"
  obtain c1 where o: "os_virtio9p_open T path P9_OREAD err c = (Done ?fid, c1)" "messages_ok c1"
    "fid_table S (device c1) ?fid = Some (Opened P9_OREAD)"
    by (rule open_kept [OF assms(1-4), of P9_OREAD err]) (simp_all add: client_synced_def)
  obtain m c2 stale where r: "p9_request T (\<lambda>buf. os_p9_build_tread buf 0 ?fid 0 ?want) ''Tread'' os_p9_parse_rread
      ''Tread: malformed Rread response'' err c1 = (Done (case m of Rread data \<Rightarrow> (11, of_nat (length data)) | _ \<Rightarrow> (0, 0)), c2)"
      "\<exists>data. m = Rread data \<and> cap < length data" "messages_ok c2" "g_p9_rx_buf c2 = rmsg_bytes 0 m @ stale"
    by (rule request_exchanged [OF assms(7) [OF o(3)] o(2), where
        build = "\<lambda>buf. os_p9_build_tread buf 0 ?fid 0 ?want" and parse = os_p9_parse_rread and
        val = "\<lambda>m. case m of Rread data \<Rightarrow> (11, of_nat (length data)) | _ \<Rightarrow> (0, 0)" and
        stage = "''Tread''" and malformed = "''Tread: malformed Rread response''" and err = err])
      (auto simp: small_messages parse_received)
  obtain data where data: "m = Rread data" "cap < length data" using r(2) by blast
  have "length (rmsg_bytes 0 m) \<le> P9_MSIZE" using r(3,4) by (auto simp: messages_ok_def)
  then have "length data < 4294967296" by (simp add: data rmsg_bytes_def message_bytes_def P9_MSIZE_def)
  then have u: "unat (of_nat (length data) :: u32) = length data" by (simp add: unat_of_small)
  then have "(of_nat (length data) :: u32) \<noteq> 0" using data(2) by (metis less_nat_zero_code unat_0)
  then have "load_loop T ?fid cap err [] c1 = (Fault, c2)"
    using r(1) data assms(5) load_loop_read [of "[]" cap T ?fid err c1 11 "of_nat (length data)" c2]
    by (simp add: os_virtio9p_read_chunk_def u)
  then show ?thesis by (simp add: os_virtio9p_load_file_def o(1) and_then_def)
qed

theorem load_file_trusts_count_witness:
  "fst (os_virtio9p_load_file (ramdisk_transport (\<lambda>d. if request d ! 4 = P9_TREAD then (Rread [1, 2], d) else ramdisk_reply 512 4096 d))
     ''f'' 1 (Some 80) (client_init (ramdisk_start [1]))) = Fault"
proof (rule load_file_trusts_count [where S = "ramdisk_server 512 4096"])
  let ?reply = "\<lambda>d. if request d ! 4 = P9_TREAD then (Rread [1, 2], d) else ramdisk_reply 512 4096 d"
  show "serves_session (ramdisk_transport ?reply) (ramdisk_server 512 4096)"
    by (rule ramdisk_serves_session) (auto simp: p9_types)
  show "serves_path (ramdisk_transport ?reply) (ramdisk_server 512 4096) ''f''"
    by (rule ramdisk_serves_path [OF _ ramdisk_path(1)]) (auto simp: p9_types)
  show "exchange (ramdisk_transport ?reply) 0
      (Tread (g_next_fid (client_init (ramdisk_start [1]))) 0 (of_nat (min (P9_MSIZE - 64) 1))) d
      (\<lambda>m d'. \<exists>data. m = Rread data \<and> 1 < length data)" for d
    by (rule ramdisk_exchange [where m = "Rread [1, 2]" and d' = "d\<lparr>request := tmsg_bytes 0
        (Tread (g_next_fid (client_init (ramdisk_start [1]))) 0 (of_nat (min (P9_MSIZE - 64) 1)))\<rparr>"])
      (simp_all add: ram_type p9_types small_messages, simp add: P9_MSIZE_def)
qed (simp_all add: ramdisk_start_synced, simp add: client_init_def)

text \<open>
  When a read fails and the transport then refuses the Tclunk of the clean-up, the error
  text of the clean-up is appended through the null buffer it was given.
\<close>

theorem load_file_null_error:
  assumes "os_virtio9p_open T path P9_OREAD err c = (Done fid, c1)" "0 < cap" "cap < 4294967296"
    "os_virtio9p_read_chunk T fid 0 (of_nat (min (P9_MSIZE - 64) cap)) err c1 = (Failed e, c2)"
    "11 \<le> length (g_p9_tx_buf c2)" "length (g_p9_tx_buf c2) < 4294967296"
    "\<forall>tx n k. snd (send T (device c2) tx n k) \<noteq> None"
  shows "fst (os_virtio9p_load_file T path cap err c) = Fault"
proof -
  have "length (tmsg_bytes 0 (Tclunk fid)) = 11" by (simp add: tmsg_bytes_def message_bytes_def)
  then obtain tx n where b: "os_p9_build_tclunk (g_p9_tx_buf c2) 0 fid = Some (tx, n)"
    using build_tmsg [of "Tclunk fid" "g_p9_tx_buf c2" 0] assms(5,6) by auto
  obtain d e' where "send T (device c2) tx (of_nat n) (of_nat (length (g_p9_rx_buf c2))) = (d, Some e')"
    using assms(7) by (metis option.exhaust prod.collapse)
  then have "fst (os_virtio9p_close T fid None c2) = Fault"
    by (simp add: os_virtio9p_close_def p9_request_def b p9_rpc_def stage_error_def)
  then have "fst (load_loop T fid cap err [] c1) = Fault"
    using assms(2,4) by (subst load_loop.simps) (auto simp: Let_def chunk_size split: prod.split)
  then show ?thesis by (cases "load_loop T fid cap err [] c1") (simp add: os_virtio9p_load_file_def assms(1) and_then_def)
qed

text \<open>
  \<open>split_path\<close> cuts a path into at most 8 names that join back to it, and when it has at
  most 7 inner slashes no name holds a slash. It never yields an empty list, so the
  empty-path error of \<open>os_virtio9p_create\<close> cannot happen.
\<close>

theorem split_path_names:
  "join_path (split_path p) = strip_slash p \<and> split_path p \<noteq> [] \<and> length (split_path p) \<le> P9_MAX_PATH_COMPONENTS \<and>
   (length (filter ((=) (CHR ''/'')) (strip_slash p)) < P9_MAX_PATH_COMPONENTS \<longrightarrow>
      (\<forall>w \<in> set (split_path p). CHR ''/'' \<notin> set w))"
  using split_loop_nonempty [of 1 "[]" "strip_slash p"] split_loop_length [of 1 "[]" "strip_slash p"]
    split_loop_names [of "[]" 1 "strip_slash p"]
  by (auto simp: split_path_loop join_split_loop P9_MAX_PATH_COMPONENTS_def)

text \<open>
  C24. Over any sequence of calls, with any transport, the fids that open and create hand out
  are pairwise distinct and never 0 (the root), lie below the next one, and exist only
  once the session has been established, as long as fewer than 2^32 - 1 calls took a fid.
\<close>

theorem fids_distinct:
  assumes "client_run T c fids n" "n < 4294967295"
  shows "distinct fids \<and> 0 \<notin> set fids \<and> (\<forall>fid \<in> set fids. fid < g_next_fid c) \<and> (fids \<noteq> [] \<longrightarrow> g_session_ready c)"
  using client_run_fids [OF assms] by (auto simp: fids_ok_def list_all_iff)

theorem fids_distinct_witness:
  "\<exists>c f g. client_run (ramdisk_transport (ramdisk_reply 512 4096)) c [f, g] 2 \<and> f \<noteq> g \<and> f \<noteq> 0"
proof -
  let ?T = "ramdisk_transport (ramdisk_reply 512 4096)" and ?S = "ramdisk_server 512 4096" and ?c = "client_init (ramdisk_start [42])"
  note T = ramdisk_serves(1) [of 512 4096] ramdisk_serves(2) [OF ramdisk_path(1), of 512 4096]
  have c: "client_synced ?S ?c" "g_next_fid ?c < 0xFFFFFFFF" by (simp add: ramdisk_start_synced) (simp add: client_init_def)
  obtain c1 where c1: "os_virtio9p_open ?T ''f'' P9_OREAD None ?c = (Done (g_next_fid ?c), c1)" "client_synced ?S c1"
    "g_next_fid c1 = g_next_fid ?c + 1"
    by (rule open_kept [OF T c, of P9_OREAD None]) simp_all
  have n1: "g_next_fid c1 < 0xFFFFFFFF" using c1(3) by (simp add: client_init_def)
  obtain c2 where c2: "os_virtio9p_open ?T ''f'' P9_OREAD None c1 = (Done (g_next_fid c1), c2)"
    by (rule open_kept [OF T c1(2) n1, of P9_OREAD None]) simp_all
  have "client_run ?T c2 (handed (Done (g_next_fid c1)) @ handed (Done (g_next_fid ?c)) @ []) (Suc (Suc 0))"
    by (rule client_run.opened [OF client_run.opened [OF client_run.start [of ?T "ramdisk_start [42]"] c1(1)] c2])
  then have r: "client_run ?T c2 [g_next_fid c1, g_next_fid ?c] 2" by (simp add: handed_def numeral_2_eq_2)
  from fids_distinct [OF r] r show ?thesis by auto
qed

end
