(* ===== verification/Streams.thy ===== *)
theory Streams
  imports Virtio9p Console
begin

unbundle bit_operations_syntax

text \<open>
  The streams of \<^verbatim>\<open>src/c/stream.c\<close>: one record with the fields of \<open>os_stream_t\<close>, and the operations
  on 9P files, files of a FAT volume, the screen, strings and the keyboard. \<open>write_buf\<close> holds
  the first \<open>write_buf_len\<close> bytes of the C array. \<open>None\<close> is an access outside an object.

  The Lisp functions \<^verbatim>\<open>WRITE-FROM!\<close> and \<^verbatim>\<open>READ-INTO!\<close> that the FAT streams call back are parameters
  (undefined, or a function that returns or escapes by a control transfer), and so is the
  keyboard's \<open>keyboard_read\<close>. They act on a state \<open>'w\<close> of their own. A stream is a value here, so
  that the collector moves it is invisible.
\<close>

subsection \<open>State\<close>

datatype stream_kind_t = STREAM_9P_FILE_READ | STREAM_9P_FILE_WRITE | STREAM_9P_FILE_IO | STREAM_OUTPUT_SCREEN
  | STREAM_STRING_INPUT | STREAM_STRING_OUTPUT | STREAM_FAT_FILE_WRITE | STREAM_FAT_FILE_IO | STREAM_INPUT_KEYBOARD

datatype ('a, 't) lisp_result = Value 'a | Transfer 't

record ('w, 'n, 't) os_stream =
  kind :: stream_kind_t
  fid :: u32
  next_offset :: u64
  buf_data :: "u8 list"
  buf_count :: nat
  buf_pos :: nat
  write_buf :: "u8 list"
  eof :: bool
  failed :: bool
  out_fb :: nat
  keyboard_read :: "('w \<Rightarrow> char option \<times> 'w) option"
  str_buf :: "u8 list"
  str_cap :: nat
  str_len :: nat
  str_pos :: nat
  has_lookahead :: bool
  lookahead :: char
  column :: u32
  closed :: bool
  mount_file_node :: "'n option"
  pending_transfer :: "'t option"

text \<open>What the operations act on, and the code they call.\<close>

record ('d, 'w) io =
  client :: "'d p9_client"
  terminal :: console
  world :: 'w

record ('d, 'w, 'n, 't) drivers =
  transport :: "'d p9_transport"
  glyphs :: font
  write_from :: "('n option \<Rightarrow> u8 list \<Rightarrow> u64 \<Rightarrow> 'w \<Rightarrow> (bool, 't) lisp_result \<times> 'w) option"
  read_into :: "('n option \<Rightarrow> u8 list \<Rightarrow> u64 \<Rightarrow> nat \<Rightarrow> 'w \<Rightarrow> (nat option \<times> u8 list, 't) lisp_result \<times> 'w) option"

definition STREAM_READ_CHUNK :: nat where "STREAM_READ_CHUNK = 1024"
definition STREAM_CREATE_PERM :: u32 where "STREAM_CREATE_PERM = 420"
definition WRITE_BUF_SIZE :: nat where "WRITE_BUF_SIZE = 512"
definition ERR_MSG_SIZE :: nat where "ERR_MSG_SIZE = 128"

subsection \<open>Opening\<close>

definition stream_init_common :: "stream_kind_t \<Rightarrow> ('w, 'n, 't) os_stream \<Rightarrow> ('w, 'n, 't) os_stream" where
  "stream_init_common k s =
     s\<lparr>kind := k, fid := 0, next_offset := 0, buf_count := 0, buf_pos := 0, write_buf := [], eof := False, failed := False,
       out_fb := 0, str_buf := [], str_cap := 0, str_len := 0, str_pos := 0, has_lookahead := False, lookahead := CHR 0x00,
       column := 0, closed := False, mount_file_node := None, pending_transfer := None\<rparr>"

definition is_9p_write_kind :: "stream_kind_t \<Rightarrow> bool" where
  "is_9p_write_kind k \<longleftrightarrow> k = STREAM_9P_FILE_WRITE \<or> k = STREAM_9P_FILE_IO"

definition is_9p_read_kind :: "stream_kind_t \<Rightarrow> bool" where
  "is_9p_read_kind k \<longleftrightarrow> k = STREAM_9P_FILE_READ \<or> k = STREAM_9P_FILE_IO"

definition is_fat_write_kind :: "stream_kind_t \<Rightarrow> bool" where
  "is_fat_write_kind k \<longleftrightarrow> k = STREAM_FAT_FILE_WRITE \<or> k = STREAM_FAT_FILE_IO"

definition is_fat_read_kind :: "stream_kind_t \<Rightarrow> bool" where
  "is_fat_read_kind k \<longleftrightarrow> k = STREAM_FAT_FILE_IO"

text \<open>The result of opening is the flag the C functions return, with the error text when they fail.\<close>

definition os_stream_open_9p_file ::
  "('d, 'w, 'n, 't) drivers \<Rightarrow> string \<Rightarrow> nat option \<Rightarrow> ('w, 'n, 't) os_stream \<Rightarrow> ('d, 'w) io \<Rightarrow>
   (bool \<times> ('w, 'n, 't) os_stream \<times> ('d, 'w) io) option" where
  "os_stream_open_9p_file D path err s io =
     (let s = stream_init_common STREAM_9P_FILE_READ s
      in case os_virtio9p_open (transport D) path P9_OREAD err (client io) of
           (Fault, c) \<Rightarrow> None
         | (Failed e, c) \<Rightarrow> Some (False, s\<lparr>failed := True\<rparr>, io\<lparr>client := c\<rparr>)
         | (Done f, c) \<Rightarrow> Some (True, s\<lparr>fid := f\<rparr>, io\<lparr>client := c\<rparr>))"

text \<open>Both writing kinds open with truncation and fall back to creating the file.\<close>

definition open_or_create ::
  "('d, 'w, 'n, 't) drivers \<Rightarrow> string \<Rightarrow> u8 \<Rightarrow> bool \<Rightarrow> nat option \<Rightarrow> ('w, 'n, 't) os_stream \<Rightarrow> ('d, 'w) io \<Rightarrow>
   (bool \<times> ('w, 'n, 't) os_stream \<times> ('d, 'w) io) option" where
  "open_or_create D path mode create_if_missing err s io =
     (case os_virtio9p_open (transport D) path (mode OR P9_OTRUNC) err (client io) of
        (Fault, c) \<Rightarrow> None
      | (Done f, c) \<Rightarrow> Some (True, s\<lparr>fid := f\<rparr>, io\<lparr>client := c\<rparr>)
      | (Failed e, c) \<Rightarrow>
          (if create_if_missing
           then (case os_virtio9p_create (transport D) path STREAM_CREATE_PERM mode err c of
                   (Fault, c) \<Rightarrow> None
                 | (Done f, c) \<Rightarrow> Some (True, s\<lparr>fid := f\<rparr>, io\<lparr>client := c\<rparr>)
                 | (Failed e, c) \<Rightarrow> Some (False, s\<lparr>failed := True\<rparr>, io\<lparr>client := c\<rparr>))
           else Some (False, s\<lparr>failed := True\<rparr>, io\<lparr>client := c\<rparr>)))"

definition os_stream_open_9p_file_write ::
  "('d, 'w, 'n, 't) drivers \<Rightarrow> string \<Rightarrow> bool \<Rightarrow> nat option \<Rightarrow> ('w, 'n, 't) os_stream \<Rightarrow> ('d, 'w) io \<Rightarrow>
   (bool \<times> ('w, 'n, 't) os_stream \<times> ('d, 'w) io) option" where
  "os_stream_open_9p_file_write D path create_if_missing err s =
     open_or_create D path P9_OWRITE create_if_missing err (stream_init_common STREAM_9P_FILE_WRITE s)"

definition os_stream_open_9p_file_io ::
  "('d, 'w, 'n, 't) drivers \<Rightarrow> string \<Rightarrow> bool \<Rightarrow> nat option \<Rightarrow> ('w, 'n, 't) os_stream \<Rightarrow> ('d, 'w) io \<Rightarrow>
   (bool \<times> ('w, 'n, 't) os_stream \<times> ('d, 'w) io) option" where
  "os_stream_open_9p_file_io D path create_if_missing err s =
     open_or_create D path P9_ORDWR create_if_missing err (stream_init_common STREAM_9P_FILE_IO s)"

definition os_stream_open_screen_output :: "nat \<Rightarrow> ('w, 'n, 't) os_stream \<Rightarrow> ('w, 'n, 't) os_stream" where
  "os_stream_open_screen_output fb s = (stream_init_common STREAM_OUTPUT_SCREEN s)\<lparr>out_fb := fb\<rparr>"

definition os_stream_open_keyboard_input ::
  "('w \<Rightarrow> char option \<times> 'w) option \<Rightarrow> ('w, 'n, 't) os_stream \<Rightarrow> ('w, 'n, 't) os_stream" where
  "os_stream_open_keyboard_input read_fn s = (stream_init_common STREAM_INPUT_KEYBOARD s)\<lparr>keyboard_read := read_fn\<rparr>"

definition os_stream_open_string_input :: "u8 list \<Rightarrow> nat \<Rightarrow> ('w, 'n, 't) os_stream \<Rightarrow> ('w, 'n, 't) os_stream" where
  "os_stream_open_string_input buf len s =
     (stream_init_common STREAM_STRING_INPUT s)\<lparr>str_buf := buf, str_cap := len, str_len := len, str_pos := 0\<rparr>"

definition os_stream_open_string_output :: "u8 list \<Rightarrow> nat \<Rightarrow> ('w, 'n, 't) os_stream \<Rightarrow> ('w, 'n, 't) os_stream" where
  "os_stream_open_string_output buf cap s =
     (stream_init_common STREAM_STRING_OUTPUT s)\<lparr>str_buf := buf, str_cap := cap, str_len := 0\<rparr>"

definition os_stream_open_fat_file_write :: "'n \<Rightarrow> ('w, 'n, 't) os_stream \<Rightarrow> ('w, 'n, 't) os_stream" where
  "os_stream_open_fat_file_write file_node s = (stream_init_common STREAM_FAT_FILE_WRITE s)\<lparr>mount_file_node := Some file_node\<rparr>"

definition os_stream_open_fat_file_io :: "'n \<Rightarrow> ('w, 'n, 't) os_stream \<Rightarrow> ('w, 'n, 't) os_stream" where
  "os_stream_open_fat_file_io file_node s = (stream_init_common STREAM_FAT_FILE_IO s)\<lparr>mount_file_node := Some file_node\<rparr>"

subsection \<open>Emptying and filling the buffers\<close>

definition flush_write_buf_9p ::
  "('d, 'w, 'n, 't) drivers \<Rightarrow> ('w, 'n, 't) os_stream \<Rightarrow> ('d, 'w) io \<Rightarrow> (('w, 'n, 't) os_stream \<times> ('d, 'w) io) option" where
  "flush_write_buf_9p D s io =
     (if write_buf s = [] then Some (s, io)
      else case os_virtio9p_write_chunk (transport D) (fid s) (next_offset s) (write_buf s) (of_nat (length (write_buf s)))
             (Some ERR_MSG_SIZE) (client io) of
          (Fault, c) \<Rightarrow> None
        | (Failed e, c) \<Rightarrow> Some (s\<lparr>failed := True, write_buf := []\<rparr>, io\<lparr>client := c\<rparr>)
        | (Done written, c) \<Rightarrow> Some (s\<lparr>next_offset := next_offset s + ucast written, write_buf := []\<rparr>, io\<lparr>client := c\<rparr>))"

text \<open>
  The refill of \<open>os_stream_read_char\<close> for a 9P file: what an IO stream has not yet written goes out
  first. A chunk is copied without a check against the 1024 bytes of \<open>buf_data\<close>.
\<close>

definition refill_read_buf_9p ::
  "('d, 'w, 'n, 't) drivers \<Rightarrow> ('w, 'n, 't) os_stream \<Rightarrow> ('d, 'w) io \<Rightarrow> (('w, 'n, 't) os_stream \<times> ('d, 'w) io) option" where
  "refill_read_buf_9p D s io =
     (case os_virtio9p_read_chunk (transport D) (fid s) (next_offset s) (of_nat STREAM_READ_CHUNK) (Some ERR_MSG_SIZE) (client io) of
        (Fault, c) \<Rightarrow> None
      | (Failed e, c) \<Rightarrow> Some (s\<lparr>failed := True\<rparr>, io\<lparr>client := c\<rparr>)
      | (Done (pos, chunk_count), c) \<Rightarrow>
          (let n = unat chunk_count
           in if length (buf_data s) < n \<or> length (g_p9_rx_buf c) < pos + n then None
              else Some (s\<lparr>buf_data := take n (drop pos (g_p9_rx_buf c)) @ drop n (buf_data s), buf_count := n, buf_pos := 0,
                           next_offset := next_offset s + of_nat n, eof := (if n = 0 then True else eof s)\<rparr>, io\<lparr>client := c\<rparr>)))"

definition fill_9p ::
  "('d, 'w, 'n, 't) drivers \<Rightarrow> ('w, 'n, 't) os_stream \<Rightarrow> ('d, 'w) io \<Rightarrow> (('w, 'n, 't) os_stream \<times> ('d, 'w) io) option" where
  "fill_9p D s io =
     (case (if kind s = STREAM_9P_FILE_IO then flush_write_buf_9p D s io else Some (s, io)) of
        None \<Rightarrow> None
      | Some (s, io) \<Rightarrow> (if failed s then Some (s, io) else refill_read_buf_9p D s io))"

definition flush_write_buf_fat ::
  "('d, 'w, 'n, 't) drivers \<Rightarrow> ('w, 'n, 't) os_stream \<Rightarrow> ('d, 'w) io \<Rightarrow> (('w, 'n, 't) os_stream \<times> ('d, 'w) io) option" where
  "flush_write_buf_fat D s io =
     (if write_buf s = [] then Some (s, io)
      else case write_from D of
          None \<Rightarrow> Some (s\<lparr>failed := True, write_buf := []\<rparr>, io)
        | Some write_fn \<Rightarrow>
            (case write_fn (mount_file_node s) (write_buf s) (next_offset s) (world io) of
               (Transfer t, w) \<Rightarrow> Some (s\<lparr>failed := True, write_buf := [], pending_transfer := Some t\<rparr>, io\<lparr>world := w\<rparr>)
             | (Value False, w) \<Rightarrow> Some (s\<lparr>failed := True, write_buf := []\<rparr>, io\<lparr>world := w\<rparr>)
             | (Value True, w) \<Rightarrow>
                 Some (s\<lparr>next_offset := next_offset s + of_nat (length (write_buf s)), write_buf := []\<rparr>, io\<lparr>world := w\<rparr>)))"

text \<open>
  \<^verbatim>\<open>READ-INTO!\<close> fills a vector of 1024 elements and returns how many it has read, or \<^verbatim>\<open>nil\<close>.
\<close>

definition refill_read_buf_fat ::
  "('d, 'w, 'n, 't) drivers \<Rightarrow> ('w, 'n, 't) os_stream \<Rightarrow> ('d, 'w) io \<Rightarrow> (('w, 'n, 't) os_stream \<times> ('d, 'w) io) option" where
  "refill_read_buf_fat D s io =
     (case read_into D of
        None \<Rightarrow> Some (s\<lparr>failed := True\<rparr>, io)
      | Some read_fn \<Rightarrow>
          (case read_fn (mount_file_node s) (replicate STREAM_READ_CHUNK 0) (next_offset s) STREAM_READ_CHUNK (world io) of
             (Transfer t, w) \<Rightarrow> Some (s\<lparr>failed := True, pending_transfer := Some t\<rparr>, io\<lparr>world := w\<rparr>)
           | (Value (result, vector), w) \<Rightarrow>
               (let got = (case result of None \<Rightarrow> 0 | Some n \<Rightarrow> n);
                    got = (if STREAM_READ_CHUNK < got then STREAM_READ_CHUNK else got)
                in if length (buf_data s) < got \<or> length vector < got then None
                   else Some (s\<lparr>buf_data := take got vector @ drop got (buf_data s), buf_count := got, buf_pos := 0,
                                next_offset := next_offset s + of_nat got, eof := (if got = 0 then True else eof s)\<rparr>, io\<lparr>world := w\<rparr>))))"

definition fill_fat ::
  "('d, 'w, 'n, 't) drivers \<Rightarrow> ('w, 'n, 't) os_stream \<Rightarrow> ('d, 'w) io \<Rightarrow> (('w, 'n, 't) os_stream \<times> ('d, 'w) io) option" where
  "fill_fat D s io =
     (case flush_write_buf_fat D s io of
        None \<Rightarrow> None
      | Some (s, io) \<Rightarrow> (if failed s then Some (s, io) else refill_read_buf_fat D s io))"

text \<open>\<open>os_stream_take_transfer\<close>, for a handle that is a stream.\<close>

definition os_stream_take_transfer :: "('w, 'n, 't) os_stream \<Rightarrow> 't option \<times> ('w, 'n, 't) os_stream" where
  "os_stream_take_transfer s =
     (case pending_transfer s of None \<Rightarrow> (None, s) | Some t \<Rightarrow> (Some t, s\<lparr>pending_transfer := None\<rparr>))"

subsection \<open>Reading\<close>

definition buffered_read ::
  "(('w, 'n, 't) os_stream \<Rightarrow> ('d, 'w) io \<Rightarrow> (('w, 'n, 't) os_stream \<times> ('d, 'w) io) option) \<Rightarrow>
   ('w, 'n, 't) os_stream \<Rightarrow> ('d, 'w) io \<Rightarrow> (char option \<times> ('w, 'n, 't) os_stream \<times> ('d, 'w) io) option" where
  "buffered_read fill s io =
     (let refill = (buf_pos s = buf_count s)
      in case (if refill then fill s io else Some (s, io)) of
           None \<Rightarrow> None
         | Some (s, io) \<Rightarrow>
             (if refill \<and> (failed s \<or> buf_count s = 0) then Some (None, s, io)
              else if length (buf_data s) \<le> buf_pos s then None
              else Some (Some (byte_char (buf_data s ! buf_pos s)), s\<lparr>buf_pos := buf_pos s + 1\<rparr>, io)))"

definition os_stream_read_char ::
  "('d, 'w, 'n, 't) drivers \<Rightarrow> ('w, 'n, 't) os_stream \<Rightarrow> ('d, 'w) io \<Rightarrow>
   (char option \<times> ('w, 'n, 't) os_stream \<times> ('d, 'w) io) option" where
  "os_stream_read_char D s io =
     (if closed s \<or> eof s \<or> failed s then Some (None, s, io)
      else if has_lookahead s then Some (Some (lookahead s), s\<lparr>has_lookahead := False\<rparr>, io)
      else if is_9p_read_kind (kind s) then buffered_read (fill_9p D) s io
      else if is_fat_read_kind (kind s) then buffered_read (fill_fat D) s io
      else if kind s = STREAM_STRING_INPUT
      then (if str_len s \<le> str_pos s then Some (None, s\<lparr>eof := True\<rparr>, io)
            else if length (str_buf s) \<le> str_pos s then None
            else Some (Some (byte_char (str_buf s ! str_pos s)), s\<lparr>str_pos := str_pos s + 1\<rparr>, io))
      else if kind s = STREAM_INPUT_KEYBOARD
      then (case keyboard_read s of
              None \<Rightarrow> Some (None, s, io)
            | Some read_fn \<Rightarrow> (case read_fn (world io) of (r, w) \<Rightarrow> Some (r, s, io\<lparr>world := w\<rparr>)))
      else Some (None, s, io))"

definition os_stream_preview_char ::
  "('d, 'w, 'n, 't) drivers \<Rightarrow> ('w, 'n, 't) os_stream \<Rightarrow> ('d, 'w) io \<Rightarrow>
   (char option \<times> ('w, 'n, 't) os_stream \<times> ('d, 'w) io) option" where
  "os_stream_preview_char D s io =
     (if has_lookahead s then Some (Some (lookahead s), s, io)
      else case os_stream_read_char D s io of
          None \<Rightarrow> None
        | Some (None, s, io) \<Rightarrow> Some (None, s, io)
        | Some (Some ch, s, io) \<Rightarrow> Some (Some ch, s\<lparr>has_lookahead := True, lookahead := ch\<rparr>, io))"

subsection \<open>Writing\<close>

definition advance_column :: "char \<Rightarrow> ('w, 'n, 't) os_stream \<Rightarrow> ('w, 'n, 't) os_stream" where
  "advance_column ch s = (if ch = CHR 0x0A then s\<lparr>column := 0\<rparr> else s\<lparr>column := column s + 1\<rparr>)"

definition buffered_write ::
  "(('w, 'n, 't) os_stream \<Rightarrow> ('d, 'w) io \<Rightarrow> (('w, 'n, 't) os_stream \<times> ('d, 'w) io) option) \<Rightarrow> bool \<Rightarrow> char \<Rightarrow>
   ('w, 'n, 't) os_stream \<Rightarrow> ('d, 'w) io \<Rightarrow> (bool \<times> ('w, 'n, 't) os_stream \<times> ('d, 'w) io) option" where
  "buffered_write flush both ch s io =
     (let s = (if both then s\<lparr>buf_pos := 0, buf_count := 0\<rparr> else s)
      in if WRITE_BUF_SIZE \<le> length (write_buf s) then None
         else (let s = s\<lparr>write_buf := write_buf s @ [char_byte ch]\<rparr>
               in case (if length (write_buf s) = WRITE_BUF_SIZE then flush s io else Some (s, io)) of
                    None \<Rightarrow> None
                  | Some (s, io) \<Rightarrow> (let s = advance_column ch s in Some (\<not> failed s, s, io))))"

definition os_stream_write_char ::
  "('d, 'w, 'n, 't) drivers \<Rightarrow> char \<Rightarrow> ('w, 'n, 't) os_stream \<Rightarrow> ('d, 'w) io \<Rightarrow>
   (bool \<times> ('w, 'n, 't) os_stream \<times> ('d, 'w) io) option" where
  "os_stream_write_char D ch s io =
     (if closed s then Some (False, s, io)
      else if kind s = STREAM_OUTPUT_SCREEN
      then Some (True, advance_column ch s, io\<lparr>terminal := write_char (glyphs D) (out_fb s) (char_byte ch) (terminal io)\<rparr>)
      else if is_9p_write_kind (kind s) then buffered_write (flush_write_buf_9p D) (kind s = STREAM_9P_FILE_IO) ch s io
      else if is_fat_write_kind (kind s) then buffered_write (flush_write_buf_fat D) (kind s = STREAM_FAT_FILE_IO) ch s io
      else if kind s = STREAM_STRING_OUTPUT
      then (if str_len s < str_cap s
            then (if length (str_buf s) \<le> str_len s then None
                  else Some (True, advance_column ch (s\<lparr>str_buf := (str_buf s)[str_len s := char_byte ch], str_len := str_len s + 1\<rparr>), io))
            else Some (True, advance_column ch s, io))
      else Some (False, s, io))"

definition os_stream_finish_output ::
  "('d, 'w, 'n, 't) drivers \<Rightarrow> ('w, 'n, 't) os_stream \<Rightarrow> ('d, 'w) io \<Rightarrow> (('w, 'n, 't) os_stream \<times> ('d, 'w) io) option" where
  "os_stream_finish_output D s io =
     (case (if is_9p_write_kind (kind s) then flush_write_buf_9p D s io else Some (s, io)) of
        None \<Rightarrow> None
      | Some (s, io) \<Rightarrow> (if is_fat_write_kind (kind s) then flush_write_buf_fat D s io else Some (s, io)))"

definition os_stream_close ::
  "('d, 'w, 'n, 't) drivers \<Rightarrow> ('w, 'n, 't) os_stream \<Rightarrow> ('d, 'w) io \<Rightarrow> (('w, 'n, 't) os_stream \<times> ('d, 'w) io) option" where
  "os_stream_close D s io =
     (case (if is_9p_write_kind (kind s) then flush_write_buf_9p D s io else Some (s, io)) of
        None \<Rightarrow> None
      | Some (s, io) \<Rightarrow>
          (case (if is_9p_read_kind (kind s) \<or> is_9p_write_kind (kind s)
                 then os_virtio9p_close (transport D) (fid s) (Some ERR_MSG_SIZE) (client io) else (Done (), client io)) of
             (Fault, c) \<Rightarrow> None
           | (_, c) \<Rightarrow>
               (let io = io\<lparr>client := c\<rparr>
                in case (if is_fat_write_kind (kind s) then flush_write_buf_fat D s io else Some (s, io)) of
                     None \<Rightarrow> None
                   | Some (s, io) \<Rightarrow> Some (s\<lparr>closed := True\<rparr>, io))))"

subsection \<open>Positions\<close>

text \<open>
  \<open>cc_file_position\<close> and \<open>cc_set_file_position\<close> of \<^verbatim>\<open>src/c/stream_lisp.c\<close> on the stream behind the handle;
  the position is the magnitude of the fixnum.
\<close>

definition cc_file_position :: "('w, 'n, 't) os_stream \<Rightarrow> u64" where
  "cc_file_position s =
     (if kind s = STREAM_STRING_INPUT then of_nat (str_pos s)
      else if kind s = STREAM_STRING_OUTPUT then of_nat (str_len s)
      else if kind s = STREAM_9P_FILE_READ \<or> kind s = STREAM_9P_FILE_IO \<or> kind s = STREAM_FAT_FILE_IO
      then next_offset s - of_nat (buf_count s - buf_pos s) - (if has_lookahead s then 1 else 0)
      else if kind s = STREAM_9P_FILE_WRITE \<or> kind s = STREAM_FAT_FILE_WRITE
      then next_offset s + of_nat (length (write_buf s))
      else next_offset s)"

definition cc_set_file_position :: "u64 \<Rightarrow> ('w, 'n, 't) os_stream \<Rightarrow> ('w, 'n, 't) os_stream" where
  "cc_set_file_position newpos s =
     (let s = s\<lparr>has_lookahead := False, eof := False\<rparr>
      in if kind s = STREAM_STRING_INPUT then s\<lparr>str_pos := unat (ucast newpos :: u32)\<rparr>
         else if kind s = STREAM_STRING_OUTPUT then s\<lparr>str_len := unat (ucast newpos :: u32)\<rparr>
         else s\<lparr>next_offset := newpos, buf_pos := 0, buf_count := 0\<rparr>)"

subsection \<open>The file behind a buffered stream\<close>

text \<open>
  What the buffered streams rely on, for a 9P file as for a file of a FAT volume: filling the
  read buffer yields the next bytes of the file, some unless at its end, and emptying the write
  buffer at the end of the file appends its first \<open>room\<close> bytes. \<open>served\<close> depends on which file a
  stream is of, not on its buffers.
\<close>

definition same_file :: "('w, 'n, 't) os_stream \<Rightarrow> ('w, 'n, 't) os_stream \<Rightarrow> bool" where
  "same_file s s' \<longleftrightarrow> kind s' = kind s \<and> fid s' = fid s \<and> mount_file_node s' = mount_file_node s"

lemma same_file_simps [simp]:
  "same_file s s"
  "same_file s (s'\<lparr>buf_data := d\<rparr>) = same_file s s'" "same_file s (s'\<lparr>buf_count := n\<rparr>) = same_file s s'"
  "same_file s (s'\<lparr>buf_pos := n\<rparr>) = same_file s s'" "same_file s (s'\<lparr>write_buf := d\<rparr>) = same_file s s'"
  "same_file s (s'\<lparr>next_offset := off\<rparr>) = same_file s s'" "same_file s (s'\<lparr>eof := b\<rparr>) = same_file s s'"
  "same_file s (s'\<lparr>column := col\<rparr>) = same_file s s'" "same_file s (s'\<lparr>closed := b\<rparr>) = same_file s s'"
  "same_file s (s'\<lparr>has_lookahead := b\<rparr>) = same_file s s'" "same_file s (s'\<lparr>lookahead := ch\<rparr>) = same_file s s'"
  by (simp_all add: same_file_def)

lemma same_file_trans: "same_file s s' \<Longrightarrow> same_file s' s'' \<Longrightarrow> same_file s s''"
  by (simp add: same_file_def)

definition refilled :: "u8 list \<Rightarrow> ('w, 'n, 't) os_stream \<Rightarrow> ('w, 'n, 't) os_stream" where
  "refilled chunk s = s\<lparr>buf_data := chunk @ drop (length chunk) (buf_data s), buf_count := length chunk, buf_pos := 0,
     next_offset := next_offset s + of_nat (length chunk), eof := (if chunk = [] then True else eof s)\<rparr>"

definition flushed :: "nat \<Rightarrow> ('w, 'n, 't) os_stream \<Rightarrow> ('w, 'n, 't) os_stream" where
  "flushed n s = s\<lparr>next_offset := next_offset s + of_nat n, write_buf := []\<rparr>"

text \<open>What a stream relies on to read a file, and to write to its end, wherever the file is.\<close>

locale file_reader =
  fixes fill :: "('w, 'n, 't) os_stream \<Rightarrow> ('d, 'w) io \<Rightarrow> (('w, 'n, 't) os_stream \<times> ('d, 'w) io) option"
    and served :: "('w, 'n, 't) os_stream \<Rightarrow> ('d, 'w) io \<Rightarrow> bool"
    and contents :: "('d, 'w) io \<Rightarrow> u8 list"
  assumes served_same: "served s io \<Longrightarrow> same_file s s' \<Longrightarrow> served s' io"
    and fill_reads: "served s io \<Longrightarrow> write_buf s = [] \<Longrightarrow> \<not> failed s \<Longrightarrow> length (buf_data s) = STREAM_READ_CHUNK \<Longrightarrow>
      unat (next_offset s) \<le> length (contents io) \<Longrightarrow>
      \<exists>n io'. fill s io = Some (refilled (take n (drop (unat (next_offset s)) (contents io))) s, io') \<and> n \<le> STREAM_READ_CHUNK \<and>
        (unat (next_offset s) < length (contents io) \<longrightarrow> 0 < n) \<and> served s io' \<and> contents io' = contents io"
    and contents_bound: "served s io \<Longrightarrow> length (contents io) < 2 ^ 63"
begin

definition reading :: "('w, 'n, 't) os_stream \<Rightarrow> ('d, 'w) io \<Rightarrow> bool" where
  "reading s io \<longleftrightarrow> served s io \<and> \<not> closed s \<and> \<not> failed s \<and> write_buf s = [] \<and> length (buf_data s) = STREAM_READ_CHUNK \<and>
     buf_pos s \<le> buf_count s \<and> buf_count s \<le> STREAM_READ_CHUNK \<and> unat (next_offset s) \<le> length (contents io) \<and>
     (eof s \<longrightarrow> buf_pos s = buf_count s \<and> unat (next_offset s) = length (contents io))"

definition unread :: "('w, 'n, 't) os_stream \<Rightarrow> ('d, 'w) io \<Rightarrow> u8 list" where
  "unread s io = drop (buf_pos s) (take (buf_count s) (buf_data s)) @ drop (unat (next_offset s)) (contents io)"

lemma reading_lookahead:
  "reading (s\<lparr>has_lookahead := b, lookahead := c\<rparr>) io = reading s io"
  "unread (s\<lparr>has_lookahead := b, lookahead := c\<rparr>) io = unread s io"
proof -
  let ?s = "s\<lparr>has_lookahead := b, lookahead := c\<rparr>"
  have "served ?s io = served s io" using served_same [of s io ?s] served_same [of ?s io s] by (auto simp: same_file_def)
  then show "reading ?s io = reading s io" "unread ?s io = unread s io" by (simp_all add: reading_def unread_def)
qed

lemma fill_unread:
  assumes r: "reading s io" and e: "buf_pos s = buf_count s" "\<not> eof s"
  obtains s' io' where "fill s io = Some (s', io')" "reading s' io'" "unread s' io' = unread s io" "same_file s s'"
    "contents io' = contents io" "buf_count s' = 0 \<longleftrightarrow> unread s io = []" "buf_pos s' = 0" "has_lookahead s' = has_lookahead s"
    "failed s' = failed s"
proof -
  let ?off = "unat (next_offset s)" and ?c = "contents io"
  from r have a: "served s io" "write_buf s = []" "\<not> failed s" "length (buf_data s) = STREAM_READ_CHUNK" "?off \<le> length ?c"
    by (auto simp: reading_def)
  obtain n io' where f: "fill s io = Some (refilled (take n (drop ?off ?c)) s, io')" "n \<le> STREAM_READ_CHUNK"
      "?off < length ?c \<Longrightarrow> 0 < n" "served s io'" "contents io' = ?c"
    using fill_reads [OF a] by blast
  define chunk where "chunk = take n (drop ?off ?c)"
  have l: "length chunk \<le> STREAM_READ_CHUNK" "?off + length chunk \<le> length ?c" "drop ?off ?c = chunk @ drop (?off + length chunk) ?c"
  proof -
    show "length chunk \<le> STREAM_READ_CHUNK" "?off + length chunk \<le> length ?c" using f(2) a(5) by (auto simp: chunk_def)
    have "take n xs @ drop (length (take n xs)) xs = xs" for xs :: "u8 list" by (cases "n \<le> length xs") simp_all
    then show "drop ?off ?c = chunk @ drop (?off + length chunk) ?c"
      unfolding chunk_def by (simp only: drop_drop [symmetric] add.commute [of ?off])
  qed
  have off: "unat (next_offset s + of_nat (length chunk)) = ?off + length chunk"
    using l(2) contents_bound [OF a(1)] by (simp add: unat_word_ariths unsigned_of_nat take_bit_nat_eq_self)
  let ?s = "refilled chunk s"
  have u: "unread s io = drop ?off ?c" using e(1) by (simp add: unread_def)
  have empty: "chunk = [] \<longleftrightarrow> drop ?off ?c = []" using f(3) by (auto simp: chunk_def intro: leI)
  have "reading ?s io'"
    using r f(4,5) l(1,2) e empty served_same [OF f(4), of ?s] a(5)
    by (auto simp: reading_def refilled_def off)
  moreover have "unread ?s io' = unread s io"
    unfolding u l(3) by (simp add: unread_def refilled_def off f(5))
  moreover have "same_file s ?s" by (simp add: refilled_def)
  moreover have "buf_count ?s = 0 \<longleftrightarrow> unread s io = []" unfolding u empty [symmetric] by (simp add: refilled_def)
  ultimately show ?thesis
    using that [of ?s io'] f(1,5) by (simp add: chunk_def refilled_def)
qed

lemma buffered_read_next:
  assumes r: "reading s io" "\<not> eof s" "\<not> has_lookahead s"
  obtains s' io' where
    "buffered_read fill s io = Some (case unread s io of [] \<Rightarrow> None | b # _ \<Rightarrow> Some (byte_char b), s', io')"
    "reading s' io'" "unread s' io' = tl (unread s io)" "same_file s s'" "contents io' = contents io" "\<not> has_lookahead s'"
    "unread s io \<noteq> [] \<Longrightarrow> \<not> eof s'"
proof -
  note result = that
  have take_next: thesis
    if q: "reading s1 io1" "unread s1 io1 = unread s io" "same_file s s1" "contents io1 = contents io" "\<not> has_lookahead s1"
      "buf_pos s = buf_count s \<and> buf_count s1 = 0 \<and> unread s io = [] \<or> buf_pos s1 < buf_count s1"
      and b: "(if buf_pos s = buf_count s then fill s io else Some (s, io)) = Some (s1, io1)" for s1 io1
    using q(6)
  proof
    assume "buf_pos s = buf_count s \<and> buf_count s1 = 0 \<and> unread s io = []"
    then show thesis using result [of s1 io1] q b by (auto simp: buffered_read_def)
  next
    assume lt: "buf_pos s1 < buf_count s1"
    have n: "buf_count s1 \<le> length (buf_data s1)" "\<not> failed s1" "\<not> eof s1" using q(1) lt by (auto simp: reading_def)
    then have u: "unread s io = buf_data s1 ! buf_pos s1 # unread (s1\<lparr>buf_pos := buf_pos s1 + 1\<rparr>) io1"
      using lt unfolding q(2) [symmetric] by (simp add: unread_def Cons_nth_drop_Suc [symmetric])
    have "reading (s1\<lparr>buf_pos := buf_pos s1 + 1\<rparr>) io1"
      using q(1) lt n(3) served_same [of s1 io1 "s1\<lparr>buf_pos := buf_pos s1 + 1\<rparr>"] by (auto simp: reading_def)
    then show thesis
      using result [of "s1\<lparr>buf_pos := buf_pos s1 + 1\<rparr>" io1] q b lt n u by (auto simp: buffered_read_def)
  qed
  show thesis
  proof (cases "buf_pos s = buf_count s")
    case True
    obtain s1 io1 where f: "fill s io = Some (s1, io1)" "reading s1 io1" "unread s1 io1 = unread s io" "same_file s s1"
      "contents io1 = contents io" "buf_count s1 = 0 \<longleftrightarrow> unread s io = []" "buf_pos s1 = 0" "has_lookahead s1 = has_lookahead s"
      by (rule fill_unread [OF r(1) True r(2)])
    show thesis by (rule take_next [OF f(2-5)]) (use f True r(3) in auto)
  next
    case False
    then show thesis by (intro take_next [of s io]) (use r in \<open>auto simp: reading_def\<close>)
  qed
qed

end

text \<open>Writing: the bytes on the file and those that wait in the buffer.\<close>

definition put_byte :: "nat \<Rightarrow> u8 \<Rightarrow> u8 list \<times> u8 list \<Rightarrow> u8 list \<times> u8 list" where
  "put_byte room b cw =
     (let w = snd cw @ [b] in if length w = WRITE_BUF_SIZE then (fst cw @ take room w, []) else (fst cw, w))"

text \<open>A write stores the first \<open>room\<close> bytes of the buffer, as long as the file stays within \<open>limit\<close>.\<close>

locale file_writer =
  fixes flush :: "('w, 'n, 't) os_stream \<Rightarrow> ('d, 'w) io \<Rightarrow> (('w, 'n, 't) os_stream \<times> ('d, 'w) io) option"
    and served :: "('w, 'n, 't) os_stream \<Rightarrow> ('d, 'w) io \<Rightarrow> bool"
    and contents :: "('d, 'w) io \<Rightarrow> u8 list"
    and room limit :: nat
  assumes served_same: "served s io \<Longrightarrow> same_file s s' \<Longrightarrow> served s' io"
    and flush_empty: "write_buf s = [] \<Longrightarrow> flush s io = Some (s, io)"
    and flush_appends: "served s io \<Longrightarrow> write_buf s \<noteq> [] \<Longrightarrow> length (write_buf s) \<le> WRITE_BUF_SIZE \<Longrightarrow>
      unat (next_offset s) = length (contents io) \<Longrightarrow> length (contents io) + length (write_buf s) \<le> limit \<Longrightarrow>
      \<exists>io'. flush s io = Some (flushed (length (take room (write_buf s))) s, io') \<and> served s io' \<and>
        contents io' = contents io @ take room (write_buf s)"
    and limit_bound: "served s io \<Longrightarrow> limit < 2 ^ 63"
begin

definition writing :: "('w, 'n, 't) os_stream \<Rightarrow> ('d, 'w) io \<Rightarrow> bool" where
  "writing s io \<longleftrightarrow> served s io \<and> \<not> closed s \<and> \<not> failed s \<and> length (write_buf s) < WRITE_BUF_SIZE \<and>
     unat (next_offset s) = length (contents io)"

lemma writing_same:
  "writing s io \<Longrightarrow> same_file s s' \<Longrightarrow> closed s' = closed s \<Longrightarrow> failed s' = failed s \<Longrightarrow>
     length (write_buf s') < WRITE_BUF_SIZE \<Longrightarrow> next_offset s' = next_offset s \<Longrightarrow> writing s' io"
  using served_same [of s io s'] by (auto simp: writing_def)

lemma flush_all:
  assumes s: "served s io" "\<not> closed s" "\<not> failed s" "length (write_buf s) \<le> WRITE_BUF_SIZE"
    "unat (next_offset s) = length (contents io)" and fits: "length (contents io) + length (write_buf s) \<le> limit"
  obtains io' where "flush s io = Some (flushed (length (take room (write_buf s))) s, io')"
    "writing (flushed (length (take room (write_buf s))) s) io'" "contents io' = contents io @ take room (write_buf s)"
proof (cases "write_buf s = []")
  case True
  then have "flushed (length (take room (write_buf s))) s = s" by (simp add: flushed_def)
  moreover have "writing s io" using s True by (simp add: writing_def WRITE_BUF_SIZE_def)
  ultimately show ?thesis using that [of io] flush_empty [OF True, of io] True by simp
next
  case False
  obtain io' where f: "flush s io = Some (flushed (length (take room (write_buf s))) s, io')" "served s io'"
    "contents io' = contents io @ take room (write_buf s)"
    using flush_appends [OF s(1) False s(4,5) fits] by blast
  let ?n = "length (take room (write_buf s))"
  have "unat (next_offset s + of_nat ?n) = length (contents io) + ?n"
    using s(5) fits limit_bound [OF s(1)] by (simp add: unat_word_ariths unsigned_of_nat take_bit_nat_eq_self)
  then have "writing (flushed ?n s) io'"
    using s(2,3) served_same [OF f(2), of "flushed ?n s"] f(3)
    by (simp add: writing_def flushed_def WRITE_BUF_SIZE_def)
  then show ?thesis using that f(1,3) by blast
qed

lemma buffered_write_next:
  assumes w: "writing s io" and fits: "length (contents io) + length (write_buf s) < limit"
  obtains s' io' where "buffered_write flush both c s io = Some (True, s', io')" "writing s' io'"
    "(contents io', write_buf s') = put_byte room (char_byte c) (contents io, write_buf s)" "same_file s s'"
    "column s' = column (advance_column c s)"
proof -
  define r where "r = (if both then s\<lparr>buf_pos := 0, buf_count := 0\<rparr> else s)"
  define t where "t = r\<lparr>write_buf := write_buf s @ [char_byte c]\<rparr>"
  have eq: "buffered_write flush both c s io =
      (case (if length (write_buf t) = WRITE_BUF_SIZE then flush t io else Some (t, io)) of
         None \<Rightarrow> None | Some (s, io) \<Rightarrow> Some (\<not> failed (advance_column c s), advance_column c s, io))"
  proof -
    have "write_buf r = write_buf s" by (simp add: r_def)
    moreover have "(WRITE_BUF_SIZE \<le> length (write_buf s)) = False" using w by (simp add: writing_def)
    ultimately show ?thesis by (simp only: buffered_write_def Let_def r_def [symmetric] t_def [symmetric] if_False)
  qed
  have sf: "same_file s t" by (simp add: t_def r_def)
  have t: "served t io" "\<not> closed t" "\<not> failed t" "length (write_buf t) \<le> WRITE_BUF_SIZE"
    "unat (next_offset t) = length (contents io)" "write_buf t = write_buf s @ [char_byte c]" "column t = column s"
    using w served_same [OF _ sf] by (auto simp: writing_def t_def r_def)
  have adv: "writing s' io' \<Longrightarrow> writing (advance_column c s') io'" "write_buf (advance_column c s') = write_buf s'"
    "same_file s'' (advance_column c s') = same_file s'' s'" "failed (advance_column c s') = failed s'"
    "column s' = column s \<Longrightarrow> column (advance_column c s') = column (advance_column c s)" for s' s'' io'
    by (auto simp: advance_column_def writing_def elim!: served_same)
  show ?thesis
  proof (cases "length (write_buf t) = WRITE_BUF_SIZE")
    case True
    define f where "f = flushed (length (take room (write_buf t))) t"
    obtain io' where io': "flush t io = Some (f, io')" "writing f io'" "contents io' = contents io @ take room (write_buf t)"
      unfolding f_def by (rule flush_all [OF t(1-5)]) (use t(6) fits in simp)
    have f: "same_file s f" "\<not> failed f" "write_buf f = []" "column f = column s" using t(3,7) sf by (simp_all add: f_def flushed_def same_file_def)
    have "put_byte room (char_byte c) (contents io, write_buf s) = (contents io', [])"
      using True by (simp only: put_byte_def Let_def fst_conv snd_conv t(6) [symmetric] io'(3) True if_True simp_thms)
    then show ?thesis using that [of "advance_column c f" io'] adv(1) [OF io'(2)] adv(5) [OF f(4)] f io' True by (simp add: eq adv(2-4))
  next
    case False
    have wt: "writing t io" using t False by (simp add: writing_def)
    have "put_byte room (char_byte c) (contents io, write_buf s) = (contents io, write_buf t)"
      using False by (simp only: put_byte_def Let_def fst_conv snd_conv t(6) [symmetric] False if_False)
    then show ?thesis using that [of "advance_column c t" io] adv(1) [OF wt] adv(5) [OF t(7)] t(3) sf False by (simp add: eq adv(2-4))
  qed
qed

end

subsection \<open>The files a stream can be of\<close>

text \<open>A file on a 9P server, which the stream's fid has open.\<close>

definition on_server ::
  "('d, 'w, 'n, 't) drivers \<Rightarrow> 'd p9_server \<Rightarrow> (u8 \<Rightarrow> bool) \<Rightarrow> ('w, 'n, 't) os_stream \<Rightarrow> ('d, 'w) io \<Rightarrow> bool" where
  "on_server D S access s io \<longleftrightarrow> serves_file (transport D) S \<and> client_synced S (client io) \<and>
     (\<exists>mode. fid_table S (device (client io)) (fid s) = Some (Opened mode) \<and> access mode)"

lemma unat_chunk: "unat (of_nat STREAM_READ_CHUNK :: u32) = STREAM_READ_CHUNK" "(0 :: u32) < of_nat STREAM_READ_CHUNK"
  by (simp_all add: STREAM_READ_CHUNK_def)

lemma refill_9p_reads:
  assumes s: "on_server D S may_read s io" "length (buf_data s) = STREAM_READ_CHUNK"
    "unat (next_offset s) \<le> length (exported S (device (client io)))"
  obtains n c where "refill_read_buf_9p D s io =
      Some (refilled (take n (drop (unat (next_offset s)) (exported S (device (client io))))) s, io\<lparr>client := c\<rparr>)"
    "n \<le> STREAM_READ_CHUNK" "unat (next_offset s) < length (exported S (device (client io))) \<Longrightarrow> 0 < n"
    "on_server D S may_read s (io\<lparr>client := c\<rparr>)" "exported S (device c) = exported S (device (client io))"
proof -
  let ?off = "next_offset s" and ?K = "exported S (device (client io))"
  obtain mode where T: "serves_file (transport D) S" "client_synced S (client io)"
      "fid_table S (device (client io)) (fid s) = Some (Opened mode)" "may_read mode"
    using s(1) by (auto simp: on_server_def)
  obtain c n where r: "os_virtio9p_read_chunk (transport D) (fid s) ?off (of_nat STREAM_READ_CHUNK) (Some ERR_MSG_SIZE) (client io) =
        (Done (11, of_nat n), c)" "client_synced S c" "fid_table S (device c) = fid_table S (device (client io))" "exported S (device c) = ?K"
      "n \<le> STREAM_READ_CHUNK" "unat ?off + n \<le> length ?K" "unat ?off < length ?K \<Longrightarrow> 0 < n" "11 + n \<le> length (g_p9_rx_buf c)"
      "take n (drop 11 (g_p9_rx_buf c)) = take n (drop (unat ?off) ?K)"
    by (rule read_kept [OF T s(3) unat_chunk(2), where err = "Some ERR_MSG_SIZE"]) (auto simp: unat_chunk P9_MSIZE_def STREAM_READ_CHUNK_def)
  have n: "unat (of_nat n :: u32) = n" using r(5) by (simp add: unat_of_small STREAM_READ_CHUNK_def)
  have l: "length (take n (drop (unat ?off) ?K)) = n" using r(6) by simp
  have e: "take n (drop (unat ?off) ?K) = [] \<longleftrightarrow> n = 0" using l by (cases n) auto
  have "refill_read_buf_9p D s io = Some (refilled (take n (drop (unat ?off) ?K)) s, io\<lparr>client := c\<rparr>)"
    unfolding refilled_def l e using r(5,8) s(2) by (simp add: refill_read_buf_9p_def r(1) n r(9) Let_def)
  moreover have "on_server D S may_read s (io\<lparr>client := c\<rparr>)" using T r(2,3) by (simp add: on_server_def)
  ultimately show ?thesis using that r(4,5,7) by blast
qed

lemma flush_9p_writes:
  assumes s: "on_server D S may_write s io" "write_buf s \<noteq> []" "length (write_buf s) \<le> WRITE_BUF_SIZE"
    "unat (next_offset s) \<le> length (exported S (device (client io)))" "unat (next_offset s) + length (write_buf s) \<le> size_limit S"
  obtains c where "flush_write_buf_9p D s io = Some (flushed (length (take (write_limit S) (write_buf s))) s, io\<lparr>client := c\<rparr>)"
    "on_server D S may_write s (io\<lparr>client := c\<rparr>)"
    "exported S (device c) = overwrite (unat (next_offset s)) (take (write_limit S) (write_buf s)) (exported S (device (client io)))"
proof -
  obtain mode where T: "serves_file (transport D) S" "client_synced S (client io)"
      "fid_table S (device (client io)) (fid s) = Some (Opened mode)" "may_write mode"
    using s(1) by (auto simp: on_server_def)
  have l: "length (write_buf s) \<le> P9_MSIZE - 64" using s(3) by (simp add: WRITE_BUF_SIZE_def P9_MSIZE_def)
  obtain c where w: "os_virtio9p_write_chunk (transport D) (fid s) (next_offset s) (write_buf s) (of_nat (length (write_buf s)))
        (Some ERR_MSG_SIZE) (client io) = (Done (of_nat (length (take (write_limit S) (write_buf s)))), c)" "client_synced S c"
      "fid_table S (device c) = fid_table S (device (client io))"
      "exported S (device c) = overwrite (unat (next_offset s)) (take (write_limit S) (write_buf s)) (exported S (device (client io)))"
    by (rule write_kept [OF T s(4,2) l s(5)])
  let ?n = "length (take (write_limit S) (write_buf s))"
  have "?n < 2 ^ 32" using s(3) by (simp add: WRITE_BUF_SIZE_def)
  then have "(ucast (of_nat ?n :: u32) :: u64) = of_nat ?n" by (simp add: unsigned_of_nat take_bit_nat_eq_self)
  then have "flush_write_buf_9p D s io = Some (flushed ?n s, io\<lparr>client := c\<rparr>)"
    using s(2) w(1) by (simp add: flush_write_buf_9p_def flushed_def)
  moreover have "on_server D S may_write s (io\<lparr>client := c\<rparr>)" using T w(2,3) by (simp add: on_server_def)
  ultimately show ?thesis using that w(4) by blast
qed

lemma fill_9p_refill: "write_buf s = [] \<Longrightarrow> \<not> failed s \<Longrightarrow> fill_9p D s io = refill_read_buf_9p D s io"
  by (simp add: fill_9p_def flush_write_buf_9p_def)

interpretation nine: file_reader "fill_9p D" "on_server D S may_read" "\<lambda>io. exported S (device (client io))"
  for D :: "('d, 'w, 'n, 't) drivers" and S
proof (unfold_locales, goal_cases)
  case (2 s io)
  let ?off = "unat (next_offset s)" and ?K = "exported S (device (client io))"
  obtain n c where "refill_read_buf_9p D s io = Some (refilled (take n (drop ?off ?K)) s, io\<lparr>client := c\<rparr>)"
    "n \<le> STREAM_READ_CHUNK" "?off < length ?K \<Longrightarrow> 0 < n" "on_server D S may_read s (io\<lparr>client := c\<rparr>)" "exported S (device c) = ?K"
    by (rule refill_9p_reads [OF 2(1,4,5)]) blast
  then show ?case using 2(2,3) by (intro exI [of _ n] exI [of _ "io\<lparr>client := c\<rparr>"]) (simp add: fill_9p_refill)
qed (auto simp: on_server_def same_file_def client_synced_def dest: serves_fileD(4))

interpretation nine_out: file_writer "flush_write_buf_9p D" "on_server D S may_write" "\<lambda>io. exported S (device (client io))"
  "write_limit S" "size_limit S"
  for D :: "('d, 'w, 'n, 't) drivers" and S
proof (unfold_locales, goal_cases)
  case (3 s io)
  have e: "unat (next_offset s) \<le> length (exported S (device (client io)))" "unat (next_offset s) + length (write_buf s) \<le> size_limit S"
    using 3(4,5) by simp_all
  obtain c where "flush_write_buf_9p D s io = Some (flushed (length (take (write_limit S) (write_buf s))) s, io\<lparr>client := c\<rparr>)"
    "on_server D S may_write s (io\<lparr>client := c\<rparr>)"
    "exported S (device c) = overwrite (unat (next_offset s)) (take (write_limit S) (write_buf s)) (exported S (device (client io)))"
    by (rule flush_9p_writes [OF 3(1-3) e])
  then show ?case using 3(4) by (auto simp: overwrite_end)
qed (auto simp: on_server_def same_file_def flush_write_buf_9p_def dest: serves_fileD(5))

text \<open>
  A file of a FAT volume: what the callbacks promise. In the states \<open>mounted\<close> of the volume the file
  can be read, and written as long as it stays within the \<open>quota\<close> bytes that the volume has for it;
  a volume without the clusters for a write may refuse it. \<^verbatim>\<open>WRITE-FROM!\<close> stores what it is given
  unless it returns \<^verbatim>\<open>nil\<close> or escapes; \<^verbatim>\<open>READ-INTO!\<close> fills the front of the vector.
\<close>

record 'w fat_file =
  mounted :: "'w \<Rightarrow> bool"
  on_disk :: "'w \<Rightarrow> u8 list"
  quota :: nat

definition on_volume ::
  "('d, 'w, 'n, 't) drivers \<Rightarrow> 'w fat_file \<Rightarrow> 'n option \<Rightarrow> ('w, 'n, 't) os_stream \<Rightarrow> ('d, 'w) io \<Rightarrow> bool" where
  "on_volume D V node s io \<longleftrightarrow> mount_file_node s = node \<and> mounted V (world io) \<and>
     (\<forall>w. mounted V w \<longrightarrow> length (on_disk V w) < 2 ^ 63) \<and> quota V < 2 ^ 63 \<and>
     (\<exists>read_fn write_fn. read_into D = Some read_fn \<and> write_from D = Some write_fn \<and>
       (\<forall>w v off. mounted V w \<longrightarrow> unat off \<le> length (on_disk V w) \<longrightarrow> length v = STREAM_READ_CHUNK \<longrightarrow>
          (let n = min STREAM_READ_CHUNK (length (on_disk V w) - unat off) in \<exists>w'.
             read_fn node v off STREAM_READ_CHUNK w = (Value (Some n, take n (drop (unat off) (on_disk V w)) @ drop n v), w') \<and>
             mounted V w' \<and> on_disk V w' = on_disk V w)) \<and>
       (\<forall>w off data. mounted V w \<longrightarrow> unat off \<le> length (on_disk V w) \<longrightarrow> unat off + length data \<le> quota V \<longrightarrow>
          (\<exists>w'. write_fn node data off w = (Value True, w') \<and> mounted V w' \<and> on_disk V w' = overwrite (unat off) data (on_disk V w))))"

lemma refill_fat_reads:
  assumes s: "on_volume D V node s io" "length (buf_data s) = STREAM_READ_CHUNK" "unat (next_offset s) \<le> length (on_disk V (world io))"
  obtains w where "refill_read_buf_fat D s io =
      Some (refilled (take STREAM_READ_CHUNK (drop (unat (next_offset s)) (on_disk V (world io)))) s, io\<lparr>world := w\<rparr>)"
    "on_volume D V node s (io\<lparr>world := w\<rparr>)" "on_disk V w = on_disk V (world io)"
proof -
  let ?off = "unat (next_offset s)" and ?K = "on_disk V (world io)"
  let ?n = "min STREAM_READ_CHUNK (length ?K - ?off)"
  from s obtain read_fn w' where r: "read_into D = Some read_fn"
    "read_fn (mount_file_node s) (replicate STREAM_READ_CHUNK 0) (next_offset s) STREAM_READ_CHUNK (world io) =
       (Value (Some ?n, take ?n (drop ?off ?K) @ drop ?n (replicate STREAM_READ_CHUNK 0)), w')" "mounted V w'" "on_disk V w' = ?K"
    unfolding on_volume_def Let_def by (metis length_replicate)
  have t: "take ?n (drop ?off ?K) = take STREAM_READ_CHUNK (drop ?off ?K)" by (simp add: min_def)
  have l: "length (take STREAM_READ_CHUNK (drop ?off ?K)) = ?n" by (simp add: min.commute)
  have e: "take STREAM_READ_CHUNK (drop ?off ?K) = [] \<longleftrightarrow> ?n = 0" by (simp only: l [symmetric] length_0_conv)
  have "refill_read_buf_fat D s io = Some (refilled (take STREAM_READ_CHUNK (drop ?off ?K)) s, io\<lparr>world := w'\<rparr>)"
    unfolding refilled_def l e using r(1,2) s(2) t by (simp add: refill_read_buf_fat_def Let_def)
  moreover have "on_volume D V node s (io\<lparr>world := w'\<rparr>)" using s(1) r(3) by (simp add: on_volume_def)
  ultimately show ?thesis using that r(4) by blast
qed

lemma flush_fat_writes:
  assumes s: "on_volume D V node s io" "write_buf s \<noteq> []" "unat (next_offset s) \<le> length (on_disk V (world io))"
    "unat (next_offset s) + length (write_buf s) \<le> quota V"
  obtains w where "flush_write_buf_fat D s io = Some (flushed (length (write_buf s)) s, io\<lparr>world := w\<rparr>)"
    "on_volume D V node s (io\<lparr>world := w\<rparr>)"
    "on_disk V w = overwrite (unat (next_offset s)) (write_buf s) (on_disk V (world io))"
proof -
  obtain write_fn w' where "write_from D = Some write_fn"
    "write_fn (mount_file_node s) (write_buf s) (next_offset s) (world io) = (Value True, w')" "mounted V w'"
    "on_disk V w' = overwrite (unat (next_offset s)) (write_buf s) (on_disk V (world io))"
    using s(1,3,4) unfolding on_volume_def by blast
  then show ?thesis using that [of w'] s(1,2) by (simp add: flush_write_buf_fat_def flushed_def on_volume_def)
qed

lemma fill_fat_refill: "write_buf s = [] \<Longrightarrow> \<not> failed s \<Longrightarrow> fill_fat D s io = refill_read_buf_fat D s io"
  by (simp add: fill_fat_def flush_write_buf_fat_def)

interpretation fat: file_reader "fill_fat D" "on_volume D V node" "\<lambda>io. on_disk V (world io)"
  for D :: "('d, 'w, 'n, 't) drivers" and V node
proof (unfold_locales, goal_cases)
  case (2 s io)
  obtain w where "refill_read_buf_fat D s io =
      Some (refilled (take STREAM_READ_CHUNK (drop (unat (next_offset s)) (on_disk V (world io)))) s, io\<lparr>world := w\<rparr>)"
    "on_volume D V node s (io\<lparr>world := w\<rparr>)" "on_disk V w = on_disk V (world io)"
    by (rule refill_fat_reads [OF 2(1,4,5)])
  then show ?case using 2(2,3)
    by (intro exI [of _ STREAM_READ_CHUNK] exI [of _ "io\<lparr>world := w\<rparr>"]) (simp add: fill_fat_refill STREAM_READ_CHUNK_def)
qed (auto simp: on_volume_def same_file_def)

interpretation fat_out: file_writer "flush_write_buf_fat D" "on_volume D V node" "\<lambda>io. on_disk V (world io)" WRITE_BUF_SIZE "quota V"
  for D :: "('d, 'w, 'n, 't) drivers" and V node
proof (unfold_locales, goal_cases)
  case (3 s io)
  have off: "unat (next_offset s) \<le> length (on_disk V (world io))" "unat (next_offset s) + length (write_buf s) \<le> quota V" using 3(4,5) by simp_all
  have "take WRITE_BUF_SIZE (write_buf s) = write_buf s" using 3(3) by simp
  moreover obtain w where "flush_write_buf_fat D s io = Some (flushed (length (write_buf s)) s, io\<lparr>world := w\<rparr>)"
    "on_volume D V node s (io\<lparr>world := w\<rparr>)" "on_disk V w = overwrite (unat (next_offset s)) (write_buf s) (on_disk V (world io))"
    by (rule flush_fat_writes [OF 3(1,2) off])
  ultimately show ?case using 3(4) by (intro exI [of _ "io\<lparr>world := w\<rparr>"]) (simp add: overwrite_end)
qed (auto simp: on_volume_def same_file_def flush_write_buf_fat_def)

subsection \<open>Input streams\<close>

text \<open>
  The contract of an input stream, whatever it reads from: \<open>later\<close> is the text it will still
  deliver, \<open>ready\<close> its invariant; neither looks at the slot of \<open>preview_char\<close>. At the end the
  stream stays there.
\<close>

locale text_input =
  fixes D :: "('d, 'w, 'n, 't) drivers"
    and ready :: "('w, 'n, 't) os_stream \<Rightarrow> ('d, 'w) io \<Rightarrow> bool"
    and later :: "('w, 'n, 't) os_stream \<Rightarrow> ('d, 'w) io \<Rightarrow> string"
  assumes alive: "ready s io \<Longrightarrow> \<not> closed s \<and> \<not> failed s"
    and ended: "ready s io \<Longrightarrow> eof s \<Longrightarrow> later s io = []"
    and ready_lookahead: "ready (s\<lparr>has_lookahead := b, lookahead := c\<rparr>) io = ready s io"
    and later_lookahead: "later (s\<lparr>has_lookahead := b, lookahead := c\<rparr>) io = later s io"
    and next_char: "ready s io \<Longrightarrow> \<not> eof s \<Longrightarrow> \<not> has_lookahead s \<Longrightarrow>
      \<exists>s' io'. os_stream_read_char D s io = Some (case later s io of [] \<Rightarrow> None | c # _ \<Rightarrow> Some c, s', io') \<and>
        ready s' io' \<and> later s' io' = tl (later s io) \<and> \<not> has_lookahead s' \<and> (later s io \<noteq> [] \<longrightarrow> \<not> eof s')"

text \<open>A client's calls, and the cursor on a text that they implement.\<close>

datatype input_op = Read | Preview

primrec run_input ::
  "('d, 'w, 'n, 't) drivers \<Rightarrow> input_op list \<Rightarrow> ('w, 'n, 't) os_stream \<Rightarrow> ('d, 'w) io \<Rightarrow>
   (char option list \<times> ('w, 'n, 't) os_stream \<times> ('d, 'w) io) option" where
  "run_input D [] s io = Some ([], s, io)"
| "run_input D (op # ops) s io =
     (case (case op of Read \<Rightarrow> os_stream_read_char D s io | Preview \<Rightarrow> os_stream_preview_char D s io) of
        None \<Rightarrow> None
      | Some (r, s, io) \<Rightarrow>
          (case run_input D ops s io of None \<Rightarrow> None | Some (rs, s, io) \<Rightarrow> Some (r # rs, s, io)))"

primrec cursor_input :: "input_op list \<Rightarrow> string \<Rightarrow> char option list \<times> string" where
  "cursor_input [] text = ([], text)"
| "cursor_input (op # ops) text =
     (let r = (case text of [] \<Rightarrow> None | c # _ \<Rightarrow> Some c);
          (rs, rest) = cursor_input ops (case op of Read \<Rightarrow> tl text | Preview \<Rightarrow> text)
      in (r # rs, rest))"

context text_input
begin

definition readable :: "('w, 'n, 't) os_stream \<Rightarrow> ('d, 'w) io \<Rightarrow> bool" where
  "readable s io \<longleftrightarrow> ready s io \<and> (has_lookahead s \<longrightarrow> \<not> eof s)"

definition rest_of :: "('w, 'n, 't) os_stream \<Rightarrow> ('d, 'w) io \<Rightarrow> string" where
  "rest_of s io = (if has_lookahead s then [lookahead s] else []) @ later s io"

lemma read_step:
  assumes r: "readable s io"
  obtains s' io' where "os_stream_read_char D s io = Some (case rest_of s io of [] \<Rightarrow> None | c # _ \<Rightarrow> Some c, s', io')"
    "readable s' io'" "rest_of s' io' = tl (rest_of s io)" "\<not> has_lookahead s'" "rest_of s io \<noteq> [] \<Longrightarrow> \<not> eof s'"
proof -
  note a = alive [of s io]
  consider "eof s" | "\<not> eof s" "has_lookahead s" | "\<not> eof s" "\<not> has_lookahead s" by blast
  then show ?thesis
  proof cases
    case 1
    then show ?thesis using that [of s io] r ended [of s io]
      by (auto simp: os_stream_read_char_def readable_def rest_of_def)
  next
    case 2
    let ?s = "s\<lparr>has_lookahead := False\<rparr>"
    have "ready ?s io = ready s io" "later ?s io = later s io"
      using ready_lookahead [where s = s and b = False and c = "lookahead s"] later_lookahead [where s = s and b = False and c = "lookahead s"] by simp_all
    then show ?thesis using that [of ?s io] r 2 a by (auto simp: os_stream_read_char_def readable_def rest_of_def)
  next
    case 3
    then show ?thesis using that next_char [OF _ 3, of io] r by (auto simp: readable_def rest_of_def)
  qed
qed

lemma preview_step:
  assumes r: "readable s io"
  obtains s' io' where "os_stream_preview_char D s io = Some (case rest_of s io of [] \<Rightarrow> None | c # _ \<Rightarrow> Some c, s', io')"
    "readable s' io'" "rest_of s' io' = rest_of s io"
proof (cases "has_lookahead s")
  case True
  then show ?thesis using that [of s io] r by (simp add: os_stream_preview_char_def rest_of_def)
next
  case False
  obtain s' io' where s': "os_stream_read_char D s io = Some (case rest_of s io of [] \<Rightarrow> None | c # _ \<Rightarrow> Some c, s', io')"
    "readable s' io'" "rest_of s' io' = tl (rest_of s io)" "\<not> has_lookahead s'" "rest_of s io \<noteq> [] \<Longrightarrow> \<not> eof s'"
    by (rule read_step [OF r]) blast
  show ?thesis
  proof (cases "rest_of s io")
    case Nil
    then show ?thesis using that [of s' io'] s' False by (simp add: os_stream_preview_char_def)
  next
    case (Cons c cs)
    let ?s = "s'\<lparr>has_lookahead := True, lookahead := c\<rparr>"
    have "readable ?s io'" "rest_of ?s io' = c # cs"
      using s'(2,3) s'(4) s'(5) [unfolded Cons] Cons
      by (simp_all add: readable_def rest_of_def ready_lookahead later_lookahead)
    then show ?thesis using that [of ?s io'] s'(1) Cons False by (simp add: os_stream_preview_char_def)
  qed
qed

lemma run_input_cursor:
  assumes "readable s io"
  obtains s' io' where "run_input D ops s io = Some (fst (cursor_input ops (rest_of s io)), s', io')" "readable s' io'"
    "rest_of s' io' = snd (cursor_input ops (rest_of s io))"
proof -
  have "\<exists>s' io'. run_input D ops s io = Some (fst (cursor_input ops (rest_of s io)), s', io') \<and> readable s' io' \<and>
      rest_of s' io' = snd (cursor_input ops (rest_of s io))"
    using assms
  proof (induction ops arbitrary: s io)
    case (Cons op ops)
    obtain s1 io1 where s1: "(case op of Read \<Rightarrow> os_stream_read_char D s io | Preview \<Rightarrow> os_stream_preview_char D s io) =
        Some (case rest_of s io of [] \<Rightarrow> None | c # _ \<Rightarrow> Some c, s1, io1)" "readable s1 io1"
        "rest_of s1 io1 = (case op of Read \<Rightarrow> tl (rest_of s io) | Preview \<Rightarrow> rest_of s io)"
      by (cases op) (auto intro: read_step [OF Cons.prems] preview_step [OF Cons.prems])
    from Cons.IH [OF s1(2)] show ?case by (auto simp: s1(1,3) Let_def split: prod.split)
  qed simp
  then show ?thesis using that by blast
qed

end

text \<open>Files are input streams, and strings are.\<close>

interpretation nine_input: text_input D
  "\<lambda>s io. is_9p_read_kind (kind s) \<and> nine.reading D S s io"
  "\<lambda>s io. map byte_char (nine.unread S s io)"
  for D :: "('d, 'w, 'n, 't) drivers" and S
proof (unfold_locales, goal_cases)
  case (5 s io)
  then have r: "nine.reading D S s io" and k: "is_9p_read_kind (kind s)" by simp_all
  obtain s' io' where s': "buffered_read (fill_9p D) s io =
      Some (case nine.unread S s io of [] \<Rightarrow> None | b # _ \<Rightarrow> Some (byte_char b), s', io')"
      "nine.reading D S s' io'" "nine.unread S s' io' = tl (nine.unread S s io)" "same_file s s'"
      "\<not> has_lookahead s'" "nine.unread S s io \<noteq> [] \<Longrightarrow> \<not> eof s'"
    by (rule nine.buffered_read_next [OF r 5(2,3)]) blast
  have "os_stream_read_char D s io = buffered_read (fill_9p D) s io"
    using 5 r k by (simp add: os_stream_read_char_def nine.reading_def)
  then show ?case
    using s' k by (intro exI [of _ s'] exI [of _ io']) (auto simp: same_file_def map_tl split: list.split)
qed (auto simp: nine.reading_def nine.unread_def nine.reading_lookahead [unfolded nine.reading_def] on_server_def)

interpretation fat_input: text_input D
  "\<lambda>s io. kind s = STREAM_FAT_FILE_IO \<and> fat.reading D V node s io"
  "\<lambda>s io. map byte_char (fat.unread V s io)"
  for D :: "('d, 'w, 'n, 't) drivers" and V node
proof (unfold_locales, goal_cases)
  case (5 s io)
  then have r: "fat.reading D V node s io" and k: "kind s = STREAM_FAT_FILE_IO" by simp_all
  obtain s' io' where s': "buffered_read (fill_fat D) s io =
      Some (case fat.unread V s io of [] \<Rightarrow> None | b # _ \<Rightarrow> Some (byte_char b), s', io')"
      "fat.reading D V node s' io'" "fat.unread V s' io' = tl (fat.unread V s io)" "same_file s s'"
      "\<not> has_lookahead s'" "fat.unread V s io \<noteq> [] \<Longrightarrow> \<not> eof s'"
    by (rule fat.buffered_read_next [OF r 5(2,3)]) blast
  have "os_stream_read_char D s io = buffered_read (fill_fat D) s io"
    using 5 r k by (simp add: os_stream_read_char_def fat.reading_def is_9p_read_kind_def is_fat_read_kind_def)
  then show ?case
    using s' k by (intro exI [of _ s'] exI [of _ io']) (auto simp: same_file_def map_tl split: list.split)
qed (auto simp: fat.reading_def fat.unread_def on_volume_def)

definition string_ready :: "('w, 'n, 't) os_stream \<Rightarrow> bool" where
  "string_ready s \<longleftrightarrow> kind s = STREAM_STRING_INPUT \<and> \<not> closed s \<and> \<not> failed s \<and> str_len s \<le> length (str_buf s) \<and>
     (eof s \<longrightarrow> str_len s \<le> str_pos s)"

interpretation string_input: text_input D
  "\<lambda>s io. string_ready s" "\<lambda>s io. map byte_char (drop (str_pos s) (take (str_len s) (str_buf s)))"
  for D :: "('d, 'w, 'n, 't) drivers"
proof (unfold_locales, goal_cases)
  case (5 s io)
  show ?case
  proof (cases "str_pos s < str_len s")
    case True
    then have d: "drop (str_pos s) (take (str_len s) (str_buf s)) =
        str_buf s ! str_pos s # drop (str_pos s + 1) (take (str_len s) (str_buf s))"
      using 5(1) by (simp add: string_ready_def Cons_nth_drop_Suc [symmetric])
    show ?thesis using True 5
      by (intro exI [of _ "s\<lparr>str_pos := str_pos s + 1\<rparr>"] exI [of _ io], unfold d)
        (auto simp: os_stream_read_char_def string_ready_def is_9p_read_kind_def is_fat_read_kind_def)
  next
    case False
    then show ?thesis using 5
      by (intro exI [of _ "s\<lparr>eof := True\<rparr>"] exI [of _ io])
        (auto simp: os_stream_read_char_def string_ready_def is_9p_read_kind_def is_fat_read_kind_def)
  qed
qed (auto simp: string_ready_def)

subsection \<open>Output streams\<close>

primrec write_text ::
  "('d, 'w, 'n, 't) drivers \<Rightarrow> string \<Rightarrow> ('w, 'n, 't) os_stream \<Rightarrow> ('d, 'w) io \<Rightarrow>
   (bool \<times> ('w, 'n, 't) os_stream \<times> ('d, 'w) io) option" where
  "write_text D [] s io = Some (True, s, io)"
| "write_text D (c # text) s io =
     (case os_stream_write_char D c s io of
        None \<Rightarrow> None
      | Some (ok, s, io) \<Rightarrow>
          (case write_text D text s io of None \<Rightarrow> None | Some (ok', s, io) \<Rightarrow> Some (ok \<and> ok', s, io)))"

lemma put_byte_room:
  "length (fst (put_byte room b cw)) \<le> length (fst cw) + WRITE_BUF_SIZE"
  "length (snd cw) < WRITE_BUF_SIZE \<Longrightarrow> length (fst (put_byte room b cw)) + length (snd (put_byte room b cw)) \<le> Suc (length (fst cw) + length (snd cw))"
  by (auto simp: put_byte_def Let_def)

lemma put_bytes_full:
  "WRITE_BUF_SIZE \<le> room \<Longrightarrow> fst (fold (put_byte room) bs cw) @ snd (fold (put_byte room) bs cw) = fst cw @ snd cw @ bs"
  by (induction bs arbitrary: cw) (auto simp: put_byte_def Let_def)

lemma put_bytes_short:
  "length (snd cw) + length bs < WRITE_BUF_SIZE \<Longrightarrow> fold (put_byte room) bs cw = (fst cw, snd cw @ bs)"
  by (induction bs arbitrary: cw) (auto simp: put_byte_def Let_def)

lemma put_bytes_block:
  assumes "length bs = WRITE_BUF_SIZE"
  shows "fold (put_byte room) bs (c, []) = (c @ take room bs, [])"
proof -
  obtain bs' b where bs: "bs = bs' @ [b]" "length bs' < WRITE_BUF_SIZE"
    using assms by (cases bs rule: rev_cases) (auto simp: WRITE_BUF_SIZE_def)
  then have "fold (put_byte room) bs' (c, []) = (c, bs')" using put_bytes_short [of "(c, [])" bs' room] by simp
  then show ?thesis using assms bs by (simp add: put_byte_def Let_def)
qed

context file_writer
begin

lemma write_text_puts:
  assumes step: "\<And>c s io. writing s io \<Longrightarrow> P s \<Longrightarrow> os_stream_write_char D c s io = buffered_write flush (both s) c s io"
    and P: "\<And>s s'. P s \<Longrightarrow> same_file s s' \<Longrightarrow> P s'"
  shows "writing s io \<Longrightarrow> P s \<Longrightarrow> length (contents io) + length (write_buf s) + length str \<le> limit \<Longrightarrow>
    \<exists>s' io'. write_text D str s io = Some (True, s', io') \<and> writing s' io' \<and> same_file s s' \<and>
      (contents io', write_buf s') = fold (put_byte room) (map char_byte str) (contents io, write_buf s)"
proof (induction str arbitrary: s io)
  case (Cons c str)
  have fits: "length (contents io) + length (write_buf s) < limit" using Cons.prems(3) by simp
  obtain s1 io1 where s1: "buffered_write flush (both s) c s io = Some (True, s1, io1)" "writing s1 io1"
    "(contents io1, write_buf s1) = put_byte room (char_byte c) (contents io, write_buf s)" "same_file s s1"
    by (rule buffered_write_next [OF Cons.prems(1) fits, where both = "both s" and c = c]) blast
  have l: "length (contents io1) + length (write_buf s1) \<le> Suc (length (contents io) + length (write_buf s))"
    using put_byte_room(2) [of "(contents io, write_buf s)" room "char_byte c"] Cons.prems(1) s1(3) [symmetric]
    by (simp add: writing_def)
  have "\<exists>s' io'. write_text D str s1 io1 = Some (True, s', io') \<and> writing s' io' \<and> same_file s1 s' \<and>
      (contents io', write_buf s') = fold (put_byte room) (map char_byte str) (contents io1, write_buf s1)"
    using l Cons.prems(3) P [OF Cons.prems(2) s1(4)] by (intro Cons.IH s1(2)) auto
  then show ?case
    using step [OF Cons.prems(1,2), of c] s1 same_file_trans [OF s1(4)] by auto
qed simp

lemma flush_writing:
  assumes "writing s io" "length (contents io) + length (write_buf s) \<le> limit"
  obtains io' where "flush s io = Some (flushed (length (take room (write_buf s))) s, io')"
    "writing (flushed (length (take room (write_buf s))) s) io'" "contents io' = contents io @ take room (write_buf s)"
  by (rule flush_all [of s io]) (use assms in \<open>auto simp: writing_def intro: that\<close>)

end

lemma write_char_9p:
  "nine_out.writing D S s io \<Longrightarrow> is_9p_write_kind (kind s) \<Longrightarrow>
     os_stream_write_char D c s io = buffered_write (flush_write_buf_9p D) (kind s = STREAM_9P_FILE_IO) c s io"
  by (auto simp: os_stream_write_char_def nine_out.writing_def is_9p_write_kind_def)

lemma write_char_fat:
  "fat_out.writing D V node s io \<Longrightarrow> is_fat_write_kind (kind s) \<Longrightarrow>
     os_stream_write_char D c s io = buffered_write (flush_write_buf_fat D) (kind s = STREAM_FAT_FILE_IO) c s io"
  by (auto simp: os_stream_write_char_def fat_out.writing_def is_fat_write_kind_def is_9p_write_kind_def)

text \<open>No fid is taken by reading and writing.\<close>

lemma flush_9p_fid:
  "flush_write_buf_9p D s io = Some (s', io') \<Longrightarrow> kind s' = kind s \<and> g_next_fid (client io') = g_next_fid (client io)"
  by (auto simp: flush_write_buf_9p_def os_virtio9p_write_chunk_def dest!: request_frame
      split: if_split_asm prod.split_asm p9_result.split_asm)

lemma write_9p_fid:
  "os_stream_write_char D c s io = Some (ok, s', io') \<Longrightarrow> kind s = STREAM_9P_FILE_WRITE \<Longrightarrow>
     kind s' = STREAM_9P_FILE_WRITE \<and> g_next_fid (client io') = g_next_fid (client io)"
  by (auto simp: os_stream_write_char_def is_9p_write_kind_def buffered_write_def advance_column_def Let_def dest!: flush_9p_fid
      split: if_split_asm option.split_asm prod.split_asm)

lemma write_text_9p_fid:
  "write_text D str s io = Some (ok, s', io') \<Longrightarrow> kind s = STREAM_9P_FILE_WRITE \<Longrightarrow> g_next_fid (client io') = g_next_fid (client io)"
proof (induction str arbitrary: s io ok s' io')
  case (Cons c str)
  obtain ok1 s1 io1 ok2 where w: "os_stream_write_char D c s io = Some (ok1, s1, io1)" "write_text D str s1 io1 = Some (ok2, s', io')"
    using Cons.prems(1) by (auto split: option.split_asm prod.split_asm)
  from Cons.IH [OF w(2)] write_9p_fid [OF w(1) Cons.prems(2)] show ?case by simp
qed simp

text \<open>Closing a 9P output stream writes what is left and releases the fid.\<close>

lemma close_9p_write:
  assumes w: "nine_out.writing D S s io" and k: "is_9p_write_kind (kind s)"
    and fits: "length (exported S (device (client io))) + length (write_buf s) \<le> size_limit S"
  obtains s' io' where "os_stream_close D s io = Some (s', io')" "closed s'" "\<not> failed s'" "client_synced S (client io')"
    "g_next_fid (client io') = g_next_fid (client io)"
    "exported S (device (client io')) = exported S (device (client io)) @ take (write_limit S) (write_buf s)"
proof -
  let ?s = "flushed (length (take (write_limit S) (write_buf s))) s"
  obtain io1 where f: "flush_write_buf_9p D s io = Some (?s, io1)" "nine_out.writing D S ?s io1"
    "exported S (device (client io1)) = exported S (device (client io)) @ take (write_limit S) (write_buf s)"
    by (rule nine_out.flush_writing [OF w fits]) blast
  from f(2) obtain mode where T: "serves_file (transport D) S" "client_synced S (client io1)"
      "fid_table S (device (client io1)) (fid ?s) = Some (Opened mode)"
    by (auto simp: nine_out.writing_def on_server_def)
  obtain c where c: "os_virtio9p_close (transport D) (fid ?s) (Some ERR_MSG_SIZE) (client io1) = (Done (), c)" "client_synced S c"
    "exported S (device c) = exported S (device (client io1))" "g_next_fid c = g_next_fid (client io1)"
    by (rule close_kept [OF T])
  have "kind ?s = kind s" "\<not> failed ?s" using w by (simp_all add: flushed_def nine_out.writing_def)
  moreover have "\<not> is_fat_write_kind (kind s)" using k by (auto simp: is_fat_write_kind_def is_9p_write_kind_def)
  ultimately have "os_stream_close D s io = Some (?s\<lparr>closed := True\<rparr>, io1\<lparr>client := c\<rparr>)"
    using k f(1) c(1) by (simp add: os_stream_close_def Let_def)
  moreover have "g_next_fid (client io1) = g_next_fid (client io)" using flush_9p_fid [OF f(1)] by simp
  ultimately show ?thesis
    using that [of "?s\<lparr>closed := True\<rparr>" "io1\<lparr>client := c\<rparr>"] c(2-4) f(2,3) by (simp add: nine_out.writing_def)
qed

text \<open>Opening a 9P file, for writing and for reading.\<close>

lemma open_9p_write:
  assumes T: "serves_session (transport D) S" "serves_path (transport D) S path" "serves_file (transport D) S"
    and c: "client_synced S (client io)" "g_next_fid (client io) < 0xFFFFFFFF"
  obtains s' io' where "os_stream_open_9p_file_write D path create err s io = Some (True, s', io')"
    "nine_out.writing D S s' io'" "exported S (device (client io')) = []" "kind s' = STREAM_9P_FILE_WRITE"
    "write_buf s' = []" "g_next_fid (client io') = g_next_fid (client io) + 1"
proof -
  have m: "after_open (P9_OWRITE OR P9_OTRUNC) K = []" "may_write (P9_OWRITE OR P9_OTRUNC)" for K
    by (simp_all add: after_open_def may_write_def P9_OWRITE_def P9_OTRUNC_def)
  obtain c' where o: "os_virtio9p_open (transport D) path (P9_OWRITE OR P9_OTRUNC) err (client io) = (Done (g_next_fid (client io)), c')"
    "client_synced S c'" "g_next_fid c' = g_next_fid (client io) + 1"
    "fid_table S (device c') (g_next_fid (client io)) = Some (Opened (P9_OWRITE OR P9_OTRUNC))" "exported S (device c') = []"
    by (rule open_kept [OF T(1,2) c, where mode = "P9_OWRITE OR P9_OTRUNC" and err = err]) (simp_all add: m)
  let ?s = "(stream_init_common STREAM_9P_FILE_WRITE s)\<lparr>fid := g_next_fid (client io)\<rparr>"
  have "os_stream_open_9p_file_write D path create err s io = Some (True, ?s, io\<lparr>client := c'\<rparr>)"
    by (simp add: os_stream_open_9p_file_write_def open_or_create_def o(1))
  moreover have "nine_out.writing D S ?s (io\<lparr>client := c'\<rparr>)"
    using T(3) o(2,4,5) m(2) by (simp add: nine_out.writing_def on_server_def stream_init_common_def WRITE_BUF_SIZE_def)
  ultimately show ?thesis using that o(3,5) by (simp add: stream_init_common_def)
qed

lemma open_9p_read:
  assumes T: "serves_session (transport D) S" "serves_path (transport D) S path" "serves_file (transport D) S"
    and c: "client_synced S (client io)" "g_next_fid (client io) < 0xFFFFFFFF" and buf: "length (buf_data s) = STREAM_READ_CHUNK"
  obtains s' io' where "os_stream_open_9p_file D path err s io = Some (True, s', io')"
    "nine_input.readable D S s' io'"
    "nine_input.rest_of S s' io' = map byte_char (exported S (device (client io)))"
    "client_synced S (client io')" "g_next_fid (client io') = g_next_fid (client io) + 1"
    "exported S (device (client io')) = exported S (device (client io))"
proof -
  have m: "after_open P9_OREAD K = K" "may_read P9_OREAD" for K
    by (simp_all add: after_open_def may_read_def P9_OREAD_def)
  obtain c' where o: "os_virtio9p_open (transport D) path P9_OREAD err (client io) = (Done (g_next_fid (client io)), c')"
    "client_synced S c'" "g_next_fid c' = g_next_fid (client io) + 1"
    "fid_table S (device c') (g_next_fid (client io)) = Some (Opened P9_OREAD)" "exported S (device c') = exported S (device (client io))"
    by (rule open_kept [OF T(1,2) c, where mode = P9_OREAD and err = err]) (simp_all add: m)
  let ?s = "(stream_init_common STREAM_9P_FILE_READ s)\<lparr>fid := g_next_fid (client io)\<rparr>"
  have "os_stream_open_9p_file D path err s io = Some (True, ?s, io\<lparr>client := c'\<rparr>)"
    by (simp add: os_stream_open_9p_file_def o(1) Let_def)
  moreover have "nine_input.readable D S ?s (io\<lparr>client := c'\<rparr>)"
    unfolding nine_input.readable_def
    using T(3) o(2,4) m(2) buf by (simp add: nine.reading_def on_server_def stream_init_common_def is_9p_read_kind_def)
  moreover have "nine_input.rest_of S ?s (io\<lparr>client := c'\<rparr>) = map byte_char (exported S (device (client io)))"
    unfolding nine_input.rest_of_def using o(5) by (simp add: nine.unread_def stream_init_common_def)
  ultimately show ?thesis using that o(2,3,5) by simp
qed

lemma next_fid_room: "(n :: u32) < 0xFFFFFFFE \<Longrightarrow> n < 0xFFFFFFFF" "(n :: u32) < 0xFFFFFFFE \<Longrightarrow> n + 1 < 0xFFFFFFFF"
  by (simp_all add: word_less_nat_alt unat_word_ariths)

subsection \<open>Examples\<close>

definition some_stream :: "(u8 list, unit, unit) os_stream" where
  "some_stream = \<lparr>kind = STREAM_STRING_INPUT, fid = 0, next_offset = 0, buf_data = replicate 1024 0, buf_count = 0, buf_pos = 0,
     write_buf = [], eof = False, failed = False, out_fb = 0, keyboard_read = None, str_buf = [], str_cap = 0, str_len = 0,
     str_pos = 0, has_lookahead = False, lookahead = CHR 0x00, column = 0, closed = False, mount_file_node = None,
     pending_transfer = None\<rparr>"

text \<open>A FAT volume of 4096 bytes with one file, which is the state of the callbacks; it refuses a write beyond its end.\<close>

definition volume_read ::
  "unit option \<Rightarrow> u8 list \<Rightarrow> u64 \<Rightarrow> nat \<Rightarrow> u8 list \<Rightarrow> (nat option \<times> u8 list, unit) lisp_result \<times> u8 list" where
  "volume_read node v off want w =
     (let n = min want (length w - unat off) in (Value (Some n, take n (drop (unat off) w) @ drop n v), w))"

definition volume_write :: "unit option \<Rightarrow> u8 list \<Rightarrow> u64 \<Rightarrow> u8 list \<Rightarrow> (bool, unit) lisp_result \<times> u8 list" where
  "volume_write node data off w =
     (if unat off + length data \<le> 4096 then (Value True, overwrite (unat off) data w) else (Value False, w))"

definition example_volume_file :: "u8 list fat_file" where
  "example_volume_file = \<lparr>mounted = (\<lambda>w. length w \<le> 4096), on_disk = (\<lambda>w. w), quota = 4096\<rparr>"

definition example_drivers :: "nat \<Rightarrow> (ramdisk, u8 list, unit, unit) drivers" where
  "example_drivers iounit = \<lparr>transport = ramdisk_transport (ramdisk_reply iounit 4096), glyphs = (\<lambda>c row. 0),
     write_from = Some volume_write, read_into = Some volume_read\<rparr>"

definition example_io :: "u8 list \<Rightarrow> (ramdisk, u8 list) io" where
  "example_io vol = \<lparr>client = client_init (ramdisk_start [7]),
     terminal = initialize_virtual_buffers 80 32 80 4 (\<lambda>_. 0), world = vol\<rparr>"

lemma example_servers:
  "serves_session (transport (example_drivers iounit)) (ramdisk_server iounit 4096)"
  "serves_path (transport (example_drivers iounit)) (ramdisk_server iounit 4096) ''f''"
  "iounit < 4294967296 \<Longrightarrow> serves_file (transport (example_drivers iounit)) (ramdisk_server iounit 4096)"
  "client_synced (ramdisk_server iounit 4096) (client (example_io vol))"
  "g_next_fid (client (example_io vol)) < 0xFFFFFFFE"
  by (simp_all add: example_drivers_def ramdisk_serves ramdisk_path ramdisk_serves_file example_io_def ramdisk_start_synced)
    (simp_all add: client_init_def)

lemma example_volume:
  "length vol \<le> 4096 \<Longrightarrow>
     on_volume (example_drivers iounit) example_volume_file (Some ()) (os_stream_open_fat_file_io () s) (example_io vol)"
  by (auto simp: on_volume_def example_volume_file_def example_drivers_def volume_read_def volume_write_def Let_def
      os_stream_open_fat_file_io_def stream_init_common_def example_io_def length_overwrite)

subsection \<open>Properties of the streams\<close>

lemma write_text_9p:
  fixes D :: "('d, 'w, 'n, 't) drivers" and io :: "('d, 'w) io"
  assumes "nine_out.writing D S s io" "kind s = STREAM_9P_FILE_WRITE"
    "length (exported S (device (client io))) + length (write_buf s) + length str \<le> size_limit S"
  obtains s' io' where "write_text D str s io = Some (True, s', io')" "nine_out.writing D S s' io'"
    "kind s' = STREAM_9P_FILE_WRITE" "g_next_fid (client io') = g_next_fid (client io)"
    "(exported S (device (client io')), write_buf s') =
       fold (put_byte (write_limit S)) (map char_byte str) (exported S (device (client io)), write_buf s)"
proof -
  have frame: "kind s' = STREAM_9P_FILE_WRITE" if "kind s = STREAM_9P_FILE_WRITE" "same_file s s'" for s s' :: "('w, 'n, 't) os_stream"
    using that by (simp add: same_file_def)
  have step: "os_stream_write_char D c s io = buffered_write (flush_write_buf_9p D) (kind s = STREAM_9P_FILE_IO) c s io"
    if "nine_out.writing D S s io" "kind s = STREAM_9P_FILE_WRITE" for c s and io :: "('d, 'w) io"
    using write_char_9p [OF that(1)] that(2) by (simp add: is_9p_write_kind_def)
  have "\<exists>s' io'. write_text D str s io = Some (True, s', io') \<and> nine_out.writing D S s' io' \<and> same_file s s' \<and>
    (exported S (device (client io')), write_buf s') =
      fold (put_byte (write_limit S)) (map char_byte str) (exported S (device (client io)), write_buf s)"
  proof (rule nine_out.write_text_puts [where P = "\<lambda>s. kind s = STREAM_9P_FILE_WRITE" and both = "\<lambda>s. kind s = STREAM_9P_FILE_IO"])
    show "os_stream_write_char D c s io = buffered_write (flush_write_buf_9p D) (kind s = STREAM_9P_FILE_IO) c s io"
      if "nine_out.writing D S s io" "kind s = STREAM_9P_FILE_WRITE" for c s and io :: "('d, 'w) io"
      by (rule step [OF that])
    show "kind s' = STREAM_9P_FILE_WRITE" if "kind s = STREAM_9P_FILE_WRITE" "same_file s s'" for s s' :: "('w, 'n, 't) os_stream"
      by (rule frame [OF that])
  qed (fact assms)+
  then obtain s' io' where w: "write_text D str s io = Some (True, s', io')" "nine_out.writing D S s' io'" "same_file s s'"
    "(exported S (device (client io')), write_buf s') =
      fold (put_byte (write_limit S)) (map char_byte str) (exported S (device (client io)), write_buf s)"
    by blast
  moreover have "g_next_fid (client io') = g_next_fid (client io)"
    using w(1) assms(2) by (rule write_text_9p_fid)
  ultimately show thesis using that [of s' io'] frame [OF assms(2)] by blast
qed

lemma save_text:
  assumes T: "serves_session (transport D) S" "serves_path (transport D) S path" "serves_file (transport D) S"
    and c: "client_synced S (client io)" and n: "g_next_fid (client io) < 0xFFFFFFFF"
    and len: "length str \<le> size_limit S"
  obtains s1 io1 s2 io2 s3 io3 where "os_stream_open_9p_file_write D path create err s io = Some (True, s1, io1)"
    "write_text D str s1 io1 = Some (True, s2, io2)" "os_stream_close D s2 io2 = Some (s3, io3)" "\<not> failed s3"
    "client_synced S (client io3)" "g_next_fid (client io3) = g_next_fid (client io) + 1"
    "exported S (device (client io3)) = fst (fold (put_byte (write_limit S)) (map char_byte str) ([], [])) @
       take (write_limit S) (snd (fold (put_byte (write_limit S)) (map char_byte str) ([], [])))"
proof -
  obtain s1 io1 where o: "os_stream_open_9p_file_write D path create err s io = Some (True, s1, io1)"
    "nine_out.writing D S s1 io1" "exported S (device (client io1)) = []" "kind s1 = STREAM_9P_FILE_WRITE" "write_buf s1 = []"
    "g_next_fid (client io1) = g_next_fid (client io) + 1"
    by (rule open_9p_write [OF T c n])
  have fits: "length (exported S (device (client io1))) + length (write_buf s1) + length str \<le> size_limit S"
    using len by (simp add: o(3,5))
  obtain s2 io2 where w: "write_text D str s1 io1 = Some (True, s2, io2)" "nine_out.writing D S s2 io2"
    "kind s2 = STREAM_9P_FILE_WRITE" "g_next_fid (client io2) = g_next_fid (client io1)"
    "(exported S (device (client io2)), write_buf s2) = fold (put_byte (write_limit S)) (map char_byte str) ([], [])"
    using write_text_9p [OF o(2,4) fits] unfolding o(3,5) by metis
  have bound: "length (fst (fold (put_byte r) bs cw)) + length (snd (fold (put_byte r) bs cw)) \<le> length (fst cw) + length (snd cw) + length bs"
    if "length (snd cw) < WRITE_BUF_SIZE" for r bs cw
    using that
  proof (induction bs arbitrary: cw)
    case (Cons b bs)
    have "length (snd (put_byte r b cw)) < WRITE_BUF_SIZE" using Cons.prems by (auto simp: put_byte_def Let_def WRITE_BUF_SIZE_def)
    from Cons.IH [OF this] show ?case using put_byte_room(2) [OF Cons.prems, of r b] by simp
  qed simp
  have fits2: "length (exported S (device (client io2))) + length (write_buf s2) \<le> size_limit S"
    using bound [of "([], [])" "write_limit S" "map char_byte str"] w(5) [symmetric] len by (simp add: WRITE_BUF_SIZE_def)
  have k: "is_9p_write_kind (kind s2)" by (simp add: w(3) is_9p_write_kind_def)
  obtain s3 io3 where "os_stream_close D s2 io2 = Some (s3, io3)" "closed s3" "\<not> failed s3" "client_synced S (client io3)"
    "g_next_fid (client io3) = g_next_fid (client io2)" "exported S (device (client io3)) = exported S (device (client io2)) @ take (write_limit S) (write_buf s2)"
    by (rule close_9p_write [OF w(2) k fits2])
  then show ?thesis using that [OF o(1) w(1)] w(4) o(6) w(5) [symmetric] by simp
qed

text \<open>
  C16. A text written through a buffered stream to a file of a 9P server that takes whole requests
  and has room for it comes back: after writing and closing every operation has reported success and the file
  holds exactly its bytes, and a stream opened to read it delivers the text and then its end to
  any sequence of \<open>read_char\<close> and \<open>preview_char\<close>, however the server splits the data. Two fids must be left.
\<close>

theorem save_then_load:
  assumes T: "serves_session (transport D) S" "serves_path (transport D) S path" "serves_file (transport D) S"
    and whole: "WRITE_BUF_SIZE \<le> write_limit S" and len: "length str \<le> size_limit S"
    and c: "client_synced S (client io)" "g_next_fid (client io) < 0xFFFFFFFE"
    and buf: "length (buf_data t) = STREAM_READ_CHUNK"
  shows "\<exists>s1 io1 s2 io2 s3 io3 t1 io4. os_stream_open_9p_file_write D path create err s io = Some (True, s1, io1) \<and>
    write_text D str s1 io1 = Some (True, s2, io2) \<and> os_stream_close D s2 io2 = Some (s3, io3) \<and> \<not> failed s3 \<and>
    exported S (device (client io3)) = map char_byte str \<and>
    os_stream_open_9p_file D path err t io3 = Some (True, t1, io4) \<and>
    (\<forall>ops. \<exists>t2 io5. run_input D ops t1 io4 = Some (fst (cursor_input ops str), t2, io5))"
proof -
  have n: "g_next_fid (client io) < 0xFFFFFFFF" "g_next_fid (client io) + 1 < 0xFFFFFFFF"
    using c(2) by (simp_all add: next_fid_room)
  obtain s1 io1 s2 io2 s3 io3 where w: "os_stream_open_9p_file_write D path create err s io = Some (True, s1, io1)"
    "write_text D str s1 io1 = Some (True, s2, io2)" "os_stream_close D s2 io2 = Some (s3, io3)" "\<not> failed s3" "client_synced S (client io3)"
    "g_next_fid (client io3) = g_next_fid (client io) + 1"
    "exported S (device (client io3)) = fst (fold (put_byte (write_limit S)) (map char_byte str) ([], [])) @
       take (write_limit S) (snd (fold (put_byte (write_limit S)) (map char_byte str) ([], [])))"
    by (rule save_text [OF T c(1) n(1) len])
  have "length (snd (fold (put_byte (write_limit S)) bs cw)) < WRITE_BUF_SIZE" if "length (snd cw) < WRITE_BUF_SIZE" for bs cw
    using that by (induction bs arbitrary: cw) (auto simp: put_byte_def Let_def WRITE_BUF_SIZE_def)
  from this [of "([], [])" "map char_byte str"] have stored: "exported S (device (client io3)) = map char_byte str"
    using w(7) put_bytes_full [OF whole, of "map char_byte str" "([], [])"] whole by (simp add: WRITE_BUF_SIZE_def)
  obtain t1 io4 where r: "os_stream_open_9p_file D path err t io3 = Some (True, t1, io4)"
    "nine_input.readable D S t1 io4"
    "nine_input.rest_of S t1 io4 = map byte_char (exported S (device (client io3)))"
    by (rule open_9p_read [OF T w(5) _ buf]) (use w(6) n(2) in simp_all)
  have "\<exists>t2 io5. run_input D ops t1 io4 = Some (fst (cursor_input ops str), t2, io5)" for ops
    by (rule nine_input.run_input_cursor [OF r(2), of ops]) (simp add: r(3) stored comp_def)
  then show ?thesis using w(1-4) stored r(1) by blast
qed

theorem save_then_load_witness:
  "\<exists>s1 io1 s2 io2 s3 io3 t1 io4 t2 io5. os_stream_open_9p_file_write (example_drivers 512) ''f'' True (Some 80) some_stream (example_io []) =
       Some (True, s1, io1) \<and>
     write_text (example_drivers 512) ''hi'' s1 io1 = Some (True, s2, io2) \<and> os_stream_close (example_drivers 512) s2 io2 = Some (s3, io3) \<and>
     os_stream_open_9p_file (example_drivers 512) ''f'' (Some 80) some_stream io3 = Some (True, t1, io4) \<and>
     run_input (example_drivers 512) [Read, Preview, Read, Read] t1 io4 =
       Some ([Some (CHR ''h''), Some (CHR ''i''), Some (CHR ''i''), None], t2, io5)"
proof -
  let ?S = "ramdisk_server 512 4096"
  have io: "(512 :: nat) < 4294967296" "WRITE_BUF_SIZE \<le> write_limit ?S" "length ''hi'' \<le> size_limit ?S"
    "length (buf_data some_stream) = STREAM_READ_CHUNK"
    by (simp_all add: ramdisk_server_def some_stream_def STREAM_READ_CHUNK_def WRITE_BUF_SIZE_def)
  have "fst (cursor_input [Read, Preview, Read, Read] ''hi'') = [Some (CHR ''h''), Some (CHR ''i''), Some (CHR ''i''), None]" by simp
  with save_then_load [OF example_servers(1,2) example_servers(3) [OF io(1)] io(2,3) example_servers(4,5) io(4), of True "Some 80" some_stream "[]"]
  show ?thesis by metis
qed

text \<open>
  C37. A write that the server takes only in part is lost without a trace: against a server that
  stores \<open>write_limit\<close> bytes of a request, fewer than the stream's 512-byte buffer, writing 512
  characters and closing report success throughout, and the file holds the first \<open>write_limit\<close> of them.
\<close>

theorem short_writes_lose:
  assumes T: "serves_session (transport D) S" "serves_path (transport D) S path" "serves_file (transport D) S"
    and c: "client_synced S (client io)" "g_next_fid (client io) < 0xFFFFFFFF"
    and len: "length str = WRITE_BUF_SIZE" "WRITE_BUF_SIZE \<le> size_limit S"
  shows "\<exists>s1 io1 s2 io2 s3 io3. os_stream_open_9p_file_write D path create err s io = Some (True, s1, io1) \<and>
    write_text D str s1 io1 = Some (True, s2, io2) \<and> os_stream_close D s2 io2 = Some (s3, io3) \<and> \<not> failed s3 \<and>
    exported S (device (client io3)) = map char_byte (take (write_limit S) str)"
proof -
  have small: "length str \<le> size_limit S" using len by simp
  have f: "fold (put_byte (write_limit S)) (map char_byte str) ([], []) = (map char_byte (take (write_limit S) str), [])"
    using put_bytes_block [of "map char_byte str" "write_limit S" "[]"] len(1) by (simp add: take_map)
  show ?thesis
    by (rule save_text [OF T c small, where create = create and err = err and s = s]) (auto simp: f)
qed

theorem short_writes_lose_witness:
  "\<exists>s1 io1 s2 io2 s3 io3. os_stream_open_9p_file_write (example_drivers 100) ''f'' True (Some 80) some_stream (example_io []) =
       Some (True, s1, io1) \<and>
     write_text (example_drivers 100) (replicate 512 CHR ''x'') s1 io1 = Some (True, s2, io2) \<and>
     os_stream_close (example_drivers 100) s2 io2 = Some (s3, io3) \<and> \<not> failed s3 \<and>
     disk (device (client io3)) = replicate 100 120"
proof -
  let ?S = "ramdisk_server 100 4096"
  have io: "(100 :: nat) < 4294967296" "length (replicate 512 CHR ''x'') = WRITE_BUF_SIZE" "WRITE_BUF_SIZE \<le> size_limit ?S"
    "exported ?S = disk" "write_limit ?S = 100"
    by (simp_all add: ramdisk_server_def WRITE_BUF_SIZE_def)
  have n: "g_next_fid (client (example_io [])) < 0xFFFFFFFF" by (rule next_fid_room(1) [OF example_servers(5)])
  have "map char_byte (take 100 (replicate 512 CHR ''x'')) = replicate 100 120" by (simp add: char_byte_def)
  with short_writes_lose [OF example_servers(1,2) example_servers(3) [OF io(1)] example_servers(4) n io(2,3), of True "Some 80" some_stream]
  show ?thesis unfolding io(4,5) by simp
qed

text \<open>
  C38. On a FAT stream open for reading and writing, a character written right after reading one
  does not follow it: the position the stream reports is 1, the write goes behind what the
  stream has prefetched, at 1024 or at the end of a shorter file, on a volume that has room for it there.
\<close>

theorem io_write_after_read:
  assumes s: "on_volume D V (Some n) (os_stream_open_fat_file_io n s0) io" "length (buf_data s0) = STREAM_READ_CHUNK"
    and room: "min STREAM_READ_CHUNK (Suc (length bs)) < quota V" and K: "on_disk V (world io) = b # bs"
  shows "\<exists>s1 io1 s2 io2 s3 io3.
    os_stream_read_char D (os_stream_open_fat_file_io n s0) io = Some (Some (byte_char b), s1, io1) \<and> cc_file_position s1 = 1 \<and>
    os_stream_write_char D c s1 io1 = Some (True, s2, io2) \<and> os_stream_close D s2 io2 = Some (s3, io3) \<and> \<not> failed s3 \<and>
    on_disk V (world io3) = overwrite (min STREAM_READ_CHUNK (Suc (length bs))) [char_byte c] (b # bs)"
proof -
  let ?s = "os_stream_open_fat_file_io n s0" and ?m = "min STREAM_READ_CHUNK (Suc (length bs))"
  let ?chunk = "take STREAM_READ_CHUNK (b # bs)"
  have k: "kind ?s = STREAM_FAT_FILE_IO" "next_offset ?s = 0" "\<not> closed ?s" "\<not> failed ?s" "\<not> eof ?s" "\<not> has_lookahead ?s"
    "write_buf ?s = []" "buf_pos ?s = 0" "buf_count ?s = 0" "buf_data ?s = buf_data s0" "mount_file_node ?s = Some n"
    by (simp_all add: os_stream_open_fat_file_io_def stream_init_common_def)
  have l: "length ?chunk = ?m" "0 < ?m" "?m \<le> STREAM_READ_CHUNK" "?chunk \<noteq> []" "?chunk ! 0 = b" by (auto simp: STREAM_READ_CHUNK_def)
  have kb: "length (b # bs) < 2 ^ 63" using s(1) K unfolding on_volume_def by metis
  obtain w where w: "refill_read_buf_fat D ?s io = Some (refilled ?chunk ?s, io\<lparr>world := w\<rparr>)"
    "on_volume D V (Some n) ?s (io\<lparr>world := w\<rparr>)" "on_disk V w = b # bs"
    by (rule refill_fat_reads [OF s(1)]) (use s(2) K k(2,10) in simp_all)
  let ?s1 = "(refilled ?chunk ?s)\<lparr>buf_pos := 1\<rparr>" and ?io1 = "io\<lparr>world := w\<rparr>"
  have read: "os_stream_read_char D ?s io = Some (Some (byte_char b), ?s1, ?io1)"
    using k l w(1) s(2) by (simp add: os_stream_read_char_def is_9p_read_kind_def is_fat_read_kind_def buffered_read_def fill_fat_refill
      refilled_def nth_append STREAM_READ_CHUNK_def)
  have small: "unat (of_nat m :: u64) = m" if "m \<le> STREAM_READ_CHUNK" for m
    using that by (simp add: unsigned_of_nat take_bit_nat_eq_self STREAM_READ_CHUNK_def)
  have off: "next_offset ?s1 = of_nat ?m" "unat (next_offset ?s1) = ?m"
    using k(2) small [OF l(3)] unfolding refilled_def l(1) by simp_all
  have pos: "cc_file_position ?s1 = 1"
    using k(1,2,6) l(2) unfolding refilled_def l(1) by (simp add: cc_file_position_def of_nat_diff)
  let ?s2 = "advance_column c (?s1\<lparr>buf_pos := 0, buf_count := 0, write_buf := [char_byte c]\<rparr>)"
  have put: "os_stream_write_char D c ?s1 ?io1 = Some (True, ?s2, ?io1)"
    using k by (simp add: os_stream_write_char_def is_9p_write_kind_def is_fat_write_kind_def buffered_write_def refilled_def
      WRITE_BUF_SIZE_def Let_def advance_column_def)
  have s2: "kind ?s2 = STREAM_FAT_FILE_IO" "write_buf ?s2 = [char_byte c]" "next_offset ?s2 = next_offset ?s1" "\<not> failed ?s2"
    "mount_file_node ?s2 = Some n"
    using k by (simp_all add: advance_column_def refilled_def)
  have v: "on_volume D V (Some n) ?s2 ?io1" using w(2) s2(5) k(11) by (simp add: on_volume_def)
  obtain w' where f: "flush_write_buf_fat D ?s2 ?io1 = Some (flushed (length (write_buf ?s2)) ?s2, ?io1\<lparr>world := w'\<rparr>)"
    "on_disk V w' = overwrite (unat (next_offset ?s2)) (write_buf ?s2) (on_disk V (world ?io1))"
    by (rule flush_fat_writes [OF v]) (use s2(2,3) off(2) w(3) l(3) kb room in \<open>auto simp: STREAM_READ_CHUNK_def\<close>)
  have "os_stream_close D ?s2 ?io1 = Some ((flushed 1 ?s2)\<lparr>closed := True\<rparr>, ?io1\<lparr>world := w'\<rparr>)"
    using s2(1,2) f(1) by (simp add: os_stream_close_def is_9p_write_kind_def is_9p_read_kind_def is_fat_write_kind_def Let_def)
  moreover have "on_disk V w' = overwrite ?m [char_byte c] (b # bs)" using f(2) s2(2,3) off(2) w(3) by simp
  ultimately show ?thesis using read pos put s2(4)
    by (intro exI [of _ ?s1] exI [of _ ?io1] exI [of _ ?s2] exI [of _ "(flushed 1 ?s2)\<lparr>closed := True\<rparr>"]
        exI [of _ "?io1\<lparr>world := w'\<rparr>"]) (simp add: flushed_def)
qed

theorem io_write_after_read_witness:
  "\<exists>s1 io1 s2 io2 s3 io3.
    os_stream_read_char (example_drivers 512) (os_stream_open_fat_file_io () some_stream) (example_io [97, 98, 99]) =
      Some (Some CHR ''a'', s1, io1) \<and> cc_file_position s1 = 1 \<and>
    os_stream_write_char (example_drivers 512) CHR ''X'' s1 io1 = Some (True, s2, io2) \<and>
    os_stream_close (example_drivers 512) s2 io2 = Some (s3, io3) \<and> \<not> failed s3 \<and> world io3 = [97, 98, 99, 88]"
proof -
  have a: "length [97 :: u8, 98, 99] \<le> 4096" "length (buf_data some_stream) = STREAM_READ_CHUNK"
    "min STREAM_READ_CHUNK (Suc (length [98 :: u8, 99])) < quota example_volume_file"
    "on_disk example_volume_file (world (example_io [97, 98, 99])) = [97, 98, 99]"
    by (simp_all add: some_stream_def STREAM_READ_CHUNK_def example_volume_file_def example_io_def)
  have "overwrite (min STREAM_READ_CHUNK (Suc (length [98 :: u8, 99]))) [char_byte CHR ''X''] [97, 98, 99] = [97, 98, 99, 88]"
    by (simp add: overwrite_def STREAM_READ_CHUNK_def char_byte_def)
  moreover have "byte_char 97 = CHR ''a''" using byte_char_inverse [of "CHR ''a''"] by (simp add: char_byte_def)
  moreover have "on_disk example_volume_file = (\<lambda>w. w)" by (simp add: example_volume_file_def)
  ultimately show ?thesis
    using io_write_after_read [OF example_volume [OF a(1)] a(2-4), of 512 "CHR ''X''"] by simp
qed

text \<open>What the text leaves on its last line: the column of every output stream.\<close>

definition column_after :: "string \<Rightarrow> u32 \<Rightarrow> u32" where
  "column_after str col = fold (\<lambda>ch col. if ch = CHR 0x0A then 0 else col + 1) str col"

text \<open>
  A string output stream keeps the characters that fit its buffer and drops the others, while
  every write reports success and the column goes on counting.
\<close>

theorem string_output_truncates:
  assumes buf: "length buf = cap"
  shows "\<exists>s. write_text D str (os_stream_open_string_output buf cap s0) io = Some (True, s, io) \<and>
    str_len s = min cap (length str) \<and> take (str_len s) (str_buf s) = map char_byte (take cap str) \<and>
    column s = column_after str 0"
proof -
  have "\<exists>s'. write_text D str s io = Some (True, s', io) \<and> str_len s' = min cap (str_len s + length str) \<and>
      take (str_len s') (str_buf s') = take cap (take (str_len s) (str_buf s) @ map char_byte str) \<and>
      column s' = column_after str (column s)"
    if "kind s = STREAM_STRING_OUTPUT" "\<not> closed s" "str_cap s = cap" "length (str_buf s) = cap" "str_len s \<le> cap"
    for s
    using that
  proof (induction str arbitrary: s)
    case (Cons ch str)
    let ?s = "if str_len s < cap then advance_column ch (s\<lparr>str_buf := (str_buf s)[str_len s := char_byte ch], str_len := str_len s + 1\<rparr>)
      else advance_column ch s"
    have w: "os_stream_write_char D ch s io = Some (True, ?s, io)"
      using Cons.prems by (simp add: os_stream_write_char_def is_9p_write_kind_def is_fat_write_kind_def)
    have f: "kind ?s = STREAM_STRING_OUTPUT" "\<not> closed ?s" "str_cap ?s = cap" "length (str_buf ?s) = cap" "str_len ?s \<le> cap"
      "column ?s = (if ch = CHR 0x0A then 0 else column s + 1)" "str_len ?s = min cap (Suc (str_len s))"
      using Cons.prems by (simp_all add: advance_column_def)
    have t: "take cap (take (str_len ?s) (str_buf ?s) @ bs) = take cap (take (str_len s) (str_buf s) @ char_byte ch # bs)" for bs
      using Cons.prems by (auto simp: advance_column_def take_Suc_conv_app_nth take_Cons')
    obtain s' where s': "write_text D str ?s io = Some (True, s', io)" "str_len s' = min cap (str_len ?s + length str)"
      "take (str_len s') (str_buf s') = take cap (take (str_len ?s) (str_buf ?s) @ map char_byte str)"
      "column s' = column_after str (column ?s)"
      using Cons.IH [OF f(1-5)] by blast
    have "write_text D (ch # str) s io = Some (True, s', io)" using w s'(1) by simp
    moreover have "str_len s' = min cap (str_len s + length (ch # str))" using s'(2) unfolding f(7) by simp
    moreover have "column s' = column_after (ch # str) (column s)" using s'(4) unfolding f(6) by (simp add: column_after_def)
    ultimately show ?case using s'(3) unfolding t by auto
  qed (simp add: column_after_def)
  from this [of "os_stream_open_string_output buf cap s0"] buf show ?thesis
    by (simp add: os_stream_open_string_output_def stream_init_common_def take_map)
qed

end
