(* ===== verification/Numbers.thy ===== *)
theory Numbers
  imports Values
begin
unbundle bit_operations_syntax

text \<open>
  The numeric primitives of \<^verbatim>\<open>src/c/runtime.c\<close>: fixnum and bignum arithmetic with its
  fast paths, comparison, and the integer functions (div, mod, gcd, lcm, isqrt). A heap
  integer is \<open>Bignum sign limbs\<close>; \<open>os_make_integer\<close> is the only producer and keeps every
  value below 2^59 an immediate.

  The arithmetic of the FPU (double and single words as bit patterns) is not part of the
  program: it is the record \<open>fpu\<close>, an argument of every definition that reaches it.
  The values are immutable, so garbage collection protection has no counterpart, with one
  exception: a reference that the code keeps unprotected across an allocation is marked
  \<open>Unprotected\<close>. The scratch arena of limbs is modelled by its fill level: every request is
  checked, and one that does not fit is the value \<open>Inl LimbArenaExhausted\<close>.
\<close>

subsection \<open>The floating-point unit\<close>

record fpu =
  f_zero :: u64
  f_one :: u64
  f_add :: "u64 \<Rightarrow> u64 \<Rightarrow> u64"
  f_sub :: "u64 \<Rightarrow> u64 \<Rightarrow> u64"
  f_mul :: "u64 \<Rightarrow> u64 \<Rightarrow> u64"
  f_div :: "u64 \<Rightarrow> u64 \<Rightarrow> u64"
  f_neg :: "u64 \<Rightarrow> u64"
  f_less :: "u64 \<Rightarrow> u64 \<Rightarrow> bool"
  f_eq :: "u64 \<Rightarrow> u64 \<Rightarrow> bool"
  f_of_uint :: "u64 \<Rightarrow> u64"
  f_of_single :: "u32 \<Rightarrow> u64"
  f_to_single :: "u64 \<Rightarrow> u32"
  f_less32 :: "u32 \<Rightarrow> u32 \<Rightarrow> bool"
  f_eq32 :: "u32 \<Rightarrow> u32 \<Rightarrow> bool"

subsection \<open>Integers as signed magnitudes\<close>

definition decompose :: "lval \<Rightarrow> bool \<times> u64 list" where
  "decompose v =
     (case v of
        Bignum sign limbs \<Rightarrow> (sign, limbs)
      | Imm w \<Rightarrow>
          (if w AND TAG_MASK = TAG_FIXNUM
           then let m = os_fixnum_magnitude w
                in (os_fixnum_is_negative w, mag_trim [m AND 0xFFFFFFFF, drop_bit 32 m])
           else (False, []))
      | _ \<Rightarrow> (False, []))"

definition os_make_integer :: "bool \<Rightarrow> u64 list \<Rightarrow> lval" where
  "os_make_integer sign0 limbs0 =
     (let limbs = mag_trim limbs0;
          sign = (if length limbs = 1 \<and> limbs ! 0 = 0 then False else sign0);
          magnitude = (if length limbs = 2 then nth_or 0 limbs 0 OR push_bit 32 (limbs ! 1)
                       else nth_or 0 limbs 0)
      in if length limbs \<le> 2 \<and> magnitude \<le> FIXNUM_MAGNITUDE_MASK
         then Imm (os_make_fixnum_signed sign magnitude)
         else Bignum sign limbs)"

definition bignum_equal :: "bool \<times> u64 list \<Rightarrow> bool \<times> u64 list \<Rightarrow> bool" where
  "bignum_equal a b \<longleftrightarrow>
     fst a = fst b \<and> length (snd a) = length (snd b) \<and>
     (\<forall>i<length (snd a). snd a ! i = snd b ! i)"

subsection \<open>The scratch arena of limbs\<close>

text \<open>
  The working buffers of the bignum operations come from one static array. A frame
  (\<open>LIMB_FRAME\<close>) gives back on exit what was taken since its entry, and a request beyond the
  capacity stops the machine. The state of the arena is the number of limbs in use; a
  primitive starts with none in use.
\<close>

definition LIMB_ARENA_LIMBS :: nat where "LIMB_ARENA_LIMBS = 32768"

definition limb_alloc :: "nat \<Rightarrow> nat \<Rightarrow> nat lres" where
  "limb_alloc used count =
     (if used + count > LIMB_ARENA_LIMBS then Inl LimbArenaExhausted else Inr (used + count))"

definition lbind :: "'a lres \<Rightarrow> ('a \<Rightarrow> 'b lres) \<Rightarrow> 'b lres" where
  "lbind r f = (case r of Inl e \<Rightarrow> Inl e | Inr x \<Rightarrow> f x)"

subsection \<open>Fixnum arithmetic in one word\<close>

definition fixnum_negate :: "u64 \<Rightarrow> u64" where
  "fixnum_negate val = os_make_fixnum_signed (\<not> os_fixnum_is_negative val) (os_fixnum_magnitude val)"

definition fixnum_add_signed_unchecked :: "u64 \<Rightarrow> u64 \<Rightarrow> u64 option" where
  "fixnum_add_signed_unchecked a b =
     (let mag_a = os_fixnum_magnitude a; mag_b = os_fixnum_magnitude b;
          neg_a = os_fixnum_is_negative a; neg_b = os_fixnum_is_negative b
      in if neg_a = neg_b
         then (let sum = mag_a + mag_b
               in if sum > FIXNUM_MAGNITUDE_MASK then None else Some (os_make_fixnum_signed neg_a sum))
         else if mag_a \<ge> mag_b then Some (os_make_fixnum_signed neg_a (mag_a - mag_b))
         else Some (os_make_fixnum_signed neg_b (mag_b - mag_a)))"

definition fixnum_multiply_signed_unchecked :: "u64 \<Rightarrow> u64 \<Rightarrow> u64 option" where
  "fixnum_multiply_signed_unchecked a b =
     (let prod = (ucast (os_fixnum_magnitude a) :: 128 word) * ucast (os_fixnum_magnitude b)
      in if prod > ucast FIXNUM_MAGNITUDE_MASK then None
         else Some (os_make_fixnum_signed (os_fixnum_is_negative a \<noteq> os_fixnum_is_negative b) (ucast prod)))"

definition fixnum_divide_signed_unchecked :: "u64 \<Rightarrow> u64 \<Rightarrow> u64 option" where
  "fixnum_divide_signed_unchecked a b =
     (let mag_b = os_fixnum_magnitude b
      in if mag_b = 0 then None
         else Some (os_make_fixnum_signed (os_fixnum_is_negative a \<noteq> os_fixnum_is_negative b)
                      (os_fixnum_magnitude a div mag_b)))"

definition fixnum_add_signed :: "lval \<Rightarrow> lval \<Rightarrow> u64 option" where
  "fixnum_add_signed a b =
     (case (a, b) of
        (Imm wa, Imm wb) \<Rightarrow>
          (if wa AND TAG_MASK \<noteq> TAG_FIXNUM \<or> wb AND TAG_MASK \<noteq> TAG_FIXNUM then None
           else fixnum_add_signed_unchecked wa wb)
      | _ \<Rightarrow> None)"

definition fixnum_multiply_signed :: "lval \<Rightarrow> lval \<Rightarrow> u64 option" where
  "fixnum_multiply_signed a b =
     (case (a, b) of
        (Imm wa, Imm wb) \<Rightarrow>
          (if wa AND TAG_MASK \<noteq> TAG_FIXNUM \<or> wb AND TAG_MASK \<noteq> TAG_FIXNUM then None
           else fixnum_multiply_signed_unchecked wa wb)
      | _ \<Rightarrow> None)"

definition fixnum_divide_signed :: "lval \<Rightarrow> lval \<Rightarrow> u64 option" where
  "fixnum_divide_signed a b =
     (case (a, b) of
        (Imm wa, Imm wb) \<Rightarrow>
          (if wa AND TAG_MASK \<noteq> TAG_FIXNUM \<or> wb AND TAG_MASK \<noteq> TAG_FIXNUM then None
           else fixnum_divide_signed_unchecked wa wb)
      | _ \<Rightarrow> None)"

definition num_both_nonneg_fixnum :: "u64 \<Rightarrow> u64 \<Rightarrow> bool" where
  "num_both_nonneg_fixnum a b \<longleftrightarrow> (a OR b) AND (TAG_MASK OR FIXNUM_SIGN_BIT) = 0"

definition fixnum_fast_add :: "u64 \<Rightarrow> u64 \<Rightarrow> u64 option" where
  "fixnum_fast_add a b = (let sum = a + b in if sum AND FIXNUM_SIGN_BIT \<noteq> 0 then None else Some sum)"

definition fixnum_fast_sub :: "u64 \<Rightarrow> u64 \<Rightarrow> u64 option" where
  "fixnum_fast_sub a b = (if a < b then None else Some (a - b))"

definition fixnum_fast_mul :: "u64 \<Rightarrow> u64 \<Rightarrow> u64 option" where
  "fixnum_fast_mul a b =
     (let a' = drop_bit FIXNUM_VALUE_SHIFT a; prod = a' * b
      in if 2 ^ 64 \<le> unat a' * unat b then None
         else if prod AND FIXNUM_SIGN_BIT \<noteq> 0 then None else Some prod)"

definition fixnum_fast_div :: "u64 \<Rightarrow> u64 \<Rightarrow> u64 option" where
  "fixnum_fast_div a b = (if b = 0 then None else Some (push_bit FIXNUM_VALUE_SHIFT (a div b)))"

definition fixnum_compare3 :: "u64 \<Rightarrow> u64 \<Rightarrow> int" where
  "fixnum_compare3 a b =
     (let neg_a = os_fixnum_is_negative a; neg_b = os_fixnum_is_negative b
      in if neg_a \<noteq> neg_b then (if neg_a then -1 else 1)
         else let mag_a = os_fixnum_magnitude a; mag_b = os_fixnum_magnitude b;
                  cmp = (if mag_a < mag_b then -1 else if mag_a > mag_b then 1 else 0)
              in if neg_a then - cmp else cmp)"

subsection \<open>Numeric types\<close>

definition float_kind_of :: "lval \<Rightarrow> nat" where
  "float_kind_of v =
     (case v of Imm w \<Rightarrow> if os_is_single_float w then 1 else 0 | DFloat _ \<Rightarrow> 2 | _ \<Rightarrow> 0)"

definition float_round_to_kind :: "fpu \<Rightarrow> nat \<Rightarrow> u64 \<Rightarrow> u64" where
  "float_round_to_kind fp kind value = (if kind = 1 then f_of_single fp (f_to_single fp value) else value)"

definition os_make_float_of_kind :: "fpu \<Rightarrow> nat \<Rightarrow> u64 \<Rightarrow> lval" where
  "os_make_float_of_kind fp kind value =
     (if kind = 1 then Imm (os_make_single_float (f_to_single fp value)) else DFloat value)"

definition is_float :: "lval \<Rightarrow> bool" where
  "is_float v \<longleftrightarrow> float_kind_of v \<noteq> 0"

definition is_number_val :: "lval \<Rightarrow> bool" where
  "is_number_val v \<longleftrightarrow> is_fixnum v \<or> is_float v \<or> is_bignum v"

definition os_float_value :: "fpu \<Rightarrow> lval \<Rightarrow> u64" where
  "os_float_value fp v =
     (case v of Imm w \<Rightarrow> f_of_single fp (os_single_float_value w) | DFloat d \<Rightarrow> d | _ \<Rightarrow> 0)"

definition bignum_to_double :: "fpu \<Rightarrow> bool \<Rightarrow> u64 list \<Rightarrow> u64" where
  "bignum_to_double fp sign limbs =
     (let result = foldr (\<lambda>limb acc. f_add fp (f_mul fp acc (f_of_uint fp 4294967296)) (f_of_uint fp limb))
                     limbs (f_zero fp)
      in if sign then f_neg fp result else result)"

definition to_double :: "fpu \<Rightarrow> lval \<Rightarrow> u64" where
  "to_double fp v =
     (if is_float v then os_float_value fp v
      else case v of
        Bignum sign limbs \<Rightarrow> bignum_to_double fp sign limbs
      | Imm w \<Rightarrow>
          (let mag = f_of_uint fp (os_fixnum_magnitude w)
           in if os_fixnum_is_negative w then f_neg fp mag else mag)
      | _ \<Rightarrow> f_zero fp)"

fun first_non_number :: "lval list \<Rightarrow> lval option" where
  "first_non_number [] = None"
| "first_non_number (v # args) = (if \<not> is_number_val v then Some v else first_non_number args)"

fun args_float_kind :: "nat \<Rightarrow> lval list \<Rightarrow> nat" where
  "args_float_kind kind [] = kind"
| "args_float_kind kind (v # args) = args_float_kind (max kind (float_kind_of v)) args"

subsection \<open>Comparison\<close>

datatype num_cmp = NUM_CMP_LESS | NUM_CMP_EQUAL | NUM_CMP_GREATER | NUM_CMP_UNORDERED | NUM_CMP_NOT_NUMBER

definition cmp_of_int :: "int \<Rightarrow> num_cmp" where
  "cmp_of_int c = (if c < 0 then NUM_CMP_LESS else if c = 0 then NUM_CMP_EQUAL else NUM_CMP_GREATER)"

definition number_compare4 :: "fpu \<Rightarrow> lval \<Rightarrow> lval \<Rightarrow> num_cmp" where
  "number_compare4 fp a b =
     (if is_float a \<or> is_float b then
        (if \<not> is_number_val a \<or> \<not> is_number_val b then NUM_CMP_NOT_NUMBER
         else let da = to_double fp a; db = to_double fp b
              in if f_less fp da db then NUM_CMP_LESS
                 else if f_less fp db da then NUM_CMP_GREATER
                 else if f_eq fp da db then NUM_CMP_EQUAL else NUM_CMP_UNORDERED)
      else case (a, b) of
        (Imm wa, Imm wb) \<Rightarrow>
          (if wa AND TAG_MASK = TAG_FIXNUM \<and> wb AND TAG_MASK = TAG_FIXNUM
           then cmp_of_int (fixnum_compare3 wa wb) else NUM_CMP_NOT_NUMBER)
      | _ \<Rightarrow>
          (if \<not> is_number_val a \<or> \<not> is_number_val b then NUM_CMP_NOT_NUMBER
           else case (decompose a, decompose b) of
             ((sa, la), (sb, lb)) \<Rightarrow>
               (if sa \<noteq> sb then (if sa then NUM_CMP_LESS else NUM_CMP_GREATER)
                else let cmp = mag_compare la lb in cmp_of_int (if sa then - cmp else cmp))))"

definition num_lt :: "fpu \<Rightarrow> lval \<Rightarrow> lval \<Rightarrow> bool" where
  "num_lt fp a b \<longleftrightarrow> number_compare4 fp a b = NUM_CMP_LESS"

definition num_gt :: "fpu \<Rightarrow> lval \<Rightarrow> lval \<Rightarrow> bool" where
  "num_gt fp a b \<longleftrightarrow> number_compare4 fp a b = NUM_CMP_GREATER"

definition num_eq :: "fpu \<Rightarrow> lval \<Rightarrow> lval \<Rightarrow> bool" where
  "num_eq fp a b \<longleftrightarrow> number_compare4 fp a b = NUM_CMP_EQUAL"

definition num_le :: "fpu \<Rightarrow> lval \<Rightarrow> lval \<Rightarrow> bool" where
  "num_le fp a b \<longleftrightarrow>
     (let c = number_compare4 fp a b in c = NUM_CMP_LESS \<or> c = NUM_CMP_EQUAL)"

definition num_ge :: "fpu \<Rightarrow> lval \<Rightarrow> lval \<Rightarrow> bool" where
  "num_ge fp a b \<longleftrightarrow>
     (let c = number_compare4 fp a b in c = NUM_CMP_GREATER \<or> c = NUM_CMP_EQUAL)"

definition compare_pair_domain_error :: "lval \<Rightarrow> lval \<Rightarrow> 'a lres" where
  "compare_pair_domain_error a b =
     (let bad = (if is_number_val a then b else a) in Inl (DomainError bad ''<NUMBER>''))"

definition lisp_bool :: "bool \<Rightarrow> lval" where
  "lisp_bool b = (if b then Sym ''T'' else Nil)"

fun compare_chain :: "fpu \<Rightarrow> (lval \<Rightarrow> lval \<Rightarrow> bool) \<Rightarrow> lval list \<Rightarrow> lval lres" where
  "compare_chain fp holds (a # b # rest) =
     (if \<not> holds a b
      then (if number_compare4 fp a b = NUM_CMP_NOT_NUMBER then compare_pair_domain_error a b
            else Inr Nil)
      else compare_chain fp holds (b # rest))"
| "compare_chain fp holds _ = Inr (Sym ''T'')"

definition primitive_less_than :: "fpu \<Rightarrow> lval list \<Rightarrow> lval lres" where
  "primitive_less_than fp args = compare_chain fp (num_lt fp) args"

definition primitive_greater_than :: "fpu \<Rightarrow> lval list \<Rightarrow> lval lres" where
  "primitive_greater_than fp args = compare_chain fp (num_gt fp) args"

definition primitive_num_equal :: "fpu \<Rightarrow> lval list \<Rightarrow> lval lres" where
  "primitive_num_equal fp args = compare_chain fp (num_eq fp) args"

definition primitive_greater_equal :: "fpu \<Rightarrow> lval list \<Rightarrow> lval lres" where
  "primitive_greater_equal fp args = compare_chain fp (num_ge fp) args"

definition primitive_less_equal :: "fpu \<Rightarrow> lval list \<Rightarrow> lval lres" where
  "primitive_less_equal fp args = compare_chain fp (num_le fp) args"

fun primitive_num_not_equal :: "fpu \<Rightarrow> lval list \<Rightarrow> lval lres" where
  "primitive_num_not_equal fp (a # b # rest) =
     (let c = number_compare4 fp a b
      in if c = NUM_CMP_NOT_NUMBER then compare_pair_domain_error a b
         else if c = NUM_CMP_EQUAL then Inr Nil
         else primitive_num_not_equal fp (b # rest))"
| "primitive_num_not_equal fp _ = Inr (Sym ''T'')"

text \<open>
  The guard of every two-argument entry: the words of two non-negative fixnums. A heap
  reference has tag bit 0 set, so only immediates pass it.
\<close>

definition nonneg_fixnums :: "lval \<Rightarrow> lval \<Rightarrow> (u64 \<times> u64) option" where
  "nonneg_fixnums a b =
     (case (a, b) of
        (Imm wa, Imm wb) \<Rightarrow> if num_both_nonneg_fixnum wa wb then Some (wa, wb) else None
      | _ \<Rightarrow> None)"

definition compare2_slow :: "fpu \<Rightarrow> (lval \<Rightarrow> lval \<Rightarrow> bool) \<Rightarrow> lval \<Rightarrow> lval \<Rightarrow> lval lres" where
  "compare2_slow fp holds a b =
     (if holds a b then Inr (Sym ''T'')
      else if number_compare4 fp a b = NUM_CMP_NOT_NUMBER then compare_pair_domain_error a b
      else Inr Nil)"

definition primitive_less_than2 :: "fpu \<Rightarrow> lval \<Rightarrow> lval \<Rightarrow> lval lres" where
  "primitive_less_than2 fp a b =
     (case nonneg_fixnums a b of
        Some (wa, wb) \<Rightarrow> Inr (lisp_bool (wa < wb))
      | None \<Rightarrow> compare2_slow fp (num_lt fp) a b)"

definition primitive_greater_than2 :: "fpu \<Rightarrow> lval \<Rightarrow> lval \<Rightarrow> lval lres" where
  "primitive_greater_than2 fp a b =
     (case nonneg_fixnums a b of
        Some (wa, wb) \<Rightarrow> Inr (lisp_bool (wa > wb))
      | None \<Rightarrow> compare2_slow fp (num_gt fp) a b)"

definition primitive_num_equal2 :: "fpu \<Rightarrow> lval \<Rightarrow> lval \<Rightarrow> lval lres" where
  "primitive_num_equal2 fp a b =
     (case nonneg_fixnums a b of
        Some (wa, wb) \<Rightarrow> Inr (lisp_bool (wa = wb))
      | None \<Rightarrow> compare2_slow fp (num_eq fp) a b)"

definition primitive_greater_equal2 :: "fpu \<Rightarrow> lval \<Rightarrow> lval \<Rightarrow> lval lres" where
  "primitive_greater_equal2 fp a b =
     (case nonneg_fixnums a b of
        Some (wa, wb) \<Rightarrow> Inr (lisp_bool (wa \<ge> wb))
      | None \<Rightarrow> compare2_slow fp (num_ge fp) a b)"

definition primitive_less_equal2 :: "fpu \<Rightarrow> lval \<Rightarrow> lval \<Rightarrow> lval lres" where
  "primitive_less_equal2 fp a b =
     (case nonneg_fixnums a b of
        Some (wa, wb) \<Rightarrow> Inr (lisp_bool (wa \<le> wb))
      | None \<Rightarrow> compare2_slow fp (num_le fp) a b)"

definition primitive_num_not_equal2_slow :: "fpu \<Rightarrow> lval \<Rightarrow> lval \<Rightarrow> lval lres" where
  "primitive_num_not_equal2_slow fp a b =
     (let c = number_compare4 fp a b
      in if c = NUM_CMP_NOT_NUMBER then compare_pair_domain_error a b
         else Inr (lisp_bool (c \<noteq> NUM_CMP_EQUAL)))"

definition primitive_num_not_equal2 :: "fpu \<Rightarrow> lval \<Rightarrow> lval \<Rightarrow> lval lres" where
  "primitive_num_not_equal2 fp a b =
     (case nonneg_fixnums a b of
        Some (wa, wb) \<Rightarrow> Inr (lisp_bool (wa \<noteq> wb))
      | None \<Rightarrow> primitive_num_not_equal2_slow fp a b)"

text \<open>The entries for declared fixnums read no tag; those for single-floats compare the unwrapped values.\<close>

definition compare2_fixnum :: "(u64 \<Rightarrow> u64 \<Rightarrow> bool) \<Rightarrow> (int \<Rightarrow> bool) \<Rightarrow> u64 \<Rightarrow> u64 \<Rightarrow> lval" where
  "compare2_fixnum raw_op cmp_op a b =
     (if (a OR b) AND FIXNUM_SIGN_BIT = 0 then lisp_bool (raw_op a b)
      else lisp_bool (cmp_op (fixnum_compare3 a b)))"

definition primitive_less_than2_fixnum :: "u64 \<Rightarrow> u64 \<Rightarrow> lval" where
  "primitive_less_than2_fixnum = compare2_fixnum (<) (\<lambda>c. c < 0)"

definition primitive_greater_than2_fixnum :: "u64 \<Rightarrow> u64 \<Rightarrow> lval" where
  "primitive_greater_than2_fixnum = compare2_fixnum (>) (\<lambda>c. c > 0)"

definition primitive_less_equal2_fixnum :: "u64 \<Rightarrow> u64 \<Rightarrow> lval" where
  "primitive_less_equal2_fixnum = compare2_fixnum (\<le>) (\<lambda>c. c \<le> 0)"

definition primitive_greater_equal2_fixnum :: "u64 \<Rightarrow> u64 \<Rightarrow> lval" where
  "primitive_greater_equal2_fixnum = compare2_fixnum (\<ge>) (\<lambda>c. c \<ge> 0)"

definition primitive_num_equal2_fixnum :: "u64 \<Rightarrow> u64 \<Rightarrow> lval" where
  "primitive_num_equal2_fixnum = compare2_fixnum (=) (\<lambda>c. c = 0)"

definition primitive_num_not_equal2_fixnum :: "u64 \<Rightarrow> u64 \<Rightarrow> lval" where
  "primitive_num_not_equal2_fixnum = compare2_fixnum (\<noteq>) (\<lambda>c. c \<noteq> 0)"

definition primitive_less_than2_single :: "fpu \<Rightarrow> u64 \<Rightarrow> u64 \<Rightarrow> lval" where
  "primitive_less_than2_single fp a b =
     lisp_bool (f_less32 fp (os_single_float_value a) (os_single_float_value b))"

definition primitive_greater_than2_single :: "fpu \<Rightarrow> u64 \<Rightarrow> u64 \<Rightarrow> lval" where
  "primitive_greater_than2_single fp a b =
     lisp_bool (f_less32 fp (os_single_float_value b) (os_single_float_value a))"

definition primitive_less_equal2_single :: "fpu \<Rightarrow> u64 \<Rightarrow> u64 \<Rightarrow> lval" where
  "primitive_less_equal2_single fp a b =
     (let x = os_single_float_value a; y = os_single_float_value b
      in lisp_bool (f_less32 fp x y \<or> f_eq32 fp x y))"

definition primitive_greater_equal2_single :: "fpu \<Rightarrow> u64 \<Rightarrow> u64 \<Rightarrow> lval" where
  "primitive_greater_equal2_single fp a b =
     (let x = os_single_float_value a; y = os_single_float_value b
      in lisp_bool (f_less32 fp y x \<or> f_eq32 fp x y))"

definition primitive_num_equal2_single :: "fpu \<Rightarrow> u64 \<Rightarrow> u64 \<Rightarrow> lval" where
  "primitive_num_equal2_single fp a b =
     lisp_bool (f_eq32 fp (os_single_float_value a) (os_single_float_value b))"

definition primitive_num_not_equal2_single :: "fpu \<Rightarrow> u64 \<Rightarrow> u64 \<Rightarrow> lval" where
  "primitive_num_not_equal2_single fp a b =
     lisp_bool (\<not> f_eq32 fp (os_single_float_value a) (os_single_float_value b))"

subsection \<open>Addition and subtraction\<close>

definition lcar :: "lval list \<Rightarrow> lval" where
  "lcar args = (case args of [] \<Rightarrow> Nil | v # _ \<Rightarrow> v)"

fun float_fold :: "fpu \<Rightarrow> (u64 \<Rightarrow> u64 \<Rightarrow> u64) \<Rightarrow> nat \<Rightarrow> u64 \<Rightarrow> lval list \<Rightarrow> lval lres" where
  "float_fold fp op kind acc [] = Inr (os_make_float_of_kind fp kind acc)"
| "float_fold fp op kind acc (v # args) =
     (if \<not> is_number_val v then Inl (DomainError v ''<NUMBER>'')
      else let kind' = max kind (float_kind_of v)
           in float_fold fp op kind' (float_round_to_kind fp kind' (op acc (to_double fp v))) args)"

fun fixnum_fold :: "(lval \<Rightarrow> lval \<Rightarrow> u64 option) \<Rightarrow> u64 \<Rightarrow> lval list \<Rightarrow> u64 option" where
  "fixnum_fold step acc [] = Some acc"
| "fixnum_fold step acc (v # args) =
     (case step (Imm acc) v of None \<Rightarrow> None | Some acc' \<Rightarrow> fixnum_fold step acc' args)"

definition add_step :: "lval \<Rightarrow> lval \<Rightarrow> lval lres" where
  "add_step acc_val v =
     (case (decompose acc_val, decompose v) of
        ((sa, la), (so, lo)) \<Rightarrow>
          lbind (limb_alloc 0 (max (length la) (length lo) + 1)) (\<lambda>_. Inr
            (if sa = so then os_make_integer sa (mag_add la lo)
             else if mag_compare la lo \<ge> 0 then os_make_integer sa (mag_sub la lo)
             else os_make_integer so (mag_sub lo la))))"

text \<open>The general loops of \<open>+\<close>, \<open>-\<close> and \<open>*\<close>: each round is a frame of its own.\<close>

fun general_fold :: "(lval \<Rightarrow> lval \<Rightarrow> lval lres) \<Rightarrow> lval \<Rightarrow> lval list \<Rightarrow> lval lres" where
  "general_fold step acc_val [] = Inr acc_val"
| "general_fold step acc_val (v # args) =
     lbind (step acc_val v) (\<lambda>acc_val. general_fold step acc_val args)"

definition primitive_add :: "fpu \<Rightarrow> lval list \<Rightarrow> lval lres" where
  "primitive_add fp args =
     (if args_float_kind 0 args \<noteq> 0 then float_fold fp (f_add fp) 0 (f_zero fp) args
      else case fixnum_fold fixnum_add_signed (os_make_fixnum 0) args of
        Some sum_val \<Rightarrow> Inr (Imm sum_val)
      | None \<Rightarrow>
          (case first_non_number args of
             Some bad \<Rightarrow> Inl (DomainError bad ''<NUMBER>'')
           | None \<Rightarrow> general_fold add_step (Imm (os_make_fixnum 0)) args))"

definition float_op2 :: "fpu \<Rightarrow> (u64 \<Rightarrow> u64 \<Rightarrow> u64) \<Rightarrow> nat \<Rightarrow> lval \<Rightarrow> lval \<Rightarrow> lval lres" where
  "float_op2 fp op kind a b =
     (if \<not> is_number_val a then Inl (DomainError a ''<NUMBER>'')
      else if \<not> is_number_val b then Inl (DomainError b ''<NUMBER>'')
      else Inr (os_make_float_of_kind fp kind (op (to_double fp a) (to_double fp b))))"

definition primitive_add2_slow :: "fpu \<Rightarrow> lval \<Rightarrow> lval \<Rightarrow> lval lres" where
  "primitive_add2_slow fp a b =
     (case fixnum_add_signed a b of
        Some r \<Rightarrow> Inr (Imm r)
      | None \<Rightarrow>
          (let kind = max (float_kind_of a) (float_kind_of b)
           in if kind \<noteq> 0 then float_op2 fp (f_add fp) kind a b
              else primitive_add fp [a, b]))"

definition primitive_add2 :: "fpu \<Rightarrow> lval \<Rightarrow> lval \<Rightarrow> lval lres" where
  "primitive_add2 fp a b =
     (case nonneg_fixnums a b of
        Some (wa, wb) \<Rightarrow>
          (let sum = wa + wb
           in if sum AND FIXNUM_SIGN_BIT = 0 then Inr (Imm sum) else primitive_add2_slow fp a b)
      | None \<Rightarrow> primitive_add2_slow fp a b)"

definition primitive_add2_fixnum_slow :: "fpu \<Rightarrow> u64 \<Rightarrow> u64 \<Rightarrow> lval lres" where
  "primitive_add2_fixnum_slow fp a b =
     (case fixnum_add_signed_unchecked a b of
        Some r \<Rightarrow> Inr (Imm r)
      | None \<Rightarrow> primitive_add fp [Imm a, Imm b])"

definition primitive_add2_fixnum :: "fpu \<Rightarrow> u64 \<Rightarrow> u64 \<Rightarrow> lval lres" where
  "primitive_add2_fixnum fp a b =
     (if num_both_nonneg_fixnum a b
      then (case fixnum_fast_add a b of Some r \<Rightarrow> Inr (Imm r) | None \<Rightarrow> primitive_add2_fixnum_slow fp a b)
      else primitive_add2_fixnum_slow fp a b)"

definition single_op2 :: "fpu \<Rightarrow> (u64 \<Rightarrow> u64 \<Rightarrow> u64) \<Rightarrow> u64 \<Rightarrow> u64 \<Rightarrow> u64" where
  "single_op2 fp op a b =
     os_make_single_float (f_to_single fp
       (op (f_of_single fp (os_single_float_value a)) (f_of_single fp (os_single_float_value b))))"

definition primitive_add2_single :: "fpu \<Rightarrow> u64 \<Rightarrow> u64 \<Rightarrow> u64" where
  "primitive_add2_single fp = single_op2 fp (f_add fp)"

definition sub_fixnum_step :: "lval \<Rightarrow> lval \<Rightarrow> u64 option" where
  "sub_fixnum_step acc v =
     (case v of
        Imm w \<Rightarrow> if w AND TAG_MASK \<noteq> TAG_FIXNUM then None
                 else fixnum_add_signed acc (Imm (fixnum_negate w))
      | _ \<Rightarrow> None)"

definition sub_step :: "lval \<Rightarrow> lval \<Rightarrow> lval lres" where
  "sub_step acc_val v =
     (case (decompose acc_val, decompose v) of
        ((sa, la), (so, lo)) \<Rightarrow>
          lbind (limb_alloc 0 (max (length la) (length lo) + 1)) (\<lambda>_. Inr
            (if sa \<noteq> so then os_make_integer sa (mag_add la lo)
             else if mag_compare la lo \<ge> 0 then os_make_integer sa (mag_sub la lo)
             else os_make_integer (\<not> sa) (mag_sub lo la))))"

definition primitive_subtract :: "fpu \<Rightarrow> lval list \<Rightarrow> lval lres" where
  "primitive_subtract fp args =
     (let first = lcar args; rest = tl args
      in if args_float_kind 0 args \<noteq> 0
         then (if \<not> is_number_val first then Inl (DomainError first ''<NUMBER>'')
               else if rest = []
               then Inr (os_make_float_of_kind fp (float_kind_of first) (f_neg fp (to_double fp first)))
               else float_fold fp (f_sub fp) (float_kind_of first) (to_double fp first) rest)
         else if rest = []
         then (case first of
                 Imm w \<Rightarrow> if w AND TAG_MASK = TAG_FIXNUM then Inr (Imm (fixnum_negate w))
                          else Inl (DomainError first ''<NUMBER>'')
               | _ \<Rightarrow> if \<not> is_number_val first then Inl (DomainError first ''<NUMBER>'')
                      else case decompose first of (s, ls) \<Rightarrow> Inr (os_make_integer (\<not> s) ls))
         else case (case first of
                      Imm w \<Rightarrow> if w AND TAG_MASK = TAG_FIXNUM then fixnum_fold sub_fixnum_step w rest
                               else None
                    | _ \<Rightarrow> None) of
           Some result_val \<Rightarrow> Inr (Imm result_val)
         | None \<Rightarrow>
             (case first_non_number args of
                Some bad \<Rightarrow> Inl (DomainError bad ''<NUMBER>'')
              | None \<Rightarrow> general_fold sub_step first rest))"

definition primitive_subtract2_slow :: "fpu \<Rightarrow> lval \<Rightarrow> lval \<Rightarrow> lval lres" where
  "primitive_subtract2_slow fp a b =
     (case sub_fixnum_step a b of
        Some diff \<Rightarrow> Inr (Imm diff)
      | None \<Rightarrow>
          (let kind = max (float_kind_of a) (float_kind_of b)
           in if kind \<noteq> 0 then float_op2 fp (f_sub fp) kind a b
              else primitive_subtract fp [a, b]))"

definition primitive_subtract2 :: "fpu \<Rightarrow> lval \<Rightarrow> lval \<Rightarrow> lval lres" where
  "primitive_subtract2 fp a b =
     (case nonneg_fixnums a b of
        Some (wa, wb) \<Rightarrow> if wa \<ge> wb then Inr (Imm (wa - wb)) else primitive_subtract2_slow fp a b
      | None \<Rightarrow> primitive_subtract2_slow fp a b)"

definition primitive_subtract2_fixnum_slow :: "fpu \<Rightarrow> u64 \<Rightarrow> u64 \<Rightarrow> lval lres" where
  "primitive_subtract2_fixnum_slow fp a b =
     (case fixnum_add_signed_unchecked a (fixnum_negate b) of
        Some diff \<Rightarrow> Inr (Imm diff)
      | None \<Rightarrow> primitive_subtract fp [Imm a, Imm b])"

definition primitive_subtract2_fixnum :: "fpu \<Rightarrow> u64 \<Rightarrow> u64 \<Rightarrow> lval lres" where
  "primitive_subtract2_fixnum fp a b =
     (if num_both_nonneg_fixnum a b
      then (case fixnum_fast_sub a b of Some r \<Rightarrow> Inr (Imm r) | None \<Rightarrow> primitive_subtract2_fixnum_slow fp a b)
      else primitive_subtract2_fixnum_slow fp a b)"

definition primitive_subtract2_single :: "fpu \<Rightarrow> u64 \<Rightarrow> u64 \<Rightarrow> u64" where
  "primitive_subtract2_single fp = single_op2 fp (f_sub fp)"

subsection \<open>Multiplication and division\<close>

definition mul_step :: "lval \<Rightarrow> lval \<Rightarrow> lval lres" where
  "mul_step acc_val v =
     (case (decompose acc_val, decompose v) of
        ((sa, la), (so, lo)) \<Rightarrow>
          lbind (limb_alloc 0 (length la + length lo))
            (\<lambda>_. Inr (os_make_integer (sa \<noteq> so) (mag_mul la lo))))"

definition primitive_multiply :: "fpu \<Rightarrow> lval list \<Rightarrow> lval lres" where
  "primitive_multiply fp args =
     (if args_float_kind 0 args \<noteq> 0 then float_fold fp (f_mul fp) 0 (f_one fp) args
      else case fixnum_fold fixnum_multiply_signed (os_make_fixnum 1) args of
        Some prod_val \<Rightarrow> Inr (Imm prod_val)
      | None \<Rightarrow>
          (case first_non_number args of
             Some bad \<Rightarrow> Inl (DomainError bad ''<NUMBER>'')
           | None \<Rightarrow> general_fold mul_step (Imm (os_make_fixnum 1)) args))"

definition primitive_multiply2_slow :: "fpu \<Rightarrow> lval \<Rightarrow> lval \<Rightarrow> lval lres" where
  "primitive_multiply2_slow fp a b =
     (case fixnum_multiply_signed a b of
        Some r \<Rightarrow> Inr (Imm r)
      | None \<Rightarrow>
          (let kind = max (float_kind_of a) (float_kind_of b)
           in if kind \<noteq> 0 then float_op2 fp (f_mul fp) kind a b
              else primitive_multiply fp [a, b]))"

definition primitive_multiply2 :: "fpu \<Rightarrow> lval \<Rightarrow> lval \<Rightarrow> lval lres" where
  "primitive_multiply2 fp a b =
     (case nonneg_fixnums a b of
        Some (wa, wb) \<Rightarrow>
          (case fixnum_fast_mul wa wb of
             Some r \<Rightarrow> Inr (Imm r) | None \<Rightarrow> primitive_multiply2_slow fp a b)
      | None \<Rightarrow> primitive_multiply2_slow fp a b)"

definition primitive_multiply2_fixnum_slow :: "fpu \<Rightarrow> u64 \<Rightarrow> u64 \<Rightarrow> lval lres" where
  "primitive_multiply2_fixnum_slow fp a b =
     (case fixnum_multiply_signed_unchecked a b of
        Some r \<Rightarrow> Inr (Imm r)
      | None \<Rightarrow> primitive_multiply fp [Imm a, Imm b])"

definition primitive_multiply2_fixnum :: "fpu \<Rightarrow> u64 \<Rightarrow> u64 \<Rightarrow> lval lres" where
  "primitive_multiply2_fixnum fp a b =
     (if num_both_nonneg_fixnum a b
      then (case fixnum_fast_mul a b of Some r \<Rightarrow> Inr (Imm r) | None \<Rightarrow> primitive_multiply2_fixnum_slow fp a b)
      else primitive_multiply2_fixnum_slow fp a b)"

definition primitive_multiply2_single :: "fpu \<Rightarrow> u64 \<Rightarrow> u64 \<Rightarrow> u64" where
  "primitive_multiply2_single fp = single_op2 fp (f_mul fp)"

text \<open>
  The all-fixnum loop of \<open>primitive_divide\<close>: \<open>None\<close> leaves it for the general loop,
  \<open>Some (Inl ())\<close> met a divisor of zero.
\<close>

fun divide_fixnum_loop :: "u64 \<Rightarrow> lval list \<Rightarrow> (unit + u64) option" where
  "divide_fixnum_loop quot_val [] = Some (Inr quot_val)"
| "divide_fixnum_loop quot_val (v # rest) =
     (case v of
        Imm w \<Rightarrow>
          if w AND TAG_MASK \<noteq> TAG_FIXNUM then None
          else (case fixnum_divide_signed_unchecked quot_val w of
                  None \<Rightarrow> Some (Inl ())
                | Some q \<Rightarrow> divide_fixnum_loop q rest)
      | _ \<Rightarrow> None)"

fun divide_general :: "lval list \<Rightarrow> lval \<Rightarrow> lval list \<Rightarrow> lval lres" where
  "divide_general args acc_val [] = Inr acc_val"
| "divide_general args acc_val (v # rest) =
     (case (decompose acc_val, decompose v) of
        ((sa, la), (so, lo)) \<Rightarrow>
          if length lo = 1 \<and> lo ! 0 = 0 then Inl (DivisionByZero ''/'' args)
          else lbind (limb_alloc 0 (length la)) (\<lambda>used.
               lbind (limb_alloc used (length la)) (\<lambda>_.
                 divide_general args (os_make_integer (sa \<noteq> so) (fst (mag_divmod la lo))) rest)))"

definition primitive_divide :: "fpu \<Rightarrow> lval list \<Rightarrow> lval lres" where
  "primitive_divide fp args =
     (let first = lcar args; rest = tl args
      in if args_float_kind 0 args \<noteq> 0
         then (if \<not> is_number_val first then Inl (DomainError first ''<NUMBER>'')
               else float_fold fp (f_div fp) (float_kind_of first) (to_double fp first) rest)
         else case (case first of
                      Imm w \<Rightarrow> if w AND TAG_MASK = TAG_FIXNUM then divide_fixnum_loop w rest else None
                    | _ \<Rightarrow> None) of
           Some (Inr quot_val) \<Rightarrow> Inr (Imm quot_val)
         | Some (Inl _) \<Rightarrow> Inl (DivisionByZero ''/'' args)
         | None \<Rightarrow>
             (case first_non_number args of
                Some bad \<Rightarrow> Inl (DomainError bad ''<NUMBER>'')
              | None \<Rightarrow> divide_general args first rest))"

definition primitive_divide2_slow :: "fpu \<Rightarrow> lval \<Rightarrow> lval \<Rightarrow> lval lres" where
  "primitive_divide2_slow fp a b =
     (case fixnum_divide_signed a b of
        Some quot \<Rightarrow> Inr (Imm quot)
      | None \<Rightarrow>
          (let kind = max (float_kind_of a) (float_kind_of b)
           in if kind \<noteq> 0 then float_op2 fp (f_div fp) kind a b
              else primitive_divide fp [a, b]))"

definition primitive_divide2 :: "fpu \<Rightarrow> lval \<Rightarrow> lval \<Rightarrow> lval lres" where
  "primitive_divide2 fp a b =
     (case nonneg_fixnums a b of
        Some (wa, wb) \<Rightarrow>
          (case fixnum_fast_div wa wb of
             Some r \<Rightarrow> Inr (Imm r) | None \<Rightarrow> primitive_divide2_slow fp a b)
      | None \<Rightarrow> primitive_divide2_slow fp a b)"

definition primitive_divide2_fixnum_slow :: "fpu \<Rightarrow> u64 \<Rightarrow> u64 \<Rightarrow> lval lres" where
  "primitive_divide2_fixnum_slow fp a b =
     (case fixnum_divide_signed_unchecked a b of
        Some quot \<Rightarrow> Inr (Imm quot)
      | None \<Rightarrow> primitive_divide fp [Imm a, Imm b])"

definition primitive_divide2_fixnum :: "fpu \<Rightarrow> u64 \<Rightarrow> u64 \<Rightarrow> lval lres" where
  "primitive_divide2_fixnum fp a b =
     (if num_both_nonneg_fixnum a b
      then (case fixnum_fast_div a b of Some r \<Rightarrow> Inr (Imm r) | None \<Rightarrow> primitive_divide2_fixnum_slow fp a b)
      else primitive_divide2_fixnum_slow fp a b)"

definition primitive_divide2_single :: "fpu \<Rightarrow> u64 \<Rightarrow> u64 \<Rightarrow> u64" where
  "primitive_divide2_single fp = single_op2 fp (f_div fp)"

subsection \<open>Maximum, minimum, absolute value\<close>

fun max_loop :: "fpu \<Rightarrow> lval \<Rightarrow> lval list \<Rightarrow> lval lres" where
  "max_loop fp best [] =
     (if \<not> is_number_val best then Inl (DomainError best ''<NUMBER>'') else Inr best)"
| "max_loop fp best (v # rest) =
     (if num_gt fp v best then max_loop fp v rest
      else if number_compare4 fp v best = NUM_CMP_NOT_NUMBER then compare_pair_domain_error v best
      else max_loop fp best rest)"

definition primitive_max :: "fpu \<Rightarrow> lval list \<Rightarrow> lval lres" where
  "primitive_max fp args = max_loop fp (lcar args) (tl args)"

fun min_loop :: "fpu \<Rightarrow> lval \<Rightarrow> lval list \<Rightarrow> lval lres" where
  "min_loop fp best [] =
     (if \<not> is_number_val best then Inl (DomainError best ''<NUMBER>'') else Inr best)"
| "min_loop fp best (v # rest) =
     (if num_lt fp v best then min_loop fp v rest
      else if number_compare4 fp v best = NUM_CMP_NOT_NUMBER then compare_pair_domain_error v best
      else min_loop fp best rest)"

definition primitive_min :: "fpu \<Rightarrow> lval list \<Rightarrow> lval lres" where
  "primitive_min fp args = min_loop fp (lcar args) (tl args)"

definition primitive_abs :: "fpu \<Rightarrow> lval list \<Rightarrow> lval lres" where
  "primitive_abs fp args =
     (let val = lcar args
      in if is_fixnum val
         then (case val of
                 Imm w \<Rightarrow> if \<not> os_fixnum_is_negative w then Inr val
                          else Inr (Imm (os_make_fixnum (os_fixnum_magnitude w)))
               | _ \<Rightarrow> Inr val)
         else if is_float val
         then (let d = os_float_value fp val
               in if f_less fp d (f_zero fp)
                  then Inr (os_make_float_of_kind fp (float_kind_of val) (f_neg fp d))
                  else Inr val)
         else if \<not> is_number_val val then Inl (DomainError val ''<NUMBER>'')
         else case decompose val of
           (s, ls) \<Rightarrow> if \<not> s then Inr val else Inr (os_make_integer False ls))"

subsection \<open>Floor division, greatest common divisor, integer square root\<close>

definition is_zero_mag :: "u64 list \<Rightarrow> bool" where
  "is_zero_mag ls \<longleftrightarrow> length ls = 1 \<and> ls ! 0 = 0"

text \<open>
  What \<open>floor_divmod\<close> stores through \<open>div_out\<close>: \<open>Unprotected\<close> is the reference to a bignum
  that no root protects while \<open>os_make_integer\<close> allocates the remainder. A collection there
  moves the bignum and leaves the reference dangling.
\<close>

datatype quot_ref = Kept lval | Unprotected lval

definition across_allocation :: "lval \<Rightarrow> lval \<Rightarrow> quot_ref" where
  "across_allocation q m = (if is_bignum q \<and> is_bignum m then Unprotected q else Kept q)"

definition floor_divmod :: "lval \<Rightarrow> lval \<Rightarrow> (quot_ref \<times> lval) option lres" where
  "floor_divmod z1 z2 =
     (case (decompose z1, decompose z2) of
        ((s1, l1), (s2, l2)) \<Rightarrow>
          if is_zero_mag l2 then Inr None
          else lbind (limb_alloc 0 (length l1)) (\<lambda>used. lbind (limb_alloc used (length l1)) (\<lambda>used.
            case mag_divmod l1 l2 of
            (quot, rem) \<Rightarrow>
              if is_zero_mag rem
              then Inr (Some (Kept (os_make_integer (s1 \<noteq> s2) quot), Imm (os_make_fixnum 0)))
              else let mq = snd (decompose (os_make_integer False quot));
                       mr = snd (decompose (os_make_integer False rem))
                   in if s1 = s2
                      then (let q = os_make_integer False mq; m = os_make_integer s2 mr
                            in Inr (Some (across_allocation q m, m)))
                      else lbind (limb_alloc used (length mq + 1)) (\<lambda>used.
                           lbind (limb_alloc used (length l2)) (\<lambda>_.
                             Inr (Some (Kept (os_make_integer True (mag_add mq [1])),
                                        os_make_integer s2 (mag_sub l2 mr))))))))"

definition primitive_div :: "lval list \<Rightarrow> quot_ref lres" where
  "primitive_div args =
     lbind (floor_divmod (lcar args) (lcar (tl args))) (\<lambda>r.
       case r of None \<Rightarrow> Inl (DivisionByZero ''DIV'' args) | Some (q, _) \<Rightarrow> Inr q)"

definition primitive_mod :: "lval list \<Rightarrow> lval lres" where
  "primitive_mod args =
     lbind (floor_divmod (lcar args) (lcar (tl args))) (\<lambda>r.
       case r of None \<Rightarrow> Inl (DivisionByZero ''MOD'' args) | Some (_, m) \<Rightarrow> Inr m)"

text \<open>
  The loops of \<open>mag_gcd\<close> and \<open>mag_isqrt\<close>: \<open>None\<close> is a loop that never ends. Each round is a
  frame on top of the \<open>used\<close> limbs of the function itself.
\<close>

partial_function (option) gcd_loop :: "nat \<Rightarrow> lval \<Rightarrow> lval \<Rightarrow> lval lres option" where
  "gcd_loop used cur_a cur_b =
     (let la = snd (decompose cur_a); lb = snd (decompose cur_b)
      in if is_zero_mag lb then Some (Inr cur_a)
         else case lbind (limb_alloc used (length la)) (\<lambda>used'. limb_alloc used' (length la)) of
           Inl e \<Rightarrow> Some (Inl e)
         | Inr _ \<Rightarrow> gcd_loop used cur_b (os_make_integer False (snd (mag_divmod la lb))))"

definition mag_gcd :: "lval \<Rightarrow> lval \<Rightarrow> lval lres option" where
  "mag_gcd a_val b_val =
     (let la = snd (decompose a_val); lb = snd (decompose b_val)
      in case lbind (limb_alloc 0 (length la)) (\<lambda>used. limb_alloc used (length lb)) of
        Inl e \<Rightarrow> Some (Inl e)
      | Inr used \<Rightarrow> gcd_loop used (os_make_integer False la) (os_make_integer False lb))"

partial_function (option) isqrt_loop :: "nat \<Rightarrow> lval \<Rightarrow> lval \<Rightarrow> lval \<Rightarrow> lval lres option" where
  "isqrt_loop used n_val x y =
     (if mag_compare (snd (decompose y)) (snd (decompose x)) < 0
      then (let ln = snd (decompose n_val); lx = snd (decompose y)
            in case lbind (limb_alloc used (length ln)) (\<lambda>used'. lbind (limb_alloc used' (length ln)) (\<lambda>used'.
                      let quot = fst (mag_divmod ln lx)
                      in lbind (limb_alloc used' (max (length lx) (length quot) + 1)) (\<lambda>_.
                           Inr (mag_add lx quot)))) of
                 Inl e \<Rightarrow> Some (Inl e)
               | Inr lsum \<Rightarrow> isqrt_loop used n_val y (os_make_integer False (fst (mag_divmod_small lsum 2))))
      else Some (Inr x))"

definition mag_isqrt :: "lval \<Rightarrow> lval lres option" where
  "mag_isqrt n_val =
     (let ln = snd (decompose n_val); x = os_make_integer False ln; lx = snd (decompose x)
      in case lbind (limb_alloc 0 (length ln)) (\<lambda>used. limb_alloc used (length lx + 1)) of
        Inl e \<Rightarrow> Some (Inl e)
      | Inr used \<Rightarrow>
          isqrt_loop used n_val x (os_make_integer False (fst (mag_divmod_small (mag_add lx [1]) 2))))"

definition primitive_gcd :: "lval list \<Rightarrow> lval lres option" where
  "primitive_gcd args = mag_gcd (lcar args) (lcar (tl args))"

definition primitive_lcm :: "lval list \<Rightarrow> lval lres option" where
  "primitive_lcm args =
     (let z1 = lcar args; z2 = lcar (tl args)
      in case mag_gcd z1 z2 of
           None \<Rightarrow> None
         | Some r \<Rightarrow> Some (lbind r (\<lambda>gcd_val.
             let lg = snd (decompose gcd_val); l1 = snd (decompose z1); l2 = snd (decompose z2)
             in if is_zero_mag lg then Inr (Imm (os_make_fixnum 0))
                else lbind (limb_alloc 0 (length l1 + length l2)) (\<lambda>used.
                  let lp = snd (decompose (os_make_integer False (mag_mul l1 l2)))
                  in lbind (limb_alloc used (length lp)) (\<lambda>used. lbind (limb_alloc used (length lp)) (\<lambda>_.
                       Inr (os_make_integer False (fst (mag_divmod lp lg)))))))))"

definition primitive_isqrt :: "lval list \<Rightarrow> lval lres option" where
  "primitive_isqrt args =
     (let val = lcar args
      in if fst (decompose val) then Some (Inl (DomainError val ''<INTEGER>''))
         else mag_isqrt val)"

subsection \<open>The integers a value stands for\<close>

definition sgn_mag :: "bool \<Rightarrow> nat \<Rightarrow> int" where
  "sgn_mag s n = (if s then - int n else int n)"

definition wf_int :: "lval \<Rightarrow> bool" where
  [wf_defs]: "wf_int v =
     (case v of
        Imm w \<Rightarrow> fixnum_wf w
      | Bignum s ls \<Rightarrow> limbs_ok ls \<and> 1 < length ls \<and> last ls \<noteq> 0 \<and> 2 ^ 59 \<le> mag_val ls
      | _ \<Rightarrow> False)"

definition ival :: "lval \<Rightarrow> int" where
  "ival v =
     (case v of
        Imm w \<Rightarrow> fixnum_int w
      | Bignum s ls \<Rightarrow> sgn_mag s (mag_val ls)
      | _ \<Rightarrow> 0)"

lemma wf_int_simps [simp]:
  "wf_int (Imm w) = fixnum_wf w"
  "wf_int (Bignum s ls) \<longleftrightarrow> limbs_ok ls \<and> 1 < length ls \<and> last ls \<noteq> 0 \<and> 2 ^ 59 \<le> mag_val ls"
  "\<not> wf_int Nil" "\<not> wf_int (Sym n)" "\<not> wf_int (Str n)" "\<not> wf_int (Cons a b)" "\<not> wf_int (DFloat d)"
  "\<not> wf_int (Vec ds vs)" "\<not> wf_int (Obj m vs)"
  by (simp_all add: wf_int_def)

lemma ival_simps [simp]:
  "ival (Imm w) = fixnum_int w" "ival (Bignum s ls) = sgn_mag s (mag_val ls)"
  by (simp_all add: ival_def)

lemma wf_int_cases:
  assumes "wf_int v"
  obtains w where "v = Imm w" "fixnum_wf w"
    | s ls where "v = Bignum s ls" "limbs_ok ls" "1 < length ls" "last ls \<noteq> 0" "2 ^ 59 \<le> mag_val ls"
  using assms by (cases v) auto

lemma sgn_mag_simps [simp]:
  "sgn_mag s 0 = 0" "sgn_mag False n = int n" "sgn_mag True n = - int n"
  "\<bar>sgn_mag s n\<bar> = int n"
  by (simp_all add: sgn_mag_def)

lemma limbs_ok_words:
  "limbs_ok [m AND 0xFFFFFFFF, drop_bit 32 m]"
  "mag_val [m AND 0xFFFFFFFF, drop_bit 32 m] = unat m"
proof -
  have "unat m div 4294967296 < 4294967296" using unat_lt64 [of m] by simp
  then show "limbs_ok [m AND 0xFFFFFFFF, drop_bit 32 m]"
    by (simp add: limbs_ok_def unat_lo32 unat_hi32)
  show "mag_val [m AND 0xFFFFFFFF, drop_bit 32 m] = unat m"
    using unat_split32 [of m] by simp
qed

lemma decompose_Imm:
  "fixnum_wf w \<Longrightarrow> decompose (Imm w) =
     (os_fixnum_is_negative w,
      mag_trim [os_fixnum_magnitude w AND 0xFFFFFFFF, drop_bit 32 (os_fixnum_magnitude w)])"
  by (simp add: decompose_def Let_def fixnum_wf_def)

lemma decompose_Bignum [simp]: "decompose (Bignum s ls) = (s, ls)"
  by (simp add: decompose_def)

text \<open>The signed magnitude \<open>decompose\<close> gives for a well-formed integer.\<close>

lemma decompose_wf:
  assumes "wf_int v" "decompose v = (s, ls)"
  shows "limbs_ok ls" "ls \<noteq> []" "ival v = sgn_mag s (mag_val ls)"
    "1 < length ls \<longrightarrow> last ls \<noteq> 0" "s \<longrightarrow> mag_val ls \<noteq> 0"
proof -
  have "limbs_ok ls \<and> ls \<noteq> [] \<and> ival v = sgn_mag s (mag_val ls) \<and>
    (1 < length ls \<longrightarrow> last ls \<noteq> 0) \<and> (s \<longrightarrow> mag_val ls \<noteq> 0)"
    using assms(1)
  proof (cases rule: wf_int_cases)
    case (1 w)
    let ?ws = "[os_fixnum_magnitude w AND 0xFFFFFFFF, drop_bit 32 (os_fixnum_magnitude w)]"
    have e: "s = os_fixnum_is_negative w" "ls = mag_trim ?ws"
      using assms(2) decompose_Imm [OF 1(2)] unfolding 1(1) by auto
    have nz: "os_fixnum_is_negative w \<longrightarrow> unat (os_fixnum_magnitude w) \<noteq> 0"
      using 1(2) by (auto simp: fixnum_wf_def unat_eq_zero)
    have "mag_val ls = unat (os_fixnum_magnitude w)" "limbs_ok ls" "ls \<noteq> []"
      unfolding e by (simp_all only: mag_val_trim limbs_ok_words limbs_ok_trim mag_trim_Nil_iff) simp
    moreover have "1 < length ls \<longrightarrow> last ls \<noteq> 0" unfolding e by (metis mag_trim_last)
    ultimately show ?thesis using nz e(1) by (simp add: 1(1) fixnum_int_def sgn_mag_def)
  next
    case (2 s' ls')
    then show ?thesis using assms(2) by auto
  qed
  then show "limbs_ok ls" "ls \<noteq> []" "ival v = sgn_mag s (mag_val ls)"
    "1 < length ls \<longrightarrow> last ls \<noteq> 0" "s \<longrightarrow> mag_val ls \<noteq> 0" by simp_all
qed

lemma sgn_ival:
  assumes "wf_int v" "decompose v = (s, ls)"
  shows "s \<longleftrightarrow> ival v < 0"
  using decompose_wf [OF assms] by (auto simp: sgn_mag_def)

lemma two_limbs_value:
  assumes "limbs_ok [x, y]"
  shows "unat (x OR push_bit 32 y) = mag_val [x, y]"
proof -
  have xy: "unat x < 4294967296" "unat y < 4294967296" using assms by (simp_all add: limbs_ok_def)
  show ?thesis using shl32_or [of y x] xy by (simp add: or.commute)
qed

lemma mag_val_lower:
  assumes "ls \<noteq> []" "last ls \<noteq> 0"
  shows "2 ^ (32 * (length ls - 1)) \<le> mag_val ls"
proof -
  let ?P = "2 ^ (32 * (length ls - 1)) :: nat"
  have "mag_val ls = mag_val (butlast ls) + ?P * unat (last ls)"
    using arg_cong [OF append_butlast_last_id [OF assms(1)], of mag_val]
    by (simp add: mag_val_append)
  moreover have "1 \<le> unat (last ls)" using assms(2) by (simp add: unat_gt_0 Suc_leI)
  then have "?P * 1 \<le> ?P * unat (last ls)" by (rule mult_le_mono2)
  ultimately show ?thesis by linarith
qed

text \<open>
  \<open>os_make_integer\<close> yields the canonical representation of the integer it is given.
\<close>

lemma os_make_integer_wf:
  assumes "limbs_ok ls0" "ls0 \<noteq> []"
  shows "wf_int (os_make_integer s ls0)" "ival (os_make_integer s ls0) = sgn_mag s (mag_val ls0)"
proof -
  define ls where "ls = mag_trim ls0"
  have ls: "limbs_ok ls" "ls \<noteq> []" "mag_val ls = mag_val ls0" "1 < length ls \<longrightarrow> last ls \<noteq> 0"
    using assms mag_trim_last [of ls0] by (auto simp: ls_def)
  define sg where "sg = (if length ls = 1 \<and> ls ! 0 = 0 then False else s)"
  have sg: "sgn_mag sg (mag_val ls) = sgn_mag s (mag_val ls)"
    using ls(2) by (cases ls) (auto simp: sg_def)
  define m where "m = (if length ls = 2 then nth_or 0 ls 0 OR push_bit 32 (ls ! 1) else nth_or 0 ls 0)"
  have m: "unat m = mag_val ls" if "length ls \<le> 2"
  proof (cases ls)
    case (Cons x xs)
    show ?thesis
    proof (cases xs)
      case Nil then show ?thesis using Cons by (simp add: m_def)
    next
      case (Cons y ys)
      then have "ls = [x, y]" using that \<open>ls = x # xs\<close> by simp
      then show ?thesis using two_limbs_value [of x y] ls(1) by (simp add: m_def)
    qed
  qed (use ls(2) in simp)
  have e: "os_make_integer s ls0 =
      (if length ls \<le> 2 \<and> m \<le> FIXNUM_MAGNITUDE_MASK
       then Imm (os_make_fixnum_signed sg m) else Bignum sg ls)"
    by (simp add: os_make_integer_def ls_def sg_def m_def Let_def)
  have "wf_int (os_make_integer s ls0) \<and> ival (os_make_integer s ls0) = sgn_mag s (mag_val ls0)"
  proof (cases "length ls \<le> 2 \<and> m \<le> FIXNUM_MAGNITUDE_MASK")
    case True
    then have "unat m < 2 ^ 59" "unat m = mag_val ls" using m by (simp_all add: magnitude_le_mask)
    then have "uint m = int (mag_val ls)" by (simp only: uint_nat)
    then have "fixnum_int (os_make_fixnum_signed sg m) = sgn_mag sg (mag_val ls)"
      using make_fixnum_signed(4) [OF \<open>unat m < 2 ^ 59\<close>, of sg] by (simp only: sgn_mag_def)
    then show ?thesis
      using make_fixnum_signed(3) [of m sg] \<open>unat m < 2 ^ 59\<close> sg ls(3) True unfolding e by simp
  next
    case False
    have "1 < length ls \<and> 2 ^ 59 \<le> mag_val ls"
    proof (cases "length ls \<le> 2")
      case True
      then have big: "2 ^ 59 \<le> mag_val ls" using False m by (simp add: magnitude_le_mask not_less)
      have "1 < length ls"
      proof (rule ccontr)
        assume "\<not> 1 < length ls"
        then have "length ls = 1" using ls(2) by (cases ls) auto
        then have "mag_val ls < 2 ^ 32" using mag_val_bound [OF ls(1)] by simp
        then show False using big by simp
      qed
      with big show ?thesis by simp
    next
      case F2: False
      have "(2::nat) ^ 59 \<le> 2 ^ (32 * (length ls - 1))" using F2 by (intro power_increasing) simp_all
      also have "\<dots> \<le> mag_val ls" using ls(2,4) F2 by (intro mag_val_lower) simp_all
      finally have "2 ^ 59 \<le> mag_val ls" .
      with F2 show ?thesis by simp
    qed
    then show ?thesis using ls(1,3,4) sg unfolding e if_not_P [OF False] by simp
  qed
  then show "wf_int (os_make_integer s ls0)" "ival (os_make_integer s ls0) = sgn_mag s (mag_val ls0)"
    by simp_all
qed

text \<open>The canonical representation is unique, so \<open>eq\<close> of words and \<open>bignum_equal\<close> decide integer equality.\<close>

lemma mag_val_inj:
  "limbs_ok a \<Longrightarrow> limbs_ok b \<Longrightarrow> length a = length b \<Longrightarrow> mag_val a = mag_val b \<Longrightarrow> a = b"
proof (induction a b rule: list_induct2')
  case (4 x xs y ys)
  have b: "unat x < 4294967296" "unat y < 4294967296" using 4(2,3) by simp_all
  have eq: "unat x + 4294967296 * mag_val xs = unat y + 4294967296 * mag_val ys" using 4(5) by simp
  have "unat x = unat y" using arg_cong [OF eq, of "\<lambda>n. n mod 4294967296"] b by simp
  moreover from this have "mag_val xs = mag_val ys" using eq by simp
  ultimately show ?case using 4 by (simp add: word_eq_iff_unat)
qed simp_all

lemma trimmed_length_eq:
  assumes "limbs_ok a" "limbs_ok b" "a \<noteq> []" "b \<noteq> []" "last a \<noteq> 0" "last b \<noteq> 0" "mag_val a = mag_val b"
  shows "length a = length b"
proof -
  have aux: "length p \<le> length q"
    if "limbs_ok q" "p \<noteq> []" "last p \<noteq> 0" "mag_val p = mag_val q" for p q
  proof (rule ccontr)
    assume "\<not> length p \<le> length q"
    then have "(2::nat) ^ (32 * length q) \<le> 2 ^ (32 * (length p - 1))" by (intro power_increasing) simp_all
    also have "\<dots> \<le> mag_val p" by (rule mag_val_lower [OF that(2,3)])
    also have "\<dots> < 2 ^ (32 * length q)" unfolding that(4) by (rule mag_val_bound [OF that(1)])
    finally show False by simp
  qed
  show ?thesis by (rule le_antisym) (rule aux; use assms in simp)+
qed

lemma ival_inj:
  assumes "wf_int a" "wf_int b" "ival a = ival b"
  shows "a = b"
proof -
  have mixed: False
    if "fixnum_wf w" "2 ^ 59 \<le> mag_val ls" "fixnum_int w = sgn_mag s (mag_val ls)" for w s ls
  proof -
    have "int (2 ^ 59) \<le> int (mag_val ls)" using that(2) by (simp only: of_nat_le_iff)
    then show False using fixnum_int_bound [of w] that(3) by simp
  qed
  from assms(1) show ?thesis
  proof (cases rule: wf_int_cases)
    case a: (1 w)
    from assms(2) show ?thesis
    proof (cases rule: wf_int_cases)
      case b: (1 w')
      then show ?thesis using assms(3) a fixnum_int_inj by simp
    next
      case b: (2 s ls)
      then show ?thesis using assms(3) a mixed [of w ls s] by simp
    qed
  next
    case a: (2 s ls)
    from assms(2) show ?thesis
    proof (cases rule: wf_int_cases)
      case b: (1 w)
      then show ?thesis using assms(3) a mixed [of w ls s] by simp
    next
      case b: (2 s' ls')
      have eq: "mag_val ls = mag_val ls'" and s: "s = s'"
        using assms(3) a(1,5) b(1,5) by (auto simp: sgn_mag_def split: if_splits)
      have "length ls = length ls'" using a b eq by (intro trimmed_length_eq) auto
      then show ?thesis using a b s eq by (simp add: mag_val_inj)
    qed
  qed
qed

subsection \<open>The number of limbs of an integer\<close>

fun mag_limbs :: "nat \<Rightarrow> nat" where
  "mag_limbs n = (if n < 4294967296 then 1 else Suc (mag_limbs (n div 4294967296)))"

declare mag_limbs.simps [simp del]

definition limb_count :: "int \<Rightarrow> nat" where
  "limb_count i = mag_limbs (nat \<bar>i\<bar>)"

lemma mag_limbs_pos: "0 < mag_limbs n"
  by (subst mag_limbs.simps) simp

lemma mag_limbs_le_iff: "mag_limbs n \<le> Suc k \<longleftrightarrow> n < 2 ^ (32 * Suc k)"
proof (induction k arbitrary: n)
  case 0
  then show ?case using mag_limbs_pos [of "n div 4294967296"] by (subst mag_limbs.simps) simp
next
  case (Suc k)
  have "n div 4294967296 < 2 ^ (32 * Suc k) \<longleftrightarrow> n < 2 ^ (32 * Suc k) * 4294967296"
    by (rule div_less_iff_less_mult) simp
  moreover have "(2::nat) ^ (32 * Suc k) * 4294967296 = 2 ^ (32 * Suc (Suc k))" by (simp add: power_add)
  moreover have "(4294967296::nat) \<le> 2 ^ (32 * Suc (Suc k))"
    using power_increasing [of 32 "32 * Suc (Suc k)" "2::nat"] by simp
  ultimately show ?case using Suc.IH [of "n div 4294967296"] by (subst mag_limbs.simps) auto
qed

lemma limb_count_le_iff: "0 < k \<Longrightarrow> limb_count i \<le> k \<longleftrightarrow> \<bar>i\<bar> < 2 ^ (32 * k)"
proof -
  assume "0 < k"
  then obtain j where k: "k = Suc j" by (cases k) simp_all
  have "nat \<bar>i\<bar> < 2 ^ (32 * k) \<longleftrightarrow> \<bar>i\<bar> < 2 ^ (32 * k)" by (simp add: nat_less_iff)
  then show ?thesis unfolding k limb_count_def mag_limbs_le_iff .
qed

lemma limb_count_pos: "0 < limb_count i"
  by (simp add: limb_count_def mag_limbs_pos)

lemma limb_count_mono: "\<bar>i\<bar> \<le> \<bar>j\<bar> \<Longrightarrow> limb_count i \<le> limb_count j"
  using limb_count_le_iff [of "limb_count j" j] limb_count_le_iff [of "limb_count j" i] by (simp add: limb_count_pos)

lemma limb_count_abs [simp]: "limb_count \<bar>i\<bar> = limb_count i"
  by (simp add: limb_count_def)

lemma trimmed_limb_count:
  assumes "limbs_ok ls" "ls \<noteq> []" "1 < length ls \<longrightarrow> last ls \<noteq> 0"
  shows "length ls = limb_count (int (mag_val ls))"
proof (rule le_antisym)
  have b: "int (mag_val ls) < 2 ^ (32 * length ls)"
    using mag_val_bound [OF assms(1)] by (metis of_nat_less_iff of_nat_numeral of_nat_power)
  show "limb_count (int (mag_val ls)) \<le> length ls"
    using b assms(2) limb_count_le_iff [of "length ls" "int (mag_val ls)"] by simp
  show "length ls \<le> limb_count (int (mag_val ls))"
  proof (rule ccontr)
    assume c: "\<not> length ls \<le> limb_count (int (mag_val ls))"
    then have l: "1 < length ls" using limb_count_pos [of "int (mag_val ls)"] by simp
    then have "limb_count (int (mag_val ls)) \<le> length ls - 1" "0 < length ls - 1" using c by simp_all
    then have "\<bar>int (mag_val ls)\<bar> < 2 ^ (32 * (length ls - 1))" using limb_count_le_iff by blast
    moreover have "2 ^ (32 * (length ls - 1)) \<le> mag_val ls"
      using mag_val_lower [OF assms(2)] assms(3) l by simp
    then have "2 ^ (32 * (length ls - 1)) \<le> int (mag_val ls)"
      by (metis of_nat_le_iff of_nat_numeral of_nat_power)
    ultimately show False by simp
  qed
qed

lemma decompose_count:
  assumes "wf_int v" "decompose v = (s, ls)"
  shows "length ls = limb_count (ival v)"
proof -
  note w = decompose_wf [OF assms]
  have "limb_count (ival v) = limb_count (int (mag_val ls))"
    unfolding w(3) by (metis limb_count_abs sgn_mag_simps(4))
  then show ?thesis using trimmed_limb_count [OF w(1,2,4)] by simp
qed

lemma fixnum_limb_count: "fixnum_wf w \<Longrightarrow> limb_count (fixnum_int w) \<le> 2"
  using fixnum_int_bound [of w] limb_count_le_iff [of 2 "fixnum_int w"] by simp

subsection \<open>Addition, subtraction and multiplication are those of the integers\<close>

definition int_result :: "lval lres \<Rightarrow> int \<Rightarrow> bool" where
  "int_result r i \<longleftrightarrow> (\<exists>v. r = Inr v \<and> wf_int v \<and> ival v = i)"

lemma int_resultI [intro]: "wf_int v \<Longrightarrow> ival v = i \<Longrightarrow> int_result (Inr v) i"
  by (simp add: int_result_def)

text \<open>The outcome of an operation whose requests of the arena fit exactly when \<open>fits\<close> holds.\<close>

definition arena_result :: "bool \<Rightarrow> lval lres \<Rightarrow> int \<Rightarrow> bool" where
  "arena_result fits r i \<longleftrightarrow> (if fits then int_result r i else r = Inl LimbArenaExhausted)"

lemma lbind_simps [simp]: "lbind (Inl e) f = Inl e" "lbind (Inr x) f = f x"
  by (simp_all add: lbind_def)

lemma lbind_alloc:
  "lbind (limb_alloc used n) f = (if used + n \<le> LIMB_ARENA_LIMBS then f (used + n) else Inl LimbArenaExhausted)"
  by (simp add: limb_alloc_def)

definition add_need :: "int \<Rightarrow> int \<Rightarrow> nat" where
  "add_need a b = max (limb_count a) (limb_count b) + 1"

definition mul_need :: "int \<Rightarrow> int \<Rightarrow> nat" where
  "mul_need a b = limb_count a + limb_count b"

lemma add_step_correct:
  assumes "wf_int a" "wf_int b"
  shows "arena_result (add_need (ival a) (ival b) \<le> LIMB_ARENA_LIMBS) (add_step a b) (ival a + ival b)"
proof -
  obtain sa la sb lb where d: "decompose a = (sa, la)" "decompose b = (sb, lb)" by fastforce
  note wa = decompose_wf [OF assms(1) d(1)] and wb = decompose_wf [OF assms(2) d(2)]
  note c = decompose_count [OF assms(1) d(1)] decompose_count [OF assms(2) d(2)]
  define r where "r = (if sa = sb then os_make_integer sa (mag_add la lb)
             else if mag_compare la lb \<ge> 0 then os_make_integer sa (mag_sub la lb)
             else os_make_integer sb (mag_sub lb la))"
  have "wf_int r \<and> ival r = ival a + ival b"
    using wa wb mag_compare_sgn [of la lb] mag_add_val [of la lb] mag_sub_val [of la lb] mag_sub_val [of lb la]
    by (simp add: r_def os_make_integer_wf sgn_mag_def sgn_if split: if_splits)
  moreover have "add_step a b = (if add_need (ival a) (ival b) \<le> LIMB_ARENA_LIMBS then Inr r else Inl LimbArenaExhausted)"
    by (simp add: add_step_def d lbind_alloc r_def add_need_def c)
  ultimately show ?thesis by (auto simp: arena_result_def)
qed

lemma sub_step_correct:
  assumes "wf_int a" "wf_int b"
  shows "arena_result (add_need (ival a) (ival b) \<le> LIMB_ARENA_LIMBS) (sub_step a b) (ival a - ival b)"
proof -
  obtain sa la sb lb where d: "decompose a = (sa, la)" "decompose b = (sb, lb)" by fastforce
  note wa = decompose_wf [OF assms(1) d(1)] and wb = decompose_wf [OF assms(2) d(2)]
  note c = decompose_count [OF assms(1) d(1)] decompose_count [OF assms(2) d(2)]
  define r where "r = (if sa \<noteq> sb then os_make_integer sa (mag_add la lb)
             else if mag_compare la lb \<ge> 0 then os_make_integer sa (mag_sub la lb)
             else os_make_integer (\<not> sa) (mag_sub lb la))"
  have "wf_int r \<and> ival r = ival a - ival b"
    using wa wb mag_compare_sgn [of la lb] mag_add_val [of la lb] mag_sub_val [of la lb] mag_sub_val [of lb la]
    by (simp add: r_def os_make_integer_wf sgn_mag_def sgn_if split: if_splits)
  moreover have "sub_step a b = (if add_need (ival a) (ival b) \<le> LIMB_ARENA_LIMBS then Inr r else Inl LimbArenaExhausted)"
    by (simp add: sub_step_def d lbind_alloc r_def add_need_def c)
  ultimately show ?thesis by (auto simp: arena_result_def)
qed

lemma mul_step_correct:
  assumes "wf_int a" "wf_int b"
  shows "arena_result (mul_need (ival a) (ival b) \<le> LIMB_ARENA_LIMBS) (mul_step a b) (ival a * ival b)"
proof -
  obtain sa la sb lb where d: "decompose a = (sa, la)" "decompose b = (sb, lb)" by fastforce
  note wa = decompose_wf [OF assms(1) d(1)] and wb = decompose_wf [OF assms(2) d(2)]
  note c = decompose_count [OF assms(1) d(1)] decompose_count [OF assms(2) d(2)]
  define r where "r = os_make_integer (sa \<noteq> sb) (mag_mul la lb)"
  have "wf_int r \<and> ival r = ival a * ival b"
    using wa wb mag_mul_val [of la lb] mag_mul_nonempty [of la lb]
    by (simp add: r_def os_make_integer_wf sgn_mag_def)
  moreover have "mul_step a b = (if mul_need (ival a) (ival b) \<le> LIMB_ARENA_LIMBS then Inr r else Inl LimbArenaExhausted)"
    by (simp add: mul_step_def d lbind_alloc r_def mul_need_def c)
  ultimately show ?thesis by (auto simp: arena_result_def)
qed

lemma fixnum_parts:
  assumes "fixnum_wf a"
  obtains n where "n < 2 ^ 59" "unat (os_fixnum_magnitude a) = n" "fixnum_int a = sgn_mag (os_fixnum_is_negative a) n"
  using magnitude_less [of a] that by (simp add: fixnum_int_def sgn_mag_def)

lemma fixnum_int_sgn_mag: "fixnum_int a = sgn_mag (os_fixnum_is_negative a) (unat (os_fixnum_magnitude a))"
  by (simp add: fixnum_int_def sgn_mag_def)

lemma abs_sgn_mag_add: "\<bar>sgn_mag s m + sgn_mag s n\<bar> = int (m + n)"
  by (cases s) simp_all

lemma make_fixnum_signed_sgn:
  assumes "unat m < 2 ^ 59"
  shows "fixnum_wf (os_make_fixnum_signed s m)"
    "fixnum_int (os_make_fixnum_signed s m) = sgn_mag s (unat m)"
  using make_fixnum_signed(3,4) [OF assms, of s] by (simp_all add: sgn_mag_def)

lemma unat_magnitude_sum:
  "unat (os_fixnum_magnitude a + os_fixnum_magnitude b) =
     unat (os_fixnum_magnitude a) + unat (os_fixnum_magnitude b)"
  using magnitude_less [of a] magnitude_less [of b] by (intro unat_add_no_wrap64) simp

text \<open>The one-word addition is exact where it succeeds, and gives up exactly when the sum is no fixnum.\<close>

lemma fixnum_add_unchecked_Some:
  assumes "fixnum_add_signed_unchecked a b = Some r"
  shows "fixnum_wf r" "fixnum_int r = fixnum_int a + fixnum_int b"
proof -
  let ?a = "os_fixnum_magnitude a" and ?b = "os_fixnum_magnitude b"
  have l: "unat ?a < 2 ^ 59" "unat ?b < 2 ^ 59" by (rule magnitude_less)+
  have "fixnum_wf r \<and> fixnum_int r = fixnum_int a + fixnum_int b"
  proof (cases "os_fixnum_is_negative a = os_fixnum_is_negative b")
    case True
    then have "unat (?a + ?b) < 2 ^ 59" "r = os_make_fixnum_signed (os_fixnum_is_negative a) (?a + ?b)"
      using assms by (auto simp: fixnum_add_signed_unchecked_def Let_def not_less magnitude_le_mask split: if_splits)
    then show ?thesis
      using True unat_magnitude_sum [of a b]
      by (simp add: make_fixnum_signed_sgn) (simp add: fixnum_int_sgn_mag sgn_mag_def)
  next
    case False
    show ?thesis
    proof (cases "?b \<le> ?a")
      case le: True
      then have d: "unat (?a - ?b) = unat ?a - unat ?b" by (rule unat_sub)
      then have "unat (?a - ?b) < 2 ^ 59" using l by simp
      moreover have "r = os_make_fixnum_signed (os_fixnum_is_negative a) (?a - ?b)"
        using assms False le by (simp add: fixnum_add_signed_unchecked_def)
      ultimately show ?thesis
        using False le d
        by (simp add: make_fixnum_signed_sgn)
          (auto simp: fixnum_int_sgn_mag sgn_mag_def word_le_nat_alt)
    next
      case nle: False
      then have d: "unat (?b - ?a) = unat ?b - unat ?a" by (intro unat_sub) simp
      then have "unat (?b - ?a) < 2 ^ 59" using l by simp
      moreover have "r = os_make_fixnum_signed (os_fixnum_is_negative b) (?b - ?a)"
        using assms False nle by (simp add: fixnum_add_signed_unchecked_def)
      ultimately show ?thesis
        using False nle d
        by (simp add: make_fixnum_signed_sgn)
          (auto simp: fixnum_int_sgn_mag sgn_mag_def word_le_nat_alt)
    qed
  qed
  then show "fixnum_wf r" "fixnum_int r = fixnum_int a + fixnum_int b" by simp_all
qed

lemma fixnum_add_unchecked_None:
  assumes "fixnum_add_signed_unchecked a b = None"
  shows "2 ^ 59 \<le> \<bar>fixnum_int a + fixnum_int b\<bar>"
proof -
  have s: "os_fixnum_is_negative a = os_fixnum_is_negative b"
    and big: "\<not> os_fixnum_magnitude a + os_fixnum_magnitude b \<le> FIXNUM_MAGNITUDE_MASK"
    using assms by (auto simp: fixnum_add_signed_unchecked_def Let_def split: if_splits)
  have "\<bar>fixnum_int a + fixnum_int b\<bar> = int (unat (os_fixnum_magnitude a) + unat (os_fixnum_magnitude b))"
    unfolding fixnum_int_sgn_mag s by (rule abs_sgn_mag_add)
  moreover have "2 ^ 59 \<le> unat (os_fixnum_magnitude a) + unat (os_fixnum_magnitude b)"
    using big unfolding magnitude_le_mask unat_magnitude_sum by simp
  then have "int (2 ^ 59) \<le> int (unat (os_fixnum_magnitude a) + unat (os_fixnum_magnitude b))"
    by (simp only: of_nat_le_iff)
  ultimately show ?thesis by simp
qed

lemma fixnum_negate_correct:
  "fixnum_wf (fixnum_negate a)" "fixnum_int (fixnum_negate a) = - fixnum_int a"
proof -
  show "fixnum_wf (fixnum_negate a)"
    unfolding fixnum_negate_def by (rule make_fixnum_signed_sgn(1) [OF magnitude_less])
  show "fixnum_int (fixnum_negate a) = - fixnum_int a"
    unfolding fixnum_negate_def make_fixnum_signed_sgn(2) [OF magnitude_less]
    by (simp add: fixnum_int_sgn_mag sgn_mag_def)
qed

lemma unat_magnitude_prod:
  "unat ((ucast (os_fixnum_magnitude a) :: 128 word) * ucast (os_fixnum_magnitude b)) =
     unat (os_fixnum_magnitude a) * unat (os_fixnum_magnitude b)"
proof -
  have l: "unat (os_fixnum_magnitude a) < 2 ^ 59" "unat (os_fixnum_magnitude b) < 2 ^ 59"
    by (rule magnitude_less)+
  have u: "unat (ucast (x :: u64) :: 128 word) = unat x" for x
  proof -
    have "unat x < 2 ^ 128" using unat_lt64 [of x] by (rule order.strict_trans) simp
    then show ?thesis by (simp add: unsigned_ucast_eq take_bit_nat_eq_self)
  qed
  have "unat (os_fixnum_magnitude a) * unat (os_fixnum_magnitude b) < 2 ^ 59 * 2 ^ 59"
    using l by (intro mult_strict_mono) simp_all
  then have "unat (ucast (os_fixnum_magnitude a) :: 128 word) * unat (ucast (os_fixnum_magnitude b) :: 128 word) < 2 ^ LENGTH(128)"
    unfolding u by (rule order.strict_trans) simp
  then show ?thesis by (subst unat_mult_lem [THEN iffD1]) (simp_all only: u)
qed

lemma unat_ucast64: "unat (ucast (x :: 128 word) :: u64) = unat x mod 18446744073709551616"
  by (simp add: unsigned_ucast_eq take_bit_eq_mod)

lemma fixnum_mul_unchecked_Some:
  assumes "fixnum_multiply_signed_unchecked a b = Some r"
  shows "fixnum_wf r" "fixnum_int r = fixnum_int a * fixnum_int b"
proof -
  let ?p = "(ucast (os_fixnum_magnitude a) :: 128 word) * ucast (os_fixnum_magnitude b)"
  let ?n = "unat (os_fixnum_magnitude a) * unat (os_fixnum_magnitude b)"
  have le: "?p \<le> ucast FIXNUM_MAGNITUDE_MASK"
    and r: "r = os_make_fixnum_signed (os_fixnum_is_negative a \<noteq> os_fixnum_is_negative b) (ucast ?p)"
    using assms by (auto simp: fixnum_multiply_signed_unchecked_def Let_def not_less split: if_splits)
  have n: "?n < 2 ^ 59"
    using le unat_magnitude_prod [of a b]
    by (simp add: word_le_nat_alt FIXNUM_MAGNITUDE_MASK_def less_Suc_eq_le [symmetric])
  then have u: "unat (ucast ?p :: u64) = ?n"
    unfolding unat_ucast64 unat_magnitude_prod by (intro mod_less) simp
  show "fixnum_wf r" unfolding r by (rule make_fixnum_signed_sgn(1)) (simp only: u n)
  have "fixnum_int r = sgn_mag (os_fixnum_is_negative a \<noteq> os_fixnum_is_negative b) ?n"
    unfolding r by (subst make_fixnum_signed_sgn(2)) (simp_all only: u n)
  then show "fixnum_int r = fixnum_int a * fixnum_int b"
    by (simp add: fixnum_int_sgn_mag sgn_mag_def)
qed

lemma fixnum_mul_unchecked_None:
  assumes "fixnum_multiply_signed_unchecked a b = None"
  shows "2 ^ 59 \<le> \<bar>fixnum_int a * fixnum_int b\<bar>"
proof -
  let ?n = "unat (os_fixnum_magnitude a) * unat (os_fixnum_magnitude b)"
  have "2 ^ 59 \<le> ?n"
    using assms unat_magnitude_prod [of a b]
    by (simp add: fixnum_multiply_signed_unchecked_def Let_def word_less_nat_alt FIXNUM_MAGNITUDE_MASK_def
        split: if_splits)
  then have "int (2 ^ 59) \<le> int ?n" by (simp only: of_nat_le_iff)
  moreover have "\<bar>fixnum_int a * fixnum_int b\<bar> = int ?n"
    by (simp add: abs_mult fixnum_int_sgn_mag del: int_nat_eq)
  ultimately show ?thesis by simp
qed

text \<open>Truncating division, the rule of C's \<open>/\<close> on sign and magnitude.\<close>

definition tdiv :: "int \<Rightarrow> int \<Rightarrow> int" where
  "tdiv a b = sgn a * sgn b * (\<bar>a\<bar> div \<bar>b\<bar>)"

lemma tdiv_sgn_mag:
  "tdiv (sgn_mag s m) (sgn_mag t n) = sgn_mag (s \<noteq> t) (m div n)"
proof (cases "m = 0 \<or> n = 0")
  case False
  then show ?thesis by (auto simp: tdiv_def sgn_mag_def sgn_if zdiv_int)
qed (auto simp: tdiv_def)

lemma fixnum_div_unchecked:
  assumes "fixnum_divide_signed_unchecked a b = Some r"
  shows "fixnum_wf r" "fixnum_int b \<noteq> 0" "fixnum_int r = tdiv (fixnum_int a) (fixnum_int b)"
proof -
  let ?q = "os_fixnum_magnitude a div os_fixnum_magnitude b"
  have nz: "os_fixnum_magnitude b \<noteq> 0"
    and r: "r = os_make_fixnum_signed (os_fixnum_is_negative a \<noteq> os_fixnum_is_negative b) ?q"
    using assms by (auto simp: fixnum_divide_signed_unchecked_def Let_def split: if_splits)
  have "unat ?q \<le> unat (os_fixnum_magnitude a)" by (simp add: unat_div)
  then have q: "unat ?q < 2 ^ 59" using magnitude_less [of a] by (rule order.strict_trans1)
  show "fixnum_wf r" unfolding r by (rule make_fixnum_signed_sgn(1) [OF q])
  show "fixnum_int b \<noteq> 0" using nz by (simp add: fixnum_int_def uint_0_iff)
  show "fixnum_int r = tdiv (fixnum_int a) (fixnum_int b)"
    unfolding r make_fixnum_signed_sgn(2) [OF q] fixnum_int_sgn_mag [of a] fixnum_int_sgn_mag [of b] tdiv_sgn_mag unat_div ..
qed

lemma fixnum_div_unchecked_None:
  "fixnum_divide_signed_unchecked a b = None \<longleftrightarrow> fixnum_int b = 0"
  by (simp add: fixnum_divide_signed_unchecked_def Let_def fixnum_int_def uint_0_iff)

subsection \<open>The n-ary primitives\<close>

text \<open>
  Every n-ary primitive runs a checked one-word loop and, when that gives up, restarts
  with the general step. Both steps implement the same operation of the integers.
\<close>

text \<open>
  \<open>fold_fits need op a xs\<close>: every round of a general loop fits the arena, where a round with
  accumulator \<open>a\<close> and operand \<open>x\<close> requests \<open>need a x\<close> limbs.
\<close>

fun fold_fits :: "(int \<Rightarrow> int \<Rightarrow> nat) \<Rightarrow> (int \<Rightarrow> int \<Rightarrow> int) \<Rightarrow> int \<Rightarrow> int list \<Rightarrow> bool" where
  "fold_fits need op a [] = True"
| "fold_fits need op a (x # xs) = (need a x \<le> LIMB_ARENA_LIMBS \<and> fold_fits need op (op a x) xs)"

locale checked_fold =
  fixes step :: "lval \<Rightarrow> lval \<Rightarrow> u64 option"
    and gen :: "lval \<Rightarrow> lval \<Rightarrow> lval lres"
    and op :: "int \<Rightarrow> int \<Rightarrow> int"
    and need :: "int \<Rightarrow> int \<Rightarrow> nat"
  assumes step_fixnum: "step (Imm a) v = Some r \<Longrightarrow> is_fixnum v"
    and step_exact: "fixnum_wf a \<Longrightarrow> wf_int v \<Longrightarrow> step (Imm a) v = Some r \<Longrightarrow>
          fixnum_wf r \<and> fixnum_int r = op (fixnum_int a) (ival v)"
    and small_need: "fixnum_wf a \<Longrightarrow> fixnum_wf b \<Longrightarrow> need (fixnum_int a) (fixnum_int b) \<le> LIMB_ARENA_LIMBS"
    and gen_exact: "wf_int u \<Longrightarrow> wf_int v \<Longrightarrow>
          arena_result (need (ival u) (ival v) \<le> LIMB_ARENA_LIMBS) (gen u v) (op (ival u) (ival v))"
begin

lemma fixnum_fold_exact:
  "fixnum_wf a \<Longrightarrow> list_all wf_int vs \<Longrightarrow> fixnum_fold step a vs = Some r \<Longrightarrow>
     fixnum_wf r \<and> fixnum_int r = foldl op (fixnum_int a) (map ival vs) \<and> fold_fits need op (fixnum_int a) (map ival vs)"
proof (induction vs arbitrary: a)
  case (Cons v vs)
  then obtain b where b: "step (Imm a) v = Some b" "fixnum_fold step b vs = Some r"
    by (auto split: option.splits)
  then have "fixnum_wf b \<and> fixnum_int b = op (fixnum_int a) (ival v)"
    using Cons.prems step_exact [of a v b] by simp
  moreover have "need (fixnum_int a) (ival v) \<le> LIMB_ARENA_LIMBS"
    using step_fixnum [OF b(1)] Cons.prems(1,2) small_need [of a] by (cases v) (simp_all add: is_fixnum_def)
  ultimately show ?case using Cons.IH [of b] Cons.prems(2) b(2) by simp
qed simp

lemma fixnum_fold_fixnums: "fixnum_fold step a vs = Some r \<Longrightarrow> list_all is_fixnum vs"
  by (induction vs arbitrary: a) (auto split: option.splits dest: step_fixnum)

lemma general_fold_exact:
  "wf_int u \<Longrightarrow> list_all wf_int vs \<Longrightarrow>
     arena_result (fold_fits need op (ival u) (map ival vs)) (general_fold gen u vs) (foldl op (ival u) (map ival vs))"
proof (induction vs arbitrary: u)
  case Nil
  then show ?case by (auto simp: arena_result_def)
next
  case (Cons v vs)
  have g: "arena_result (need (ival u) (ival v) \<le> LIMB_ARENA_LIMBS) (gen u v) (op (ival u) (ival v))"
    using Cons.prems by (intro gen_exact) simp_all
  show ?case
  proof (cases "need (ival u) (ival v) \<le> LIMB_ARENA_LIMBS")
    case True
    then obtain w where "gen u v = Inr w" "wf_int w" "ival w = op (ival u) (ival v)"
      using g by (auto simp: arena_result_def int_result_def)
    then show ?thesis using Cons.IH [of w] Cons.prems(2) True by simp
  qed (use g in \<open>simp add: arena_result_def\<close>)
qed

end

lemma is_fixnum_Imm [simp]: "is_fixnum (Imm w) \<longleftrightarrow> w AND TAG_MASK = TAG_FIXNUM"
  by (simp add: is_fixnum_def)

lemma fixnum_add_signed_Imm [simp]:
  "fixnum_wf a \<Longrightarrow> fixnum_wf b \<Longrightarrow> fixnum_add_signed (Imm a) (Imm b) = fixnum_add_signed_unchecked a b"
  "fixnum_wf a \<Longrightarrow> fixnum_wf b \<Longrightarrow> fixnum_multiply_signed (Imm a) (Imm b) = fixnum_multiply_signed_unchecked a b"
  "fixnum_wf a \<Longrightarrow> fixnum_wf b \<Longrightarrow> fixnum_divide_signed (Imm a) (Imm b) = fixnum_divide_signed_unchecked a b"
  by (simp_all add: fixnum_add_signed_def fixnum_multiply_signed_def fixnum_divide_signed_def fixnum_wf_def)

lemma signed_ops_fixnum:
  "fixnum_add_signed u v = Some r \<Longrightarrow> is_fixnum v"
  "fixnum_multiply_signed u v = Some r \<Longrightarrow> is_fixnum v"
  "fixnum_divide_signed u v = Some r \<Longrightarrow> is_fixnum v"
  "sub_fixnum_step u v = Some r \<Longrightarrow> is_fixnum v"
  by (auto simp: fixnum_add_signed_def fixnum_multiply_signed_def fixnum_divide_signed_def sub_fixnum_step_def
      split: lval.splits if_splits)

lemma wf_fixnum: "wf_int v \<Longrightarrow> is_fixnum v \<Longrightarrow> \<exists>w. v = Imm w \<and> fixnum_wf w"
  by (cases v) (simp_all add: is_fixnum_def)

lemma small_needs:
  assumes "fixnum_wf a" "fixnum_wf b"
  shows "add_need (fixnum_int a) (fixnum_int b) \<le> LIMB_ARENA_LIMBS"
    "mul_need (fixnum_int a) (fixnum_int b) \<le> LIMB_ARENA_LIMBS"
  using fixnum_limb_count [OF assms(1)] fixnum_limb_count [OF assms(2)]
  by (simp_all add: add_need_def mul_need_def LIMB_ARENA_LIMBS_def)

interpretation add_fold: checked_fold fixnum_add_signed add_step "(+)" add_need
proof unfold_locales
  fix a v r assume "fixnum_wf a" "wf_int v" "fixnum_add_signed (Imm a) v = Some r"
  then show "fixnum_wf r \<and> fixnum_int r = fixnum_int a + ival v"
    using wf_fixnum [of v] signed_ops_fixnum(1) fixnum_add_unchecked_Some by fastforce
qed (simp_all add: add_step_correct signed_ops_fixnum small_needs)

interpretation mul_fold: checked_fold fixnum_multiply_signed mul_step "(*)" mul_need
proof unfold_locales
  fix a v r assume "fixnum_wf a" "wf_int v" "fixnum_multiply_signed (Imm a) v = Some r"
  then show "fixnum_wf r \<and> fixnum_int r = fixnum_int a * ival v"
    using wf_fixnum [of v] signed_ops_fixnum(2) fixnum_mul_unchecked_Some by fastforce
qed (simp_all add: mul_step_correct signed_ops_fixnum small_needs)

interpretation sub_fold: checked_fold sub_fixnum_step sub_step "(-)" add_need
proof unfold_locales
  fix a v r assume *: "fixnum_wf a" "wf_int v" "sub_fixnum_step (Imm a) v = Some r"
  then obtain w where w: "v = Imm w" "fixnum_wf w" using wf_fixnum [of v] signed_ops_fixnum(4) by blast
  then have "fixnum_add_signed_unchecked a (fixnum_negate w) = Some r"
    using * by (simp add: sub_fixnum_step_def fixnum_wf_def [of w] fixnum_negate_correct)
  then show "fixnum_wf r \<and> fixnum_int r = fixnum_int a - ival v"
    using fixnum_add_unchecked_Some [of a "fixnum_negate w" r] fixnum_negate_correct(2) [of w] w by simp
qed (simp_all add: sub_step_correct signed_ops_fixnum small_needs)

lemma fixnum_not_single: "w AND TAG_MASK = TAG_FIXNUM \<Longrightarrow> \<not> os_is_single_float w"
  by (simp add: os_is_single_float_def const_defs)

lemma wf_int_number:
  assumes "wf_int v"
  shows "is_number_val v" "float_kind_of v = 0" "\<not> is_float v"
  using assms
  by (cases v; simp add: is_number_val_def is_float_def float_kind_of_def is_bignum_def is_fixnum_def
      fixnum_wf_def fixnum_not_single)+

lemma args_wf_int:
  assumes "list_all wf_int args"
  shows "args_float_kind 0 args = 0" "first_non_number args = None"
  using assms by (induction args) (simp_all add: wf_int_number)

lemma fixnum_args:
  assumes "list_all is_fixnum args"
  shows "first_non_number args = None"
  using assms by (induction args) (simp_all add: is_number_val_def)

lemma fixnum_consts [simp]:
  "fixnum_wf (os_make_fixnum 0)" "fixnum_int (os_make_fixnum 0) = 0"
  "fixnum_wf (os_make_fixnum 1)" "fixnum_int (os_make_fixnum 1) = 1"
  using make_fixnum_signed(3,4) [of 0 False] make_fixnum_signed(3,4) [of 1 False]
  by (simp_all add: os_make_fixnum_def os_make_fixnum_signed_def)

lemma foldl_plus: "foldl (+) (a :: int) xs = a + sum_list xs"
  by (induction xs arbitrary: a) simp_all

lemma foldl_times: "foldl (*) (a :: int) xs = a * prod_list xs"
  by (induction xs arbitrary: a) (simp_all add: mult.assoc)

lemma foldl_minus: "foldl (-) (a :: int) xs = a - sum_list xs"
  by (induction xs arbitrary: a) simp_all

lemma add_int_result:
  assumes "list_all wf_int args"
  shows "arena_result (fold_fits add_need (+) 0 (map ival args)) (primitive_add fp args) (sum_list (map ival args))"
proof (cases "fixnum_fold fixnum_add_signed (os_make_fixnum 0) args")
  case None
  then show ?thesis
    using add_fold.general_fold_exact [of "Imm (os_make_fixnum 0)" args] assms
    by (simp add: primitive_add_def args_wf_int foldl_plus)
next
  case (Some r)
  then show ?thesis
    using add_fold.fixnum_fold_exact [of "os_make_fixnum 0" args r] assms
    by (auto simp: primitive_add_def args_wf_int foldl_plus arena_result_def)
qed

lemma multiply_int_result:
  assumes "list_all wf_int args"
  shows "arena_result (fold_fits mul_need (*) 1 (map ival args)) (primitive_multiply fp args) (prod_list (map ival args))"
proof (cases "fixnum_fold fixnum_multiply_signed (os_make_fixnum 1) args")
  case None
  then show ?thesis
    using mul_fold.general_fold_exact [of "Imm (os_make_fixnum 1)" args] assms
    by (simp add: primitive_multiply_def args_wf_int foldl_times)
next
  case (Some r)
  then show ?thesis
    using mul_fold.fixnum_fold_exact [of "os_make_fixnum 1" args r] assms
    by (auto simp: primitive_multiply_def args_wf_int foldl_times arena_result_def)
qed

lemma lcar_simps [simp]: "lcar [] = Nil" "lcar (v # vs) = v"
  by (simp_all add: lcar_def)

lemma negate_int_result:
  assumes "wf_int v"
  shows "int_result (primitive_subtract fp [v]) (- ival v)"
  using assms
proof (cases rule: wf_int_cases)
  case (1 w)
  then show ?thesis
    using fixnum_negate_correct [of w]
    by (auto simp: primitive_subtract_def Let_def float_kind_of_def fixnum_wf_def [of w] fixnum_not_single)
next
  case (2 s ls)
  then have "ls \<noteq> []" by auto
  then have "int_result (Inr (os_make_integer (\<not> s) ls)) (- ival v)"
    using 2 by (intro int_resultI) (auto simp: os_make_integer_wf sgn_mag_def)
  then show ?thesis
    using 2 wf_int_number [OF assms] by (simp add: primitive_subtract_def Let_def)
qed

lemma subtract_int_result:
  assumes "list_all wf_int (v # w # rest)"
  shows "arena_result (fold_fits add_need (-) (ival v) (map ival (w # rest)))
     (primitive_subtract fp (v # w # rest)) (ival v - sum_list (map ival (w # rest)))"
proof -
  let ?fast = "case v of Imm a \<Rightarrow> if a AND TAG_MASK = TAG_FIXNUM
      then fixnum_fold sub_fixnum_step a (w # rest) else None | _ \<Rightarrow> None"
  have e: "primitive_subtract fp (v # w # rest) =
      (case ?fast of Some r \<Rightarrow> Inr (Imm r) | None \<Rightarrow> general_fold sub_step v (w # rest))"
    unfolding primitive_subtract_def args_wf_int [OF assms]
    by (simp add: Let_def del: fixnum_fold.simps general_fold.simps cong: option.case_cong)
  show ?thesis
  proof (cases ?fast)
    case None
    then show ?thesis
      using sub_fold.general_fold_exact [of v "w # rest"] assms
      unfolding e foldl_minus by (simp del: general_fold.simps fold_fits.simps list.map)
  next
    case (Some r)
    then obtain a where a: "v = Imm a" "fixnum_wf a" "fixnum_fold sub_fixnum_step a (w # rest) = Some r"
      using assms by (auto split: lval.splits if_splits)
    have "list_all wf_int (w # rest)" using assms by simp
    from sub_fold.fixnum_fold_exact [OF a(2) this a(3)] show ?thesis
      unfolding e Some by (auto simp: a(1) foldl_minus arena_result_def)
  qed
qed

subsection \<open>Division\<close>

lemma trimmed_zero:
  assumes "limbs_ok ls" "ls \<noteq> []" "1 < length ls \<longrightarrow> last ls \<noteq> 0"
  shows "is_zero_mag ls \<longleftrightarrow> mag_val ls = 0"
proof (cases "length ls = 1")
  case True
  then obtain x where "ls = [x]" by (cases ls) auto
  then show ?thesis by (simp add: is_zero_mag_def unat_eq_zero)
next
  case False
  then have "1 < length ls" using assms(2) by (cases ls) auto
  then have "2 ^ (32 * (length ls - 1)) \<le> mag_val ls" using assms(2,3) by (intro mag_val_lower) simp_all
  then have "mag_val ls \<noteq> 0" by (metis le_zero_eq power_eq_0_iff zero_neq_numeral)
  then show ?thesis using False by (simp add: is_zero_mag_def)
qed

lemma decompose_zero:
  assumes "wf_int v" "decompose v = (s, ls)"
  shows "is_zero_mag ls \<longleftrightarrow> ival v = 0"
  using decompose_wf [OF assms] trimmed_zero [of ls] by (auto simp: sgn_mag_def)

fun int_quotient :: "int \<Rightarrow> int list \<Rightarrow> int option" where
  "int_quotient a [] = Some a"
| "int_quotient a (b # bs) = (if b = 0 then None else int_quotient (tdiv a b) bs)"

text \<open>
  The outcome of a left-to-right division: a zero divisor met before the arena is exhausted
  signals, and a round requests twice the limbs of its dividend.
\<close>

fun quotient_result :: "lval list \<Rightarrow> lval lres \<Rightarrow> int \<Rightarrow> int list \<Rightarrow> bool" where
  "quotient_result args r a [] = int_result r a"
| "quotient_result args r a (b # bs) =
     (if b = 0 then r = Inl (DivisionByZero ''/'' args)
      else if 2 * limb_count a \<le> LIMB_ARENA_LIMBS then quotient_result args r (tdiv a b) bs
      else r = Inl LimbArenaExhausted)"

lemma quotient_result_small:
  "limb_count a \<le> 2 \<Longrightarrow> int_quotient a bs = None \<Longrightarrow> quotient_result args (Inl (DivisionByZero ''/'' args)) a bs"
  "limb_count a \<le> 2 \<Longrightarrow> int_quotient a bs = Some i \<Longrightarrow> int_result r i \<Longrightarrow> quotient_result args r a bs"
proof -
  have s: "limb_count (tdiv a b) \<le> limb_count a" for a b
  proof (rule limb_count_mono)
    have "\<bar>a\<bar> div \<bar>b\<bar> \<le> \<bar>a\<bar>" using zdiv_mono2 [of "\<bar>a\<bar>" 1 "\<bar>b\<bar>"] by (cases "b = 0") simp_all
    then show "\<bar>tdiv a b\<bar> \<le> \<bar>a\<bar>" by (simp add: tdiv_def abs_mult abs_sgn_eq pos_imp_zdiv_nonneg_iff)
  qed
  note m = order.trans [OF s]
  show "limb_count a \<le> 2 \<Longrightarrow> int_quotient a bs = None \<Longrightarrow> quotient_result args (Inl (DivisionByZero ''/'' args)) a bs"
    by (induction bs arbitrary: a) (auto simp: LIMB_ARENA_LIMBS_def m)
  show "limb_count a \<le> 2 \<Longrightarrow> int_quotient a bs = Some i \<Longrightarrow> int_result r i \<Longrightarrow> quotient_result args r a bs"
    by (induction bs arbitrary: a) (auto simp: LIMB_ARENA_LIMBS_def m split: if_splits)
qed

lemma div_step_exact:
  assumes "wf_int u" "wf_int v" "decompose u = (sa, la)" "decompose v = (so, lo)" "ival v \<noteq> 0"
  shows "wf_int (os_make_integer (sa \<noteq> so) (fst (mag_divmod la lo)))"
    "ival (os_make_integer (sa \<noteq> so) (fst (mag_divmod la lo))) = tdiv (ival u) (ival v)"
proof -
  note wu = decompose_wf [OF assms(1,3)] and wv = decompose_wf [OF assms(2,4)]
  obtain q r where qr: "mag_divmod la lo = (q, r)" by fastforce
  have "mag_val lo \<noteq> 0" using assms(5) wv(3) by (metis sgn_mag_simps(1))
  note dv = mag_divmod_val [OF wu(1) wv(1) this qr]
  show "wf_int (os_make_integer (sa \<noteq> so) (fst (mag_divmod la lo)))"
    using dv(3,5) wu(2) by (simp add: qr os_make_integer_wf)
  show "ival (os_make_integer (sa \<noteq> so) (fst (mag_divmod la lo))) = tdiv (ival u) (ival v)"
    using dv(1,3,5) wu(2,3) wv(3) by (simp add: qr os_make_integer_wf tdiv_sgn_mag)
qed

lemma divide_general_exact:
  "wf_int u \<Longrightarrow> list_all wf_int vs \<Longrightarrow>
     quotient_result args (divide_general args u vs) (ival u) (map ival vs)"
proof (induction vs arbitrary: u)
  case Nil
  then show ?case by auto
next
  case (Cons v vs)
  obtain sa la so lo where d: "decompose u = (sa, la)" "decompose v = (so, lo)" by fastforce
  have v: "wf_int v" "list_all wf_int vs" using Cons.prems by simp_all
  have z: "(length lo = 1 \<and> lo ! 0 = 0) \<longleftrightarrow> ival v = 0"
    using decompose_zero [OF v(1) d(2)] by (simp add: is_zero_mag_def)
  show ?case
  proof (cases "ival v = 0")
    case True
    then show ?thesis using z by (simp add: d)
  next
    case False
    note s = div_step_exact [OF Cons.prems(1) v(1) d False]
    have nz: "\<not> (length lo = 1 \<and> lo ! 0 = 0)" using z False by simp
    have c: "length la = limb_count (ival u)" by (rule decompose_count [OF Cons.prems(1) d(1)])
    show ?thesis
      using Cons.IH [OF s(1) v(2)] False
      unfolding divide_general.simps d prod.case if_not_P [OF nz] s(2) by (simp add: lbind_alloc c mult_2)
  qed
qed

lemma divide_fixnum_loop_exact:
  "fixnum_wf a \<Longrightarrow> list_all wf_int vs \<Longrightarrow> divide_fixnum_loop a vs = Some r \<Longrightarrow>
     (case r of Inl _ \<Rightarrow> int_quotient (fixnum_int a) (map ival vs) = None
      | Inr q \<Rightarrow> fixnum_wf q \<and> int_quotient (fixnum_int a) (map ival vs) = Some (fixnum_int q))"
proof (induction vs arbitrary: a)
  case (Cons v vs)
  obtain w where w: "v = Imm w" "fixnum_wf w"
    using Cons.prems(2,3) by (cases v) (auto split: if_splits)
  have t: "w AND TAG_MASK = TAG_FIXNUM" using w(2) by (simp add: fixnum_wf_def)
  show ?case
  proof (cases "fixnum_divide_signed_unchecked a w")
    case None
    then have "r = Inl ()" using Cons.prems(3) t by (simp add: w(1))
    then show ?thesis using None by (simp add: w(1) fixnum_div_unchecked_None)
  next
    case (Some q)
    then have "divide_fixnum_loop q vs = Some r" using Cons.prems(3) t by (simp add: w(1))
    then show ?thesis
      using Cons.IH [of q] Cons.prems(2) fixnum_div_unchecked [OF Some] by (cases r) (simp_all add: w(1))
  qed
qed auto

lemma divide_int_result:
  assumes "list_all wf_int (v # rest)"
  shows "quotient_result (v # rest) (primitive_divide fp (v # rest)) (ival v) (map ival rest)"
proof -
  let ?fast = "case v of Imm a \<Rightarrow> if a AND TAG_MASK = TAG_FIXNUM
      then divide_fixnum_loop a rest else None | _ \<Rightarrow> None"
  have e: "primitive_divide fp (v # rest) =
      (case ?fast of Some (Inr q) \<Rightarrow> Inr (Imm q) | Some (Inl _) \<Rightarrow> Inl (DivisionByZero ''/'' (v # rest))
       | None \<Rightarrow> divide_general (v # rest) v rest)"
    unfolding primitive_divide_def args_wf_int [OF assms]
    by (simp add: Let_def cong: option.case_cong)
  show ?thesis
  proof (cases ?fast)
    case None
    then show ?thesis using divide_general_exact [of v rest] assms unfolding e by simp
  next
    case (Some r)
    then obtain a where a: "v = Imm a" "fixnum_wf a" "divide_fixnum_loop a rest = Some r"
      using assms by (auto split: lval.splits if_splits)
    have "list_all wf_int rest" using assms by simp
    from divide_fixnum_loop_exact [OF a(2) this a(3)] show ?thesis
      using fixnum_limb_count [OF a(2)]
      unfolding e Some by (cases r) (auto simp: a(1) intro!: quotient_result_small)
  qed
qed

subsection \<open>Comparison is the order of the integers\<close>

lemma fixnum_compare3_sgn:
  assumes "fixnum_wf a" "fixnum_wf b"
  shows "fixnum_compare3 a b = sgn (fixnum_int a - fixnum_int b)"
proof -
  have a: "os_fixnum_is_negative a \<longleftrightarrow> fixnum_int a < 0" and b: "os_fixnum_is_negative b \<longleftrightarrow> fixnum_int b < 0"
    using fixnum_int_sign(1) assms by blast+
  have m: "os_fixnum_magnitude a < os_fixnum_magnitude b \<longleftrightarrow> \<bar>fixnum_int a\<bar> < \<bar>fixnum_int b\<bar>"
    "os_fixnum_magnitude b < os_fixnum_magnitude a \<longleftrightarrow> \<bar>fixnum_int b\<bar> < \<bar>fixnum_int a\<bar>"
    unfolding word_less_def using fixnum_int_sign(2) assms by simp_all
  show ?thesis
    unfolding fixnum_compare3_def Let_def a b m by (auto simp: sgn_if)
qed

lemma cmp_of_int_sgn: "cmp_of_int (sgn i) = cmp_of_int i"
  by (simp add: cmp_of_int_def sgn_if)

lemma number_compare4_int:
  assumes "wf_int a" "wf_int b"
  shows "number_compare4 fp a b = cmp_of_int (ival a - ival b)"
proof -
  obtain sa la sb lb where d: "decompose a = (sa, la)" "decompose b = (sb, lb)" by fastforce
  note wa = decompose_wf [OF assms(1) d(1)] and wb = decompose_wf [OF assms(2) d(2)]
  let ?mags = "if sa \<noteq> sb then (if sa then NUM_CMP_LESS else NUM_CMP_GREATER)
               else cmp_of_int (if sa then - mag_compare la lb else mag_compare la lb)"
  have mags: "?mags = cmp_of_int (ival a - ival b)"
    using wa wb mag_compare_sgn [of la lb]
    by (auto simp: cmp_of_int_def sgn_mag_def sgn_if)
  show ?thesis
  proof (cases "\<exists>x y. a = Imm x \<and> b = Imm y")
    case True
    then obtain x y where xy: "a = Imm x" "b = Imm y" by blast
    then have "fixnum_wf x" "fixnum_wf y" using assms by simp_all
    then show ?thesis
      using wf_int_number [OF assms(1)] wf_int_number [OF assms(2)] fixnum_compare3_sgn [of x y]
      by (simp add: number_compare4_def xy cmp_of_int_sgn fixnum_wf_def)
  next
    case False
    then have "number_compare4 fp a b = ?mags"
      using wf_int_number [OF assms(1)] wf_int_number [OF assms(2)] assms d
      by (cases a; cases b) (simp_all add: number_compare4_def Let_def)
    then show ?thesis using mags by simp
  qed
qed

lemma num_preds_int:
  assumes "wf_int a" "wf_int b"
  shows "num_lt fp a b \<longleftrightarrow> ival a < ival b" "num_gt fp a b \<longleftrightarrow> ival b < ival a"
    "num_eq fp a b \<longleftrightarrow> ival a = ival b" "num_le fp a b \<longleftrightarrow> ival a \<le> ival b"
    "num_ge fp a b \<longleftrightarrow> ival b \<le> ival a" "number_compare4 fp a b \<noteq> NUM_CMP_NOT_NUMBER"
  by (auto simp: num_lt_def num_gt_def num_eq_def num_le_def num_ge_def number_compare4_int [OF assms]
      cmp_of_int_def Let_def split: if_splits)

text \<open>One contract covers the six chains: the predicate they test decides a relation of the integers.\<close>

locale int_predicate =
  fixes holds :: "lval \<Rightarrow> lval \<Rightarrow> bool" and rel :: "int \<Rightarrow> int \<Rightarrow> bool" and fp :: fpu
  assumes holds_iff: "wf_int a \<Longrightarrow> wf_int b \<Longrightarrow> holds a b \<longleftrightarrow> rel (ival a) (ival b)"
begin

lemma chain:
  "list_all wf_int args \<Longrightarrow>
     compare_chain fp holds args = Inr (lisp_bool (successively rel (map ival args)))"
  by (induction args rule: induct_list012) (simp_all add: holds_iff num_preds_int lisp_bool_def)

lemma pair:
  "wf_int a \<Longrightarrow> wf_int b \<Longrightarrow> compare2_slow fp holds a b = Inr (lisp_bool (rel (ival a) (ival b)))"
  by (simp add: compare2_slow_def holds_iff num_preds_int lisp_bool_def)

end

interpretation lt: int_predicate "num_lt fp" "(<)" fp for fp
  by unfold_locales (rule num_preds_int)
interpretation gt: int_predicate "num_gt fp" "(>)" fp for fp
  by unfold_locales (simp add: num_preds_int)
interpretation eq: int_predicate "num_eq fp" "(=)" fp for fp
  by unfold_locales (rule num_preds_int)
interpretation le: int_predicate "num_le fp" "(\<le>)" fp for fp
  by unfold_locales (rule num_preds_int)
interpretation ge: int_predicate "num_ge fp" "(\<ge>)" fp for fp
  by unfold_locales (simp add: num_preds_int)

lemma num_not_equal_int:
  "list_all wf_int args \<Longrightarrow>
     primitive_num_not_equal fp args = Inr (lisp_bool (successively (\<noteq>) (map ival args)))"
  by (induction fp args rule: primitive_num_not_equal.induct)
    (auto simp: number_compare4_int cmp_of_int_def lisp_bool_def Let_def)

subsection \<open>Maximum and minimum\<close>

lemma max_loop_int:
  "wf_int best \<Longrightarrow> list_all wf_int vs \<Longrightarrow>
     \<exists>m. max_loop fp best vs = Inr m \<and> m \<in> set (best # vs) \<and> (\<forall>x\<in>set (best # vs). ival x \<le> ival m)"
proof (induction vs arbitrary: best)
  case Nil
  then show ?case by (simp add: wf_int_number)
next
  case (Cons v vs)
  then have w: "wf_int v" "list_all wf_int vs" by simp_all
  show ?case
    using Cons.IH [OF w] Cons.IH [OF Cons.prems(1) w(2)] num_preds_int [OF w(1) Cons.prems(1)]
    by (cases "ival best < ival v") (auto intro: order.trans less_imp_le)
qed

lemma min_loop_int:
  "wf_int best \<Longrightarrow> list_all wf_int vs \<Longrightarrow>
     \<exists>m. min_loop fp best vs = Inr m \<and> m \<in> set (best # vs) \<and> (\<forall>x\<in>set (best # vs). ival m \<le> ival x)"
proof (induction vs arbitrary: best)
  case Nil
  then show ?case by (simp add: wf_int_number)
next
  case (Cons v vs)
  then have w: "wf_int v" "list_all wf_int vs" by simp_all
  show ?case
    using Cons.IH [OF w] Cons.IH [OF Cons.prems(1) w(2)] num_preds_int [OF w(1) Cons.prems(1)]
    by (cases "ival v < ival best") (auto intro: order.trans less_imp_le)
qed

subsection \<open>Floor division\<close>

lemma floor_div_cases:
  assumes "n \<noteq> 0"
  shows "m mod n = 0 \<Longrightarrow> sgn_mag s m div sgn_mag t n = sgn_mag (s \<noteq> t) (m div n)"
    "m mod n = 0 \<Longrightarrow> sgn_mag s m mod sgn_mag t n = 0"
    "sgn_mag s m div sgn_mag s n = int (m div n)"
    "sgn_mag s m mod sgn_mag s n = sgn_mag s (m mod n)"
    "m mod n \<noteq> 0 \<Longrightarrow> s \<noteq> t \<Longrightarrow> sgn_mag s m div sgn_mag t n = - int (m div n + 1)"
    "m mod n \<noteq> 0 \<Longrightarrow> s \<noteq> t \<Longrightarrow> sgn_mag s m mod sgn_mag t n = sgn_mag t (n - m mod n)"
proof -
  have z: "m mod n = 0 \<longleftrightarrow> int m mod int n = 0" by (simp flip: of_nat_mod)
  have le: "m mod n \<le> n" using assms by simp
  show "m mod n = 0 \<Longrightarrow> sgn_mag s m div sgn_mag t n = sgn_mag (s \<noteq> t) (m div n)"
    by (cases s; cases t) (use z assms in \<open>simp_all add: zdiv_int zdiv_zminus1_eq_if zdiv_zminus2_eq_if\<close>)
  show "m mod n = 0 \<Longrightarrow> sgn_mag s m mod sgn_mag t n = 0"
    by (cases s; cases t) (use z in \<open>simp_all add: zmod_zminus1_eq_if zmod_zminus2_eq_if\<close>)
  show "sgn_mag s m div sgn_mag s n = int (m div n)" by (cases s) (simp_all add: zdiv_int)
  show "sgn_mag s m mod sgn_mag s n = sgn_mag s (m mod n)" by (cases s) (simp_all add: zmod_int)
  show "m mod n \<noteq> 0 \<Longrightarrow> s \<noteq> t \<Longrightarrow> sgn_mag s m div sgn_mag t n = - int (m div n + 1)"
    by (cases s; cases t) (use z assms in \<open>simp_all add: zdiv_int zdiv_zminus1_eq_if zdiv_zminus2_eq_if\<close>)
  show "m mod n \<noteq> 0 \<Longrightarrow> s \<noteq> t \<Longrightarrow> sgn_mag s m mod sgn_mag t n = sgn_mag t (n - m mod n)"
    by (cases s; cases t) (use z assms le in \<open>simp_all add: zmod_int zmod_zminus1_eq_if zmod_zminus2_eq_if\<close>)
qed

lemma decompose_make:
  assumes "limbs_ok ls" "ls \<noteq> []"
  shows "limbs_ok (snd (decompose (os_make_integer False ls)))" "snd (decompose (os_make_integer False ls)) \<noteq> []"
    "mag_val (snd (decompose (os_make_integer False ls))) = mag_val ls"
proof -
  obtain s l where d: "decompose (os_make_integer False ls) = (s, l)" by fastforce
  note w = decompose_wf [OF os_make_integer_wf(1) [OF assms] d]
  have "\<bar>sgn_mag s (mag_val l)\<bar> = \<bar>sgn_mag False (mag_val ls)\<bar>"
    using w(3) os_make_integer_wf(2) [OF assms, of False] by simp
  then show "limbs_ok (snd (decompose (os_make_integer False ls)))" "snd (decompose (os_make_integer False ls)) \<noteq> []"
    "mag_val (snd (decompose (os_make_integer False ls))) = mag_val ls"
    using w by (simp_all add: d)
qed

text \<open>The magnitudes \<open>mag_divmod\<close> returns are trimmed, so the zero test of the code is exact.\<close>

lemma mag_divmod_trimmed:
  "mag_divmod a b = (q, r) \<Longrightarrow> 1 < length r \<longrightarrow> last r \<noteq> 0"
  using mag_trim_last by (auto simp: mag_divmod_def Let_def split: prod.splits)

lemma is_bignum_iff: "wf_int v \<Longrightarrow> is_bignum v \<longleftrightarrow> 2 ^ 59 \<le> \<bar>ival v\<bar>"
proof (erule wf_int_cases)
  fix w assume "v = Imm w" "fixnum_wf w"
  then show ?thesis using fixnum_int_bound [of w] by (simp add: is_bignum_def)
next
  fix s ls assume v: "v = Bignum s ls" "2 ^ 59 \<le> mag_val ls"
  then have "int (2 ^ 59) \<le> int (mag_val ls)" by (simp only: of_nat_le_iff)
  then show ?thesis using v(1) by (simp add: is_bignum_def)
qed

text \<open>
  The limbs \<open>floor_divmod\<close> takes from the arena, and the quotients it leaves unprotected:
  those of an inexact division of operands of the same sign, when quotient and remainder are
  both too big for a fixnum.
\<close>

definition floor_need :: "int \<Rightarrow> int \<Rightarrow> nat" where
  "floor_need a b = 2 * limb_count a +
     (if a mod b \<noteq> 0 \<and> (a < 0) \<noteq> (b < 0) then limb_count (tdiv a b) + 1 + limb_count b else 0)"

definition floor_exposed :: "int \<Rightarrow> int \<Rightarrow> bool" where
  "floor_exposed a b \<longleftrightarrow> a mod b \<noteq> 0 \<and> (a < 0) = (b < 0) \<and> 2 ^ 59 \<le> a div b \<and> 2 ^ 59 \<le> \<bar>a mod b\<bar>"

lemma floor_divmod_int:
  assumes "wf_int z1" "wf_int z2" "ival z2 \<noteq> 0"
  shows "if floor_need (ival z1) (ival z2) \<le> LIMB_ARENA_LIMBS
    then \<exists>q m. floor_divmod z1 z2 =
             Inr (Some (if floor_exposed (ival z1) (ival z2) then Unprotected q else Kept q, m)) \<and>
           wf_int q \<and> wf_int m \<and> ival q = ival z1 div ival z2 \<and> ival m = ival z1 mod ival z2
    else floor_divmod z1 z2 = Inl LimbArenaExhausted"
proof -
  obtain s1 l1 s2 l2 where d: "decompose z1 = (s1, l1)" "decompose z2 = (s2, l2)" by fastforce
  obtain quot rm where qr: "mag_divmod l1 l2 = (quot, rm)" by fastforce
  note w1 = decompose_wf [OF assms(1) d(1)] and w2 = decompose_wf [OF assms(2) d(2)]
  note c = decompose_count [OF assms(1) d(1)] decompose_count [OF assms(2) d(2)]
  note sg = sgn_ival [OF assms(1) d(1)] sgn_ival [OF assms(2) d(2)]
  have nz: "mag_val l2 \<noteq> 0" using assms(3) w2(3) by (metis sgn_mag_simps(1))
  note dv = mag_divmod_val [OF w1(1) w2(1) nz qr]
  have ne: "quot \<noteq> []" "rm \<noteq> []" using dv(5,6) w1(2) by simp_all
  have z2: "\<not> is_zero_mag l2" using decompose_zero [OF assms(2) d(2)] assms(3) by simp
  have zr: "is_zero_mag rm \<longleftrightarrow> mag_val l1 mod mag_val l2 = 0"
    using trimmed_zero [OF dv(4) ne(2) mag_divmod_trimmed [OF qr]] dv(2) by simp
  define mq mr where "mq = snd (decompose (os_make_integer False quot))"
    and "mr = snd (decompose (os_make_integer False rm))"
  note mq = decompose_make [OF dv(3) ne(1), folded mq_def]
    and mr = decompose_make [OF dv(4) ne(2), folded mr_def]
  have cq: "length mq = limb_count (tdiv (ival z1) (ival z2))"
  proof -
    have "length mq = limb_count (ival (os_make_integer False quot))"
      unfolding mq_def by (rule decompose_count [OF os_make_integer_wf(1) [OF dv(3) ne(1)] surjective_pairing])
    also have "\<bar>ival (os_make_integer False quot)\<bar> = \<bar>tdiv (ival z1) (ival z2)\<bar>"
      unfolding w1(3) w2(3) by (simp add: os_make_integer_wf(2) [OF dv(3) ne(1)] dv(1) tdiv_sgn_mag)
    then have "limb_count (ival (os_make_integer False quot)) = limb_count (tdiv (ival z1) (ival z2))"
      by (metis limb_count_abs)
    finally show ?thesis .
  qed
  note fc = floor_div_cases [OF nz, where m = "mag_val l1"]
  have e: "floor_divmod z1 z2 =
     (if 2 * limb_count (ival z1) \<le> LIMB_ARENA_LIMBS
      then if is_zero_mag rm then Inr (Some (Kept (os_make_integer (s1 \<noteq> s2) quot), Imm (os_make_fixnum 0)))
           else if s1 = s2 then Inr (Some (across_allocation (os_make_integer False mq) (os_make_integer s2 mr),
                                           os_make_integer s2 mr))
           else if 2 * limb_count (ival z1) + length mq + 1 + length l2 \<le> LIMB_ARENA_LIMBS
                then Inr (Some (Kept (os_make_integer True (mag_add mq [1])), os_make_integer s2 (mag_sub l2 mr)))
                else Inl LimbArenaExhausted
      else Inl LimbArenaExhausted)"
    using z2 by (simp add: floor_divmod_def d qr mq_def mr_def Let_def lbind_alloc c(1) mult_2)
  consider (exact) "mag_val l1 mod mag_val l2 = 0"
    | (same) "mag_val l1 mod mag_val l2 \<noteq> 0" "s1 = s2"
    | (diff) "mag_val l1 mod mag_val l2 \<noteq> 0" "s1 \<noteq> s2" by blast
  then show ?thesis
  proof cases
    case exact
    have m0: "ival z1 mod ival z2 = 0" using fc(2) [OF exact] unfolding w1(3) w2(3) .
    have n: "floor_need (ival z1) (ival z2) = 2 * limb_count (ival z1)" "\<not> floor_exposed (ival z1) (ival z2)"
      using m0 by (simp_all add: floor_need_def floor_exposed_def)
    have "ival (os_make_integer (s1 \<noteq> s2) quot) = ival z1 div ival z2"
      using os_make_integer_wf(2) [OF dv(3) ne(1), of "s1 \<noteq> s2"] fc(1) [OF exact] unfolding w1(3) w2(3) dv(1) by simp
    then show ?thesis
      using os_make_integer_wf(1) [OF dv(3) ne(1), of "s1 \<noteq> s2"] exact m0 n(2)
      unfolding e n(1) zr by simp
  next
    case same
    define q m where "q = os_make_integer False mq" and "m = os_make_integer s2 mr"
    have q: "wf_int q" "ival q = ival z1 div ival z2"
      using os_make_integer_wf [OF mq(1,2), of False] fc(3) [where s = s2] same(2)
      unfolding q_def w1(3) w2(3) mq(3) dv(1) by simp_all
    have m: "wf_int m" "ival m = ival z1 mod ival z2"
      using os_make_integer_wf [OF mr(1,2), of s2] fc(4) [where s = s2] same(2)
      unfolding m_def w1(3) w2(3) mr(3) dv(2) by simp_all
    have m0: "ival z1 mod ival z2 \<noteq> 0"
      using fc(4) [where s = s2] same unfolding w1(3) w2(3) by (simp add: sgn_mag_def)
    have "0 \<le> ival z1 div ival z2" using fc(3) [where s = s2] same(2) unfolding w1(3) w2(3) by simp
    then have x: "across_allocation q m = (if floor_exposed (ival z1) (ival z2) then Unprotected q else Kept q)"
      using is_bignum_iff [OF q(1)] is_bignum_iff [OF m(1)] m0 sg same(2)
      by (simp add: across_allocation_def floor_exposed_def q(2) m(2))
    have n: "floor_need (ival z1) (ival z2) = 2 * limb_count (ival z1)"
      using sg same(2) by (simp add: floor_need_def)
    show ?thesis
      using q m same unfolding e n zr by (simp add: q_def [symmetric] m_def [symmetric] x)
  next
    case diff
    have a: "limbs_ok (mag_add mq [1])" "mag_val (mag_add mq [1]) = mag_val l1 div mag_val l2 + 1"
      using mag_add_val [of mq "[1]"] mq(1) unfolding mq(3) dv(1) by simp_all
    have "mag_val mr \<le> mag_val l2" unfolding mr(3) dv(2) using nz by simp
    note b = mag_sub_val [OF w2(1) mr(1) this]
    define q m where "q = os_make_integer True (mag_add mq [1])" and "m = os_make_integer s2 (mag_sub l2 mr)"
    have q: "wf_int q" "ival q = ival z1 div ival z2"
      using os_make_integer_wf [OF a(1), of True] fc(5) [OF diff(1,2)]
      unfolding q_def w1(3) w2(3) a(2) by simp_all
    have m: "wf_int m" "ival m = ival z1 mod ival z2"
      using os_make_integer_wf [OF b(2), of s2] w2(2) fc(6) [OF diff(1,2)]
      unfolding m_def w1(3) w2(3) b(1) mr(3) dv(2) by simp_all
    have "mag_val l1 mod mag_val l2 < mag_val l2" using nz by simp
    then have m0: "ival z1 mod ival z2 \<noteq> 0"
      using fc(6) [OF diff(1,2)] unfolding w1(3) w2(3) by (simp add: sgn_mag_def)
    then have n: "floor_need (ival z1) (ival z2) = 2 * limb_count (ival z1) + length mq + 1 + length l2"
      "\<not> floor_exposed (ival z1) (ival z2)"
      using sg diff(2) by (simp_all add: floor_need_def floor_exposed_def cq c(2))
    show ?thesis
      using q m diff n(2) unfolding e n(1) zr by (simp add: q_def [symmetric] m_def [symmetric])
  qed
qed

lemma floor_divmod_zero:
  "wf_int z2 \<Longrightarrow> ival z2 = 0 \<Longrightarrow> floor_divmod z1 z2 = Inr None"
  using decompose_zero [of z2] by (auto simp: floor_divmod_def split: prod.splits)

subsection \<open>Greatest common divisor\<close>

lemma decompose_nonneg:
  assumes "wf_int v" "0 \<le> ival v"
  shows "limbs_ok (snd (decompose v))" "snd (decompose v) \<noteq> []"
    "int (mag_val (snd (decompose v))) = ival v"
  using decompose_wf [OF assms(1), of "fst (decompose v)" "snd (decompose v)"] assms(2)
    sgn_ival [OF assms(1), of "fst (decompose v)" "snd (decompose v)"]
  by simp_all

lemma gcd_loop_int:
  "wf_int a \<Longrightarrow> wf_int b \<Longrightarrow> 0 \<le> ival a \<Longrightarrow> 0 \<le> ival b \<Longrightarrow>
     used + 2 * limb_count (ival a) \<le> LIMB_ARENA_LIMBS \<Longrightarrow> used + 2 * limb_count (ival b) \<le> LIMB_ARENA_LIMBS \<Longrightarrow>
     \<exists>g. gcd_loop used a b = Some (Inr g) \<and> wf_int g \<and> ival g = gcd (ival a) (ival b)"
proof (induction "nat (ival b)" arbitrary: a b rule: less_induct)
  case less
  let ?la = "snd (decompose a)" and ?lb = "snd (decompose b)"
  note a = decompose_nonneg [OF less.prems(1,3)] and b = decompose_nonneg [OF less.prems(2,4)]
  have z: "is_zero_mag ?lb \<longleftrightarrow> ival b = 0"
    using decompose_zero [OF less.prems(2), of "fst (decompose b)" ?lb] by simp
  show ?case
  proof (cases "ival b = 0")
    case True
    then have "gcd_loop used a b = Some (Inr a)" using z by (subst gcd_loop.simps) simp
    then show ?thesis using True less.prems by simp
  next
    case False
    obtain q r where qr: "mag_divmod ?la ?lb = (q, r)" by fastforce
    have "mag_val ?lb \<noteq> 0" using False b(3) by simp
    note dv = mag_divmod_val [OF a(1) b(1) this qr]
    note w = os_make_integer_wf [OF dv(4) dv(6) [OF a(2)], of False]
    have v: "ival (os_make_integer False r) = ival a mod ival b"
      using w(2) a(3) b(3) dv(2) by (simp add: zmod_int)
    have pos: "0 < ival b" using False less.prems(4) by simp
    have "limb_count (ival a mod ival b) \<le> limb_count (ival b)"
      using pos by (intro limb_count_mono) (simp add: less_imp_le)
    then have "\<exists>g. gcd_loop used b (os_make_integer False r) = Some (Inr g) \<and> wf_int g \<and>
        ival g = gcd (ival b) (ival (os_make_integer False r))"
      by (intro less.hyps) (use w(1) less.prems pos in \<open>simp_all add: v\<close>)
    moreover have "used + length ?la + length ?la \<le> LIMB_ARENA_LIMBS"
      using less.prems(5) decompose_count [OF less.prems(1) surjective_pairing] by simp
    then have "gcd_loop used a b = gcd_loop used b (os_make_integer False r)"
      using z False by (subst gcd_loop.simps) (simp add: qr lbind_alloc limb_alloc_def)
    ultimately show ?thesis by (simp add: v gcd_red_int [symmetric])
  qed
qed

lemma abs_value:
  assumes "wf_int v"
  shows "wf_int (os_make_integer False (snd (decompose v)))"
    "ival (os_make_integer False (snd (decompose v))) = \<bar>ival v\<bar>"
  using decompose_wf [OF assms, of "fst (decompose v)" "snd (decompose v)"]
  by (simp_all add: os_make_integer_wf)

lemma mag_gcd_int:
  assumes "wf_int a" "wf_int b" "3 * (limb_count (ival a) + limb_count (ival b)) \<le> LIMB_ARENA_LIMBS"
  shows "\<exists>g. mag_gcd a b = Some (Inr g) \<and> wf_int g \<and> ival g = gcd (ival a) (ival b)"
proof -
  note c = decompose_count [OF assms(1) surjective_pairing] decompose_count [OF assms(2) surjective_pairing]
  show ?thesis
    using gcd_loop_int [OF abs_value(1) [OF assms(1)] abs_value(1) [OF assms(2)],
        of "limb_count (ival a) + limb_count (ival b)"] abs_value(2) assms
    by (simp add: mag_gcd_def Let_def lbind_alloc limb_alloc_def c)
qed

lemma limb_count_mult: "limb_count (a * b) \<le> limb_count a + limb_count b"
proof -
  have "\<bar>a\<bar> < 2 ^ (32 * limb_count a)" "\<bar>b\<bar> < 2 ^ (32 * limb_count b)"
    using limb_count_le_iff [OF limb_count_pos, of a a] limb_count_le_iff [OF limb_count_pos, of b b] by simp_all
  then have "\<bar>a\<bar> * \<bar>b\<bar> < 2 ^ (32 * limb_count a) * 2 ^ (32 * limb_count b)" by (intro mult_strict_mono') simp_all
  then have "\<bar>a * b\<bar> < 2 ^ (32 * (limb_count a + limb_count b))" by (simp add: abs_mult power_add distrib_left)
  then show ?thesis using limb_count_le_iff [of "limb_count a + limb_count b" "a * b"] limb_count_pos [of a] by simp
qed

lemma lcm_int_result:
  assumes "wf_int a" "wf_int b" "3 * (limb_count (ival a) + limb_count (ival b)) \<le> LIMB_ARENA_LIMBS"
  shows "\<exists>l. primitive_lcm [a, b] = Some (Inr l) \<and> wf_int l \<and> ival l = lcm (ival a) (ival b)"
proof -
  obtain g where g: "mag_gcd a b = Some (Inr g)" "wf_int g" "ival g = gcd (ival a) (ival b)"
    using mag_gcd_int [OF assms] by blast
  let ?lg = "snd (decompose g)" and ?p = "mag_mul (snd (decompose a)) (snd (decompose b))"
  have "0 \<le> ival g" by (simp add: g(3))
  note lg = decompose_nonneg [OF g(2) this]
  have z: "is_zero_mag ?lg \<longleftrightarrow> ival g = 0"
    using decompose_zero [OF g(2), of "fst (decompose g)" ?lg] by simp
  show ?thesis
  proof (cases "ival g = 0")
    case True
    then have "ival a = 0" "ival b = 0" using g(3) by auto
    then show ?thesis using True z g(1) by (simp add: primitive_lcm_def)
  next
    case False
    have da: "limbs_ok (snd (decompose a))" "snd (decompose a) \<noteq> []"
      "int (mag_val (snd (decompose a))) = \<bar>ival a\<bar>"
      and db: "limbs_ok (snd (decompose b))" "int (mag_val (snd (decompose b))) = \<bar>ival b\<bar>"
      using decompose_wf [OF assms(1), of "fst (decompose a)" "snd (decompose a)"]
        decompose_wf [OF assms(2), of "fst (decompose b)" "snd (decompose b)"] by simp_all
    have p: "limbs_ok ?p" "?p \<noteq> []" "mag_val ?p = mag_val (snd (decompose a)) * mag_val (snd (decompose b))"
      using mag_mul_val [OF da(1) db(1)] mag_mul_nonempty [OF da(1) db(1) da(2)] by simp_all
    let ?lp = "snd (decompose (os_make_integer False ?p))"
    note lp = decompose_make [OF p(1,2)]
    note c = decompose_count [OF assms(1) surjective_pairing] decompose_count [OF assms(2) surjective_pairing]
    have "limb_count (ival (os_make_integer False ?p)) = limb_count (ival a * ival b)"
      using os_make_integer_wf(2) [OF p(1,2), of False] da(3) db(2) p(3)
      by (metis abs_mult limb_count_abs of_nat_mult sgn_mag_simps(2))
    then have "length ?lp \<le> limb_count (ival a) + limb_count (ival b)"
      using decompose_count [OF os_make_integer_wf(1) [OF p(1,2)] surjective_pairing, of False] limb_count_mult by simp
    then have fit: "limb_count (ival a) + limb_count (ival b) + length ?lp + length ?lp \<le> LIMB_ARENA_LIMBS"
      using assms(3) by simp
    obtain q r where qr: "mag_divmod ?lp ?lg = (q, r)" by fastforce
    have "mag_val ?lg \<noteq> 0" using False lg(3) by simp
    note dv = mag_divmod_val [OF lp(1) lg(1) this qr]
    have "primitive_lcm [a, b] = Some (Inr (os_make_integer False q))"
      using False z qr fit by (simp add: primitive_lcm_def g(1) Let_def lbind_alloc c)
    moreover have "int (mag_val q) = lcm (ival a) (ival b)"
      using lg(3) da(3) db(2) g(3) by (simp add: dv(1) lp(3) p(3) zdiv_int lcm_altdef_int)
    ultimately show ?thesis
      using os_make_integer_wf [OF dv(3) dv(5) [OF lp(2)], of False] by simp
  qed
qed

subsection \<open>Integer square root\<close>

definition is_isqrt :: "nat \<Rightarrow> nat \<Rightarrow> bool" where
  "is_isqrt n r \<longleftrightarrow> r * r \<le> n \<and> n < (r + 1) * (r + 1)"

lemma newton_upper:
  assumes "0 < (x :: nat)"
  shows "n < ((x + n div x) div 2 + 1) * ((x + n div x) div 2 + 1)"
proof -
  define q where "q = n div x"
  define y where "y = (x + q) div 2"
  have "n < x * (q + 1)"
    using assms by (simp add: q_def) (metis dividend_less_div_times mult.commute)
  moreover have "x + (q + 1) \<le> 2 * (y + 1)" unfolding y_def by presburger
  then have "(x + (q + 1)) * (x + (q + 1)) \<le> (2 * (y + 1)) * (2 * (y + 1))" by (intro mult_le_mono)
  moreover have "4 * (x * (q + 1)) \<le> (x + (q + 1)) * (x + (q + 1))"
  proof -
    have "0 \<le> (int x - int (q + 1)) * (int x - int (q + 1))" by simp
    then have "int (4 * (x * (q + 1))) \<le> int ((x + (q + 1)) * (x + (q + 1)))"
      by (simp add: algebra_simps)
    then show ?thesis by (simp only: of_nat_le_iff)
  qed
  ultimately have "4 * n < 4 * ((y + 1) * (y + 1))" by (simp add: algebra_simps)
  then show ?thesis by (simp add: y_def q_def)
qed

lemma newton_stop:
  assumes "0 < (x :: nat)" "x \<le> (x + n div x) div 2"
  shows "x * x \<le> n"
proof -
  have "2 * x \<le> x + n div x" using assms(2) by (simp add: less_eq_div_iff_mult_less_eq mult.commute)
  then have "x \<le> n div x" by simp
  then have "x * x \<le> (n div x) * x" by (intro mult_le_mono1)
  then show ?thesis by (rule order.trans) (rule div_times_less_eq_dividend)
qed

definition half :: "u64 list \<Rightarrow> lval" where
  "half ls = os_make_integer False (fst (mag_divmod_small ls 2))"

lemma half_int:
  assumes "limbs_ok ls" "ls \<noteq> []"
  shows "wf_int (half ls)" "ival (half ls) = int (mag_val ls div 2)"
proof -
  obtain q r where qr: "mag_divmod_small ls 2 = (q, r)" by fastforce
  have "mag_val q = mag_val ls div 2" "limbs_ok q" "q \<noteq> []"
    using mag_divmod_small_val [OF assms(1) _ _ qr] assms(2) by simp_all
  then show "wf_int (half ls)" "ival (half ls) = int (mag_val ls div 2)"
    by (simp_all add: half_def qr os_make_integer_wf)
qed

lemma isqrt_loop_int:
  assumes n: "wf_int n" "0 < ival n"
  and used: "used + 3 * limb_count (ival n) + 1 \<le> LIMB_ARENA_LIMBS"
  shows "wf_int x \<Longrightarrow> wf_int y \<Longrightarrow> 0 < ival x \<Longrightarrow> ival x \<le> ival n \<Longrightarrow>
     nat (ival n) < (nat (ival x) + 1) * (nat (ival x) + 1) \<Longrightarrow>
     nat (ival y) = (nat (ival x) + nat (ival n) div nat (ival x)) div 2 \<Longrightarrow> 0 \<le> ival y \<Longrightarrow>
     \<exists>r. isqrt_loop used n x y = Some (Inr r) \<and> wf_int r \<and> 0 \<le> ival r \<and> is_isqrt (nat (ival n)) (nat (ival r))"
proof (induction "nat (ival x)" arbitrary: x y rule: less_induct)
  case less
  let ?n = "nat (ival n)"
  note dx = decompose_nonneg [OF less.prems(1) less_imp_le [OF less.prems(3)]]
    and dy = decompose_nonneg [OF less.prems(2) less.prems(7)]
    and dn = decompose_nonneg [OF n(1) less_imp_le [OF n(2)]]
  have c: "mag_compare (snd (decompose y)) (snd (decompose x)) < 0 \<longleftrightarrow> ival y < ival x"
    using mag_compare_sgn [OF dy(1) dx(1) dy(2) dx(2)] dx(3) dy(3) by (simp add: sgn_if)
  show ?case
  proof (cases "ival y < ival x")
    case False
    then have "isqrt_loop used n x y = Some (Inr x)" using c by (subst isqrt_loop.simps) simp
    moreover have "nat (ival x) * nat (ival x) \<le> ?n"
    proof (rule newton_stop)
      have "nat (ival x) \<le> nat (ival y)" using False by (intro nat_mono) simp
      then show "nat (ival x) \<le> (nat (ival x) + ?n div nat (ival x)) div 2" unfolding less.prems(6) .
    qed (use less.prems(3) in simp)
    ultimately show ?thesis using less.prems by (simp add: is_isqrt_def)
  next
    case True
    let ?ly = "snd (decompose y)"
    obtain q r where qr: "mag_divmod (snd (decompose n)) ?ly = (q, r)" by fastforce
    have up: "?n < (nat (ival y) + 1) * (nat (ival y) + 1)"
      using newton_upper [of "nat (ival x)" ?n] less.prems(3,6) by simp
    have ypos: "0 < ival y"
    proof (rule ccontr)
      assume "\<not> 0 < ival y"
      then have "nat (ival y) = 0" by simp
      then show False using up n(2) by simp
    qed
    have "mag_val ?ly \<noteq> 0" using ypos dy(3) by simp
    note dv = mag_divmod_val [OF dn(1) dy(1) this qr]
    have s: "limbs_ok (mag_add ?ly q)" "mag_val (mag_add ?ly q) = nat (ival y) + ?n div nat (ival y)"
      using mag_add_val [OF dy(1) dv(3)] dv(1) dy(3) dn(3) by (simp_all flip: dy(3) dn(3))
    have h: "wf_int (half (mag_add ?ly q))"
      "ival (half (mag_add ?ly q)) = int ((nat (ival y) + ?n div nat (ival y)) div 2)"
      using half_int [OF s(1)] s(2) by simp_all
    have l: "length (snd (decompose n)) = limb_count (ival n)" "length ?ly = limb_count (ival y)"
      using decompose_count [OF n(1) surjective_pairing] decompose_count [OF less.prems(2) surjective_pairing] by simp_all
    have yn: "limb_count (ival y) \<le> limb_count (ival n)"
      using True ypos less.prems(4) by (intro limb_count_mono) simp
    have "mag_val q \<le> mag_val (snd (decompose n))" by (simp add: dv(1))
    then have "limb_count (int (mag_val q)) \<le> limb_count (ival n)"
      unfolding dn(3) [symmetric] by (intro limb_count_mono) simp
    moreover have "1 < length q \<longrightarrow> last q \<noteq> 0"
      using qr mag_trim_last by (auto simp: mag_divmod_def Let_def split: prod.splits)
    then have "length q = limb_count (int (mag_val q))"
      using trimmed_limb_count [OF dv(3) dv(5) [OF dn(2)]] by simp
    ultimately have "used + limb_count (ival n) + limb_count (ival n) + (max (limb_count (ival y)) (length q) + 1) \<le> LIMB_ARENA_LIMBS"
      using used yn by simp
    then have "isqrt_loop used n x y = isqrt_loop used n y (half (mag_add ?ly q))"
      using c True by (subst isqrt_loop.simps) (simp add: qr half_def lbind_alloc l Let_def)
    moreover have "\<exists>r. isqrt_loop used n y (half (mag_add ?ly q)) = Some (Inr r) \<and> wf_int r \<and> 0 \<le> ival r \<and>
        is_isqrt ?n (nat (ival r))"
    proof (rule less.hyps)
      show "nat (ival y) < nat (ival x)" using True less.prems(3) by simp
      show "ival y \<le> ival n" using True less.prems(4) by simp
    qed (use h ypos up less.prems(2) in simp_all)
    ultimately show ?thesis by simp
  qed
qed

lemma isqrt_int_result:
  assumes "wf_int v" "0 \<le> ival v" "5 * limb_count (ival v) + 2 \<le> LIMB_ARENA_LIMBS"
  shows "\<exists>r. primitive_isqrt [v] = Some (Inr r) \<and> wf_int r \<and> 0 \<le> ival r \<and>
           is_isqrt (nat (ival v)) (nat (ival r))"
proof -
  let ?x = "os_make_integer False (snd (decompose v))"
  note x = abs_value [OF assms(1)]
  have xv: "ival ?x = ival v" using x(2) assms(2) by simp
  have "0 \<le> ival ?x" using xv assms(2) by simp
  note dx = decompose_nonneg [OF x(1) this]
  let ?y = "half (mag_add (snd (decompose ?x)) [1])"
  have s: "limbs_ok (mag_add (snd (decompose ?x)) [1])"
    "int (mag_val (mag_add (snd (decompose ?x)) [1])) = ival v + 1"
    using mag_add_val [OF dx(1), of "[1]"] dx(3) xv by simp_all
  have y: "wf_int ?y" "ival ?y = (ival v + 1) div 2"
    using half_int [OF s(1)] s(2) by (simp_all add: zdiv_int)
  let ?u = "limb_count (ival v) + (limb_count (ival v) + 1)"
  have c: "length (snd (decompose v)) = limb_count (ival v)" "length (snd (decompose ?x)) = limb_count (ival v)"
    using decompose_count [OF assms(1) surjective_pairing] decompose_count [OF x(1) surjective_pairing] xv by simp_all
  have e: "primitive_isqrt [v] = isqrt_loop ?u v ?x ?y"
    using sgn_ival [OF assms(1), of "fst (decompose v)" "snd (decompose v)"] assms(2,3)
    by (simp add: primitive_isqrt_def mag_isqrt_def half_def Let_def lbind_alloc limb_alloc_def c)
  have "\<exists>r. isqrt_loop ?u v ?x ?y = Some (Inr r) \<and> wf_int r \<and> 0 \<le> ival r \<and> is_isqrt (nat (ival v)) (nat (ival r))"
  proof (cases "ival v = 0")
    case True
    have dy: "limbs_ok (snd (decompose ?y))" "snd (decompose ?y) \<noteq> []" "int (mag_val (snd (decompose ?y))) = 0"
      using decompose_nonneg [OF y(1)] y(2) True by simp_all
    have "\<not> mag_compare (snd (decompose ?y)) (snd (decompose ?x)) < 0"
      using mag_compare_sgn [OF dy(1) dx(1) dy(2) dx(2)] dy(3) dx(3) xv True by simp
    then have "isqrt_loop ?u v ?x ?y = Some (Inr ?x)" by (subst isqrt_loop.simps) simp
    then show ?thesis using x(1) xv True by (simp add: is_isqrt_def)
  next
    case False
    then have pos: "0 < ival v" using assms(2) by simp
    show ?thesis
    proof (rule isqrt_loop_int [OF assms(1) pos _ x(1) y(1)])
      show "nat (ival ?y) = (nat (ival ?x) + nat (ival v) div nat (ival ?x)) div 2"
        using pos unfolding xv y(2) by (simp add: nat_div_distrib nat_add_distrib)
    qed (use pos y(2) assms(3) in \<open>simp_all add: xv\<close>)
  qed
  then show ?thesis unfolding e .
qed

lemma isqrt_exhausted:
  assumes "wf_int v" "0 \<le> ival v" "16384 \<le> limb_count (ival v)"
  shows "primitive_isqrt [v] = Some (Inl LimbArenaExhausted)"
proof -
  note x = abs_value [OF assms(1)]
  have "length (snd (decompose v)) = limb_count (ival v)"
    "length (snd (decompose (os_make_integer False (snd (decompose v))))) = limb_count (ival v)"
    using decompose_count [OF assms(1) surjective_pairing] decompose_count [OF x(1) surjective_pairing] x(2) assms(2)
    by simp_all
  then show ?thesis
    using sgn_ival [OF assms(1), of "fst (decompose v)" "snd (decompose v)"] assms(2,3)
    by (simp add: primitive_isqrt_def mag_isqrt_def Let_def lbind_alloc limb_alloc_def LIMB_ARENA_LIMBS_def)
qed

subsection \<open>Absolute value\<close>

lemma abs_int_result:
  assumes "wf_int v"
  shows "int_result (primitive_abs fp [v]) \<bar>ival v\<bar>"
  using assms
proof (cases rule: wf_int_cases)
  case (1 w)
  have e: "os_make_fixnum (os_fixnum_magnitude w) = os_make_fixnum_signed False (os_fixnum_magnitude w)"
    by (simp add: os_make_fixnum_def os_make_fixnum_signed_def)
  show ?thesis
    using 1 make_fixnum_signed_sgn [OF magnitude_less, of False w]
    by (auto simp: primitive_abs_def Let_def e fixnum_wf_def [of w] fixnum_int_sgn_mag [of w])
next
  case (2 s ls)
  then have "ls \<noteq> []" by auto
  then have "int_result (Inr (os_make_integer False ls)) \<bar>ival v\<bar>"
    using 2 by (intro int_resultI) (simp_all add: os_make_integer_wf)
  then show ?thesis
    using 2 wf_int_number [OF assms] assms
    by (auto simp: primitive_abs_def Let_def is_fixnum_def)
qed

subsection \<open>The two-argument fast paths\<close>

lemma bit63_unat: "bit (w :: u64) 63 \<longleftrightarrow> 9223372036854775808 \<le> unat w"
proof -
  have "bit w 63 \<longleftrightarrow> bit (unat w) 63" by (simp add: bit_unsigned_iff)
  also have "\<dots> \<longleftrightarrow> odd (unat w div 9223372036854775808)" by (simp add: bit_iff_odd)
  also have "\<dots> \<longleftrightarrow> unat w div 9223372036854775808 \<noteq> 0"
  proof -
    have "unat w div 9223372036854775808 < 2"
      by (rule less_mult_imp_div_less) (use unat_lt64 [of w] in simp)
    then show ?thesis by (metis One_nat_def even_zero less_2_cases odd_one)
  qed
  also have "\<dots> \<longleftrightarrow> 9223372036854775808 \<le> unat w" by (simp add: div_eq_0_iff not_less)
  finally show ?thesis .
qed

lemma fixnum_nonneg_unat:
  "w AND TAG_MASK = TAG_FIXNUM \<and> \<not> os_fixnum_is_negative w \<longleftrightarrow>
     unat w mod 16 = 0 \<and> unat w < 9223372036854775808"
proof -
  have "w AND TAG_MASK = TAG_FIXNUM \<longleftrightarrow> take_bit 4 w = 0"
    by (simp only: tag_mask_eq TAG_FIXNUM_def take_bit_eq_mask [symmetric])
  also have "\<dots> \<longleftrightarrow> unat (take_bit 4 w) = 0" by (simp only: unat_eq_zero)
  also have "\<dots> \<longleftrightarrow> unat w mod 16 = 0" by (simp only: unsigned_take_bit_eq) (simp add: take_bit_eq_mod)
  finally show ?thesis by (simp add: os_fixnum_is_negative_bit bit63_unat not_le)
qed

lemma unat_drop4: "unat (drop_bit 4 w :: u64) = unat w div 16"
  by (simp only: unat_drop_bit_eq) (simp add: drop_bit_eq_div)

definition fixnum_nonneg :: "u64 \<Rightarrow> bool" where
  "fixnum_nonneg w \<longleftrightarrow> w AND TAG_MASK = TAG_FIXNUM \<and> \<not> os_fixnum_is_negative w"

lemma fixnum_nonneg_value:
  assumes "fixnum_nonneg w"
  obtains n where "unat w = 16 * n" "n < 2 ^ 59" "fixnum_int w = int n" "fixnum_wf w"
proof
  show "fixnum_wf w" using assms by (simp add: fixnum_nonneg_def fixnum_wf_def)
  have n: "\<not> os_fixnum_is_negative w" using assms by (simp add: fixnum_nonneg_def)
  have "os_fixnum_magnitude w = drop_bit 4 w"
  proof (rule bit_word_eqI)
    fix k assume "k < LENGTH(64)"
    show "bit (os_fixnum_magnitude w) k = bit (drop_bit 4 w) k"
      using n bit_word_lt64 [of w "4 + k"]
      by (cases "k = 59") (auto simp: bit_fixnum_magnitude bit_drop_bit_eq add.commute os_fixnum_is_negative_bit)
  qed
  then have m: "unat (os_fixnum_magnitude w) = unat w div 16" by (simp only: unat_drop4)
  show "fixnum_int w = int (unat w div 16)" using n by (simp only: m fixnum_int_sgn_mag sgn_mag_def if_False)
  show "unat w div 16 < 2 ^ 59" using magnitude_less [of w] by (simp only: m)
  have "unat w mod 16 = 0" using assms by (simp only: fixnum_nonneg_def fixnum_nonneg_unat)
  then show "unat w = 16 * (unat w div 16)" by presburger
qed

lemma fixnum_nonnegI:
  assumes "unat w = 16 * n" "n < 2 ^ 59"
  shows "fixnum_nonneg w" "int_result (Inr (Imm w)) (int n)"
proof -
  show f: "fixnum_nonneg w" using assms by (simp add: fixnum_nonneg_def fixnum_nonneg_unat)
  obtain m where "unat w = 16 * m" "fixnum_int w = int m" "fixnum_wf w"
    using fixnum_nonneg_value [OF f] by blast
  then show "int_result (Inr (Imm w)) (int n)" using assms(1) by auto
qed

lemma num_both_nonneg_fixnum_iff:
  "num_both_nonneg_fixnum a b \<longleftrightarrow> fixnum_nonneg a \<and> fixnum_nonneg b"
proof -
  have "num_both_nonneg_fixnum a b \<longleftrightarrow>
      a AND TAG_MASK = 0 \<and> b AND TAG_MASK = 0 \<and> a AND FIXNUM_SIGN_BIT = 0 \<and> b AND FIXNUM_SIGN_BIT = 0"
    unfolding num_both_nonneg_fixnum_def
    by (auto simp: bit_eq_iff bit_and_iff bit_or_iff)
  then show ?thesis
    by (auto simp: fixnum_nonneg_def os_fixnum_is_negative_def TAG_FIXNUM_def)
qed

lemma nonneg_fixnums_Some:
  assumes "nonneg_fixnums a b = Some (wa, wb)"
  shows "a = Imm wa" "b = Imm wb" "fixnum_nonneg wa" "fixnum_nonneg wb" "num_both_nonneg_fixnum wa wb"
  using assms by (auto simp: nonneg_fixnums_def num_both_nonneg_fixnum_iff split: lval.splits if_splits)

lemma sign_clear: "w AND FIXNUM_SIGN_BIT = 0 \<longleftrightarrow> unat w < 9223372036854775808"
proof -
  have "w AND FIXNUM_SIGN_BIT \<noteq> 0 \<longleftrightarrow> 9223372036854775808 \<le> unat w"
    using os_fixnum_is_negative_bit [of w] unfolding os_fixnum_is_negative_def bit63_unat .
  then show ?thesis by linarith
qed

lemma fast_add:
  assumes "fixnum_nonneg a" "fixnum_nonneg b" "(a + b) AND FIXNUM_SIGN_BIT = 0"
  shows "int_result (Inr (Imm (a + b))) (fixnum_int a + fixnum_int b)"
proof -
  obtain m where a: "unat a = 16 * m" "m < 2 ^ 59" "fixnum_int a = int m" by (rule fixnum_nonneg_value [OF assms(1)])
  obtain n where b: "unat b = 16 * n" "n < 2 ^ 59" "fixnum_int b = int n" by (rule fixnum_nonneg_value [OF assms(2)])
  have "unat a + unat b < 18446744073709551616" using a b by simp
  then have u: "unat (a + b) = 16 * (m + n)" using a(1) b(1) by (simp add: unat_add_no_wrap64)
  moreover have "unat (a + b) < 9223372036854775808" using assms(3) by (simp only: sign_clear)
  ultimately have "m + n < 2 ^ 59" by simp
  from fixnum_nonnegI(2) [OF u this] show ?thesis by (simp add: a(3) b(3))
qed

lemma fast_sub:
  assumes "fixnum_nonneg a" "fixnum_nonneg b" "b \<le> a"
  shows "int_result (Inr (Imm (a - b))) (fixnum_int a - fixnum_int b)"
proof -
  obtain m where a: "unat a = 16 * m" "m < 2 ^ 59" "fixnum_int a = int m" by (rule fixnum_nonneg_value [OF assms(1)])
  obtain n where b: "unat b = 16 * n" "n < 2 ^ 59" "fixnum_int b = int n" by (rule fixnum_nonneg_value [OF assms(2)])
  have le: "n \<le> m" using assms(3) a(1) b(1) by (simp add: word_le_nat_alt)
  have u: "unat (a - b) = 16 * (m - n)" using assms(3) a(1) b(1) by (simp add: unat_sub diff_mult_distrib2)
  have "m - n < 2 ^ 59" using a(2) by simp
  from fixnum_nonnegI(2) [OF u this] show ?thesis using le by (simp add: a(3) b(3))
qed

lemma fast_mul:
  assumes "fixnum_nonneg a" "fixnum_nonneg b" "fixnum_fast_mul a b = Some r"
  shows "int_result (Inr (Imm r)) (fixnum_int a * fixnum_int b)"
proof -
  obtain m where a: "unat a = 16 * m" "m < 2 ^ 59" "fixnum_int a = int m" by (rule fixnum_nonneg_value [OF assms(1)])
  obtain n where b: "unat b = 16 * n" "n < 2 ^ 59" "fixnum_int b = int n" by (rule fixnum_nonneg_value [OF assms(2)])
  have r: "r = drop_bit 4 a * b" "unat (drop_bit 4 a) * unat b < 18446744073709551616"
      "unat r < 9223372036854775808"
    using assms(3) unfolding fixnum_fast_mul_def Let_def FIXNUM_VALUE_SHIFT_def sign_clear
    by (auto simp: not_le split: if_splits)
  have "unat r = unat (drop_bit 4 a) * unat b" unfolding r(1) by (rule unat_mult_no_wrap64 [OF r(2)])
  then have u: "unat r = 16 * (m * n)" by (simp only: unat_drop4 a(1) b(1)) simp
  then have "m * n < 2 ^ 59" using r(3) by simp
  from fixnum_nonnegI(2) [OF u this] show ?thesis by (simp add: a(3) b(3))
qed

lemma fast_div:
  assumes "fixnum_nonneg a" "fixnum_nonneg b" "fixnum_fast_div a b = Some r"
  shows "fixnum_int b \<noteq> 0" "int_result (Inr (Imm r)) (tdiv (fixnum_int a) (fixnum_int b))"
proof -
  obtain m where a: "unat a = 16 * m" "m < 2 ^ 59" "fixnum_int a = int m" by (rule fixnum_nonneg_value [OF assms(1)])
  obtain n where b: "unat b = 16 * n" "n < 2 ^ 59" "fixnum_int b = int n" by (rule fixnum_nonneg_value [OF assms(2)])
  have r: "r = 16 * (a div b)" "b \<noteq> 0"
    using assms(3) by (auto simp: fixnum_fast_div_def FIXNUM_VALUE_SHIFT_def push_bit_eq_mult mult.commute split: if_splits)
  have n: "0 < n" using r(2) b(1) by (simp add: word_eq_iff_unat)
  then show "fixnum_int b \<noteq> 0" by (simp add: b(3))
  have q: "unat (a div b) = m div n" by (simp add: unat_div a(1) b(1))
  have lt: "m div n < 2 ^ 59" using a(2) by (rule le_less_trans [OF div_le_dividend])
  then have u: "unat r = 16 * (m div n)"
    unfolding r(1) by (subst unat_mult_no_wrap64) (simp_all add: q)
  have "tdiv (int m) (int n) = int (m div n)"
    using tdiv_sgn_mag [of False m False n] by simp
  then show "int_result (Inr (Imm r)) (tdiv (fixnum_int a) (fixnum_int b))"
    using fixnum_nonnegI(2) [OF u lt] by (simp add: a(3) b(3))
qed

lemma int_result_unique:
  "int_result r i \<Longrightarrow> int_result r' i \<Longrightarrow> r = r'"
  using ival_inj by (auto simp: int_result_def)

definition int_or_bad :: "lval \<Rightarrow> bool" where
  "int_or_bad v \<longleftrightarrow> wf_int v \<or> \<not> is_number_val v"

lemma int_or_bad_kind: "int_or_bad v \<Longrightarrow> float_kind_of v = 0"
  using wf_int_number(2) by (auto simp: int_or_bad_def is_number_val_def is_float_def)

lemma is_fixnum_number: "is_fixnum v \<Longrightarrow> is_number_val v"
  by (simp add: is_number_val_def)

lemma signed_ops_fixnum2:
  "fixnum_add_signed u v = Some r \<Longrightarrow> is_fixnum u"
  "fixnum_multiply_signed u v = Some r \<Longrightarrow> is_fixnum u"
  "fixnum_divide_signed u v = Some r \<Longrightarrow> is_fixnum u"
  "sub_fixnum_step u v = Some r \<Longrightarrow> is_fixnum u"
  by (auto simp: fixnum_add_signed_def fixnum_multiply_signed_def fixnum_divide_signed_def sub_fixnum_step_def
      split: lval.splits if_splits)

text \<open>
  A two-argument entry tries the words of two non-negative fixnums, then the checked
  signed operation, then the n-ary primitive. When both attempts are exact, it returns
  what the n-ary primitive returns.
\<close>

locale binary_entry =
  fixes entry :: "lval \<Rightarrow> lval \<Rightarrow> lval lres"
    and nary :: "lval list \<Rightarrow> lval lres"
    and attempt :: "u64 \<Rightarrow> u64 \<Rightarrow> u64 option"
    and signed :: "lval \<Rightarrow> lval \<Rightarrow> u64 option"
    and spec :: "lval \<Rightarrow> lval \<Rightarrow> lval lres \<Rightarrow> bool"
  assumes entry_eq: "float_kind_of a = 0 \<Longrightarrow> float_kind_of b = 0 \<Longrightarrow>
      entry a b =
        (case (case nonneg_fixnums a b of Some (x, y) \<Rightarrow> attempt x y | None \<Rightarrow> None) of
           Some r \<Rightarrow> Inr (Imm r)
         | None \<Rightarrow> (case signed a b of Some r \<Rightarrow> Inr (Imm r) | None \<Rightarrow> nary [a, b]))"
    and attempt_spec: "fixnum_nonneg x \<Longrightarrow> fixnum_nonneg y \<Longrightarrow> attempt x y = Some r \<Longrightarrow>
      spec (Imm x) (Imm y) (Inr (Imm r))"
    and signed_spec: "wf_int a \<Longrightarrow> wf_int b \<Longrightarrow> signed a b = Some r \<Longrightarrow> spec a b (Inr (Imm r))"
    and signed_fixnum: "signed a b = Some r \<Longrightarrow> is_fixnum a \<and> is_fixnum b"
    and nary_spec: "fixnum_wf x \<Longrightarrow> fixnum_wf y \<Longrightarrow> spec (Imm x) (Imm y) (nary [Imm x, Imm y])"
    and spec_unique: "spec a b r1 \<Longrightarrow> spec a b r2 \<Longrightarrow> r1 = r2"
begin

lemma signed_eq_nary:
  assumes "wf_int a" "wf_int b" "signed a b = Some r"
  shows "nary [a, b] = Inr (Imm r)"
proof -
  obtain x y where "a = Imm x" "fixnum_wf x" "b = Imm y" "fixnum_wf y"
    using wf_fixnum [OF assms(1)] wf_fixnum [OF assms(2)] signed_fixnum [OF assms(3)] by blast
  then show ?thesis using spec_unique [of a b "nary [a, b]"] nary_spec signed_spec [OF assms] by blast
qed

lemma attempt_eq_nary:
  assumes "nonneg_fixnums a b = Some (x, y)" "attempt x y = Some r"
  shows "nary [a, b] = Inr (Imm r)"
proof -
  note n = nonneg_fixnums_Some [OF assms(1)]
  have "fixnum_wf x" "fixnum_wf y" using n by (simp_all add: fixnum_nonneg_def fixnum_wf_def)
  then show ?thesis
    using spec_unique [of a b "nary [a, b]"] nary_spec [of x y] attempt_spec [OF n(3,4) assms(2)] n(1,2) by blast
qed

lemma entry_eq_nary:
  assumes "int_or_bad a" "int_or_bad b"
  shows "entry a b = nary [a, b]"
proof -
  have w: "wf_int a \<and> wf_int b" if "signed a b = Some r" for r
    using signed_fixnum [OF that] assms is_fixnum_number by (auto simp: int_or_bad_def)
  have s: "(case signed a b of Some r \<Rightarrow> Inr (Imm r) | None \<Rightarrow> nary [a, b]) = nary [a, b]"
    using w signed_eq_nary by (auto split: option.splits)
  show ?thesis
    unfolding entry_eq [OF int_or_bad_kind [OF assms(1)] int_or_bad_kind [OF assms(2)]] s
    using attempt_eq_nary by (auto split: option.splits)
qed

end

lemma quotient_result_unique: "quotient_result args r a bs \<Longrightarrow> quotient_result args r' a bs \<Longrightarrow> r = r'"
  by (induction bs arbitrary: a) (auto split: if_splits dest: int_result_unique)

lemma arena_result_unique: "arena_result ok r i \<Longrightarrow> arena_result ok r' i \<Longrightarrow> r = r'"
  using int_result_unique by (auto simp: arena_result_def split: if_splits)

lemma small_fold_fits:
  assumes "fixnum_wf a" "fixnum_wf b"
  shows "fold_fits add_need (+) 0 [fixnum_int a, fixnum_int b]" "fold_fits mul_need (*) 1 [fixnum_int a, fixnum_int b]"
    "fold_fits add_need (-) (fixnum_int a) [fixnum_int b]"
  using small_needs [of "os_make_fixnum 0" a] small_needs [of "os_make_fixnum 1" a] small_needs [OF assms] assms
  by simp_all

lemma signed_ops_value:
  assumes "wf_int a" "wf_int b"
  shows "fixnum_add_signed a b = Some r \<Longrightarrow> int_result (Inr (Imm r)) (ival a + ival b)"
    "fixnum_multiply_signed a b = Some r \<Longrightarrow> int_result (Inr (Imm r)) (ival a * ival b)"
    "fixnum_divide_signed a b = Some r \<Longrightarrow> ival b \<noteq> 0 \<and> int_result (Inr (Imm r)) (tdiv (ival a) (ival b))"
    "sub_fixnum_step a b = Some r \<Longrightarrow> int_result (Inr (Imm r)) (ival a - ival b)"
proof -
  show "fixnum_add_signed a b = Some r \<Longrightarrow> int_result (Inr (Imm r)) (ival a + ival b)"
    using signed_ops_fixnum(1) [of a b r] signed_ops_fixnum2(1) [of a b r] add_fold.step_exact [of _ b r]
      wf_fixnum [of a] assms by auto
  show "fixnum_multiply_signed a b = Some r \<Longrightarrow> int_result (Inr (Imm r)) (ival a * ival b)"
    using signed_ops_fixnum(2) [of a b r] signed_ops_fixnum2(2) [of a b r] mul_fold.step_exact [of _ b r]
      wf_fixnum [of a] assms by auto
  show "sub_fixnum_step a b = Some r \<Longrightarrow> int_result (Inr (Imm r)) (ival a - ival b)"
    using signed_ops_fixnum(4) [of a b r] signed_ops_fixnum2(4) [of a b r] sub_fold.step_exact [of _ b r]
      wf_fixnum [of a] assms by auto
  show "fixnum_divide_signed a b = Some r \<Longrightarrow> ival b \<noteq> 0 \<and> int_result (Inr (Imm r)) (tdiv (ival a) (ival b))"
    using signed_ops_fixnum(3) [of a b r] signed_ops_fixnum2(3) [of a b r] fixnum_div_unchecked [of _ _ r]
      wf_fixnum [of a] wf_fixnum [of b] assms by fastforce
qed

interpretation add2: binary_entry "primitive_add2 fp" "primitive_add fp" fixnum_fast_add fixnum_add_signed
  "\<lambda>a b r. int_result r (ival a + ival b)" for fp
proof unfold_locales
  show "int_result (primitive_add fp [Imm x, Imm y]) (ival (Imm x) + ival (Imm y))"
    if "fixnum_wf x" "fixnum_wf y" for x y
    using add_int_result [of "[Imm x, Imm y]" fp] small_fold_fits(1) [OF that] that
    by (simp add: arena_result_def del: fold_fits.simps)
  show "int_result (Inr (Imm r)) (ival (Imm x) + ival (Imm y))"
    if "fixnum_nonneg x" "fixnum_nonneg y" "fixnum_fast_add x y = Some r" for x y r
    using fast_add [OF that(1,2)] that(3) by (simp add: fixnum_fast_add_def Let_def split: if_splits)
qed (auto simp: primitive_add2_def primitive_add2_slow_def fixnum_fast_add_def Let_def signed_ops_value
    signed_ops_fixnum signed_ops_fixnum2 dest: int_result_unique split: option.splits)

interpretation sub2: binary_entry "primitive_subtract2 fp" "primitive_subtract fp" fixnum_fast_sub
  sub_fixnum_step "\<lambda>a b r. int_result r (ival a - ival b)" for fp
proof unfold_locales
  show "int_result (primitive_subtract fp [Imm x, Imm y]) (ival (Imm x) - ival (Imm y))"
    if "fixnum_wf x" "fixnum_wf y" for x y
    using subtract_int_result [of "Imm x" "Imm y" "[]" fp] small_fold_fits(3) [OF that] that
    by (simp add: arena_result_def del: fold_fits.simps)
  show "int_result (Inr (Imm r)) (ival (Imm x) - ival (Imm y))"
    if "fixnum_nonneg x" "fixnum_nonneg y" "fixnum_fast_sub x y = Some r" for x y r
    using fast_sub [OF that(1,2)] that(3) by (auto simp: fixnum_fast_sub_def split: if_splits)
qed (auto simp: primitive_subtract2_def primitive_subtract2_slow_def fixnum_fast_sub_def Let_def signed_ops_value
    signed_ops_fixnum signed_ops_fixnum2 dest: int_result_unique split: option.splits)

interpretation mul2: binary_entry "primitive_multiply2 fp" "primitive_multiply fp" fixnum_fast_mul
  fixnum_multiply_signed "\<lambda>a b r. int_result r (ival a * ival b)" for fp
proof unfold_locales
  show "int_result (primitive_multiply fp [Imm x, Imm y]) (ival (Imm x) * ival (Imm y))"
    if "fixnum_wf x" "fixnum_wf y" for x y
    using multiply_int_result [of "[Imm x, Imm y]" fp] small_fold_fits(2) [OF that] that
    by (simp add: arena_result_def del: fold_fits.simps)
  show "int_result (Inr (Imm r)) (ival (Imm x) * ival (Imm y))"
    if "fixnum_nonneg x" "fixnum_nonneg y" "fixnum_fast_mul x y = Some r" for x y r
    using fast_mul [OF that] by simp
qed (auto simp: primitive_multiply2_def primitive_multiply2_slow_def Let_def signed_ops_value
    signed_ops_fixnum signed_ops_fixnum2 dest: int_result_unique split: option.splits)

interpretation div2: binary_entry "primitive_divide2 fp" "primitive_divide fp" fixnum_fast_div
  fixnum_divide_signed "\<lambda>a b r. quotient_result [a, b] r (ival a) [ival b]" for fp
proof unfold_locales
  show "quotient_result [Imm x, Imm y] (primitive_divide fp [Imm x, Imm y]) (ival (Imm x)) [ival (Imm y)]"
    if "fixnum_wf x" "fixnum_wf y" for x y
    using divide_int_result [of "Imm x" "[Imm y]" fp] that by simp
  show "quotient_result [Imm x, Imm y] (Inr (Imm r)) (ival (Imm x)) [ival (Imm y)]"
    if "fixnum_nonneg x" "fixnum_nonneg y" "fixnum_fast_div x y = Some r" for x y r
    using fast_div [OF that] fixnum_limb_count [of x] that(1)
    by (intro quotient_result_small(2)) (simp_all add: fixnum_nonneg_def fixnum_wf_def)
  show "quotient_result [a, b] (Inr (Imm r)) (ival a) [ival b]"
    if "wf_int a" "wf_int b" "fixnum_divide_signed a b = Some r" for a b r
    using signed_ops_value(3) [OF that] fixnum_limb_count wf_fixnum [OF that(1)] signed_ops_fixnum2(3) [OF that(3)]
    by (intro quotient_result_small(2)) auto
qed (auto simp: primitive_divide2_def primitive_divide2_slow_def Let_def
    signed_ops_fixnum signed_ops_fixnum2 simp del: quotient_result.simps dest: quotient_result_unique split: option.splits)

text \<open>The entries for declared fixnums agree with the generic ones on fixnums.\<close>

lemma nonneg_fixnums_Imm:
  "nonneg_fixnums (Imm a) (Imm b) = (if num_both_nonneg_fixnum a b then Some (a, b) else None)"
  by (simp add: nonneg_fixnums_def)

lemma fixnum_entries:
  assumes "fixnum_wf a" "fixnum_wf b"
  shows "primitive_add2_fixnum fp a b = primitive_add2 fp (Imm a) (Imm b)"
    "primitive_subtract2_fixnum fp a b = primitive_subtract2 fp (Imm a) (Imm b)"
    "primitive_multiply2_fixnum fp a b = primitive_multiply2 fp (Imm a) (Imm b)"
    "primitive_divide2_fixnum fp a b = primitive_divide2 fp (Imm a) (Imm b)"
proof -
  have k: "float_kind_of (Imm a) = 0" "float_kind_of (Imm b) = 0"
    using wf_int_number(2) [of "Imm a"] wf_int_number(2) [of "Imm b"] assms by simp_all
  have t: "a AND TAG_MASK = TAG_FIXNUM" "b AND TAG_MASK = TAG_FIXNUM"
    using assms by (simp_all add: fixnum_wf_def)
  note d = nonneg_fixnums_Imm k t assms fixnum_negate_correct(1)
  show "primitive_add2_fixnum fp a b = primitive_add2 fp (Imm a) (Imm b)"
    by (simp add: primitive_add2_fixnum_def primitive_add2_fixnum_slow_def primitive_add2_def
        primitive_add2_slow_def fixnum_fast_add_def Let_def d split: option.split)
  show "primitive_subtract2_fixnum fp a b = primitive_subtract2 fp (Imm a) (Imm b)"
    by (auto simp: primitive_subtract2_fixnum_def primitive_subtract2_fixnum_slow_def primitive_subtract2_def
        primitive_subtract2_slow_def fixnum_fast_sub_def sub_fixnum_step_def Let_def d not_le not_less split: option.split)
  show "primitive_multiply2_fixnum fp a b = primitive_multiply2 fp (Imm a) (Imm b)"
    by (simp add: primitive_multiply2_fixnum_def primitive_multiply2_fixnum_slow_def primitive_multiply2_def
        primitive_multiply2_slow_def Let_def d split: option.split)
  show "primitive_divide2_fixnum fp a b = primitive_divide2 fp (Imm a) (Imm b)"
    by (simp add: primitive_divide2_fixnum_def primitive_divide2_fixnum_slow_def primitive_divide2_def
        primitive_divide2_slow_def Let_def d split: option.split)
qed

subsection \<open>Operands that are not numbers\<close>

lemma fold_bad:
  assumes "first_non_number args = Some bad"
  shows "fixnum_fold fixnum_add_signed a args = None" "fixnum_fold fixnum_multiply_signed a args = None"
  using add_fold.fixnum_fold_fixnums [of a args] mul_fold.fixnum_fold_fixnums [of a args] fixnum_args assms
  by fastforce+

lemma float_fold_bad:
  "first_non_number args = Some bad \<Longrightarrow> float_fold fp op kind acc args = Inl (DomainError bad ''<NUMBER>'')"
  by (induction args arbitrary: kind acc) (auto simp: Let_def split: if_splits)

lemmas imm_eval =
  os_make_fixnum_def os_make_fixnum_signed_def fixnum_wf_def fixnum_int_def
  os_fixnum_is_negative_def os_fixnum_magnitude_def const_defs limbs_ok_def

lemma add_fits:
  "\<bar>a\<bar> + sum_list (map abs xs) < 2 ^ (32 * (LIMB_ARENA_LIMBS - 1)) \<Longrightarrow> fold_fits add_need (+) a xs"
proof (induction xs arbitrary: a)
  case (Cons x xs)
  define k where "k = LIMB_ARENA_LIMBS - 1"
  have k: "0 < k" "LIMB_ARENA_LIMBS = k + 1" by (simp_all add: k_def LIMB_ARENA_LIMBS_def)
  have p: "\<bar>a\<bar> + (\<bar>x\<bar> + sum_list (map abs xs)) < 2 ^ (32 * k)" using Cons.prems by (simp add: k_def)
  have s: "0 \<le> sum_list (map abs xs)" by (rule sum_list_nonneg) auto
  have "\<bar>a\<bar> < 2 ^ (32 * k)" "\<bar>x\<bar> < 2 ^ (32 * k)" using p s by linarith+
  then have "add_need a x \<le> LIMB_ARENA_LIMBS"
    using limb_count_le_iff [OF k(1)] by (simp add: add_need_def k(2))
  moreover have "\<bar>a + x\<bar> + sum_list (map abs xs) < 2 ^ (32 * k)" using p abs_triangle_ineq [of a x] by linarith
  then have "fold_fits add_need (+) (a + x) xs" by (intro Cons.IH) (simp add: k_def)
  ultimately show ?case by simp
qed simp

subsection \<open>Properties of integer arithmetic\<close>

text \<open>
  C21. \<open>os_make_integer\<close> returns the canonical representation of the signed magnitude it is
  given (an immediate below 2^59, a trimmed bignum otherwise), and that value is the only
  canonical one for the integer, so numeric equality is equality of values.
\<close>

theorem os_make_integer_canonical:
  assumes "limbs_ok ls" "ls \<noteq> []"
  shows "wf_int (os_make_integer s ls) \<and>
    ival (os_make_integer s ls) = (if s then - int (mag_val ls) else int (mag_val ls)) \<and>
    (\<forall>v. wf_int v \<and> ival v = (if s then - int (mag_val ls) else int (mag_val ls)) \<longrightarrow> v = os_make_integer s ls)"
  using os_make_integer_wf [OF assms] ival_inj sgn_mag_def by (metis (full_types))

theorem os_make_integer_canonical_witness:
  "ival (os_make_integer True [0, 0, 1, 0]) = - (2 ^ 64) \<and> os_make_integer True [0, 0, 1, 0] = Bignum True [0, 0, 1]"
proof -
  have "limbs_ok [0, 0, 1, 0]" "[0, 0, 1, 0] \<noteq> ([] :: u64 list)" by simp_all
  from os_make_integer_canonical [OF this, of True]
  have "ival (os_make_integer True [0, 0, 1, 0]) = - (2 ^ 64)" by simp
  moreover have "os_make_integer True [0, 0, 1, 0] = Bignum True [0, 0, 1]" by code_simp
  ultimately show ?thesis by simp
qed

text \<open>
  C3. \<open>primitive_add\<close> of integers of any sign, through the one-word loop and the general loop
  it restarts, returns the canonical representation of their sum, unless a round of the
  general loop asks for more limbs than the scratch arena has: then, and only then, the
  machine stops. Operands whose magnitudes add up to less than 2^(32 * 32767) always fit.
\<close>

theorem primitive_add_sum:
  assumes "list_all wf_int args"
  shows "(if fold_fits add_need (+) 0 (map ival args)
      then \<exists>v. primitive_add fp args = Inr v \<and> wf_int v \<and> ival v = sum_list (map ival args)
      else primitive_add fp args = Inl LimbArenaExhausted) \<and>
    (sum_list (map (\<lambda>v. \<bar>ival v\<bar>) args) < 2 ^ (32 * (LIMB_ARENA_LIMBS - 1)) \<longrightarrow>
      fold_fits add_need (+) 0 (map ival args))"
  using add_int_result [OF assms, of fp] add_fits [of 0 "map ival args"]
  by (auto simp: arena_result_def int_result_def comp_def)

theorem primitive_add_sum_witness:
  "\<forall>fp. \<exists>v. primitive_add fp [Imm (os_make_fixnum 0x7FFFFFFFFFFFFFF), Imm (os_make_fixnum_signed False 1),
      Bignum True [0, 0, 1]] = Inr v \<and> wf_int v \<and> ival v = 2 ^ 59 - 2 ^ 64"
proof
  fix fp
  let ?args = "[Imm (os_make_fixnum 0x7FFFFFFFFFFFFFF), Imm (os_make_fixnum_signed False 1), Bignum True [0, 0, 1]]"
  have w: "list_all wf_int ?args" by (simp add: imm_eval)
  have i: "map ival ?args = [576460752303423487, 1, - 18446744073709551616]" by (simp add: imm_eval)
  have "fold_fits add_need (+) 0 [576460752303423487, 1, - 18446744073709551616]"
    by (simp add: add_need_def limb_count_def mag_limbs.simps LIMB_ARENA_LIMBS_def)
  then have "\<exists>v. primitive_add fp ?args = Inr v \<and> wf_int v \<and> ival v = sum_list (map ival ?args)"
    using primitive_add_sum [OF w, of fp] unfolding i by (simp only: if_True)
  then show "\<exists>v. primitive_add fp ?args = Inr v \<and> wf_int v \<and> ival v = 2 ^ 59 - 2 ^ 64"
    unfolding i by simp
qed

text \<open>
  \<open>primitive_subtract\<close> of integers returns the canonical representation of the first
  operand less the others, and of the negated operand when there is only one, as long as
  the general loop fits the arena.
\<close>

theorem primitive_subtract_difference:
  assumes "wf_int a" "list_all wf_int rest"
  shows "if fold_fits add_need (-) (ival a) (map ival rest)
    then \<exists>v. primitive_subtract fp (a # rest) = Inr v \<and> wf_int v \<and>
      ival v = (if rest = [] then - ival a else ival a - sum_list (map ival rest))
    else primitive_subtract fp (a # rest) = Inl LimbArenaExhausted"
  using negate_int_result [OF assms(1), of fp] subtract_int_result [of a "hd rest" "tl rest" fp] assms
  by (cases rest) (auto simp: int_result_def arena_result_def)

text \<open>
  \<open>primitive_multiply\<close> of integers returns the canonical representation of their
  product, as long as the general loop fits the arena; the 128-bit check of the one-word
  loop never lets a wrapped product through.
\<close>

theorem primitive_multiply_product:
  assumes "list_all wf_int args"
  shows "if fold_fits mul_need (*) 1 (map ival args)
    then \<exists>v. primitive_multiply fp args = Inr v \<and> wf_int v \<and> ival v = prod_list (map ival args)
    else primitive_multiply fp args = Inl LimbArenaExhausted"
  using multiply_int_result [OF assms, of fp] by (auto simp: int_result_def arena_result_def)

text \<open>
  \<open>primitive_divide\<close> of integers divides from the left, truncating toward zero, and
  returns the canonical quotient; a divisor of zero met on the way signals
  \<open><division-by-zero>\<close> with the whole argument list, and a dividend of more than 16384 limbs
  exhausts the arena.
\<close>

theorem primitive_divide_quotient:
  assumes "wf_int a" "list_all wf_int rest"
  shows "quotient_result (a # rest) (primitive_divide fp (a # rest)) (ival a) (map ival rest)"
  using divide_int_result [of a rest fp] assms by simp

text \<open>
  C12. The two-argument entries that compiled code calls, with their inlined word
  arithmetic, return exactly what the n-ary primitives return, for integers and for
  operands that are not numbers at all.
\<close>

theorem binary_entries_agree:
  assumes "wf_int a \<or> \<not> is_number_val a" "wf_int b \<or> \<not> is_number_val b"
  shows "primitive_add2 fp a b = primitive_add fp [a, b] \<and>
    primitive_subtract2 fp a b = primitive_subtract fp [a, b] \<and>
    primitive_multiply2 fp a b = primitive_multiply fp [a, b] \<and>
    primitive_divide2 fp a b = primitive_divide fp [a, b]"
  using add2.entry_eq_nary sub2.entry_eq_nary mul2.entry_eq_nary div2.entry_eq_nary assms
  unfolding int_or_bad_def [symmetric] by simp

theorem binary_entries_agree_witness:
  "\<forall>fp. primitive_multiply2 fp (Imm (os_make_fixnum 0x40000000)) (Imm (os_make_fixnum 0x40000000)) =
     primitive_multiply fp [Imm (os_make_fixnum 0x40000000), Imm (os_make_fixnum 0x40000000)]"
proof
  fix fp
  have "wf_int (Imm (os_make_fixnum 0x40000000))" by (simp add: imm_eval)
  then show "primitive_multiply2 fp (Imm (os_make_fixnum 0x40000000)) (Imm (os_make_fixnum 0x40000000)) =
     primitive_multiply fp [Imm (os_make_fixnum 0x40000000), Imm (os_make_fixnum 0x40000000)]"
    using binary_entries_agree by blast
qed

text \<open>
  The entries for operands declared fixnum, which read no tag, agree with the generic
  entries on every fixnum: the declaration changes the speed and not the answer.
\<close>

theorem fixnum_entries_agree:
  assumes "fixnum_wf a" "fixnum_wf b"
  shows "primitive_add2_fixnum fp a b = primitive_add2 fp (Imm a) (Imm b) \<and>
    primitive_subtract2_fixnum fp a b = primitive_subtract2 fp (Imm a) (Imm b) \<and>
    primitive_multiply2_fixnum fp a b = primitive_multiply2 fp (Imm a) (Imm b) \<and>
    primitive_divide2_fixnum fp a b = primitive_divide2 fp (Imm a) (Imm b)"
  using fixnum_entries [OF assms] by simp

text \<open>
  The chained comparisons of integers decide the chain of the corresponding relation;
  \<open>/=\<close> compares neighbours only, as its comment says.
\<close>

theorem compare_chains:
  assumes "list_all wf_int args"
  shows "primitive_less_than fp args = Inr (lisp_bool (successively (<) (map ival args))) \<and>
    primitive_greater_than fp args = Inr (lisp_bool (successively (>) (map ival args))) \<and>
    primitive_num_equal fp args = Inr (lisp_bool (successively (=) (map ival args))) \<and>
    primitive_less_equal fp args = Inr (lisp_bool (successively (\<le>) (map ival args))) \<and>
    primitive_greater_equal fp args = Inr (lisp_bool (successively (\<ge>) (map ival args))) \<and>
    primitive_num_not_equal fp args = Inr (lisp_bool (successively (\<noteq>) (map ival args)))"
  using lt.chain gt.chain eq.chain le.chain ge.chain num_not_equal_int assms
  by (simp add: primitive_less_than_def primitive_greater_than_def primitive_num_equal_def
      primitive_less_equal_def primitive_greater_equal_def)

lemma less_nonneg:
  assumes "fixnum_nonneg a" "fixnum_nonneg b"
  shows "a < b \<longleftrightarrow> fixnum_int a < fixnum_int b" "a = b \<longleftrightarrow> fixnum_int a = fixnum_int b"
proof -
  obtain m where a: "unat a = 16 * m" "fixnum_int a = int m" by (rule fixnum_nonneg_value [OF assms(1)])
  obtain n where b: "unat b = 16 * n" "fixnum_int b = int n" by (rule fixnum_nonneg_value [OF assms(2)])
  show "a < b \<longleftrightarrow> fixnum_int a < fixnum_int b" "a = b \<longleftrightarrow> fixnum_int a = fixnum_int b"
    by (simp_all add: a b word_less_nat_alt word_eq_iff_unat)
qed

lemma compare2_fixnum_int:
  assumes "fixnum_wf a" "fixnum_wf b"
  shows "(a OR b) AND FIXNUM_SIGN_BIT = 0 \<longleftrightarrow> fixnum_nonneg a \<and> fixnum_nonneg b"
proof -
  have "(a OR b) AND FIXNUM_SIGN_BIT = 0 \<longleftrightarrow> a AND FIXNUM_SIGN_BIT = 0 \<and> b AND FIXNUM_SIGN_BIT = 0"
    by (auto simp: bit_eq_iff bit_and_iff bit_or_iff)
  then show ?thesis
    using assms by (simp add: fixnum_nonneg_def fixnum_wf_def os_fixnum_is_negative_def)
qed

lemmas compare2_defs =
  primitive_less_than2_def primitive_greater_than2_def primitive_num_equal2_def primitive_less_equal2_def
  primitive_greater_equal2_def primitive_num_not_equal2_def

lemma lisp_bool_eq [simp]: "lisp_bool p = lisp_bool q \<longleftrightarrow> p = q"
  by (simp add: lisp_bool_def)

text \<open>
  The two-argument comparisons, through raw words for non-negative fixnums and through
  \<open>number_compare4\<close> otherwise, decide the order of the integers; so do the entries for
  declared fixnums.
\<close>

theorem compare_pairs:
  assumes "wf_int a" "wf_int b"
  shows "primitive_less_than2 fp a b = Inr (lisp_bool (ival a < ival b)) \<and>
    primitive_greater_than2 fp a b = Inr (lisp_bool (ival a > ival b)) \<and>
    primitive_num_equal2 fp a b = Inr (lisp_bool (ival a = ival b)) \<and>
    primitive_less_equal2 fp a b = Inr (lisp_bool (ival a \<le> ival b)) \<and>
    primitive_greater_equal2 fp a b = Inr (lisp_bool (ival a \<ge> ival b)) \<and>
    primitive_num_not_equal2 fp a b = Inr (lisp_bool (ival a \<noteq> ival b))"
proof (cases "nonneg_fixnums a b")
  case None
  have "primitive_num_not_equal2_slow fp a b = Inr (lisp_bool (ival a \<noteq> ival b))"
    by (auto simp: primitive_num_not_equal2_slow_def Let_def number_compare4_int [OF assms] cmp_of_int_def)
  then show ?thesis
    using lt.pair gt.pair eq.pair le.pair ge.pair assms by (simp add: compare2_defs None)
next
  case (Some p)
  then obtain x y where xy: "nonneg_fixnums a b = Some (x, y)" by (cases p) auto
  note n = nonneg_fixnums_Some [OF xy]
  show ?thesis
    using less_nonneg [OF n(3,4)] less_nonneg(1) [OF n(4,3)]
    by (auto simp: compare2_defs xy [unfolded n(1,2)] n(1,2) not_less [symmetric])
qed

text \<open>
  The comparison entries for declared fixnums, which compare raw words when both are
  non-negative, decide the order of the integers.
\<close>

theorem compare_fixnum_entries:
  assumes "fixnum_wf a" "fixnum_wf b"
  shows "primitive_less_than2_fixnum a b = lisp_bool (fixnum_int a < fixnum_int b) \<and>
    primitive_greater_than2_fixnum a b = lisp_bool (fixnum_int a > fixnum_int b) \<and>
    primitive_less_equal2_fixnum a b = lisp_bool (fixnum_int a \<le> fixnum_int b) \<and>
    primitive_greater_equal2_fixnum a b = lisp_bool (fixnum_int a \<ge> fixnum_int b) \<and>
    primitive_num_equal2_fixnum a b = lisp_bool (fixnum_int a = fixnum_int b) \<and>
    primitive_num_not_equal2_fixnum a b = lisp_bool (fixnum_int a \<noteq> fixnum_int b)"
proof (cases "(a OR b) AND FIXNUM_SIGN_BIT = 0")
  case True
  then have n: "fixnum_nonneg a" "fixnum_nonneg b" using compare2_fixnum_int [OF assms] by simp_all
  show ?thesis
    using less_nonneg [OF n] less_nonneg(1) [OF n(2,1)]
    by (simp add: primitive_less_than2_fixnum_def primitive_greater_than2_fixnum_def
        primitive_less_equal2_fixnum_def primitive_greater_equal2_fixnum_def primitive_num_equal2_fixnum_def
        primitive_num_not_equal2_fixnum_def compare2_fixnum_def True not_less [symmetric])
next
  case False
  then show ?thesis
    by (auto simp: primitive_less_than2_fixnum_def primitive_greater_than2_fixnum_def
        primitive_less_equal2_fixnum_def primitive_greater_equal2_fixnum_def primitive_num_equal2_fixnum_def
        primitive_num_not_equal2_fixnum_def compare2_fixnum_def fixnum_compare3_sgn [OF assms] sgn_if)
qed

text \<open>
  C22. \<open>div\<close> and \<open>mod\<close> are floor division: the quotient rounds toward minus infinity and
  the remainder takes the sign of the divisor; a zero divisor signals
  \<open><division-by-zero>\<close>. The machine stops exactly when the working buffers exceed the
  scratch arena, and \<open>div\<close> hands back an unprotected reference exactly when the division of
  operands of the same sign is inexact and both results are bignums.
\<close>

theorem floor_division:
  assumes "wf_int z1" "wf_int z2"
  shows "if ival z2 = 0
    then primitive_div [z1, z2] = Inl (DivisionByZero ''DIV'' [z1, z2]) \<and>
         primitive_mod [z1, z2] = Inl (DivisionByZero ''MOD'' [z1, z2])
    else if floor_need (ival z1) (ival z2) \<le> LIMB_ARENA_LIMBS
    then (\<exists>q m. primitive_div [z1, z2] = Inr (if floor_exposed (ival z1) (ival z2) then Unprotected q else Kept q) \<and>
            primitive_mod [z1, z2] = Inr m \<and> wf_int q \<and> wf_int m \<and>
            ival q = ival z1 div ival z2 \<and> ival m = ival z1 mod ival z2)
    else primitive_div [z1, z2] = Inl LimbArenaExhausted \<and> primitive_mod [z1, z2] = Inl LimbArenaExhausted"
  using floor_divmod_int [OF assms] floor_divmod_zero [OF assms(2)]
  by (auto simp: primitive_div_def primitive_mod_def)

theorem floor_division_witness:
  "\<exists>q. primitive_div [Imm (os_make_fixnum_signed True 7), Imm (os_make_fixnum 2)] = Inr (Kept q) \<and> wf_int q \<and> ival q = - 4"
proof -
  have "wf_int (Imm (os_make_fixnum_signed True 7))" "wf_int (Imm (os_make_fixnum 2))"
    by (simp_all add: imm_eval)
  note floor_division [OF this]
  moreover have "ival (Imm (os_make_fixnum_signed True 7)) = - 7" "ival (Imm (os_make_fixnum 2)) = 2"
    by (simp_all add: imm_eval)
  moreover have "floor_need (- 7) 2 \<le> LIMB_ARENA_LIMBS" "\<not> floor_exposed (- 7) 2"
    by (simp_all add: floor_need_def floor_exposed_def tdiv_def limb_count_def mag_limbs.simps LIMB_ARENA_LIMBS_def)
  ultimately show ?thesis by auto
qed

text \<open>
  Euclid's loop of \<open>mag_gcd\<close> ends for all integers that fit the arena and \<open>gcd\<close> and \<open>lcm\<close> return the
  non-negative greatest common divisor and least common multiple.
\<close>

theorem gcd_lcm_correct:
  assumes "wf_int a" "wf_int b" "3 * (limb_count (ival a) + limb_count (ival b)) \<le> LIMB_ARENA_LIMBS"
  shows "(\<exists>g. primitive_gcd [a, b] = Some (Inr g) \<and> wf_int g \<and> ival g = gcd (ival a) (ival b)) \<and>
    (\<exists>l. primitive_lcm [a, b] = Some (Inr l) \<and> wf_int l \<and> ival l = lcm (ival a) (ival b))"
  using mag_gcd_int [OF assms] lcm_int_result [OF assms] by (simp add: primitive_gcd_def)

text \<open>
  C31. Newton's iteration of \<open>mag_isqrt\<close> ends for every non-negative integer of up to 6553
  limbs (209696 bits), bignums included, with the floor of the square root, and its buffers
  fit the scratch arena; an integer of 16384 limbs or more stops the machine at the first two
  buffers; a negative operand is a domain error.
\<close>

theorem isqrt_correct:
  assumes "wf_int v"
  shows "if ival v < 0 then primitive_isqrt [v] = Some (Inl (DomainError v ''<INTEGER>''))
    else (limb_count (ival v) \<le> 6553 \<longrightarrow>
           (\<exists>r. primitive_isqrt [v] = Some (Inr r) \<and> wf_int r \<and> 0 \<le> ival r \<and>
              ival r * ival r \<le> ival v \<and> ival v < (ival r + 1) * (ival r + 1))) \<and>
         (16384 \<le> limb_count (ival v) \<longrightarrow> primitive_isqrt [v] = Some (Inl LimbArenaExhausted))"
proof (cases "ival v < 0")
  case True
  then show ?thesis
    using sgn_ival [OF assms surjective_pairing] by (simp add: primitive_isqrt_def Let_def)
next
  case False
  have "\<exists>r. primitive_isqrt [v] = Some (Inr r) \<and> wf_int r \<and> 0 \<le> ival r \<and>
      ival r * ival r \<le> ival v \<and> ival v < (ival r + 1) * (ival r + 1)" if "limb_count (ival v) \<le> 6553"
  proof -
    have "5 * limb_count (ival v) + 2 \<le> LIMB_ARENA_LIMBS" using that by (simp add: LIMB_ARENA_LIMBS_def)
    then obtain r where r: "primitive_isqrt [v] = Some (Inr r)" "wf_int r" "0 \<le> ival r"
      "is_isqrt (nat (ival v)) (nat (ival r))"
      using isqrt_int_result [OF assms] False by auto
    have "int (nat (ival r) * nat (ival r)) \<le> int (nat (ival v))"
      "int (nat (ival v)) < int ((nat (ival r) + 1) * (nat (ival r) + 1))"
      using r(4) unfolding is_isqrt_def by (simp_all only: of_nat_le_iff of_nat_less_iff)
    then show ?thesis using False r(1-3) by (simp add: algebra_simps)
  qed
  moreover have "primitive_isqrt [v] = Some (Inl LimbArenaExhausted)" if "16384 \<le> limb_count (ival v)"
    using isqrt_exhausted [OF assms _ that] False by simp
  ultimately show ?thesis using False by simp
qed

theorem isqrt_correct_witness:
  "\<exists>r. primitive_isqrt [Bignum False [0, 0, 1]] = Some (Inr r) \<and> ival r * ival r \<le> 2 ^ 64 \<and>
     2 ^ 64 < (ival r + 1) * (ival r + 1)"
proof -
  have "wf_int (Bignum False [0, 0, 1])" by (simp add: imm_eval)
  note isqrt_correct [OF this]
  moreover have "ival (Bignum False [0, 0, 1]) = 2 ^ 64" by (simp add: imm_eval)
  moreover have "limb_count (2 ^ 64) \<le> 6553" by (simp add: limb_count_def mag_limbs.simps)
  ultimately show ?thesis by auto
qed

text \<open>
  \<open>max\<close> and \<open>min\<close> return one of their arguments, and no argument exceeds (is below)
  it; \<open>abs\<close> returns the canonical absolute value.
\<close>

theorem max_min_abs_correct:
  assumes "wf_int a" "list_all wf_int rest"
  shows "(\<exists>m. primitive_max fp (a # rest) = Inr m \<and> m \<in> set (a # rest) \<and> (\<forall>x\<in>set (a # rest). ival x \<le> ival m)) \<and>
    (\<exists>m. primitive_min fp (a # rest) = Inr m \<and> m \<in> set (a # rest) \<and> (\<forall>x\<in>set (a # rest). ival m \<le> ival x)) \<and>
    (\<exists>v. primitive_abs fp [a] = Inr v \<and> wf_int v \<and> ival v = \<bar>ival a\<bar>)"
  using max_loop_int [OF assms] min_loop_int [OF assms] abs_int_result [OF assms(1)]
  by (simp add: primitive_max_def primitive_min_def int_result_def)

text \<open>
  An operand that is no number makes the arithmetic primitives signal
  \<open><domain-error>\<close> for the first such operand, on the float path as on the integer path.
\<close>

theorem non_number_signals:
  assumes "first_non_number (a # rest) = Some bad"
  shows "primitive_add fp (a # rest) = Inl (DomainError bad ''<NUMBER>'') \<and>
    primitive_multiply fp (a # rest) = Inl (DomainError bad ''<NUMBER>'') \<and>
    primitive_subtract fp (a # rest) = Inl (DomainError bad ''<NUMBER>'')"
proof -
  have sub: "primitive_subtract fp (a # rest) = Inl (DomainError bad ''<NUMBER>'')"
  proof (cases "args_float_kind 0 (a # rest) \<noteq> 0")
    case True
    then show ?thesis
      using assms float_fold_bad [of rest bad fp "f_sub fp"]
      by (auto simp: primitive_subtract_def Let_def split: if_splits)
  next
    case False
    have f: "fixnum_fold sub_fixnum_step w rest = None" if "a = Imm w" "w AND TAG_MASK = TAG_FIXNUM" for w
    proof (cases "fixnum_fold sub_fixnum_step w rest")
      case (Some r)
      then have "list_all is_fixnum (a # rest)" using sub_fold.fixnum_fold_fixnums that by simp
      then show ?thesis using fixnum_args assms by fastforce
    qed
    show ?thesis
    proof (cases "rest = []")
      case True
      then have "bad = a" "\<not> is_number_val a" using assms by (simp_all split: if_splits)
      moreover have "\<not> is_fixnum a" using calculation(2) by (simp add: is_number_val_def)
      ultimately show ?thesis
        using False True by (cases a) (simp_all add: primitive_subtract_def Let_def)
    next
      case ne: False
      have "primitive_subtract fp (a # rest) =
        (case (case a of Imm w \<Rightarrow> if w AND TAG_MASK = TAG_FIXNUM then fixnum_fold sub_fixnum_step w rest else None
               | _ \<Rightarrow> None) of
           Some r \<Rightarrow> Inr (Imm r) | None \<Rightarrow> Inl (DomainError bad ''<NUMBER>''))"
        unfolding primitive_subtract_def assms using ne False
        by (simp add: Let_def cong: option.case_cong del: args_float_kind.simps)
      then show ?thesis using f by (cases a) simp_all
    qed
  qed
  then show ?thesis
    using float_fold_bad [OF assms] fold_bad [OF assms] assms
    by (simp add: primitive_add_def primitive_multiply_def del: args_float_kind.simps first_non_number.simps
        float_fold.simps fixnum_fold.simps)
qed

lemma decompose_non_integer:
  "\<not> is_fixnum v \<Longrightarrow> \<not> is_bignum v \<Longrightarrow> decompose v = (False, [])"
  by (cases v) (simp_all add: decompose_def is_bignum_def)

lemma div_five_by_nothing: "floor_divmod (Imm (os_make_fixnum 5)) Nil =
    Inr (Some (Kept (Imm (os_make_fixnum 4294967295)), Imm (os_make_fixnum 5)))"
proof -
  have "mag_divmod [5] [] = ([4294967295], [5])" by code_simp
  moreover have "decompose (Imm (os_make_fixnum 5)) = (False, [5])" "decompose Nil = (False, [])"
    "os_make_integer False [4294967295] = Imm (os_make_fixnum 4294967295)"
    "os_make_integer False [5] = Imm (os_make_fixnum 5)" by code_simp+
  moreover have "decompose (Imm (os_make_fixnum 4294967295)) = (False, [4294967295])" by code_simp
  ultimately show ?thesis
    by (simp add: floor_divmod_def is_zero_mag_def lbind_alloc LIMB_ARENA_LIMBS_def across_allocation_def is_bignum_def)
qed

text \<open>
  The integer functions do not check the type of their operands: a value that is no
  integer decomposes to an empty magnitude, which the test for a zero divisor misses, and
  the long division subtracts nothing at every bit. Dividing 5 by any such value returns
  2^32 - 1 and leaves 5, where an error is due.
\<close>

theorem div_by_non_integer:
  assumes "\<not> is_fixnum v" "\<not> is_bignum v"
  shows "primitive_div [Imm (os_make_fixnum 5), v] = Inr (Kept (Imm (os_make_fixnum 4294967295))) \<and>
    primitive_mod [Imm (os_make_fixnum 5), v] = Inr (Imm (os_make_fixnum 5))"
proof -
  have "decompose v = decompose Nil"
    using decompose_non_integer [OF assms] by (simp add: decompose_def)
  then have "floor_divmod (Imm (os_make_fixnum 5)) v = floor_divmod (Imm (os_make_fixnum 5)) Nil"
    by (simp only: floor_divmod_def)
  then show ?thesis by (simp add: primitive_div_def primitive_mod_def div_five_by_nothing)
qed

end
