(* ===== verification/Reader.thy ===== *)
theory Reader
  imports Numbers
begin

unbundle bit_operations_syntax

text \<open>
  The S-expression reader of \<^verbatim>\<open>src/c/reader.c\<close>, with the constructors of
  \<^verbatim>\<open>src/c/runtime.c\<close> it calls. A source of characters is the list of the characters it
  still delivers; theory \<open>Streams\<close> proves that the streams on strings and files deliver
  such lists.

  A syntax error is the value the code returns, the symbol \<open>READ-ERROR\<close>. The recursion of
  \<open>read_expr\<close>, \<open>read_list\<close> and \<open>read_list_rest\<close> runs on fuel; twice the length of the input
  is enough, so that \<open>NoFuel\<close> never comes out of \<open>os_read_stream\<close>. \<open>HeapOverrun\<close> is a write
  beyond the block an array literal allocated.
\<close>

subsection \<open>Characters\<close>

definition code :: "char \<Rightarrow> nat" where
  "code c = of_char c"

definition is_whitespace :: "char \<Rightarrow> bool" where
  "is_whitespace c \<longleftrightarrow> c = CHR '' '' \<or> c = CHR 0x09 \<or> c = CHR 0x0A \<or> c = CHR 0x0D"

definition is_delimiter :: "char \<Rightarrow> bool" where
  "is_delimiter c \<longleftrightarrow>
     is_whitespace c \<or> c = CHR ''('' \<or> c = CHR '')'' \<or> c = CHR 0x22 \<or> c = CHR 0x27 \<or>
     c = CHR 0x60 \<or> c = CHR '','' \<or> c = CHR '';''"

definition is_digit :: "char \<Rightarrow> bool" where
  "is_digit c \<longleftrightarrow> 48 \<le> code c \<and> code c \<le> 57"

fun skip_comment :: "char list \<Rightarrow> char list" where
  "skip_comment [] = []"
| "skip_comment (c # s) = (if c \<noteq> CHR 0x0A then skip_comment s else c # s)"

lemma skip_comment_length: "length (skip_comment s) \<le> length s"
  by (induction s) auto

function skip_whitespace :: "char list \<Rightarrow> char list" where
  "skip_whitespace [] = []"
| "skip_whitespace (c # s) =
     (if is_whitespace c then skip_whitespace s
      else if c = CHR '';'' then skip_whitespace (skip_comment (c # s))
      else c # s)"
  by pat_completeness auto
termination
  by (relation "measure length") (auto simp: le_imp_less_Suc skip_comment_length)

subsection \<open>Symbols and strings\<close>

definition to_upper :: "char \<Rightarrow> char" where
  "to_upper c = (if 0x60 < code c \<and> code c < 0x7B then char_of (code c - 0x20) else c)"

text \<open>The token buffers are NUL terminated, so a NUL byte in the input ends the name or string.\<close>

definition os_make_symbol :: "string \<Rightarrow> lval" where
  "os_make_symbol name =
     (let n = map to_upper (cstr name) in if n = ''NIL'' then Nil else Sym n)"

definition os_make_string :: "string \<Rightarrow> lval" where
  "os_make_string s = Str (cstr s)"

definition g_sym_read_error :: lval where "g_sym_read_error = Sym ''READ-ERROR''"
definition g_sym_eval_error :: lval where "g_sym_eval_error = Sym ''EVAL-ERROR''"
definition g_sym_dot :: lval where "g_sym_dot = Sym ''.''"
definition g_sym_quote :: lval where "g_sym_quote = Sym ''QUOTE''"
definition g_sym_quasiquote :: lval where "g_sym_quasiquote = Sym ''QUASIQUOTE''"
definition g_sym_unquote :: lval where "g_sym_unquote = Sym ''UNQUOTE''"
definition g_sym_unquote_splicing :: lval where
  "g_sym_unquote_splicing = Sym ''UNQUOTE-SPLICING''"
definition g_sym_function :: lval where "g_sym_function = Sym ''FUNCTION''"

subsection \<open>Tokens\<close>

definition READER_TOKEN_MAX :: nat where "READER_TOKEN_MAX = 128"

definition token_push :: "string \<Rightarrow> char \<Rightarrow> string" where
  "token_push token c = (if length token < READER_TOKEN_MAX - 1 then token @ [c] else token)"

fun token_loop :: "string \<Rightarrow> char list \<Rightarrow> string \<times> char list" where
  "token_loop token [] = (token, [])"
| "token_loop token (c # s) =
     (if \<not> is_delimiter c then token_loop (token_push token c) s else (token, c # s))"

fun string_loop :: "string \<Rightarrow> char list \<Rightarrow> (string \<times> char list) option" where
  "string_loop token [] = None"
| "string_loop token (c # s) =
     (if c = CHR 0x22 then Some (token, s)
      else if c = CHR 0x5C
      then (case s of [] \<Rightarrow> None | c' # s' \<Rightarrow> string_loop (token_push token c') s')
      else string_loop (token_push token c) s)"

definition read_string :: "char list \<Rightarrow> lval \<times> char list" where
  "read_string s =
     (case string_loop [] s of
        None \<Rightarrow> (g_sym_read_error, [])
      | Some (token, s') \<Rightarrow> (os_make_string token, s'))"

subsection \<open>Numbers\<close>

definition token_negative :: "string \<Rightarrow> bool" where
  "token_negative token \<longleftrightarrow> 0 < length token \<and> token ! 0 = CHR ''-''"

definition digit_start :: "string \<Rightarrow> nat" where
  "digit_start token =
     (if token_negative token \<or> (0 < length token \<and> token ! 0 = CHR ''+'') then 1 else 0)"

definition digit_val :: "char \<Rightarrow> u64" where
  "digit_val c = of_nat (code c - 48)"

definition read_decimal :: "bool \<Rightarrow> string \<Rightarrow> lval" where
  "read_decimal negative digits =
     os_make_integer negative
       (foldl (\<lambda>limbs c. mag_mul_small_add_small limbs 10 (digit_val c)) [0] digits)"

definition float_exponent_marker_kind :: "char \<Rightarrow> char option" where
  "float_exponent_marker_kind c =
     (if c = CHR ''e'' \<or> c = CHR ''E'' then Some (CHR ''e'')
      else if c = CHR ''f'' \<or> c = CHR ''F'' then Some (CHR ''f'')
      else if c = CHR ''d'' \<or> c = CHR ''D'' then Some (CHR ''d'')
      else None)"

definition is_float_token_char :: "char \<Rightarrow> bool" where
  "is_float_token_char c \<longleftrightarrow>
     is_digit c \<or> c = CHR ''.'' \<or> float_exponent_marker_kind c \<noteq> None \<or> c = CHR ''+'' \<or> c = CHR ''-''"

definition has_extended_float_marker :: "string \<Rightarrow> bool" where
  "has_extended_float_marker s \<longleftrightarrow>
     list_ex (\<lambda>c. float_exponent_marker_kind c \<in> {Some (CHR ''f''), Some (CHR ''d'')}) s"

definition mantissa_of :: "fpu \<Rightarrow> string \<Rightarrow> u64" where
  "mantissa_of fp digits =
     foldl (\<lambda>m c. f_add fp (f_mul fp m (f_of_uint fp 10)) (f_of_uint fp (digit_val c))) (f_zero fp) digits"

text \<open>The exponent is an \<open>int\<close> of 32 bits; its overflow is written as wrap-around.\<close>

definition exponent_of :: "string \<Rightarrow> int" where
  "exponent_of digits =
     sint (foldl (\<lambda>e c. e * 10 + of_nat (code c - 48)) (0 :: 32 word) digits)"

definition scale10 :: "fpu \<Rightarrow> int \<Rightarrow> u64 \<Rightarrow> u64" where
  "scale10 fp e m =
     (if e > 0 then ((\<lambda>v. f_mul fp v (f_of_uint fp 10)) ^^ nat e) m
      else ((\<lambda>v. f_div fp v (f_of_uint fp 10)) ^^ nat (- e)) m)"

text \<open>
  The exponent part: marker kind and signed exponent with the characters after it, no
  marker at all, or a marker without digits.
\<close>

datatype exp_part = NoExp | BadExp | Exp char int string

definition parse_exponent :: "string \<Rightarrow> exp_part" where
  "parse_exponent s =
     (case s of
        [] \<Rightarrow> NoExp
      | c # r \<Rightarrow>
          (case float_exponent_marker_kind c of
             None \<Rightarrow> NoExp
           | Some k \<Rightarrow>
               (let exp_negative = (r \<noteq> [] \<and> hd r = CHR ''-'');
                    r' = (if r \<noteq> [] \<and> (hd r = CHR ''+'' \<or> hd r = CHR ''-'') then tl r else r);
                    ds = takeWhile is_digit r'
                in if ds = [] then BadExp
                   else Exp k (if exp_negative then - exponent_of ds else exponent_of ds)
                          (dropWhile is_digit r'))))"

definition parse_float_token :: "fpu \<Rightarrow> bool \<Rightarrow> string \<Rightarrow> bool \<Rightarrow> lval" where
  "parse_float_token fp default_single body negative =
     (let ip = takeWhile is_digit body; r1 = dropWhile is_digit body;
          has_dot = (r1 \<noteq> [] \<and> hd r1 = CHR ''.'');
          frac = (if has_dot then takeWhile is_digit (tl r1) else []);
          r2 = (if has_dot then dropWhile is_digit (tl r1) else r1)
      in if ip = [] \<or> (has_dot \<and> frac = []) then g_sym_read_error
         else (let (ok, has_exp, kind, ex, r3) =
                     (case parse_exponent r2 of
                        NoExp \<Rightarrow> (True, False, CHR 0x00, 0, r2)
                      | BadExp \<Rightarrow> (False, True, CHR 0x00, 0, r2)
                      | Exp k e r \<Rightarrow> (True, True, k, e, r))
               in if \<not> ok \<or> r3 \<noteq> [] \<or> (\<not> has_dot \<and> \<not> has_exp) then g_sym_read_error
                  else (let v = scale10 fp (ex - int (length frac)) (mantissa_of fp (ip @ frac));
                            value = (if negative then f_neg fp v else v);
                            want_single = (if kind = CHR ''f'' then True
                                           else if kind = CHR ''d'' then False else default_single)
                        in if want_single then Imm (os_make_single_float (f_to_single fp value))
                           else DFloat value)))"

definition atom_of_token :: "fpu \<Rightarrow> bool \<Rightarrow> string \<Rightarrow> lval" where
  "atom_of_token fp default_single token =
     (let negative = token_negative token;
          body = drop (digit_start token) token
      in if body \<noteq> [] \<and> list_all is_digit body then read_decimal negative body
         else if token = ''1+'' \<or> token = ''1-'' then os_make_symbol token
         else if body \<noteq> [] \<and> list_all is_float_token_char body \<and> list_ex is_digit body
         then (let parsed = parse_float_token fp default_single body negative
               in if parsed \<noteq> g_sym_read_error then parsed
                  else if has_extended_float_marker body then os_make_symbol token
                  else parsed)
         else os_make_symbol token)"

definition read_atom :: "fpu \<Rightarrow> bool \<Rightarrow> char list \<Rightarrow> lval \<times> char list" where
  "read_atom fp default_single s =
     (case token_loop [] s of (token, s') \<Rightarrow> (atom_of_token fp default_single token, s'))"

definition digit_value_in_radix :: "char \<Rightarrow> nat \<Rightarrow> nat option" where
  "digit_value_in_radix c radix =
     (let n = code c;
          v = (if 48 \<le> n \<and> n \<le> 57 then Some (n - 48)
               else if 65 \<le> n \<and> n \<le> 70 then Some (10 + (n - 65))
               else if 97 \<le> n \<and> n \<le> 102 then Some (10 + (n - 97))
               else None)
      in case v of None \<Rightarrow> None | Some d \<Rightarrow> if d < radix then Some d else None)"

fun radix_loop :: "nat \<Rightarrow> u64 list \<Rightarrow> string \<Rightarrow> u64 list option" where
  "radix_loop radix limbs [] = Some limbs"
| "radix_loop radix limbs (c # cs) =
     (case digit_value_in_radix c radix of
        None \<Rightarrow> None
      | Some v \<Rightarrow> radix_loop radix (mag_mul_small_add_small limbs (of_nat radix) (of_nat v)) cs)"

definition read_radix_integer :: "char list \<Rightarrow> nat \<Rightarrow> lval \<times> char list" where
  "read_radix_integer s radix =
     (case token_loop [] s of
        (token, s') \<Rightarrow>
          (if length token \<le> digit_start token then (g_sym_read_error, s')
           else case radix_loop radix [0] (drop (digit_start token) token) of
             None \<Rightarrow> (g_sym_read_error, s')
           | Some limbs \<Rightarrow> (os_make_integer (token_negative token) limbs, s')))"

subsection \<open>Character literals\<close>

definition CHAR_NAME_MAX :: nat where "CHAR_NAME_MAX = 16"

definition char_name_matches :: "string \<Rightarrow> string \<Rightarrow> bool" where
  "char_name_matches buf name \<longleftrightarrow> length buf = length name \<and> map to_upper buf = name"

fun char_loop :: "string \<Rightarrow> char list \<Rightarrow> string \<times> char list" where
  "char_loop buf [] = (buf, [])"
| "char_loop buf (c # s) =
     (if length buf < CHAR_NAME_MAX - 1 \<and> \<not> is_delimiter c then char_loop (buf @ [c]) s
      else (buf, c # s))"

definition os_make_char :: "char \<Rightarrow> lval" where
  "os_make_char c = Imm (os_make_char_from_code (of_nat (code c)))"

definition read_char_literal :: "char list \<Rightarrow> lval \<times> char list" where
  "read_char_literal s =
     (case s of
        [] \<Rightarrow> (g_sym_read_error, [])
      | c # s1 \<Rightarrow>
          (case char_loop [c] s1 of
             (buf, s2) \<Rightarrow>
               (if length buf = 1 then os_make_char (buf ! 0)
                else if char_name_matches buf ''SPACE'' then os_make_char (CHR '' '')
                else if char_name_matches buf ''NEWLINE'' then os_make_char (CHR 0x0A)
                else if char_name_matches buf ''TAB'' then os_make_char (CHR 0x09)
                else g_sym_read_error, s2)))"

subsection \<open>Vectors and arrays\<close>

fun is_proper_list :: "lval \<Rightarrow> bool" where
  "is_proper_list Nil = True"
| "is_proper_list (Cons a d) = is_proper_list d"
| "is_proper_list _ = False"

fun list_elems :: "lval \<Rightarrow> lval list" where
  "list_elems (Cons a d) = a # list_elems d"
| "list_elems _ = []"

definition os_make_vector_from_list :: "lval \<Rightarrow> lval" where
  "os_make_vector_from_list l = Vec [length (list_elems l)] (list_elems l)"

definition MAX_ARRAY_RANK :: nat where "MAX_ARRAY_RANK = 8"

fun cc_car :: "lval \<Rightarrow> lval" where
  "cc_car (Cons a d) = a"
| "cc_car _ = Nil"

fun probe_dims :: "nat \<Rightarrow> lval \<Rightarrow> nat list option" where
  "probe_dims 0 probe = Some []"
| "probe_dims (Suc k) probe =
     (if \<not> is_proper_list probe then None
      else case probe_dims k (cc_car probe) of
        None \<Rightarrow> None | Some ds \<Rightarrow> Some (length (list_elems probe) # ds))"

text \<open>
  \<open>fill_array_from_nested\<close> writes the element before it compares lengths. \<open>None\<close> is a write
  at or beyond the capacity of the block, \<open>Some (ok, data)\<close> the result with what is written.
\<close>

function (sequential)
  fill_array :: "nat \<Rightarrow> nat list \<Rightarrow> lval \<Rightarrow> lval list \<Rightarrow> (bool \<times> lval list) option" and
  fill_items :: "nat \<Rightarrow> nat list \<Rightarrow> lval \<Rightarrow> lval list \<Rightarrow> (bool \<times> nat \<times> lval list) option"
where
  "fill_array cap [] v data = (if length data < cap then Some (True, data @ [v]) else None)"
| "fill_array cap (d # ds) v data =
     (case fill_items cap ds v data of
        None \<Rightarrow> None
      | Some (ok, n, data') \<Rightarrow> Some (ok \<and> n = d, data'))"
| "fill_items cap ds Nil data = Some (True, 0, data)"
| "fill_items cap ds (Cons a r) data =
     (case fill_array cap ds a data of
        None \<Rightarrow> None
      | Some (False, data') \<Rightarrow> Some (False, 0, data')
      | Some (True, data') \<Rightarrow>
          (case fill_items cap ds r data' of
             None \<Rightarrow> None | Some (ok, n, data'') \<Rightarrow> Some (ok, Suc n, data'')))"
| "fill_items cap ds _ data = Some (False, 0, data)"
  by pat_completeness auto
termination
  by (relation "measures [\<lambda>x. case x of Inl (c, ds, v, d) \<Rightarrow> size v | Inr (c, ds, v, d) \<Rightarrow> size v,
                          \<lambda>x. case x of Inl (c, ds, v, d) \<Rightarrow> 1 | Inr (c, ds, v, d) \<Rightarrow> 0]") auto

datatype array_result = ArrayOverrun | Array lval

text \<open>
  The element words of the block that \<open>alloc_vector_block\<close> gets for a rank, the dimensions and
  the elements: \<open>os_alloc_bytes\<close> rounds the request up to 16 bytes, two words.
\<close>

definition block_cells :: "nat \<Rightarrow> nat list \<Rightarrow> nat" where
  "block_cells rank dims = (let words = 1 + rank + prod_list dims in words + words mod 2 - (1 + rank))"

definition os_make_array_from_nested_list :: "nat \<Rightarrow> lval \<Rightarrow> array_result" where
  "os_make_array_from_nested_list rank nested =
     (if rank > MAX_ARRAY_RANK then Array g_sym_eval_error
      else case probe_dims rank nested of
        None \<Rightarrow> Array g_sym_eval_error
      | Some dims \<Rightarrow>
          (case fill_array (block_cells rank dims) dims nested [] of
             None \<Rightarrow> ArrayOverrun
           | Some (ok, data) \<Rightarrow> Array (if ok then Vec dims data else g_sym_eval_error)))"

subsection \<open>Expressions\<close>

datatype read_result = NoFuel | HeapOverrun | Got lval "char list"

fun then_read :: "read_result \<Rightarrow> (lval \<Rightarrow> char list \<Rightarrow> read_result) \<Rightarrow> read_result" where
  "then_read (Got v s) k = (if v = g_sym_read_error then Got v s else k v s)"
| "then_read NoFuel k = NoFuel"
| "then_read HeapOverrun k = HeapOverrun"

definition fail_read :: "char list \<Rightarrow> read_result" where
  "fail_read s = Got g_sym_read_error s"

fun read_rank :: "u64 \<Rightarrow> char list \<Rightarrow> u64 \<times> char list" where
  "read_rank rank [] = (rank, [])"
| "read_rank rank (c # s) =
     (if is_digit c then read_rank (rank * 10 + digit_val c) s else (rank, c # s))"

text \<open>
  The functions call one another on what is left of the source. Each takes the readers it
  calls as \<open>rd\<close>, indexed by the function, and \<open>read_rec\<close> ties the knot on fuel.
\<close>

datatype read_mode = EXPR | LIST | REST | QUOTED lval | HASH

type_synonym reader = "read_mode \<Rightarrow> char list \<Rightarrow> read_result"

definition read_list_rest :: "reader \<Rightarrow> char list \<Rightarrow> read_result" where
  "read_list_rest rd s =
     (case skip_whitespace s of
        [] \<Rightarrow> fail_read []
      | c # s1 \<Rightarrow>
          if c = CHR '')'' then Got Nil s1
          else then_read (rd EXPR (c # s1)) (\<lambda>elem s2.
            if elem = g_sym_dot
            then (case skip_whitespace s2 of
                    [] \<Rightarrow> fail_read []
                  | c3 # s3 \<Rightarrow> then_read (rd EXPR (c3 # s3)) (\<lambda>cdr s4.
                      case skip_whitespace s4 of
                        [] \<Rightarrow> fail_read []
                      | c5 # s5 \<Rightarrow> if c5 \<noteq> CHR '')'' then fail_read (c5 # s5) else Got cdr s5))
            else then_read (rd REST s2) (\<lambda>rest s3. Got (Cons elem rest) s3)))"

definition read_list :: "reader \<Rightarrow> char list \<Rightarrow> read_result" where
  "read_list rd s =
     (case skip_whitespace s of
        [] \<Rightarrow> fail_read []
      | c # s1 \<Rightarrow>
          if c = CHR '')'' then Got Nil s1
          else then_read (rd EXPR (c # s1)) (\<lambda>car s2.
            if car = g_sym_dot then fail_read s2
            else then_read (rd REST s2) (\<lambda>cdr s3. Got (Cons car cdr) s3)))"

definition read_quoted :: "reader \<Rightarrow> lval \<Rightarrow> char list \<Rightarrow> read_result" where
  "read_quoted rd q s =
     (case skip_whitespace s of
        [] \<Rightarrow> fail_read []
      | c # s1 \<Rightarrow> then_read (rd EXPR (c # s1)) (\<lambda>quoted s2. Got (Cons q (Cons quoted Nil)) s2))"

definition got :: "lval \<times> char list \<Rightarrow> read_result" where
  "got p = Got (fst p) (snd p)"

definition read_array :: "reader \<Rightarrow> u64 \<Rightarrow> char list \<Rightarrow> read_result" where
  "read_array rd rank s =
     (case s of
        [] \<Rightarrow> fail_read []
      | c # s1 \<Rightarrow>
          if c \<noteq> CHR ''a'' \<and> c \<noteq> CHR ''A'' then fail_read s1
          else (case skip_whitespace s1 of
                  [] \<Rightarrow> fail_read []
                | c2 # s2 \<Rightarrow> then_read (rd EXPR (c2 # s2)) (\<lambda>contents s3.
                    case os_make_array_from_nested_list (unat rank) contents of
                      ArrayOverrun \<Rightarrow> HeapOverrun
                    | Array v \<Rightarrow> if v = g_sym_eval_error then fail_read s3 else Got v s3)))"

definition read_hash :: "reader \<Rightarrow> char list \<Rightarrow> read_result" where
  "read_hash rd s =
     (case s of
        [] \<Rightarrow> fail_read []
      | c # s1 \<Rightarrow>
          if c = CHR 0x27 then rd (QUOTED g_sym_function) s1
          else if c = CHR 0x5C then got (read_char_literal s1)
          else if c = CHR ''b'' \<or> c = CHR ''B'' then got (read_radix_integer s1 2)
          else if c = CHR ''o'' \<or> c = CHR ''O'' then got (read_radix_integer s1 8)
          else if c = CHR ''x'' \<or> c = CHR ''X'' then got (read_radix_integer s1 16)
          else if c = CHR ''('' then then_read (rd LIST s1) (\<lambda>l s2.
            if \<not> is_proper_list l then fail_read s2 else Got (os_make_vector_from_list l) s2)
          else if is_digit c then (case read_rank 0 (c # s1) of (rank, s2) \<Rightarrow> read_array rd rank s2)
          else fail_read (c # s1))"

definition read_expr :: "fpu \<Rightarrow> bool \<Rightarrow> reader \<Rightarrow> char list \<Rightarrow> read_result" where
  "read_expr fp sg rd s =
     (case s of
        [] \<Rightarrow> fail_read []
      | c # s1 \<Rightarrow>
          if c = CHR ''('' then rd LIST s1
          else if c = CHR '')'' then fail_read s1
          else if c = CHR 0x22 then got (read_string s1)
          else if c = CHR 0x27 then rd (QUOTED g_sym_quote) s1
          else if c = CHR 0x60 then rd (QUOTED g_sym_quasiquote) s1
          else if c = CHR '',''
          then (if s1 \<noteq> [] \<and> hd s1 = CHR ''@'' then rd (QUOTED g_sym_unquote_splicing) (tl s1)
                else rd (QUOTED g_sym_unquote) s1)
          else if c = CHR ''#'' then rd HASH s1
          else got (read_atom fp sg s))"

primrec read_rec :: "fpu \<Rightarrow> bool \<Rightarrow> nat \<Rightarrow> read_mode \<Rightarrow> char list \<Rightarrow> read_result" where
  "read_rec fp sg 0 m s = NoFuel"
| "read_rec fp sg (Suc n) m s =
     (case m of
        EXPR \<Rightarrow> read_expr fp sg (read_rec fp sg n) s
      | LIST \<Rightarrow> read_list (read_rec fp sg n) s
      | REST \<Rightarrow> read_list_rest (read_rec fp sg n) s
      | QUOTED q \<Rightarrow> read_quoted (read_rec fp sg n) q s
      | HASH \<Rightarrow> read_hash (read_rec fp sg n) s)"

text \<open>
  \<open>os_read_stream_ex\<close> after its set-up: \<open>nil\<close> for a stream that has nothing but white space and
  comments left. The reader of a process does the same on the characters typed, but waits for
  more where they end; that wait is not modelled.
\<close>

definition os_read_stream :: "fpu \<Rightarrow> bool \<Rightarrow> char list \<Rightarrow> read_result" where
  "os_read_stream fp sg s =
     (case skip_whitespace s of
        [] \<Rightarrow> Got Nil []
      | c # s1 \<Rightarrow> read_rec fp sg (2 * length (c # s1)) EXPR (c # s1))"

definition os_parse_number :: "fpu \<Rightarrow> bool \<Rightarrow> string \<Rightarrow> read_result lres" where
  "os_parse_number fp sg str =
     (let buf = cstr (take (READER_TOKEN_MAX - 1) str);
          r = (if buf \<noteq> [] then read_rec fp sg (2 * length buf) EXPR buf else fail_read [])
      in case r of
           Got v s \<Rightarrow>
             if v \<noteq> g_sym_read_error \<and> s = [] \<and> is_number_val v then Inr r else Inl (ParseError str)
         | _ \<Rightarrow> Inr r)"

subsection \<open>Tokens\<close>

lemma token_loop_eq:
  "length t \<le> 127 \<Longrightarrow>
     token_loop t s = (take 127 (t @ takeWhile (\<lambda>c. \<not> is_delimiter c) s), dropWhile (\<lambda>c. \<not> is_delimiter c) s)"
proof (induction t s rule: token_loop.induct)
  case (2 t c s)
  then show ?case
    by (cases "length t < 127") (simp_all add: token_push_def READER_TOKEN_MAX_def)
qed simp

definition delim_start :: "char list \<Rightarrow> bool" where
  "delim_start s \<longleftrightarrow> s = [] \<or> is_delimiter (hd s)"

lemma token_loop_exact:
  assumes "length t \<le> 127" "list_all (\<lambda>c. \<not> is_delimiter c) t" "delim_start rest"
  shows "token_loop [] (t @ rest) = (t, rest)"
proof -
  have "takeWhile (\<lambda>c. \<not> is_delimiter c) (t @ rest) = t" "dropWhile (\<lambda>c. \<not> is_delimiter c) (t @ rest) = rest"
    using assms(2,3) by (cases rest; simp add: list_all_iff delim_start_def)+
  then show ?thesis using assms(1) by (simp add: token_loop_eq)
qed

lemma token_loop_rest_length: "length (snd (token_loop t s)) \<le> length s"
  by (induction t s rule: token_loop.induct) auto

lemma token_loop_rest_less: "s \<noteq> [] \<Longrightarrow> \<not> is_delimiter (hd s) \<Longrightarrow> length (snd (token_loop t s)) < length s"
  using token_loop_rest_length by (cases s) (auto simp: le_imp_less_Suc)

lemma string_loop_length: "string_loop t s = Some (t', s') \<Longrightarrow> length s' < length s"
proof (induction t s rule: string_loop.induct)
  case (2 t c s)
  then show ?case by (fastforce split: if_splits list.splits)
qed simp

lemma char_loop_length: "length (snd (char_loop t s)) \<le> length s"
  by (induction t s rule: char_loop.induct) auto

lemma skip_whitespace_length: "length (skip_whitespace s) \<le> length s"
proof (induction s rule: skip_whitespace.induct)
  case (2 c s)
  then show ?case using skip_comment_length [of "c # s"] by auto
qed simp

lemma read_rank_length: "length (snd (read_rank r s)) \<le> length s"
  by (induction r s rule: read_rank.induct) auto

lemma skip_comment_Nil_or_newline: "skip_comment s = [] \<or> hd (skip_comment s) = CHR 0x0A"
  by (induction s) auto

text \<open>What is left after white space starts with a character that begins an expression.\<close>

definition expr_start :: "char list \<Rightarrow> bool" where
  "expr_start s \<longleftrightarrow> s \<noteq> [] \<and> \<not> is_whitespace (hd s) \<and> hd s \<noteq> CHR '';''"

lemma skip_whitespace_start: "skip_whitespace s = [] \<or> expr_start (skip_whitespace s)"
  by (induction s rule: skip_whitespace.induct) (auto simp: expr_start_def)

lemma skip_whitespace_id: "expr_start s \<Longrightarrow> skip_whitespace s = s"
  by (cases s) (simp_all add: expr_start_def)

subsection \<open>The reader ends\<close>

text \<open>
  Twice the length of the input is enough fuel, because every call on the same input
  consumes a character before it comes back to the same function.
\<close>

definition fuel_ok :: "read_mode \<Rightarrow> nat \<Rightarrow> char list \<Rightarrow> bool" where
  "fuel_ok m n s \<longleftrightarrow> (if m = EXPR then expr_start s \<and> 2 * length s \<le> n else 2 * length s < n)"

definition consumes :: "read_mode \<Rightarrow> char list \<Rightarrow> read_result \<Rightarrow> bool" where
  "consumes m s r \<longleftrightarrow>
     r \<noteq> NoFuel \<and> (\<forall>v s'. r = Got v s' \<longrightarrow> (if m = EXPR then length s' < length s else length s' \<le> length s))"

lemma consumes_got [simp]:
  "consumes m s (Got v s') \<longleftrightarrow> (if m = EXPR then length s' < length s else length s' \<le> length s)"
  "consumes m s HeapOverrun" "\<not> consumes m s NoFuel"
  "consumes m s (fail_read s') \<longleftrightarrow> (if m = EXPR then length s' < length s else length s' \<le> length s)"
  "consumes m s (got p) \<longleftrightarrow> (if m = EXPR then length (snd p) < length s else length (snd p) \<le> length s)"
  by (auto simp: consumes_def fail_read_def got_def)

lemma then_read_consumes:
  assumes "consumes m' s' r" "length s' \<le> length s" "m = EXPR \<Longrightarrow> length s' < length s"
    and "\<And>v s1. v \<noteq> g_sym_read_error \<Longrightarrow> r = Got v s1 \<Longrightarrow> consumes m s (k v s1)"
  shows "consumes m s (then_read r k)"
  using assms by (cases r) (auto split: if_splits)

lemma read_atom_length: "expr_start s \<Longrightarrow> hd s \<notin> {CHR ''('', CHR '')'', CHR 0x22, CHR 0x27, CHR 0x60, CHR '',''} \<Longrightarrow>
    length (snd (read_atom fp sg s)) < length s"
  using token_loop_rest_less [of s "[]"]
  by (auto simp: read_atom_def is_delimiter_def expr_start_def split: prod.splits)

lemma read_string_length: "length (snd (read_string s)) \<le> length s"
  by (auto simp: read_string_def less_imp_le dest: string_loop_length split: option.splits)

lemma read_radix_length: "length (snd (read_radix_integer s radix)) \<le> length s"
  using token_loop_rest_length [of "[]" s]
  by (auto simp: read_radix_integer_def split: prod.splits option.splits)

lemma read_char_length: "length (snd (read_char_literal s)) \<le> length s"
proof (cases s)
  case (Cons c s1)
  then show ?thesis using char_loop_length [of "[c]" s1] by (auto simp: read_char_literal_def split: prod.splits)
qed (simp add: read_char_literal_def)

lemma skip_consumes:
  assumes "length s \<le> length s0" "m = EXPR \<Longrightarrow> length s < length s0"
    and "\<And>c s1. expr_start (c # s1) \<Longrightarrow> length s1 < length s \<Longrightarrow> consumes m s0 (F c s1)"
    and "s0 \<noteq> [] \<or> m \<noteq> EXPR"
  shows "consumes m s0 (case skip_whitespace s of [] \<Rightarrow> fail_read [] | c # s1 \<Rightarrow> F c s1)"
proof (cases "skip_whitespace s")
  case Nil
  then show ?thesis using assms(4) by auto
next
  case (Cons c s1)
  then have "expr_start (c # s1)" "length s1 < length s"
    using skip_whitespace_start [of s] skip_whitespace_length [of s] by simp_all
  then show ?thesis using assms(3) Cons by simp
qed

definition good_reader :: "reader \<Rightarrow> nat \<Rightarrow> bool" where
  "good_reader rd n \<longleftrightarrow> (\<forall>m s. fuel_ok m n s \<longrightarrow> consumes m s (rd m s))"

lemma rd_consumes:
  assumes "good_reader rd n" "fuel_ok m' n s'" "length s' \<le> length s" "m = EXPR \<Longrightarrow> length s' < length s"
    and "\<And>v s1. length s1 \<le> length s' \<Longrightarrow> (m' = EXPR \<Longrightarrow> length s1 < length s') \<Longrightarrow> consumes m s (k v s1)"
  shows "consumes m s (then_read (rd m' s') k)"
proof -
  have "consumes m' s' (rd m' s')" using assms(1,2) by (simp add: good_reader_def)
  then show ?thesis
    by (rule then_read_consumes [OF _ assms(3,4)])
      (use \<open>consumes m' s' (rd m' s')\<close> in \<open>auto intro!: assms(5) split: if_splits\<close>)
qed

lemma if_consumes:
  "(b \<Longrightarrow> consumes m s x) \<Longrightarrow> (\<not> b \<Longrightarrow> consumes m s y) \<Longrightarrow> consumes m s (if b then x else y)"
  by simp

lemma good_readerD: "good_reader rd n \<Longrightarrow> fuel_ok m n s \<Longrightarrow> consumes m s (rd m s)"
  by (simp add: good_reader_def)

lemma read_list_rest_consumes:
  assumes rd: "good_reader rd n" and n: "2 * length s \<le> n"
  shows "consumes REST s (read_list_rest rd s)"
  unfolding read_list_rest_def
proof (rule skip_consumes)
  fix c s1 assume c: "expr_start (c # s1)" "length s1 < length s"
  show "consumes REST s (if c = CHR '')'' then Got Nil s1
        else then_read (rd EXPR (c # s1)) (\<lambda>elem s2. if elem = g_sym_dot
           then case skip_whitespace s2 of [] \<Rightarrow> fail_read []
                | c3 # s3 \<Rightarrow> then_read (rd EXPR (c3 # s3)) (\<lambda>cdr s4. case skip_whitespace s4 of
                     [] \<Rightarrow> fail_read [] | c5 # s5 \<Rightarrow> if c5 \<noteq> CHR '')'' then fail_read (c5 # s5) else Got cdr s5)
           else then_read (rd REST s2) (\<lambda>rest s3. Got (Cons elem rest) s3)))"
  proof (cases "c = CHR '')''")
    case False
    have "consumes REST s (then_read (rd EXPR (c # s1)) (\<lambda>elem s2. if elem = g_sym_dot
           then case skip_whitespace s2 of [] \<Rightarrow> fail_read []
                | c3 # s3 \<Rightarrow> then_read (rd EXPR (c3 # s3)) (\<lambda>cdr s4. case skip_whitespace s4 of
                     [] \<Rightarrow> fail_read [] | c5 # s5 \<Rightarrow> if c5 \<noteq> CHR '')'' then fail_read (c5 # s5) else Got cdr s5)
           else then_read (rd REST s2) (\<lambda>rest s3. Got (Cons elem rest) s3)))"
    proof (rule rd_consumes [OF rd])
      fix elem and s2 :: "char list" assume s2: "length s2 \<le> length (c # s1)" "EXPR = EXPR \<Longrightarrow> length s2 < length (c # s1)"
      have d: "consumes REST s (case skip_whitespace s2 of [] \<Rightarrow> fail_read []
                | c3 # s3 \<Rightarrow> then_read (rd EXPR (c3 # s3)) (\<lambda>cdr s4. case skip_whitespace s4 of
                     [] \<Rightarrow> fail_read [] | c5 # s5 \<Rightarrow> if c5 \<noteq> CHR '')'' then fail_read (c5 # s5) else Got cdr s5))"
        by (intro skip_consumes rd_consumes [OF rd]) (use s2 c n in \<open>auto simp: fuel_ok_def\<close>)
      have r: "consumes REST s (then_read (rd REST s2) (\<lambda>rest s3. Got (Cons elem rest) s3))"
        by (rule rd_consumes [OF rd]) (use s2 c n in \<open>auto simp: fuel_ok_def\<close>)
      show "consumes REST s (if elem = g_sym_dot
           then case skip_whitespace s2 of [] \<Rightarrow> fail_read []
                | c3 # s3 \<Rightarrow> then_read (rd EXPR (c3 # s3)) (\<lambda>cdr s4. case skip_whitespace s4 of
                     [] \<Rightarrow> fail_read [] | c5 # s5 \<Rightarrow> if c5 \<noteq> CHR '')'' then fail_read (c5 # s5) else Got cdr s5)
           else then_read (rd REST s2) (\<lambda>rest s3. Got (Cons elem rest) s3))"
        using d r by simp
    qed (use c n in \<open>simp_all add: fuel_ok_def\<close>)
    then show ?thesis using False by simp
  qed (use c in simp)
qed simp_all

lemma read_list_consumes:
  assumes rd: "good_reader rd n" and n: "2 * length s \<le> n"
  shows "consumes LIST s (read_list rd s)"
  unfolding read_list_def
proof (rule skip_consumes)
  fix c s1 assume c: "expr_start (c # s1)" "length s1 < length s"
  have "consumes LIST s (then_read (rd EXPR (c # s1)) (\<lambda>car s2. if car = g_sym_dot then fail_read s2
          else then_read (rd REST s2) (\<lambda>cdr s3. Got (Cons car cdr) s3)))"
  proof (rule rd_consumes [OF rd])
    fix car and s2 :: "char list" assume s2: "length s2 \<le> length (c # s1)" "EXPR = EXPR \<Longrightarrow> length s2 < length (c # s1)"
    have "consumes LIST s (then_read (rd REST s2) (\<lambda>cdr s3. Got (Cons car cdr) s3))"
      by (rule rd_consumes [OF rd]) (use s2 c n in \<open>auto simp: fuel_ok_def\<close>)
    then show "consumes LIST s (if car = g_sym_dot then fail_read s2
          else then_read (rd REST s2) (\<lambda>cdr s3. Got (Cons car cdr) s3))"
      using s2 c by simp
  qed (use c n in \<open>simp_all add: fuel_ok_def\<close>)
  then show "consumes LIST s (if c = CHR '')'' then Got Nil s1
          else then_read (rd EXPR (c # s1)) (\<lambda>car s2. if car = g_sym_dot then fail_read s2
          else then_read (rd REST s2) (\<lambda>cdr s3. Got (Cons car cdr) s3)))"
    using c by simp
qed simp_all

lemma read_quoted_consumes:
  assumes rd: "good_reader rd n" and n: "2 * length s \<le> n"
  shows "consumes (QUOTED q) s (read_quoted rd q s)"
  unfolding read_quoted_def
  by (intro skip_consumes rd_consumes [OF rd]) (use n in \<open>auto simp: fuel_ok_def\<close>)

lemma read_array_consumes:
  assumes rd: "good_reader rd n" and n: "2 * length s \<le> n" and s: "length s \<le> length s0"
  shows "consumes HASH s0 (read_array rd rank s)"
proof (cases s)
  case (Cons c s1)
  have "consumes HASH s0 (case skip_whitespace s1 of [] \<Rightarrow> fail_read []
      | c2 # s2 \<Rightarrow> then_read (rd EXPR (c2 # s2)) (\<lambda>contents s3.
          case os_make_array_from_nested_list (unat rank) contents of
            ArrayOverrun \<Rightarrow> HeapOverrun
          | Array v \<Rightarrow> if v = g_sym_eval_error then fail_read s3 else Got v s3))"
    by (intro skip_consumes rd_consumes [OF rd])
      (use n s Cons in \<open>auto simp: fuel_ok_def split: array_result.split\<close>)
  then show ?thesis using Cons s by (simp add: read_array_def)
qed (simp add: read_array_def)

lemma read_hash_consumes:
  assumes rd: "good_reader rd n" and n: "2 * length s \<le> n"
  shows "consumes HASH s (read_hash rd s)"
proof (cases s)
  case (Cons c s1)
  have f: "fuel_ok m n s1" if "m \<noteq> EXPR" for m using n Cons that by (simp add: fuel_ok_def)
  have q: "consumes HASH s (rd (QUOTED g_sym_function) s1)"
    using good_readerD [OF rd f, of "QUOTED g_sym_function"] Cons by (auto simp: consumes_def)
  have v: "consumes HASH s (then_read (rd LIST s1) (\<lambda>l s2.
            if \<not> is_proper_list l then fail_read s2 else Got (os_make_vector_from_list l) s2))"
    by (rule rd_consumes [OF rd f]) (use Cons in auto)
  have a: "consumes HASH s (read_array rd (fst p) (snd p))" if "p = read_rank 0 s" for p
    using read_rank_length [of 0 s] n unfolding that by (intro read_array_consumes [OF rd]) simp_all
  show ?thesis
    unfolding read_hash_def Cons list.case prod.case_eq_if
    by (intro if_consumes)
      (use q v a [OF refl] read_char_length [of s1] read_radix_length [of s1] in \<open>auto simp: Cons le_SucI simp del: read_rank.simps\<close>)
qed (simp add: read_hash_def)

lemma read_expr_consumes:
  assumes rd: "good_reader rd n" and n: "2 * length s \<le> Suc n" and s: "expr_start s"
  shows "consumes EXPR s (read_expr fp sg rd s)"
proof (cases s)
  case (Cons c s1)
  have r: "consumes EXPR s (rd m s')" if "m \<noteq> EXPR" "length s' \<le> length s1" for m s'
  proof -
    have "fuel_ok m n s'" using that n Cons by (simp add: fuel_ok_def)
    then show ?thesis using good_readerD [OF rd] that Cons by (fastforce simp: consumes_def)
  qed
  have "length (tl s1) \<le> length s1" by simp
  note facts = r [OF _ this, of "QUOTED g_sym_unquote_splicing"]
  show ?thesis
    unfolding read_expr_def Cons list.case
    by (intro if_consumes) (use facts r [of LIST s1] r [of "QUOTED g_sym_quote" s1] r [of "QUOTED g_sym_quasiquote" s1]
      r [of "QUOTED g_sym_unquote" s1] r [of HASH s1]
      read_string_length [of s1] read_atom_length [OF s] in \<open>auto simp: Cons le_imp_less_Suc\<close>)
qed (use s in \<open>simp add: expr_start_def\<close>)

lemma read_rec_good: "good_reader (read_rec fp sg n) n"
proof (induction n)
  case 0
  then show ?case by (auto simp: good_reader_def fuel_ok_def expr_start_def)
next
  case (Suc n)
  show ?case
    unfolding good_reader_def
  proof (intro allI impI)
    fix m s assume "fuel_ok m (Suc n) s"
    then show "consumes m s (read_rec fp sg (Suc n) m s)"
      using read_expr_consumes [OF Suc] read_list_consumes [OF Suc] read_list_rest_consumes [OF Suc]
        read_quoted_consumes [OF Suc] read_hash_consumes [OF Suc]
      by (cases m) (simp_all add: fuel_ok_def)
  qed
qed

subsection \<open>More fuel gives the same result\<close>

definition extends :: "reader \<Rightarrow> reader \<Rightarrow> bool" where
  "extends rd rd' \<longleftrightarrow> (\<forall>m s. rd m s \<noteq> NoFuel \<longrightarrow> rd' m s = rd m s)"

lemma then_read_extends:
  assumes "r \<noteq> NoFuel \<longrightarrow> r' = r" "\<And>v s. r = Got v s \<Longrightarrow> k v s \<noteq> NoFuel \<longrightarrow> k' v s = k v s"
  shows "then_read r k \<noteq> NoFuel \<longrightarrow> then_read r' k' = then_read r k"
  using assms by (cases r) auto

lemma list_extends:
  assumes "\<And>c s1. F c s1 \<noteq> NoFuel \<longrightarrow> F' c s1 = F c s1"
  shows "(case s of [] \<Rightarrow> r | c # s1 \<Rightarrow> F c s1) \<noteq> NoFuel \<longrightarrow>
    (case s of [] \<Rightarrow> r | c # s1 \<Rightarrow> F' c s1) = (case s of [] \<Rightarrow> r | c # s1 \<Rightarrow> F c s1)"
  using assms by (cases s) simp_all

lemma if_extends:
  assumes "r1 \<noteq> NoFuel \<longrightarrow> r1' = r1" "r2 \<noteq> NoFuel \<longrightarrow> r2' = r2"
  shows "(if b then r1 else r2) \<noteq> NoFuel \<longrightarrow> (if b then r1' else r2') = (if b then r1 else r2)"
  using assms by simp

lemma prod_extends:
  assumes "\<And>a b. F a b \<noteq> NoFuel \<longrightarrow> F' a b = F a b"
  shows "(case p of (a, b) \<Rightarrow> F a b) \<noteq> NoFuel \<longrightarrow> (case p of (a, b) \<Rightarrow> F' a b) = (case p of (a, b) \<Rightarrow> F a b)"
  using assms by (cases p) simp

lemma bodies_extend:
  assumes "extends rd rd'"
  shows "read_expr fp sg rd s \<noteq> NoFuel \<longrightarrow> read_expr fp sg rd' s = read_expr fp sg rd s"
    "read_list rd s \<noteq> NoFuel \<longrightarrow> read_list rd' s = read_list rd s"
    "read_list_rest rd s \<noteq> NoFuel \<longrightarrow> read_list_rest rd' s = read_list_rest rd s"
    "read_quoted rd q s \<noteq> NoFuel \<longrightarrow> read_quoted rd' q s = read_quoted rd q s"
    "read_hash rd s \<noteq> NoFuel \<longrightarrow> read_hash rd' s = read_hash rd s"
proof -
  have e: "rd m s \<noteq> NoFuel \<longrightarrow> rd' m s = rd m s" for m s using assms by (simp add: extends_def)
  have r: "(r :: read_result) \<noteq> NoFuel \<longrightarrow> r = r" for r by simp
  note rules = then_read_extends list_extends if_extends prod_extends e r
  show "read_expr fp sg rd s \<noteq> NoFuel \<longrightarrow> read_expr fp sg rd' s = read_expr fp sg rd s"
    unfolding read_expr_def by (intro rules)
  show "read_list rd s \<noteq> NoFuel \<longrightarrow> read_list rd' s = read_list rd s"
    unfolding read_list_def by (intro rules)
  show "read_list_rest rd s \<noteq> NoFuel \<longrightarrow> read_list_rest rd' s = read_list_rest rd s"
    unfolding read_list_rest_def by (intro rules)
  show "read_quoted rd q s \<noteq> NoFuel \<longrightarrow> read_quoted rd' q s = read_quoted rd q s"
    unfolding read_quoted_def by (intro rules)
  show "read_hash rd s \<noteq> NoFuel \<longrightarrow> read_hash rd' s = read_hash rd s"
    unfolding read_hash_def read_array_def by (intro rules)
qed

lemma read_rec_extends_Suc: "extends (read_rec fp sg n) (read_rec fp sg (Suc n))"
proof (induction n)
  case 0
  then show ?case by (simp add: extends_def)
next
  case (Suc n)
  show ?case
    unfolding extends_def
  proof (intro allI)
    fix m s
    show "read_rec fp sg (Suc n) m s \<noteq> NoFuel \<longrightarrow> read_rec fp sg (Suc (Suc n)) m s = read_rec fp sg (Suc n) m s"
      unfolding read_rec.simps(2) [of fp sg "Suc n" m s] read_rec.simps(2) [of fp sg n m s]
      by (cases m; simp only: read_mode.case; rule bodies_extend [OF Suc])
  qed
qed

lemma read_rec_mono:
  "n \<le> n' \<Longrightarrow> read_rec fp sg n m s \<noteq> NoFuel \<Longrightarrow> read_rec fp sg n' m s = read_rec fp sg n m s"
proof (induction n' rule: dec_induct)
  case (step k)
  then show ?case using read_rec_extends_Suc [of fp sg k] by (simp add: extends_def del: read_rec.simps)
qed simp

lemma read_rec_enough:
  assumes "read_rec fp sg n EXPR s = r" "r \<noteq> NoFuel" "expr_start s"
  shows "read_rec fp sg (2 * length s) EXPR s = r"
proof -
  have "fuel_ok EXPR (2 * length s) s" using assms(3) by (simp add: fuel_ok_def)
  then have nf: "read_rec fp sg (2 * length s) EXPR s \<noteq> NoFuel"
    using good_readerD [OF read_rec_good] by (fastforce simp: consumes_def)
  show ?thesis
  proof (cases "n \<le> 2 * length s")
    case True
    then show ?thesis using read_rec_mono [OF True, of fp sg EXPR s] assms by simp
  next
    case False
    then show ?thesis using read_rec_mono [of "2 * length s" n fp sg EXPR s] nf assms(1) by simp
  qed
qed

end
