(* ===== verification/Mount.thy ===== *)
theory Mount
  imports Streams Reader "HOL-Library.Sublist"
begin

unbundle bit_operations_syntax

text \<open>
  The mounts of \<^verbatim>\<open>src/c/mount.c\<close>: which mount a path lies in, the files of FAT volumes through the
  Lisp functions of the FAT drivers, and the reader of FAT16 root directories in C.

  The Lisp functions that the code looks up by name and calls are the parameter \<open>lisp\<close>: whether a
  name has a function, and what calling it does, which may be to escape by a control transfer.
  The table \<^verbatim>\<open>*mounts*\<close> is the list of its entries. A block device is what its \<open>read_sectors\<close>
  returns; the disk does not change while one call reads it. \<open>None\<close> is where the
  code reads a value that a Lisp function returned as an object of another type.
\<close>

subsection \<open>Resolving a path\<close>

datatype mount_kind_t = MOUNT_KIND_NONE | MOUNT_KIND_9P | MOUNT_KIND_FAT32 | MOUNT_KIND_FAT16

definition MOUNT_9P_PREFIX :: string where "MOUNT_9P_PREFIX = ''/9p''"
definition STREAM_PATH_MAX :: nat where "STREAM_PATH_MAX = 256"

text \<open>A Lisp string into a buffer of \<open>out_cap\<close> bytes, which the callers read up to the first NUL; the length is cut to 32 bits.\<close>

definition os_string_to_cstr :: "string \<Rightarrow> nat \<Rightarrow> string" where
  "os_string_to_cstr str out_cap =
     (let copy_len = nat (int (length str) mod 2 ^ 32)
      in cstr (take (if 0 < out_cap \<and> out_cap - 1 < copy_len then out_cap - 1 else copy_len) str))"

text \<open>The loop over both strings: the rest of the path after the mount path.\<close>

fun match_loop :: "string \<Rightarrow> string \<Rightarrow> string option" where
  "match_loop [] path = Some path"
| "match_loop (c # cs) [] = None"
| "match_loop (c # cs) (d # ds) = (if d \<noteq> c then None else match_loop cs ds)"

definition mount_path_match_len :: "string \<Rightarrow> string \<Rightarrow> int" where
  "mount_path_match_len mount_path path =
     (case match_loop mount_path path of
        None \<Rightarrow> -1
      | Some rest \<Rightarrow>
          (let i = int (length mount_path)
           in if i = 1 \<and> hd mount_path = CHR ''/'' then i
              else if rest = [] \<or> hd rest = CHR ''/'' then i
              else -1))"

definition mount_kind_of :: "lval \<Rightarrow> mount_kind_t" where
  "mount_kind_of fs_type =
     (if fs_type = Sym '':FAT32'' then MOUNT_KIND_FAT32 else if fs_type = Sym '':FAT16'' then MOUNT_KIND_FAT16 else MOUNT_KIND_NONE)"

text \<open>The best mount so far: the length of its path, whether it is the root, its kind and its device.\<close>

type_synonym best_mount = "int \<times> bool \<times> mount_kind_t \<times> lval"

definition mount_step :: "string \<Rightarrow> string \<times> lval \<times> lval \<Rightarrow> best_mount \<Rightarrow> best_mount" where
  "mount_step path entry best =
     (let (mount_path_val, device_sym, fs_type) = entry;
          fs_kind = mount_kind_of fs_type
      in if fs_kind = MOUNT_KIND_NONE then best
         else let mount_path = os_string_to_cstr mount_path_val STREAM_PATH_MAX;
                  m = mount_path_match_len mount_path path
              in if fst best < m then (m, mount_path = ''/'', fs_kind, device_sym) else best)"

definition os_mount_resolve :: "(string \<times> lval \<times> lval) list \<Rightarrow> string \<Rightarrow> nat \<Rightarrow> (mount_kind_t \<times> string \<times> lval) option" where
  "os_mount_resolve mounts path relative_cap =
     (let best = fold (mount_step path) mounts (-1, False, MOUNT_KIND_NONE, Nil);
          p9_len = mount_path_match_len MOUNT_9P_PREFIX path;
          (best_len, best_is_root, best_kind, best_device) =
            (if fst best < p9_len then (p9_len, False, MOUNT_KIND_9P, Nil) else best)
      in if best_kind = MOUNT_KIND_NONE then None
         else let src = (if best_is_root then path else drop (nat best_len) path)
              in Some (best_kind, take (relative_cap - 1) src, best_device))"

subsection \<open>Files of a FAT volume\<close>

record ('w, 't, 'f) lisp =
  get_function :: "string \<Rightarrow> 'w \<Rightarrow> 'f option"
  call :: "'f \<Rightarrow> lval list \<Rightarrow> 'w \<Rightarrow> (lval, 't) lisp_result \<times> 'w"

text \<open>Failure, with the control transfer stored in \<open>out_transfer\<close> if there is one; or success.\<close>

type_synonym ('a, 't) fat_result = "'t option + 'a"
type_synonym ('a, 't, 'w) fat_run = "'w \<Rightarrow> (('a, 't) fat_result \<times> 'w) option"

definition with_function :: "('w, 't, 'f) lisp \<Rightarrow> string \<Rightarrow> ('f \<Rightarrow> ('a, 't, 'w) fat_run) \<Rightarrow> ('a, 't, 'w) fat_run" where
  "with_function L name k w = (case get_function L name w of None \<Rightarrow> Some (Inl None, w) | Some fn \<Rightarrow> k fn w)"

definition mount_transfer_escaped ::
  "('w, 't, 'f) lisp \<Rightarrow> 'f \<Rightarrow> lval list \<Rightarrow> (lval \<Rightarrow> ('a, 't, 'w) fat_run) \<Rightarrow> ('a, 't, 'w) fat_run" where
  "mount_transfer_escaped L fn args k w =
     (case call L fn args w of (Transfer t, w) \<Rightarrow> Some (Inl (Some t), w) | (Value v, w) \<Rightarrow> k v w)"

definition with_handle :: "('w, 't, 'f) lisp \<Rightarrow> lval \<Rightarrow> (lval \<Rightarrow> ('a, 't, 'w) fat_run) \<Rightarrow> ('a, 't, 'w) fat_run" where
  "with_handle L device_sym k = with_function L ''%DEVICE-HANDLE'' (\<lambda>fn. mount_transfer_escaped L fn [device_sym] k)"

definition fat_function :: "mount_kind_t \<Rightarrow> string \<Rightarrow> string" where
  "fat_function fs_kind name = (if fs_kind = MOUNT_KIND_FAT32 then ''FAT32-'' else ''FAT16-'') @ name"

fun fixnum_bytes :: "lval list \<Rightarrow> u8 list option" where
  "fixnum_bytes [] = Some []"
| "fixnum_bytes (Imm w # vs) = (case fixnum_bytes vs of None \<Rightarrow> None | Some bs \<Rightarrow> Some (ucast (os_fixnum_magnitude w) # bs))"
| "fixnum_bytes (_ # vs) = None"

definition byte_vector :: "u8 list \<Rightarrow> lval" where
  "byte_vector bs = Vec [length bs] (map (\<lambda>b. Imm (os_make_fixnum (ucast b))) bs)"

definition os_mount_fat_read_file ::
  "('w, 't, 'f) lisp \<Rightarrow> mount_kind_t \<Rightarrow> lval \<Rightarrow> string \<Rightarrow> (u8 list, 't, 'w) fat_run" where
  "os_mount_fat_read_file L fs_kind device_sym relative_path =
     with_handle L device_sym (\<lambda>handle.
       with_function L (fat_function fs_kind ''READ-FILE'') (\<lambda>read_fn.
         mount_transfer_escaped L read_fn [handle, Str relative_path] (\<lambda>result w.
           if result = Nil then Some (Inl None, w)
           else case result of
               Vec [n] data \<Rightarrow> (case fixnum_bytes data of None \<Rightarrow> None | Some bs \<Rightarrow> Some (Inr (take (n mod 2 ^ 32) bs), w))
             | _ \<Rightarrow> None)))"

definition os_mount_fat_write_file ::
  "('w, 't, 'f) lisp \<Rightarrow> mount_kind_t \<Rightarrow> lval \<Rightarrow> string \<Rightarrow> u8 list \<Rightarrow> (unit, 't, 'w) fat_run" where
  "os_mount_fat_write_file L fs_kind device_sym relative_path data =
     with_handle L device_sym (\<lambda>handle w.
       let args = [handle, Str relative_path, byte_vector data];
           create = with_function L (fat_function fs_kind ''CREATE-FILE'') (\<lambda>create_fn.
             mount_transfer_escaped L create_fn args (\<lambda>result w. Some (if result \<noteq> Nil then Inr () else Inl None, w)))
       in case get_function L (fat_function fs_kind ''WRITE-FILE'') w of
            Some write_fn \<Rightarrow>
              mount_transfer_escaped L write_fn args (\<lambda>result w. if result \<noteq> Nil then Some (Inr (), w) else create w) w
          | None \<Rightarrow> create w)"

definition os_mount_fat_resolve_file_node ::
  "('w, 't, 'f) lisp \<Rightarrow> mount_kind_t \<Rightarrow> lval \<Rightarrow> string \<Rightarrow> bool \<Rightarrow> bool \<Rightarrow> (lval, 't, 'w) fat_run" where
  "os_mount_fat_resolve_file_node L fs_kind device_sym relative_path trunc create_if_missing =
     with_handle L device_sym (\<lambda>handle.
       with_function L (fat_function fs_kind ''RESOLVE-NODE'') (\<lambda>resolve_fn.
         let resolve = mount_transfer_escaped L resolve_fn [handle, Str relative_path];
             finish = (\<lambda>node w. Some (if node = Nil then Inl None else Inr node, w));
             create = (\<lambda>node.
               if node = Nil \<and> create_if_missing
               then with_function L (fat_function fs_kind ''CREATE-FILE'') (\<lambda>create_fn.
                      mount_transfer_escaped L create_fn [handle, Str relative_path, byte_vector []] (\<lambda>created.
                        if created = Nil then (\<lambda>w. Some (Inl None, w)) else resolve finish))
               else finish node)
         in resolve (\<lambda>node.
              if node \<noteq> Nil \<and> trunc
              then with_function L (fat_function fs_kind ''WRITE-FILE'') (\<lambda>write_fn.
                     mount_transfer_escaped L write_fn [handle, Str relative_path, byte_vector []] (\<lambda>truncated.
                       if truncated = Nil then (\<lambda>w. Some (Inl None, w)) else resolve create))
              else create node)))"

definition os_mount_fat_file_size ::
  "('w, 't, 'f) lisp \<Rightarrow> mount_kind_t \<Rightarrow> lval \<Rightarrow> string \<Rightarrow> (u32, 't, 'w) fat_run" where
  "os_mount_fat_file_size L fs_kind device_sym relative_path =
     with_handle L device_sym (\<lambda>handle.
       with_function L (fat_function fs_kind ''FILE-SIZE'') (\<lambda>size_fn.
         mount_transfer_escaped L size_fn [handle, Str relative_path] (\<lambda>result w.
           case result of Nil \<Rightarrow> Some (Inl None, w) | Imm s \<Rightarrow> Some (Inr (ucast (os_fixnum_magnitude s)), w) | _ \<Rightarrow> None)))"

subsection \<open>The FAT16 reader\<close>

type_synonym block_device = "u32 \<Rightarrow> u16 \<Rightarrow> u8 list option"

record fat16n_bpb_t =
  bytes_per_sector :: u16
  sectors_per_cluster :: u8
  reserved_sectors :: u16
  num_fats :: u8
  root_entry_count :: u16
  sectors_per_fat :: u16

definition FAT16N_MAX_CLUSTER_BYTES :: u32 where "FAT16N_MAX_CLUSTER_BYTES = 32768"

definition fat16n_u16 :: "u8 list \<Rightarrow> nat \<Rightarrow> u16" where
  "fat16n_u16 b off = ucast (b ! off) OR push_bit 8 (ucast (b ! (off + 1)))"

definition fat16n_u32 :: "u8 list \<Rightarrow> nat \<Rightarrow> u32" where
  "fat16n_u32 b off = ucast (fat16n_u16 b off) OR push_bit 16 (ucast (fat16n_u16 b (off + 2)))"

text \<open>A device handle is a raw pointer, or a partition of one with its first sector.\<close>

definition raw_pointer :: "lval \<Rightarrow> u64 option" where
  "raw_pointer v = (case v of Imm w \<Rightarrow> if w AND TAG_MASK = TAG_RAW_POINTER then Some (w AND NOT TAG_MASK) else None | _ \<Rightarrow> None)"

definition fat16n_resolve_device :: "lval \<Rightarrow> (u64 \<times> u32) option option" where
  "fat16n_resolve_device handle =
     (case handle of
        Cons head rest \<Rightarrow>
          (if head \<noteq> Sym '':IDE-PARTITION'' then Some None
           else case rest of
               Cons base_handle (Cons base_lba_val _) \<Rightarrow>
                 (case raw_pointer base_handle of
                    None \<Rightarrow> Some None
                  | Some p \<Rightarrow> (case base_lba_val of Imm l \<Rightarrow> Some (Some (p, ucast (os_fixnum_magnitude l))) | _ \<Rightarrow> None))
             | _ \<Rightarrow> None)
      | _ \<Rightarrow> Some (case raw_pointer handle of None \<Rightarrow> None | Some p \<Rightarrow> Some (p, 0)))"

definition fat16n_read_sectors :: "block_device \<Rightarrow> u32 \<Rightarrow> u32 \<Rightarrow> u16 \<Rightarrow> u8 list option" where
  "fat16n_read_sectors dev base_lba lba n = dev (base_lba + lba) n"

definition fat16n_read_bpb :: "block_device \<Rightarrow> u32 \<Rightarrow> fat16n_bpb_t option" where
  "fat16n_read_bpb dev base_lba =
     (case fat16n_read_sectors dev base_lba 0 1 of
        None \<Rightarrow> None
      | Some sector \<Rightarrow>
          (let bpb = \<lparr>bytes_per_sector = fat16n_u16 sector 11, sectors_per_cluster = sector ! 13, reserved_sectors = fat16n_u16 sector 14,
                 num_fats = sector ! 16, root_entry_count = fat16n_u16 sector 17, sectors_per_fat = fat16n_u16 sector 22\<rparr>
           in if bytes_per_sector bpb \<noteq> 512 then None else Some bpb))"

definition fat16n_root_dir_lba :: "fat16n_bpb_t \<Rightarrow> u32" where
  "fat16n_root_dir_lba bpb = ucast (reserved_sectors bpb) + ucast (num_fats bpb) * ucast (sectors_per_fat bpb)"

definition fat16n_root_dir_sector_count :: "fat16n_bpb_t \<Rightarrow> u32" where
  "fat16n_root_dir_sector_count bpb = (ucast (root_entry_count bpb) * 32) div ucast (bytes_per_sector bpb)"

definition fat16n_data_start_lba :: "fat16n_bpb_t \<Rightarrow> u32" where
  "fat16n_data_start_lba bpb = fat16n_root_dir_lba bpb + fat16n_root_dir_sector_count bpb"

definition fat16n_cluster_to_lba :: "fat16n_bpb_t \<Rightarrow> u32 \<Rightarrow> u32" where
  "fat16n_cluster_to_lba bpb cluster_no = fat16n_data_start_lba bpb + (cluster_no - 2) * ucast (sectors_per_cluster bpb)"

definition fat16n_fat_entry :: "block_device \<Rightarrow> u32 \<Rightarrow> fat16n_bpb_t \<Rightarrow> u32 \<Rightarrow> u16" where
  "fat16n_fat_entry dev base_lba bpb cluster_no =
     (let byte_offset = cluster_no * 2;
          sector_offset = byte_offset div ucast (bytes_per_sector bpb);
          offset_in_sector = byte_offset mod ucast (bytes_per_sector bpb)
      in case fat16n_read_sectors dev base_lba (ucast (reserved_sectors bpb) + sector_offset) 1 of
           None \<Rightarrow> 0xFFFF
         | Some sector \<Rightarrow> fat16n_u16 sector (unat offset_in_sector))"

text \<open>Bytes at \<open>off\<close>, without the spaces at their end.\<close>

definition trimmed_name :: "u8 list \<Rightarrow> nat \<Rightarrow> nat \<Rightarrow> string" where
  "trimmed_name sector off n = map byte_char (rev (dropWhile (\<lambda>b. b = 0x20) (rev (take n (drop off sector)))))"

definition entry_name :: "u8 list \<Rightarrow> nat \<Rightarrow> string" where
  "entry_name sector off =
     (let base = trimmed_name sector off 8; ext = trimmed_name sector (off + 8) 3
      in cstr (base @ (if ext \<noteq> [] then CHR ''.'' # ext else [])))"

text \<open>One sector: \<open>None\<close> when the search goes on, \<open>Some None\<close> at the end of the directory.\<close>

fun scan_entries :: "string \<Rightarrow> u8 list \<Rightarrow> nat list \<Rightarrow> (u32 \<times> u32) option option" where
  "scan_entries name sector [] = None"
| "scan_entries name sector (off # offs) =
     (let first = sector ! off
      in if first = 0 then Some None
         else if first = 0xE5 then scan_entries name sector offs
         else if entry_name sector off = name then Some (Some (ucast (fat16n_u16 sector (off + 26)), fat16n_u32 sector (off + 28)))
         else scan_entries name sector offs)"

definition entry_offsets :: "nat list" where "entry_offsets = map (\<lambda>i. 32 * i) [0..<16]"

fun scan_sectors :: "block_device \<Rightarrow> u32 \<Rightarrow> u32 \<Rightarrow> string \<Rightarrow> nat list \<Rightarrow> (u32 \<times> u32) option" where
  "scan_sectors dev base_lba root_lba name [] = None"
| "scan_sectors dev base_lba root_lba name (s # ss) =
     (case fat16n_read_sectors dev base_lba (root_lba + of_nat s) 1 of
        None \<Rightarrow> None
      | Some sector \<Rightarrow>
          (case scan_entries name sector entry_offsets of
             Some r \<Rightarrow> r
           | None \<Rightarrow> scan_sectors dev base_lba root_lba name ss))"

definition fat16n_find_root_entry :: "block_device \<Rightarrow> u32 \<Rightarrow> fat16n_bpb_t \<Rightarrow> string \<Rightarrow> (u32 \<times> u32) option" where
  "fat16n_find_root_entry dev base_lba bpb name =
     scan_sectors dev base_lba (fat16n_root_dir_lba bpb) name [0..<unat (fat16n_root_dir_sector_count bpb)]"

text \<open>The loop over the chain, at most \<open>safety_limit\<close> times; \<open>None\<close> is the result \<open>nil\<close>.\<close>

primrec chain_loop :: "nat \<Rightarrow> block_device \<Rightarrow> u32 \<Rightarrow> fat16n_bpb_t \<Rightarrow> u32 \<Rightarrow> u32 \<Rightarrow> u32 \<Rightarrow> u8 list \<Rightarrow> u8 list option" where
  "chain_loop 0 dev base_lba bpb cluster_bytes sz cluster data = (if of_nat (length data) < sz then None else Some data)"
| "chain_loop (Suc k) dev base_lba bpb cluster_bytes sz cluster data =
     (let written = of_nat (length data)
      in if \<not> written < sz then Some data
         else case fat16n_read_sectors dev base_lba (fat16n_cluster_to_lba bpb cluster) (ucast (sectors_per_cluster bpb)) of
             None \<Rightarrow> None
           | Some cluster_buf \<Rightarrow>
               (let chunk = (if sz < written + cluster_bytes then sz - written else cluster_bytes);
                    data = data @ take (unat chunk) cluster_buf;
                    written = written + chunk
                in if sz \<le> written then Some data
                   else let nxt = fat16n_fat_entry dev base_lba bpb cluster
                        in if 0xFFF8 \<le> nxt then None
                           else chain_loop k dev base_lba bpb cluster_bytes sz (ucast nxt) data))"

definition fat16n_read_chain :: "block_device \<Rightarrow> u32 \<Rightarrow> fat16n_bpb_t \<Rightarrow> u32 \<Rightarrow> u32 \<Rightarrow> u8 list option" where
  "fat16n_read_chain dev base_lba bpb start_cluster sz =
     (let cluster_bytes = ucast (sectors_per_cluster bpb) * ucast (bytes_per_sector bpb)
      in if cluster_bytes = 0 \<or> FAT16N_MAX_CLUSTER_BYTES < cluster_bytes then None
         else let safety_limit = (sz + cluster_bytes - 1) div cluster_bytes + 2
              in chain_loop (unat safety_limit) dev base_lba bpb cluster_bytes sz start_cluster [])"

definition cc_read_file_into_vector_native ::
  "('w, 't, 'f) lisp \<Rightarrow> (u64 \<Rightarrow> block_device) \<Rightarrow> (string \<times> lval \<times> lval) list \<Rightarrow> string \<Rightarrow> 'w \<Rightarrow> ((lval, 't) lisp_result \<times> 'w) option" where
  "cc_read_file_into_vector_native L devices mounts path_val w =
     (let path = os_string_to_cstr path_val STREAM_PATH_MAX; nil = (\<lambda>w. Some (Value Nil, w))
      in case os_mount_resolve mounts path STREAM_PATH_MAX of
           Some (MOUNT_KIND_FAT16, relative, device_sym) \<Rightarrow>
             (if relative = [] \<or> hd relative \<noteq> CHR ''/'' \<or> CHR ''/'' \<in> set (tl relative) then nil w
              else case get_function L ''%DEVICE-HANDLE'' w of
                None \<Rightarrow> nil w
              | Some handle_fn \<Rightarrow>
                  (case call L handle_fn [device_sym] w of
                    (Transfer t, w) \<Rightarrow> Some (Transfer t, w)
                  | (Value handle, w) \<Rightarrow>
                    (case fat16n_resolve_device handle of
                       None \<Rightarrow> None
                     | Some None \<Rightarrow> nil w
                     | Some (Some (p, base_lba)) \<Rightarrow>
                         (let dev = devices p
                          in case fat16n_read_bpb dev base_lba of
                               None \<Rightarrow> nil w
                             | Some bpb \<Rightarrow>
                                 (case fat16n_find_root_entry dev base_lba bpb (tl relative) of
                                    None \<Rightarrow> nil w
                                  | Some (start_cluster, sz) \<Rightarrow>
                                      (if sz = 0 then nil w
                                       else case fat16n_read_chain dev base_lba bpb start_cluster sz of
                                           None \<Rightarrow> nil w
                                         | Some data \<Rightarrow> Some (Value (byte_vector data), w)))))))
         | _ \<Rightarrow> nil w)"

subsection \<open>The longest mount wins\<close>

text \<open>A path is inside a mount when it starts with the mount path and continues with nothing or a slash.\<close>

definition in_mount :: "string \<Rightarrow> string \<Rightarrow> bool" where
  "in_mount mount_path path \<longleftrightarrow> prefix mount_path path \<and>
     (mount_path = ''/'' \<or> drop (length mount_path) path = [] \<or> hd (drop (length mount_path) path) = CHR ''/'')"

text \<open>The mounts in the order they are tried: those of the table with a known file system, then 9P.\<close>

definition mount_points :: "(string \<times> lval \<times> lval) list \<Rightarrow> (string \<times> mount_kind_t \<times> lval) list" where
  "mount_points mounts =
     map (\<lambda>(mount_path_val, device_sym, fs_type). (os_string_to_cstr mount_path_val STREAM_PATH_MAX, mount_kind_of fs_type, device_sym))
       (filter (\<lambda>(_, _, fs_type). mount_kind_of fs_type \<noteq> MOUNT_KIND_NONE) mounts)
     @ [(MOUNT_9P_PREFIX, MOUNT_KIND_9P, Nil)]"

lemma match_loop_Some: "match_loop m path = Some rest \<longleftrightarrow> path = m @ rest"
  by (induction m path rule: match_loop.induct) auto

lemma mount_path_match_len:
  "mount_path_match_len m path = (if in_mount m path then int (length m) else -1)"
proof (cases "match_loop m path")
  case None
  then have "\<not> prefix m path" by (metis match_loop_Some option.distinct(1) prefixE)
  with None show ?thesis by (simp add: mount_path_match_len_def in_mount_def)
next
  case (Some rest)
  then have p: "path = m @ rest" by (simp add: match_loop_Some)
  have "int (length m) = 1 \<and> hd m = CHR ''/'' \<longleftrightarrow> m = ''/''" by (cases m) auto
  with Some p show ?thesis by (auto simp: mount_path_match_len_def in_mount_def Let_def)
qed

definition best_of :: "string \<Rightarrow> (string \<times> mount_kind_t \<times> lval) list \<Rightarrow> best_mount \<Rightarrow> bool" where
  "best_of path cs b \<longleftrightarrow>
     (b = (-1, False, MOUNT_KIND_NONE, Nil) \<and> (\<forall>c \<in> set cs. \<not> in_mount (fst c) path)) \<or>
     (\<exists>xs m k d ys. cs = xs @ (m, k, d) # ys \<and> in_mount m path \<and>
        (\<forall>c \<in> set xs. in_mount (fst c) path \<longrightarrow> length (fst c) < length m) \<and>
        (\<forall>c \<in> set ys. in_mount (fst c) path \<longrightarrow> length (fst c) \<le> length m) \<and>
        b = (int (length m), m = ''/'', k, d))"

lemma best_of_Nil: "best_of path [] (-1, False, MOUNT_KIND_NONE, Nil)"
  by (simp add: best_of_def)

lemma best_of_snoc:
  assumes "best_of path cs b"
  shows "best_of path (cs @ [(m, k, d)])
           (if fst b < mount_path_match_len m path then (mount_path_match_len m path, m = ''/'', k, d) else b)"
proof (cases "in_mount m path")
  case False
  then have "\<not> fst b < mount_path_match_len m path"
    using assms by (auto simp: best_of_def mount_path_match_len)
  moreover have "best_of path (cs @ [(m, k, d)]) b"
    using assms [unfolded best_of_def]
  proof (elim disjE exE conjE)
    fix xs n k' d' ys
    assume "cs = xs @ (n, k', d') # ys" "in_mount n path"
      "\<forall>c \<in> set xs. in_mount (fst c) path \<longrightarrow> length (fst c) < length n"
      "\<forall>c \<in> set ys. in_mount (fst c) path \<longrightarrow> length (fst c) \<le> length n" "b = (int (length n), n = ''/'', k', d')"
    with False show ?thesis unfolding best_of_def
      by (intro disjI2 exI [of _ xs] exI [of _ n] exI [of _ k'] exI [of _ d'] exI [of _ "ys @ [(m, k, d)]"]) auto
  qed (use False in \<open>auto simp: best_of_def\<close>)
  ultimately show ?thesis by simp
next
  case m: True
  from assms [unfolded best_of_def] show ?thesis
  proof (elim disjE exE conjE)
    assume "b = (-1, False, MOUNT_KIND_NONE, Nil)" "\<forall>c \<in> set cs. \<not> in_mount (fst c) path"
    with m show ?thesis unfolding best_of_def
      by (intro disjI2 exI [of _ cs] exI [of _ m] exI [of _ k] exI [of _ d] exI [of _ "[]"])
        (auto simp: mount_path_match_len)
  next
    fix xs n k' d' ys
    assume h: "cs = xs @ (n, k', d') # ys" "in_mount n path"
      "\<forall>c \<in> set xs. in_mount (fst c) path \<longrightarrow> length (fst c) < length n"
      "\<forall>c \<in> set ys. in_mount (fst c) path \<longrightarrow> length (fst c) \<le> length n" "b = (int (length n), n = ''/'', k', d')"
    show ?thesis
    proof (cases "length n < length m")
      case True
      with h m show ?thesis unfolding best_of_def
        by (intro disjI2 exI [of _ cs] exI [of _ m] exI [of _ k] exI [of _ d] exI [of _ "[]"])
          (auto simp: mount_path_match_len dest: le_less_trans less_trans)
    next
      case False
      with h m show ?thesis unfolding best_of_def
        by (intro disjI2 exI [of _ xs] exI [of _ n] exI [of _ k'] exI [of _ d'] exI [of _ "ys @ [(m, k, d)]"])
          (auto simp: mount_path_match_len)
    qed
  qed
qed

lemma best_of_fold:
  assumes "best_of path cs b"
  shows "best_of path (cs @ butlast (mount_points mounts)) (fold (mount_step path) mounts b)"
  using assms
proof (induction mounts arbitrary: cs b)
  case Nil
  then show ?case by (simp add: mount_points_def)
next
  case (Cons e es)
  obtain v d t where e: "e = (v, d, t)" by (cases e)
  show ?case
  proof (cases "mount_kind_of t = MOUNT_KIND_NONE")
    case True
    with Cons.IH [OF Cons.prems] e show ?thesis by (simp add: mount_step_def mount_points_def)
  next
    case False
    let ?m = "os_string_to_cstr v STREAM_PATH_MAX"
    have s: "mount_step path e b =
        (if fst b < mount_path_match_len ?m path then (mount_path_match_len ?m path, ?m = ''/'', mount_kind_of t, d) else b)"
      using False e by (simp add: mount_step_def Let_def)
    show ?thesis
      using Cons.IH [OF best_of_snoc [OF Cons.prems, of ?m "mount_kind_of t" d]] False e s
      by (simp add: mount_points_def)
  qed
qed

lemma mount_points_kind: "(m, k, d) \<in> set (mount_points mounts) \<Longrightarrow> k \<noteq> MOUNT_KIND_NONE"
  by (auto simp: mount_points_def)

lemma os_mount_resolve_best:
  obtains b where "best_of path (mount_points mounts) b"
    "os_mount_resolve mounts path relative_cap =
       (case b of (l, root, k, d) \<Rightarrow> if k = MOUNT_KIND_NONE then None
          else Some (k, take (relative_cap - 1) (if root then path else drop (nat l) path), d))"
proof -
  let ?f = "fold (mount_step path) mounts (-1, False, MOUNT_KIND_NONE, Nil)"
  let ?n = "mount_path_match_len MOUNT_9P_PREFIX path"
  let ?b = "if fst ?f < ?n then (?n, False, MOUNT_KIND_9P, Nil) else ?f"
  have m: "mount_points mounts = butlast (mount_points mounts) @ [(MOUNT_9P_PREFIX, MOUNT_KIND_9P, Nil)]"
    by (simp add: mount_points_def)
  have n: "(MOUNT_9P_PREFIX = ''/'') = False" by (simp add: MOUNT_9P_PREFIX_def)
  have "best_of path (mount_points mounts) ?b"
    using best_of_snoc [OF best_of_fold [OF best_of_Nil, of path mounts], of MOUNT_9P_PREFIX MOUNT_KIND_9P Nil]
    unfolding n append_Nil m [symmetric] .
  moreover have "os_mount_resolve mounts path relative_cap =
       (case ?b of (l, root, k, d) \<Rightarrow> if k = MOUNT_KIND_NONE then None
          else Some (k, take (relative_cap - 1) (if root then path else drop (nat l) path), d))"
    by (simp only: os_mount_resolve_def Let_def)
  ultimately show thesis by (rule that)
qed

text \<open>
  C27. \<^verbatim>\<open>os_mount_resolve\<close> finds the mount that a path lies in: it fails exactly when the path lies in no
  mount, and otherwise its answer is the first of the longest mount paths that contain the path,
  those of \<^verbatim>\<open>*mounts*\<close> before the built-in \<^verbatim>\<open>/9p\<close>, with that mount's kind and device, and the rest of
  the path (the whole path in a root mount), cut to the caller's buffer.
\<close>

theorem mount_resolve_longest:
  "case os_mount_resolve mounts path relative_cap of
     None \<Rightarrow> (\<forall>c \<in> set (mount_points mounts). \<not> in_mount (fst c) path)
   | Some (k, relative, d) \<Rightarrow>
       (\<exists>xs m ys. mount_points mounts = xs @ (m, k, d) # ys \<and> in_mount m path \<and>
          (\<forall>c \<in> set xs. in_mount (fst c) path \<longrightarrow> length (fst c) < length m) \<and>
          (\<forall>c \<in> set ys. in_mount (fst c) path \<longrightarrow> length (fst c) \<le> length m) \<and>
          relative = take (relative_cap - 1) (if m = ''/'' then path else drop (length m) path))"
proof -
  obtain b where b: "best_of path (mount_points mounts) b"
    and r: "os_mount_resolve mounts path relative_cap =
       (case b of (l, root, k, d) \<Rightarrow> if k = MOUNT_KIND_NONE then None
          else Some (k, take (relative_cap - 1) (if root then path else drop (nat l) path), d))"
    by (rule os_mount_resolve_best)
  from b [unfolded best_of_def] show ?thesis
  proof (elim disjE exE conjE)
    fix xs m k d ys
    assume h: "mount_points mounts = xs @ (m, k, d) # ys" "in_mount m path"
      "\<forall>c \<in> set xs. in_mount (fst c) path \<longrightarrow> length (fst c) < length m"
      "\<forall>c \<in> set ys. in_mount (fst c) path \<longrightarrow> length (fst c) \<le> length m" "b = (int (length m), m = ''/'', k, d)"
    have "k \<noteq> MOUNT_KIND_NONE" by (rule mount_points_kind [of m k d mounts]) (simp add: h(1))
    with r h(5) have "os_mount_resolve mounts path relative_cap
        = Some (k, take (relative_cap - 1) (if m = ''/'' then path else drop (length m) path), d)" by simp
    then show ?thesis
      by (simp only: option.case prod.case) (intro exI conjI; (rule h refl)?)
  qed (use r in simp)
qed

theorem mount_resolve_longest_witness:
  "\<exists>xs m ys. mount_points [(''/'', Sym ''D0'', Sym '':FAT16''), (''/mnt'', Sym ''D1'', Sym '':FAT32'')] = xs @ (m, MOUNT_KIND_FAT32, Sym ''D1'') # ys \<and>
     in_mount m ''/mnt/a'' \<and>
     (\<forall>c \<in> set xs. in_mount (fst c) ''/mnt/a'' \<longrightarrow> length (fst c) < length m) \<and>
     (\<forall>c \<in> set ys. in_mount (fst c) ''/mnt/a'' \<longrightarrow> length (fst c) \<le> length m) \<and>
     ''/a'' = take (256 - 1) (if m = ''/'' then ''/mnt/a'' else drop (length m) ''/mnt/a'')"
proof -
  have "os_mount_resolve [(''/'', Sym ''D0'', Sym '':FAT16''), (''/mnt'', Sym ''D1'', Sym '':FAT32'')] ''/mnt/a'' 256
      = Some (MOUNT_KIND_FAT32, ''/a'', Sym ''D1'')" by code_simp
  with mount_resolve_longest [of "[(''/'', Sym ''D0'', Sym '':FAT16''), (''/mnt'', Sym ''D1'', Sym '':FAT32'')]" "''/mnt/a''" 256]
  show ?thesis by (simp only: option.case prod.case)
qed

text \<open>The root mount holds the paths that start with a slash, not every path.\<close>

lemma root_mount_needs_slash: "mount_path_match_len ''/'' ''x'' = -1"
  by code_simp

subsection \<open>Control transfers that escape from the drivers\<close>

text \<open>
  The same Lisp functions with a record of the calls: for each, the control transfer it escaped
  with, if it did.
\<close>

definition recording :: "('w, 't, 'f) lisp \<Rightarrow> ('w \<times> 't option list, 't, 'f) lisp" where
  "recording L =
     \<lparr>get_function = (\<lambda>name (w, calls). get_function L name w),
      call = (\<lambda>fn args (w, calls).
        case call L fn args w of
          (Value v, w) \<Rightarrow> (Value v, w, calls @ [None])
        | (Transfer t, w) \<Rightarrow> (Transfer t, w, calls @ [Some t]))\<rparr>"

text \<open>
  A run fails with a transfer exactly when its last call escaped with it, and no call follows a
  call that escaped.
\<close>

definition escapes_reported :: "('a, 't, 'w \<times> 't option list) fat_run \<Rightarrow> bool" where
  "escapes_reported run \<longleftrightarrow>
     (\<forall>w calls r w' calls'. run (w, calls) = Some (r, w', calls') \<longrightarrow>
        (\<exists>new. calls' = calls @ new \<and> (\<forall>c \<in> set (butlast new). c = None) \<and>
           (\<forall>t. r = Inl (Some t) \<longleftrightarrow> new \<noteq> [] \<and> last new = Some t)))"

lemma escapes_reportedD:
  assumes "escapes_reported run" "run (w, calls) = Some (r, w', calls')"
  obtains new where "calls' = calls @ new" "\<forall>c \<in> set (butlast new). c = None"
    "\<forall>t. r = Inl (Some t) \<longleftrightarrow> new \<noteq> [] \<and> last new = Some t"
proof -
  have "\<exists>new. calls' = calls @ new \<and> (\<forall>c \<in> set (butlast new). c = None) \<and>
      (\<forall>t. r = Inl (Some t) \<longleftrightarrow> new \<noteq> [] \<and> last new = Some t)"
    using assms(1) unfolding escapes_reported_def by (elim allE impE) (rule assms(2))
  then show thesis by (elim exE conjE) (rule that)
qed

named_theorems reported

lemma reported_Some [reported]: "(\<And>t. r \<noteq> Inl (Some t)) \<Longrightarrow> escapes_reported (\<lambda>w. Some (r, w))"
  by (simp add: escapes_reported_def)

lemma reported_None [reported]: "escapes_reported (\<lambda>w. None)"
  by (simp add: escapes_reported_def)

lemma reported_if [reported]:
  "(c \<Longrightarrow> escapes_reported f) \<Longrightarrow> (\<not> c \<Longrightarrow> escapes_reported g) \<Longrightarrow> escapes_reported (if c then f else g)"
  by simp

lemma reported_if_point [reported]:
  "(c \<Longrightarrow> escapes_reported f) \<Longrightarrow> (\<not> c \<Longrightarrow> escapes_reported g) \<Longrightarrow> escapes_reported (\<lambda>w. if c then f w else g w)"
  by (cases c) simp_all

lemma reported_with_function [reported]:
  "(\<And>fn. escapes_reported (k fn)) \<Longrightarrow> escapes_reported (with_function (recording L) name k)"
  unfolding escapes_reported_def
  by (intro allI impI; clarsimp simp: with_function_def recording_def split: option.splits)

lemma reported_call [reported]:
  assumes "\<And>v. escapes_reported (k v)"
  shows "escapes_reported (mount_transfer_escaped (recording L) fn args k)"
  unfolding escapes_reported_def
proof (intro allI impI)
  fix w calls r w' calls'
  assume run: "mount_transfer_escaped (recording L) fn args k (w, calls) = Some (r, w', calls')"
  show "\<exists>new. calls' = calls @ new \<and> (\<forall>c \<in> set (butlast new). c = None) \<and>
      (\<forall>t. r = Inl (Some t) \<longleftrightarrow> new \<noteq> [] \<and> last new = Some t)"
  proof (cases "call L fn args w")
    case (Pair c w1)
    show ?thesis
    proof (cases c)
      case (Transfer t)
      with run Pair have "calls' = calls @ [Some t]" "r = Inl (Some t)"
        by (auto simp: mount_transfer_escaped_def recording_def)
      then show ?thesis by (intro exI [of _ "[Some t]"]) auto
    next
      case (Value v)
      with run Pair have "k v (w1, calls @ [None]) = Some (r, w', calls')"
        by (simp add: mount_transfer_escaped_def recording_def)
      then obtain new where
        new: "calls' = (calls @ [None]) @ new" "\<forall>c \<in> set (butlast new). c = None"
          "\<forall>t. r = Inl (Some t) \<longleftrightarrow> new \<noteq> [] \<and> last new = Some t"
        by (rule escapes_reportedD [OF assms])
      then show ?thesis by (intro exI [of _ "None # new"]) auto
    qed
  qed
qed

lemma reported_with_handle [reported]:
  "(\<And>v. escapes_reported (k v)) \<Longrightarrow> escapes_reported (with_handle (recording L) d k)"
  unfolding with_handle_def by (intro reported)

lemma reported_case_get_function [reported]:
  assumes "escapes_reported f" "\<And>fn. escapes_reported (g fn)"
  shows "escapes_reported (\<lambda>w. case get_function (recording L) name w of None \<Rightarrow> f w | Some fn \<Rightarrow> g fn w)"
  using assms by (auto simp: escapes_reported_def recording_def split: option.splits)

text \<open>
  C26. A control transfer out of a FAT driver is never lost or taken for a result: each of the four
  file operations fails with a stored transfer exactly when the last Lisp function it called
  escaped with that transfer, and it calls nothing more after a call that escaped.
\<close>

theorem fat_escape_reported:
  "escapes_reported (os_mount_fat_read_file (recording L) fs_kind device_sym path) \<and>
   escapes_reported (os_mount_fat_write_file (recording L) fs_kind device_sym path data) \<and>
   escapes_reported (os_mount_fat_resolve_file_node (recording L) fs_kind device_sym path trunc create_if_missing) \<and>
   escapes_reported (os_mount_fat_file_size (recording L) fs_kind device_sym path)"
  unfolding os_mount_fat_read_file_def os_mount_fat_write_file_def os_mount_fat_resolve_file_node_def
    os_mount_fat_file_size_def Let_def
  by (intro conjI reported)
    (auto simp: escapes_reported_def split: lval.splits option.splits if_splits list.splits)

subsection \<open>The FAT16 reader reads the file\<close>

text \<open>
  The layout of a FAT16 volume with sectors of 512 bytes, in sectors from its start: the reserved
  sectors, the file allocation tables, the root directory, and the clusters, numbered from 2.
\<close>

definition root_sector :: "fat16n_bpb_t \<Rightarrow> nat" where
  "root_sector bpb = unat (reserved_sectors bpb) + unat (num_fats bpb) * unat (sectors_per_fat bpb)"

definition root_sectors :: "fat16n_bpb_t \<Rightarrow> nat" where
  "root_sectors bpb = unat (root_entry_count bpb) div 16"

definition cluster_sector :: "fat16n_bpb_t \<Rightarrow> nat \<Rightarrow> nat" where
  "cluster_sector bpb c = root_sector bpb + root_sectors bpb + (c - 2) * unat (sectors_per_cluster bpb)"

definition next_cluster :: "block_device \<Rightarrow> u32 \<Rightarrow> fat16n_bpb_t \<Rightarrow> nat \<Rightarrow> nat option" where
  "next_cluster dev base_lba bpb c =
     map_option (\<lambda>sector. unat (sector ! (2 * (c mod 256))) + 256 * unat (sector ! (2 * (c mod 256) + 1)))
       (dev (base_lba + of_nat (unat (reserved_sectors bpb) + c div 256)) 1)"

text \<open>The 32-byte entries of the root directory: of the sectors up to the first that cannot be read,
  the entries up to the end mark.\<close>

definition sector_entries :: "u8 list \<Rightarrow> u8 list list" where
  "sector_entries sector = map (\<lambda>i. take 32 (drop (32 * i) sector)) [0..<16]"

definition readable_sectors :: "block_device \<Rightarrow> u32 \<Rightarrow> nat list \<Rightarrow> u8 list list" where
  "readable_sectors dev base_lba ss =
     map the (takeWhile (\<lambda>s. s \<noteq> None) (map (\<lambda>s. dev (base_lba + of_nat s) 1) ss))"

definition root_directory :: "block_device \<Rightarrow> u32 \<Rightarrow> fat16n_bpb_t \<Rightarrow> u8 list list" where
  "root_directory dev base_lba bpb =
     takeWhile (\<lambda>e. e ! 0 \<noteq> 0) (concat (map sector_entries
       (readable_sectors dev base_lba [root_sector bpb..<root_sector bpb + root_sectors bpb])))"

text \<open>A file in use with the name, and where its content is.\<close>

definition names_file :: "string \<Rightarrow> u8 list \<Rightarrow> bool" where
  "names_file name e \<longleftrightarrow> e ! 0 \<noteq> 0xE5 \<and> entry_name e 0 = name"

definition entry_location :: "u8 list \<Rightarrow> u32 \<times> u32" where
  "entry_location e = (ucast (fat16n_u16 e 26), fat16n_u32 e 28)"

text \<open>What the driver of the device keeps: a read of one sector gives 512 bytes.\<close>

definition sectors_of_512 :: "block_device \<Rightarrow> bool" where
  "sectors_of_512 dev \<longleftrightarrow> (\<forall>lba bs. dev lba 1 = Some bs \<longrightarrow> length bs = 512)"

lemma entry_offsets_bound: "off \<in> set entry_offsets \<Longrightarrow> off + 32 \<le> 512"
  by (auto simp: entry_offsets_def)

lemma trimmed_name_entry:
  "n + k \<le> 32 \<Longrightarrow> trimmed_name (take 32 (drop off sector)) k n = trimmed_name sector (off + k) n"
  by (simp add: trimmed_name_def drop_take add.commute min_absorb1 take_take)

lemma entry_fields:
  assumes "off + 32 \<le> length sector"
  shows "take 32 (drop off sector) ! 0 = sector ! off"
    "entry_name (take 32 (drop off sector)) 0 = entry_name sector off"
    "entry_location (take 32 (drop off sector)) = (ucast (fat16n_u16 sector (off + 26)), fat16n_u32 sector (off + 28))"
  using assms by (simp_all add: entry_name_def trimmed_name_entry [of 8 0, simplified] trimmed_name_entry entry_location_def fat16n_u16_def
      fat16n_u32_def ac_simps)

lemma scan_entries_find:
  assumes "length sector = 512" "\<forall>off \<in> set offs. off + 32 \<le> 512"
  shows "scan_entries name sector offs =
      (let es = map (\<lambda>off. take 32 (drop off sector)) offs; live = takeWhile (\<lambda>e. e ! 0 \<noteq> 0) es
       in case List.find (names_file name) live of
            Some e \<Rightarrow> Some (Some (entry_location e))
          | None \<Rightarrow> if live = es then None else Some None)"
  using assms(2)
proof (induction offs)
  case (Cons off offs)
  have e: "off + 32 \<le> length sector" using Cons.prems assms(1) by simp
  show ?case
    using Cons by (auto simp: entry_fields [OF e] Let_def names_file_def takeWhile_eq_all_conv split: option.splits)
qed (simp add: Let_def)

lemma find_append: "List.find P (xs @ ys) = (case List.find P xs of Some x \<Rightarrow> Some x | None \<Rightarrow> List.find P ys)"
  by (induction xs) auto

lemma sector_entries_offsets: "sector_entries sector = map (\<lambda>off. take 32 (drop off sector)) entry_offsets"
  by (simp add: sector_entries_def entry_offsets_def o_def)

lemma scan_sectors_find:
  assumes dev: "sectors_of_512 dev"
  shows "scan_sectors dev base_lba (of_nat lba) name ss =
     map_option entry_location (List.find (names_file name)
       (takeWhile (\<lambda>e. e ! 0 \<noteq> 0) (concat (map sector_entries (readable_sectors dev base_lba (map ((+) lba) ss))))))"
proof (induction ss)
  case (Cons s ss)
  show ?case
  proof (cases "dev (base_lba + (of_nat lba + of_nat s)) 1")
    case (Some sector)
    with dev have l: "length sector = 512" by (auto simp: sectors_of_512_def)
    let ?es = "sector_entries sector" and ?p = "\<lambda>e. e ! 0 \<noteq> (0 :: u8)"
    have scan: "scan_entries name sector entry_offsets =
        (case List.find (names_file name) (takeWhile ?p ?es) of
            Some e \<Rightarrow> Some (Some (entry_location e))
          | None \<Rightarrow> if takeWhile ?p ?es = ?es then None else Some None)"
      unfolding sector_entries_offsets
      by (rule scan_entries_find [OF l, of entry_offsets name, unfolded Let_def]) (blast intro: entry_offsets_bound)
    have "takeWhile ?p (es @ rest) = takeWhile ?p es @ (if takeWhile ?p es = es then takeWhile ?p rest else [])" for es rest
      by (induction es) auto
    then show ?thesis
      using Cons.IH Some scan
      by (auto simp: readable_sectors_def find_append fat16n_read_sectors_def add.assoc split: option.splits)
  qed (simp add: readable_sectors_def fat16n_read_sectors_def add.assoc)
qed (simp add: readable_sectors_def)

lemma unat_bpb:
  "unat (ucast (reserved_sectors bpb) :: u32) = unat (reserved_sectors bpb)"
  "unat (ucast (num_fats bpb) :: u32) = unat (num_fats bpb)"
  "unat (ucast (sectors_per_fat bpb) :: u32) = unat (sectors_per_fat bpb)"
  "unat (ucast (root_entry_count bpb) :: u32) = unat (root_entry_count bpb)"
  "unat (ucast (sectors_per_cluster bpb) :: u32) = unat (sectors_per_cluster bpb)"
  "unat (ucast (bytes_per_sector bpb) :: u32) = unat (bytes_per_sector bpb)"
proof -
  have "unat (ucast (b :: u8) :: u32) = unat b" for b
  proof -
    have "unat b < 2 ^ LENGTH(8)" by (rule unsigned_less)
    then show ?thesis by (simp add: unsigned_ucast_eq take_bit_nat_eq_self)
  qed
  moreover have "unat (ucast (h :: u16) :: u32) = unat h" for h
    using unat_lt16 [of h] by (simp add: unsigned_ucast_eq take_bit_nat_eq_self)
  ultimately show
    "unat (ucast (reserved_sectors bpb) :: u32) = unat (reserved_sectors bpb)"
    "unat (ucast (num_fats bpb) :: u32) = unat (num_fats bpb)"
    "unat (ucast (sectors_per_fat bpb) :: u32) = unat (sectors_per_fat bpb)"
    "unat (ucast (root_entry_count bpb) :: u32) = unat (root_entry_count bpb)"
    "unat (ucast (sectors_per_cluster bpb) :: u32) = unat (sectors_per_cluster bpb)"
    "unat (ucast (bytes_per_sector bpb) :: u32) = unat (bytes_per_sector bpb)"
    by blast+
qed

lemma root_dir_lba: "fat16n_root_dir_lba bpb = of_nat (root_sector bpb)"
  by (simp add: fat16n_root_dir_lba_def root_sector_def)

lemma root_dir_sector_count:
  assumes "bytes_per_sector bpb = 512"
  shows "unat (fat16n_root_dir_sector_count bpb) = root_sectors bpb"
proof -
  have "unat (ucast (root_entry_count bpb) * 32 :: u32) = unat (root_entry_count bpb) * 32"
    using unat_lt16 [of "root_entry_count bpb"] by (subst unat_mult_lem [THEN iffD1]) (simp_all add: unat_bpb)
  then show ?thesis
    using assms by (simp add: fat16n_root_dir_sector_count_def root_sectors_def unat_div)
qed

lemma cluster_to_lba:
  assumes "bytes_per_sector bpb = 512" "2 \<le> c"
  shows "fat16n_cluster_to_lba bpb (of_nat c) = of_nat (cluster_sector bpb c)"
proof -
  have "fat16n_root_dir_sector_count bpb = of_nat (root_sectors bpb)"
    using root_dir_sector_count [OF assms(1)] by (metis of_nat_unat ucast_id)
  then show ?thesis
    using assms(2)
    by (simp add: fat16n_cluster_to_lba_def fat16n_data_start_lba_def cluster_sector_def root_dir_lba of_nat_diff)
qed

lemma u16_bytes:
  "fat16n_u16 s k = of_nat (unat (s ! k) + 256 * unat (s ! (k + 1))) \<and>
   unat (s ! k) + 256 * unat (s ! (k + 1)) < 65536"
proof
  have b: "unat b < 256" for b :: u8
  proof -
    have "unat b < 2 ^ LENGTH(8)" by (rule unsigned_less)
    then show ?thesis by simp
  qed
  show "unat (s ! k) + 256 * unat (s ! (k + 1)) < 65536"
    using b [of "s ! k"] b [of "s ! (k + 1)"] by linarith
  have "fat16n_u16 s k = ucast (s ! k) + push_bit 8 (ucast (s ! (k + 1)))"
    unfolding fat16n_u16_def
    by (rule disjunctive_add_eq_or [symmetric], rule bit_word_eqI) (auto simp: bit_simps dest: bit_imp_le_length)
  then show "fat16n_u16 s k = of_nat (unat (s ! k) + 256 * unat (s ! (k + 1)))"
    by (simp add: push_bit_eq_mult mult.commute)
qed

lemma fat_entry:
  assumes "bytes_per_sector bpb = 512" "c < 65536" "next_cluster dev base_lba bpb c = Some n"
  shows "fat16n_fat_entry dev base_lba bpb (of_nat c) = of_nat n \<and> n < 65536"
proof -
  have u: "unat (of_nat c * 2 :: u32) = c * 2"
    using assms(2) by (subst unat_mult_lem [THEN iffD1]) (simp_all add: unat_of_nat)
  have d: "(of_nat c * 2 :: u32) div 512 = of_nat (c div 256)"
    using assms(2) u by (simp add: word_eq_iff_unat unat_div unat_of_nat)
  have m: "unat ((of_nat c * 2 :: u32) mod 512) = 2 * (c mod 256)"
    using u mult_mod_right [of 2 c 256] by (simp add: unat_mod mult.commute)
  have bytes: "fat16n_u16 s k = of_nat (unat (s ! k) + 256 * unat (s ! (k + 1)))
      \<and> unat (s ! k) + 256 * unat (s ! (k + 1)) < 65536" for s k
    by (rule u16_bytes)
  show ?thesis
    using assms(1,3) bytes d m
    by (auto simp: next_cluster_def fat16n_fat_entry_def fat16n_read_sectors_def Let_def split: option.splits)
qed

text \<open>
  The directory lookup of \<^verbatim>\<open>fat16n_find_root_entry\<close>, whose loops read sector by sector and compare
  names in place, is a search in the list of directory entries: it gives the first cluster and the
  size of the first entry before the end mark that is not deleted and has the name, and nothing
  when there is none.
\<close>

lemma find_root_entry_eq:
  assumes "sectors_of_512 dev" "bytes_per_sector bpb = 512"
  shows "fat16n_find_root_entry dev base_lba bpb name =
     map_option entry_location (List.find (names_file name) (root_directory dev base_lba bpb))"
proof -
  have "map ((+) a) [0..<n] = [a..<a + n]" for a n :: nat
    using map_add_upt [of a n] by (simp add: add.commute [of _ a] cong: map_cong)
  then show ?thesis
    unfolding fat16n_find_root_entry_def root_directory_def root_dir_sector_count [OF assms(2)] root_dir_lba
      scan_sectors_find [OF assms(1)] by simp
qed

text \<open>A chain of clusters: each but the last names the next in the file allocation table.\<close>

fun linked :: "block_device \<Rightarrow> u32 \<Rightarrow> fat16n_bpb_t \<Rightarrow> nat list \<Rightarrow> bool" where
  "linked dev base_lba bpb [] = False"
| "linked dev base_lba bpb [c] = (2 \<le> c \<and> c < 65536)"
| "linked dev base_lba bpb (c # c' # cs) =
     (2 \<le> c \<and> c < 65536 \<and> next_cluster dev base_lba bpb c = Some c' \<and> c' < 0xFFF8 \<and> linked dev base_lba bpb (c' # cs))"

definition cluster_size :: "fat16n_bpb_t \<Rightarrow> nat" where
  "cluster_size bpb = unat (sectors_per_cluster bpb) * unat (bytes_per_sector bpb)"

text \<open>
  A file of \<open>n\<close> bytes on the volume: its clusters are linked and each can be read in full, and its
  last byte lies in the last cluster.
\<close>

definition cluster_data :: "block_device \<Rightarrow> u32 \<Rightarrow> fat16n_bpb_t \<Rightarrow> nat \<Rightarrow> u8 list option" where
  "cluster_data dev base_lba bpb c = dev (base_lba + of_nat (cluster_sector bpb c)) (ucast (sectors_per_cluster bpb))"

definition holds_file :: "block_device \<Rightarrow> u32 \<Rightarrow> fat16n_bpb_t \<Rightarrow> nat list \<Rightarrow> u8 list list \<Rightarrow> nat \<Rightarrow> bool" where
  "holds_file dev base_lba bpb clusters contents n \<longleftrightarrow>
     linked dev base_lba bpb clusters \<and> map (cluster_data dev base_lba bpb) clusters = map Some contents \<and>
     (\<forall>b \<in> set contents. length b = cluster_size bpb) \<and>
     (length clusters - 1) * cluster_size bpb < n \<and> n \<le> length clusters * cluster_size bpb"

lemma chain_loop_reads:
  assumes bps: "bytes_per_sector bpb = 512"
    and "linked dev base_lba bpb clusters"
    and "map (cluster_data dev base_lba bpb) clusters = map Some contents"
    and "\<forall>b \<in> set contents. length b = cb"
    and "length data + (length clusters - 1) * cb < unat sz" "unat sz \<le> length data + length clusters * cb"
    and "unat cluster_bytes = cb" "unat sz + cb < 2 ^ 32" "length clusters \<le> k"
  shows "chain_loop k dev base_lba bpb cluster_bytes sz (of_nat (hd clusters)) data = Some (take (unat sz) (data @ concat contents))"
  using assms(2-)
proof (induction clusters arbitrary: contents data k)
  case (Cons c cs)
  obtain b bs where contents: "contents = b # bs" using Cons.prems(2) by (cases contents) auto
  obtain k' where k: "k = Suc k'" using Cons.prems(8) by (cases k) auto
  have c: "2 \<le> c" "c < 65536" using Cons.prems(1) by (cases cs; simp)+
  have read: "fat16n_read_sectors dev base_lba (fat16n_cluster_to_lba bpb (of_nat c)) (ucast (sectors_per_cluster bpb)) = Some b"
    and reads: "map (cluster_data dev base_lba bpb) cs = map Some bs"
    using Cons.prems(2) contents cluster_to_lba [OF bps c(1)]
    by (simp_all add: cluster_data_def [of dev base_lba bpb c] fat16n_read_sectors_def)
  have b: "length b = cb" and bs: "\<forall>b \<in> set bs. length b = cb" using Cons.prems(3) contents by auto
  let ?w = "of_nat (length data) :: u32"
  have dl: "length data < unat sz" using Cons.prems(4) by linarith
  have w: "unat ?w = length data"
    using dl unat_lt32 [of sz] by (simp add: unat_of_nat)
  have less: "?w < sz" using dl w by (simp add: word_less_nat_alt)
  have sum: "unat (?w + cluster_bytes) = length data + cb"
    using w Cons.prems(6,7) dl by (subst unat_add_lem [THEN iffD1]) auto
  show ?case
  proof (cases cs)
    case Nil
    with Cons.prems(5) have le: "unat sz \<le> length data + cb" by simp
    let ?chunk = "if sz < ?w + cluster_bytes then sz - ?w else cluster_bytes"
    have chunk: "unat ?chunk = unat sz - length data"
    proof (cases "sz < ?w + cluster_bytes")
      case True
      then show ?thesis using less w by (simp add: unat_sub order_less_imp_le)
    next
      case False
      then have "length data + cb \<le> unat sz" using sum by (simp add: word_less_nat_alt)
      with le False Cons.prems(6) show ?thesis by simp
    qed
    have "unat (?w + ?chunk) = unat sz"
      using chunk w dl unat_lt32 [of sz] by (subst unat_add_lem [THEN iffD1]) auto
    then have full: "sz \<le> ?w + ?chunk" by (simp add: word_le_nat_alt)
    have "take (unat sz) (data @ b) = data @ take (unat sz - length data) b" using dl by simp
    moreover have "bs = []" using reads Nil by simp
    ultimately show ?thesis
      using less read full chunk contents k by (simp add: Let_def del: if_split)
  next
    case (Cons c' cs')
    with Cons.prems(4) have lt: "length data + cb + (length cs - 1) * cb < unat sz" by simp
    have nl: "\<not> sz < ?w + cluster_bytes" using lt sum by (simp add: word_less_nat_alt)
    have "?w + cluster_bytes < sz" using lt sum by (simp add: word_less_nat_alt)
    then have more: "\<not> sz \<le> ?w + cluster_bytes" by simp
    have tk: "take (unat cluster_bytes) b = b" using b Cons.prems(6) by simp
    have nc: "next_cluster dev base_lba bpb c = Some c'" "c' < 0xFFF8" and link: "linked dev base_lba bpb cs"
      using Cons.prems(1) Cons by (auto simp: Let_def)
    have e: "fat16n_fat_entry dev base_lba bpb (of_nat c) = of_nat c'" using fat_entry [OF bps c(2) nc(1)] by simp
    have u: "unat (of_nat c' :: u16) = c'" using nc(2) by (simp add: unat_of_small)
    have ih: "chain_loop k' dev base_lba bpb cluster_bytes sz (of_nat (hd cs)) (data @ b)
        = Some (take (unat sz) ((data @ b) @ concat bs))"
    proof (rule Cons.IH [OF link reads bs])
      show "length (data @ b) + (length cs - 1) * cb < unat sz" using lt b by simp
      show "unat sz \<le> length (data @ b) + length cs * cb" using Cons.prems(5) b by simp
      show "length cs \<le> k'" using Cons.prems(8) k by simp
    qed (rule Cons.prems)+
    have "\<not> 0xFFF8 \<le> (of_nat c' :: u16)" using nc(2) u by (simp add: word_le_nat_alt)
    moreover have "ucast (of_nat c' :: u16) = (of_nat c' :: u32)"
      using u nc(2) by (simp add: word_eq_iff_unat unsigned_ucast_eq take_bit_nat_eq_self unat_of_nat)
    ultimately show ?thesis
      using less read nl more tk e ih Cons contents k by (simp add: Let_def)
  qed
qed simp

lemma unat_cluster_bytes:
  "unat (ucast (sectors_per_cluster bpb) * ucast (bytes_per_sector bpb) :: u32) = cluster_size bpb"
proof -
  have l: "unat (sectors_per_cluster bpb) < 256" "unat (bytes_per_sector bpb) < 65536"
    using unat_lt16 [of "bytes_per_sector bpb"] unsigned_less [of "sectors_per_cluster bpb"] by simp_all
  then have "unat (sectors_per_cluster bpb) * unat (bytes_per_sector bpb) \<le> 256 * 65536"
    by (intro mult_le_mono) simp_all
  moreover have "unat (ucast (sectors_per_cluster bpb) :: u32) = unat (sectors_per_cluster bpb)"
    "unat (ucast (bytes_per_sector bpb) :: u32) = unat (bytes_per_sector bpb)"
    using l by (simp_all add: unsigned_ucast_eq take_bit_nat_eq_self)
  ultimately show ?thesis
    by (subst unat_mult_lem [THEN iffD1]) (simp_all add: cluster_size_def)
qed

lemma fat16n_read_chain_reads:
  assumes f: "holds_file dev base_lba bpb clusters contents (unat sz)"
    and bps: "bytes_per_sector bpb = 512" and c: "cluster_size bpb \<le> 32768" and s: "unat sz + cluster_size bpb < 2 ^ 32"
  shows "fat16n_read_chain dev base_lba bpb (of_nat (hd clusters)) sz = Some (take (unat sz) (concat contents))"
proof -
  let ?cb = "ucast (sectors_per_cluster bpb) * ucast (bytes_per_sector bpb) :: u32"
  note u = unat_cluster_bytes [of bpb]
  have pos: "0 < cluster_size bpb" and n: "0 < length clusters"
    using f by (auto simp: holds_file_def intro: ccontr)
  then have big: "512 \<le> cluster_size bpb" using bps by (simp add: cluster_size_def)
  have "?cb \<noteq> 0" using pos u by (metis unat_0 less_irrefl)
  moreover have "\<not> FAT16N_MAX_CLUSTER_BYTES < ?cb"
    using c u by (simp add: word_less_nat_alt FAT16N_MAX_CLUSTER_BYTES_def)
  moreover have "length clusters \<le> unat ((sz + ?cb - 1) div ?cb + 2)"
  proof -
    have a: "unat (sz + ?cb) = unat sz + cluster_size bpb"
      using s u by (subst unat_add_lem [THEN iffD1]) auto
    then have "1 \<le> sz + ?cb" using pos by (simp add: word_le_nat_alt)
    then have b: "unat (sz + ?cb - 1) = unat sz + cluster_size bpb - 1" using a by (simp add: unat_sub)
    have d: "unat ((sz + ?cb - 1) div ?cb) = (unat sz + cluster_size bpb - 1) div cluster_size bpb"
      using b u by (simp add: unat_div)
    let ?q = "(unat sz + cluster_size bpb - 1) div cluster_size bpb"
    have "length clusters * cluster_size bpb \<le> unat sz + cluster_size bpb - 1"
      using f n pos by (cases "length clusters") (auto simp: holds_file_def)
    then have le: "length clusters \<le> ?q"
      using pos by (simp add: less_eq_div_iff_mult_less_eq)
    have "?q \<le> (unat sz + cluster_size bpb - 1) div 512"
      using big pos by (intro div_le_mono2) simp_all
    also have "\<dots> \<le> 2 ^ 32 div 512" using s by (intro div_le_mono) simp
    finally have q: "?q + 2 < 2 ^ 32" by simp
    then have "unat ((sz + ?cb - 1) div ?cb + 2) = ?q + 2"
      using d by (subst unat_add_lem [THEN iffD1]) simp_all
    with le show ?thesis by simp
  qed
  ultimately show ?thesis
    using chain_loop_reads [OF bps, of dev base_lba clusters contents "cluster_size bpb" "[]" sz ?cb "unat ((sz + ?cb - 1) div ?cb + 2)"]
      f s u by (simp add: fat16n_read_chain_def Let_def holds_file_def)
qed

text \<open>
  C18. \<^verbatim>\<open>cc_read_file_into_vector_native\<close> reads the file. Take a path that lies in a FAT16 mount, names a
  file of the root directory, and whose device is a disk with a partition with a boot sector of
  512-byte sectors; when the directory has an entry with that name, of size \<open>sz\<close>, and from the
  entry's first cluster the file allocation table links the clusters that hold a file of that size,
  the result is the vector of the first \<open>sz\<close> bytes of the clusters' contents, in order. The
  clusters have at most 32 KB, and the size is not within a cluster of \<open>2 ^ 32\<close>.
\<close>

theorem native_reads_file:
  assumes "os_mount_resolve mounts (os_string_to_cstr path STREAM_PATH_MAX) STREAM_PATH_MAX
        = Some (MOUNT_KIND_FAT16, CHR ''/'' # name, device_sym)" "CHR ''/'' \<notin> set name"
    and "get_function L ''%DEVICE-HANDLE'' w = Some fn" "call L fn [device_sym] w = (Value handle, w')"
    and "fat16n_resolve_device handle = Some (Some (p, base_lba))"
    and "fat16n_read_bpb (devices p) base_lba = Some bpb" "sectors_of_512 (devices p)"
    and "List.find (names_file name) (root_directory (devices p) base_lba bpb) = Some e"
    and "entry_location e = (of_nat (hd clusters), sz)"
    and "holds_file (devices p) base_lba bpb clusters contents (unat sz)"
    and "cluster_size bpb \<le> 32768" "unat sz + cluster_size bpb < 2 ^ 32"
  shows "cc_read_file_into_vector_native L devices mounts path w
     = Some (Value (byte_vector (take (unat sz) (concat contents))), w')"
proof -
  have bps: "bytes_per_sector bpb = 512"
    using assms(6) by (auto simp: fat16n_read_bpb_def Let_def split: option.splits if_splits)
  have "fat16n_find_root_entry (devices p) base_lba bpb name = Some (of_nat (hd clusters), sz)"
    using assms(8,9) find_root_entry_eq [OF assms(7) bps] by simp
  moreover have "sz \<noteq> 0" using assms(10) by (auto simp: holds_file_def)
  ultimately show ?thesis
    using assms(1-6) fat16n_read_chain_reads [OF assms(10) bps assms(11,12)]
    by (simp add: cc_read_file_into_vector_native_def Let_def)
qed

text \<open>A volume with one reserved sector, one table, sixteen directory entries and clusters of one sector:
  a deleted entry, and the file \<^verbatim>\<open>A.B\<close> of 515 bytes in the clusters 2 and 4.\<close>

definition small_volume :: block_device where
  "small_volume lba n =
     (if n \<noteq> 1 then None
      else Some (
        if lba = 0 then (replicate 512 0)[12 := 2, 13 := 1, 14 := 1, 16 := 1, 17 := 16, 22 := 1]
        else if lba = 1 then (replicate 512 0)[4 := 4, 8 := 0xFF, 9 := 0xFF]
        else if lba = 2 then
          [0xE5, 65] @ replicate 30 32 @ [65, 32, 32, 32, 32, 32, 32, 32, 66, 32, 32] @ replicate 15 0 @ [2, 0, 3, 2, 0, 0] @ replicate 448 0
        else if lba = 3 then replicate 512 7
        else replicate 512 9))"

definition small_bpb :: fat16n_bpb_t where
  "small_bpb = \<lparr>bytes_per_sector = 512, sectors_per_cluster = 1, reserved_sectors = 1, num_fats = 1,
     root_entry_count = 16, sectors_per_fat = 1\<rparr>"

definition small_entry :: "u8 list" where
  "small_entry = [65, 32, 32, 32, 32, 32, 32, 32, 66, 32, 32] @ replicate 15 0 @ [2, 0, 3, 2, 0, 0]"

lemma small_volume_sectors: "sectors_of_512 small_volume"
  by (simp add: sectors_of_512_def small_volume_def)

lemma small_volume_bpb: "fat16n_read_bpb small_volume 0 = Some small_bpb"
  by code_simp

lemma small_volume_entry: "List.find (names_file ''A.B'') (root_directory small_volume 0 small_bpb) = Some small_entry"
  by code_simp

lemma small_volume_file: "holds_file small_volume 0 small_bpb [2, 4] [replicate 512 7, replicate 512 9] 515"
  by (simp add: holds_file_def cluster_data_def cluster_sector_def root_sector_def root_sectors_def next_cluster_def
      cluster_size_def small_volume_def small_bpb_def)

theorem native_reads_file_witness:
  "cc_read_file_into_vector_native
     \<lparr>get_function = (\<lambda>name w. Some ()), call = (\<lambda>fn args w. (Value (Imm (0x1000 OR TAG_RAW_POINTER)), w) :: (lval, unit) lisp_result \<times> unit)\<rparr>
     (\<lambda>p. small_volume) [(''/mnt'', Sym ''D1'', Sym '':FAT16'')] ''/mnt/A.B'' ()
   = Some (Value (byte_vector (replicate 512 7 @ replicate 3 9)), ())"
proof -
  let ?L = "\<lparr>get_function = (\<lambda>name w. Some ()), call = (\<lambda>fn args w. (Value (Imm (0x1000 OR TAG_RAW_POINTER)), w) :: (lval, unit) lisp_result \<times> unit)\<rparr>"
  have r: "os_mount_resolve [(''/mnt'', Sym ''D1'', Sym '':FAT16'')] (os_string_to_cstr ''/mnt/A.B'' STREAM_PATH_MAX) STREAM_PATH_MAX
      = Some (MOUNT_KIND_FAT16, ''/A.B'', Sym ''D1'')" by code_simp
  have h: "fat16n_resolve_device (Imm (0x1000 OR TAG_RAW_POINTER)) = Some (Some (0x1000, 0))" by code_simp
  have l: "entry_location small_entry = (of_nat (hd [2, 4]), 515)" by code_simp
  have f: "holds_file small_volume 0 small_bpb [2, 4] [replicate 512 7, replicate 512 9] (unat (515 :: u32))"
    using small_volume_file by simp
  have "cc_read_file_into_vector_native ?L (\<lambda>p. small_volume) [(''/mnt'', Sym ''D1'', Sym '':FAT16'')] ''/mnt/A.B'' ()
      = Some (Value (byte_vector (take (unat (515 :: u32)) (concat [replicate 512 7, replicate 512 9]))), ())"
    by (rule native_reads_file [where devices = "\<lambda>p. small_volume", OF r _ _ _ h small_volume_bpb small_volume_sectors small_volume_entry l f])
      (simp_all add: cluster_size_def small_bpb_def)
  moreover have "take (unat (515 :: u32)) (concat [replicate 512 7, replicate 512 9]) = replicate 512 7 @ replicate 3 (9 :: u8)"
    by (simp add: take_replicate min_def)
  ultimately show ?thesis by (simp only:)
qed

end
