(* ===== verification/StreamLisp.thy ===== *)
theory StreamLisp
  imports Mount
begin

unbundle bit_operations_syntax

text \<open>
  The stream functions of Lisp in \<^verbatim>\<open>src/c/stream_lisp.c\<close>, with \<^verbatim>\<open>os_signal_condition\<close> and
  \<^verbatim>\<open>os_signal_io_error\<close> of \<^verbatim>\<open>src/c/runtime.c\<close>: opening by path through the mounts, the input functions
  with their end-of-stream protocol, the output functions, string streams and the length of a
  file.

  The streams are a store indexed by the pointer in their handle; opening allocates a stream,
  whose memory has the content \<open>blank\<close> before. The arguments are the list of the evaluated
  arguments. Lisp code (the FAT drivers, the condition system) is the parameter \<open>L\<close>. \<open>None\<close> is an
  access outside an object or, for the loops of \<open>cc_read_line\<close> and \<open>cc_file_length\<close>, no end.
\<close>

subsection \<open>Signalling a condition\<close>

record 'w lisp_world =
  signal_depth :: nat
  signal_overflow_count :: u64
  lisp_state :: 'w

definition SIGNAL_MAX_DEPTH :: nat where "SIGNAL_MAX_DEPTH = 16"
definition IO_ERROR_MSG_MAX :: nat where "IO_ERROR_MSG_MAX = 256"
definition g_sym_eval_error :: lval where "g_sym_eval_error = Sym ''EVAL-ERROR''"

type_synonym ('w, 't, 'f) lisp_code = "('w lisp_world, 't, 'f) lisp"

definition os_resolve_class ::
  "('w, 't, 'f) lisp_code \<Rightarrow> string \<Rightarrow> 'w lisp_world \<Rightarrow> (lval, 't) lisp_result \<times> 'w lisp_world" where
  "os_resolve_class L class_name w =
     (case get_function L ''%FIND-CLASS'' w of
        None \<Rightarrow> (Value g_sym_eval_error, w)
      | Some find_class_fn \<Rightarrow> call L find_class_fn [Sym class_name] w)"

text \<open>The body, for a class given by its name, with the depth already raised.\<close>

definition signal_body ::
  "('w, 't, 'f) lisp_code \<Rightarrow> string \<Rightarrow> lval list \<Rightarrow> 'w lisp_world \<Rightarrow> (lval, 't) lisp_result \<times> 'w lisp_world" where
  "signal_body L class_name initargs w =
     (case (get_function L ''MAKE-INSTANCE'' w, get_function L ''SIGNAL-CONDITION'' w) of
        (Some make_instance_fn, Some signal_condition_fn) \<Rightarrow>
          (case os_resolve_class L class_name w of
             (Transfer t, w) \<Rightarrow> (Transfer t, w)
           | (Value resolved_class, w) \<Rightarrow>
               (if resolved_class = Nil \<or> resolved_class = g_sym_eval_error then (Value g_sym_eval_error, w)
                else case call L make_instance_fn (Sym class_name # initargs) w of
                    (Transfer t, w) \<Rightarrow> (Transfer t, w)
                  | (Value condition, w) \<Rightarrow> call L signal_condition_fn [condition, Nil] w))
      | _ \<Rightarrow> (Value g_sym_eval_error, w))"

definition os_signal_condition ::
  "('w, 't, 'f) lisp_code \<Rightarrow> string \<Rightarrow> lval list \<Rightarrow> 'w lisp_world \<Rightarrow> (lval, 't) lisp_result \<times> 'w lisp_world" where
  "os_signal_condition L class_name initargs w =
     (if SIGNAL_MAX_DEPTH \<le> signal_depth w
      then (Value g_sym_eval_error, w\<lparr>signal_overflow_count := signal_overflow_count w + 1\<rparr>)
      else let saved = signal_depth w;
               (r, w) = signal_body L class_name initargs (w\<lparr>signal_depth := saved + 1\<rparr>)
           in (r, w\<lparr>signal_depth := saved\<rparr>))"

definition io_error_append :: "string \<Rightarrow> string \<Rightarrow> string" where
  "io_error_append msg src = take (IO_ERROR_MSG_MAX - 1) (msg @ cstr src)"

definition os_signal_io_error ::
  "('w, 't, 'f) lisp_code \<Rightarrow> string \<Rightarrow> string \<Rightarrow> string \<Rightarrow> 'w lisp_world \<Rightarrow> (lval, 't) lisp_result \<times> 'w lisp_world" where
  "os_signal_io_error L what path detail =
     (let msg = io_error_append (io_error_append (io_error_append [] what) '': '') path;
          msg = (if detail \<noteq> [] then io_error_append (io_error_append msg '': '') detail else msg)
      in os_signal_condition L ''<SIMPLE-ERROR>''
           [Sym '':FORMAT-STRING'', Str ''~A'', Sym '':FORMAT-ARGUMENTS'', Cons (Str msg) Nil])"

subsection \<open>The streams and their handles\<close>

type_synonym ('w, 't) lisp_stream = "('w lisp_world, lval, 't) os_stream"

record ('d, 'w, 't) system =
  io :: "('d, 'w lisp_world) io"
  streams :: "('w, 't) lisp_stream list"
  mounts :: "(string \<times> lval \<times> lval) list"
  standard_input :: lval
  stdout_buffer :: nat
  stdin_read_char :: "'w lisp_world \<Rightarrow> char option \<times> 'w lisp_world"
  blank :: "('w, 't) lisp_stream"

type_synonym ('d, 'w, 't) lisp_drivers = "('d, 'w lisp_world, lval, 't) drivers"
type_synonym ('a, 'd, 'w, 't) action = "('d, 'w, 't) system \<Rightarrow> ('a \<times> ('d, 'w, 't) system) option"
type_synonym ('d, 'w, 't) cc = "((lval, 't) lisp_result, 'd, 'w, 't) action"

definition stream_raw :: "lval \<Rightarrow> ('d, 'w, 't) system \<Rightarrow> nat option" where
  "stream_raw v sys =
     (case v of
        Obj magic [Imm a] \<Rightarrow> if magic = MAGIC_STREAM \<and> unat a < length (streams sys) then Some (unat a) else None
      | _ \<Rightarrow> None)"

definition os_make_stream :: "('w, 't) lisp_stream \<Rightarrow> ('d, 'w, 't) cc" where
  "os_make_stream s sys = Some (Value (Obj MAGIC_STREAM [Imm (of_nat (length (streams sys)))]), sys\<lparr>streams := streams sys @ [s]\<rparr>)"

definition with_stream ::
  "lval \<Rightarrow> (('w, 't) lisp_stream \<Rightarrow> ('d, 'w lisp_world) io \<Rightarrow> ('a \<times> ('w, 't) lisp_stream \<times> ('d, 'w lisp_world) io) option) \<Rightarrow>
   ('a, 'd, 'w, 't) action" where
  "with_stream v f sys =
     (case stream_raw v sys of
        None \<Rightarrow> None
      | Some a \<Rightarrow>
          (case f (streams sys ! a) (io sys) of
             None \<Rightarrow> None
           | Some (r, s, io') \<Rightarrow> Some (r, sys\<lparr>io := io', streams := (streams sys)[a := s]\<rparr>)))"

definition on_world :: "('w lisp_world \<Rightarrow> 'a \<times> 'w lisp_world) \<Rightarrow> ('a, 'd, 'w, 't) action" where
  "on_world f sys = (case f (world (io sys)) of (r, w) \<Rightarrow> Some (r, sys\<lparr>io := (io sys)\<lparr>world := w\<rparr>\<rparr>))"

definition on_volume_files ::
  "('w lisp_world \<Rightarrow> (('a, 't) fat_result \<times> 'w lisp_world) option) \<Rightarrow> (('a, 't) fat_result, 'd, 'w, 't) action" where
  "on_volume_files f sys =
     (case f (world (io sys)) of None \<Rightarrow> None | Some (r, w) \<Rightarrow> Some (r, sys\<lparr>io := (io sys)\<lparr>world := w\<rparr>\<rparr>))"

text \<open>Every function that touches a stream looks for a stored control transfer before it returns.\<close>

definition take_transfer :: "lval \<Rightarrow> ('d, 'w, 't) cc \<Rightarrow> ('d, 'w, 't) cc" where
  "take_transfer stream k sys =
     (case with_stream stream (\<lambda>s io. case os_stream_take_transfer s of (t, s) \<Rightarrow> Some (t, s, io)) sys of
        None \<Rightarrow> None
      | Some (Some t, sys) \<Rightarrow> Some (Transfer t, sys)
      | Some (None, sys) \<Rightarrow> k sys)"

definition returning :: "lval \<Rightarrow> ('d, 'w, 't) cc" where
  "returning v sys = Some (Value v, sys)"

definition stream_kind_is_input :: "stream_kind_t \<Rightarrow> bool" where
  "stream_kind_is_input k \<longleftrightarrow> k = STREAM_9P_FILE_READ \<or> k = STREAM_9P_FILE_IO \<or> k = STREAM_STRING_INPUT
     \<or> k = STREAM_FAT_FILE_IO \<or> k = STREAM_INPUT_KEYBOARD"

definition stream_kind_is_output :: "stream_kind_t \<Rightarrow> bool" where
  "stream_kind_is_output k \<longleftrightarrow> k = STREAM_9P_FILE_WRITE \<or> k = STREAM_9P_FILE_IO
     \<or> k = STREAM_OUTPUT_SCREEN \<or> k = STREAM_STRING_OUTPUT
     \<or> k = STREAM_FAT_FILE_WRITE \<or> k = STREAM_FAT_FILE_IO"

definition make_keyboard_input_stream :: "('d, 'w, 't) cc" where
  "make_keyboard_input_stream sys = os_make_stream (os_stream_open_keyboard_input (Some (stdin_read_char sys)) (blank sys)) sys"

definition cc_keyboard_input_stream :: "lval list \<Rightarrow> ('d, 'w, 't) cc" where
  "cc_keyboard_input_stream args = make_keyboard_input_stream"

text \<open>The stream, whether its end is an error, and the value to return when it is not.\<close>

definition resolve_input_args :: "lval list \<Rightarrow> (lval \<times> bool \<times> lval, 'd, 'w, 't) action" where
  "resolve_input_args args sys =
     (let stream = (case args of [] \<Rightarrow> Nil | s # _ \<Rightarrow> s);
          stream = (if stream = Nil then standard_input sys else stream);
          eos_error_p = (case args of _ # e # _ \<Rightarrow> e \<noteq> Nil | _ \<Rightarrow> True);
          eos_value = (case args of _ # _ # v # _ \<Rightarrow> v | _ \<Rightarrow> Nil)
      in if stream = Nil
         then case make_keyboard_input_stream sys of
             Some (Value stream, sys) \<Rightarrow> Some ((stream, eos_error_p, eos_value), sys)
           | _ \<Rightarrow> None
         else Some ((stream, eos_error_p, eos_value), sys))"

definition handle_end_of_stream :: "('w, 't, 'f) lisp_code \<Rightarrow> lval \<Rightarrow> bool \<Rightarrow> lval \<Rightarrow> ('d, 'w, 't) cc" where
  "handle_end_of_stream L stream eos_error_p eos_value =
     (if \<not> eos_error_p then returning eos_value
      else on_world (os_signal_condition L ''<END-OF-STREAM>'' [Sym '':STREAM'', stream]))"

subsection \<open>Opening files\<close>

definition open_error :: "'a p9_result \<times> 'c \<Rightarrow> string" where
  "open_error r = (case fst r of Failed e \<Rightarrow> e | _ \<Rightarrow> [])"

text \<open>The text that a failed \<open>open_or_create\<close> leaves: that of the attempt to create.\<close>

definition create_error :: "('d, 'w, 't) lisp_drivers \<Rightarrow> string \<Rightarrow> u8 \<Rightarrow> ('d, 'w lisp_world) io \<Rightarrow> string" where
  "create_error D path mode i =
     open_error (os_virtio9p_create (transport D) path STREAM_CREATE_PERM mode (Some ERR_MSG_SIZE)
       (snd (os_virtio9p_open (transport D) path (mode OR P9_OTRUNC) (Some ERR_MSG_SIZE) (client i))))"

definition path_arg :: "lval list \<Rightarrow> string option" where
  "path_arg args = (case args of Str s # _ \<Rightarrow> Some (os_string_to_cstr s STREAM_PATH_MAX) | _ \<Rightarrow> None)"

definition open_nine ::
  "('w, 't, 'f) lisp_code \<Rightarrow> string \<Rightarrow> string \<Rightarrow> string \<Rightarrow> (bool \<times> ('w, 't) lisp_stream \<times> ('d, 'w lisp_world) io) option \<Rightarrow> ('d, 'w, 't) cc" where
  "open_nine L what path detail r sys =
     (case r of
        None \<Rightarrow> None
      | Some (True, raw, i) \<Rightarrow> os_make_stream raw (sys\<lparr>io := i\<rparr>)
      | Some (False, raw, i) \<Rightarrow> on_world (os_signal_io_error L what path detail) (sys\<lparr>io := i\<rparr>))"

definition cc_open_input_stream :: "('w, 't, 'f) lisp_code \<Rightarrow> ('d, 'w, 't) lisp_drivers \<Rightarrow> lval list \<Rightarrow> ('d, 'w, 't) cc" where
  "cc_open_input_stream L D args sys =
     (case path_arg args of
        None \<Rightarrow> None
      | Some path \<Rightarrow>
          (case os_mount_resolve (mounts sys) path STREAM_PATH_MAX of
             None \<Rightarrow> on_world (os_signal_io_error L ''open-input-file'' path ''no such mount'') sys
           | Some (fs_kind, relative, device_sym) \<Rightarrow>
               (if fs_kind = MOUNT_KIND_9P
                then open_nine L ''open-input-file'' path
                       (open_error (os_virtio9p_open (transport D) relative P9_OREAD (Some ERR_MSG_SIZE) (client (io sys))))
                       (os_stream_open_9p_file D relative (Some ERR_MSG_SIZE) (blank sys) (io sys)) sys
                else case on_volume_files (os_mount_fat_read_file L fs_kind device_sym relative) sys of
                    None \<Rightarrow> None
                  | Some (Inl (Some t), sys) \<Rightarrow> Some (Transfer t, sys)
                  | Some (Inl None, sys) \<Rightarrow> on_world (os_signal_io_error L ''open-input-file'' path ''cannot read file'') sys
                  | Some (Inr data, sys) \<Rightarrow> os_make_stream (os_stream_open_string_input data (length data) (blank sys)) sys)))"

text \<open>\<open>open-output-file\<close> and \<open>open-io-file\<close> differ in the open functions and in truncation.\<close>

definition open_file_for ::
  "('w, 't, 'f) lisp_code \<Rightarrow> ('d, 'w, 't) lisp_drivers \<Rightarrow> string \<Rightarrow> u8 \<Rightarrow>
   (('d, 'w, 't) lisp_drivers \<Rightarrow> string \<Rightarrow> bool \<Rightarrow> nat option \<Rightarrow> ('w, 't) lisp_stream \<Rightarrow> ('d, 'w lisp_world) io \<Rightarrow>
      (bool \<times> ('w, 't) lisp_stream \<times> ('d, 'w lisp_world) io) option) \<Rightarrow>
   (lval \<Rightarrow> ('w, 't) lisp_stream \<Rightarrow> ('w, 't) lisp_stream) \<Rightarrow> bool \<Rightarrow> lval list \<Rightarrow> ('d, 'w, 't) cc" where
  "open_file_for L D what mode open_9p open_fat trunc args sys =
     (case path_arg args of
        None \<Rightarrow> None
      | Some path \<Rightarrow>
          (case os_mount_resolve (mounts sys) path STREAM_PATH_MAX of
             None \<Rightarrow> on_world (os_signal_io_error L what path ''no such mount'') sys
           | Some (fs_kind, relative, device_sym) \<Rightarrow>
               (if fs_kind = MOUNT_KIND_9P
                then open_nine L what path (create_error D relative mode (io sys))
                       (open_9p D relative True (Some ERR_MSG_SIZE) (blank sys) (io sys)) sys
                else case on_volume_files (os_mount_fat_resolve_file_node L fs_kind device_sym relative trunc True) sys of
                    None \<Rightarrow> None
                  | Some (Inl (Some t), sys) \<Rightarrow> Some (Transfer t, sys)
                  | Some (Inl None, sys) \<Rightarrow> on_world (os_signal_io_error L what path ''cannot resolve file'') sys
                  | Some (Inr node, sys) \<Rightarrow> os_make_stream (open_fat node (blank sys)) sys)))"

definition cc_open_output_file :: "('w, 't, 'f) lisp_code \<Rightarrow> ('d, 'w, 't) lisp_drivers \<Rightarrow> lval list \<Rightarrow> ('d, 'w, 't) cc" where
  "cc_open_output_file L D =
     open_file_for L D ''open-output-file'' P9_OWRITE os_stream_open_9p_file_write os_stream_open_fat_file_write True"

definition cc_open_io_file :: "('w, 't, 'f) lisp_code \<Rightarrow> ('d, 'w, 't) lisp_drivers \<Rightarrow> lval list \<Rightarrow> ('d, 'w, 't) cc" where
  "cc_open_io_file L D =
     open_file_for L D ''open-io-file'' P9_ORDWR os_stream_open_9p_file_io os_stream_open_fat_file_io False"

definition cc_open_output_stream :: "('w, 't, 'f) lisp_code \<Rightarrow> ('d, 'w, 't) lisp_drivers \<Rightarrow> lval list \<Rightarrow> ('d, 'w, 't) cc" where
  "cc_open_output_stream L D args sys =
     (case args of
        Str _ # _ \<Rightarrow> cc_open_output_file L D args sys
      | _ \<Rightarrow> os_make_stream (os_stream_open_screen_output (stdout_buffer sys) (blank sys)) sys)"

definition cc_probe_file :: "('w, 't, 'f) lisp_code \<Rightarrow> ('d, 'w, 't) lisp_drivers \<Rightarrow> lval list \<Rightarrow> ('d, 'w, 't) cc" where
  "cc_probe_file L D args sys =
     (case path_arg args of
        None \<Rightarrow> None
      | Some path \<Rightarrow>
          (case os_mount_resolve (mounts sys) path STREAM_PATH_MAX of
             None \<Rightarrow> returning Nil sys
           | Some (fs_kind, relative, device_sym) \<Rightarrow>
               (if fs_kind = MOUNT_KIND_9P
                then case os_stream_open_9p_file D relative (Some ERR_MSG_SIZE) (blank sys) (io sys) of
                    None \<Rightarrow> None
                  | Some (False, tmp, i) \<Rightarrow> returning Nil (sys\<lparr>io := i\<rparr>)
                  | Some (True, tmp, i) \<Rightarrow>
                      (case os_stream_close D tmp i of
                         None \<Rightarrow> None
                       | Some (tmp, i) \<Rightarrow> returning (Sym ''T'') (sys\<lparr>io := i\<rparr>))
                else case on_volume_files (os_mount_fat_read_file L fs_kind device_sym relative) sys of
                    None \<Rightarrow> None
                  | Some (Inl (Some t), sys) \<Rightarrow> Some (Transfer t, sys)
                  | Some (Inl None, sys) \<Rightarrow> returning Nil sys
                  | Some (Inr data, sys) \<Rightarrow> returning (Sym ''T'') sys)))"

partial_function (option) count_chars ::
  "('d, 'w, 'n, 't) drivers \<Rightarrow> u64 \<Rightarrow> ('w, 'n, 't) os_stream \<Rightarrow> ('d, 'w) io \<Rightarrow>
   (u64 \<times> ('w, 'n, 't) os_stream \<times> ('d, 'w) io) option" where
  "count_chars D n s i =
     (case os_stream_read_char D s i of
        None \<Rightarrow> None
      | Some (r, s, i) \<Rightarrow> (case r of None \<Rightarrow> Some (n, s, i) | Some ch \<Rightarrow> count_chars D (n + 1) s i))"

definition cc_file_length :: "('w, 't, 'f) lisp_code \<Rightarrow> ('d, 'w, 't) lisp_drivers \<Rightarrow> lval list \<Rightarrow> ('d, 'w, 't) cc" where
  "cc_file_length L D args sys =
     (case path_arg args of
        None \<Rightarrow> None
      | Some path \<Rightarrow>
          (case os_mount_resolve (mounts sys) path STREAM_PATH_MAX of
             None \<Rightarrow> returning Nil sys
           | Some (fs_kind, relative, device_sym) \<Rightarrow>
               (if fs_kind = MOUNT_KIND_9P
                then case os_stream_open_9p_file D relative (Some ERR_MSG_SIZE) (blank sys) (io sys) of
                    None \<Rightarrow> None
                  | Some (False, tmp, i) \<Rightarrow> returning Nil (sys\<lparr>io := i\<rparr>)
                  | Some (True, tmp, i) \<Rightarrow>
                      (case count_chars D 0 tmp i of
                         None \<Rightarrow> None
                       | Some (n, tmp, i) \<Rightarrow>
                           (case os_stream_close D tmp i of
                              None \<Rightarrow> None
                            | Some (tmp, i) \<Rightarrow> returning (Imm (os_make_fixnum n)) (sys\<lparr>io := i\<rparr>)))
                else case on_volume_files (os_mount_fat_file_size L fs_kind device_sym relative) sys of
                    None \<Rightarrow> None
                  | Some (Inl (Some t), sys) \<Rightarrow> Some (Transfer t, sys)
                  | Some (Inl None, sys) \<Rightarrow> returning Nil sys
                  | Some (Inr len, sys) \<Rightarrow> returning (Imm (os_make_fixnum (ucast len))) sys)))"

subsection \<open>Input\<close>

definition char_value :: "char \<Rightarrow> lval" where
  "char_value ch = Imm (os_make_char_from_code (ucast (char_byte ch)))"

text \<open>What the input functions share: resolve the arguments, read, and at the end look for a transfer.\<close>

definition reading_char ::
  "('w, 't, 'f) lisp_code \<Rightarrow>
   (('w, 't) lisp_stream \<Rightarrow> ('d, 'w lisp_world) io \<Rightarrow> (char option \<times> ('w, 't) lisp_stream \<times> ('d, 'w lisp_world) io) option) \<Rightarrow>
   lval list \<Rightarrow> ('d, 'w, 't) cc" where
  "reading_char L read args sys =
     (case resolve_input_args args sys of
        None \<Rightarrow> None
      | Some ((stream, eos_error_p, eos_value), sys) \<Rightarrow>
          (case with_stream stream read sys of
             None \<Rightarrow> None
           | Some (None, sys) \<Rightarrow> take_transfer stream (handle_end_of_stream L stream eos_error_p eos_value) sys
           | Some (Some ch, sys) \<Rightarrow> returning (char_value ch) sys))"

definition cc_read_char :: "('w, 't, 'f) lisp_code \<Rightarrow> ('d, 'w, 't) lisp_drivers \<Rightarrow> lval list \<Rightarrow> ('d, 'w, 't) cc" where
  "cc_read_char L D = reading_char L (os_stream_read_char D)"

definition cc_preview_char :: "('w, 't, 'f) lisp_code \<Rightarrow> ('d, 'w, 't) lisp_drivers \<Rightarrow> lval list \<Rightarrow> ('d, 'w, 't) cc" where
  "cc_preview_char L D = reading_char L (os_stream_preview_char D)"

definition READ_LINE_MAX :: nat where "READ_LINE_MAX = 512"

text \<open>The buffer and whether a character was read.\<close>

partial_function (option) read_line_loop ::
  "('d, 'w, 'n, 't) drivers \<Rightarrow> string \<Rightarrow> bool \<Rightarrow> ('w, 'n, 't) os_stream \<Rightarrow> ('d, 'w) io \<Rightarrow>
   ((string \<times> bool) \<times> ('w, 'n, 't) os_stream \<times> ('d, 'w) io) option" where
  "read_line_loop D buf got_any s i =
     (case os_stream_read_char D s i of
        None \<Rightarrow> None
      | Some (r, s, i) \<Rightarrow>
          (case r of
             None \<Rightarrow> Some ((buf, got_any), s, i)
           | Some ch \<Rightarrow>
               if ch = CHR 0x0A then Some ((buf, True), s, i)
               else read_line_loop D (if length buf < READ_LINE_MAX - 1 then buf @ [ch] else buf) True s i))"

definition cc_read_line :: "('w, 't, 'f) lisp_code \<Rightarrow> ('d, 'w, 't) lisp_drivers \<Rightarrow> lval list \<Rightarrow> ('d, 'w, 't) cc" where
  "cc_read_line L D args sys =
     (case resolve_input_args args sys of
        None \<Rightarrow> None
      | Some ((stream, eos_error_p, eos_value), sys) \<Rightarrow>
          (case with_stream stream (read_line_loop D [] False) sys of
             None \<Rightarrow> None
           | Some ((buf, got_any), sys) \<Rightarrow>
               take_transfer stream
                 (if \<not> got_any then handle_end_of_stream L stream eos_error_p eos_value else returning (Str buf)) sys))"

definition cc_stream_ready_p :: "lval list \<Rightarrow> ('d, 'w, 't) cc" where
  "cc_stream_ready_p args = returning (Sym ''T'')"

definition cc_read_byte1 :: "('d, 'w, 't) lisp_drivers \<Rightarrow> lval \<Rightarrow> ('d, 'w, 't) cc" where
  "cc_read_byte1 D stream sys =
     (case with_stream stream (os_stream_read_char D) sys of
        None \<Rightarrow> None
      | Some (None, sys) \<Rightarrow> take_transfer stream (returning Nil) sys
      | Some (Some ch, sys) \<Rightarrow> returning (Imm (os_make_fixnum (ucast (char_byte ch)))) sys)"

definition cc_read_byte :: "('w, 't, 'f) lisp_code \<Rightarrow> ('d, 'w, 't) lisp_drivers \<Rightarrow> lval list \<Rightarrow> ('d, 'w, 't) cc" where
  "cc_read_byte L D args sys =
     (case resolve_input_args args sys of
        None \<Rightarrow> None
      | Some ((stream, eos_error_p, eos_value), sys) \<Rightarrow>
          (case cc_read_byte1 D stream sys of
             None \<Rightarrow> None
           | Some (Transfer t, sys) \<Rightarrow> Some (Transfer t, sys)
           | Some (Value result, sys) \<Rightarrow>
               (if result = Nil then handle_end_of_stream L stream eos_error_p eos_value sys else returning result sys)))"

subsection \<open>Output and the other functions\<close>

definition unit_result :: "('s \<times> 'i) option \<Rightarrow> (unit \<times> 's \<times> 'i) option" where
  "unit_result r = map_option (\<lambda>(s, i). ((), s, i)) r"

definition cc_write_char :: "('d, 'w, 't) lisp_drivers \<Rightarrow> lval list \<Rightarrow> ('d, 'w, 't) cc" where
  "cc_write_char D args sys =
     (case args of
        Imm ch # stream # _ \<Rightarrow>
          (case with_stream stream (os_stream_write_char D (byte_char (ucast (drop_bit CHAR_VALUE_SHIFT ch)))) sys of
             None \<Rightarrow> None
           | Some (_, sys) \<Rightarrow> take_transfer stream (returning (Imm ch)) sys)
      | _ \<Rightarrow> None)"

definition cc_write_byte :: "('d, 'w, 't) lisp_drivers \<Rightarrow> lval list \<Rightarrow> ('d, 'w, 't) cc" where
  "cc_write_byte D args sys =
     (case args of
        Imm z # stream # _ \<Rightarrow>
          (case with_stream stream (os_stream_write_char D (byte_char (ucast (os_fixnum_magnitude z)))) sys of
             None \<Rightarrow> None
           | Some (_, sys) \<Rightarrow> take_transfer stream (returning (Imm z)) sys)
      | _ \<Rightarrow> None)"

definition on_handle ::
  "(('w, 't) lisp_stream \<Rightarrow> ('d, 'w lisp_world) io \<Rightarrow> (('w, 't) lisp_stream \<times> ('d, 'w lisp_world) io) option) \<Rightarrow> lval list \<Rightarrow> ('d, 'w, 't) cc" where
  "on_handle f args sys =
     (case args of
        stream # _ \<Rightarrow>
          (case with_stream stream (\<lambda>s i. unit_result (f s i)) sys of
             None \<Rightarrow> None
           | Some (_, sys) \<Rightarrow> take_transfer stream (returning Nil) sys)
      | _ \<Rightarrow> None)"

definition cc_close :: "('d, 'w, 't) lisp_drivers \<Rightarrow> lval list \<Rightarrow> ('d, 'w, 't) cc" where
  "cc_close D = on_handle (os_stream_close D)"

definition cc_finish_output :: "('d, 'w, 't) lisp_drivers \<Rightarrow> lval list \<Rightarrow> ('d, 'w, 't) cc" where
  "cc_finish_output D = on_handle (os_stream_finish_output D)"

definition stream_predicate :: "(('w, 't) lisp_stream \<Rightarrow> bool) \<Rightarrow> lval list \<Rightarrow> ('d, 'w, 't) cc" where
  "stream_predicate p args sys =
     (case args of
        [] \<Rightarrow> None
      | val # _ \<Rightarrow>
          (case val of
             Obj magic _ \<Rightarrow>
               (if magic \<noteq> MAGIC_STREAM then returning Nil sys
                else case stream_raw val sys of
                    None \<Rightarrow> None
                  | Some a \<Rightarrow> returning (if p (streams sys ! a) then Sym ''T'' else Nil) sys)
           | _ \<Rightarrow> returning Nil sys))"

definition cc_open_stream_p :: "lval list \<Rightarrow> ('d, 'w, 't) cc" where
  "cc_open_stream_p = stream_predicate (\<lambda>s. \<not> closed s)"

definition cc_input_stream_p :: "lval list \<Rightarrow> ('d, 'w, 't) cc" where
  "cc_input_stream_p = stream_predicate (\<lambda>s. stream_kind_is_input (kind s))"

definition cc_output_stream_p :: "lval list \<Rightarrow> ('d, 'w, 't) cc" where
  "cc_output_stream_p = stream_predicate (\<lambda>s. stream_kind_is_output (kind s))"

definition STREAM_STRING_OUTPUT_CAP :: nat where "STREAM_STRING_OUTPUT_CAP = 1024"

definition cc_create_string_input_stream :: "lval list \<Rightarrow> ('d, 'w, 't) cc" where
  "cc_create_string_input_stream args sys =
     (case args of
        Str str # _ \<Rightarrow>
          (let data = map char_byte (take (length str mod 2 ^ 32) str)
           in os_make_stream (os_stream_open_string_input data (length data) (blank sys)) sys)
      | _ \<Rightarrow> None)"

text \<open>\<open>fresh\<close> is what the buffer's memory holds.\<close>

definition cc_create_string_output_stream :: "u8 list \<Rightarrow> lval list \<Rightarrow> ('d, 'w, 't) cc" where
  "cc_create_string_output_stream fresh args sys =
     os_make_stream (os_stream_open_string_output (take STREAM_STRING_OUTPUT_CAP fresh) STREAM_STRING_OUTPUT_CAP (blank sys)) sys"

definition cc_get_output_stream_string :: "lval list \<Rightarrow> ('d, 'w, 't) cc" where
  "cc_get_output_stream_string args sys =
     (case args of
        stream # _ \<Rightarrow>
          (case with_stream stream (\<lambda>s i. if length (str_buf s) < str_len s then None
                  else Some (map byte_char (take (str_len s) (str_buf s)), s\<lparr>str_len := 0\<rparr>, i)) sys of
             None \<Rightarrow> None
           | Some (str, sys) \<Rightarrow> returning (Str str) sys)
      | _ \<Rightarrow> None)"

text \<open>The positions, on the handle.\<close>

definition file_position :: "lval list \<Rightarrow> ('d, 'w, 't) cc" where
  "file_position args sys =
     (case args of
        stream # _ \<Rightarrow>
          (case stream_raw stream sys of
             None \<Rightarrow> None
           | Some a \<Rightarrow> returning (Imm (os_make_fixnum (cc_file_position (streams sys ! a)))) sys)
      | _ \<Rightarrow> None)"

definition set_file_position :: "lval list \<Rightarrow> ('d, 'w, 't) cc" where
  "set_file_position args sys =
     (case args of
        stream # Imm z # _ \<Rightarrow>
          (case with_stream stream (\<lambda>s i. Some ((), cc_set_file_position (os_fixnum_magnitude z) s, i)) sys of
             None \<Rightarrow> None
           | Some (_, sys) \<Rightarrow> returning (Imm z) sys)
      | _ \<Rightarrow> None)"

subsection \<open>Lines and characters of an input stream\<close>

definition line_of :: "string \<Rightarrow> string" where "line_of text = takeWhile (\<lambda>c. c \<noteq> CHR 0x0A) text"
definition after_line :: "string \<Rightarrow> string" where "after_line text = tl (dropWhile (\<lambda>c. c \<noteq> CHR 0x0A) text)"

lemma line_of_simps [simp]: "line_of [] = []" "line_of (c # cs) = (if c = CHR 0x0A then [] else c # line_of cs)"
  by (simp_all add: line_of_def)

lemma after_line_simps [simp]: "after_line [] = []" "after_line (c # cs) = (if c = CHR 0x0A then cs else after_line cs)"
  by (simp_all add: after_line_def)

context text_input
begin

lemma read_line_loop_reads:
  assumes "readable s i" "length buf \<le> READ_LINE_MAX - 1"
  obtains s' i' where "read_line_loop D buf any s i =
      Some ((take (READ_LINE_MAX - 1) (buf @ line_of (rest_of s i)), any \<or> rest_of s i \<noteq> []), s', i')"
    "readable s' i'" "rest_of s' i' = after_line (rest_of s i)"
proof -
  have "\<exists>s' i'. read_line_loop D buf any s i =
      Some ((take (READ_LINE_MAX - 1) (buf @ line_of str), any \<or> str \<noteq> []), s', i') \<and>
      readable s' i' \<and> rest_of s' i' = after_line str" if "rest_of s i = str" for str
    using assms that
  proof (induction str arbitrary: s i buf any)
    case Nil
    obtain s1 i1 where "os_stream_read_char D s i = Some (None, s1, i1)" "readable s1 i1" "rest_of s1 i1 = []"
      by (rule read_step [OF Nil.prems(1)]) (simp add: Nil.prems(3))
    then show ?case using Nil.prems(2) by (simp add: read_line_loop.simps [of D buf any s i])
  next
    case (Cons c cs)
    obtain s1 i1 where s1: "os_stream_read_char D s i = Some (Some c, s1, i1)" "readable s1 i1" "rest_of s1 i1 = cs"
      by (rule read_step [OF Cons.prems(1)]) (simp add: Cons.prems(3))
    show ?case
    proof (cases "c = CHR 0x0A")
      case True
      with s1 Cons.prems(2) show ?thesis by (simp add: read_line_loop.simps [of D buf any s i])
    next
      case False
      let ?buf = "if length buf < READ_LINE_MAX - 1 then buf @ [c] else buf"
      have "length ?buf \<le> READ_LINE_MAX - 1" using Cons.prems(2) by simp
      moreover have "take (READ_LINE_MAX - 1) (?buf @ line_of cs) = take (READ_LINE_MAX - 1) (buf @ c # line_of cs)"
        using Cons.prems(2) by (cases "length buf < READ_LINE_MAX - 1") (simp_all del: take_append, simp)
      ultimately show ?thesis
        using Cons.IH [OF s1(2) _ s1(3), of ?buf True] False s1(1)
        by (auto simp: read_line_loop.simps [of D buf any s i] simp del: take_append)
    qed
  qed
  then show thesis using that by blast
qed

lemma count_chars_reads:
  assumes "readable s i"
  obtains s' i' where "count_chars D n s i = Some (n + of_nat (length (rest_of s i)), s', i')" "readable s' i'" "rest_of s' i' = []"
proof -
  have "\<exists>s' i'. count_chars D n s i = Some (n + of_nat (length str), s', i') \<and> readable s' i' \<and> rest_of s' i' = []"
    if "rest_of s i = str" for str
    using assms that
  proof (induction str arbitrary: s i n)
    case Nil
    obtain s1 i1 where "os_stream_read_char D s i = Some (None, s1, i1)" "readable s1 i1" "rest_of s1 i1 = []"
      by (rule read_step [OF Nil.prems(1)]) (simp add: Nil.prems(2))
    then show ?case by (simp add: count_chars.simps [of D n s i])
  next
    case (Cons c cs)
    obtain s1 i1 where s1: "os_stream_read_char D s i = Some (Some c, s1, i1)" "readable s1 i1" "rest_of s1 i1 = cs"
      by (rule read_step [OF Cons.prems(1)]) (simp add: Cons.prems(2))
    from Cons.IH [OF s1(2,3), of "n + 1"] s1(1) show ?case
      by (auto simp: count_chars.simps [of D n s i] add.assoc)
  qed
  then show thesis using that by blast
qed

end

text \<open>Reading does not touch the stored transfer, except through the Lisp functions of a FAT file.\<close>

lemma flush_9p_frame:
  "flush_write_buf_9p D s i = Some (s', i') \<Longrightarrow> pending_transfer s' = pending_transfer s \<and> kind s' = kind s"
  by (auto simp: flush_write_buf_9p_def split: if_splits prod.splits p9_result.splits)

lemma refill_9p_frame:
  "refill_read_buf_9p D s i = Some (s', i') \<Longrightarrow> pending_transfer s' = pending_transfer s \<and> kind s' = kind s"
  unfolding refill_read_buf_9p_def Let_def
  by (simp split: if_split_asm prod.split_asm p9_result.split_asm; clarsimp)

lemma fill_9p_frame:
  "fill_9p D s i = Some (s', i') \<Longrightarrow> pending_transfer s' = pending_transfer s \<and> kind s' = kind s"
  unfolding fill_9p_def
  by (auto split: if_split_asm option.split_asm dest!: flush_9p_frame refill_9p_frame)

lemma buffered_read_frame:
  assumes "buffered_read (fill_9p D) s i = Some (r, s', i')"
  shows "pending_transfer s' = pending_transfer s \<and> kind s' = kind s"
  using assms unfolding buffered_read_def Let_def
  by (auto split: if_split_asm option.split_asm dest!: fill_9p_frame)

lemma read_char_frame:
  assumes "os_stream_read_char D s i = Some (r, s', i')" "\<not> is_fat_read_kind (kind s)"
  shows "pending_transfer s' = pending_transfer s \<and> kind s' = kind s"
proof (cases "is_9p_read_kind (kind s) \<and> \<not> (closed s \<or> eof s \<or> failed s) \<and> \<not> has_lookahead s")
  case True
  then show ?thesis using assms buffered_read_frame [of D s i r s' i'] by (simp add: os_stream_read_char_def)
next
  case False
  then show ?thesis using assms unfolding os_stream_read_char_def
    by (auto split: if_split_asm option.split_asm prod.split_asm)
qed

lemma read_line_frame:
  fixes D :: "('d, 'w, 'n, 't) drivers"
  assumes "read_line_loop D buf any s i = Some (r, s', i')" "\<not> is_fat_read_kind (kind s)"
  shows "pending_transfer s' = pending_transfer s \<and> kind s' = kind s"
proof -
  let ?P = "\<lambda>D buf any s i y. \<not> is_fat_read_kind (kind s) \<longrightarrow> pending_transfer (fst (snd y)) = pending_transfer s \<and> kind (fst (snd y)) = kind s"
  have "?P D buf any s i (r, s', i')"
  proof (rule read_line_loop.raw_induct [OF _ assms(1)])
    fix loop and D :: "('d, 'w, 'n, 't) drivers" and buf any and s :: "('w, 'n, 't) os_stream" and i :: "('d, 'w) io" and y
    assume ih: "\<And>D buf any s i y. loop D buf any s i = Some y \<Longrightarrow> ?P D buf any s i y"
      and eq: "(case os_stream_read_char D s i of None \<Rightarrow> None
        | Some (r, s, i) \<Rightarrow> (case r of None \<Rightarrow> Some ((buf, any), s, i)
        | Some ch \<Rightarrow> if ch = CHR 0x0A then Some ((buf, True), s, i)
             else loop D (if length buf < READ_LINE_MAX - 1 then buf @ [ch] else buf) True s i)) = Some y"
    show "?P D buf any s i y"
    proof (cases "os_stream_read_char D s i")
      case (Some x)
      obtain r1 s1 i1 where x: "x = (r1, s1, i1)" by (cases x)
      note f = read_char_frame [of D s i r1 s1 i1]
      show ?thesis
      proof (cases r1)
        case None
        with eq Some x f show ?thesis by auto
      next
        case (Some c)
        with eq \<open>os_stream_read_char D s i = Some x\<close> x f ih show ?thesis
          by (cases "c = CHR 0x0A") (fastforce, fastforce)
      qed
    qed (use eq in simp)
  qed
  then show ?thesis using assms(2) by simp
qed

subsection \<open>Calls on a handle\<close>

definition stream_handle :: "nat \<Rightarrow> lval" where "stream_handle a = Obj MAGIC_STREAM [Imm (of_nat a)]"

text \<open>The streams have room in the address space.\<close>

definition addressable :: "('d, 'w, 't) system \<Rightarrow> bool" where "addressable sys \<longleftrightarrow> length (streams sys) < 2 ^ 64"

lemma stream_raw_handle: "addressable sys \<Longrightarrow> a < length (streams sys) \<Longrightarrow> stream_raw (stream_handle a) sys = Some a"
  by (simp add: stream_raw_def stream_handle_def addressable_def unat_of_nat)

lemma with_stream_handle:
  assumes "addressable sys" "a < length (streams sys)" "f (streams sys ! a) (io sys) = Some (r, s', i')"
  shows "with_stream (stream_handle a) f sys = Some (r, sys\<lparr>io := i', streams := (streams sys)[a := s']\<rparr>)"
  using assms by (simp add: with_stream_def stream_raw_handle)

lemma take_transfer_none:
  assumes "addressable sys" "a < length (streams sys)" "pending_transfer (streams sys ! a) = None"
  shows "take_transfer (stream_handle a) k sys = k sys"
proof -
  have "with_stream (stream_handle a) (\<lambda>s io. case os_stream_take_transfer s of (t, s) \<Rightarrow> Some (t, s, io)) sys = Some (None, sys)"
    using with_stream_handle [OF assms(1,2), where f = "\<lambda>s io. case os_stream_take_transfer s of (t, s) \<Rightarrow> Some (t, s, io)"
        and r = None and s' = "streams sys ! a" and i' = "io sys"] assms(3)
    by (simp add: os_stream_take_transfer_def)
  then show ?thesis by (simp add: take_transfer_def)
qed

lemma handle_not_Nil: "stream_handle a \<noteq> Nil"
  by (simp add: stream_handle_def)

lemma resolve_input_handle:
  "resolve_input_args [stream_handle a, e, v] sys = Some ((stream_handle a, e \<noteq> Nil, v), sys)"
  by (simp add: resolve_input_args_def handle_not_Nil)

abbreviation stored :: "('d, 'w, 't) system \<Rightarrow> nat \<Rightarrow> ('w, 't) lisp_stream \<Rightarrow> ('d, 'w lisp_world) io \<Rightarrow> ('d, 'w, 't) system" where
  "stored sys a s i \<equiv> sys\<lparr>io := i, streams := (streams sys)[a := s]\<rparr>"

lemma addressable_stored [simp]: "addressable (stored sys a s i) = addressable sys"
  by (simp add: addressable_def)

lemma read_line_handle:
  assumes "addressable sys" "a < length (streams sys)"
    and "read_line_loop D [] False (streams sys ! a) (io sys) = Some ((buf, any), s', i')" "pending_transfer s' = None"
  shows "cc_read_line L D [stream_handle a, Nil, Nil] sys = Some (Value (if any then Str buf else Nil), stored sys a s' i')"
  using with_stream_handle [OF assms(1,2), where f = "read_line_loop D [] False", OF assms(3)] take_transfer_none [of "stored sys a s' i'" a] assms(1,2,4)
  by (simp add: cc_read_line_def resolve_input_handle handle_end_of_stream_def returning_def)

text \<open>A program: calls made one after the other, and what each returned.\<close>

primrec run_calls :: "('d, 'w, 't) cc list \<Rightarrow> ((lval, 't) lisp_result list, 'd, 'w, 't) action" where
  "run_calls [] sys = Some ([], sys)"
| "run_calls (f # fs) sys =
     (case f sys of
        None \<Rightarrow> None
      | Some (r, sys) \<Rightarrow> (case run_calls fs sys of None \<Rightarrow> None | Some (rs, sys) \<Rightarrow> Some (r # rs, sys)))"

lemma run_calls_append:
  "run_calls fs sys = Some (rs, sys1) \<Longrightarrow> run_calls gs sys1 = Some (rs', sys2) \<Longrightarrow> run_calls (fs @ gs) sys = Some (rs @ rs', sys2)"
  by (induction fs arbitrary: sys rs) (auto split: option.splits)

definition read_lines :: "('w, 't, 'f) lisp_code \<Rightarrow> ('d, 'w, 't) lisp_drivers \<Rightarrow> lval \<Rightarrow> nat \<Rightarrow> ('d, 'w, 't) cc list" where
  "read_lines L D h n = replicate n (cc_read_line L D [h, Nil, Nil])"

lemma after_line_shorter: "str \<noteq> [] \<Longrightarrow> length (after_line str) < length str"
  by (induction str) (auto, metis length_Cons less_SucI after_line_simps(1) list.size(3) zero_less_Suc)

function text_lines :: "string \<Rightarrow> string list" where
  "text_lines str = (if str = [] then [] else line_of str # text_lines (after_line str))"
  by auto
termination by (relation "measure length") (simp_all add: after_line_shorter)

declare text_lines.simps [simp del]

lemma read_lines_string:
  assumes "addressable sys" "a < length (streams sys)" "string_input.readable (streams sys ! a) (io sys)"
    and "string_input.rest_of (streams sys ! a) (io sys) = str" "pending_transfer (streams sys ! a) = None"
  shows "\<exists>sys'. run_calls (read_lines L D (stream_handle a) (length (text_lines str) + 1)) sys =
    Some (map (\<lambda>l. Value (Str (take (READ_LINE_MAX - 1) l))) (text_lines str) @ [Value Nil], sys')"
  using assms
proof (induction str arbitrary: sys rule: text_lines.induct)
  case (1 str)
  obtain s' i' where s': "read_line_loop D [] False (streams sys ! a) (io sys) =
      Some ((take (READ_LINE_MAX - 1) ([] @ line_of (string_input.rest_of (streams sys ! a) (io sys))),
        False \<or> string_input.rest_of (streams sys ! a) (io sys) \<noteq> []), s', i')"
    "string_input.readable s' i'" "string_input.rest_of s' i' = after_line (string_input.rest_of (streams sys ! a) (io sys))"
    by (rule string_input.read_line_loop_reads [OF 1(4), of "[]" D False]) simp
  have k: "kind (streams sys ! a) = STREAM_STRING_INPUT"
    using 1(4) unfolding string_input.readable_def by (simp add: string_ready_def)
  have p: "pending_transfer s' = None"
    using read_line_frame [OF s'(1)] 1(6) k by (simp add: is_fat_read_kind_def)
  note r = read_line_handle [OF 1(2,3) s'(1) p, of L]
  show ?case
  proof (cases "str = []")
    case True
    then show ?thesis using r 1(5) by (simp add: text_lines.simps [of "[]"] read_lines_def)
  next
    case False
    have "\<exists>sys'. run_calls (read_lines L D (stream_handle a) (length (text_lines (after_line str)) + 1)) (stored sys a s' i') =
        Some (map (\<lambda>l. Value (Str (take (READ_LINE_MAX - 1) l))) (text_lines (after_line str)) @ [Value Nil], sys')"
      by (rule 1(1) [OF False]) (use 1 s' p in simp_all)
    then show ?thesis using r 1(5) False by (auto simp: text_lines.simps [of str] read_lines_def)
  qed
qed

text \<open>
  C28. Reading a text line by line: on the stream that \<open>create-string-input-stream\<close> makes of a text,
  \<open>read-line\<close> returns its lines in order, each cut to 511 characters, and then the end of the stream.
\<close>

theorem read_line_lines:
  assumes "length (streams sys) < 2 ^ 64 - 1" "length str < 2 ^ 32"
  shows "\<exists>h sys1 sys2. cc_create_string_input_stream [Str str] sys = Some (Value h, sys1) \<and>
    run_calls (read_lines L D h (length (text_lines str) + 1)) sys1 =
      Some (map (\<lambda>l. Value (Str (take (READ_LINE_MAX - 1) l))) (text_lines str) @ [Value Nil], sys2)"
proof -
  let ?s = "os_stream_open_string_input (map char_byte str) (length str) (blank sys)"
  let ?sys = "sys\<lparr>streams := streams sys @ [?s]\<rparr>"
  have c: "cc_create_string_input_stream [Str str] sys = Some (Value (stream_handle (length (streams sys))), ?sys)"
    using assms(2) by (simp add: cc_create_string_input_stream_def os_make_stream_def stream_handle_def Let_def)
  have "string_input.readable ?s (io sys)" "string_input.rest_of ?s (io sys) = str"
    unfolding string_input.readable_def string_input.rest_of_def
    by (simp_all add: string_ready_def os_stream_open_string_input_def stream_init_common_def o_def)
  moreover have "pending_transfer ?s = None" by (simp add: os_stream_open_string_input_def stream_init_common_def)
  ultimately have "\<exists>sys'. run_calls (read_lines L D (stream_handle (length (streams sys))) (length (text_lines str) + 1)) ?sys =
    Some (map (\<lambda>l. Value (Str (take (READ_LINE_MAX - 1) l))) (text_lines str) @ [Value Nil], sys')"
    using assms(1) by (intro read_lines_string) (simp_all add: addressable_def nth_append)
  with c show ?thesis by blast
qed

subsection \<open>A file through the Lisp functions\<close>

lemma write_char_frame:
  assumes "os_stream_write_char D c s i = Some (r, s', i')" "\<not> is_fat_write_kind (kind s)"
  shows "pending_transfer s' = pending_transfer s \<and> kind s' = kind s"
proof (cases "closed s \<or> \<not> is_9p_write_kind (kind s)")
  case True
  then show ?thesis using assms unfolding os_stream_write_char_def advance_column_def
    by (auto split: if_split_asm)
next
  case False
  have col: "pending_transfer (advance_column c t) = pending_transfer t" "kind (advance_column c t) = kind t"
    for t :: "('b, 'c, 'd) os_stream" by (simp_all add: advance_column_def)
  from False have "buffered_write (flush_write_buf_9p D) (kind s = STREAM_9P_FILE_IO) c s i = Some (r, s', i')"
    using assms by (auto simp: os_stream_write_char_def is_9p_write_kind_def)
  then show ?thesis unfolding buffered_write_def Let_def
    by (auto simp: advance_column_def split: if_split_asm option.split_asm dest!: flush_9p_frame)
qed

lemma close_frame:
  assumes "os_stream_close D s i = Some (s', i')" "\<not> is_fat_write_kind (kind s)"
  shows "pending_transfer s' = pending_transfer s"
  using assms unfolding os_stream_close_def
  by (auto simp: Let_def split: if_split_asm option.split_asm prod.split_asm p9_result.split_asm dest!: flush_9p_frame)

lemma char_value_code: "byte_char (ucast (drop_bit CHAR_VALUE_SHIFT (os_make_char_from_code (ucast (char_byte c))))) = c"
proof -
  let ?w = "drop_bit CHAR_VALUE_SHIFT (os_make_char_from_code (ucast (char_byte c)))"
  have "(ucast ?w :: u8) = ucast (ucast ?w :: u32)"
    by (rule bit_word_eqI) (simp add: bit_simps)
  also have "\<dots> = ucast (ucast (char_byte c) :: u32)" by (simp add: os_make_char_code(1))
  also have "\<dots> = char_byte c" by (rule bit_word_eqI) (simp add: bit_simps)
  finally show ?thesis by simp
qed

lemma stored_same: "stored sys a (streams sys ! a) (io sys) = sys"
  by (cases sys) simp

lemma run_writes:
  assumes "addressable sys" "a < length (streams sys)" "\<not> is_fat_write_kind (kind (streams sys ! a))"
    and "pending_transfer (streams sys ! a) = None" "write_text D str (streams sys ! a) (io sys) = Some (ok, s', i')"
  shows "run_calls (map (\<lambda>c. cc_write_char D [char_value c, stream_handle a]) str) sys
      = Some (map (\<lambda>c. Value (char_value c)) str, stored sys a s' i')"
    and "pending_transfer s' = None" "kind s' = kind (streams sys ! a)"
proof -
  have "run_calls (map (\<lambda>c. cc_write_char D [char_value c, stream_handle a]) str) sys
      = Some (map (\<lambda>c. Value (char_value c)) str, stored sys a s' i') \<and> pending_transfer s' = None \<and> kind s' = kind (streams sys ! a)"
    using assms
  proof (induction str arbitrary: sys ok)
    case (Cons c str)
    obtain ok1 s1 i1 ok2 where w: "os_stream_write_char D c (streams sys ! a) (io sys) = Some (ok1, s1, i1)"
      "write_text D str s1 i1 = Some (ok2, s', i')"
      using Cons.prems(5) by (auto split: option.split_asm) blast+
    note f = write_char_frame [OF w(1) Cons.prems(3)]
    have "cc_write_char D [char_value c, stream_handle a] sys = Some (Value (char_value c), stored sys a s1 i1)"
      using with_stream_handle [OF Cons.prems(1,2), where f = "os_stream_write_char D c", OF w(1)]
        take_transfer_none [of "stored sys a s1 i1" a] f Cons.prems(1,2,4)
      by (simp add: cc_write_char_def char_value_def char_value_code returning_def)
    moreover have "run_calls (map (\<lambda>c. cc_write_char D [char_value c, stream_handle a]) str) (stored sys a s1 i1)
      = Some (map (\<lambda>c. Value (char_value c)) str, stored (stored sys a s1 i1) a s' i') \<and> pending_transfer s' = None \<and>
        kind s' = kind (streams (stored sys a s1 i1) ! a)"
      by (rule Cons.IH) (use Cons.prems f w(2) in simp_all)
    ultimately show ?case using f Cons.prems(2) by simp
  next
    case Nil
    then show ?case using stored_same [of sys a] by auto
  qed
  then show "run_calls (map (\<lambda>c. cc_write_char D [char_value c, stream_handle a]) str) sys
      = Some (map (\<lambda>c. Value (char_value c)) str, stored sys a s' i')"
    "pending_transfer s' = None" "kind s' = kind (streams sys ! a)" by simp_all
qed

lemma run_reads:
  fixes D :: "('d, 'w, 't) lisp_drivers"
  assumes "addressable sys" "a < length (streams sys)" "nine_input.readable D S (streams sys ! a) (io sys)"
    and "nine_input.rest_of S (streams sys ! a) (io sys) = str" "pending_transfer (streams sys ! a) = None"
  shows "\<exists>sys'. run_calls (replicate (length str + 1) (cc_read_char L D [stream_handle a, Nil, Nil])) sys =
    Some (map (\<lambda>c. Value (char_value c)) str @ [Value Nil], sys')"
proof -
  have step: "\<exists>s' i'. os_stream_read_char D s i = Some (case nine_input.rest_of S s i of [] \<Rightarrow> None | c # _ \<Rightarrow> Some c, s', i') \<and>
      nine_input.readable D S s' i' \<and> nine_input.rest_of S s' i' = tl (nine_input.rest_of S s i) \<and>
      pending_transfer s' = pending_transfer s"
    if r: "nine_input.readable D S s i" for s and i :: "('d, 'w lisp_world) io"
  proof -
    have k: "\<not> is_fat_read_kind (kind s)"
      using r unfolding nine_input.readable_def by (auto simp: is_fat_read_kind_def is_9p_read_kind_def)
    obtain s' i' where s': "os_stream_read_char D s i = Some (case nine_input.rest_of S s i of [] \<Rightarrow> None | c # _ \<Rightarrow> Some c, s', i')"
      "nine_input.readable D S s' i'" "nine_input.rest_of S s' i' = tl (nine_input.rest_of S s i)"
      by (rule nine_input.read_step [OF r]) blast
    with read_char_frame [OF s'(1) k] show ?thesis by blast
  qed
  show ?thesis
    using assms
  proof (induction str arbitrary: sys)
    case Nil
    obtain s' i' where s': "os_stream_read_char D (streams sys ! a) (io sys) = Some (None, s', i')" "pending_transfer s' = None"
      using step [OF Nil.prems(3)] Nil.prems(4,5) by auto
    have "cc_read_char L D [stream_handle a, Nil, Nil] sys = Some (Value Nil, stored sys a s' i')"
      using with_stream_handle [OF Nil.prems(1,2), where f = "os_stream_read_char D", OF s'(1)]
        take_transfer_none [of "stored sys a s' i'" a] s'(2) Nil.prems(1,2)
      by (simp add: cc_read_char_def reading_char_def resolve_input_handle handle_end_of_stream_def returning_def)
    then show ?case by simp
  next
    case (Cons c str)
    obtain s' i' where s': "os_stream_read_char D (streams sys ! a) (io sys) = Some (Some c, s', i')"
      "nine_input.readable D S s' i'" "nine_input.rest_of S s' i' = str" "pending_transfer s' = None"
      using step [OF Cons.prems(3)] Cons.prems(4,5) by auto
    have r: "cc_read_char L D [stream_handle a, Nil, Nil] sys = Some (Value (char_value c), stored sys a s' i')"
      using with_stream_handle [OF Cons.prems(1,2), where f = "os_stream_read_char D", OF s'(1)]
      by (simp add: cc_read_char_def reading_char_def resolve_input_handle returning_def)
    have "\<exists>sys'. run_calls (replicate (length str + 1) (cc_read_char L D [stream_handle a, Nil, Nil])) (stored sys a s' i') =
        Some (map (\<lambda>c. Value (char_value c)) str @ [Value Nil], sys')"
      by (rule Cons.IH) (use Cons.prems s' in simp_all)
    with r show ?case by auto
  qed
qed

lemma save_text_whole:
  assumes T: "serves_session (transport D) S" "serves_path (transport D) S path" "serves_file (transport D) S"
    and whole: "WRITE_BUF_SIZE \<le> write_limit S" and len: "length str \<le> size_limit S"
    and c: "client_synced S (client j)" "g_next_fid (client j) < 0xFFFFFFFF"
  obtains s1 io1 s2 io2 s3 io3 where "os_stream_open_9p_file_write D path create err s j = Some (True, s1, io1)"
    "write_text D str s1 io1 = Some (True, s2, io2)" "os_stream_close D s2 io2 = Some (s3, io3)" "client_synced S (client io3)"
    "g_next_fid (client io3) = g_next_fid (client j) + 1"
    "exported S (device (client io3)) = map char_byte str"
proof -
  obtain s1 io1 s2 io2 s3 io3 where w: "os_stream_open_9p_file_write D path create err s j = Some (True, s1, io1)"
    "write_text D str s1 io1 = Some (True, s2, io2)" "os_stream_close D s2 io2 = Some (s3, io3)" "\<not> failed s3" "client_synced S (client io3)"
    "g_next_fid (client io3) = g_next_fid (client j) + 1"
    "exported S (device (client io3)) = fst (fold (put_byte (write_limit S)) (map char_byte str) ([], [])) @
       take (write_limit S) (snd (fold (put_byte (write_limit S)) (map char_byte str) ([], [])))"
    by (rule save_text [OF T c len])
  have "length (snd (fold (put_byte (write_limit S)) bs cw)) < WRITE_BUF_SIZE" if "length (snd cw) < WRITE_BUF_SIZE" for bs cw
    using that by (induction bs arbitrary: cw) (auto simp: put_byte_def Let_def WRITE_BUF_SIZE_def)
  from this [of "([], [])" "map char_byte str"] have "exported S (device (client io3)) = map char_byte str"
    using w(7) put_bytes_full [OF whole, of "map char_byte str" "([], [])"] whole by (simp add: WRITE_BUF_SIZE_def)
  with w show thesis by (blast intro: that)
qed

lemma open_9p_write_stream:
  "os_stream_open_9p_file_write D path create err s j = Some (True, s1, io1) \<Longrightarrow>
     kind s1 = STREAM_9P_FILE_WRITE \<and> pending_transfer s1 = None"
  by (auto simp: os_stream_open_9p_file_write_def open_or_create_def stream_init_common_def
      split: prod.split_asm p9_result.split_asm if_split_asm)

lemma open_9p_read_stream:
  "os_stream_open_9p_file D path err s j = Some (True, s1, io1) \<Longrightarrow> kind s1 = STREAM_9P_FILE_READ \<and> pending_transfer s1 = None"
  by (auto simp: os_stream_open_9p_file_def stream_init_common_def Let_def split: prod.split_asm p9_result.split_asm)

lemma file_length_9p:
  assumes p: "path_arg args = Some p" "os_mount_resolve (mounts sys) p STREAM_PATH_MAX = Some (MOUNT_KIND_9P, path, dev)"
    and T: "serves_session (transport D) S" "serves_path (transport D) S path" "serves_file (transport D) S"
    and c: "client_synced S (client (io sys))" "g_next_fid (client (io sys)) < 0xFFFFFFFF"
    and buf: "length (buf_data (blank sys)) = STREAM_READ_CHUNK"
  obtains i where "cc_file_length L D args sys =
    Some (Value (Imm (os_make_fixnum (of_nat (length (exported S (device (client (io sys)))))))), sys\<lparr>io := i\<rparr>)"
proof -
  obtain s1 i1 where o: "os_stream_open_9p_file D path (Some ERR_MSG_SIZE) (blank sys) (io sys) = Some (True, s1, i1)"
    "nine_input.readable D S s1 i1"
    "nine_input.rest_of S s1 i1 = map byte_char (exported S (device (client (io sys))))"
    by (rule open_9p_read [OF T c buf])
  obtain s2 i2 where n: "count_chars D 0 s1 i1 = Some (0 + of_nat (length (nine_input.rest_of S s1 i1)), s2, i2)"
    "nine_input.readable D S s2 i2"
    by (rule nine_input.count_chars_reads [OF o(2)]) blast
  from n(2) have k: "is_9p_read_kind (kind s2)" and r: "on_server D S may_read s2 i2" "write_buf s2 = []"
    unfolding nine_input.readable_def by (auto simp: nine.reading_def)
  obtain mode where "client_synced S (client i2)" "fid_table S (device (client i2)) (fid s2) = Some (Opened mode)"
    using r(1) by (auto simp: on_server_def)
  then obtain c' where "os_virtio9p_close (transport D) (fid s2) (Some ERR_MSG_SIZE) (client i2) = (Done (), c')"
    by (rule close_kept [OF T(3)])
  moreover have "\<not> is_fat_write_kind (kind s2)" using k by (auto simp: is_fat_write_kind_def is_9p_read_kind_def)
  ultimately have "os_stream_close D s2 i2 = Some (s2\<lparr>closed := True\<rparr>, i2\<lparr>client := c'\<rparr>)"
    using k r(2) by (simp add: os_stream_close_def flush_write_buf_9p_def Let_def)
  then show thesis
    using that [of "i2\<lparr>client := c'\<rparr>"] p o(1,3) n(1) by (simp add: cc_file_length_def returning_def)
qed

text \<open>
  C5. A text saved and loaded by Lisp calls comes back: for a path that lies in the 9P mount, against
  a server that keeps its fids as 9P2000 has it, takes whole requests and has room for the text, \<open>open-output-file\<close>, a \<open>write-char\<close> for each character and \<open>close\<close>
  all return normally and leave exactly the text in the file; then \<open>file-length\<close> is its length, and
  \<open>open-input-file\<close> yields a stream from which \<open>read-char\<close> returns the characters in order and then
  the end of the stream. Two fids must be left.
\<close>

theorem lisp_file_roundtrip:
  assumes p: "path_arg [p] = Some path" "os_mount_resolve (mounts sys) path STREAM_PATH_MAX = Some (MOUNT_KIND_9P, relative, dev)"
    and T: "serves_session (transport D) S" "serves_path (transport D) S relative" "serves_file (transport D) S"
    and whole: "WRITE_BUF_SIZE \<le> write_limit S" and len: "length str \<le> size_limit S"
    and c: "client_synced S (client (io sys))" "g_next_fid (client (io sys)) < 0xFFFFFFFE"
    and buf: "length (buf_data (blank sys)) = STREAM_READ_CHUNK" and room: "length (streams sys) < 2 ^ 64 - 2"
  shows "\<exists>h1 sys1 sys2. cc_open_output_file L D [p] sys = Some (Value h1, sys1) \<and>
    run_calls (map (\<lambda>c. cc_write_char D [char_value c, h1]) str @ [cc_close D [h1]]) sys1
      = Some (map (\<lambda>c. Value (char_value c)) str @ [Value Nil], sys2) \<and>
    exported S (device (client (io sys2))) = map char_byte str \<and>
    (\<exists>sys3. cc_file_length L D [p] sys2 = Some (Value (Imm (os_make_fixnum (of_nat (length str)))), sys3)) \<and>
    (\<exists>h2 sys3 sys4. cc_open_input_stream L D [p] sys2 = Some (Value h2, sys3) \<and>
       run_calls (replicate (length str + 1) (cc_read_char L D [h2, Nil, Nil])) sys3
         = Some (map (\<lambda>c. Value (char_value c)) str @ [Value Nil], sys4))"
proof -
  let ?a = "length (streams sys)"
  have fids: "g_next_fid (client (io sys)) < 0xFFFFFFFF" "g_next_fid (client (io sys)) + 1 < 0xFFFFFFFF"
    using c(2) by (rule next_fid_room)+
  obtain s1 i1 s2 i2 s3 i3 where w: "os_stream_open_9p_file_write D relative True (Some ERR_MSG_SIZE) (blank sys) (io sys) = Some (True, s1, i1)"
    "write_text D str s1 i1 = Some (True, s2, i2)" "os_stream_close D s2 i2 = Some (s3, i3)" "client_synced S (client i3)"
    "g_next_fid (client i3) = g_next_fid (client (io sys)) + 1"
    "exported S (device (client i3)) = map char_byte str"
    by (rule save_text_whole [OF T whole len c(1) fids(1)])
  let ?sys1 = "sys\<lparr>io := i1, streams := streams sys @ [s1]\<rparr>"
  have o: "cc_open_output_file L D [p] sys = Some (Value (stream_handle ?a), ?sys1)"
    using p w(1) by (simp add: cc_open_output_file_def open_file_for_def open_nine_def os_make_stream_def stream_handle_def)
  note k1 = open_9p_write_stream [OF w(1)]
  have sys1: "addressable ?sys1" "?a < length (streams ?sys1)" "streams ?sys1 ! ?a = s1" "io ?sys1 = i1"
    using room by (simp_all add: addressable_def)
  have nf: "\<not> is_fat_write_kind STREAM_9P_FILE_WRITE" by (simp add: is_fat_write_kind_def)
  have run: "run_calls (map (\<lambda>c. cc_write_char D [char_value c, stream_handle ?a]) str) ?sys1
      = Some (map (\<lambda>c. Value (char_value c)) str, stored ?sys1 ?a s2 i2)" "pending_transfer s2 = None" "kind s2 = kind s1"
    using run_writes [OF sys1(1,2), of D str True s2 i2] sys1(3,4) k1 w(2) nf by simp_all
  have "pending_transfer s3 = None" using close_frame [OF w(3)] run(2,3) k1 nf by simp
  then have cl: "cc_close D [stream_handle ?a] (stored ?sys1 ?a s2 i2) = Some (Value Nil, stored ?sys1 ?a s3 i3)"
    using with_stream_handle [of "stored ?sys1 ?a s2 i2" ?a "\<lambda>s i. unit_result (os_stream_close D s i)" "()" s3 i3]
      take_transfer_none [of "stored ?sys1 ?a s3 i3" ?a] sys1 w(3)
      room
    by (simp add: cc_close_def on_handle_def unit_result_def returning_def addressable_def)
  let ?sys2 = "stored ?sys1 ?a s3 i3"
  have run2: "run_calls (map (\<lambda>c. cc_write_char D [char_value c, stream_handle ?a]) str @ [cc_close D [stream_handle ?a]]) ?sys1
      = Some (map (\<lambda>c. Value (char_value c)) str @ [Value Nil], ?sys2)"
    by (rule run_calls_append [OF run(1)]) (use cl in simp)
  have c2: "client_synced S (client (io ?sys2))" "g_next_fid (client (io ?sys2)) < 0xFFFFFFFF" "exported S (device (client (io ?sys2))) = map char_byte str" using w(4-6) fids(2) by simp_all
  have p2: "os_mount_resolve (mounts ?sys2) path STREAM_PATH_MAX = Some (MOUNT_KIND_9P, relative, dev)" using p(2) by simp
  have b2: "length (buf_data (blank ?sys2)) = STREAM_READ_CHUNK" using buf by simp
  obtain i4 where fl: "cc_file_length L D [p] ?sys2 =
      Some (Value (Imm (os_make_fixnum (of_nat (length (exported S (device (client (io ?sys2)))))))), ?sys2\<lparr>io := i4\<rparr>)"
    by (rule file_length_9p [OF p(1) p2 T c2(1,2) b2])
  obtain t1 i5 where r: "os_stream_open_9p_file D relative (Some ERR_MSG_SIZE) (blank ?sys2) (io ?sys2) = Some (True, t1, i5)"
    "nine_input.readable D S t1 i5"
    "nine_input.rest_of S t1 i5 = map byte_char (exported S (device (client (io ?sys2))))"
    by (rule open_9p_read [OF T c2(1,2) b2])
  let ?sys3 = "?sys2\<lparr>io := i5, streams := streams ?sys2 @ [t1]\<rparr>"
  have oi: "cc_open_input_stream L D [p] ?sys2 = Some (Value (stream_handle (Suc ?a)), ?sys3)"
    using p(1) p2 r(1) by (simp add: cc_open_input_stream_def open_nine_def os_make_stream_def stream_handle_def)
  have at: "streams ?sys3 ! Suc ?a = t1" "io ?sys3 = i5" by (simp_all add: nth_append)
  have rest: "nine_input.rest_of S t1 i5 = str" using r(3) c2(3) by (simp add: o_def)
  have "\<exists>sys4. run_calls (replicate (length str + 1) (cc_read_char L D [stream_handle (Suc ?a), Nil, Nil])) ?sys3 =
      Some (map (\<lambda>c. Value (char_value c)) str @ [Value Nil], sys4)"
    by (rule run_reads [of ?sys3 "Suc ?a" D S])
      (use r(2) rest at open_9p_read_stream [OF r(1)] room in \<open>simp_all add: addressable_def\<close>)
  moreover have "cc_file_length L D [p] ?sys2 = Some (Value (Imm (os_make_fixnum (of_nat (length str)))), ?sys2\<lparr>io := i4\<rparr>)"
    using fl unfolding c2(3) by simp
  ultimately show ?thesis using o run2 c2(3) oi by blast
qed

text \<open>Signalling leaves the depth as it was, and calls nothing at the limit.\<close>

lemma signal_keeps_depth: "signal_depth (snd (os_signal_condition L class_name initargs w)) = signal_depth w"
  by (simp add: os_signal_condition_def Let_def split: prod.split)

lemma signal_at_limit:
  "SIGNAL_MAX_DEPTH \<le> signal_depth w \<Longrightarrow> fst (os_signal_condition L class_name initargs w) = Value g_sym_eval_error"
  by (simp add: os_signal_condition_def)

text \<open>Setting the position of an output file does not write its buffer out first: what was
  written before moves to the new position.\<close>

lemma position_after_set:
  "kind s = STREAM_9P_FILE_WRITE \<Longrightarrow> write_buf (cc_set_file_position z s) = write_buf s \<and>
     cc_file_position (cc_set_file_position z s) = z + of_nat (length (write_buf s))"
  by (simp add: cc_set_file_position_def cc_file_position_def Let_def)

text \<open>
  C40. \<open>set-file-position\<close> takes any position on a string output stream. After a position behind the
  1024 bytes of its buffer, \<open>get-output-stream-string\<close> reads outside the buffer.
\<close>

theorem set_position_overreads:
  assumes "length (streams sys) < 2 ^ 64 - 1" "STREAM_STRING_OUTPUT_CAP < z" "z < 2 ^ 32"
  shows "\<exists>h sys1 sys2. cc_create_string_output_stream fresh [] sys = Some (Value h, sys1) \<and>
    set_file_position [h, Imm (os_make_fixnum (of_nat z))] sys1 = Some (Value (Imm (os_make_fixnum (of_nat z))), sys2) \<and>
    cc_get_output_stream_string [h] sys2 = None"
proof -
  let ?a = "length (streams sys)"
  let ?s = "os_stream_open_string_output (take STREAM_STRING_OUTPUT_CAP fresh) STREAM_STRING_OUTPUT_CAP (blank sys)"
  let ?sys1 = "sys\<lparr>streams := streams sys @ [?s]\<rparr>"
  have c: "cc_create_string_output_stream fresh [] sys = Some (Value (stream_handle ?a), ?sys1)"
    by (simp add: cc_create_string_output_stream_def os_make_stream_def stream_handle_def)
  have u: "unat (of_nat z :: u64) = z" using assms(3) by (simp add: unat_of_nat)
  have m: "os_fixnum_magnitude (os_make_fixnum (of_nat z)) = of_nat z"
    using make_fixnum_signed(1) [of "of_nat z" False] assms(3) u by (simp add: os_make_fixnum_def os_make_fixnum_signed_def)
  have uz: "unat (ucast (of_nat z :: u64) :: u32) = z"
    using assms(3) u by (simp add: unsigned_ucast_eq take_bit_nat_eq_self)
  let ?s2 = "cc_set_file_position (of_nat z) ?s"
  have s2: "str_len ?s2 = z" "length (str_buf ?s2) \<le> STREAM_STRING_OUTPUT_CAP"
    by (simp_all add: cc_set_file_position_def os_stream_open_string_output_def stream_init_common_def uz)
  let ?sys2 = "stored ?sys1 ?a ?s2 (io sys)"
  have a: "addressable ?sys1" "addressable ?sys2" "?a < length (streams ?sys1)" "?a < length (streams ?sys2)"
    using assms(1) by (simp_all add: addressable_def)
  have p: "set_file_position [stream_handle ?a, Imm (os_make_fixnum (of_nat z))] ?sys1 = Some (Value (Imm (os_make_fixnum (of_nat z))), ?sys2)"
    using with_stream_handle [OF a(1,3), where f = "\<lambda>s i. Some ((), cc_set_file_position (of_nat z) s, i)" and r = "()" and s' = ?s2 and i' = "io sys"]
    by (simp add: set_file_position_def m returning_def)
  have "stream_raw (stream_handle ?a) ?sys2 = Some ?a" by (rule stream_raw_handle [OF a(2,4)])
  then have "cc_get_output_stream_string [stream_handle ?a] ?sys2 = None"
    using s2 assms(2) by (simp add: cc_get_output_stream_string_def with_stream_def)
  with c p show ?thesis by blast
qed

subsection \<open>Examples\<close>

definition example_lisp :: "(unit, unit, unit) lisp_code" where
  "example_lisp = \<lparr>get_function = (\<lambda>name w. None), call = (\<lambda>fn args w. (Value Nil, w))\<rparr>"

definition example_lisp_drivers :: "(ramdisk, unit, unit) lisp_drivers" where
  "example_lisp_drivers = \<lparr>transport = ramdisk_transport (ramdisk_reply 512 4096), glyphs = (\<lambda>c row. 0), write_from = None, read_into = None\<rparr>"

definition example_system :: "(ramdisk, unit, unit) system" where
  "example_system =
     \<lparr>io = \<lparr>client = client_init (ramdisk_start [7]),
        terminal = initialize_virtual_buffers 80 32 80 4 (\<lambda>_. 0),
        world = \<lparr>signal_depth = 0, signal_overflow_count = 0, lisp_state = ()\<rparr>\<rparr>,
      streams = [], mounts = [], standard_input = Nil, stdout_buffer = 0, stdin_read_char = (\<lambda>w. (None, w)),
      blank = \<lparr>kind = STREAM_STRING_INPUT, fid = 0, next_offset = 0, buf_data = replicate 1024 0, buf_count = 0, buf_pos = 0,
        write_buf = [], eof = False, failed = False, out_fb = 0, keyboard_read = None, str_buf = [], str_cap = 0, str_len = 0,
        str_pos = 0, has_lookahead = False, lookahead = CHR 0x00, column = 0, closed = False, mount_file_node = None,
        pending_transfer = None\<rparr>\<rparr>"

theorem read_line_lines_witness:
  "\<exists>h sys1 sys2. cc_create_string_input_stream [Str [CHR ''a'', CHR 0x0A, CHR ''b'']] example_system = Some (Value h, sys1) \<and>
     run_calls (read_lines example_lisp example_lisp_drivers h 3) sys1 = Some ([Value (Str ''a''), Value (Str ''b''), Value Nil], sys2)"
proof -
  let ?str = "[CHR ''a'', CHR 0x0A, CHR ''b'']"
  have lines: "text_lines ?str = [''a'', ''b'']"
    by (simp add: text_lines.simps [of ?str] text_lines.simps [of "''b''"] text_lines.simps [of "[]"])
  have "length (streams example_system) < 2 ^ 64 - 1" "length ?str < 2 ^ 32" by (simp_all add: example_system_def)
  from read_line_lines [OF this, of example_lisp example_lisp_drivers] show ?thesis
    unfolding lines by (simp add: READ_LINE_MAX_def numeral_3_eq_3)
qed

theorem lisp_file_roundtrip_witness:
  "\<exists>h1 sys1 sys2. cc_open_output_file example_lisp example_lisp_drivers [Str ''/9p/f''] example_system = Some (Value h1, sys1) \<and>
    run_calls (map (\<lambda>c. cc_write_char example_lisp_drivers [char_value c, h1]) ''hi'' @ [cc_close example_lisp_drivers [h1]]) sys1
      = Some (map (\<lambda>c. Value (char_value c)) ''hi'' @ [Value Nil], sys2) \<and>
    exported (ramdisk_server 512 4096) (device (client (io sys2))) = map char_byte ''hi'' \<and>
    (\<exists>sys3. cc_file_length example_lisp example_lisp_drivers [Str ''/9p/f''] sys2
       = Some (Value (Imm (os_make_fixnum (of_nat (length ''hi'')))), sys3)) \<and>
    (\<exists>h2 sys3 sys4. cc_open_input_stream example_lisp example_lisp_drivers [Str ''/9p/f''] sys2 = Some (Value h2, sys3) \<and>
       run_calls (replicate (length ''hi'' + 1) (cc_read_char example_lisp example_lisp_drivers [h2, Nil, Nil])) sys3
         = Some (map (\<lambda>c. Value (char_value c)) ''hi'' @ [Value Nil], sys4))"
proof (rule lisp_file_roundtrip)
  show "path_arg [Str ''/9p/f''] = Some ''/9p/f''" by code_simp
  show "os_mount_resolve (mounts example_system) ''/9p/f'' STREAM_PATH_MAX = Some (MOUNT_KIND_9P, ''/f'', Nil)"
    by (simp add: example_system_def) code_simp
  show "serves_session (transport example_lisp_drivers) (ramdisk_server 512 4096)"
    "serves_path (transport example_lisp_drivers) (ramdisk_server 512 4096) ''/f''"
    "serves_file (transport example_lisp_drivers) (ramdisk_server 512 4096)"
    by (simp_all add: example_lisp_drivers_def ramdisk_serves ramdisk_path ramdisk_serves_file)
  show "client_synced (ramdisk_server 512 4096) (client (io example_system))" "g_next_fid (client (io example_system)) < 0xFFFFFFFE"
    by (simp_all add: example_system_def ramdisk_start_synced) (simp add: client_init_def)
qed (simp_all add: example_system_def ramdisk_server_def WRITE_BUF_SIZE_def STREAM_READ_CHUNK_def)

theorem set_position_overreads_witness:
  "\<exists>h sys1 sys2. cc_create_string_output_stream (replicate 1024 0) [] example_system = Some (Value h, sys1) \<and>
    set_file_position [h, Imm (os_make_fixnum (of_nat 5000))] sys1 = Some (Value (Imm (os_make_fixnum (of_nat 5000))), sys2) \<and>
    cc_get_output_stream_string [h] sys2 = None"
  by (rule set_position_overreads) (simp_all add: example_system_def STREAM_STRING_OUTPUT_CAP_def)

end
