(* ===== verification/Printer.thy ===== *)
theory Printer
  imports Reader
begin

unbundle bit_operations_syntax

text \<open>
  The printer of \<^verbatim>\<open>src/c/print.c\<close>: \<open>print_value\<close> and the routines under it, as the string
  of characters they hand to their sink. \<open>escaped\<close> selects the \<open>prin1\<close> form. The decimal
  expansion of floats is not modelled here; it is the argument \<open>pf\<close>.
\<close>

subsection \<open>Integers\<close>

definition digit_char :: "u64 \<Rightarrow> char" where
  "digit_char d = char_of (48 + unat d)"

function fixnum_digits :: "u64 \<Rightarrow> string" where
  "fixnum_digits value =
     (if value = 0 then [] else digit_char (value mod 10) # fixnum_digits (value div 10))"
  by pat_completeness auto
termination
proof (relation "measure unat")
  fix w :: u64 assume "w \<noteq> 0"
  then have "0 < unat w" by (simp add: unat_gt_0)
  then show "(w div 10, w) \<in> measure unat" by (simp add: unat_div)
qed simp

definition print_fixnum :: "u64 \<Rightarrow> string" where
  "print_fixnum value = (if value = 0 then ''0'' else rev (fixnum_digits value))"

lemma divmod_small_last:
  assumes "mag_divmod_small_loop limbs d = (q, r)" "limbs \<noteq> []"
  shows "length q = length limbs" "last q = last limbs div d"
proof -
  have "length q = length limbs \<and> (limbs \<noteq> [] \<longrightarrow> last q = last limbs div d)"
    using assms(1)
  proof (induction limbs arbitrary: q r)
    case (Cons x limbs)
    obtain q1 r1 where q1: "mag_divmod_small_loop limbs d = (q1, r1)" by fastforce
    then have q: "q = (push_bit 32 r1 OR x) div d # q1" using Cons.prems by (simp add: Let_def)
    show ?case
    proof (cases "limbs = []")
      case True
      then show ?thesis using q q1 by simp
    next
      case False
      then show ?thesis using Cons.IH [OF q1] q by auto
    qed
  qed simp
  then show "length q = length limbs" "last q = last limbs div d" using assms(2) by simp_all
qed

lemma mag_trim_same: "length (mag_trim q) = length q \<Longrightarrow> mag_trim q = q"
  by (simp add: mag_trim_def)

text \<open>The loop of \<open>print_bignum\<close> ends whatever the limbs hold: the count or the top limb decreases.\<close>

function bignum_digits :: "u64 list \<Rightarrow> string" where
  "bignum_digits limbs =
     (if 1 < length limbs \<or> nth_or 0 limbs 0 \<noteq> 0
      then (case mag_divmod_small limbs 10 of (q, r) \<Rightarrow> digit_char r # bignum_digits q)
      else [])"
  by pat_completeness auto
termination
proof (relation "measures [length, \<lambda>ls. unat (last ls)]")
  fix limbs q :: "u64 list" and r
  assume go: "1 < length limbs \<or> nth_or 0 limbs 0 \<noteq> 0" and x: "(q, r) = mag_divmod_small limbs 10"
  obtain q0 where q0: "mag_divmod_small_loop limbs 10 = (q0, r)" "q = mag_trim q0"
    using x by (auto simp: mag_divmod_small_def split: prod.splits)
  have ne: "limbs \<noteq> []" using go by auto
  note l = divmod_small_last [OF q0(1) ne]
  show "(q, limbs) \<in> measures [length, \<lambda>ls. unat (last ls)]"
  proof (cases "length q < length limbs")
    case False
    then have same: "length q = length limbs" using length_trim_le [of q0] l(1) q0(2) by simp
    then have qq: "q = q0" using mag_trim_same q0(2) l(1) by simp
    have "last limbs \<noteq> 0"
    proof (cases "1 < length limbs")
      case True
      then have "last q \<noteq> 0" using mag_trim_last [of q0] q0(2) same by simp
      then show ?thesis using l(2) qq by auto
    next
      case F: False
      then obtain a where "limbs = [a]" using ne by (cases limbs) auto
      then show ?thesis using go by simp
    qed
    then have "0 < unat (last limbs)" by (simp add: unat_gt_0)
    then have "unat (last q) < unat (last limbs)" unfolding qq l(2) by (simp add: unat_div)
    then show ?thesis using same by simp
  qed simp
qed simp

definition print_bignum :: "bool \<Rightarrow> u64 list \<Rightarrow> string" where
  "print_bignum sign limbs = (if sign then ''-'' else []) @ rev (bignum_digits limbs)"

subsection \<open>Strings, characters, arrays\<close>

definition print_string :: "string \<Rightarrow> bool \<Rightarrow> string" where
  "print_string bytes escaped =
     (if \<not> escaped then bytes
      else [CHR 0x22] @ concat (map (\<lambda>c. if c = CHR 0x22 \<or> c = CHR 0x5C then [CHR 0x5C, c] else [c]) bytes) @ [CHR 0x22])"

definition print_char :: "u64 \<Rightarrow> bool \<Rightarrow> string" where
  "print_char val escaped =
     (let ch = char_of (unat (drop_bit CHAR_VALUE_SHIFT val) mod 256)
      in if \<not> escaped then [ch]
         else [CHR ''#'', CHR 0x5C] @
           (if ch = CHR '' '' then ''space''
            else if ch = CHR 0x0A then ''newline''
            else if ch = CHR 0x09 then ''tab''
            else [ch]))"

text \<open>The elements, already printed, laid out by the dimensions; the rest of the data is returned.\<close>

function (sequential)
  print_array_level :: "nat list \<Rightarrow> string list \<Rightarrow> string \<times> string list" and
  print_array_row :: "nat list \<Rightarrow> nat \<Rightarrow> bool \<Rightarrow> string list \<Rightarrow> string \<times> string list"
where
  "print_array_level [] data = (case data of [] \<Rightarrow> ([], []) | x # rest \<Rightarrow> (x, rest))"
| "print_array_level (n # ds) data =
     (case print_array_row ds n True data of (s, rest) \<Rightarrow> (''('' @ s @ '')'', rest))"
| "print_array_row ds 0 first data = ([], data)"
| "print_array_row ds (Suc k) first data =
     (case print_array_level ds data of
        (s, rest) \<Rightarrow>
          (case print_array_row ds k False rest of
             (s', rest') \<Rightarrow> ((if first then [] else '' '') @ s @ s', rest')))"
  by pat_completeness auto
termination
  by (relation "measures [\<lambda>x. case x of Inl (ds, d) \<Rightarrow> length ds | Inr (ds, k, f, d) \<Rightarrow> length ds,
                          \<lambda>x. case x of Inl (ds, d) \<Rightarrow> 0 | Inr (ds, k, f, d) \<Rightarrow> Suc k]") auto

function nat_digits :: "nat \<Rightarrow> string" where
  "nat_digits r = char_of (48 + r mod 10) # (if r div 10 \<noteq> 0 then nat_digits (r div 10) else [])"
  by pat_completeness auto
termination
proof (relation "measure id")
  fix r :: nat assume "r div 10 \<noteq> 0"
  then show "(r div 10, r) \<in> measure id" by (cases "r = 0") simp_all
qed simp

definition print_vector :: "nat list \<Rightarrow> string list \<Rightarrow> string" where
  "print_vector dims elems =
     (let body = fst (print_array_level dims elems)
      in if length dims = 1 then ''#'' @ body
         else ''#'' @ rev (nat_digits (length dims)) @ ''A'' @ (if dims = [] then '' '' else []) @ body)"

subsection \<open>Values\<close>


definition print_imm :: "(lval \<Rightarrow> string) \<Rightarrow> bool \<Rightarrow> u64 \<Rightarrow> string" where
  "print_imm pf escaped w =
     (let tag = w AND TAG_MASK
      in if tag = TAG_FIXNUM
         then (if os_fixnum_is_negative w then ''-'' else []) @ print_fixnum (os_fixnum_magnitude w)
         else if tag = TAG_CHAR then print_char w escaped
         else if tag = TAG_SINGLE_FLOAT then pf (Imm w)
         else [])"

function (sequential)
  print_value :: "(lval \<Rightarrow> string) \<Rightarrow> bool \<Rightarrow> lval \<Rightarrow> string" and
  print_tail :: "(lval \<Rightarrow> string) \<Rightarrow> bool \<Rightarrow> lval \<Rightarrow> string"
where
  "print_value pf escaped Nil = ''NIL''"
| "print_value pf escaped (Imm w) = print_imm pf escaped w"
| "print_value pf escaped (Sym name) = name"
| "print_value pf escaped (Str bytes) = print_string bytes escaped"
| "print_value pf escaped (Cons a d) = ''('' @ print_value pf escaped a @ print_tail pf escaped d @ '')''"
| "print_value pf escaped (Bignum sign limbs) = print_bignum sign limbs"
| "print_value pf escaped (Vec dims elems) = print_vector dims (map (print_value pf escaped) elems)"
| "print_value pf escaped (DFloat d) = pf (DFloat d)"
| "print_value pf escaped (Obj magic ws) =
     (if magic = MAGIC_PROCESS then ''#<PROCESS>''
      else if magic = MAGIC_STREAM then ''#<STREAM>''
      else if magic = MAGIC_BUILTIN_CLASS \<or> magic = MAGIC_STANDARD_CLASS
      then ''#<CLASS '' @ (case ws of [] \<Rightarrow> [] | w # _ \<Rightarrow> print_value pf escaped w) @ ''>''
      else if magic = MAGIC_CLASS_INSTANCE
      then ''#<INSTANCE-OF '' @
        (case ws of (Obj _ (name # _)) # _ \<Rightarrow> print_value pf escaped name | _ \<Rightarrow> []) @ ''>''
      else if magic = MAGIC_FUNCTION_NATIVE
      then (if nth_or Nil ws 1 \<noteq> Nil then ''#<FUNCTION-COMPILED>'' else ''#<FUNCTION-BUILTIN>'')
      else if magic = MAGIC_FUNCTION_INTERPRETED then ''#<FUNCTION-INTERPRETED>''
      else ''#<FUNCTION>'')"
| "print_tail pf escaped Nil = []"
| "print_tail pf escaped (Cons a d) = '' '' @ print_value pf escaped a @ print_tail pf escaped d"
| "print_tail pf escaped v = '' . '' @ print_value pf escaped v"
  by pat_completeness auto
termination
  by (relation "measures [\<lambda>x. case x of Inl (p, e, v) \<Rightarrow> size v | Inr (p, e, v) \<Rightarrow> size v,
                          \<lambda>x. case x of Inl (p, e, v) \<Rightarrow> 0 | Inr (p, e, v) \<Rightarrow> 1]")
    (auto simp: less_Suc_eq_le intro: size_list_estimation' order.trans [OF _ size_list_estimation'])

end
