(* ===== verification/ReadPrint.thy ===== *)
theory ReadPrint
  imports Printer
begin

unbundle bit_operations_syntax

text \<open>
  The reader of theory \<open>Reader\<close> and the printer of theory \<open>Printer\<close> against each other: the
  numerals, escapes, character names and list syntax one writes are those the other
  reads. What the token buffer of 127 characters cannot hold is where they part.
\<close>

subsection \<open>Decimal numerals\<close>

definition dec_val :: "string \<Rightarrow> nat" where
  "dec_val ds = foldl (\<lambda>n c. n * 10 + (code c - 48)) 0 ds"

lemma dec_val_simps [simp]:
  "dec_val [] = 0" "dec_val (ds @ [c]) = dec_val ds * 10 + (code c - 48)"
  by (simp_all add: dec_val_def)

lemma code_char_of: "n < 256 \<Longrightarrow> code (char_of n) = n"
  by (simp add: code_def)

lemma digit_val_unat: "is_digit c \<Longrightarrow> unat (digit_val c) = code c - 48 \<and> code c - 48 < 10"
proof -
  assume c: "is_digit c"
  then have "unat (of_nat (code c - 48) :: u64) = code c - 48"
  proof -
    have "code c - 48 < 10" using c by (auto simp: is_digit_def)
    then have "code c - 48 < 2 ^ 64" by simp
    then show ?thesis by (simp add: unsigned_of_nat take_bit_nat_eq_self)
  qed
  then show ?thesis using c by (simp only: digit_val_def) (auto simp: is_digit_def)
qed

lemma digit_char_code:
  assumes "unat d < 10"
  shows "is_digit (digit_char d)" "code (digit_char d) - 48 = unat d"
proof -
  have "code (digit_char d) = 48 + unat d" unfolding digit_char_def using assms by (intro code_char_of) simp
  then show "is_digit (digit_char d)" "code (digit_char d) - 48 = unat d"
    using assms by (simp_all add: is_digit_def)
qed

lemma decimal_limbs:
  assumes "list_all is_digit ds" "limbs_ok ls" "ls \<noteq> []"
  defines "r \<equiv> foldl (\<lambda>limbs c. mag_mul_small_add_small limbs 10 (digit_val c)) ls ds"
  shows "limbs_ok r \<and> r \<noteq> [] \<and> mag_val r = foldl (\<lambda>n c. n * 10 + (code c - 48)) (mag_val ls) ds"
  using assms(1-3) unfolding r_def
proof (induction ds arbitrary: ls)
  case (Cons c ds)
  have d: "unat (digit_val c) = code c - 48" "code c - 48 < 10" using digit_val_unat Cons.prems(1) by auto
  note m = mag_mul_small_add_small_val [OF Cons.prems(2), of 10 "digit_val c"]
  have "limbs_ok (mag_mul_small_add_small ls 10 (digit_val c))"
    "mag_val (mag_mul_small_add_small ls 10 (digit_val c)) = mag_val ls * 10 + (code c - 48)"
    using m d by simp_all
  then show ?case
    using Cons.IH [of "mag_mul_small_add_small ls 10 (digit_val c)"] Cons.prems
    by (simp add: mag_mul_small_add_small_nonempty)
qed simp

lemma read_decimal_int:
  assumes "list_all is_digit ds"
  shows "wf_int (read_decimal s ds)" "ival (read_decimal s ds) = sgn_mag s (dec_val ds)"
proof -
  let ?r = "foldl (\<lambda>limbs c. mag_mul_small_add_small limbs 10 (digit_val c)) [0] ds"
  have "limbs_ok ?r \<and> ?r \<noteq> [] \<and> mag_val ?r = dec_val ds"
    using decimal_limbs [OF assms, of "[0]"] by (simp add: dec_val_def)
  then show "wf_int (read_decimal s ds)" "ival (read_decimal s ds) = sgn_mag s (dec_val ds)"
    using os_make_integer_wf [of ?r s] by (simp_all add: read_decimal_def)
qed

lemma fixnum_digits_val:
  "dec_val (rev (fixnum_digits w)) = unat w \<and> list_all is_digit (fixnum_digits w)"
proof (induction w rule: fixnum_digits.induct)
  case (1 w)
  show ?case
  proof (cases "w = 0")
    case False
    have d: "unat (w mod 10) < 10" by (simp add: unat_mod)
    have "unat w div 10 * 10 + unat w mod 10 = unat w" by presburger
    moreover have "fixnum_digits w = digit_char (w mod 10) # fixnum_digits (w div 10)"
      using False by (subst fixnum_digits.simps) (simp del: fixnum_digits.simps)
    ultimately show ?thesis
      using 1 [OF False] digit_char_code [OF d]
      by (simp add: unat_div unat_mod del: fixnum_digits.simps)
  qed simp
qed

lemma print_fixnum_val:
  "dec_val (print_fixnum w) = unat w" "list_all is_digit (print_fixnum w)" "print_fixnum w \<noteq> []"
proof -
  have z: "dec_val ''0'' = 0" "is_digit (CHR ''0'')" by (simp_all add: dec_val_def code_def is_digit_def)
  show "dec_val (print_fixnum w) = unat w" "list_all is_digit (print_fixnum w)"
    using fixnum_digits_val [of w] z by (auto simp: print_fixnum_def simp del: fixnum_digits.simps)
  show "print_fixnum w \<noteq> []"
    unfolding print_fixnum_def by (subst fixnum_digits.simps) (simp del: fixnum_digits.simps)
qed

lemma bignum_digits_val:
  "limbs_ok ls \<Longrightarrow> ls \<noteq> [] \<Longrightarrow> dec_val (rev (bignum_digits ls)) = mag_val ls \<and> list_all is_digit (bignum_digits ls)"
proof (induction ls rule: bignum_digits.induct)
  case (1 ls)
  show ?case
  proof (cases "1 < length ls \<or> nth_or 0 ls 0 \<noteq> 0")
    case True
    obtain q r where qr: "mag_divmod_small ls 10 = (q, r)" by fastforce
    note dv = mag_divmod_small_val [OF 1(2) _ _ qr]
    have v: "mag_val q = mag_val ls div 10" "unat r = mag_val ls mod 10" "limbs_ok q" "q \<noteq> []"
      using dv 1(3) by simp_all
    have IH: "dec_val (rev (bignum_digits q)) = mag_val q \<and> list_all is_digit (bignum_digits q)"
      using 1(1) [OF True qr [symmetric]] v(3,4) by simp
    have e: "bignum_digits ls = digit_char r # bignum_digits q"
      using True qr by (subst bignum_digits.simps) (simp del: bignum_digits.simps)
    have d: "unat r < 10" using v(2) by simp
    have "mag_val ls div 10 * 10 + mag_val ls mod 10 = mag_val ls" by presburger
    then show ?thesis using IH v(1,2) digit_char_code [OF d] by (simp add: e del: bignum_digits.simps)
  next
    case False
    then obtain x where "ls = [x]" using 1(3) by (cases ls) auto
    then show ?thesis using False by (subst bignum_digits.simps, simp)+
  qed
qed

text \<open>The numeral of a canonical integer: an optional minus sign and at least one digit.\<close>

lemma print_int_shape:
  assumes "wf_int v"
  obtains s ds where "print_value pf e v = (if s then ''-'' else []) @ ds" "list_all is_digit ds" "ds \<noteq> []"
    "ival v = sgn_mag s (dec_val ds)"
  using assms
proof (cases rule: wf_int_cases)
  case (1 w)
  show ?thesis
  proof (rule that)
    show "print_value pf e v = (if os_fixnum_is_negative w then ''-'' else []) @ print_fixnum (os_fixnum_magnitude w)"
      using 1 by (simp add: print_imm_def fixnum_wf_def Let_def)
    show "ival v = sgn_mag (os_fixnum_is_negative w) (dec_val (print_fixnum (os_fixnum_magnitude w)))"
      using 1 by (simp add: print_fixnum_val fixnum_int_sgn_mag)
  qed (simp_all add: print_fixnum_val)
next
  case (2 s ls)
  have ne: "ls \<noteq> []" using 2 by auto
  note b = bignum_digits_val [OF 2(2) ne]
  show ?thesis
  proof (rule that)
    show "print_value pf e v = (if s then ''-'' else []) @ rev (bignum_digits ls)"
      using 2 by (simp add: print_bignum_def del: bignum_digits.simps)
    show "list_all is_digit (rev (bignum_digits ls))" using b by simp
    show "ival v = sgn_mag s (dec_val (rev (bignum_digits ls)))" using 2 b by simp
    show "rev (bignum_digits ls) \<noteq> []" using 2(3) by (subst bignum_digits.simps) (simp split: prod.split)
  qed
qed

lemma digit_not_special:
  "is_digit c \<Longrightarrow> \<not> is_delimiter c \<and> c \<noteq> CHR ''-'' \<and> c \<noteq> CHR ''+'' \<and> c \<noteq> CHR ''#'' \<and> c \<noteq> CHR '';''
     \<and> \<not> is_whitespace c \<and> c \<noteq> CHR ''('' \<and> c \<noteq> CHR '')''"
  by (auto simp: is_digit_def is_delimiter_def is_whitespace_def code_def)

lemma atom_of_numeral:
  assumes "list_all is_digit ds" "ds \<noteq> []"
  shows "atom_of_token fp sg ((if s then ''-'' else []) @ ds) = read_decimal s ds"
proof -
  let ?t = "(if s then ''-'' else []) @ ds"
  obtain c cs where ds: "ds = c # cs" using assms(2) by (cases ds) auto
  have c: "c \<noteq> CHR ''-''" "c \<noteq> CHR ''+''" using digit_not_special [of c] assms(1) ds by auto
  have n: "token_negative ?t = s" using c by (auto simp: token_negative_def ds)
  have "digit_start ?t = (if s then 1 else 0)" using c unfolding digit_start_def n by (auto simp: ds)
  then have d: "drop (digit_start ?t) ?t = ds" by simp
  show ?thesis unfolding atom_of_token_def Let_def d n using assms by simp
qed

subsection \<open>Strings, characters and symbols\<close>

lemma string_loop_escaped:
  "length t + length bs \<le> 127 \<Longrightarrow>
     string_loop t (concat (map (\<lambda>c. if c = CHR 0x22 \<or> c = CHR 0x5C then [CHR 0x5C, c] else [c]) bs) @ CHR 0x22 # rest) =
     Some (t @ bs, rest)"
proof (induction bs arbitrary: t)
  case (Cons c bs)
  have p: "token_push t c = t @ [c]" using Cons.prems by (simp add: token_push_def READER_TOKEN_MAX_def)
  show ?case using Cons.IH [of "t @ [c]"] Cons.prems p by auto
qed simp

lemma read_string_printed:
  assumes "length bs \<le> 127" "list_all (\<lambda>c. c \<noteq> CHR 0x00) bs"
  shows "read_rec fp sg (Suc n) EXPR (print_string bs True @ rest) = Got (Str bs) rest"
  using string_loop_escaped [of "[]" bs rest] assms
  by (simp add: read_expr_def print_string_def read_string_def got_def os_make_string_def cstr_id)

lemma code_less: "code c < 256"
proof -
  have "code c mod 256 = code c" by (simp add: code_def)
  then show ?thesis by (metis mod_less_divisor zero_less_numeral)
qed

definition is_byte_char :: "u64 \<Rightarrow> bool" where
  "is_byte_char w \<longleftrightarrow> (\<exists>c. Imm w = os_make_char c)"

lemma os_make_char_byte:
  "char_of (unat (drop_bit CHAR_VALUE_SHIFT (os_make_char_from_code (of_nat (code c)))) mod 256) = c"
proof -
  let ?x = "drop_bit CHAR_VALUE_SHIFT (os_make_char_from_code (of_nat (code c)))"
  have cl: "code c < 256" by (rule code_less)
  have "unat (ucast ?x :: u32) = unat (of_nat (code c) :: u32)" by (simp only: os_make_char_code)
  moreover have "unat (of_nat (code c) :: u32) = code c"
    using cl by (simp add: unsigned_of_nat take_bit_nat_eq_self)
  moreover have "unat (ucast ?x :: u32) = unat ?x mod 4294967296"
    by (simp add: unsigned_ucast_eq take_bit_eq_mod)
  ultimately have "unat ?x mod 4294967296 = code c" by simp
  then have "unat ?x mod 256 = code c" using cl by (simp add: mod_mod_cancel [of 256 4294967296, symmetric])
  then show ?thesis by (simp add: code_def)
qed

lemma print_char_printed:
  "print_char (os_make_char_from_code (of_nat (code c))) True =
     [CHR ''#'', CHR 0x5C] @
       (if c = CHR '' '' then ''space'' else if c = CHR 0x0A then ''newline''
        else if c = CHR 0x09 then ''tab'' else [c])"
  by (simp only: print_char_def os_make_char_byte Let_def not_True_eq_False if_False)

lemma char_loop_stop: "delim_start rest \<Longrightarrow> char_loop buf rest = (buf, rest)"
  by (cases rest) (simp_all add: delim_start_def)

lemma char_names:
  "char_name_matches ''space'' ''SPACE''" "\<not> char_name_matches ''newline'' ''SPACE''"
  "char_name_matches ''newline'' ''NEWLINE''" "\<not> char_name_matches ''tab'' ''SPACE''"
  "\<not> char_name_matches ''tab'' ''NEWLINE''" "char_name_matches ''tab'' ''TAB''"
  by code_simp+

lemma read_char_printed:
  assumes "delim_start rest"
  shows "read_char_literal
     ((if c = CHR '' '' then ''space'' else if c = CHR 0x0A then ''newline''
       else if c = CHR 0x09 then ''tab'' else [c]) @ rest) = (os_make_char c, rest)"
  using char_names
  by (simp add: read_char_literal_def char_loop_stop [OF assms] CHAR_NAME_MAX_def is_delimiter_def
      is_whitespace_def)

definition numeric_token :: "string \<Rightarrow> bool" where
  "numeric_token token \<longleftrightarrow>
     (let body = drop (digit_start token) token
      in list_all is_float_token_char body \<and> list_ex is_digit body)"

definition plain_symbol :: "string \<Rightarrow> bool" where
  "plain_symbol n \<longleftrightarrow>
     n \<noteq> [] \<and> length n \<le> 127 \<and>
     list_all (\<lambda>c. \<not> is_delimiter c \<and> c \<noteq> CHR 0x00 \<and> to_upper c = c) n \<and>
     hd n \<noteq> CHR ''#'' \<and> n \<noteq> ''NIL'' \<and> n \<noteq> ''READ-ERROR'' \<and> n \<noteq> ''.'' \<and> \<not> numeric_token n"

lemma digit_float_char: "is_digit c \<Longrightarrow> is_float_token_char c"
  by (simp add: is_float_token_char_def)

lemma atom_of_symbol:
  assumes "\<not> numeric_token n"
  shows "atom_of_token fp sg n = os_make_symbol n"
proof -
  let ?b = "drop (digit_start n) n"
  have "\<not> (list_all is_float_token_char ?b \<and> list_ex is_digit ?b)"
    using assms by (simp add: numeric_token_def Let_def)
  moreover have "\<not> (?b \<noteq> [] \<and> list_all is_digit ?b)"
    using calculation digit_float_char by (cases ?b) (auto simp: list_all_iff list_ex_iff)
  ultimately show ?thesis unfolding atom_of_token_def Let_def by auto
qed

lemma make_symbol_id:
  "list_all (\<lambda>c. c \<noteq> CHR 0x00 \<and> to_upper c = c) n \<Longrightarrow> n \<noteq> ''NIL'' \<Longrightarrow> os_make_symbol n = Sym n"
proof -
  assume a: "list_all (\<lambda>c. c \<noteq> CHR 0x00 \<and> to_upper c = c) n" "n \<noteq> ''NIL''"
  then have "cstr n = n" by (intro cstr_id) (simp add: list_all_iff)
  moreover have "map to_upper n = n" using a(1) by (simp add: list_all_iff map_idI)
  ultimately show ?thesis using a(2) by (simp add: os_make_symbol_def)
qed

text \<open>A token that starts no other syntax is read by \<open>read_atom\<close>.\<close>

lemma read_expr_atom:
  assumes "t \<noteq> []" "length t \<le> 127" "list_all (\<lambda>c. \<not> is_delimiter c) t" "hd t \<noteq> CHR ''#''" "delim_start rest"
  shows "read_rec fp sg (Suc n) EXPR (t @ rest) = Got (atom_of_token fp sg t) rest"
proof -
  obtain c cs where t: "t = c # cs" using assms(1) by (cases t) auto
  have c: "\<not> is_delimiter c" "c \<noteq> CHR ''#''" using assms(3,4) by (simp_all add: t)
  have "read_atom fp sg (t @ rest) = (atom_of_token fp sg t, rest)"
    using token_loop_exact [OF assms(2,3,5)] by (simp add: read_atom_def)
  then show ?thesis using c by (auto simp: t read_expr_def got_def is_delimiter_def)
qed

lemma read_int_printed:
  assumes "wf_int v" "length (print_value pf True v) \<le> 127" "delim_start rest"
  shows "read_rec fp sg (Suc n) EXPR (print_value pf True v @ rest) = Got v rest"
proof -
  obtain s ds where p: "print_value pf True v = (if s then ''-'' else []) @ ds" "list_all is_digit ds" "ds \<noteq> []"
    "ival v = sgn_mag s (dec_val ds)"
    by (rule print_int_shape [OF assms(1)])
  let ?t = "(if s then ''-'' else []) @ ds"
  obtain c cs where ds: "ds = c # cs" using p(3) by (cases ds) auto
  have d: "list_all (\<lambda>c. \<not> is_delimiter c) ?t"
  proof -
    have "\<not> is_delimiter (CHR ''-'')" by (simp add: is_delimiter_def is_whitespace_def)
    moreover have "\<not> is_delimiter c" if "c \<in> set ds" for c
      using p(2) digit_not_special [of c] that by (simp add: list_all_iff)
    ultimately show ?thesis by (auto simp: list_all_iff)
  qed
  have h: "hd ?t \<noteq> CHR ''#''" using p(2) digit_not_special [of c] by (simp add: ds)
  have "read_rec fp sg (Suc n) EXPR (?t @ rest) = Got (atom_of_token fp sg ?t) rest"
    by (rule read_expr_atom [OF _ _ d h assms(3)]) (use p(3) assms(2) in \<open>simp_all add: p(1)\<close>)
  moreover have "atom_of_token fp sg ?t = v"
    unfolding atom_of_numeral [OF p(2,3)]
    by (rule ival_inj) (use read_decimal_int [OF p(2)] assms(1) p(4) in simp_all)
  ultimately show ?thesis by (simp only: p(1))
qed

lemma read_symbol_printed:
  assumes "plain_symbol name" "delim_start rest"
  shows "read_rec fp sg (Suc n) EXPR (name @ rest) = Got (Sym name) rest"
proof -
  have "read_rec fp sg (Suc n) EXPR (name @ rest) = Got (atom_of_token fp sg name) rest"
    by (rule read_expr_atom) (use assms in \<open>auto simp: plain_symbol_def list_all_iff\<close>)
  moreover have "os_make_symbol name = Sym name"
    by (rule make_symbol_id) (use assms(1) in \<open>auto simp: plain_symbol_def list_all_iff\<close>)
  ultimately show ?thesis using atom_of_symbol assms(1) by (simp add: plain_symbol_def)
qed

lemma read_nil_printed:
  assumes "delim_start rest"
  shows "read_rec fp sg (Suc n) EXPR (''NIL'' @ rest) = Got Nil rest"
proof -
  have u: "to_upper (CHR ''N'') = CHR ''N''" "to_upper (CHR ''I'') = CHR ''I''" "to_upper (CHR ''L'') = CHR ''L''"
    by (simp_all add: to_upper_def code_def)
  have n: "\<not> numeric_token ''NIL''"
    by (simp add: numeric_token_def digit_start_def token_negative_def is_float_token_char_def is_digit_def
        code_def float_exponent_marker_kind_def)
  have "read_rec fp sg (Suc n) EXPR (''NIL'' @ rest) = Got (atom_of_token fp sg ''NIL'') rest"
    by (rule read_expr_atom) (use assms in \<open>simp_all add: is_delimiter_def is_whitespace_def\<close>)
  then show ?thesis using atom_of_symbol [OF n] u by (simp add: os_make_symbol_def cstr_def)
qed

lemma read_dot_printed:
  assumes "delim_start rest"
  shows "read_rec fp sg (Suc n) EXPR (CHR ''.'' # rest) = Got g_sym_dot rest"
proof -
  have n: "\<not> numeric_token ''.''"
    by (simp add: numeric_token_def digit_start_def token_negative_def is_float_token_char_def is_digit_def
        code_def float_exponent_marker_kind_def)
  have "read_rec fp sg (Suc n) EXPR (''.'' @ rest) = Got (atom_of_token fp sg ''.'') rest"
    by (rule read_expr_atom) (use assms in \<open>simp_all add: is_delimiter_def is_whitespace_def\<close>)
  then show ?thesis
    using atom_of_symbol [OF n] by (simp add: os_make_symbol_def cstr_def g_sym_dot_def to_upper_def code_def)
qed

subsection \<open>What the printer writes the reader reads back\<close>

text \<open>
  The values the printer can represent: integers whose numeral fits a token, byte
  characters, strings of at most 127 characters, symbols whose name is a token of its
  own, and lists, dotted lists and vectors of such values.
\<close>

fun readable :: "lval \<Rightarrow> bool" where
  "readable Nil = True"
| "readable (Imm w) \<longleftrightarrow> fixnum_wf w \<or> is_byte_char w"
| "readable (Sym name) = plain_symbol name"
| "readable (Str bs) \<longleftrightarrow> length bs \<le> 127 \<and> list_all (\<lambda>c. c \<noteq> CHR 0x00) bs"
| "readable (Cons a d) \<longleftrightarrow> readable a \<and> readable d"
| "readable (Bignum s ls) \<longleftrightarrow> wf_int (Bignum s ls) \<and> length (print_bignum s ls) \<le> 127"
| "readable (Vec dims es) \<longleftrightarrow> dims = [length es] \<and> list_all readable es"
| "readable _ = False"

lemma readable_not_error: "readable v \<Longrightarrow> v \<noteq> g_sym_read_error \<and> v \<noteq> g_sym_dot"
  by (cases v) (auto simp: plain_symbol_def g_sym_read_error_def g_sym_dot_def)

lemma print_fixnum_length: "length (print_fixnum w) \<le> 20"
proof -
  have *: "length (fixnum_digits w) \<le> k" if "unat w < 10 ^ k" for w k
    using that
  proof (induction k arbitrary: w)
    case (Suc k)
    then have "unat (w div 10) < 10 ^ k" by (simp add: unat_div less_mult_imp_div_less mult.commute)
    from Suc.IH [OF this] show ?case
      by (subst fixnum_digits.simps) (simp del: fixnum_digits.simps)
  qed (simp add: word_eq_iff_unat)
  have "unat w < 10 ^ 20" using unat_lt64 [of w] by (rule order.strict_trans) simp
  then show ?thesis using * by (auto simp: print_fixnum_def simp del: fixnum_digits.simps)
qed

lemma is_byte_charE:
  assumes "is_byte_char w"
  obtains c where "w = os_make_char_from_code (of_nat (code c))"
  using assms by (auto simp: is_byte_char_def os_make_char_def)

lemma print_byte_char:
  assumes "w = os_make_char_from_code (of_nat (code c))"
  shows "print_value pf True (Imm w) = [CHR ''#'', CHR 0x5C] @
       (if c = CHR '' '' then ''space'' else if c = CHR 0x0A then ''newline''
        else if c = CHR 0x09 then ''tab'' else [c])"
proof -
  have "w AND TAG_MASK = TAG_CHAR" by (simp only: assms os_make_char_code)
  then have "print_value pf True (Imm w) = print_char w True"
    by (simp add: print_imm_def Let_def const_defs)
  then show ?thesis by (simp only: assms print_char_printed)
qed

text \<open>The first character of a printed value begins an expression.\<close>

definition starts :: "string \<Rightarrow> bool" where
  "starts s \<longleftrightarrow> expr_start s \<and> hd s \<noteq> CHR '')''"

lemma startsI: "s = c # t \<Longrightarrow> \<not> is_whitespace c \<Longrightarrow> c \<noteq> CHR '';'' \<Longrightarrow> c \<noteq> CHR '')'' \<Longrightarrow> starts s"
  by (simp add: starts_def expr_start_def)

lemma starts_append: "starts s \<Longrightarrow> starts (s @ t)"
  by (cases s) (simp_all add: starts_def expr_start_def)

lemma starts_atom: "s \<noteq> [] \<Longrightarrow> list_all (\<lambda>c. \<not> is_delimiter c) s \<Longrightarrow> starts s"
  by (cases s) (auto simp: starts_def expr_start_def is_delimiter_def)

lemma starts_int:
  assumes "wf_int v"
  shows "starts (print_value pf True v)"
proof -
  obtain s ds where p: "print_value pf True v = (if s then ''-'' else []) @ ds" "list_all is_digit ds" "ds \<noteq> []"
    by (rule print_int_shape [OF assms])
  obtain c cs where ds: "ds = c # cs" using p(3) by (cases ds) auto
  show ?thesis
  proof (cases s)
    case True
    then show ?thesis by (intro startsI [of _ "CHR ''-''" ds]) (simp_all add: p(1) is_whitespace_def)
  next
    case False
    then show ?thesis
      using digit_not_special [of c] p(2) by (intro startsI [of _ c cs]) (simp_all add: p(1) ds)
  qed
qed

lemma starts_printed: "readable v \<Longrightarrow> starts (print_value pf True v)"
proof (cases v)
  case (Imm w)
  assume r: "readable v"
  show ?thesis
  proof (cases "fixnum_wf w")
    case True
    then show ?thesis using starts_int [of v pf] Imm by simp
  next
    case False
    then have "is_byte_char w" using r Imm by simp
    then obtain c where "w = os_make_char_from_code (of_nat (code c))" by (rule is_byte_charE)
    note p = print_byte_char [OF this, of pf, unfolded append.simps, folded Imm]
    show ?thesis by (rule startsI [OF p]) (simp_all only: is_whitespace_def char.inject, simp_all)
  qed
next
  case (Sym n)
  assume "readable v"
  then have "n \<noteq> []" "list_all (\<lambda>c. \<not> is_delimiter c) n"
    unfolding Sym by (simp_all add: plain_symbol_def list_all_iff)
  then show ?thesis unfolding Sym by (simp add: starts_atom)
next
  case (Bignum s ls)
  assume "readable v"
  then show ?thesis using starts_int [of v pf] Bignum by simp
next
  case (Vec ds es)
  assume "readable v"
  then obtain t where "print_value pf True v = CHR ''#'' # t" unfolding Vec by (simp add: print_vector_def Let_def)
  then show ?thesis by (rule startsI) (simp_all add: is_whitespace_def)
qed (simp_all add: starts_def expr_start_def is_whitespace_def print_string_def)

text \<open>Reading with enough fuel.\<close>

definition reads :: "fpu \<Rightarrow> bool \<Rightarrow> read_mode \<Rightarrow> char list \<Rightarrow> lval \<Rightarrow> char list \<Rightarrow> bool" where
  "reads fp sg m s v rest \<longleftrightarrow> (\<exists>n. \<forall>k\<ge>n. read_rec fp sg k m s = Got v rest)"

lemma readsI: "(\<And>n. read_rec fp sg (Suc n) m s = Got v rest) \<Longrightarrow> reads fp sg m s v rest"
  unfolding reads_def by (rule exI [of _ 1]) (metis Suc_le_D One_nat_def)

lemma reads_step:
  assumes "\<And>rd. (\<And>m' s' v' r'. (m', s', v', r') \<in> set calls \<Longrightarrow> rd m' s' = Got v' r') \<Longrightarrow>
      (case m of EXPR \<Rightarrow> read_expr fp sg rd s | LIST \<Rightarrow> read_list rd s | REST \<Rightarrow> read_list_rest rd s
       | QUOTED q \<Rightarrow> read_quoted rd q s | HASH \<Rightarrow> read_hash rd s) = Got v rest"
    and "\<And>m' s' v' r'. (m', s', v', r') \<in> set calls \<Longrightarrow> reads fp sg m' s' v' r'"
  shows "reads fp sg m s v rest"
proof -
  have "\<exists>n. \<forall>k\<ge>n. \<forall>(m', s', v', r') \<in> set calls. read_rec fp sg k m' s' = Got v' r'"
    using assms(2)
  proof (induction calls)
    case (Cons c calls)
    obtain m' s' v' r' where c: "c = (m', s', v', r')" by (cases c) auto
    obtain n1 where n1: "\<forall>k\<ge>n1. read_rec fp sg k m' s' = Got v' r'"
      using Cons.prems [of m' s' v' r'] c by (auto simp: reads_def)
    obtain n2 where n2: "\<forall>k\<ge>n2. \<forall>(m', s', v', r') \<in> set calls. read_rec fp sg k m' s' = Got v' r'"
      using Cons.IH Cons.prems by (metis list.set_intros(2))
    show ?case by (rule exI [of _ "max n1 n2"]) (use n1 n2 c in auto)
  qed simp
  then obtain n where n: "\<forall>k\<ge>n. \<forall>(m', s', v', r') \<in> set calls. read_rec fp sg k m' s' = Got v' r'" by blast
  have "read_rec fp sg k m s = Got v rest" if k: "Suc n \<le> k" for k
  proof -
    obtain j where j: "k = Suc j" "n \<le> j" using k by (metis Suc_le_D Suc_le_mono)
    have "read_rec fp sg j m' s' = Got v' r'" if "(m', s', v', r') \<in> set calls" for m' s' v' r'
      using n j(2) that by blast
    from assms(1) [OF this] show ?thesis by (simp only: j(1) read_rec.simps)
  qed
  then show ?thesis by (auto simp: reads_def)
qed

lemma skip_printed:
  assumes "readable v"
  obtains c t where "print_value pf True v = c # t" "c \<noteq> CHR '')''"
    "\<And>rest. skip_whitespace (c # t @ rest) = c # t @ rest"
    "\<And>rest. skip_whitespace (CHR '' '' # c # t @ rest) = c # t @ rest"
proof -
  have st: "starts (print_value pf True v)" by (rule starts_printed [OF assms])
  then obtain c t where p: "print_value pf True v = c # t"
    by (cases "print_value pf True v") (auto simp: starts_def expr_start_def)
  have e: "expr_start (c # t @ rest)" "c \<noteq> CHR '')''" for rest
    using starts_append [OF st, of rest] by (simp_all add: p starts_def)
  have w: "skip_whitespace (CHR '' '' # x) = skip_whitespace x" for x by (simp add: is_whitespace_def)
  show ?thesis by (rule that [OF p e(2)]) (simp_all only: w skip_whitespace_id [OF e(1)])
qed

lemma delim_starts [simp]:
  "delim_start []" "delim_start (CHR '' '' # s)" "delim_start (CHR '')'' # s)" "delim_start (CHR ''('' # s)"
  by (simp_all add: delim_start_def is_delimiter_def is_whitespace_def)

definition prints_back :: "fpu \<Rightarrow> bool \<Rightarrow> (lval \<Rightarrow> string) \<Rightarrow> lval \<Rightarrow> bool" where
  "prints_back fp sg pf v \<longleftrightarrow>
     (\<forall>rest. delim_start rest \<longrightarrow> reads fp sg EXPR (print_value pf True v @ rest) v rest)"

definition tail_back :: "fpu \<Rightarrow> bool \<Rightarrow> (lval \<Rightarrow> string) \<Rightarrow> lval \<Rightarrow> bool" where
  "tail_back fp sg pf v \<longleftrightarrow> (\<forall>rest. reads fp sg REST (print_tail pf True v @ CHR '')'' # rest) v rest)"

lemma prints_backD: "prints_back fp sg pf v \<Longrightarrow> delim_start rest \<Longrightarrow> reads fp sg EXPR (print_value pf True v @ rest) v rest"
  by (simp add: prints_back_def)

lemma delim_tail: "delim_start (print_tail pf True v @ CHR '')'' # rest)"
  by (cases v) simp_all

lemma tail_Nil: "tail_back fp sg pf Nil"
  unfolding tail_back_def
  by (intro allI readsI) (simp add: read_list_rest_def is_whitespace_def)

lemma list_back:
  assumes a: "readable a" "prints_back fp sg pf a" and d: "readable d" "tail_back fp sg pf d"
  shows "prints_back fp sg pf (Cons a d)" "tail_back fp sg pf (Cons a d)"
    "reads fp sg LIST (print_value pf True a @ print_tail pf True d @ CHR '')'' # rest') (Cons a d) rest'"
proof -
  obtain c t where p: "print_value pf True a = c # t" "c \<noteq> CHR '')''"
    and sk: "\<And>rest. skip_whitespace (c # t @ rest) = c # t @ rest"
      "\<And>rest. skip_whitespace (CHR '' '' # c # t @ rest) = c # t @ rest"
    by (rule skip_printed [OF a(1)]) blast
  note ne = readable_not_error [OF a(1)] readable_not_error [OF d(1)]
  have e: "reads fp sg EXPR (c # t @ print_tail pf True d @ CHR '')'' # rest) a (print_tail pf True d @ CHR '')'' # rest)" for rest
    using prints_backD [OF a(2) delim_tail, of pf d rest] by (simp add: p(1))
  have r: "reads fp sg REST (print_tail pf True d @ CHR '')'' # rest) d rest" for rest
    using d(2) by (simp add: tail_back_def)
  have l: "reads fp sg LIST (c # t @ print_tail pf True d @ CHR '')'' # rest) (Cons a d) rest" for rest
    by (rule reads_step [where calls = "[(EXPR, c # t @ print_tail pf True d @ CHR '')'' # rest, a, print_tail pf True d @ CHR '')'' # rest),
          (REST, print_tail pf True d @ CHR '')'' # rest, d, rest)]"])
      (use e r p(2) ne sk in \<open>auto simp: read_list_def\<close>)
  show "reads fp sg LIST (print_value pf True a @ print_tail pf True d @ CHR '')'' # rest') (Cons a d) rest'"
    using l by (simp add: p(1))
  show "prints_back fp sg pf (Cons a d)"
    unfolding prints_back_def
  proof (intro allI impI)
    fix rest assume "delim_start rest"
    show "reads fp sg EXPR (print_value pf True (Cons a d) @ rest) (Cons a d) rest"
      by (rule reads_step [where calls = "[(LIST, c # t @ print_tail pf True d @ CHR '')'' # rest, Cons a d, rest)]"])
        (use l in \<open>auto simp: read_expr_def p(1)\<close>)
  qed
  show "tail_back fp sg pf (Cons a d)"
    unfolding tail_back_def
  proof
    fix rest
    show "reads fp sg REST (print_tail pf True (Cons a d) @ CHR '')'' # rest) (Cons a d) rest"
      by (rule reads_step [where calls = "[(EXPR, c # t @ print_tail pf True d @ CHR '')'' # rest, a, print_tail pf True d @ CHR '')'' # rest),
          (REST, print_tail pf True d @ CHR '')'' # rest, d, rest)]"])
        (use e r p ne sk in \<open>auto simp: read_list_rest_def simp del: skip_whitespace.simps\<close>)
  qed
qed

text \<open>An atom in the tail of a list is printed after a dot.\<close>

lemma dotted_back:
  assumes v: "readable v" "prints_back fp sg pf v"
    and pt: "print_tail pf True v = '' . '' @ print_value pf True v"
  shows "tail_back fp sg pf v"
  unfolding tail_back_def
proof
  fix rest
  obtain c t where p: "print_value pf True v = c # t" "c \<noteq> CHR '')''"
    and sk: "\<And>rest. skip_whitespace (CHR '' '' # c # t @ rest) = c # t @ rest"
    by (rule skip_printed [OF v(1), of pf]) blast
  have dot: "reads fp sg EXPR (CHR ''.'' # CHR '' '' # c # t @ CHR '')'' # rest) g_sym_dot (CHR '' '' # c # t @ CHR '')'' # rest)"
    by (intro readsI read_dot_printed) simp
  have e: "reads fp sg EXPR (c # t @ CHR '')'' # rest) v (CHR '')'' # rest)"
    using prints_backD [OF v(2), of "CHR '')'' # rest"] by (simp add: p(1))
  have sd: "skip_whitespace (CHR '' '' # CHR ''.'' # x) = CHR ''.'' # x" "skip_whitespace (CHR '')'' # x) = CHR '')'' # x" for x
    by (simp_all add: is_whitespace_def)
  have nd: "g_sym_dot \<noteq> g_sym_read_error" by (simp add: g_sym_dot_def g_sym_read_error_def)
  show "reads fp sg REST (print_tail pf True v @ CHR '')'' # rest) v rest"
    by (rule reads_step [where calls = "[(EXPR, CHR ''.'' # CHR '' '' # c # t @ CHR '')'' # rest, g_sym_dot, CHR '' '' # c # t @ CHR '')'' # rest),
          (EXPR, c # t @ CHR '')'' # rest, v, CHR '')'' # rest)]"])
      (use dot e readable_not_error [OF v(1)] sk sd nd in \<open>auto simp: read_list_rest_def pt p(1) simp del: skip_whitespace.simps\<close>)
qed

definition list_of :: "lval list \<Rightarrow> lval" where
  "list_of es = foldr Cons es Nil"

lemma list_of_simps [simp]: "list_of [] = Nil" "list_of (e # es) = Cons e (list_of es)"
  by (simp_all add: list_of_def)

lemma list_of_facts [simp]:
  "is_proper_list (list_of es)" "list_elems (list_of es) = es"
  "readable (list_of es) = list_all readable es"
  "print_tail pf True (list_of es) = concat (map (\<lambda>e. '' '' @ print_value pf True e) es)"
  by (induction es) simp_all

lemma print_row:
  "print_array_row [] (length ss) False ss = (concat (map (\<lambda>s. '' '' @ s) ss), [])"
  by (induction ss) simp_all

lemma print_vector_list:
  "print_value pf True (Vec [length es] es) =
     ''#('' @ (case es of [] \<Rightarrow> [] | e # es' \<Rightarrow> print_value pf True e @ print_tail pf True (list_of es')) @ '')''"
proof (cases es)
  case (Cons e es')
  have "print_array_row [] (length es') False (map (print_value pf True) es') =
      (concat (map (\<lambda>e. '' '' @ print_value pf True e) es'), [])"
    using print_row [of "map (print_value pf True) es'"] by (simp add: comp_def)
  then show ?thesis by (simp add: Cons print_vector_def Let_def)
qed (simp add: print_vector_def Let_def)

lemma vector_back:
  assumes "\<And>e. e \<in> set es \<Longrightarrow> prints_back fp sg pf e" "list_all readable es"
  shows "prints_back fp sg pf (Vec [length es] es)"
  unfolding prints_back_def
proof (intro allI impI)
  fix rest assume "delim_start rest"
  have t: "tail_back fp sg pf (list_of es')" if "set es' \<subseteq> set es" for es'
    using that
  proof (induction es')
    case (Cons e es')
    then show ?case
      using list_back(2) [of e fp sg pf "list_of es'"] assms by (auto simp: list_all_iff)
  qed (simp add: tail_Nil)
  define body where "body = (case es of [] \<Rightarrow> [] | e # es' \<Rightarrow> print_value pf True e @ print_tail pf True (list_of es'))"
  have l: "reads fp sg LIST (body @ CHR '')'' # rest) (list_of es) rest"
  proof (cases es)
    case Nil
    then show ?thesis unfolding body_def by (intro readsI) (simp add: read_list_def is_whitespace_def)
  next
    case (Cons e es')
    have "readable e" "readable (list_of es')" "prints_back fp sg pf e" "tail_back fp sg pf (list_of es')"
      using assms t [of es'] by (auto simp: Cons list_all_iff)
    from list_back(3) [OF this(1,3,2,4), of rest] show ?thesis by (simp add: body_def Cons)
  qed
  have ne: "list_of es \<noteq> g_sym_read_error" by (cases es) (simp_all add: g_sym_read_error_def)
  have h: "reads fp sg HASH (CHR ''('' # body @ CHR '')'' # rest) (Vec [length es] es) rest"
    by (rule reads_step [where calls = "[(LIST, body @ CHR '')'' # rest, list_of es, rest)]"])
      (use l ne in \<open>auto simp: read_hash_def os_make_vector_from_list_def\<close>)
  show "reads fp sg EXPR (print_value pf True (Vec [length es] es) @ rest) (Vec [length es] es) rest"
    unfolding print_vector_list body_def [symmetric]
    by (rule reads_step [where calls = "[(HASH, CHR ''('' # body @ CHR '')'' # rest, Vec [length es] es, rest)]"])
      (use h in \<open>auto simp: read_expr_def\<close>)
qed

lemma char_back:
  assumes "is_byte_char w"
  shows "prints_back fp sg pf (Imm w)"
  unfolding prints_back_def
proof (intro allI impI)
  fix rest assume d: "delim_start rest"
  obtain c where w: "w = os_make_char_from_code (of_nat (code c))" by (rule is_byte_charE [OF assms])
  let ?n = "(if c = CHR '' '' then ''space'' else if c = CHR 0x0A then ''newline''
        else if c = CHR 0x09 then ''tab'' else [c])"
  have r: "read_char_literal (?n @ rest) = (Imm w, rest)"
    unfolding read_char_printed [OF d] by (simp only: os_make_char_def w)
  have h: "reads fp sg HASH (CHR 0x5C # ?n @ rest) (Imm w) rest"
    by (intro readsI) (simp only: read_rec.simps read_mode.case read_hash_def list.case r got_def fst_conv snd_conv, simp)
  show "reads fp sg EXPR (print_value pf True (Imm w) @ rest) (Imm w) rest"
    unfolding print_byte_char [OF w] append.simps
    by (rule reads_step [where calls = "[(HASH, CHR 0x5C # ?n @ rest, Imm w, rest)]"])
      (use h in \<open>simp_all only: read_expr_def list.set list.case read_mode.case insert_iff empty_iff\<close>, auto)
qed

lemma printed_reads_back:
  "readable v \<Longrightarrow> prints_back fp sg pf v \<and> tail_back fp sg pf v"
proof (induction v)
  case (Cons a d)
  then have "readable a" "readable d" "prints_back fp sg pf a" "tail_back fp sg pf d" by auto
  then show ?case using list_back(1,2) by blast
next
  case Nil
  have "prints_back fp sg pf Nil"
    unfolding prints_back_def by (auto intro!: readsI read_nil_printed simp del: read_rec.simps append.simps)
  then show ?case using tail_Nil by blast
next
  case (Imm w)
  have "prints_back fp sg pf (Imm w)"
  proof (cases "fixnum_wf w")
    case True
    have "length (print_value pf True (Imm w)) \<le> 127"
      using True print_fixnum_length [of "os_fixnum_magnitude w"]
      by (simp add: print_imm_def Let_def fixnum_wf_def)
    then show ?thesis
      unfolding prints_back_def using True
      by (auto intro!: readsI read_int_printed simp del: read_rec.simps print_value.simps)
  next
    case False
    then show ?thesis using Imm by (simp add: char_back)
  qed
  then show ?case using dotted_back [OF Imm] by simp
next
  case (Sym n)
  have "prints_back fp sg pf (Sym n)"
    unfolding prints_back_def using Sym by (auto intro!: readsI read_symbol_printed simp del: read_rec.simps)
  then show ?case using dotted_back [OF Sym] by simp
next
  case (Str bs)
  have "prints_back fp sg pf (Str bs)"
    unfolding prints_back_def using Str by (auto intro!: readsI read_string_printed simp del: read_rec.simps)
  then show ?case using dotted_back [OF Str] by simp
next
  case (Bignum s ls)
  have "prints_back fp sg pf (Bignum s ls)"
    unfolding prints_back_def
    by (intro allI impI readsI read_int_printed) (use Bignum in simp_all)
  then show ?case using dotted_back [OF Bignum] by simp
next
  case (Vec ds es)
  then have "prints_back fp sg pf (Vec ds es)" using vector_back [of es fp sg pf] by (auto simp: list_all_iff)
  then show ?case using dotted_back [OF Vec(2)] by simp
qed simp_all

subsection \<open>Properties of reading and printing\<close>

lemma starts_expr: "starts s \<Longrightarrow> expr_start (s @ t)"
  using starts_append [of s t] by (simp add: starts_def)

lemma os_read_printed:
  assumes "reads fp sg EXPR (s @ rest) v rest" "expr_start (s @ rest)"
  shows "os_read_stream fp sg (s @ rest) = Got v rest"
proof -
  obtain n where "read_rec fp sg n EXPR (s @ rest) = Got v rest" using assms(1) by (auto simp: reads_def)
  from read_rec_enough [OF this _ assms(2)]
  have "read_rec fp sg (2 * length (s @ rest)) EXPR (s @ rest) = Got v rest" by simp
  then show ?thesis
    using skip_whitespace_id [OF assms(2)] assms(2)
    by (cases "s @ rest") (simp_all add: os_read_stream_def expr_start_def del: read_rec.simps skip_whitespace.simps)
qed

text \<open>
  C2. Whatever \<open>print_value\<close> writes in the \<open>prin1\<close> form for a readable value, \<open>os_read_stream\<close>
  reads back as that value and stops where the printed text ends.
\<close>

theorem read_print_roundtrip:
  assumes "readable v" "delim_start rest"
  shows "os_read_stream fp sg (print_value pf True v @ rest) = Got v rest"
  using printed_reads_back [OF assms(1), of fp sg pf] assms
  by (intro os_read_printed starts_expr starts_printed) (simp_all add: prints_back_def)

theorem read_print_roundtrip_witness:
  "\<forall>fp sg pf. os_read_stream fp sg (print_value pf True
      (Cons (Str [CHR 0x22, CHR ''a'']) (Cons (Vec [1] [Bignum True [0, 0, 1]]) (Imm (os_make_fixnum 7))))) =
     Got (Cons (Str [CHR 0x22, CHR ''a'']) (Cons (Vec [1] [Bignum True [0, 0, 1]]) (Imm (os_make_fixnum 7)))) []"
proof (intro allI)
  fix fp sg pf
  let ?v = "Cons (Str [CHR 0x22, CHR ''a'']) (Cons (Vec [1] [Bignum True [0, 0, 1]]) (Imm (os_make_fixnum 7)))"
  have "length (print_bignum True [0, 0, 1]) \<le> 127" by code_simp
  then have "readable ?v" by (simp add: imm_eval)
  from read_print_roundtrip [OF this, of "[]" fp sg pf] show "os_read_stream fp sg (print_value pf True ?v) = Got ?v []"
    by (simp only: append_Nil2 delim_starts)
qed

text \<open>
  C19. \<open>os_read_stream\<close> returns on every input: the recursion of the reader consumes its source, and
  an expression that is read leaves less of it.
\<close>

theorem os_read_returns:
  "os_read_stream fp sg s \<noteq> NoFuel \<and>
   (skip_whitespace s \<noteq> [] \<longrightarrow> (\<forall>v rest. os_read_stream fp sg s = Got v rest \<longrightarrow> length rest < length s))"
proof (cases "skip_whitespace s")
  case (Cons c s1)
  then have e: "expr_start (c # s1)" using skip_whitespace_start [of s] by simp
  have "fuel_ok EXPR (2 * length (c # s1)) (c # s1)" using e by (simp add: fuel_ok_def)
  from good_readerD [OF read_rec_good this, of fp sg]
  have "consumes EXPR (c # s1) (os_read_stream fp sg s)"
    using Cons by (simp add: os_read_stream_def del: read_rec.simps)
  then show ?thesis using skip_whitespace_length [of s] Cons by (auto simp: consumes_def)
qed (simp add: os_read_stream_def)

theorem os_read_returns_witness:
  "\<forall>fp sg. os_read_stream fp sg ''() x'' = Got Nil '' x'' \<and> os_read_stream fp sg ''((('' \<noteq> NoFuel \<and>
     length '' x'' < length ''() x''"
proof (intro allI conjI)
  fix fp sg
  show r: "os_read_stream fp sg ''() x'' = Got Nil '' x''" by code_simp
  show "os_read_stream fp sg ''((('' \<noteq> NoFuel" using os_read_returns by blast
  have "skip_whitespace ''() x'' \<noteq> []" by code_simp
  then show "length '' x'' < length ''() x''" using os_read_returns [of fp sg "''() x''"] r by blast
qed

definition READER_INT_LIMBS :: nat where "READER_INT_LIMBS = 16"

lemma carry_out_last: "carry \<noteq> 0 \<Longrightarrow> unat carry < 4294967296 \<Longrightarrow> mag_carry_out 2 carry = [carry]"
proof -
  assume c: "carry \<noteq> 0" "unat carry < 4294967296"
  have "unat (drop_bit 32 carry) = 0" using c(2) by (simp only: unat_hi32)
  then have "drop_bit 32 carry = 0" by (simp only: unat_eq_zero)
  moreover have "unat (carry AND 0xFFFFFFFF) = unat carry" using c(2) by (simp only: unat_lo32) simp
  then have "carry AND 0xFFFFFFFF = carry" by (simp only: word_eq_iff_unat)
  ultimately show ?thesis using c(1) by (simp add: numeral_2_eq_2)
qed

text \<open>
  One step of the accumulation: either no limb is added, or one non-zero limb is. The
  limbs that are written, before they are trimmed, are bounded by the value.
\<close>

lemma mul_small_loop_length:
  "limbs_ok limbs \<Longrightarrow> unat m \<le> 16 \<Longrightarrow> unat c < 16 \<Longrightarrow>
     length (mag_mul_small_loop limbs m c) \<le> length limbs \<or>
     (length (mag_mul_small_loop limbs m c) = Suc (length limbs) \<and> last (mag_mul_small_loop limbs m c) \<noteq> 0)"
proof (induction limbs arbitrary: c)
  case Nil
  then show ?case using carry_out_last [of c] by (cases "c = 0") (simp_all add: numeral_2_eq_2)
next
  case (Cons x limbs)
  have x: "unat x < 4294967296" using Cons.prems(1) by simp
  have "unat x * unat m \<le> 4294967295 * 16" using x Cons.prems(2) by (intro mult_le_mono) simp_all
  then have lt: "unat x * unat m + unat c < 4294967296 * 16" using Cons.prems(3) by simp
  then have "unat (x * m) = unat x * unat m" by (intro unat_mult_no_wrap64) simp
  then have p: "unat (x * m + c) = unat x * unat m + unat c"
    using lt by (subst unat_add_no_wrap64) simp_all
  have "unat (drop_bit 32 (x * m + c)) < 16"
    unfolding unat_hi32 p using lt by (intro less_mult_imp_div_less) simp
  from Cons.IH [OF _ Cons.prems(2) this] Cons.prems(1) show ?case
    by (auto simp: Let_def)
qed

lemma mul_small_add_room:
  assumes "limbs_ok limbs" "length limbs \<le> READER_INT_LIMBS" "unat m \<le> 16" "unat c < 16"
    "mag_val limbs * unat m + unat c < 2 ^ 512"
  shows "length (mag_mul_small_loop limbs m c) \<le> READER_INT_LIMBS"
proof (rule ccontr)
  let ?r = "mag_mul_small_loop limbs m c"
  assume big: "\<not> length ?r \<le> READER_INT_LIMBS"
  then have l: "length ?r = 17" "last ?r \<noteq> 0"
    using mul_small_loop_length [OF assms(1,3,4)] assms(2) by (auto simp: READER_INT_LIMBS_def)
  have v: "mag_val ?r = mag_val limbs * unat m + unat c"
    using mag_mul_small_loop_val [OF assms(1), of m c] assms(3,4) by simp
  have "(2::nat) ^ 512 = 2 ^ (32 * (length ?r - 1))" by (simp add: l(1))
  also have "\<dots> \<le> mag_val ?r" using l by (intro mag_val_lower) auto
  finally show False using assms(5) v by simp
qed

lemma digit_value_bound: "digit_value_in_radix c radix = Some v \<Longrightarrow> v < radix"
  by (auto simp: digit_value_in_radix_def Let_def split: option.splits if_splits)

definition radix_val :: "nat \<Rightarrow> string \<Rightarrow> nat" where
  "radix_val radix ds = foldl (\<lambda>n c. n * radix + the (digit_value_in_radix c radix)) 0 ds"

lemma radix_val_bound:
  assumes "0 < radix" "list_all (\<lambda>c. digit_value_in_radix c radix \<noteq> None) ds"
  shows "radix_val radix ds < radix ^ length ds"
  using assms(2)
proof (induction ds rule: rev_induct)
  case Nil
  then show ?case using assms(1) by (simp add: radix_val_def)
next
  case (snoc c ds)
  then obtain v where v: "digit_value_in_radix c radix = Some v" by auto
  have "radix_val radix ds + 1 \<le> radix ^ length ds" using snoc by (simp add: Suc_leI)
  then have "(radix_val radix ds + 1) * radix \<le> radix ^ length ds * radix" by (rule mult_le_mono1)
  then show ?case using digit_value_bound [OF v] v by (simp add: radix_val_def mult.commute)
qed

text \<open>The limbs after the first digits, as the accumulation in \<open>read_radix_integer\<close> leaves them.\<close>

lemma radix_loop_limbs:
  assumes "radix \<le> 16" "0 < radix" "length ds \<le> 127" "list_all (\<lambda>c. digit_value_in_radix c radix \<noteq> None) ds"
  shows "\<exists>ls. radix_loop radix [0] ds = Some ls \<and> limbs_ok ls \<and> ls \<noteq> [] \<and> mag_val ls = radix_val radix ds \<and>
    length ls \<le> READER_INT_LIMBS"
  using assms(3,4)
proof (induction ds rule: rev_induct)
  case Nil
  then show ?case by (simp add: radix_val_def READER_INT_LIMBS_def)
next
  case (snoc c ds)
  then obtain ls where ls: "radix_loop radix [0] ds = Some ls" "limbs_ok ls" "ls \<noteq> []"
    "mag_val ls = radix_val radix ds" "length ls \<le> READER_INT_LIMBS" by auto
  obtain v where v: "digit_value_in_radix c radix = Some v" using snoc.prems by auto
  have vb: "v < radix" by (rule digit_value_bound [OF v])
  have app: "radix_loop radix l (ds @ [c]) =
      (case radix_loop radix l ds of None \<Rightarrow> None
       | Some ls \<Rightarrow> Some (mag_mul_small_add_small ls (of_nat radix) (of_nat v)))" for l
    by (induction ds arbitrary: l) (simp_all add: v split: option.split)
  have u: "unat (of_nat radix :: u64) = radix" "unat (of_nat v :: u64) = v"
    using assms(1) vb by (simp_all add: unsigned_of_nat take_bit_nat_eq_self)
  have rv: "radix_val radix (ds @ [c]) = radix_val radix ds * radix + v" by (simp add: radix_val_def v)
  have "radix_val radix (ds @ [c]) < radix ^ length (ds @ [c])"
    by (rule radix_val_bound [OF assms(2) snoc.prems(2)])
  also have "\<dots> \<le> 16 ^ length (ds @ [c])" by (rule power_mono [OF assms(1)]) simp
  also have "(16::nat) ^ length (ds @ [c]) \<le> 16 ^ 127" using snoc.prems(1) by (intro power_increasing) simp_all
  also have "(16::nat) ^ 127 < 2 ^ 512" by (simp add: power_mult [of 2 4, symmetric, simplified])
  finally have "mag_val ls * unat (of_nat radix :: u64) + unat (of_nat v :: u64) < 2 ^ 512"
    unfolding u ls(4) rv .
  from mul_small_add_room [OF ls(2,5) _ _ this]
  have "length (mag_mul_small_loop ls (of_nat radix) (of_nat v)) \<le> READER_INT_LIMBS"
    using assms(1) vb by (simp add: u)
  then have "length (mag_mul_small_add_small ls (of_nat radix) (of_nat v)) \<le> READER_INT_LIMBS"
    unfolding mag_mul_small_add_small_def by (rule order.trans [OF length_trim_le])
  then show ?case
    using mag_mul_small_add_small_val [OF ls(2), of "of_nat radix" "of_nat v"] assms(1) vb ls(3)
    unfolding app ls(1) by (simp add: u rv ls(4) mag_mul_small_add_small_nonempty)
qed

text \<open>
  An integer token of up to 127 digits in radix 2, 8 or 16 is read as the integer it
  writes, and the limb array on the stack, \<open>READER_INT_LIMBS\<close> words, is never exceeded.
\<close>

theorem radix_integer_correct:
  assumes "radix \<le> 16" "0 < radix" "ds \<noteq> []" "length ds \<le> 127"
    "list_all (\<lambda>c. digit_value_in_radix c radix \<noteq> None) ds" "delim_start rest"
  shows "\<exists>v. read_radix_integer (ds @ rest) radix = (v, rest) \<and> wf_int v \<and> ival v = int (radix_val radix ds) \<and>
    (\<exists>ls. radix_loop radix [0] ds = Some ls \<and> length ls \<le> READER_INT_LIMBS)"
proof -
  have dv: "\<not> is_delimiter c \<and> c \<noteq> CHR ''-'' \<and> c \<noteq> CHR ''+''" if "c \<in> set ds" for c
  proof -
    have "digit_value_in_radix c radix \<noteq> None" using assms(5) that by (simp add: list_all_iff)
    then show ?thesis
      by (auto simp: digit_value_in_radix_def Let_def is_delimiter_def is_whitespace_def code_def split: if_splits)
  qed
  obtain c cs where ds: "ds = c # cs" using assms(3) by (cases ds) auto
  have t: "token_loop [] (ds @ rest) = (ds, rest)"
    by (rule token_loop_exact [OF assms(4) _ assms(6)]) (use dv in \<open>simp add: list_all_iff\<close>)
  have n: "\<not> token_negative ds" "digit_start ds = 0"
    using dv [of c] by (simp_all add: token_negative_def digit_start_def ds)
  obtain ls where ls: "radix_loop radix [0] ds = Some ls" "limbs_ok ls" "ls \<noteq> []" "mag_val ls = radix_val radix ds"
    "length ls \<le> READER_INT_LIMBS"
    using radix_loop_limbs [OF assms(1,2,4,5)] by blast
  have "read_radix_integer (ds @ rest) radix = (os_make_integer False ls, rest)"
    using assms(3) by (simp add: read_radix_integer_def t n ls(1))
  then show ?thesis using os_make_integer_wf [OF ls(2,3), of False] ls(1,4,5) by simp
qed

text \<open>
  A decimal numeral longer than the 127 characters of the token buffer is read as the
  integer its first 127 digits write, with no error: the rest of the digits is dropped.
\<close>

theorem long_numeral_truncated:
  assumes "list_all is_digit ds" "127 < length ds" "delim_start rest"
  shows "os_read_stream fp sg (ds @ rest) = Got (read_decimal False (take 127 ds)) rest \<and>
    ival (read_decimal False (take 127 ds)) = int (dec_val (take 127 ds))"
proof -
  have nd: "\<not> is_delimiter c" if "c \<in> set ds" for c
    using assms(1) digit_not_special [of c] that by (simp add: list_all_iff)
  obtain c cs where ds: "ds = c # cs" using assms(2) by (cases ds) auto
  have tw: "takeWhile (\<lambda>c. \<not> is_delimiter c) (ds @ rest) = ds" "dropWhile (\<lambda>c. \<not> is_delimiter c) (ds @ rest) = rest"
    using nd assms(3) by (cases rest; simp add: delim_start_def)+
  have d: "list_all is_digit (take 127 ds)" using assms(1) by (rule list_all_take)
  have "atom_of_token fp sg (take 127 ds) = read_decimal False (take 127 ds)"
    using atom_of_numeral [OF d, of fp sg False] by (simp add: ds)
  then have "read_atom fp sg (ds @ rest) = (read_decimal False (take 127 ds), rest)"
    by (simp add: read_atom_def token_loop_eq tw)
  moreover have c: "is_digit c" using assms(1) by (simp add: ds)
  ultimately have "reads fp sg EXPR (ds @ rest) (read_decimal False (take 127 ds)) rest"
    using digit_not_special [OF c]
    by (intro readsI) (auto simp: ds read_expr_def got_def is_delimiter_def)
  moreover have "expr_start (ds @ rest)" using digit_not_special [OF c] by (simp add: expr_start_def ds)
  ultimately show ?thesis
    using os_read_printed [of fp sg ds rest] read_decimal_int(2) [OF d, of False] by simp
qed

text \<open>
  An array literal whose later rows are longer than its first can make the reader write
  beyond the block it allocated: the elements are stored before the lengths are compared, and
  only what fits the rounding of the block to 16 bytes does no harm.
\<close>

theorem ragged_array_overruns:
  "os_read_stream fp sg ''#2A((1) (2 3 4))'' = HeapOverrun \<and>
   os_read_stream fp sg ''#2A((1) (2 3))'' = Got g_sym_read_error [] \<and>
   os_read_stream fp sg ''#2A((1 2) (3))'' = Got g_sym_read_error []"
  by (intro conjI; code_simp)

text \<open>
  \<open>parse-number\<close> of the text the printer writes for an integer is that integer.
\<close>

theorem parse_number_printed:
  assumes "wf_int v" "length (print_value pf True v) \<le> 127"
  shows "os_parse_number fp sg (print_value pf True v) = Inr (Got v [])"
proof -
  let ?s = "print_value pf True v"
  obtain s ds where p: "?s = (if s then ''-'' else []) @ ds" "list_all is_digit ds" "ds \<noteq> []"
    by (rule print_int_shape [OF assms(1)])
  have "\<not> is_digit (CHR 0x00)" by (simp add: is_digit_def code_def)
  then have "cstr ?s = ?s"
    using p by (intro cstr_id) (auto simp: list_all_iff)
  moreover have "take 127 ?s = ?s" using assms(2) by simp
  ultimately have c: "cstr (take (READER_TOKEN_MAX - 1) ?s) = ?s" by (simp only: READER_TOKEN_MAX_def) simp
  have ne: "?s \<noteq> []" "expr_start ?s" using p(3) starts_int [OF assms(1), of pf] by (simp_all add: p(1) starts_def)
  have "read_rec fp sg 1 EXPR (?s @ []) = Got v []"
    unfolding One_nat_def by (rule read_int_printed [OF assms]) simp
  then have r: "read_rec fp sg (2 * length ?s) EXPR ?s = Got v []"
    using read_rec_enough [of fp sg 1 ?s "Got v []"] ne(2) by simp
  have "v \<noteq> g_sym_read_error" using assms(1) by (auto simp: g_sym_read_error_def)
  then show ?thesis
    using ne(1) wf_int_number(1) [OF assms(1)] unfolding os_parse_number_def c Let_def r by simp
qed

end
