(* ===== verification/Format.thy ===== *)
theory Format
  imports StreamLisp ReadPrint
begin

unbundle bit_operations_syntax

text \<open>
  The directives of \<^verbatim>\<open>src/c/format.c\<close>: integers in a radix, characters, objects, columns, and the
  loop over a format string. A sink that writes to a stream is \<open>write_text\<close> on it; the printer is
  \<open>print_value\<close>, with its parameter \<open>pf\<close> for floats. \<open>None\<close> is an access outside an object, a read of
  more objects than there are, a digit behind the array of 64, or a division by zero.
\<close>

subsection \<open>Integers in a radix\<close>

definition digit_of :: "u64 \<Rightarrow> char" where
  "digit_of d = byte_char (if d < 10 then 48 + ucast d else 65 + ucast (d - 10))"

text \<open>The loop that fills \<open>digits[64]\<close>, from the last digit to the first.\<close>

function digits_loop :: "u64 \<Rightarrow> u64 \<Rightarrow> string \<Rightarrow> string option" where
  "digits_loop radix magnitude digits =
     (if magnitude = 0 then Some digits
      else if radix = 0 \<or> 64 \<le> length digits then None
      else digits_loop radix (magnitude div radix) (digits @ [digit_of (magnitude mod radix)]))"
  by auto
termination by (relation "measure (\<lambda>(radix, magnitude, digits). 64 - length digits)") auto

declare digits_loop.simps [simp del]

text \<open>What is written for \<open>integer\<close>; \<open>radix\<close> is the C \<open>int\<close>, which the loop converts to 64 bits.\<close>

definition format_integer_write :: "(lval \<Rightarrow> string) \<Rightarrow> lval \<Rightarrow> u32 \<Rightarrow> string option" where
  "format_integer_write pf integer radix =
     (case integer of
        Imm w \<Rightarrow>
          (let sign = (if os_fixnum_is_negative w then ''-'' else []);
               magnitude = os_fixnum_magnitude w
           in if magnitude = 0 then Some (sign @ ''0'')
              else map_option (\<lambda>digits. sign @ rev digits) (digits_loop (scast radix) magnitude []))
      | Bignum _ _ \<Rightarrow> Some (print_value pf False integer)
      | DFloat _ \<Rightarrow> Some (print_value pf False integer)
      | Vec _ _ \<Rightarrow> Some (print_value pf False integer)
      | Obj _ _ \<Rightarrow> Some (print_value pf False integer)
      | _ \<Rightarrow> None)"

definition char_of_value :: "lval \<Rightarrow> char option" where
  "char_of_value v = (case v of Imm w \<Rightarrow> Some (byte_char (ucast (drop_bit CHAR_VALUE_SHIFT w))) | _ \<Rightarrow> None)"

subsection \<open>The loop over the format string\<close>

text \<open>The number before a directive, in 32 bits, and whether there is one.\<close>

fun parse_number_prefix :: "u32 \<Rightarrow> bool \<Rightarrow> string \<Rightarrow> u32 \<times> bool \<times> string" where
  "parse_number_prefix num has_num (c # data) =
     (if is_digit c then parse_number_prefix (num * 10 + (ucast (char_byte c) - 48)) True data
      else (num, has_num, c # data))"
| "parse_number_prefix num has_num [] = (num, has_num, [])"

lemma parse_number_prefix_length: "parse_number_prefix num has_num data = (n, h, rest) \<Longrightarrow> length rest \<le> length data"
  by (induction num has_num data rule: parse_number_prefix.induct) (auto split: if_splits)

definition tab_spaces :: "u32 \<Rightarrow> u32 \<Rightarrow> string" where
  "tab_spaces target current = replicate (unat (if current < target then target - current else 1)) (CHR '' '')"

text \<open>What a directive writes, given the column \<open>col\<close>, and the objects it leaves.\<close>

definition directive_text :: "(lval \<Rightarrow> string) \<Rightarrow> char \<Rightarrow> u32 \<Rightarrow> bool \<Rightarrow> u32 \<Rightarrow> lval list \<Rightarrow> (string \<times> lval list) option" where
  "directive_text pf directive num has_num col objs =
     (let obj = (\<lambda>f. case objs of [] \<Rightarrow> None | obj # objs \<Rightarrow> map_option (\<lambda>str. (str, objs)) (f obj))
      in if directive \<in> {CHR ''A'', CHR ''a''} then obj (\<lambda>v. Some (print_value pf False v))
         else if directive \<in> {CHR ''S'', CHR ''s''} then obj (\<lambda>v. Some (print_value pf True v))
         else if directive \<in> {CHR ''B'', CHR ''b''} then obj (\<lambda>v. format_integer_write pf v 2)
         else if directive \<in> {CHR ''O'', CHR ''o''} then obj (\<lambda>v. format_integer_write pf v 8)
         else if directive \<in> {CHR ''D'', CHR ''d''} then obj (\<lambda>v. format_integer_write pf v 10)
         else if directive \<in> {CHR ''X'', CHR ''x''} then obj (\<lambda>v. format_integer_write pf v 16)
         else if directive \<in> {CHR ''R'', CHR ''r''} then obj (\<lambda>v. format_integer_write pf v (if has_num then num else 10))
         else if directive \<in> {CHR ''C'', CHR ''c''} then obj (\<lambda>v. map_option (\<lambda>c. [c]) (char_of_value v))
         else if directive \<in> {CHR ''G'', CHR ''g''} then obj (\<lambda>v. Some (pf v))
         else if directive \<in> {CHR ''T'', CHR ''t''} then Some (tab_spaces (if has_num then num else 0) col, objs)
         else if directive = CHR ''%'' then Some ([CHR 0x0A], objs)
         else if directive = CHR ''&'' then Some (if col \<noteq> 0 then [CHR 0x0A] else [], objs)
         else if directive = CHR ''~'' then Some (''~'', objs)
         else Some ([], objs))"

function format_loop ::
  "(lval \<Rightarrow> string) \<Rightarrow> ('d, 'w, 'n, 't) drivers \<Rightarrow> string \<Rightarrow> lval list \<Rightarrow> ('w, 'n, 't) os_stream \<Rightarrow> ('d, 'w) io \<Rightarrow>
   (bool \<times> ('w, 'n, 't) os_stream \<times> ('d, 'w) io) option" where
  "format_loop pf D [] objs s i = Some (True, s, i)"
| "format_loop pf D (c # data) objs s i =
     (if c \<noteq> CHR ''~''
      then (case write_text D [c] s i of None \<Rightarrow> None | Some (_, s, i) \<Rightarrow> format_loop pf D data objs s i)
      else case parse_number_prefix 0 False data of
          (num, has_num, []) \<Rightarrow> Some (True, s, i)
        | (num, has_num, directive # data) \<Rightarrow>
            (case directive_text pf directive num has_num (column s) objs of
               None \<Rightarrow> None
             | Some (str, objs) \<Rightarrow>
                 (case write_text D str s i of None \<Rightarrow> None | Some (_, s, i) \<Rightarrow> format_loop pf D data objs s i)))"
  by pat_completeness auto
termination
  by (relation "measure (\<lambda>(pf, D, data, objs, s, i). length data)") (auto dest!: parse_number_prefix_length [OF sym])

subsection \<open>The Lisp functions\<close>

text \<open>A function that writes to the stream of its first argument and returns \<^verbatim>\<open>nil\<close>.\<close>

definition writing_nil ::
  "(('w, 't) lisp_stream \<Rightarrow> ('d, 'w lisp_world) io \<Rightarrow> (bool \<times> ('w, 't) lisp_stream \<times> ('d, 'w lisp_world) io) option) \<Rightarrow> lval \<Rightarrow> ('d, 'w, 't) cc" where
  "writing_nil f stream sys =
     (case with_stream stream f sys of
        None \<Rightarrow> None
      | Some (_, sys) \<Rightarrow> take_transfer stream (returning Nil) sys)"

definition cc_format :: "(lval \<Rightarrow> string) \<Rightarrow> ('d, 'w, 't) lisp_drivers \<Rightarrow> lval list \<Rightarrow> ('d, 'w, 't) cc" where
  "cc_format pf D args sys =
     (case args of
        stream # Str data # objs \<Rightarrow> writing_nil (format_loop pf D data objs) stream sys
      | _ \<Rightarrow> None)"

definition cc_format_char :: "('d, 'w, 't) lisp_drivers \<Rightarrow> lval list \<Rightarrow> ('d, 'w, 't) cc" where
  "cc_format_char D args sys =
     (case args of
        stream # v # _ \<Rightarrow>
          (case char_of_value v of None \<Rightarrow> None | Some ch \<Rightarrow> writing_nil (os_stream_write_char D ch) stream sys)
      | _ \<Rightarrow> None)"

definition cc_format_float :: "(lval \<Rightarrow> string) \<Rightarrow> ('d, 'w, 't) lisp_drivers \<Rightarrow> lval list \<Rightarrow> ('d, 'w, 't) cc" where
  "cc_format_float pf D args sys =
     (case args of stream # v # _ \<Rightarrow> writing_nil (write_text D (pf v)) stream sys | _ \<Rightarrow> None)"

definition cc_format_fresh_line :: "('d, 'w, 't) lisp_drivers \<Rightarrow> lval list \<Rightarrow> ('d, 'w, 't) cc" where
  "cc_format_fresh_line D args sys =
     (case args of
        stream # _ \<Rightarrow> writing_nil (\<lambda>s i. if column s \<noteq> 0 then os_stream_write_char D (CHR 0x0A) s i else Some (True, s, i)) stream sys
      | _ \<Rightarrow> None)"

text \<open>\<open>cc_format_integer\<close> is the one that does not look for a control transfer.\<close>

definition cc_format_integer :: "(lval \<Rightarrow> string) \<Rightarrow> ('d, 'w, 't) lisp_drivers \<Rightarrow> lval list \<Rightarrow> ('d, 'w, 't) cc" where
  "cc_format_integer pf D args sys =
     (case args of
        stream # integer # Imm radix # _ \<Rightarrow>
          (case format_integer_write pf integer (ucast (os_fixnum_magnitude radix)) of
             None \<Rightarrow> None
           | Some str \<Rightarrow>
               (case with_stream stream (write_text D str) sys of None \<Rightarrow> None | Some (_, sys) \<Rightarrow> returning Nil sys))
      | _ \<Rightarrow> None)"

definition cc_format_object :: "(lval \<Rightarrow> string) \<Rightarrow> ('d, 'w, 't) lisp_drivers \<Rightarrow> lval list \<Rightarrow> ('d, 'w, 't) cc" where
  "cc_format_object pf D args sys =
     (case args of
        stream # v # escape_p # _ \<Rightarrow> writing_nil (write_text D (print_value pf (escape_p \<noteq> Nil) v)) stream sys
      | _ \<Rightarrow> None)"

definition cc_format_tab :: "('d, 'w, 't) lisp_drivers \<Rightarrow> lval list \<Rightarrow> ('d, 'w, 't) cc" where
  "cc_format_tab D args sys =
     (case args of
        stream # Imm target # _ \<Rightarrow>
          writing_nil (\<lambda>s i. write_text D (tab_spaces (ucast (os_fixnum_magnitude target)) (column s)) s i) stream sys
      | _ \<Rightarrow> None)"

subsection \<open>The numeral\<close>

text \<open>The numeral of a number in a radix, as one writes it.\<close>

definition radix_digit :: "nat \<Rightarrow> char" where
  "radix_digit d = char_of (if d < 10 then 48 + d else 65 + (d - 10))"

function numeral_in :: "nat \<Rightarrow> nat \<Rightarrow> string" where
  "numeral_in radix n = (if radix < 2 \<or> n < radix then [] else numeral_in radix (n div radix)) @ [radix_digit (n mod radix)]"
  by auto
termination by (relation "measure snd") (auto simp: div_less_dividend)

declare numeral_in.simps [simp del]

lemma digit_of_radix_digit:
  assumes "unat d < 36"
  shows "digit_of d = radix_digit (unat d)"
proof (cases "d < 10")
  case True
  then have d: "unat d < 10" by (simp add: word_less_nat_alt)
  have "unat (48 + ucast d :: u8) = 48 + unat d"
    using d by (subst unat_add_lem [THEN iffD1]) (simp_all add: unsigned_ucast_eq take_bit_nat_eq_self)
  then show ?thesis using True d by (simp add: digit_of_def radix_digit_def byte_char_def)
next
  case False
  then have d: "10 \<le> unat d" by (simp add: word_less_nat_alt)
  have m: "unat (d - 10) = unat d - 10" using d by (simp add: unat_sub word_le_nat_alt)
  have "unat (65 + ucast (d - 10) :: u8) = 65 + (unat d - 10)"
    using assms m by (subst unat_add_lem [THEN iffD1]) (simp_all add: unsigned_ucast_eq take_bit_nat_eq_self)
  then show ?thesis using False d by (simp add: digit_of_def radix_digit_def byte_char_def)
qed

lemma digits_loop_numeral:
  assumes "2 \<le> unat radix" "unat radix \<le> 36" "unat m < 2 ^ k" "k + length ds \<le> 64"
  shows "digits_loop radix m ds = Some (ds @ (if m = 0 then [] else rev (numeral_in (unat radix) (unat m))))"
  using assms(3,4)
proof (induction k arbitrary: m ds)
  case 0
  then show ?case by (simp add: digits_loop.simps unat_eq_0)
next
  case (Suc k)
  show ?case
  proof (cases "m = 0")
    case False
    have r: "radix \<noteq> 0" using assms(1) by auto
    have q: "unat (m div radix) = unat m div unat radix" by (simp add: unat_div)
    have "unat m div unat radix \<le> unat m div 2" by (rule div_le_mono2) (use assms(1) in simp_all)
    then have b: "unat (m div radix) < 2 ^ k" using Suc.prems(1) q by simp
    have z: "m div radix = 0 \<longleftrightarrow> unat m < unat radix"
      using q r by (metis div_eq_0_iff unat_eq_0)
    have "unat m mod unat radix < unat radix" by (rule mod_less_divisor) (use assms(1) in simp)
    then have d: "digit_of (m mod radix) = radix_digit (unat m mod unat radix)"
      using digit_of_radix_digit [of "m mod radix"] assms(2) by (simp add: unat_mod)
    have "digits_loop radix m ds = digits_loop radix (m div radix) (ds @ [digit_of (m mod radix)])"
      using False r Suc.prems(2) by (simp add: digits_loop.simps [of radix m])
    also have "\<dots> = Some ((ds @ [digit_of (m mod radix)]) @ (if m div radix = 0 then [] else rev (numeral_in (unat radix) (unat (m div radix)))))"
      by (rule Suc.IH [OF b]) (use Suc.prems(2) in simp)
    finally show ?thesis
      using False z d q assms(1) by (simp add: numeral_in.simps [of "unat radix" "unat m"])
  qed (simp add: digits_loop.simps)
qed

lemma digits_loop_radix_0_1:
  assumes "radix = 0 \<or> radix = 1" "m \<noteq> 0"
  shows "digits_loop radix m ds = None"
  using assms(2)
proof (induction "64 - length ds" arbitrary: ds)
  case 0
  then show ?case by (simp add: digits_loop.simps)
next
  case (Suc n)
  have "digits_loop radix m ds = None" if "radix = 1"
    using Suc.hyps(1) [of "ds @ [digit_of (m mod radix)]"] Suc.hyps(2) Suc.prems digits_loop.simps [of 1 m ds] that by auto
  then show ?case using assms(1) Suc.prems by (auto simp: digits_loop.simps [of 0 m ds])
qed

lemma scast_small:
  assumes "r < 2 ^ 31"
  shows "unat (scast (of_nat r :: u32) :: u64) = r"
proof -
  have u: "unat (of_nat r :: u32) = r" using assms by (simp add: unat_of_nat)
  have "\<not> bit r 31" using assms by (simp add: bit_iff_odd)
  then have "\<not> bit (of_nat r :: u32) 31" by transfer (simp add: bit_of_nat_iff)
  then have "(scast (of_nat r :: u32) :: u64) = ucast (of_nat r :: u32)"
  proof (intro bit_word_eqI)
    fix n assume "n < LENGTH(64)"
    have "n < 31 \<or> n = 31 \<or> 31 < n" by linarith
    then show "bit (scast (of_nat r :: u32) :: u64) n = bit (ucast (of_nat r :: u32) :: u64) n"
      using \<open>\<not> bit (of_nat r :: u32) 31\<close> \<open>\<not> bit r 31\<close> by (auto simp: bit_simps min_def)
  qed
  then show ?thesis using u assms by (simp add: unsigned_ucast_eq take_bit_nat_eq_self)
qed

lemma digit_chars: "char_of (48 :: nat) = CHR ''0''" "char_of (70 :: nat) = CHR ''F''"
  by code_simp+

text \<open>
  C29. An integer that fits a word is written in any radix from 2 to 36 as its sign and its numeral, and
  the 64 digits on the stack are enough. Nothing checks the radix, which \<open>~nR\<close> takes from the format
  string: with 0 a non-zero integer divides by zero, and with 1 it runs over the array of digits.
\<close>

theorem format_integer_radix:
  assumes "w AND TAG_MASK = TAG_FIXNUM" "r \<le> 36"
  shows "format_integer_write pf (Imm w) (of_nat r) =
    (if 2 \<le> r \<or> os_fixnum_magnitude w = 0
     then Some ((if os_fixnum_is_negative w then ''-'' else []) @ numeral_in r (unat (os_fixnum_magnitude w)))
     else None)"
proof -
  let ?m = "os_fixnum_magnitude w"
  have r: "unat (scast (of_nat r :: u32) :: u64) = r" using assms(2) by (intro scast_small) simp
  consider "?m = 0" | "?m \<noteq> 0" "2 \<le> r" | "?m \<noteq> 0" "r < 2" by linarith
  then show ?thesis
  proof cases
    case 1
    have "r < 2 \<or> 0 < r" by linarith
    then have "numeral_in r 0 = ''0''" using numeral_in.simps [of r 0] digit_chars by (simp add: radix_digit_def)
    with 1 show ?thesis by (simp add: format_integer_write_def)
  next
    case 2
    have "digits_loop (scast (of_nat r :: u32)) ?m [] = Some ([] @ (if ?m = 0 then [] else rev (numeral_in r (unat ?m))))"
      using digits_loop_numeral [of "scast (of_nat r :: u32)" ?m 59 "[]"] magnitude_less [of w] r 2 assms(2) by simp
    with 2 show ?thesis by (simp add: format_integer_write_def Let_def)
  next
    case 3
    then have "r = 0 \<or> r = 1" by linarith
    then have "(scast (of_nat r :: u32) :: u64) = 0 \<or> (scast (of_nat r :: u32) :: u64) = 1"
      using r by (metis unat_0 unat_1 word_eq_iff_unat)
    from digits_loop_radix_0_1 [OF this 3(1)] 3 show ?thesis by (simp add: format_integer_write_def Let_def)
  qed
qed

theorem format_integer_radix_witness:
  "format_integer_write (\<lambda>v. []) (Imm (os_make_fixnum_signed True 255)) 16 = Some ''-FF'' \<and>
   format_integer_write (\<lambda>v. []) (Imm (os_make_fixnum 5)) 1 = None"
proof -
  have t: "os_make_fixnum_signed True 255 AND TAG_MASK = TAG_FIXNUM" "os_make_fixnum 5 AND TAG_MASK = TAG_FIXNUM" by code_simp+
  have m: "os_fixnum_magnitude (os_make_fixnum_signed True 255) = 255" "os_fixnum_is_negative (os_make_fixnum_signed True 255)"
    "os_fixnum_magnitude (os_make_fixnum 5) = 5" by code_simp+
  have n: "numeral_in 16 255 = ''FF''" by (simp add: numeral_in.simps [of 16 255] numeral_in.simps [of 16 15] radix_digit_def digit_chars)
  show ?thesis
    using format_integer_radix [OF t(1), of 16 "\<lambda>v. []"] format_integer_radix [OF t(2), of 1 "\<lambda>v. []"] by (simp add: m n)
qed

subsection \<open>Formatting to a string\<close>

text \<open>The loop with the text in place of the stream, and the column the text starts in: a helper, not a specification.\<close>

function format_text :: "(lval \<Rightarrow> string) \<Rightarrow> string \<Rightarrow> lval list \<Rightarrow> u32 \<Rightarrow> string option" where
  "format_text pf [] objs col = Some []"
| "format_text pf (c # data) objs col =
     (if c \<noteq> CHR ''~'' then map_option ((#) c) (format_text pf data objs (column_after [c] col))
      else case parse_number_prefix 0 False data of
          (num, has_num, []) \<Rightarrow> Some []
        | (num, has_num, directive # data) \<Rightarrow>
            (case directive_text pf directive num has_num col objs of
               None \<Rightarrow> None
             | Some (str, objs) \<Rightarrow> map_option ((@) str) (format_text pf data objs (column_after str col))))"
  by pat_completeness auto
termination
  by (relation "measure (\<lambda>(pf, data, objs, col). length data)") (auto dest!: parse_number_prefix_length [OF sym])

lemma write_text_append:
  "write_text D (xs @ ys) s i =
     (case write_text D xs s i of
        None \<Rightarrow> None
      | Some (ok, s, i) \<Rightarrow> (case write_text D ys s i of None \<Rightarrow> None | Some (ok', s, i) \<Rightarrow> Some (ok \<and> ok', s, i)))"
  by (induction xs arbitrary: s i) (auto split: option.splits)

lemma write_text_string:
  fixes s :: "('w, 'n, 't) os_stream"
  assumes "kind s = STREAM_STRING_OUTPUT" "\<not> closed s" "str_len s \<le> str_cap s" "length (str_buf s) = str_cap s"
  shows "\<exists>s'. write_text D str s i = Some (True, s', i) \<and> kind s' = STREAM_STRING_OUTPUT \<and> \<not> closed s' \<and>
    str_cap s' = str_cap s \<and> length (str_buf s') = str_cap s \<and> str_len s' = min (str_cap s) (str_len s + length str) \<and>
    take (str_len s') (str_buf s') = take (str_cap s) (take (str_len s) (str_buf s) @ map char_byte str) \<and>
    column s' = column_after str (column s) \<and> pending_transfer s' = pending_transfer s"
  using assms
proof (induction str arbitrary: s)
  case (Cons ch str)
  let ?s = "if str_len s < str_cap s then advance_column ch (s\<lparr>str_buf := (str_buf s)[str_len s := char_byte ch], str_len := str_len s + 1\<rparr>)
    else advance_column ch s"
  have w: "os_stream_write_char D ch s i = Some (True, ?s, i)"
    using Cons.prems by (simp add: os_stream_write_char_def is_9p_write_kind_def is_fat_write_kind_def)
  have f: "kind ?s = STREAM_STRING_OUTPUT" "\<not> closed ?s" "str_cap ?s = str_cap s" "length (str_buf ?s) = str_cap s" "str_len ?s \<le> str_cap ?s"
    "column ?s = column_after [ch] (column s)" "str_len ?s = min (str_cap s) (Suc (str_len s))" "pending_transfer ?s = pending_transfer s"
    using Cons.prems by (simp_all add: advance_column_def column_after_def)
  have t: "take (str_cap s) (take (str_len ?s) (str_buf ?s) @ bs) = take (str_cap s) (take (str_len s) (str_buf s) @ char_byte ch # bs)" for bs
    using Cons.prems by (auto simp: advance_column_def take_Suc_conv_app_nth take_Cons')
  have l: "length (str_buf ?s) = str_cap ?s" using f(3,4) by simp
  obtain s' where s': "write_text D str ?s i = Some (True, s', i)" "kind s' = STREAM_STRING_OUTPUT" "\<not> closed s'"
    "str_cap s' = str_cap ?s" "length (str_buf s') = str_cap ?s" "str_len s' = min (str_cap ?s) (str_len ?s + length str)"
    "take (str_len s') (str_buf s') = take (str_cap ?s) (take (str_len ?s) (str_buf ?s) @ map char_byte str)"
    "column s' = column_after str (column ?s)" "pending_transfer s' = pending_transfer ?s"
    using Cons.IH [OF f(1,2,5) l] by blast
  have "write_text D (ch # str) s i = Some (True, s', i)" using w s'(1) by simp
  moreover have "str_len s' = min (str_cap s) (str_len s + length (ch # str))" using s'(6) unfolding f(3,7) by simp
  moreover have "column s' = column_after (ch # str) (column s)" using s'(8) unfolding f(6) by (simp add: column_after_def)
  ultimately show ?case using s'(2-5,7,9) unfolding f(3,8) t by auto
qed (simp add: column_after_def)

lemma format_loop_text:
  assumes "format_text pf data objs (column s) = Some str"
    and "kind s = STREAM_STRING_OUTPUT" "\<not> closed s" "str_len s \<le> str_cap s" "length (str_buf s) = str_cap s"
  shows "\<exists>s'. format_loop pf D data objs s i = Some (True, s', i) \<and> write_text D str s i = Some (True, s', i)"
  using assms
proof (induction pf data objs "column s" arbitrary: s str rule: format_text.induct)
  case (2 pf c data objs)
  have step: "\<exists>s'. format_loop pf D d o1 s1 i = Some (True, s', i) \<and> write_text D (out @ rest) s i = Some (True, s', i)"
    if "write_text D out s i = Some (True, s1, i)"
      "\<exists>s'. format_loop pf D d o1 s1 i = Some (True, s', i) \<and> write_text D rest s1 i = Some (True, s', i)" for out rest d o1 s1
    using that by (auto simp: write_text_append)
  show ?case
  proof (cases "c = CHR ''~''")
    case False
    with 2(3) obtain rest where rest: "format_text pf data objs (column_after [c] (column s)) = Some rest" "str = [c] @ rest" by auto
    obtain s1 where s1: "write_text D [c] s i = Some (True, s1, i)" "kind s1 = STREAM_STRING_OUTPUT" "\<not> closed s1"
      "str_len s1 \<le> str_cap s1" "length (str_buf s1) = str_cap s1" "column s1 = column_after [c] (column s)"
      using write_text_string [OF 2(4-7), of D "[c]" i] by auto
    have "\<exists>s'. format_loop pf D data objs s1 i = Some (True, s', i) \<and> write_text D rest s1 i = Some (True, s', i)"
      by (rule 2(1) [OF False s1(6) [symmetric] _ s1(2-5)]) (use rest(1) s1(6) in simp)
    from step [OF s1(1) this] False s1(1) show ?thesis by (simp add: rest(2) del: write_text.simps)
  next
    case tilde: True
    show ?thesis
    proof (cases "snd (snd (parse_number_prefix 0 False data))")
      case Nil
      with tilde 2(3) show ?thesis by (auto split: prod.split)
    next
      case (Cons directive data')
      then obtain num has_num where p: "parse_number_prefix 0 False data = (num, has_num, directive # data')"
        by (metis prod.collapse)
      from 2(3) tilde p obtain out objs' rest where o: "directive_text pf directive num has_num (column s) objs = Some (out, objs')"
        "format_text pf data' objs' (column_after out (column s)) = Some rest" "str = out @ rest"
        by (auto split: option.split_asm)
      obtain s1 where s1: "write_text D out s i = Some (True, s1, i)" "kind s1 = STREAM_STRING_OUTPUT" "\<not> closed s1"
        "str_len s1 \<le> str_cap s1" "length (str_buf s1) = str_cap s1" "column s1 = column_after out (column s)"
        using write_text_string [OF 2(4-7), of D out i] by auto
      have "\<exists>s'. format_loop pf D data' objs' s1 i = Some (True, s', i) \<and> write_text D rest s1 i = Some (True, s', i)"
        by (rule 2(2) [OF _ p [symmetric] refl refl o(1) refl s1(6) [symmetric] _ s1(2-5)]) (use o(2) s1(6) tilde in simp_all)
      from step [OF s1(1) this] tilde p o s1(1) show ?thesis by simp
    qed
  qed
qed simp

lemma format_string_stream:
  assumes "format_text pf data objs 0 = Some str" and room: "length (streams sys) < 2 ^ 64 - 1"
    and fresh: "STREAM_STRING_OUTPUT_CAP \<le> length fresh"
  obtains h sys1 sys2 sys3 where "cc_create_string_output_stream fresh [] sys = Some (Value h, sys1)"
    "cc_format pf D (h # Str data # objs) sys1 = Some (Value Nil, sys2)"
    "cc_get_output_stream_string [h] sys2 = Some (Value (Str (take STREAM_STRING_OUTPUT_CAP str)), sys3)"
proof -
  let ?a = "length (streams sys)"
  let ?s = "os_stream_open_string_output (take STREAM_STRING_OUTPUT_CAP fresh) STREAM_STRING_OUTPUT_CAP (blank sys)"
  let ?sys1 = "sys\<lparr>streams := streams sys @ [?s]\<rparr>"
  have s: "kind ?s = STREAM_STRING_OUTPUT" "\<not> closed ?s" "str_len ?s = 0" "str_cap ?s = STREAM_STRING_OUTPUT_CAP"
    "length (str_buf ?s) = STREAM_STRING_OUTPUT_CAP" "column ?s = 0" "pending_transfer ?s = None"
    using fresh by (simp_all add: os_stream_open_string_output_def stream_init_common_def)
  obtain s' where s': "write_text D str ?s (io sys) = Some (True, s', io sys)" "pending_transfer s' = None"
    "str_len s' = min STREAM_STRING_OUTPUT_CAP (length str)" "length (str_buf s') = STREAM_STRING_OUTPUT_CAP"
    "take (str_len s') (str_buf s') = take STREAM_STRING_OUTPUT_CAP (map char_byte str)"
    using write_text_string [of ?s D str "io sys"] s by auto
  have f: "format_loop pf D data objs ?s (io sys) = Some (True, s', io sys)"
    using format_loop_text [of pf data objs ?s str D "io sys"] assms(1) s s'(1) by auto
  have a: "addressable ?sys1" "?a < length (streams ?sys1)" "streams ?sys1 ! ?a = ?s" "io ?sys1 = io sys"
    using room by (simp_all add: addressable_def)
  let ?sys2 = "stored ?sys1 ?a s' (io sys)"
  have c: "cc_create_string_output_stream fresh [] sys = Some (Value (stream_handle ?a), ?sys1)"
    by (simp add: cc_create_string_output_stream_def os_make_stream_def stream_handle_def)
  have w: "with_stream (stream_handle ?a) (format_loop pf D data objs) ?sys1 = Some (True, ?sys2)"
    by (rule with_stream_handle [OF a(1,2)]) (simp only: a(3,4) f)
  have a2: "addressable ?sys2" "?a < length (streams ?sys2)" "pending_transfer (streams ?sys2 ! ?a) = None"
    using a(1) s'(2) by (simp_all add: addressable_def)
  have g: "cc_format pf D (stream_handle ?a # Str data # objs) ?sys1 = Some (Value Nil, ?sys2)"
    by (simp only: cc_format_def list.case lval.case writing_nil_def w option.case prod.case take_transfer_none [OF a2] returning_def)
  have "map byte_char (take (str_len s') (str_buf s')) = take STREAM_STRING_OUTPUT_CAP str"
    unfolding s'(5) by (simp add: take_map [symmetric] o_def)
  moreover have "stream_raw (stream_handle ?a) ?sys2 = Some ?a" by (rule stream_raw_handle [OF a2(1,2)])
  ultimately have "\<exists>sys3. cc_get_output_stream_string [stream_handle ?a] ?sys2 = Some (Value (Str (take STREAM_STRING_OUTPUT_CAP str)), sys3)"
    using s'(3,4) by (simp add: cc_get_output_stream_string_def with_stream_def returning_def)
  with c g show thesis by (blast intro: that)
qed

text \<open>
  What \<open>format\<close> writes to a string stream is the text of its format string, cut to the 1024 bytes
  that the stream holds: the characters as they are and for each directive its text, in order,
  where the column that the tabulator and fresh-line directives look at is that of the text so far.
\<close>

theorem format_writes_text:
  assumes "format_text pf data objs 0 = Some str" "length (streams sys) < 2 ^ 64 - 1" "STREAM_STRING_OUTPUT_CAP \<le> length fresh"
  shows "\<exists>h sys1 sys2 sys3. cc_create_string_output_stream fresh [] sys = Some (Value h, sys1) \<and>
    cc_format pf D (h # Str data # objs) sys1 = Some (Value Nil, sys2) \<and>
    cc_get_output_stream_string [h] sys2 = Some (Value (Str (take STREAM_STRING_OUTPUT_CAP str)), sys3)"
  by (rule format_string_stream [OF assms, of D]) blast

text \<open>
  C17. \<open>format\<close> and the reader agree: the text that \<^verbatim>\<open>~S\<close> puts into a string stream for a readable value,
  when it fits the stream, is read back by \<open>os_read_stream\<close> as the value, to its end.
\<close>

theorem format_read_roundtrip:
  assumes "readable v" "length (print_value pf True v) \<le> STREAM_STRING_OUTPUT_CAP"
    and "length (streams sys) < 2 ^ 64 - 1" "STREAM_STRING_OUTPUT_CAP \<le> length fresh"
  shows "\<exists>h sys1 sys2 sys3 str. cc_create_string_output_stream fresh [] sys = Some (Value h, sys1) \<and>
    cc_format pf D [h, Str ''~S'', v] sys1 = Some (Value Nil, sys2) \<and>
    cc_get_output_stream_string [h] sys2 = Some (Value (Str str), sys3) \<and> os_read_stream fp sg str = Got v []"
proof -
  have t: "format_text pf ''~S'' [v] 0 = Some (print_value pf True v)"
    by (simp add: directive_text_def is_digit_def code_def Let_def)
  have "reads fp sg EXPR (print_value pf True v @ []) v []"
    by (rule prints_backD [OF conjunct1 [OF printed_reads_back [OF assms(1)]]]) (simp only: delim_starts)
  from os_read_printed [OF this starts_expr [OF starts_printed [OF assms(1)]]]
  have "os_read_stream fp sg (print_value pf True v) = Got v []" by (simp only: append_Nil2)
  moreover obtain h sys1 sys2 sys3 where "cc_create_string_output_stream fresh [] sys = Some (Value h, sys1)"
    "cc_format pf D [h, Str ''~S'', v] sys1 = Some (Value Nil, sys2)"
    "cc_get_output_stream_string [h] sys2 = Some (Value (Str (take STREAM_STRING_OUTPUT_CAP (print_value pf True v))), sys3)"
    by (rule format_string_stream [OF t assms(3,4), of D])
  moreover have "take STREAM_STRING_OUTPUT_CAP (print_value pf True v) = print_value pf True v" using assms(2) by (rule take_all)
  ultimately show ?thesis by (intro exI conjI) (simp_all only:)
qed

theorem format_read_roundtrip_witness:
  "\<forall>fp sg. \<exists>h sys1 sys2 sys3 str. cc_create_string_output_stream (replicate 1024 0) [] example_system = Some (Value h, sys1) \<and>
    cc_format (\<lambda>v. []) example_lisp_drivers [h, Str ''~S'', Cons (Imm (os_make_fixnum 7)) Nil] sys1 = Some (Value Nil, sys2) \<and>
    cc_get_output_stream_string [h] sys2 = Some (Value (Str str), sys3) \<and>
    os_read_stream fp sg str = Got (Cons (Imm (os_make_fixnum 7)) Nil) []"
proof (intro allI)
  fix fp sg
  let ?v = "Cons (Imm (os_make_fixnum 7)) Nil"
  have "readable ?v" by (simp add: imm_eval)
  moreover have "length (print_value (\<lambda>v. []) True ?v) \<le> STREAM_STRING_OUTPUT_CAP" by code_simp
  ultimately show "\<exists>h sys1 sys2 sys3 str. cc_create_string_output_stream (replicate 1024 0) [] example_system = Some (Value h, sys1) \<and>
    cc_format (\<lambda>v. []) example_lisp_drivers [h, Str ''~S'', ?v] sys1 = Some (Value Nil, sys2) \<and>
    cc_get_output_stream_string [h] sys2 = Some (Value (Str str), sys3) \<and> os_read_stream fp sg str = Got ?v []"
    by (rule format_read_roundtrip) (simp_all add: example_system_def STREAM_STRING_OUTPUT_CAP_def)
qed

end
