(* ===== verification/Symbols.thy ===== *)
theory Symbols
  imports Reader
begin

unbundle bit_operations_syntax

text \<open>
  The symbol table of \<^verbatim>\<open>src/c/runtime.c\<close>: names compared without case, the hash table with open
  addressing that maps a name to an index of \<open>g_symbol_table\<close>, and interning. A symbol is an object
  with an identity; \<open>next_object\<close> is the identity of the next object. A list ends where the C array
  has its count, a string where it has its terminator; \<open>None\<close> is the full table, where the system
  stops.
\<close>

subsection \<open>Names\<close>

definition schar :: "char \<Rightarrow> int" where "schar c = sint (char_byte c)"

definition first_char :: "string \<Rightarrow> char" where
  "first_char s = (case s of [] \<Rightarrow> CHR 0x00 | c # _ \<Rightarrow> c)"

fun strncmpignorecase :: "string \<Rightarrow> string \<Rightarrow> nat \<Rightarrow> int" where
  "strncmpignorecase s1 s2 0 = 0"
| "strncmpignorecase s1 s2 (Suc n) =
     (let c1 = first_char s1; c2 = first_char s2
      in if to_upper c1 = to_upper c2 then strncmpignorecase (tl s1) (tl s2) n else schar c1 - schar c2)"

definition SYMBOL_HASH_SIZE :: nat where "SYMBOL_HASH_SIZE = 16384"
definition MAX_SYMBOLS :: nat where "MAX_SYMBOLS = 8192"

definition symbol_name_hash :: "string \<Rightarrow> u32" where
  "symbol_name_hash name =
     fold (\<lambda>c h. (h XOR ucast (char_byte (to_upper c))) * 16777619) name 2166136261 AND of_nat (SYMBOL_HASH_SIZE - 1)"

subsection \<open>The table\<close>

record lsymbol =
  address :: nat
  sym_name :: string
  sym_gensym :: bool

record symbol_table =
  g_symbol_table :: "lsymbol list"
  g_symbol_hash :: "int list"
  next_object :: nat

definition hash_slot :: "u32 \<Rightarrow> nat \<Rightarrow> nat" where
  "hash_slot h i = unat ((h + of_nat i) AND of_nat (SYMBOL_HASH_SIZE - 1))"

fun lookup_from :: "symbol_table \<Rightarrow> string \<Rightarrow> u32 \<Rightarrow> nat list \<Rightarrow> int" where
  "lookup_from T name h [] = -1"
| "lookup_from T name h (i # is) =
     (let idx = g_symbol_hash T ! hash_slot h i
      in if idx < 0 then -1
         else let str = sym_name (g_symbol_table T ! nat idx)
              in if strncmpignorecase str name (length str) = 0 \<and> drop (length str) name = [] then idx
                 else lookup_from T name h is)"

definition symbol_hash_lookup :: "symbol_table \<Rightarrow> string \<Rightarrow> int" where
  "symbol_hash_lookup T name = lookup_from T name (symbol_name_hash name) [0..<SYMBOL_HASH_SIZE]"

fun insert_from :: "int list \<Rightarrow> int \<Rightarrow> u32 \<Rightarrow> nat list \<Rightarrow> int list" where
  "insert_from hash idx h [] = hash"
| "insert_from hash idx h (i # is) =
     (let slot = hash_slot h i in if hash ! slot < 0 then hash[slot := idx] else insert_from hash idx h is)"

definition symbol_hash_insert :: "int list \<Rightarrow> int \<Rightarrow> string \<Rightarrow> int list" where
  "symbol_hash_insert hash idx name = insert_from hash idx (symbol_name_hash name) [0..<SYMBOL_HASH_SIZE]"

definition symbol_table_init :: "nat \<Rightarrow> symbol_table" where
  "symbol_table_init obj = \<lparr>g_symbol_table = [], g_symbol_hash = replicate SYMBOL_HASH_SIZE (-1), next_object = obj\<rparr>"

text \<open>A new symbol object. Its name string is an object too.\<close>

definition new_symbol :: "string \<Rightarrow> bool \<Rightarrow> symbol_table \<Rightarrow> lsymbol \<times> symbol_table" where
  "new_symbol name is_gensym T =
     (\<lparr>address = next_object T + 1, sym_name = map to_upper name, sym_gensym = is_gensym\<rparr>, T\<lparr>next_object := next_object T + 2\<rparr>)"

text \<open>The symbol, or \<open>None\<close> for \<^verbatim>\<open>nil\<close>, which is the symbol \<^verbatim>\<open>NIL\<close>.\<close>

definition intern :: "string \<Rightarrow> symbol_table \<Rightarrow> (lsymbol option \<times> symbol_table) option" where
  "intern name T =
     (if strncmpignorecase ''NIL'' name 3 = 0 \<and> drop 3 name = [] then Some (None, T)
      else let found = symbol_hash_lookup T name
           in if 0 \<le> found then Some (Some (g_symbol_table T ! nat found), T)
              else let (tagged, T) = new_symbol name False T
                   in if MAX_SYMBOLS \<le> length (g_symbol_table T) then None
                      else let new_idx = length (g_symbol_table T)
                           in Some (Some tagged, T\<lparr>g_symbol_table := g_symbol_table T @ [tagged],
                                g_symbol_hash := symbol_hash_insert (g_symbol_hash T) (int new_idx) name\<rparr>))"

text \<open>The cache of a call site: an index, \<open>-1\<close> before the first call, \<open>-2\<close> for \<^verbatim>\<open>nil\<close>.\<close>

definition os_make_symbol_cached :: "int \<Rightarrow> string \<Rightarrow> symbol_table \<Rightarrow> (lsymbol option \<times> int \<times> symbol_table) option" where
  "os_make_symbol_cached cache_idx name T =
     (if 0 \<le> cache_idx then Some (Some (g_symbol_table T ! nat cache_idx), cache_idx, T)
      else if cache_idx = -2 then Some (None, cache_idx, T)
      else let found = symbol_hash_lookup T name
           in if 0 \<le> found then Some (Some (g_symbol_table T ! nat found), found, T)
              else (case intern name T of
                      None \<Rightarrow> None
                    | Some (None, T) \<Rightarrow> Some (None, -2, T)
                    | Some (Some obj, T) \<Rightarrow> Some (Some obj, symbol_hash_lookup T name, T)))"

definition os_make_uninterned_symbol :: "string \<Rightarrow> symbol_table \<Rightarrow> lsymbol \<times> symbol_table" where
  "os_make_uninterned_symbol name T = new_symbol name True T"

subsection \<open>Comparing and hashing names\<close>

definition c_name :: "string \<Rightarrow> bool" where "c_name s \<longleftrightarrow> CHR 0x00 \<notin> set s"

lemma schar_inj: "schar a = schar b \<longleftrightarrow> a = b"
proof -
  have "char_byte a = char_byte b \<longleftrightarrow> a = b" by (metis byte_char_inverse)
  then show ?thesis unfolding schar_def by (metis signed_word_eqI)
qed

lemma char_code_eq: "code c = code d \<longleftrightarrow> c = d"
  by (simp add: code_def)

lemma char_code_less: "code c < 256"
  by (simp add: code_def)

lemma to_upper_code: "code (to_upper c) = (if 0x60 < code c \<and> code c < 0x7B then code c - 0x20 else code c)"
proof -
  have "code c - 32 < 256" using char_code_less [of c] by simp
  then have "code (char_of (code c - 32)) = code c - 32" unfolding code_def by (simp only: of_char_of mod_less)
  then show ?thesis by (simp add: to_upper_def)
qed

lemma to_upper_idem [simp]: "to_upper (to_upper c) = to_upper c"
  unfolding char_code_eq [symmetric] by (auto simp: to_upper_code)

lemma to_upper_NUL: "to_upper c = CHR 0x00 \<longleftrightarrow> c = CHR 0x00"
proof -
  have "code (CHR 0x00) = 0" by (simp add: code_def)
  then show ?thesis using to_upper_code [of c] char_code_eq [of "to_upper c" "CHR 0x00"] char_code_eq [of c "CHR 0x00"] by (auto split: if_splits)
qed

lemma c_name_upper [simp]: "c_name (map to_upper s) = c_name s"
proof (induction s)
  case (Cons c s)
  have "CHR 0x00 = to_upper c \<longleftrightarrow> CHR 0x00 = c" using to_upper_NUL [of c] by (simp only: eq_commute)
  then show ?case using Cons by (simp only: c_name_def list.map list.set insert_iff de_Morgan_disj)
qed simp

lemma strncmp_zero:
  assumes "c_name s1" "c_name s2" 
  shows "strncmpignorecase s1 s2 (length s1) = 0 \<and> drop (length s1) s2 = [] \<longleftrightarrow> map to_upper s1 = map to_upper s2"
  using assms
proof (induction s1 arbitrary: s2)
  case (Cons c s1)
  have c: "c \<noteq> CHR 0x00" "c_name s1" using Cons.prems(1) by (auto simp: c_name_def)
  show ?case
  proof (cases s2)
    case Nil
    have "to_upper c \<noteq> to_upper (CHR 0x00)" using c(1) to_upper_NUL [of c] to_upper_NUL [of "CHR 0x00"] by auto
    then show ?thesis using Nil c(1) schar_inj [of c "CHR 0x00"] by (simp add: first_char_def)
  next
    case (Cons d s2')
    have "c_name s2'" using Cons.prems(2) \<open>s2 = d # s2'\<close> by (simp add: c_name_def)
    then show ?thesis
      using Cons.IH [OF c(2), of s2'] \<open>s2 = d # s2'\<close> schar_inj [of c d] by (auto simp: first_char_def)
  qed
qed simp

lemma hash_upper: "symbol_name_hash (map to_upper name) = symbol_name_hash name"
proof -
  have "fold (\<lambda>c h. (h XOR ucast (char_byte (to_upper c))) * 16777619) (map to_upper name) a
      = fold (\<lambda>c h. (h XOR ucast (char_byte (to_upper c))) * 16777619) name (a :: u32)" for a
    by (induction name arbitrary: a) simp_all
  then show ?thesis by (simp add: symbol_name_hash_def)
qed

lemma hash_eq: "map to_upper a = map to_upper b \<Longrightarrow> symbol_name_hash a = symbol_name_hash b"
  by (metis hash_upper)

lemma hash_slot_mod: "hash_slot h i = (unat h + i) mod SYMBOL_HASH_SIZE"
proof -
  have "hash_slot h i = unat (take_bit 14 (h + of_nat i))"
    by (simp add: hash_slot_def SYMBOL_HASH_SIZE_def take_bit_eq_mask mask_eq_exp_minus_1)
  also have "\<dots> = unat (h + of_nat i) mod 2 ^ 14"
    by (simp only: unsigned_take_bit_eq) (simp only: take_bit_eq_mod)
  also have "\<dots> = (unat h + i) mod 2 ^ 14"
    by (simp add: unat_word_ariths unat_of_nat mod_mod_cancel mod_simps)
  finally show ?thesis by (simp add: SYMBOL_HASH_SIZE_def)
qed

subsection \<open>The table is a map from names to symbols\<close>

text \<open>
  Every symbol is found from its hash without passing a free slot, used slots hold indices of the
  table, one for each symbol, and no two symbols have the same name, which is upper case.
\<close>

definition reached :: "int list \<Rightarrow> u32 \<Rightarrow> int \<Rightarrow> bool" where
  "reached hash h j \<longleftrightarrow>
     (\<exists>k < SYMBOL_HASH_SIZE. hash ! hash_slot h k = j \<and> (\<forall>i < k. 0 \<le> hash ! hash_slot h i))"

definition used_slots :: "int list \<Rightarrow> nat set" where
  "used_slots hash = {p. p < SYMBOL_HASH_SIZE \<and> 0 \<le> hash ! p}"

definition symbols_ok :: "symbol_table \<Rightarrow> bool" where
  "symbols_ok T \<longleftrightarrow>
     length (g_symbol_hash T) = SYMBOL_HASH_SIZE \<and> length (g_symbol_table T) \<le> MAX_SYMBOLS \<and>
     (\<forall>x \<in> set (g_symbol_hash T). x < int (length (g_symbol_table T))) \<and>
     card (used_slots (g_symbol_hash T)) = length (g_symbol_table T) \<and>
     (\<forall>j < length (g_symbol_table T). reached (g_symbol_hash T) (symbol_name_hash (sym_name (g_symbol_table T ! j))) (int j)) \<and>
     (\<forall>s \<in> set (g_symbol_table T). c_name (sym_name s) \<and> map to_upper (sym_name s) = sym_name s \<and> sym_name s \<noteq> ''NIL'' \<and>
        address s < next_object T \<and> \<not> sym_gensym s) \<and>
     distinct (map sym_name (g_symbol_table T)) \<and> distinct (map address (g_symbol_table T))"

lemma hash_slot_less: "hash_slot h i < SYMBOL_HASH_SIZE"
  by (simp add: hash_slot_mod SYMBOL_HASH_SIZE_def)

lemma hash_slot_inj:
  assumes "i < SYMBOL_HASH_SIZE" "k < SYMBOL_HASH_SIZE" "hash_slot h i = hash_slot h k"
  shows "i = k"
proof -
  have "(unat h + i) mod SYMBOL_HASH_SIZE = (unat h + k) mod SYMBOL_HASH_SIZE" using assms(3) by (simp add: hash_slot_mod)
  then have "i mod SYMBOL_HASH_SIZE = k mod SYMBOL_HASH_SIZE" by (simp add: nat_mod_eq_iff add.assoc)
  then show ?thesis using assms(1,2) by simp
qed

text \<open>The comparison of the probe decides whether symbol number \<open>j\<close> has the name.\<close>

lemma matches_name:
  assumes "symbols_ok T" "c_name name" "j < length (g_symbol_table T)"
  shows "strncmpignorecase (sym_name (g_symbol_table T ! j)) name (length (sym_name (g_symbol_table T ! j))) = 0 \<and>
      drop (length (sym_name (g_symbol_table T ! j))) name = [] \<longleftrightarrow> sym_name (g_symbol_table T ! j) = map to_upper name"
proof -
  have "g_symbol_table T ! j \<in> set (g_symbol_table T)" using assms(3) by simp
  then have "c_name (sym_name (g_symbol_table T ! j))" "map to_upper (sym_name (g_symbol_table T ! j)) = sym_name (g_symbol_table T ! j)"
    using assms(1) by (auto simp: symbols_ok_def)
  then show ?thesis using strncmp_zero [of "sym_name (g_symbol_table T ! j)" name] assms(2) by simp
qed

lemma used_slot:
  assumes "symbols_ok T" "0 \<le> g_symbol_hash T ! hash_slot h i"
  shows "nat (g_symbol_hash T ! hash_slot h i) < length (g_symbol_table T)"
proof -
  have "g_symbol_hash T ! hash_slot h i \<in> set (g_symbol_hash T)" using assms(1) hash_slot_less [of h i] by (simp add: symbols_ok_def)
  then show ?thesis using assms by (auto simp: symbols_ok_def)
qed

lemma names_distinct:
  assumes "symbols_ok T" "i < length (g_symbol_table T)" "j < length (g_symbol_table T)"
    "sym_name (g_symbol_table T ! i) = sym_name (g_symbol_table T ! j)"
  shows "i = j"
  using assms nth_eq_iff_index_eq [of "map sym_name (g_symbol_table T)" i j] by (simp add: symbols_ok_def)

text \<open>The probe finds the symbol with the name, if there is one.\<close>

lemma lookup_from_found:
  assumes ok: "symbols_ok T" "c_name name" and j: "j < length (g_symbol_table T)" "sym_name (g_symbol_table T ! j) = map to_upper name"
    and k: "g_symbol_hash T ! hash_slot h k = int j" "\<forall>i < k. 0 \<le> g_symbol_hash T ! hash_slot h i" "k < n" "m \<le> k"
  shows "lookup_from T name h [m..<n] = int j"
  using k(4)
proof (induction rule: inc_induct)
  case base
  then show ?case using k(1,3) matches_name [OF ok j(1)] j(2) by (simp add: upt_conv_Cons Let_def)
next
  case (step m)
  let ?idx = "g_symbol_hash T ! hash_slot h m"
  have used: "0 \<le> ?idx" using k(2) step.hyps(2) by simp
  have l: "nat ?idx < length (g_symbol_table T)" by (rule used_slot [OF ok(1) used])
  have m: "[m..<n] = m # [Suc m..<n]" using step.hyps k(3) by (simp add: upt_conv_Cons)
  show ?case
  proof (cases "nat ?idx = j")
    case True
    then show ?thesis using used matches_name [OF ok j(1)] j(2) unfolding m by (auto simp: Let_def)
  next
    case False
    then have "sym_name (g_symbol_table T ! nat ?idx) \<noteq> map to_upper name"
      using names_distinct [OF ok(1) l j(1)] j(2) by auto
    then show ?thesis using used matches_name [OF ok l] step.IH unfolding m by (auto simp: Let_def)
  qed
qed

lemma lookup_from_absent:
  assumes ok: "symbols_ok T" "c_name name" and absent: "map to_upper name \<notin> sym_name ` set (g_symbol_table T)"
  shows "lookup_from T name h ks = -1"
proof (induction ks)
  case (Cons i ks)
  let ?idx = "g_symbol_hash T ! hash_slot h i"
  show ?case
  proof (cases "0 \<le> ?idx")
    case True
    have l: "nat ?idx < length (g_symbol_table T)" by (rule used_slot [OF ok(1) True])
    then have "sym_name (g_symbol_table T ! nat ?idx) \<noteq> map to_upper name" using absent by (metis image_eqI nth_mem)
    then show ?thesis using Cons True matches_name [OF ok l] by (auto simp: Let_def)
  qed simp
qed simp

definition find_symbol :: "symbol_table \<Rightarrow> string \<Rightarrow> lsymbol option" where
  "find_symbol T name = List.find (\<lambda>s. sym_name s = map to_upper name) (g_symbol_table T)"

lemma symbol_hash_lookup_find:
  assumes "symbols_ok T" "c_name name"
  shows "(case find_symbol T name of
      None \<Rightarrow> symbol_hash_lookup T name = -1
    | Some s \<Rightarrow> \<exists>j < length (g_symbol_table T). g_symbol_table T ! j = s \<and> sym_name s = map to_upper name \<and> symbol_hash_lookup T name = int j)"
proof (cases "find_symbol T name")
  case None
  then have "map to_upper name \<notin> sym_name ` set (g_symbol_table T)" by (auto simp: find_symbol_def find_None_iff)
  then show ?thesis using lookup_from_absent [OF assms] None by (simp add: symbol_hash_lookup_def)
next
  case (Some s)
  then obtain j where j: "j < length (g_symbol_table T)" "sym_name (g_symbol_table T ! j) = map to_upper name" "s = g_symbol_table T ! j"
    by (auto simp: find_symbol_def find_Some_iff)
  have "reached (g_symbol_hash T) (symbol_name_hash (sym_name (g_symbol_table T ! j))) (int j)"
    using assms(1) j(1) by (simp add: symbols_ok_def)
  then obtain k where "k < SYMBOL_HASH_SIZE" "g_symbol_hash T ! hash_slot (symbol_name_hash name) k = int j"
    "\<forall>i < k. 0 \<le> g_symbol_hash T ! hash_slot (symbol_name_hash name) i"
    by (auto simp: reached_def j(2) hash_upper)
  then have "symbol_hash_lookup T name = int j"
    unfolding symbol_hash_lookup_def by (intro lookup_from_found [OF assms j(1,2)]) auto
  then show ?thesis using Some j by auto
qed

subsection \<open>Registering a symbol\<close>

lemma hash_slots_all: "hash_slot h ` {0..<SYMBOL_HASH_SIZE} = {0..<SYMBOL_HASH_SIZE}"
proof (rule endo_inj_surj)
  show "hash_slot h ` {0..<SYMBOL_HASH_SIZE} \<subseteq> {0..<SYMBOL_HASH_SIZE}" using hash_slot_less by auto
  show "inj_on (hash_slot h) {0..<SYMBOL_HASH_SIZE}" by (rule inj_onI) (rule hash_slot_inj, auto)
qed simp

text \<open>A table that is not full has a free slot on every probe sequence.\<close>

lemma free_slot:
  assumes "card (used_slots hash) < SYMBOL_HASH_SIZE"
  obtains k where "k < SYMBOL_HASH_SIZE" "hash ! hash_slot h k < 0" "\<forall>i < k. 0 \<le> hash ! hash_slot h i"
proof -
  have "\<exists>k < SYMBOL_HASH_SIZE. hash ! hash_slot h k < 0"
  proof (rule ccontr)
    assume none: "\<not> (\<exists>k < SYMBOL_HASH_SIZE. hash ! hash_slot h k < 0)"
    have "0 \<le> hash ! p" if "p < SYMBOL_HASH_SIZE" for p
    proof -
      have "p \<in> hash_slot h ` {0..<SYMBOL_HASH_SIZE}" using that by (simp only: hash_slots_all) simp
      then obtain i where "i < SYMBOL_HASH_SIZE" "p = hash_slot h i" by (auto simp only: image_iff atLeastLessThan_iff)
      then show ?thesis using none not_less by blast
    qed
    then have "used_slots hash = {0..<SYMBOL_HASH_SIZE}" by (auto simp: used_slots_def)
    then show False using assms by simp
  qed
  then obtain k0 where k0: "k0 < SYMBOL_HASH_SIZE" "hash ! hash_slot h k0 < 0" by auto
  let ?k = "LEAST k. hash ! hash_slot h k < 0"
  have "hash ! hash_slot h ?k < 0" "?k \<le> k0" using k0(2) by (auto intro: LeastI Least_le)
  moreover have "\<forall>i < ?k. 0 \<le> hash ! hash_slot h i" using not_less_Least by force
  ultimately show ?thesis using that [of ?k] k0(1) by simp
qed

lemma insert_from_free:
  assumes "hash ! hash_slot h k < 0" "\<forall>i < k. 0 \<le> hash ! hash_slot h i" "k < n" "m \<le> k"
  shows "insert_from hash idx h [m..<n] = hash[hash_slot h k := idx]"
  using assms(4)
proof (induction rule: inc_induct)
  case base
  then show ?case using assms by (simp add: upt_conv_Cons Let_def)
next
  case (step m)
  have "\<not> hash ! hash_slot h m < 0" using assms(2) step.hyps(2) by (simp add: not_less)
  moreover have "[m..<n] = m # [Suc m..<n]" using step.hyps assms(3) by (simp add: upt_conv_Cons)
  ultimately show ?case using step.IH by (simp add: Let_def)
qed

lemma update_nonneg: "0 \<le> hash ! q \<Longrightarrow> 0 \<le> idx \<Longrightarrow> 0 \<le> hash[p := idx] ! (q :: nat)" for idx :: int
  by (cases "p = q"; cases "p < length hash") (auto simp: not_less list_update_beyond)

text \<open>Registering keeps the other symbols reachable.\<close>

lemma reached_update:
  assumes "reached hash h j" "hash ! p < 0" "0 \<le> j" "p < SYMBOL_HASH_SIZE" "length hash = SYMBOL_HASH_SIZE" "0 \<le> idx"
  shows "reached (hash[p := idx]) h j"
proof -
  obtain k where k: "k < SYMBOL_HASH_SIZE" "hash ! hash_slot h k = j" "\<forall>i < k. 0 \<le> hash ! hash_slot h i"
    using assms(1) by (auto simp: reached_def)
  have "hash_slot h k \<noteq> p" using k(2) assms(2,3) by auto
  then have "hash[p := idx] ! hash_slot h k = j" using k(2) by simp
  moreover have "\<forall>i < k. 0 \<le> hash[p := idx] ! hash_slot h i"
    using k(3) assms(6) by (auto intro: update_nonneg)
  ultimately show ?thesis using k(1) unfolding reached_def by blast
qed

definition registered :: "symbol_table \<Rightarrow> string \<Rightarrow> symbol_table" where
  "registered T name = T\<lparr>next_object := next_object T + 2,
     g_symbol_table := g_symbol_table T @ [\<lparr>address = next_object T + 1, sym_name = map to_upper name, sym_gensym = False\<rparr>],
     g_symbol_hash := symbol_hash_insert (g_symbol_hash T) (int (length (g_symbol_table T))) name\<rparr>"

lemma symbols_okD:
  assumes "symbols_ok T"
  shows "length (g_symbol_hash T) = SYMBOL_HASH_SIZE" "length (g_symbol_table T) \<le> MAX_SYMBOLS"
    "\<forall>x \<in> set (g_symbol_hash T). x < int (length (g_symbol_table T))"
    "card (used_slots (g_symbol_hash T)) = length (g_symbol_table T)"
    "\<forall>j < length (g_symbol_table T). reached (g_symbol_hash T) (symbol_name_hash (sym_name (g_symbol_table T ! j))) (int j)"
    "\<forall>s \<in> set (g_symbol_table T). c_name (sym_name s) \<and> map to_upper (sym_name s) = sym_name s \<and> sym_name s \<noteq> ''NIL'' \<and>
        address s < next_object T \<and> \<not> sym_gensym s"
    "distinct (map sym_name (g_symbol_table T))" "distinct (map address (g_symbol_table T))"
proof -
  note ok = assms [unfolded symbols_ok_def]
  show "length (g_symbol_hash T) = SYMBOL_HASH_SIZE" using ok by (rule conjunct1)
  note ok1 = ok [THEN conjunct2]
  show "length (g_symbol_table T) \<le> MAX_SYMBOLS" using ok1 by (rule conjunct1)
  note ok2 = ok1 [THEN conjunct2]
  show "\<forall>x \<in> set (g_symbol_hash T). x < int (length (g_symbol_table T))" using ok2 by (rule conjunct1)
  note ok3 = ok2 [THEN conjunct2]
  show "card (used_slots (g_symbol_hash T)) = length (g_symbol_table T)" using ok3 by (rule conjunct1)
  note ok4 = ok3 [THEN conjunct2]
  show "\<forall>j < length (g_symbol_table T). reached (g_symbol_hash T) (symbol_name_hash (sym_name (g_symbol_table T ! j))) (int j)"
    using ok4 by (rule conjunct1)
  note ok5 = ok4 [THEN conjunct2]
  show "\<forall>s \<in> set (g_symbol_table T). c_name (sym_name s) \<and> map to_upper (sym_name s) = sym_name s \<and> sym_name s \<noteq> ''NIL'' \<and>
        address s < next_object T \<and> \<not> sym_gensym s" using ok5 by (rule conjunct1)
  show "distinct (map sym_name (g_symbol_table T))" "distinct (map address (g_symbol_table T))"
    using ok5 [THEN conjunct2] by (rule conjunct1, rule conjunct2)
qed

lemma hash_updated_ok:
  assumes "length hash = SYMBOL_HASH_SIZE" "card (used_slots hash) = n" "\<forall>x \<in> set hash. x < int n" "p < SYMBOL_HASH_SIZE" "hash ! p < 0"
  shows "card (used_slots (hash[p := int n])) = Suc n" "\<forall>x \<in> set (hash[p := int n]). x < int (Suc n)"
proof -
  have "used_slots (hash[p := int n]) = insert p (used_slots hash)"
    using assms(1,4) by (auto simp: used_slots_def nth_list_update split: if_splits)
  moreover have "finite (used_slots hash)" "p \<notin> used_slots hash" using assms(5) by (auto simp: used_slots_def)
  ultimately show "card (used_slots (hash[p := int n])) = Suc n" using assms(2) by simp
  show "\<forall>x \<in> set (hash[p := int n]). x < int (Suc n)"
    using set_update_subset_insert [of hash p "int n"] assms(3) by fastforce
qed

lemma reached_here:
  assumes "k < SYMBOL_HASH_SIZE" "\<forall>i < k. 0 \<le> hash ! hash_slot h i" "length hash = SYMBOL_HASH_SIZE" "0 \<le> j"
  shows "reached (hash[hash_slot h k := j]) h j"
  unfolding reached_def
proof (intro exI [of _ k] conjI allI impI)
  show "hash[hash_slot h k := j] ! hash_slot h k = j" using assms(3) hash_slot_less [of h k] by simp
  show "0 \<le> hash[hash_slot h k := j] ! hash_slot h i" if "i < k" for i using assms(2,4) that by (simp add: update_nonneg)
qed (rule assms(1))

lemma registered_ok:
  assumes ok: "symbols_ok T" "c_name name" and room: "length (g_symbol_table T) < MAX_SYMBOLS"
    and new: "map to_upper name \<notin> sym_name ` set (g_symbol_table T)" "map to_upper name \<noteq> ''NIL''"
  shows "symbols_ok (registered T name)"
proof -
  let ?h = "symbol_name_hash name" and ?sym = "\<lparr>address = next_object T + 1, sym_name = map to_upper name, sym_gensym = False\<rparr>"
  define hash table where "hash = g_symbol_hash T" and "table = g_symbol_table T"
  note ok' = symbols_okD [OF ok(1), folded hash_def table_def]
  have "card (used_slots hash) < SYMBOL_HASH_SIZE"
    using room ok'(4) by (simp add: MAX_SYMBOLS_def SYMBOL_HASH_SIZE_def table_def)
  then obtain k where k: "k < SYMBOL_HASH_SIZE" "hash ! hash_slot ?h k < 0" "\<forall>i < k. 0 \<le> hash ! hash_slot ?h i"
    by (rule free_slot)
  define p where "p = hash_slot ?h k"
  have p: "p < SYMBOL_HASH_SIZE" "hash ! p < 0" using hash_slot_less k(2) by (simp_all add: p_def)
  have "symbol_hash_insert hash (int (length table)) name = hash[p := int (length table)]"
    unfolding symbol_hash_insert_def p_def by (rule insert_from_free [OF k(2,3,1)]) simp
  then have T': "g_symbol_hash (registered T name) = hash[p := int (length table)]"
      "g_symbol_table (registered T name) = table @ [?sym]" "next_object (registered T name) = next_object T + 2"
    by (simp_all add: registered_def hash_def table_def)
  have "reached (hash[p := int (length table)]) (symbol_name_hash (map to_upper name)) (int (length table))"
    unfolding hash_upper p_def by (rule reached_here [OF k(1,3) ok'(1)]) simp
  moreover have "reached (hash[p := int (length table)]) (symbol_name_hash (sym_name (table ! j))) (int j)" if "j < length table" for j
    by (rule reached_update) (use that ok'(1,5) p in auto)
  ultimately have reach: "\<forall>j < length (table @ [?sym]). reached (hash[p := int (length table)]) (symbol_name_hash (sym_name ((table @ [?sym]) ! j))) (int j)"
    by (simp add: less_Suc_eq nth_append)
  have names: "c_name (map to_upper name)" using ok(2) by (simp only: c_name_upper)
  have old: "\<forall>s \<in> set table. address s < next_object T" using ok'(6) by blast
  then have fresh: "next_object T + 1 \<notin> address ` set table" and later: "\<forall>s \<in> set table. address s < next_object T + 2"
    using old by auto
  have each: "\<forall>s \<in> set (table @ [?sym]). c_name (sym_name s) \<and> map to_upper (sym_name s) = sym_name s \<and> sym_name s \<noteq> ''NIL'' \<and>
        address s < next_object T + 2 \<and> \<not> sym_gensym s"
    unfolding set_append ball_Un using ok'(6) later names new(2) by (simp add: comp_def)
  have "distinct (map sym_name (table @ [?sym]))" "distinct (map address (table @ [?sym]))"
    using ok'(7,8) new(1) fresh by (simp_all add: table_def)
  moreover have "length (table @ [?sym]) \<le> MAX_SYMBOLS" using room by (simp add: table_def)
  moreover have "card (used_slots (hash[p := int (length table)])) = length (table @ [?sym])"
      "\<forall>x \<in> set (hash[p := int (length table)]). x < int (length (table @ [?sym]))"
    using hash_updated_ok [OF ok'(1,4,3) p] by simp_all
  moreover have "length (hash[p := int (length table)]) = SYMBOL_HASH_SIZE" using ok'(1) by simp
  ultimately show ?thesis using reach each unfolding symbols_ok_def T' by (intro conjI)
qed

subsection \<open>Interning\<close>

lemma nil_name:
  assumes "c_name name"
  shows "strncmpignorecase ''NIL'' name 3 = 0 \<and> drop 3 name = [] \<longleftrightarrow> map to_upper name = ''NIL''"
proof -
  have "c_name ''NIL''" by (simp add: c_name_def)
  then have "strncmpignorecase ''NIL'' name (length ''NIL'') = 0 \<and> drop (length ''NIL'') name = [] \<longleftrightarrow>
      map to_upper ''NIL'' = map to_upper name" by (rule strncmp_zero [OF _ assms])
  moreover have "length ''NIL'' = 3" by simp
  moreover have "map to_upper ''NIL'' = ''NIL''" by (simp add: to_upper_def code_def)
  ultimately show ?thesis by (simp only: eq_commute [of "''NIL''"])
qed

lemma intern_cases:
  assumes "symbols_ok T" "c_name name"
  shows "intern name T = (if map to_upper name = ''NIL'' then Some (None, T)
      else case find_symbol T name of
        Some s \<Rightarrow> Some (Some s, T)
      | None \<Rightarrow> if MAX_SYMBOLS \<le> length (g_symbol_table T) then None
          else Some (Some \<lparr>address = next_object T + 1, sym_name = map to_upper name, sym_gensym = False\<rparr>, registered T name))"
proof (cases "map to_upper name = ''NIL''")
  case True
  then have "strncmpignorecase ''NIL'' name 3 = 0 \<and> drop 3 name = []" by (simp only: nil_name [OF assms(2)])
  then have "intern name T = Some (None, T)" unfolding intern_def by (simp only: if_True simp_thms)
  then show ?thesis by (simp only: True if_True simp_thms)
next
  case False
  then have "\<not> (strncmpignorecase ''NIL'' name 3 = 0 \<and> drop 3 name = [])" by (simp only: nil_name [OF assms(2)] not_False_eq_True)
  then have eq: "intern name T = (if 0 \<le> symbol_hash_lookup T name then Some (Some (g_symbol_table T ! nat (symbol_hash_lookup T name)), T)
              else if MAX_SYMBOLS \<le> length (g_symbol_table T) then None
              else Some (Some \<lparr>address = next_object T + 1, sym_name = map to_upper name, sym_gensym = False\<rparr>, registered T name))"
    unfolding intern_def by (simp only: if_False new_symbol_def registered_def Let_def prod.case) simp
  show ?thesis using symbol_hash_lookup_find [OF assms] False unfolding eq by (cases "find_symbol T name") auto
qed

lemma find_symbol_None: "find_symbol T name = None \<longleftrightarrow> map to_upper name \<notin> sym_name ` set (g_symbol_table T)"
  unfolding find_symbol_def find_None_iff by (metis imageE image_eqI)

lemma find_symbol_Some:
  assumes "find_symbol T name = Some s"
  shows "s \<in> set (g_symbol_table T)" "sym_name s = map to_upper name"
  using assms by (auto simp: find_symbol_def find_Some_iff)

lemma intern_ok:
  assumes "symbols_ok T" "c_name name" "intern name T = Some (r, T')"
  shows "symbols_ok T'" "\<exists>ext. g_symbol_table T' = g_symbol_table T @ ext"
    "(case r of None \<Rightarrow> map to_upper name = ''NIL'' | Some s \<Rightarrow> map to_upper name \<noteq> ''NIL'' \<and> s \<in> set (g_symbol_table T') \<and> sym_name s = map to_upper name)"
proof -
  have "symbols_ok T' \<and> (\<exists>ext. g_symbol_table T' = g_symbol_table T @ ext) \<and>
    (case r of None \<Rightarrow> map to_upper name = ''NIL'' | Some s \<Rightarrow> map to_upper name \<noteq> ''NIL'' \<and> s \<in> set (g_symbol_table T') \<and> sym_name s = map to_upper name)"
  proof (cases "map to_upper name = ''NIL''")
    case False
    then show ?thesis
    proof (cases "find_symbol T name")
      case None
      then have "length (g_symbol_table T) < MAX_SYMBOLS" "T' = registered T name"
          "r = Some \<lparr>address = next_object T + 1, sym_name = map to_upper name, sym_gensym = False\<rparr>"
        using assms False by (auto simp: intern_cases split: if_splits)
      then show ?thesis using registered_ok [OF assms(1,2)] None [unfolded find_symbol_None] False by (simp add: registered_def)
    next
      case (Some s)
      then have "r = Some s" "T' = T" using assms False by (auto simp: intern_cases)
      then show ?thesis using assms(1) False find_symbol_Some [OF Some] by simp
    qed
  qed (use assms in \<open>simp add: intern_cases\<close>)
  then show "symbols_ok T'" "\<exists>ext. g_symbol_table T' = g_symbol_table T @ ext"
    "(case r of None \<Rightarrow> map to_upper name = ''NIL'' | Some s \<Rightarrow> map to_upper name \<noteq> ''NIL'' \<and> s \<in> set (g_symbol_table T') \<and> sym_name s = map to_upper name)"
    by blast+
qed

fun intern_all :: "string list \<Rightarrow> symbol_table \<Rightarrow> symbol_table option" where
  "intern_all [] T = Some T"
| "intern_all (name # names) T = (case intern name T of None \<Rightarrow> None | Some (_, T') \<Rightarrow> intern_all names T')"

lemma intern_all_ok:
  assumes "symbols_ok T" "\<forall>n \<in> set names. c_name n" "intern_all names T = Some T'"
  shows "symbols_ok T' \<and> (\<exists>ext. g_symbol_table T' = g_symbol_table T @ ext)"
  using assms
proof (induction names arbitrary: T)
  case (Cons name names)
  then obtain r T1 where T1: "intern name T = Some (r, T1)" "intern_all names T1 = Some T'" by (auto split: option.splits)
  show ?case using Cons.IH [of T1] Cons.prems T1 intern_ok(1,2) [OF Cons.prems(1) _ T1(1)] by fastforce
qed simp

lemma same_name_same_symbol:
  assumes "symbols_ok T" "s \<in> set (g_symbol_table T)" "t \<in> set (g_symbol_table T)"
  shows "sym_name s = sym_name t \<longleftrightarrow> s = t" "address s = address t \<longleftrightarrow> s = t"
  using symbols_okD(7,8) [OF assms(1)] assms(2,3) by (auto simp: distinct_map inj_on_def)

text \<open>The map a symbol table stands for.\<close>

definition symbol_map :: "symbol_table \<Rightarrow> string \<rightharpoonup> lsymbol" where
  "symbol_map T = map_of (map (\<lambda>s. (sym_name s, s)) (g_symbol_table T))"

lemma symbol_map_find:
  "symbol_map T (map to_upper name) = find_symbol T name"
proof -
  have "map_of (map (\<lambda>s. (sym_name s, s)) ss) n = List.find (\<lambda>s. sym_name s = n) ss" for ss n
    by (induction ss) auto
  then show ?thesis by (simp add: symbol_map_def find_symbol_def)
qed

text \<open>
  C33. Interning is get-or-add on a map from upper-case names to symbols. A name other than \<^verbatim>\<open>NIL\<close>
  that is in the map yields its symbol and changes nothing; a new name yields a symbol that is no
  other object and is added to the map, unless the table already holds 8192 symbols, where the
  system stops.
\<close>

theorem intern_refines_map:
  assumes "symbols_ok T" "c_name name" "map to_upper name \<noteq> ''NIL''"
  shows "case symbol_map T (map to_upper name) of
      Some s \<Rightarrow> intern name T = Some (Some s, T)
    | None \<Rightarrow> if length (g_symbol_table T) = MAX_SYMBOLS then intern name T = None
        else \<exists>s T'. intern name T = Some (Some s, T') \<and> symbols_ok T' \<and> address s \<notin> address ` set (g_symbol_table T) \<and>
               symbol_map T' = (symbol_map T)(map to_upper name \<mapsto> s)"
proof (cases "find_symbol T name")
  case (Some s)
  then show ?thesis using assms(3) by (simp add: symbol_map_find intern_cases [OF assms(1,2)])
next
  case None
  show ?thesis
  proof (cases "length (g_symbol_table T) = MAX_SYMBOLS")
    case True
    then show ?thesis using None assms(3) by (simp add: symbol_map_find intern_cases [OF assms(1,2)])
  next
    case False
    then have room: "length (g_symbol_table T) < MAX_SYMBOLS" using symbols_okD(2) [OF assms(1)] by simp
    let ?s = "\<lparr>address = next_object T + 1, sym_name = map to_upper name, sym_gensym = False\<rparr>"
    have "intern name T = Some (Some ?s, registered T name)"
      using None assms(3) room by (simp add: intern_cases [OF assms(1,2)])
    moreover have "symbols_ok (registered T name)"
      using registered_ok [OF assms(1,2) room] None assms(3) by (simp add: find_symbol_None)
    moreover have "address ?s \<notin> address ` set (g_symbol_table T)" using symbols_okD(6) [OF assms(1)] by auto
    moreover have "symbol_map (registered T name) = (symbol_map T)(map to_upper name \<mapsto> ?s)"
    proof
      fix n
      show "symbol_map (registered T name) n = ((symbol_map T)(map to_upper name \<mapsto> ?s)) n"
        using None [unfolded symbol_map_find [symmetric]]
        by (auto simp: symbol_map_def registered_def map_add_def split: option.splits)
    qed
    ultimately show ?thesis using None False by (simp only: symbol_map_find option.case if_False) blast
  qed
qed

text \<open>
  C34. The identity of symbols: two names that are interned at any two times, with any other names
  interned in between, yield one object exactly if they are equal without case.
\<close>

theorem interned_identity:
  assumes "symbols_ok T" "c_name a" "c_name b" "\<forall>n \<in> set names. c_name n"
    "intern a T = Some (r, T1)" "intern_all names T1 = Some T2" "intern b T2 = Some (r', T3)"
  shows "map_option address r = map_option address r' \<longleftrightarrow> map to_upper a = map to_upper b"
proof -
  note a = intern_ok [OF assms(1,2,5)]
  have T2: "symbols_ok T2" "\<exists>ext. g_symbol_table T2 = g_symbol_table T1 @ ext"
    using intern_all_ok [OF a(1) assms(4,6)] by blast+
  note b = intern_ok [OF T2(1) assms(3,7)]
  show ?thesis
  proof (cases r; cases r')
    fix s t assume r: "r = Some s" "r' = Some t"
    have "s \<in> set (g_symbol_table T3)" "t \<in> set (g_symbol_table T3)" using a(3) b(3) r T2(2) b(2) by auto
    then show ?thesis using r a(3) b(3) same_name_same_symbol [OF b(1), of s t] by simp
  qed (use a(3) b(3) in auto)
qed

lemma symbols_init_ok: "symbols_ok (symbol_table_init obj)"
proof -
  have "used_slots (replicate SYMBOL_HASH_SIZE (-1)) = {}" by (auto simp: used_slots_def)
  then show ?thesis by (simp add: symbols_ok_def symbol_table_init_def)
qed

lemma intern_room:
  assumes "symbols_ok T" "c_name name" "length (g_symbol_table T) < MAX_SYMBOLS"
  shows "\<exists>r T'. intern name T = Some (r, T') \<and> symbols_ok T' \<and> length (g_symbol_table T') \<le> Suc (length (g_symbol_table T))"
proof -
  have "\<exists>r T'. intern name T = Some (r, T') \<and> length (g_symbol_table T') \<le> Suc (length (g_symbol_table T))"
    using assms(3) by (cases "find_symbol T name") (auto simp: intern_cases [OF assms(1,2)] registered_def)
  then show ?thesis using intern_ok(1) [OF assms(1,2)] by blast
qed

lemma names_card: "symbols_ok T \<Longrightarrow> card (sym_name ` set (g_symbol_table T)) = length (g_symbol_table T)"
  using distinct_card [OF symbols_okD(7), of T] by simp

lemma intern_all_capacity:
  assumes "symbols_ok T" "\<forall>n \<in> set names. c_name n"
  shows "intern_all names T \<noteq> None \<longleftrightarrow>
    card (sym_name ` set (g_symbol_table T) \<union> (map to_upper ` set names - {''NIL''})) \<le> MAX_SYMBOLS"
  using assms
proof (induction names arbitrary: T)
  case Nil
  then show ?case using symbols_okD(2) names_card by simp
next
  case (Cons name names)
  have name: "c_name name" "\<forall>n \<in> set names. c_name n" using Cons.prems(2) by simp_all
  note cases = intern_cases [OF Cons.prems(1) name(1)]
  let ?names = "sym_name ` set (g_symbol_table T)" and ?rest = "map to_upper ` set names - {''NIL''}"
  show ?case
  proof (cases "map to_upper name = ''NIL'' \<or> find_symbol T name \<noteq> None")
    case True
    then have "\<exists>r. intern name T = Some (r, T)" by (auto simp: cases)
    moreover have "?names \<union> (map to_upper ` set (name # names) - {''NIL''}) = ?names \<union> ?rest"
      using True unfolding find_symbol_None by auto
    ultimately show ?thesis using Cons.IH [OF Cons.prems(1) name(2)] by auto
  next
    case False
    then have all: "?names \<union> (map to_upper ` set (name # names) - {''NIL''}) = insert (map to_upper name) ?names \<union> ?rest" by auto
    have new: "map to_upper name \<notin> ?names" using False by (simp add: find_symbol_None)
    have len: "card ?names = length (g_symbol_table T)" by (rule names_card [OF Cons.prems(1)])
    show ?thesis
    proof (cases "MAX_SYMBOLS \<le> length (g_symbol_table T)")
      case True
      have "Suc (length (g_symbol_table T)) = card (insert (map to_upper name) ?names)" using new len by simp
      also have "\<dots> \<le> card (insert (map to_upper name) ?names \<union> ?rest)" by (rule card_mono) auto
      finally show ?thesis using True False unfolding all by (simp add: cases)
    next
      case room: False
      have "symbols_ok (registered T name)"
        using registered_ok [OF Cons.prems(1) name(1) _ new] room False by simp
      moreover have "sym_name ` set (g_symbol_table (registered T name)) = insert (map to_upper name) ?names"
        by (auto simp: registered_def)
      moreover have "intern_all (name # names) T = intern_all names (registered T name)"
        using False room by (auto simp: cases)
      ultimately show ?thesis using Cons.IH [of "registered T name", OF _ name(2)] unfolding all by simp
    qed
  qed
qed

text \<open>The table holds any 8192 names, and no more.\<close>

theorem interning_capacity:
  assumes "\<forall>n \<in> set names. c_name n"
  shows "intern_all names (symbol_table_init obj) \<noteq> None \<longleftrightarrow> card (map to_upper ` set names - {''NIL''}) \<le> 8192"
  using intern_all_capacity [OF symbols_init_ok assms, of obj] by (simp add: symbol_table_init_def MAX_SYMBOLS_def)

lemma find_symbol_eq:
  assumes "symbols_ok T" "s \<in> set (g_symbol_table T)" "sym_name s = map to_upper name"
  shows "find_symbol T name = Some s"
proof (cases "find_symbol T name")
  case None
  then show ?thesis using assms(2,3) unfolding find_symbol_None by (metis image_eqI)
next
  case (Some t)
  then show ?thesis using same_name_same_symbol(1) [OF assms(1) find_symbol_Some(1) [OF Some] assms(2)] find_symbol_Some(2) [OF Some] assms(3)
    by simp
qed

lemma intern_again:
  assumes "symbols_ok T" "c_name name" "\<forall>n \<in> set names. c_name n" "intern name T = Some (r, T1)" "intern_all names T1 = Some T2"
  shows "intern name T2 = Some (r, T2)"
proof -
  note r = intern_ok [OF assms(1,2,4)]
  note T2 = intern_all_ok [OF r(1) assms(3,5)]
  show ?thesis
  proof (cases r)
    case None
    then show ?thesis using r(3) T2 assms(2) by (simp add: intern_cases)
  next
    case (Some s)
    then have "find_symbol T2 name = Some s" using r(3) T2 by (intro find_symbol_eq) auto
    then show ?thesis using Some r(3) T2 assms(2) by (simp add: intern_cases)
  qed
qed

lemma lookup_index:
  assumes "symbols_ok T" "c_name name" "find_symbol T name = Some s"
  shows "\<exists>j < length (g_symbol_table T). symbol_hash_lookup T name = int j \<and> g_symbol_table T ! j = s"
  using symbol_hash_lookup_find [OF assms(1,2)] assms(3) by auto

text \<open>The first call of a call site interns, and leaves the index of the symbol, or \<open>-2\<close>.\<close>

lemma first_cached_call:
  assumes "symbols_ok T" "c_name name" "os_make_symbol_cached (-1) name T = Some (r, idx, T1)"
  shows "intern name T = Some (r, T1) \<and>
    (case r of None \<Rightarrow> idx = -2 | Some s \<Rightarrow> \<exists>j < length (g_symbol_table T1). idx = int j \<and> g_symbol_table T1 ! j = s)"
proof (cases "find_symbol T name")
  case (Some s)
  then have "map to_upper name \<noteq> ''NIL''" using find_symbol_Some [OF Some] symbols_okD(6) [OF assms(1)] by metis
  then have "intern name T = Some (Some s, T)" using Some by (simp add: intern_cases [OF assms(1,2)])
  moreover obtain j where j: "j < length (g_symbol_table T)" "symbol_hash_lookup T name = int j" "g_symbol_table T ! j = s"
    using lookup_index [OF assms(1,2) Some] by blast
  moreover have "r = Some s" "idx = int j" "T1 = T" using assms(3) j by (simp_all add: os_make_symbol_cached_def)
  ultimately show ?thesis using j(1,3) by auto
next
  case None
  then have lookup: "symbol_hash_lookup T name = -1" using symbol_hash_lookup_find [OF assms(1,2)] by simp
  show ?thesis
  proof (cases "intern name T")
    case (Some rT)
    then obtain r' T' where i: "intern name T = Some (r', T')" by (cases rT) simp
    note ok = intern_ok [OF assms(1,2) i]
    show ?thesis
    proof (cases r')
      case None
      then show ?thesis using assms(3) lookup i by (auto simp: os_make_symbol_cached_def)
    next
      case (Some s)
      then have "find_symbol T' name = Some s" using ok by (intro find_symbol_eq) auto
      then obtain j where j: "j < length (g_symbol_table T')" "symbol_hash_lookup T' name = int j" "g_symbol_table T' ! j = s"
        using lookup_index [OF ok(1) assms(2)] by blast
      moreover have "r = Some s" "idx = int j" "T1 = T'" using assms(3) lookup i Some j(2) by (simp_all add: os_make_symbol_cached_def)
      ultimately show ?thesis using i Some by auto
    qed
  qed (use assms(3) lookup in \<open>simp add: os_make_symbol_cached_def\<close>)
qed

text \<open>
  C35. The cache of a call site is transparent: the first call returns what interning the name does,
  and after any further interning the cached call returns the symbol that interning the name again
  would, without changing the table.
\<close>

theorem cached_symbol_stable:
  assumes "symbols_ok T" "c_name name" "\<forall>n \<in> set names. c_name n"
    "os_make_symbol_cached (-1) name T = Some (r, idx, T1)" "intern_all names T1 = Some T2"
  shows "intern name T = Some (r, T1) \<and> intern name T2 = Some (r, T2) \<and>
    os_make_symbol_cached idx name T2 = Some (r, idx, T2)"
proof -
  note first = first_cached_call [OF assms(1,2,4)]
  then have i: "intern name T = Some (r, T1)" by blast
  obtain ext where "g_symbol_table T2 = g_symbol_table T1 @ ext"
    using intern_all_ok [OF intern_ok(1) [OF assms(1,2) i] assms(3,5)] by blast
  then have "os_make_symbol_cached idx name T2 = Some (r, idx, T2)"
    using first by (auto simp: os_make_symbol_cached_def nth_append split: option.splits)
  then show ?thesis using i intern_again [OF assms(1,2,3) i assms(5)] by simp
qed

lemma interning_starts:
  assumes "c_name a" "c_name b" "c_name n"
  shows "\<exists>r T1 T2 r' T3. intern a (symbol_table_init 0) = Some (r, T1) \<and> intern_all [n] T1 = Some T2 \<and> intern b T2 = Some (r', T3)"
proof -
  have len: "length (g_symbol_table (symbol_table_init 0)) = 0" by (simp add: symbol_table_init_def)
  obtain r T1 where T1: "intern a (symbol_table_init 0) = Some (r, T1)" "symbols_ok T1" "length (g_symbol_table T1) \<le> 1"
    using intern_room [OF symbols_init_ok assms(1), of 0] len by (auto simp: MAX_SYMBOLS_def)
  obtain rn T2 where T2: "intern n T1 = Some (rn, T2)" "symbols_ok T2" "length (g_symbol_table T2) \<le> 2"
    using intern_room [OF T1(2) assms(3)] T1(3) by (auto simp: MAX_SYMBOLS_def)
  obtain r' T3 where "intern b T2 = Some (r', T3)"
    using intern_room [OF T2(2) assms(2)] T2(3) by (auto simp: MAX_SYMBOLS_def)
  then show ?thesis using T1(1) T2(1) by fastforce
qed

theorem intern_refines_map_witness:
  "symbol_map (symbol_table_init 0) (map to_upper ''car'') = None \<and>
   (\<exists>s T'. intern ''car'' (symbol_table_init 0) = Some (Some s, T') \<and> symbol_map T' (map to_upper ''car'') = Some s)"
proof -
  have none: "symbol_map (symbol_table_init 0) (map to_upper ''car'') = None" by (simp add: symbol_map_def symbol_table_init_def)
  have "map to_upper ''car'' \<noteq> ''NIL''" by code_simp
  then show ?thesis
    using intern_refines_map [OF symbols_init_ok, of "''car''" 0] none
    by (auto simp: c_name_def symbol_table_init_def MAX_SYMBOLS_def)
qed

theorem interned_identity_witness:
  "\<exists>r T1 T2 r' T3. intern ''car'' (symbol_table_init 0) = Some (r, T1) \<and> intern_all [''cdr''] T1 = Some T2 \<and>
    intern ''CAR'' T2 = Some (r', T3) \<and> map_option address r = map_option address r'"
proof -
  have names: "c_name ''car''" "c_name ''CAR''" "c_name ''cdr''" by (simp_all add: c_name_def)
  obtain r T1 T2 r' T3 where run: "intern ''car'' (symbol_table_init 0) = Some (r, T1)" "intern_all [''cdr''] T1 = Some T2"
      "intern ''CAR'' T2 = Some (r', T3)"
    using interning_starts [OF names] by blast
  have "map to_upper ''car'' = map to_upper ''CAR''" by code_simp
  then have "map_option address r = map_option address r'"
    using interned_identity [OF symbols_init_ok names(1,2) _ run] names(3) by simp
  then show ?thesis using run by blast
qed

theorem cached_symbol_stable_witness:
  "\<exists>r idx T1. os_make_symbol_cached (-1) ''car'' (symbol_table_init 0) = Some (r, idx, T1) \<and>
    os_make_symbol_cached idx ''car'' T1 = Some (r, idx, T1) \<and> intern ''car'' T1 = Some (r, T1)"
proof -
  have name: "c_name ''car''" by (simp add: c_name_def)
  have "intern ''car'' (symbol_table_init 0) \<noteq> None" using interning_starts [OF name name name] by auto
  then have "os_make_symbol_cached (-1) ''car'' (symbol_table_init 0) \<noteq> None"
    by (auto simp: os_make_symbol_cached_def Let_def split: option.splits prod.splits)
  then obtain r idx T1 where first: "os_make_symbol_cached (-1) ''car'' (symbol_table_init 0) = Some (r, idx, T1)" by auto
  then show ?thesis using cached_symbol_stable [OF symbols_init_ok name _ first, of "[]" T1] by auto
qed

end
