(* ===== verification/ImmSpace.thy ===== *)
theory ImmSpace
  imports Gc
begin

unbundle bit_operations_syntax

text \<open>
  The immobilized space of \<^verbatim>\<open>src/c/runtime.c\<close>: pages of 4096 bytes taken from a bump pointer or from
  the list of freed pages, cells cut from pages by cursors, and the packing of compiled code, where
  every environment has a run of bytes inside its own pages and a function is placed at the start of
  the run. Addresses are offsets from \<open>g_imm_space\<close>. \<open>g_imm_free_list\<close> is the chain of free pages as a
  list. \<open>None\<close> as a result is the panic of the exhausted space.
\<close>

subsection \<open>Pages\<close>

definition IMM_PAGE_SIZE :: nat where "IMM_PAGE_SIZE = 4096"
definition IMM_SPACE_SIZE :: nat where "IMM_SPACE_SIZE = 16 * 1024 * 1024"

record imm_space =
  g_imm_bump :: nat
  g_imm_free_list :: "nat list"
  g_imm_last_request_bytes :: u64
  g_code_alloc_from_cursor :: u64
  g_code_alloc_new_page :: u64
  g_code_alloc_multipage :: u64
  g_code_tail_abandoned :: u64
  g_code_tail_abandoned_bytes :: u64
  g_code_pages_taken :: u64
  g_code_bytes_allocated :: u64
  g_code_run_extended :: u64
  g_code_multipage_waste :: u64

definition imm_space_init :: imm_space where
  "imm_space_init = \<lparr>g_imm_bump = 0, g_imm_free_list = [], g_imm_last_request_bytes = 0, g_code_alloc_from_cursor = 0,
     g_code_alloc_new_page = 0, g_code_alloc_multipage = 0, g_code_tail_abandoned = 0, g_code_tail_abandoned_bytes = 0,
     g_code_pages_taken = 0, g_code_bytes_allocated = 0, g_code_run_extended = 0, g_code_multipage_waste = 0\<rparr>"

definition os_imm_page_alloc :: "imm_space \<Rightarrow> (nat \<times> imm_space) option" where
  "os_imm_page_alloc S =
     (case g_imm_free_list S of
        page # free \<Rightarrow> Some (page, S\<lparr>g_imm_free_list := free\<rparr>)
      | [] \<Rightarrow> if IMM_SPACE_SIZE < g_imm_bump S + IMM_PAGE_SIZE then None
              else Some (g_imm_bump S, S\<lparr>g_imm_bump := g_imm_bump S + IMM_PAGE_SIZE\<rparr>))"

definition os_imm_page_free :: "nat \<Rightarrow> imm_space \<Rightarrow> imm_space" where
  "os_imm_page_free page S = S\<lparr>g_imm_free_list := page # g_imm_free_list S\<rparr>"

definition os_imm_pages_alloc_contiguous :: "nat \<Rightarrow> imm_space \<Rightarrow> nat option \<times> imm_space" where
  "os_imm_pages_alloc_contiguous n S =
     (let needed = n * IMM_PAGE_SIZE
      in if IMM_SPACE_SIZE < g_imm_bump S + needed then (None, S)
         else (Some (g_imm_bump S), S\<lparr>g_imm_bump := g_imm_bump S + needed\<rparr>))"

definition os_imm_pages_used_for_test :: "imm_space \<Rightarrow> nat" where
  "os_imm_pages_used_for_test S = g_imm_bump S div IMM_PAGE_SIZE"

subsection \<open>Cells cut from pages\<close>

record imm_slot_cursor =
  cursor_page :: "nat option"
  cursor_offset :: u64

definition os_imm_slot_alloc :: "u64 \<Rightarrow> imm_slot_cursor \<Rightarrow> imm_space \<Rightarrow> (nat \<times> imm_slot_cursor \<times> imm_space) option" where
  "os_imm_slot_alloc n cursor S =
     (let aligned = os_heap_align_up n;
          S = S\<lparr>g_imm_last_request_bytes := aligned\<rparr>
      in case (if cursor_page cursor = None \<or> of_nat IMM_PAGE_SIZE < cursor_offset cursor + aligned
               then (case os_imm_page_alloc S of None \<Rightarrow> None | Some (p, S) \<Rightarrow> Some (p, 0, S))
               else Some (the (cursor_page cursor), cursor_offset cursor, S)) of
           None \<Rightarrow> None
         | Some (p, off, S) \<Rightarrow> Some (p + unat off, \<lparr>cursor_page = Some p, cursor_offset = off + aligned\<rparr>, S))"

definition os_imm_space_used_bytes :: "imm_slot_cursor \<Rightarrow> imm_slot_cursor \<Rightarrow> imm_space \<Rightarrow> u64" where
  "os_imm_space_used_bytes fn_meta function_cell S =
     (let used = of_nat (g_imm_bump S);
          used = (if cursor_page fn_meta \<noteq> None then used - (of_nat IMM_PAGE_SIZE - cursor_offset fn_meta) else used)
      in if cursor_page function_cell \<noteq> None then used - (of_nat IMM_PAGE_SIZE - cursor_offset function_cell) else used)"

subsection \<open>Placing compiled code\<close>

text \<open>
  The slot of an environment that holds its run: \<open>None\<close> when it has no such slot (a frame), \<open>Some None\<close>
  when the slot holds \<^verbatim>\<open>nil\<close>, else the fixnum with the start of the free bytes in its low 32 bits and
  the end of the run above them.
\<close>

type_synonym code_slot = "u64 option option"

definition pack_run :: "u64 \<Rightarrow> u64 \<Rightarrow> u64" where
  "pack_run lim off = os_make_fixnum (push_bit 32 lim OR off)"

definition run_off :: "u64 \<Rightarrow> u64" where "run_off cur = os_fixnum_magnitude cur AND 0xFFFFFFFF"
definition run_end :: "u64 \<Rightarrow> u64" where "run_end cur = drop_bit 32 (os_fixnum_magnitude cur)"

text \<open>The address, or \<open>None\<close> for null, with the first of the new pages and their number.\<close>

record placed =
  code_addr :: "nat option"
  new_pages :: nat
  new_page_count :: nat

definition code_aligned :: "u64 \<Rightarrow> u64" where "code_aligned n = (n + 15) AND NOT 15"

definition code_multipage :: "u64 \<Rightarrow> code_slot \<Rightarrow> imm_space \<Rightarrow> placed \<times> code_slot \<times> imm_space" where
  "code_multipage aligned slot S =
     (let n = unat ((aligned + of_nat IMM_PAGE_SIZE - 1) div of_nat IMM_PAGE_SIZE)
      in case os_imm_pages_alloc_contiguous n S of
           (None, S) \<Rightarrow> (\<lparr>code_addr = None, new_pages = 0, new_page_count = 0\<rparr>, slot, S)
         | (Some pages, S) \<Rightarrow>
             (\<lparr>code_addr = Some pages, new_pages = pages, new_page_count = n\<rparr>, slot,
              S\<lparr>g_code_alloc_multipage := g_code_alloc_multipage S + 1, g_code_pages_taken := g_code_pages_taken S + of_nat n,
                g_code_bytes_allocated := g_code_bytes_allocated S + aligned,
                g_code_multipage_waste := g_code_multipage_waste S + (of_nat n * of_nat IMM_PAGE_SIZE - aligned)\<rparr>))"

definition code_new_page :: "u64 \<Rightarrow> code_slot \<Rightarrow> imm_space \<Rightarrow> (placed \<times> code_slot \<times> imm_space) option" where
  "code_new_page aligned slot S =
     (case os_imm_page_alloc S of
        None \<Rightarrow> None
      | Some (page, S) \<Rightarrow>
          Some (\<lparr>code_addr = Some page, new_pages = page, new_page_count = 1\<rparr>,
            (case slot of None \<Rightarrow> None | Some _ \<Rightarrow> Some (Some (pack_run (of_nat page + of_nat IMM_PAGE_SIZE) (of_nat page + aligned)))),
            S\<lparr>g_code_alloc_new_page := g_code_alloc_new_page S + 1, g_code_pages_taken := g_code_pages_taken S + 1,
              g_code_bytes_allocated := g_code_bytes_allocated S + aligned\<rparr>))"

definition code_run_extend :: "u64 \<Rightarrow> u64 \<Rightarrow> u64 \<Rightarrow> imm_space \<Rightarrow> (placed \<times> code_slot \<times> imm_space) option" where
  "code_run_extend aligned off lim S =
     (if unat lim \<noteq> g_imm_bump S then None
      else case os_imm_pages_alloc_contiguous 1 S of
        (None, _) \<Rightarrow> None
      | (Some page, S) \<Rightarrow>
          Some (\<lparr>code_addr = Some (unat off), new_pages = page, new_page_count = 1\<rparr>,
            Some (Some (pack_run (lim + of_nat IMM_PAGE_SIZE) (off + aligned))),
            S\<lparr>g_code_run_extended := g_code_run_extended S + 1, g_code_pages_taken := g_code_pages_taken S + 1,
              g_code_bytes_allocated := g_code_bytes_allocated S + aligned\<rparr>))"

definition os_imm_code_alloc :: "u64 \<Rightarrow> code_slot \<Rightarrow> imm_space \<Rightarrow> (placed \<times> code_slot \<times> imm_space) option" where
  "os_imm_code_alloc n slot S =
     (let aligned = code_aligned n;
          S = S\<lparr>g_imm_last_request_bytes := aligned\<rparr>
      in if of_nat IMM_PAGE_SIZE < aligned then Some (code_multipage aligned slot S)
         else case slot of
           Some (Some cur) \<Rightarrow>
             (let off = run_off cur; lim = run_end cur
              in if aligned \<le> lim - off then
                   Some (\<lparr>code_addr = Some (unat off), new_pages = 0, new_page_count = 0\<rparr>,
                     Some (Some (pack_run lim (off + aligned))),
                     S\<lparr>g_code_alloc_from_cursor := g_code_alloc_from_cursor S + 1,
                       g_code_bytes_allocated := g_code_bytes_allocated S + aligned\<rparr>)
                 else case code_run_extend aligned off lim S of
                   Some r \<Rightarrow> Some r
                 | None \<Rightarrow> code_new_page aligned slot
                     (if off < lim then S\<lparr>g_code_tail_abandoned := g_code_tail_abandoned S + 1,
                        g_code_tail_abandoned_bytes := g_code_tail_abandoned_bytes S + (lim - off)\<rparr> else S))
         | _ \<Rightarrow> code_new_page aligned slot S)"

subsection \<open>Environments that own pages\<close>

record code_owner =
  code_cursor :: code_slot
  pages_slot :: "nat list"

definition os_environment_register_pages :: "nat \<Rightarrow> nat \<Rightarrow> code_owner \<Rightarrow> code_owner" where
  "os_environment_register_pages first n E =
     E\<lparr>pages_slot := fold (\<lambda>i ps. (first + i * IMM_PAGE_SIZE) # ps) [0..<n] (pages_slot E)\<rparr>"

definition os_environment_reclaim_pages :: "code_owner \<Rightarrow> imm_space \<Rightarrow> code_owner \<times> imm_space" where
  "os_environment_reclaim_pages E S =
     (E\<lparr>code_cursor := (case code_cursor E of None \<Rightarrow> None | Some _ \<Rightarrow> Some None), pages_slot := []\<rparr>,
      fold os_imm_page_free (pages_slot E) S)"

text \<open>What compiling a function does with the space: place the code and register the pages that are new.\<close>

definition place_code :: "u64 \<Rightarrow> code_owner \<Rightarrow> imm_space \<Rightarrow> (nat option \<times> code_owner \<times> imm_space) option" where
  "place_code n E S =
     (case os_imm_code_alloc n (code_cursor E) S of
        None \<Rightarrow> None
      | Some (p, slot, S) \<Rightarrow>
          let E = E\<lparr>code_cursor := slot\<rparr>
          in Some (code_addr p,
               if code_addr p \<noteq> None \<and> new_page_count p \<noteq> 0 then os_environment_register_pages (new_pages p) (new_page_count p) E else E, S))"

subsection \<open>The packed run\<close>

lemma take_bit_small: "unat (w :: u64) < 2 ^ n \<Longrightarrow> take_bit n w = w"
proof -
  assume "unat w < 2 ^ n"
  then have "take_bit n (unat w) = unat w" by (simp only: take_bit_nat_eq_self_iff)
  then show ?thesis unfolding word_eq_iff_unat by (simp only: unsigned_take_bit_eq)
qed

lemma make_fixnum_magnitude: "unat m < 2 ^ 59 \<Longrightarrow> os_fixnum_magnitude (os_make_fixnum m) = m"
  using make_fixnum_signed(1) [of m False] by (simp add: os_make_fixnum_def os_make_fixnum_signed_def)

lemma run_pack:
  assumes "unat off < 2 ^ 32" "unat lim < 2 ^ 27"
  shows "run_off (pack_run lim off) = off" "run_end (pack_run lim off) = lim"
proof -
  let ?x = "push_bit 32 lim OR off"
  have off: "take_bit 32 off = off" by (rule take_bit_small [OF assms(1)])
  then have "drop_bit 32 off = 0" by (metis bit.conj_zero_left drop_bit_take_bit take_bit_0 cancel_comm_monoid_add_class.diff_cancel)
  moreover have "drop_bit 32 (push_bit 32 lim) = lim"
  proof -
    have lim: "take_bit 27 lim = lim" by (rule take_bit_small [OF assms(2)])
    have "n < 32" if "bit lim n" for n
    proof -
      have "n < 27" using that by (metis lim bit_take_bit_iff)
      then show ?thesis by simp
    qed
    then show ?thesis by (intro bit_word_eqI) (auto simp: bit_simps)
  qed
  ultimately have hi: "drop_bit 32 ?x = lim" by simp
  have lo: "?x AND 0xFFFFFFFF = off"
  proof -
    have "?x AND 0xFFFFFFFF = take_bit 32 ?x" by (simp add: take_bit_eq_mask mask_eq_exp_minus_1)
    also have "\<dots> = take_bit 32 (push_bit 32 lim) OR off" by (simp only: take_bit_or off)
    also have "take_bit 32 (push_bit 32 lim) = 0" by (rule bit_word_eqI) (auto simp: bit_simps)
    finally show ?thesis by simp
  qed
  have "unat ?x < 2 ^ 59" using unat_split32 [of ?x] assms unfolding hi lo by simp
  then have "os_fixnum_magnitude (pack_run lim off) = ?x" unfolding pack_run_def by (rule make_fixnum_magnitude)
  then show "run_off (pack_run lim off) = off" "run_end (pack_run lim off) = lim"
    unfolding run_off_def run_end_def using hi lo by simp_all
qed

lemma code_aligned_nat: "unat n + 15 < 2 ^ 64 \<Longrightarrow> unat (code_aligned n) = aligned_up (unat n)"
  using os_heap_align_up_nat [of n] by (simp add: code_aligned_def os_heap_align_up_def OS_HEAP_ALIGN_def)

subsection \<open>Who owns which bytes\<close>

definition page_of :: "nat \<Rightarrow> nat" where "page_of x = x - x mod IMM_PAGE_SIZE"

definition owned_bytes :: "code_owner \<Rightarrow> nat set" where "owned_bytes E = {x. page_of x \<in> set (pages_slot E)}"

definition run_bytes :: "code_slot \<Rightarrow> nat set" where
  "run_bytes slot = (case slot of Some (Some cur) \<Rightarrow> {unat (run_off cur)..<unat (run_end cur)} | _ \<Rightarrow> {})"

definition space_ok :: "imm_space \<Rightarrow> bool" where
  "space_ok S \<longleftrightarrow> IMM_PAGE_SIZE dvd g_imm_bump S \<and> g_imm_bump S \<le> IMM_SPACE_SIZE \<and> distinct (g_imm_free_list S) \<and>
     (\<forall>p \<in> set (g_imm_free_list S). IMM_PAGE_SIZE dvd p \<and> p < g_imm_bump S)"

text \<open>The run of a slot ends inside the space that is in use and starts at a multiple of 16.\<close>

definition slot_ok :: "code_slot \<Rightarrow> imm_space \<Rightarrow> bool" where
  "slot_ok slot S \<longleftrightarrow> (\<forall>cur. slot = Some (Some cur) \<longrightarrow>
     unat (run_off cur) \<le> unat (run_end cur) \<and> unat (run_end cur) \<le> g_imm_bump S \<and> 16 dvd unat (run_off cur))"

definition owner_ok :: "code_owner \<Rightarrow> imm_space \<Rightarrow> bool" where
  "owner_ok E S \<longleftrightarrow> distinct (pages_slot E) \<and> (\<forall>p \<in> set (pages_slot E). IMM_PAGE_SIZE dvd p \<and> p < g_imm_bump S) \<and>
     set (pages_slot E) \<inter> set (g_imm_free_list S) = {} \<and> slot_ok (code_cursor E) S \<and> run_bytes (code_cursor E) \<subseteq> owned_bytes E"

text \<open>
  What placing \<open>len\<close> bytes at \<open>a\<close> with the new pages \<open>fresh\<close> may do: the new pages come from the free
  list or the bump pointer, the code lies in the old run or in the new pages, and so does the new run,
  which does not overlap the code.
\<close>

definition placement :: "code_slot \<Rightarrow> imm_space \<Rightarrow> nat \<Rightarrow> nat \<Rightarrow> nat list \<Rightarrow> code_slot \<Rightarrow> imm_space \<Rightarrow> bool" where
  "placement slot S a len fresh slot' S' \<longleftrightarrow>
     space_ok S' \<and> g_imm_bump S \<le> g_imm_bump S' \<and> set (g_imm_free_list S') \<subseteq> set (g_imm_free_list S) \<and>
     distinct fresh \<and> set fresh \<subseteq> set (g_imm_free_list S) \<union> {g_imm_bump S..} \<and> set fresh \<inter> set (g_imm_free_list S') = {} \<and>
     (\<forall>p \<in> set fresh. IMM_PAGE_SIZE dvd p \<and> p < g_imm_bump S') \<and>
     slot_ok slot' S' \<and> 16 dvd a \<and> {a..<a + len} \<inter> run_bytes slot' = {} \<and>
     {a..<a + len} \<union> run_bytes slot' \<subseteq> run_bytes slot \<union> {x. page_of x \<in> set fresh}"

lemma page_of_in: "IMM_PAGE_SIZE dvd p \<Longrightarrow> p \<le> x \<Longrightarrow> x < p + IMM_PAGE_SIZE \<Longrightarrow> page_of x = p"
proof -
  assume "IMM_PAGE_SIZE dvd p" "p \<le> x" "x < p + IMM_PAGE_SIZE"
  then obtain d k where "x = p + d" "d < IMM_PAGE_SIZE" "p = IMM_PAGE_SIZE * k"
    by (metis add_less_cancel_left dvdE le_Suc_ex)
  then show ?thesis by (simp add: page_of_def)
qed

lemma page_of_dvd: "IMM_PAGE_SIZE dvd page_of x" "page_of x \<le> x" "x < page_of x + IMM_PAGE_SIZE"
  by (simp_all add: page_of_def dvd_minus_mod) (simp add: IMM_PAGE_SIZE_def)

lemma pages_bytes:
  assumes "IMM_PAGE_SIZE dvd first" "first \<le> x" "x < first + n * IMM_PAGE_SIZE"
  shows "\<exists>i < n. page_of x = first + i * IMM_PAGE_SIZE"
proof -
  let ?i = "(x - first) div IMM_PAGE_SIZE"
  have pos: "0 < IMM_PAGE_SIZE" by (simp add: IMM_PAGE_SIZE_def)
  have "?i < n" using assms(2,3) by (simp add: less_mult_imp_div_less)
  moreover have "page_of x = first + ?i * IMM_PAGE_SIZE"
  proof (rule page_of_in)
    have "?i * IMM_PAGE_SIZE \<le> x - first" by simp
    then show "first + ?i * IMM_PAGE_SIZE \<le> x" using assms(2) by linarith
    have "x - first < ?i * IMM_PAGE_SIZE + IMM_PAGE_SIZE" using div_mult_mod_eq [of "x - first" IMM_PAGE_SIZE] mod_less_divisor [OF pos, of "x - first"] by linarith
    then show "x < first + ?i * IMM_PAGE_SIZE + IMM_PAGE_SIZE" using assms(2) by linarith
  qed (use assms(1) in simp)
  ultimately show ?thesis by blast
qed

subsection \<open>Each way of placing code is a placement\<close>

lemma page_alloc:
  assumes "space_ok S" "os_imm_page_alloc S = Some (p, S')"
  shows "space_ok S'" "g_imm_bump S \<le> g_imm_bump S'" "set (g_imm_free_list S') \<subseteq> set (g_imm_free_list S)"
    "p \<in> set (g_imm_free_list S) \<union> {g_imm_bump S..}" "p \<notin> set (g_imm_free_list S')" "IMM_PAGE_SIZE dvd p" "p + IMM_PAGE_SIZE \<le> g_imm_bump S'"
proof -
  have next_page: "p + IMM_PAGE_SIZE \<le> b" if "IMM_PAGE_SIZE dvd p" "IMM_PAGE_SIZE dvd b" "p < b" for b
    using that by (metis dvd_add_triv_right_iff dvd_imp_le dvd_minus_self less_imp_le_nat zero_less_diff add.commute le_diff_conv2 dvd_diff_nat)
  show "space_ok S'" "g_imm_bump S \<le> g_imm_bump S'" "set (g_imm_free_list S') \<subseteq> set (g_imm_free_list S)"
    "p \<in> set (g_imm_free_list S) \<union> {g_imm_bump S..}" "p \<notin> set (g_imm_free_list S')" "IMM_PAGE_SIZE dvd p" "p + IMM_PAGE_SIZE \<le> g_imm_bump S'"
    using assms next_page [of "g_imm_bump S"]
    by (auto simp: os_imm_page_alloc_def space_ok_def split: list.splits if_splits)
qed

lemma contiguous:
  assumes "space_ok S" "os_imm_pages_alloc_contiguous n S = (Some p, S')"
  shows "p = g_imm_bump S" "S' = S\<lparr>g_imm_bump := g_imm_bump S + n * IMM_PAGE_SIZE\<rparr>" "space_ok S'"
proof -
  show S': "p = g_imm_bump S" "S' = S\<lparr>g_imm_bump := g_imm_bump S + n * IMM_PAGE_SIZE\<rparr>"
    using assms(2) by (auto simp: os_imm_pages_alloc_contiguous_def Let_def split: if_splits)
  have "g_imm_bump S + n * IMM_PAGE_SIZE \<le> IMM_SPACE_SIZE"
    using assms(2) by (auto simp: os_imm_pages_alloc_contiguous_def Let_def split: if_splits)
  then show "space_ok S'" using assms(1) unfolding S'(2) by (simp add: space_ok_def trans_less_add1)
qed

definition run_of :: "nat list \<Rightarrow> nat \<Rightarrow> nat \<Rightarrow> nat list" where
  "run_of ps first n = fold (\<lambda>i ps. (first + i * IMM_PAGE_SIZE) # ps) [0..<n] ps"

lemma run_of: "run_of ps first n = rev (map (\<lambda>i. first + i * IMM_PAGE_SIZE) [0..<n]) @ ps"
  by (induction n) (auto simp: run_of_def)

abbreviation fresh_pages :: "placed \<Rightarrow> nat list" where
  "fresh_pages p \<equiv> rev (map (\<lambda>i. new_pages p + i * IMM_PAGE_SIZE) [0..<new_page_count p])"

text \<open>The counters do not matter.\<close>

lemma space_ok_cong:
  "g_imm_bump S = g_imm_bump T \<Longrightarrow> g_imm_free_list S = g_imm_free_list T \<Longrightarrow> space_ok S = space_ok T"
  by (simp add: space_ok_def)

lemma word_page: "p + IMM_PAGE_SIZE \<le> IMM_SPACE_SIZE \<Longrightarrow> unat len \<le> IMM_PAGE_SIZE \<Longrightarrow>
    unat (of_nat p + len :: u64) = p + unat len \<and> unat (of_nat p + of_nat IMM_PAGE_SIZE :: u64) = p + IMM_PAGE_SIZE"
proof -
  assume p: "p + IMM_PAGE_SIZE \<le> IMM_SPACE_SIZE" and len: "unat len \<le> IMM_PAGE_SIZE"
  have u: "unat (of_nat p :: u64) = p" "unat (of_nat IMM_PAGE_SIZE :: u64) = IMM_PAGE_SIZE"
    using p by (simp_all add: unat_of_nat IMM_SPACE_SIZE_def IMM_PAGE_SIZE_def)
  show ?thesis
    using p len unat_add_no_wrap64 [of "of_nat p" len] unat_add_no_wrap64 [of "of_nat p" "of_nat IMM_PAGE_SIZE"]
    unfolding u by (simp add: IMM_SPACE_SIZE_def IMM_PAGE_SIZE_def)
qed

text \<open>A run with its code in front, at the offsets the words stand for.\<close>

lemma packed_run:
  assumes "unat off = a" "unat lim = b" "a \<le> b" "b \<le> IMM_SPACE_SIZE"
  shows "run_bytes (Some (Some (pack_run lim off))) = {a..<b}" "slot_ok (Some (Some (pack_run lim off))) S \<longleftrightarrow> b \<le> g_imm_bump S \<and> 16 dvd a"
proof -
  have "unat off < 2 ^ 32" "unat lim < 2 ^ 27" using assms by (simp_all add: IMM_SPACE_SIZE_def)
  note pack = run_pack [OF this]
  show "run_bytes (Some (Some (pack_run lim off))) = {a..<b}" "slot_ok (Some (Some (pack_run lim off))) S \<longleftrightarrow> b \<le> g_imm_bump S \<and> 16 dvd a"
    using assms by (simp_all add: run_bytes_def slot_ok_def pack)
qed

lemma new_page_placement:
  assumes "space_ok S" "16 dvd unat len" "unat len \<le> IMM_PAGE_SIZE" "code_new_page len slot S = Some (p, slot', S')"
  shows "\<exists>a. code_addr p = Some a \<and> placement slot S a (unat len) (fresh_pages p) slot' S'"
proof -
  obtain pg T where pg: "os_imm_page_alloc S = Some (pg, T)"
    using assms(4) by (auto simp: code_new_page_def split: option.splits)
  note ok = page_alloc [OF assms(1) pg]
  have p: "p = \<lparr>code_addr = Some pg, new_pages = pg, new_page_count = 1\<rparr>" "g_imm_bump S' = g_imm_bump T" "g_imm_free_list S' = g_imm_free_list T"
    and slot': "slot' = (case slot of None \<Rightarrow> None | Some _ \<Rightarrow> Some (Some (pack_run (of_nat pg + of_nat IMM_PAGE_SIZE) (of_nat pg + len))))"
    using assms(4) pg by (auto simp: code_new_page_def)
  have S': "space_ok S'" using ok(1) space_ok_cong [OF p(2,3)] by simp
  have le: "pg + IMM_PAGE_SIZE \<le> IMM_SPACE_SIZE" using ok(1,7) by (simp add: space_ok_def)
  note w = word_page [OF le assms(3)]
  note run = packed_run [OF conjunct1 [OF w] conjunct2 [OF w] _ le]
  have al: "16 dvd pg" using ok(6) dvd_trans [of 16 IMM_PAGE_SIZE pg] by (simp add: IMM_PAGE_SIZE_def)
  have bytes: "page_of x = pg" if "pg \<le> x" "x < pg + IMM_PAGE_SIZE" for x by (rule page_of_in [OF ok(6) that])
  have slot_ok: "slot_ok slot' S'"
    using run(2) [of S'] assms(2,3) ok(7) p(2) al by (cases slot) (simp_all add: slot' slot_ok_def)
  have run': "run_bytes slot' \<subseteq> {pg + unat len..<pg + IMM_PAGE_SIZE}"
    using run(1) assms(3) by (cases slot) (auto simp: slot' run_bytes_def)
  have "placement slot S pg (unat len) [pg] slot' S'"
    unfolding placement_def
    using S' ok p al slot_ok run' bytes assms(3) by (auto simp: IMM_PAGE_SIZE_def)
  then show ?thesis by (simp add: p)
qed

lemma multipage_placement:
  assumes "space_ok S" "slot_ok slot S" "run_bytes slot \<subseteq> {..<g_imm_bump S}" "unat len < 2 ^ 32"
    "code_multipage len slot S = (p, slot', S')" "code_addr p = Some a"
  shows "placement slot S a (unat len) (fresh_pages p) slot' S'"
proof -
  let ?n = "unat ((len + of_nat IMM_PAGE_SIZE - 1) div of_nat IMM_PAGE_SIZE)"
  obtain T where T: "os_imm_pages_alloc_contiguous ?n S = (Some a, T)"
      and p: "p = \<lparr>code_addr = Some a, new_pages = a, new_page_count = ?n\<rparr>" "slot' = slot"
        "g_imm_bump S' = g_imm_bump T" "g_imm_free_list S' = g_imm_free_list T"
    using assms(5,6) by (auto simp: code_multipage_def Let_def split: prod.splits option.splits)
  note ok = contiguous [OF assms(1) T]
  have S': "space_ok S'" using ok(3) space_ok_cong [OF p(3,4)] by simp
  have n: "?n = (unat len + IMM_PAGE_SIZE - 1) div IMM_PAGE_SIZE"
  proof -
    have "unat (len + of_nat IMM_PAGE_SIZE - 1) = unat len + IMM_PAGE_SIZE - 1"
      using assms(4) unat_add_no_wrap64 [of len "of_nat IMM_PAGE_SIZE"] unat_sub_no_wrap64 [of 1 "len + of_nat IMM_PAGE_SIZE"]
      by (simp add: IMM_PAGE_SIZE_def)
    then show ?thesis by (simp add: unat_div IMM_PAGE_SIZE_def)
  qed
  have cover: "unat len \<le> ?n * IMM_PAGE_SIZE" unfolding n by (simp add: IMM_PAGE_SIZE_def)
  have al: "IMM_PAGE_SIZE dvd a" "16 dvd a" using assms(1) ok(1) dvd_trans [of 16 IMM_PAGE_SIZE a] by (simp_all add: space_ok_def IMM_PAGE_SIZE_def)
  have bytes: "page_of x \<in> set (fresh_pages p)" if "a \<le> x" "x < a + unat len" for x
    using pages_bytes [OF al(1) that(1), of ?n] that(2) cover by (auto simp: p)
  have distinct: "distinct (fresh_pages p)" by (auto simp: p distinct_map inj_on_def IMM_PAGE_SIZE_def)
  have pos: "0 < IMM_PAGE_SIZE" by (simp add: IMM_PAGE_SIZE_def)
  have free: "\<forall>q \<in> set (g_imm_free_list S). q < a" using assms(1) ok(1) by (simp add: space_ok_def)
  have slot': "slot_ok slot S'" using assms(2) ok(2) p(3) by (auto simp: slot_ok_def intro: trans_le_add1)
  have bump: "g_imm_bump S' = a + ?n * IMM_PAGE_SIZE" "g_imm_free_list S' = g_imm_free_list S" using ok(1,2) p(3,4) by simp_all
  show ?thesis
    unfolding placement_def
  proof (intro conjI)
    show "g_imm_bump S \<le> g_imm_bump S'" using bump ok(1) by simp
    show "set (g_imm_free_list S') \<subseteq> set (g_imm_free_list S)" using bump by simp
    show "set (fresh_pages p) \<subseteq> set (g_imm_free_list S) \<union> {g_imm_bump S..}" using ok(1) by (auto simp: p)
    show "set (fresh_pages p) \<inter> set (g_imm_free_list S') = {}" unfolding bump(2) using free by (force simp: p)
    show "\<forall>q \<in> set (fresh_pages p). IMM_PAGE_SIZE dvd q \<and> q < g_imm_bump S'"
      unfolding bump(1) using al(1) pos by (auto simp: p)
    show "{a..<a + unat len} \<inter> run_bytes slot' = {}" using assms(3) ok(1) p(2) by auto
    show "{a..<a + unat len} \<union> run_bytes slot' \<subseteq> run_bytes slot \<union> {x. page_of x \<in> set (fresh_pages p)}" using bytes p(2) by auto
    show "slot_ok slot' S'" using slot' p(2) by simp
  qed (rule S' distinct al(2))+
qed

lemma extend_placement:
  assumes "space_ok S" "slot_ok slot S" "slot = Some (Some cur)" "16 dvd unat len" "unat len \<le> IMM_PAGE_SIZE"
    "code_run_extend len (run_off cur) (run_end cur) S = Some (p, slot', S')" "\<not> len \<le> run_end cur - run_off cur"
  shows "\<exists>a. code_addr p = Some a \<and> placement slot S a (unat len) (fresh_pages p) slot' S'"
proof -
  let ?a = "unat (run_off cur)" and ?b = "unat (run_end cur)"
  have cur: "?a \<le> ?b" "?b = g_imm_bump S" "16 dvd ?a"
    using assms(2,3,6) by (auto simp: slot_ok_def code_run_extend_def split: if_splits)
  obtain pg T where T: "os_imm_pages_alloc_contiguous 1 S = (Some pg, T)"
      and p': "p = \<lparr>code_addr = Some ?a, new_pages = pg, new_page_count = 1\<rparr>"
        "slot' = Some (Some (pack_run (run_end cur + of_nat IMM_PAGE_SIZE) (run_off cur + len)))"
        "g_imm_bump S' = g_imm_bump T" "g_imm_free_list S' = g_imm_free_list T"
    using assms(6) cur(2) by (auto simp: code_run_extend_def split: prod.splits option.splits)
  note ok = contiguous [OF assms(1) T] and p = p' [unfolded contiguous(1) [OF assms(1) T]]
  have S': "space_ok S'" using ok(3) space_ok_cong [OF p(3,4)] by simp
  have le: "?b + IMM_PAGE_SIZE \<le> IMM_SPACE_SIZE" using ok(2,3) cur(2) by (simp add: space_ok_def)
  have w: "unat (run_end cur + of_nat IMM_PAGE_SIZE) = ?b + IMM_PAGE_SIZE" "unat (run_off cur + len) = ?a + unat len"
    using le cur(1) assms(5) unat_add_no_wrap64 [of "run_end cur" "of_nat IMM_PAGE_SIZE"] unat_add_no_wrap64 [of "run_off cur" len]
    by (simp_all add: IMM_PAGE_SIZE_def IMM_SPACE_SIZE_def)
  have fits: "?a + unat len \<le> ?b + IMM_PAGE_SIZE" using cur(1) assms(5) by simp
  note run = packed_run [OF w(2,1) fits le]
  have al: "IMM_PAGE_SIZE dvd ?b" using assms(1) cur(2) by (simp add: space_ok_def)
  have bytes: "page_of x = ?b" if "?b \<le> x" "x < ?b + IMM_PAGE_SIZE" for x by (rule page_of_in [OF al that])
  have free: "\<forall>q \<in> set (g_imm_free_list S). q < ?b" using assms(1) cur(2) by (simp add: space_ok_def)
  have slot': "slot_ok slot' S'" unfolding p(2) run(2) using ok(2) p(3) cur(2,3) assms(4) by simp
  have fst: "{?a..<?a + unat len} \<union> run_bytes slot' \<subseteq> run_bytes slot \<union> {x. page_of x \<in> {?b}}"
    unfolding p(2) run(1) using cur(1) fits bytes by (auto simp: run_bytes_def assms(3))
  have snd: "{?a..<?a + unat len} \<inter> run_bytes slot' = {}" unfolding p(2) run(1) by auto
  have "placement slot S ?a (unat len) [?b] slot' S'"
    unfolding placement_def
  proof (intro conjI)
    show "g_imm_bump S \<le> g_imm_bump S'" "set (g_imm_free_list S') \<subseteq> set (g_imm_free_list S)" using ok(2) p(3,4) by simp_all
    show "set [?b] \<subseteq> set (g_imm_free_list S) \<union> {g_imm_bump S..}" using cur(2) by simp
    show "set [?b] \<inter> set (g_imm_free_list S') = {}" using ok(2) p(4) free by auto
    show "\<forall>q \<in> set [?b]. IMM_PAGE_SIZE dvd q \<and> q < g_imm_bump S'" using ok(2) p(3) al cur(2) by (simp add: IMM_PAGE_SIZE_def)
    show "{?a..<?a + unat len} \<union> run_bytes slot' \<subseteq> run_bytes slot \<union> {x. page_of x \<in> set [?b]}" using fst by simp
  qed (use S' slot' cur(3) snd in simp_all)
  then show ?thesis using cur(2) by (simp add: p)
qed

lemma run_placement:
  assumes "space_ok S" "slot_ok slot S" "slot = Some (Some cur)" "16 dvd unat len" "len \<le> run_end cur - run_off cur"
  shows "placement slot S (unat (run_off cur)) (unat len) [] (Some (Some (pack_run (run_end cur) (run_off cur + len)))) S"
proof -
  let ?a = "unat (run_off cur)" and ?b = "unat (run_end cur)"
  have cur: "?a \<le> ?b" "?b \<le> g_imm_bump S" "16 dvd ?a" using assms(2,3) by (auto simp: slot_ok_def)
  have le: "?b \<le> IMM_SPACE_SIZE" using cur(2) assms(1) by (simp add: space_ok_def)
  have fits: "?a + unat len \<le> ?b" using assms(5) cur(1) by (simp add: word_le_nat_alt unat_sub_no_wrap64)
  have w: "unat (run_off cur + len) = ?a + unat len"
    using fits le unat_add_no_wrap64 [of "run_off cur" len] by (simp add: IMM_SPACE_SIZE_def)
  note run = packed_run [OF w refl fits le]
  have "run_bytes slot = {?a..<?b}" by (simp add: run_bytes_def assms(3))
  then show ?thesis
    unfolding placement_def run using assms(1,4) cur fits by (auto simp: space_ok_def)
qed

lemma code_alloc_placement:
  assumes "space_ok S" "slot_ok slot S" "unat n < 2 ^ 31"
    "os_imm_code_alloc n slot S = Some (p, slot', S')" "code_addr p = Some a"
  shows "placement slot S a (unat (code_aligned n)) (fresh_pages p) slot' S'"
proof -
  let ?len = "code_aligned n"
  have len: "unat ?len = aligned_up (unat n)" using assms(3) by (intro code_aligned_nat) simp
  have len16: "16 dvd unat ?len" and len32: "unat ?len < 2 ^ 32"
    using assms(3) aligned_up_simps(2,4) [of "unat n"] unfolding len by auto
  define T where "T = S\<lparr>g_imm_last_request_bytes := ?len\<rparr>"
  have T: "space_ok T" "slot_ok slot T" "g_imm_bump T = g_imm_bump S" "g_imm_free_list T = g_imm_free_list S"
    using assms(1,2) by (simp_all add: T_def space_ok_def slot_ok_def)
  have run: "run_bytes slot \<subseteq> {..<g_imm_bump T}"
    using T(2) by (auto simp: run_bytes_def slot_ok_def split: option.splits)
  have "placement slot T a (unat ?len) (fresh_pages p) slot' S'"
  proof (cases "of_nat IMM_PAGE_SIZE < ?len")
    case True
    then have "code_multipage ?len slot T = (p, slot', S')" using assms(4) by (simp add: os_imm_code_alloc_def T_def Let_def)
    then show ?thesis using multipage_placement [OF T(1,2) run len32 _ assms(5)] by blast
  next
    case False
    then have small: "unat ?len \<le> IMM_PAGE_SIZE" by (simp add: word_less_nat_alt IMM_PAGE_SIZE_def)
    have new_page: "placement slot T a (unat ?len) (fresh_pages p) slot' S'"
      if "code_new_page ?len slot U = Some (p, slot', S')" "g_imm_bump U = g_imm_bump T" "g_imm_free_list U = g_imm_free_list T" for U
      using new_page_placement [OF _ len16 small that(1)] T(1) space_ok_cong [OF that(2,3)] that(2,3) assms(5)
      by (simp add: placement_def)
    have r: "os_imm_code_alloc n slot S = (case slot of
           Some (Some cur) \<Rightarrow>
             (if ?len \<le> run_end cur - run_off cur then
                   Some (\<lparr>code_addr = Some (unat (run_off cur)), new_pages = 0, new_page_count = 0\<rparr>,
                     Some (Some (pack_run (run_end cur) (run_off cur + ?len))),
                     T\<lparr>g_code_alloc_from_cursor := g_code_alloc_from_cursor T + 1,
                       g_code_bytes_allocated := g_code_bytes_allocated T + ?len\<rparr>)
                 else case code_run_extend ?len (run_off cur) (run_end cur) T of
                   Some r \<Rightarrow> Some r
                 | None \<Rightarrow> code_new_page ?len slot
                     (if run_off cur < run_end cur then T\<lparr>g_code_tail_abandoned := g_code_tail_abandoned T + 1,
                        g_code_tail_abandoned_bytes := g_code_tail_abandoned_bytes T + (run_end cur - run_off cur)\<rparr> else T))
         | _ \<Rightarrow> code_new_page ?len slot T)"
      unfolding os_imm_code_alloc_def T_def Let_def by (simp only: False if_False)
    show ?thesis
    proof (cases "\<exists>cur. slot = Some (Some cur)")
      case False
      then have "code_new_page ?len slot T = Some (p, slot', S')" using r assms(4) by (auto split: option.splits)
      then show ?thesis by (rule new_page) simp_all
    next
      case True
      then obtain cur where cur: "slot = Some (Some cur)" by blast
      show ?thesis
      proof (cases "?len \<le> run_end cur - run_off cur")
        case True
        then have p: "p = \<lparr>code_addr = Some (unat (run_off cur)), new_pages = 0, new_page_count = 0\<rparr>"
            "slot' = Some (Some (pack_run (run_end cur) (run_off cur + ?len)))"
            "g_imm_bump S' = g_imm_bump T" "g_imm_free_list S' = g_imm_free_list T"
          using r cur assms(4) by auto
        have "placement slot T a (unat ?len) [] slot' T"
          using run_placement [OF T(1,2) cur len16 True] assms(5) by (simp add: p)
        then show ?thesis using space_ok_cong [OF p(3,4)] p(3,4) by (simp add: placement_def slot_ok_def p(1))
      next
        case False
        show ?thesis
        proof (cases "code_run_extend ?len (run_off cur) (run_end cur) T")
          case None
          show ?thesis by (rule new_page [of "if run_off cur < run_end cur then T\<lparr>g_code_tail_abandoned := g_code_tail_abandoned T + 1,
                        g_code_tail_abandoned_bytes := g_code_tail_abandoned_bytes T + (run_end cur - run_off cur)\<rparr> else T"])
            (use None False r cur assms(4) in simp_all)
        next
          case (Some e)
          then have "code_run_extend ?len (run_off cur) (run_end cur) T = Some (p, slot', S')" using False r cur assms(4) by simp
          then show ?thesis using extend_placement [OF T(1,2) cur len16 small _ False] assms(5) by auto
        qed
      qed
    qed
  qed
  then show ?thesis using T(3,4) by (simp add: placement_def)
qed

subsection \<open>The space with all its owners\<close>

text \<open>
  The environments by number, the cursors that cut cells, and two ghosts: the live code as code_blocks
  (owner, start, length), and the cells cut so far. A function is at most as long as the buffer it
  is emitted into.
\<close>

definition JIT_CODE_SIZE :: nat where "JIT_CODE_SIZE = 524288"

record code_world =
  space :: imm_space
  owners :: "nat \<Rightarrow> code_owner"
  cursors :: "nat \<Rightarrow> imm_slot_cursor"
  code_blocks :: "(nat \<times> nat \<times> nat) list"
  cells :: "(nat \<times> nat) list"

definition world_init :: code_world where
  "world_init = \<lparr>space = imm_space_init, owners = (\<lambda>e. \<lparr>code_cursor = None, pages_slot = []\<rparr>),
     cursors = (\<lambda>c. \<lparr>cursor_page = None, cursor_offset = 0\<rparr>), code_blocks = [], cells = []\<rparr>"

text \<open>An environment gets the slot for a run when it is made; a frame has none.\<close>

definition give_cursor :: "nat \<Rightarrow> code_world \<Rightarrow> code_world" where
  "give_cursor e W = W\<lparr>owners := (owners W)(e := (owners W e)\<lparr>code_cursor := Some None\<rparr>)\<rparr>"

definition compile_in :: "nat \<Rightarrow> u64 \<Rightarrow> code_world \<Rightarrow> (nat option \<times> code_world) option" where
  "compile_in e n W =
     (case place_code n (owners W e) (space W) of
        None \<Rightarrow> None
      | Some (a, E, S) \<Rightarrow>
          Some (a, W\<lparr>space := S, owners := (owners W)(e := E),
            code_blocks := (case a of None \<Rightarrow> code_blocks W | Some a \<Rightarrow> (e, a, unat (code_aligned n)) # code_blocks W)\<rparr>))"

definition destroy_environment_reclaim :: "nat \<Rightarrow> code_world \<Rightarrow> code_world" where
  "destroy_environment_reclaim e W =
     (let (E, S) = os_environment_reclaim_pages (owners W e) (space W)
      in W\<lparr>space := S, owners := (owners W)(e := E), code_blocks := filter (\<lambda>(o', _). o' \<noteq> e) (code_blocks W)\<rparr>)"

definition cut_cell :: "nat \<Rightarrow> u64 \<Rightarrow> code_world \<Rightarrow> (nat \<times> code_world) option" where
  "cut_cell c n W =
     (case os_imm_slot_alloc n (cursors W c) (space W) of
        None \<Rightarrow> None
      | Some (a, cur, S) \<Rightarrow> Some (a, W\<lparr>space := S, cursors := (cursors W)(c := cur), cells := (a, unat (os_heap_align_up n)) # cells W\<rparr>))"

inductive code_step :: "code_world \<Rightarrow> code_world \<Rightarrow> bool" where
  made: "code_cursor (owners W e) = None \<Longrightarrow> code_step W (give_cursor e W)"
| compile: "unat n \<le> JIT_CODE_SIZE \<Longrightarrow> compile_in e n W = Some (a, W') \<Longrightarrow> code_step W W'"
| reclaim: "code_step W (destroy_environment_reclaim e W)"
| cell: "0 < n \<Longrightarrow> unat n \<le> IMM_PAGE_SIZE \<Longrightarrow> cut_cell c n W = Some (a, W') \<Longrightarrow> code_step W W'"

inductive code_reachable :: "code_world \<Rightarrow> bool" where
  start: "code_reachable world_init"
| step: "code_reachable W \<Longrightarrow> code_step W W' \<Longrightarrow> code_reachable W'"

definition span :: "nat \<Rightarrow> nat \<Rightarrow> nat set" where "span a len = {a..<a + len}"

text \<open>The pages of the cells, and the bytes the cursor may still cut from.\<close>

definition cell_pages :: "code_world \<Rightarrow> nat set" where
  "cell_pages W = {page_of x | x. \<exists>(a, len) \<in> set (cells W). x \<in> span a len} \<union> {p. \<exists>c. cursor_page (cursors W c) = Some p}"

definition cursor_bytes :: "imm_slot_cursor \<Rightarrow> nat set" where
  "cursor_bytes cur = (case cursor_page cur of None \<Rightarrow> {} | Some p \<Rightarrow> {p + unat (cursor_offset cur)..<p + IMM_PAGE_SIZE})"

definition world_ok :: "code_world \<Rightarrow> bool" where
  "world_ok W \<longleftrightarrow>
     space_ok (space W) \<and>
     (\<forall>e. owner_ok (owners W e) (space W)) \<and>
     (\<forall>e e'. e \<noteq> e' \<longrightarrow> set (pages_slot (owners W e)) \<inter> set (pages_slot (owners W e')) = {}) \<and>
     (\<forall>(e, a, len) \<in> set (code_blocks W). 16 dvd a \<and> span a len \<subseteq> owned_bytes (owners W e) \<and>
        span a len \<inter> run_bytes (code_cursor (owners W e)) = {}) \<and>
     sorted_wrt (\<lambda>(_, a, len) (_, a', len'). span a len \<inter> span a' len' = {}) (code_blocks W)"

definition cells_ok :: "code_world \<Rightarrow> bool" where
  "cells_ok W \<longleftrightarrow>
     (\<forall>p \<in> cell_pages W. IMM_PAGE_SIZE dvd p \<and> p < g_imm_bump (space W) \<and> p \<notin> set (g_imm_free_list (space W)) \<and>
        (\<forall>e. p \<notin> set (pages_slot (owners W e)))) \<and>
     (\<forall>c. unat (cursor_offset (cursors W c)) \<le> IMM_PAGE_SIZE) \<and>
     (\<forall>c c'. c \<noteq> c' \<longrightarrow> cursor_page (cursors W c) \<noteq> None \<longrightarrow> cursor_page (cursors W c) \<noteq> cursor_page (cursors W c')) \<and>
     (\<forall>(a, len) \<in> set (cells W). \<forall>c. span a len \<inter> cursor_bytes (cursors W c) = {}) \<and>
     sorted_wrt (\<lambda>(a, len) (a', len'). span a len \<inter> span a' len' = {}) (cells W)"

lemma code_alloc_null:
  assumes "os_imm_code_alloc n slot S = Some (p, slot', S')" "code_addr p = None"
  shows "slot' = slot \<and> g_imm_bump S' = g_imm_bump S \<and> g_imm_free_list S' = g_imm_free_list S"
  using assms
  by (auto simp: os_imm_code_alloc_def code_multipage_def code_new_page_def code_run_extend_def os_imm_pages_alloc_contiguous_def Let_def
      split: if_splits option.splits prod.splits)

lemma place_code_null:
  assumes "place_code n E S = Some (None, E', S')"
  shows "E' = E" "g_imm_bump S' = g_imm_bump S" "g_imm_free_list S' = g_imm_free_list S"
proof -
  obtain p slot' where r: "os_imm_code_alloc n (code_cursor E) S = Some (p, slot', S')" "code_addr p = None" "E' = E\<lparr>code_cursor := slot'\<rparr>"
    using assms by (auto simp: place_code_def Let_def split: option.splits)
  then show "E' = E" "g_imm_bump S' = g_imm_bump S" "g_imm_free_list S' = g_imm_free_list S"
    using code_alloc_null [OF r(1,2)] by simp_all
qed

lemma place_code_placement:
  assumes "space_ok S" "owner_ok E S" "unat n \<le> JIT_CODE_SIZE" "place_code n E S = Some (Some a, E', S')"
  shows "\<exists>fresh slot'. placement (code_cursor E) S a (unat (code_aligned n)) fresh slot' S' \<and>
    E' = E\<lparr>code_cursor := slot', pages_slot := fresh @ pages_slot E\<rparr>"
proof -
  obtain p slot' where r: "os_imm_code_alloc n (code_cursor E) S = Some (p, slot', S')" "code_addr p = Some a"
      "E' = (if new_page_count p \<noteq> 0 then os_environment_register_pages (new_pages p) (new_page_count p) (E\<lparr>code_cursor := slot'\<rparr>) else E\<lparr>code_cursor := slot'\<rparr>)"
    using assms(4) by (auto simp: place_code_def Let_def split: option.splits)
  have "placement (code_cursor E) S a (unat (code_aligned n)) (fresh_pages p) slot' S'"
    using assms(1,2,3) by (intro code_alloc_placement [OF _ _ _ r(1,2)]) (simp_all add: owner_ok_def JIT_CODE_SIZE_def)
  moreover have "E' = E\<lparr>code_cursor := slot', pages_slot := fresh_pages p @ pages_slot E\<rparr>"
    unfolding r(3) using run_of [of "pages_slot E" "new_pages p" "new_page_count p"]
    by (simp add: os_environment_register_pages_def run_of_def)
  ultimately show ?thesis by blast
qed

text \<open>A placement leaves the other owners, and takes no page of theirs.\<close>

lemma placement_others:
  assumes "placement slot S a len fresh slot' S'" "owner_ok F S"
  shows "owner_ok F S'" "set fresh \<inter> set (pages_slot F) = {}"
proof -
  have le: "g_imm_bump S \<le> g_imm_bump S'" and free: "set (g_imm_free_list S') \<subseteq> set (g_imm_free_list S)"
    using assms(1) by (simp_all add: placement_def)
  have F: "distinct (pages_slot F)" "\<forall>p \<in> set (pages_slot F). IMM_PAGE_SIZE dvd p \<and> p < g_imm_bump S"
      "set (pages_slot F) \<inter> set (g_imm_free_list S) = {}" "slot_ok (code_cursor F) S" "run_bytes (code_cursor F) \<subseteq> owned_bytes F"
    using assms(2) by (simp_all add: owner_ok_def)
  have "slot_ok (code_cursor F) S'" using F(4) le order_trans by (fastforce simp: slot_ok_def)
  moreover have "\<forall>p \<in> set (pages_slot F). IMM_PAGE_SIZE dvd p \<and> p < g_imm_bump S'" using F(2) le order_less_le_trans by blast
  moreover have "set (pages_slot F) \<inter> set (g_imm_free_list S') = {}" using F(3) free by blast
  ultimately show "owner_ok F S'" using F(1,5) unfolding owner_ok_def by blast
  have "set fresh \<subseteq> set (g_imm_free_list S) \<union> {g_imm_bump S..}" using assms(1) by (simp add: placement_def)
  then show "set fresh \<inter> set (pages_slot F) = {}" using F(2,3) by fastforce
qed

lemma placement_owner:
  assumes "placement (code_cursor E) S a len fresh slot' S'" "owner_ok E S"
  shows "owner_ok (E\<lparr>code_cursor := slot', pages_slot := fresh @ pages_slot E\<rparr>) S'"
    "span a len \<subseteq> owned_bytes (E\<lparr>code_cursor := slot', pages_slot := fresh @ pages_slot E\<rparr>)"
    "span a len \<inter> run_bytes slot' = {}"
    "b \<subseteq> owned_bytes E \<Longrightarrow> b \<inter> run_bytes (code_cursor E) = {} \<Longrightarrow> b \<inter> (span a len \<union> run_bytes slot') = {}"
proof -
  note other = placement_others [OF assms]
  have run: "run_bytes (code_cursor E) \<subseteq> owned_bytes E" using assms(2) by (simp add: owner_ok_def)
  have new: "span a len \<union> run_bytes slot' \<subseteq> run_bytes (code_cursor E) \<union> {x. page_of x \<in> set fresh}"
    using assms(1) by (simp add: placement_def span_def)
  then have owned: "span a len \<union> run_bytes slot' \<subseteq> owned_bytes (E\<lparr>code_cursor := slot', pages_slot := fresh @ pages_slot E\<rparr>)"
    using run by (auto simp: owned_bytes_def)
  then show "span a len \<subseteq> owned_bytes (E\<lparr>code_cursor := slot', pages_slot := fresh @ pages_slot E\<rparr>)" by simp
  show "span a len \<inter> run_bytes slot' = {}" using assms(1) by (simp add: placement_def span_def)
  show "owner_ok (E\<lparr>code_cursor := slot', pages_slot := fresh @ pages_slot E\<rparr>) S'"
    using assms(1) other owned by (auto simp: owner_ok_def placement_def)
  show "b \<inter> (span a len \<union> run_bytes slot') = {}" if b: "b \<subseteq> owned_bytes E" "b \<inter> run_bytes (code_cursor E) = {}"
    using new other(2) b by (fastforce simp: owned_bytes_def)
qed

lemma compile_ok:
  assumes "world_ok W" "cells_ok W" "unat n \<le> JIT_CODE_SIZE" "compile_in e n W = Some (r, W')"
  shows "world_ok W' \<and> cells_ok W'"
proof -
  obtain E S where placed: "place_code n (owners W e) (space W) = Some (r, E, S)"
      and W': "W' = W\<lparr>space := S, owners := (owners W)(e := E), code_blocks := (case r of None \<Rightarrow> code_blocks W | Some a \<Rightarrow> (e, a, unat (code_aligned n)) # code_blocks W)\<rparr>"
    using assms(4) by (auto simp: compile_in_def split: option.splits)
  show ?thesis
  proof (cases r)
    case None
    note same = place_code_null [OF placed [unfolded None]]
    have "space_ok S = space_ok (space W)" "slot_ok slot S = slot_ok slot (space W)" "owner_ok F S = owner_ok F (space W)" for slot F
      using same(2,3) by (simp_all add: space_ok_def slot_ok_def owner_ok_def)
    then have "world_ok W' = world_ok W" unfolding W' None by (simp add: world_ok_def same(1))
    moreover have "cells_ok W' = cells_ok W" unfolding W' None by (simp add: cells_ok_def cell_pages_def same)
    ultimately show ?thesis using assms(1,2) by simp
  next
    case (Some a)
    let ?len = "unat (code_aligned n)"
    have space: "space_ok (space W)" and owner: "owner_ok (owners W e') (space W)" for e' using assms(1) by (simp_all add: world_ok_def)
    obtain fresh slot' where pl: "placement (code_cursor (owners W e)) (space W) a ?len fresh slot' S"
        and E: "E = (owners W e)\<lparr>code_cursor := slot', pages_slot := fresh @ pages_slot (owners W e)\<rparr>"
      using place_code_placement [OF space owner assms(3) placed [unfolded Some]] by blast
    note new = placement_owner [OF pl owner, folded E] and others = placement_others [OF pl owner]
    have S: "space_ok S" "g_imm_bump (space W) \<le> g_imm_bump S" "set (g_imm_free_list S) \<subseteq> set (g_imm_free_list (space W))"
        "set fresh \<subseteq> set (g_imm_free_list (space W)) \<union> {g_imm_bump (space W)..}"
      using pl by (simp_all add: placement_def)
    have old: "16 dvd a' \<and> span a' len' \<subseteq> owned_bytes (owners W e') \<and> span a' len' \<inter> run_bytes (code_cursor (owners W e')) = {}"
      if "(e', a', len') \<in> set (code_blocks W)" for e' a' len'
      using assms(1) that by (auto simp: world_ok_def)
    have sep: "owned_bytes (owners W e') \<inter> owned_bytes E = {}" if "e' \<noteq> e" for e'
    proof -
      have "set (pages_slot (owners W e')) \<inter> set (pages_slot (owners W e)) = {}" using assms(1) that by (simp add: world_ok_def)
      then show ?thesis using others(2) [of e'] by (auto simp: owned_bytes_def E)
    qed
    have clear: "span a' len' \<inter> span a ?len = {}" if b: "(e', a', len') \<in> set (code_blocks W)" for e' a' len'
    proof (cases "e' = e")
      case True
      then show ?thesis using new(4) [of "span a' len'"] old [OF b] by blast
    next
      case False
      then show ?thesis using sep [OF False] old [OF b] new(2) by blast
    qed
    have code_blocks': "code_blocks W' = (e, a, ?len) # code_blocks W" and owners': "owners W' = (owners W)(e := E)" and space': "space W' = S"
      by (simp_all add: W' Some)
    have "world_ok W'"
      unfolding world_ok_def code_blocks' owners' space'
    proof (intro conjI)
      show "space_ok S" by (rule S(1))
      show "\<forall>e'. owner_ok (((owners W)(e := E)) e') S" using new(1) others(1) by simp
      show "\<forall>e1 e2. e1 \<noteq> e2 \<longrightarrow> set (pages_slot (((owners W)(e := E)) e1)) \<inter> set (pages_slot (((owners W)(e := E)) e2)) = {}"
      proof -
        have "\<forall>e1 e2. e1 \<noteq> e2 \<longrightarrow> set (pages_slot (owners W e1)) \<inter> set (pages_slot (owners W e2)) = {}"
          using assms(1) by (simp add: world_ok_def)
        then show ?thesis using others(2) by (simp add: E Int_Un_distrib Int_Un_distrib2 Int_commute)
      qed
      show "\<forall>(e', a', len') \<in> set ((e, a, ?len) # code_blocks W). 16 dvd a' \<and> span a' len' \<subseteq> owned_bytes (((owners W)(e := E)) e') \<and>
          span a' len' \<inter> run_bytes (code_cursor (((owners W)(e := E)) e')) = {}"
      proof (rule ballI, clarify)
        fix e' a' len' assume "(e', a', len') \<in> set ((e, a, ?len) # code_blocks W)"
        then consider "(e', a', len') = (e, a, ?len)" | "(e', a', len') \<in> set (code_blocks W)" by auto
        then show "16 dvd a' \<and> span a' len' \<subseteq> owned_bytes (((owners W)(e := E)) e') \<and>
          span a' len' \<inter> run_bytes (code_cursor (((owners W)(e := E)) e')) = {}"
        proof cases
          case 1
          then show ?thesis using new(2,3) pl by (simp add: placement_def E)
        next
          case 2
          note o = old [OF 2]
          show ?thesis
          proof (cases "e' = e")
            case True
            have "owned_bytes (owners W e) \<subseteq> owned_bytes E" by (auto simp: owned_bytes_def E)
            moreover have "span a' len' \<inter> run_bytes slot' = {}" using new(4) [of "span a' len'"] o True by blast
            ultimately show ?thesis using o True by (auto simp: E)
          qed (use o in simp)
        qed
      qed
      have "sorted_wrt (\<lambda>(_, a, len) (_, a', len'). span a len \<inter> span a' len' = {}) (code_blocks W)"
        using assms(1) by (simp add: world_ok_def)
      then show "sorted_wrt (\<lambda>(_, a, len) (_, a', len'). span a len \<inter> span a' len' = {}) ((e, a, ?len) # code_blocks W)"
        using clear by fastforce
    qed
    moreover have "cells_ok W'"
    proof -
      have "cell_pages W' = cell_pages W" by (simp add: cell_pages_def W')
      moreover have "\<forall>p \<in> cell_pages W. IMM_PAGE_SIZE dvd p \<and> p < g_imm_bump S \<and> p \<notin> set (g_imm_free_list S) \<and>
          (\<forall>e'. p \<notin> set (pages_slot (((owners W)(e := E)) e')))"
      proof
        fix p assume "p \<in> cell_pages W"
        then have p: "IMM_PAGE_SIZE dvd p" "p < g_imm_bump (space W)" "p \<notin> set (g_imm_free_list (space W))" "\<forall>e'. p \<notin> set (pages_slot (owners W e'))"
          using assms(2) by (simp_all add: cells_ok_def)
        then have "p \<notin> set fresh" using S(4) by fastforce
        then show "IMM_PAGE_SIZE dvd p \<and> p < g_imm_bump S \<and> p \<notin> set (g_imm_free_list S) \<and> (\<forall>e'. p \<notin> set (pages_slot (((owners W)(e := E)) e')))"
          using p S(2,3) by (auto simp: E)
      qed
      moreover have "cursors W' = cursors W" "cells W' = cells W" by (simp_all add: W')
      ultimately show ?thesis using assms(2) unfolding cells_ok_def owners' space' by simp
    qed
    ultimately show ?thesis by blast
  qed
qed

text \<open>Reclaiming gives the pages to the free list, the last registered one ending up deepest.\<close>

lemma free_all:
  "g_imm_bump (fold os_imm_page_free ps S) = g_imm_bump S"
  "g_imm_free_list (fold os_imm_page_free ps S) = rev ps @ g_imm_free_list S"
  by (induction ps arbitrary: S) (simp_all add: os_imm_page_free_def)

lemma reclaim_ok:
  assumes "world_ok W" "cells_ok W"
  shows "world_ok (destroy_environment_reclaim e W) \<and> cells_ok (destroy_environment_reclaim e W)"
proof -
  let ?W = "destroy_environment_reclaim e W" and ?ps = "pages_slot (owners W e)"
  define S where "S = fold os_imm_page_free ?ps (space W)"
  define E where "E = (owners W e)\<lparr>code_cursor := (case code_cursor (owners W e) of None \<Rightarrow> None | Some _ \<Rightarrow> Some None), pages_slot := []\<rparr>"
  have W: "space ?W = S" "owners ?W = (owners W)(e := E)" "code_blocks ?W = filter (\<lambda>(o', _). o' \<noteq> e) (code_blocks W)"
      "cursors ?W = cursors W" "cells ?W = cells W"
    by (simp_all add: destroy_environment_reclaim_def os_environment_reclaim_pages_def S_def E_def)
  have S: "g_imm_bump S = g_imm_bump (space W)" "set (g_imm_free_list S) = set ?ps \<union> set (g_imm_free_list (space W))"
      "g_imm_free_list S = rev ?ps @ g_imm_free_list (space W)"
    by (simp_all add: S_def free_all)
  have space: "space_ok (space W)" and owner: "owner_ok (owners W e') (space W)" for e' using assms(1) by (simp_all add: world_ok_def)
  have apart: "e1 \<noteq> e2 \<Longrightarrow> set (pages_slot (owners W e1)) \<inter> set (pages_slot (owners W e2)) = {}" for e1 e2
    using assms(1) by (simp add: world_ok_def)
  have e_pages: "distinct ?ps" "\<forall>p \<in> set ?ps. IMM_PAGE_SIZE dvd p \<and> p < g_imm_bump (space W)" "set ?ps \<inter> set (g_imm_free_list (space W)) = {}"
    using owner [of e] by (simp_all add: owner_ok_def)
  have "space_ok S" using space e_pages by (auto simp: space_ok_def S)
  moreover have "owner_ok (((owners W)(e := E)) e') S" for e'
  proof (cases "e' = e")
    case True
    then show ?thesis by (auto simp: E_def owner_ok_def slot_ok_def run_bytes_def split: option.splits)
  next
    case False
    then show ?thesis using owner [of e'] apart [OF False] by (auto simp: owner_ok_def S slot_ok_def)
  qed
  moreover have "e1 \<noteq> e2 \<Longrightarrow> set (pages_slot (((owners W)(e := E)) e1)) \<inter> set (pages_slot (((owners W)(e := E)) e2)) = {}" for e1 e2
    using apart by (simp add: E_def)
  moreover have "\<forall>(e', a, len) \<in> set (filter (\<lambda>(o', _). o' \<noteq> e) (code_blocks W)). 16 dvd a \<and>
      span a len \<subseteq> owned_bytes (((owners W)(e := E)) e') \<and> span a len \<inter> run_bytes (code_cursor (((owners W)(e := E)) e')) = {}"
    using assms(1) by (auto simp: world_ok_def)
  moreover have "sorted_wrt (\<lambda>(_, a, len) (_, a', len'). span a len \<inter> span a' len' = {}) (filter (\<lambda>(o', _). o' \<noteq> e) (code_blocks W))"
    by (rule sorted_wrt_filter) (use assms(1) in \<open>simp add: world_ok_def\<close>)
  ultimately have "world_ok ?W" unfolding world_ok_def W by blast
  moreover have "cell_pages ?W = cell_pages W" by (simp add: cell_pages_def W)
  moreover have "p \<notin> set (pages_slot (((owners W)(e := E)) e'))" "p \<notin> set (g_imm_free_list S)" "IMM_PAGE_SIZE dvd p" "p < g_imm_bump S"
    if "p \<in> cell_pages W" for p e'
    using assms(2) that by (auto simp: cells_ok_def S E_def)
  ultimately show ?thesis using assms(2) unfolding cells_ok_def W by simp
qed

lemma given_ok:
  assumes "world_ok W" "cells_ok W" "code_cursor (owners W e) = None"
  shows "world_ok (give_cursor e W) \<and> cells_ok (give_cursor e W)"
proof -
  have "owner_ok ((owners W e)\<lparr>code_cursor := Some None\<rparr>) (space W)"
    using assms(1) by (simp add: world_ok_def owner_ok_def slot_ok_def run_bytes_def)
  moreover have "owned_bytes ((owners W e)\<lparr>code_cursor := Some None\<rparr>) = owned_bytes (owners W e)" by (simp add: owned_bytes_def)
  moreover have run: "run_bytes (code_cursor (owners (give_cursor e W) e')) \<subseteq> run_bytes (code_cursor (owners W e'))"
      "owned_bytes (owners (give_cursor e W) e') = owned_bytes (owners W e')" "pages_slot (owners (give_cursor e W) e') = pages_slot (owners W e')" for e'
    by (auto simp: give_cursor_def owned_bytes_def run_bytes_def)
  have blocks: "16 dvd a \<and> span a len \<subseteq> owned_bytes (owners (give_cursor e W) e') \<and> span a len \<inter> run_bytes (code_cursor (owners (give_cursor e W) e')) = {}"
    if "(e', a, len) \<in> set (code_blocks W)" for e' a len
  proof -
    have "16 dvd a \<and> span a len \<subseteq> owned_bytes (owners W e') \<and> span a len \<inter> run_bytes (code_cursor (owners W e')) = {}"
      using assms(1) that unfolding world_ok_def by fast
    then show ?thesis using run by blast
  qed
  moreover have "space (give_cursor e W) = space W" "code_blocks (give_cursor e W) = code_blocks W" by (simp_all add: give_cursor_def)
  moreover have "owner_ok (owners (give_cursor e W) e') (space W)" for e'
    using calculation(1) assms(1) by (cases "e' = e") (simp_all add: give_cursor_def world_ok_def)
  ultimately have "world_ok (give_cursor e W)"
    using assms(1) unfolding world_ok_def by (simp add: run(3)) fast
  moreover have "cells_ok (give_cursor e W)"
    using assms(2) by (simp add: cells_ok_def give_cursor_def cell_pages_def)
  ultimately show ?thesis by blast
qed

lemma init_ok: "world_ok world_init \<and> cells_ok world_init"
  by (simp add: world_ok_def cells_ok_def world_init_def imm_space_init_def space_ok_def owner_ok_def slot_ok_def run_bytes_def
      cell_pages_def owned_bytes_def)

lemma slot_alloc_cases:
  assumes "os_imm_slot_alloc n cur S = Some (a, cur', S')" "0 < n" "unat n \<le> IMM_PAGE_SIZE" "unat (cursor_offset cur) \<le> IMM_PAGE_SIZE"
  shows "\<exists>p off. a = p + unat off \<and> cursor_page cur' = Some p \<and>
      unat (cursor_offset cur') = unat off + unat (os_heap_align_up n) \<and> unat off + unat (os_heap_align_up n) \<le> IMM_PAGE_SIZE \<and>
      ((off = 0 \<and> os_imm_page_alloc (S\<lparr>g_imm_last_request_bytes := os_heap_align_up n\<rparr>) = Some (p, S')) \<or>
       (cursor_page cur = Some p \<and> off = cursor_offset cur \<and> S' = S\<lparr>g_imm_last_request_bytes := os_heap_align_up n\<rparr>))"
proof -
  let ?len = "os_heap_align_up n"
  have len: "unat ?len = aligned_up (unat n)" using assms(3) by (intro os_heap_align_up_nat) (simp add: IMM_PAGE_SIZE_def)
  have "aligned_up (unat n) \<le> IMM_PAGE_SIZE"
  proof -
    have "(unat n + 15) div 16 \<le> (4096 + 15) div 16" using assms(3) by (intro div_le_mono) (simp add: IMM_PAGE_SIZE_def)
    then show ?thesis by (simp add: aligned_up_def IMM_PAGE_SIZE_def)
  qed
  then have small: "unat ?len \<le> IMM_PAGE_SIZE" by (simp add: len)
  have sum: "unat (cursor_offset cur + ?len) = unat (cursor_offset cur) + unat ?len"
    using small assms(4) unat_add_no_wrap64 [of "cursor_offset cur" ?len] by (simp add: IMM_PAGE_SIZE_def)
  show ?thesis
  proof (cases "cursor_page cur = None \<or> of_nat IMM_PAGE_SIZE < cursor_offset cur + ?len")
    case True
    then obtain p where "os_imm_page_alloc (S\<lparr>g_imm_last_request_bytes := ?len\<rparr>) = Some (p, S')" "a = p" "cur' = \<lparr>cursor_page = Some p, cursor_offset = ?len\<rparr>"
      using assms(1) by (auto simp: os_imm_slot_alloc_def Let_def split: option.splits)
    then show ?thesis using small by (intro exI [of _ p] exI [of _ 0]) simp
  next
    case False
    then have "unat (cursor_offset cur) + unat ?len \<le> IMM_PAGE_SIZE"
      using sum by (simp add: word_less_nat_alt IMM_PAGE_SIZE_def)
    moreover obtain p where "cursor_page cur = Some p" using False by auto
    ultimately show ?thesis using False assms(1) sum
      by (intro exI [of _ p] exI [of _ "cursor_offset cur"]) (auto simp: os_imm_slot_alloc_def Let_def)
  qed
qed

lemma owner_ok_grow:
  assumes "owner_ok F S" "g_imm_bump S \<le> g_imm_bump S'" "set (g_imm_free_list S') \<subseteq> set (g_imm_free_list S)"
  shows "owner_ok F S'"
  using assms by (fastforce simp: owner_ok_def slot_ok_def)

lemma cursor_bytes_page: "cursor_page cur = Some p \<Longrightarrow> IMM_PAGE_SIZE dvd p \<Longrightarrow> x \<in> cursor_bytes cur \<Longrightarrow> page_of x = p"
  by (auto simp: cursor_bytes_def intro: page_of_in)

lemma cells_okD:
  assumes "cells_ok W"
  shows "c \<noteq> c' \<Longrightarrow> cursor_page (cursors W c) = Some p \<Longrightarrow> cursor_page (cursors W c') \<noteq> Some p"
    "(b, m) \<in> set (cells W) \<Longrightarrow> span b m \<inter> cursor_bytes (cursors W c) = {}"
proof -
  have "\<forall>c1 c2. c1 \<noteq> c2 \<longrightarrow> cursor_page (cursors W c1) \<noteq> None \<longrightarrow> cursor_page (cursors W c1) \<noteq> cursor_page (cursors W c2)"
    using assms by (simp add: cells_ok_def)
  then show "c \<noteq> c' \<Longrightarrow> cursor_page (cursors W c) = Some p \<Longrightarrow> cursor_page (cursors W c') \<noteq> Some p"
    by (metis option.distinct(1))
  have "\<forall>(b, m) \<in> set (cells W). \<forall>c. span b m \<inter> cursor_bytes (cursors W c) = {}" using assms unfolding cells_ok_def by blast
  then show "(b, m) \<in> set (cells W) \<Longrightarrow> span b m \<inter> cursor_bytes (cursors W c) = {}" by fast
qed

lemma cut_ok:
  assumes "world_ok W" "cells_ok W" "0 < n" "unat n \<le> IMM_PAGE_SIZE" "cut_cell c n W = Some (a, W')"
  shows "world_ok W' \<and> cells_ok W'"
proof -
  let ?len = "unat (os_heap_align_up n)"
  obtain cur' S' where alloc: "os_imm_slot_alloc n (cursors W c) (space W) = Some (a, cur', S')"
      and W': "space W' = S'" "owners W' = owners W" "code_blocks W' = code_blocks W" "cursors W' = (cursors W)(c := cur')" "cells W' = (a, ?len) # cells W"
    using assms(5) by (auto simp: cut_cell_def split: option.splits)
  define T where "T = (space W)\<lparr>g_imm_last_request_bytes := os_heap_align_up n\<rparr>"
  have T: "g_imm_bump T = g_imm_bump (space W)" "g_imm_free_list T = g_imm_free_list (space W)" by (simp_all add: T_def)
  have space: "space_ok (space W)" "space_ok T" and owner: "owner_ok (owners W e) (space W)" for e
    using assms(1) T by (simp_all add: world_ok_def space_ok_def)
  have cp: "IMM_PAGE_SIZE dvd q" "q < g_imm_bump (space W)" "q \<notin> set (g_imm_free_list (space W))" "q \<notin> set (pages_slot (owners W e))"
    if "q \<in> cell_pages W" for q e using assms(2) that by (simp_all add: cells_ok_def)
  have off_ok: "unat (cursor_offset (cursors W c')) \<le> IMM_PAGE_SIZE" for c' using assms(2) by (simp add: cells_ok_def)
  have old_cell: "page_of x \<in> cell_pages W" if "(b, m) \<in> set (cells W)" "x \<in> span b m" for b m x
    using that by (auto simp: cell_pages_def)
  have old_cursor: "q \<in> cell_pages W" if "cursor_page (cursors W c') = Some q" for c' q using that by (auto simp: cell_pages_def)
  obtain p off where cut: "a = p + unat off" "cursor_page cur' = Some p" "unat (cursor_offset cur') = unat off + ?len"
      "unat off + ?len \<le> IMM_PAGE_SIZE"
      and how: "(off = 0 \<and> os_imm_page_alloc T = Some (p, S')) \<or> (cursor_page (cursors W c) = Some p \<and> off = cursor_offset (cursors W c) \<and> S' = T)"
    using slot_alloc_cases [OF alloc assms(3,4) off_ok] unfolding T_def by blast
  have grown: "space_ok S' \<and> g_imm_bump (space W) \<le> g_imm_bump S' \<and> set (g_imm_free_list S') \<subseteq> set (g_imm_free_list (space W)) \<and>
      IMM_PAGE_SIZE dvd p \<and> p < g_imm_bump S' \<and> p \<notin> set (g_imm_free_list S') \<and> (\<forall>e. p \<notin> set (pages_slot (owners W e))) \<and>
      (\<forall>c'. c' \<noteq> c \<longrightarrow> cursor_page (cursors W c') \<noteq> Some p) \<and>
      (\<forall>(b, m) \<in> set (cells W). \<forall>x \<in> span b m. page_of x = p \<longrightarrow> x < a \<or> p + IMM_PAGE_SIZE \<le> x)"
    using how
  proof (elim disjE conjE)
    assume off: "off = 0" and pg: "os_imm_page_alloc T = Some (p, S')"
    note ok = page_alloc [OF space(2) pg, unfolded T]
    have "p \<notin> cell_pages W" using cp(2,3) [of p] ok(4) by auto
    moreover have "p \<notin> set (pages_slot (owners W e))" for e using owner [of e] ok(4) by (auto simp: owner_ok_def)
    ultimately show ?thesis using ok old_cell old_cursor by (fastforce simp: IMM_PAGE_SIZE_def)
  next
    assume same: "cursor_page (cursors W c) = Some p" "off = cursor_offset (cursors W c)" "S' = T"
    note q = cp [OF old_cursor [OF same(1)]]
    have "cursor_page (cursors W c') \<noteq> Some p" if "c' \<noteq> c" for c'
      using cells_okD(1) [OF assms(2) that [symmetric] same(1)] .
    moreover have "x < a \<or> p + IMM_PAGE_SIZE \<le> x" if "(b, m) \<in> set (cells W)" "x \<in> span b m" for b m x
    proof -
      have "span b m \<inter> cursor_bytes (cursors W c) = {}" by (rule cells_okD(2) [OF assms(2) that(1)])
      then have "x \<notin> cursor_bytes (cursors W c)" using that(2) by blast
      then show ?thesis using same cut(1) by (auto simp: cursor_bytes_def)
    qed
    ultimately show ?thesis using q space(2) T same(3) by auto
  qed
  have world: "world_ok W'"
    using assms(1) grown owner_ok_grow [OF owner] unfolding world_ok_def W' by blast
  have new_page: "page_of x = p" if "x \<in> span a ?len" for x
    using that cut(1,4) grown by (intro page_of_in) (auto simp: span_def)
  have new_cursor: "cursor_bytes cur' = {a + ?len..<p + IMM_PAGE_SIZE}" by (simp add: cursor_bytes_def cut add.assoc)
  have pages': "cell_pages W' \<subseteq> insert p (cell_pages W)"
  proof
    fix q assume "q \<in> cell_pages W'"
    then consider x b m where "q = page_of x" "(b, m) \<in> set (cells W')" "x \<in> span b m" | c' where "cursor_page (cursors W' c') = Some q"
      by (auto simp: cell_pages_def)
    then show "q \<in> insert p (cell_pages W)"
    proof cases
      case 1
      then show ?thesis using new_page old_cell unfolding W' by auto
    next
      case 2
      then show ?thesis using old_cursor cut(2) unfolding W' by (auto split: if_splits)
    qed
  qed
  have "span b m \<inter> span a ?len = {}" if "(b, m) \<in> set (cells W)" for b m
    using grown that new_page cut by (fastforce simp: span_def)
  then have sorted: "sorted_wrt (\<lambda>(a, len) (a', len'). span a len \<inter> span a' len' = {}) (cells W')"
    using assms(2) unfolding W' cells_ok_def by fastforce
  have free: "span b m \<inter> cursor_bytes ((cursors W') c') = {}" if b: "(b, m) \<in> set (cells W')" for b m c'
  proof (cases "c' = c")
    case True
    show ?thesis
    proof (cases "(b, m) = (a, ?len)")
      case False
      then have old: "(b, m) \<in> set (cells W)" using b unfolding W' by auto
      have "page_of x = p" if "x \<in> cursor_bytes cur'" for x using cursor_bytes_page [OF cut(2) _ that] grown by blast
      then show ?thesis using old grown True unfolding W' by (fastforce simp: new_cursor)
    qed (use True new_cursor in \<open>auto simp: W' span_def\<close>)
  next
    case False
    show ?thesis
    proof (cases "(b, m) = (a, ?len)")
      case eq: True
      have "page_of x \<noteq> p" if x: "x \<in> cursor_bytes (cursors W c')" for x
      proof -
        obtain q where q: "cursor_page (cursors W c') = Some q" using x by (auto simp: cursor_bytes_def split: option.splits)
        have "q \<noteq> p" using grown False q by auto
        then show ?thesis using cursor_bytes_page [OF q cp(1) [OF old_cursor [OF q]] x] by simp
      qed
      then show ?thesis using eq new_page False unfolding W' by auto
    next
      case other: False
      then have "(b, m) \<in> set (cells W)" using b unfolding W' by auto
      then show ?thesis using cells_okD(2) [OF assms(2)] False unfolding W' by simp
    qed
  qed
  have "cells_ok W'"
    unfolding cells_ok_def
  proof (intro conjI)
    show "\<forall>q \<in> cell_pages W'. IMM_PAGE_SIZE dvd q \<and> q < g_imm_bump (space W') \<and> q \<notin> set (g_imm_free_list (space W')) \<and>
        (\<forall>e. q \<notin> set (pages_slot (owners W' e)))"
    proof
      fix q assume "q \<in> cell_pages W'"
      then have "q = p \<or> q \<in> cell_pages W" using pages' by blast
      then show "IMM_PAGE_SIZE dvd q \<and> q < g_imm_bump (space W') \<and> q \<notin> set (g_imm_free_list (space W')) \<and>
        (\<forall>e. q \<notin> set (pages_slot (owners W' e)))"
        using grown cp unfolding W' by (metis order_less_le_trans subsetD)
    qed
    show "\<forall>c'. unat (cursor_offset (cursors W' c')) \<le> IMM_PAGE_SIZE" using off_ok cut(3,4) unfolding W' by simp
    show "\<forall>c1 c2. c1 \<noteq> c2 \<longrightarrow> cursor_page (cursors W' c1) \<noteq> None \<longrightarrow> cursor_page (cursors W' c1) \<noteq> cursor_page (cursors W' c2)"
    proof (intro allI impI)
      fix c1 c2 assume ne: "c1 \<noteq> c2" and "cursor_page (cursors W' c1) \<noteq> None"
      then obtain q where q: "cursor_page (cursors W' c1) = Some q" by auto
      show "cursor_page (cursors W' c1) \<noteq> cursor_page (cursors W' c2)"
        using ne q grown cut(2) cells_okD(1) [OF assms(2) ne] unfolding W' by (cases "c1 = c"; cases "c2 = c") auto
    qed
    show "\<forall>(b, m) \<in> set (cells W'). \<forall>c'. span b m \<inter> cursor_bytes (cursors W' c') = {}" using free by blast
  qed (rule sorted)
  then show ?thesis using world by blast
qed

lemma reachable_ok: "code_reachable W \<Longrightarrow> world_ok W \<and> cells_ok W"
proof (induction rule: code_reachable.induct)
  case (step W W')
  from step.hyps(2) step.IH show ?case
    by cases (use given_ok compile_ok reclaim_ok cut_ok in blast)+
qed (rule init_ok)

subsection \<open>Properties\<close>

lemma free_not_owned:
  assumes "world_ok W" "p \<in> set (pages_slot (owners W e))"
  shows "p < g_imm_bump (space W)" "p \<notin> set (g_imm_free_list (space W))" "e' \<noteq> e \<Longrightarrow> p \<notin> set (pages_slot (owners W e'))" "IMM_PAGE_SIZE dvd p"
proof -
  have "owner_ok (owners W e) (space W)" using assms(1) by (simp add: world_ok_def)
  then show "p < g_imm_bump (space W)" "p \<notin> set (g_imm_free_list (space W))" "IMM_PAGE_SIZE dvd p"
    using assms(2) by (auto simp: owner_ok_def)
  have "\<forall>e1 e2. e1 \<noteq> e2 \<longrightarrow> set (pages_slot (owners W e1)) \<inter> set (pages_slot (owners W e2)) = {}" using assms(1) by (simp add: world_ok_def)
  then show "e' \<noteq> e \<Longrightarrow> p \<notin> set (pages_slot (owners W e'))" using assms(2) by blast
qed

lemma owned_inside: "IMM_PAGE_SIZE dvd b \<Longrightarrow> page_of x < b \<Longrightarrow> x < b"
proof -
  assume b: "IMM_PAGE_SIZE dvd b" "page_of x < b"
  obtain k m where "b = IMM_PAGE_SIZE * k" "page_of x = IMM_PAGE_SIZE * m" using b(1) page_of_dvd(1) by (metis dvdE)
  moreover have "m < k" using b(2) calculation by simp
  then have "IMM_PAGE_SIZE * m + IMM_PAGE_SIZE \<le> IMM_PAGE_SIZE * k" by (metis Suc_leI mult_Suc_right mult_le_mono2 add.commute)
  ultimately show ?thesis using page_of_dvd(3) [of x] by simp
qed

text \<open>
  C32. Placed code is never overwritten. In every state that making environments, compiling, reclaiming
  and cutting cells can reach, each piece of live code starts at a multiple of 16 and lies inside the
  space, in pages that its environment owns, no other environment owns and the free list does not hold;
  no cell overlaps it, and no other code does.
\<close>

theorem placed_code_safe:
  assumes "code_reachable W"
  shows "(\<forall>(e, a, len) \<in> set (code_blocks W). 16 dvd a \<and>
      (\<forall>x \<in> span a len. x < IMM_SPACE_SIZE \<and> page_of x \<in> set (pages_slot (owners W e)) \<and>
         (\<forall>e'. e' \<noteq> e \<longrightarrow> page_of x \<notin> set (pages_slot (owners W e'))) \<and>
         page_of x \<notin> set (g_imm_free_list (space W)) \<and> (\<forall>(b, m) \<in> set (cells W). x \<notin> span b m))) \<and>
    sorted_wrt (\<lambda>(_, a, len) (_, a', len'). span a len \<inter> span a' len' = {}) (code_blocks W)"
proof
  have ok: "world_ok W" "cells_ok W" using reachable_ok [OF assms] by blast+
  have space: "IMM_PAGE_SIZE dvd g_imm_bump (space W)" "g_imm_bump (space W) \<le> IMM_SPACE_SIZE"
    using ok(1) by (simp_all add: world_ok_def space_ok_def)
  show "sorted_wrt (\<lambda>(_, a, len) (_, a', len'). span a len \<inter> span a' len' = {}) (code_blocks W)" using ok(1) by (simp add: world_ok_def)
  have block: "16 dvd a \<and> span a len \<subseteq> owned_bytes (owners W e)" if "(e, a, len) \<in> set (code_blocks W)" for e a len
    using ok(1) that by (auto simp: world_ok_def)
  have inside: "x < IMM_SPACE_SIZE \<and> page_of x \<in> set (pages_slot (owners W e)) \<and>
         (\<forall>e'. e' \<noteq> e \<longrightarrow> page_of x \<notin> set (pages_slot (owners W e'))) \<and>
         page_of x \<notin> set (g_imm_free_list (space W)) \<and> (\<forall>(b, m) \<in> set (cells W). x \<notin> span b m)"
    if "(e, a, len) \<in> set (code_blocks W)" "x \<in> span a len" for e a len x
  proof -
    have p: "page_of x \<in> set (pages_slot (owners W e))" using block [OF that(1)] that(2) by (auto simp: owned_bytes_def)
    note q = free_not_owned [OF ok(1) p]
    have "page_of x \<notin> cell_pages W" using ok(2) p by (auto simp: cells_ok_def)
    then have "\<forall>(b, m) \<in> set (cells W). x \<notin> span b m" by (auto simp: cell_pages_def)
    then show ?thesis using p q(2,3) owned_inside [OF space(1) q(1)] space(2) by auto
  qed
  show "\<forall>(e, a, len) \<in> set (code_blocks W). 16 dvd a \<and>
      (\<forall>x \<in> span a len. x < IMM_SPACE_SIZE \<and> page_of x \<in> set (pages_slot (owners W e)) \<and>
         (\<forall>e'. e' \<noteq> e \<longrightarrow> page_of x \<notin> set (pages_slot (owners W e'))) \<and>
         page_of x \<notin> set (g_imm_free_list (space W)) \<and> (\<forall>(b, m) \<in> set (cells W). x \<notin> span b m))"
    using block inside by fast
qed

text \<open>When no address comes back, and when the system stops instead.\<close>

definition fits_run :: "u64 \<Rightarrow> code_slot \<Rightarrow> bool" where
  "fits_run len slot \<longleftrightarrow> (case slot of Some (Some cur) \<Rightarrow> len \<le> run_end cur - run_off cur | _ \<Rightarrow> False)"

lemma page_alloc_None: "os_imm_page_alloc S = None \<longleftrightarrow> g_imm_free_list S = [] \<and> IMM_SPACE_SIZE < g_imm_bump S + IMM_PAGE_SIZE"
  by (simp add: os_imm_page_alloc_def split: list.split)

lemma new_page_outcome:
  "code_new_page len slot S = None \<longleftrightarrow> g_imm_free_list S = [] \<and> IMM_SPACE_SIZE < g_imm_bump S + IMM_PAGE_SIZE"
  "code_new_page len slot S = Some (p, slot', S') \<Longrightarrow> code_addr p \<noteq> None"
  by (simp add: code_new_page_def page_alloc_None [symmetric] split: option.split) (auto simp: code_new_page_def split: option.splits)

lemma extend_outcome:
  "code_run_extend len off lim S \<noteq> None \<Longrightarrow> \<not> IMM_SPACE_SIZE < g_imm_bump S + IMM_PAGE_SIZE"
  "code_run_extend len off lim S = Some (p, slot', S') \<Longrightarrow> code_addr p \<noteq> None"
  by (auto simp: code_run_extend_def os_imm_pages_alloc_contiguous_def Let_def split: option.splits prod.splits if_splits)

lemma multipage_outcome:
  "(\<exists>p slot' S'. code_multipage len slot S = (p, slot', S') \<and> code_addr p = None) \<longleftrightarrow>
   IMM_SPACE_SIZE < g_imm_bump S + unat ((len + of_nat IMM_PAGE_SIZE - 1) div of_nat IMM_PAGE_SIZE) * IMM_PAGE_SIZE"
  by (simp add: code_multipage_def os_imm_pages_alloc_contiguous_def Let_def)

lemma code_alloc_none:
  "os_imm_code_alloc n slot S = None \<longleftrightarrow> code_aligned n \<le> of_nat IMM_PAGE_SIZE \<and> \<not> fits_run (code_aligned n) slot \<and>
      g_imm_free_list S = [] \<and> IMM_SPACE_SIZE < g_imm_bump S + IMM_PAGE_SIZE"
proof (cases "of_nat IMM_PAGE_SIZE < code_aligned n")
  case False
  then show ?thesis
    using extend_outcome(1) [of "code_aligned n" _ _ "S\<lparr>g_imm_last_request_bytes := code_aligned n\<rparr>"]
    unfolding os_imm_code_alloc_def Let_def
    by (auto simp: fits_run_def new_page_outcome(1) split: option.split)
next
  case True
  then have "\<not> code_aligned n \<le> of_nat IMM_PAGE_SIZE" by simp
  then show ?thesis using True by (simp add: os_imm_code_alloc_def Let_def)
qed

lemma code_alloc_small:
  assumes "\<not> of_nat IMM_PAGE_SIZE < code_aligned n" "os_imm_code_alloc n slot S = Some (p, slot', S')"
  shows "code_addr p \<noteq> None"
  using assms unfolding os_imm_code_alloc_def Let_def
  by (auto split: option.splits if_splits dest!: new_page_outcome(2) extend_outcome(2))

theorem code_alloc_outcome:
  "(os_imm_code_alloc n slot S = None \<longleftrightarrow>
      code_aligned n \<le> of_nat IMM_PAGE_SIZE \<and> \<not> fits_run (code_aligned n) slot \<and>
      g_imm_free_list S = [] \<and> IMM_SPACE_SIZE < g_imm_bump S + IMM_PAGE_SIZE) \<and>
   ((\<exists>p slot' S'. os_imm_code_alloc n slot S = Some (p, slot', S') \<and> code_addr p = None) \<longleftrightarrow>
      of_nat IMM_PAGE_SIZE < code_aligned n \<and>
      IMM_SPACE_SIZE < g_imm_bump S + unat ((code_aligned n + of_nat IMM_PAGE_SIZE - 1) div of_nat IMM_PAGE_SIZE) * IMM_PAGE_SIZE)"
proof (cases "of_nat IMM_PAGE_SIZE < code_aligned n")
  case True
  then have "\<not> code_aligned n \<le> of_nat IMM_PAGE_SIZE" by simp
  with True show ?thesis
    using multipage_outcome [of "code_aligned n" slot "S\<lparr>g_imm_last_request_bytes := code_aligned n\<rparr>"]
    by (simp add: os_imm_code_alloc_def Let_def)
next
  case False
  then have "\<not> (\<exists>p slot' S'. os_imm_code_alloc n slot S = Some (p, slot', S') \<and> code_addr p = None)"
    using code_alloc_small by blast
  then show ?thesis using code_alloc_none [of n slot S] False by blast
qed

text \<open>The pages of a destroyed environment serve again.\<close>

theorem reclaimed_pages_reused:
  assumes "code_reachable W" "pages_slot (owners W e) \<noteq> []" "code_aligned n \<le> of_nat IMM_PAGE_SIZE"
  shows "\<exists>a W'. compile_in e' n (destroy_environment_reclaim e W) = Some (Some a, W')"
proof -
  let ?W = "destroy_environment_reclaim e W"
  have "g_imm_free_list (space ?W) \<noteq> []"
    using assms(2) by (simp add: destroy_environment_reclaim_def os_environment_reclaim_pages_def free_all)
  then have "os_imm_code_alloc n (code_cursor (owners ?W e')) (space ?W) \<noteq> None" using code_alloc_none by blast
  then obtain p slot' S' where p: "os_imm_code_alloc n (code_cursor (owners ?W e')) (space ?W) = Some (p, slot', S')" by auto
  then have "code_addr p \<noteq> None" using code_alloc_small assms(3) by (metis not_less)
  then show ?thesis using p by (auto simp: compile_in_def place_code_def Let_def)
qed

lemmas example_defs = place_code_def os_imm_code_alloc_def code_new_page_def os_imm_page_alloc_def imm_space_init_def
  code_aligned_def IMM_PAGE_SIZE_def IMM_SPACE_SIZE_def os_environment_register_pages_def Let_def

definition example_space :: imm_space where
  "example_space = imm_space_init\<lparr>g_imm_bump := 4096, g_imm_last_request_bytes := 112, g_code_alloc_new_page := 1,
     g_code_pages_taken := 1, g_code_bytes_allocated := 112\<rparr>"

lemma example1:
  "place_code 100 \<lparr>code_cursor = Some None, pages_slot = []\<rparr> imm_space_init =
     Some (Some 0, \<lparr>code_cursor = Some (Some (pack_run 4096 112)), pages_slot = [0]\<rparr>, example_space)"
  by (simp add: example_defs example_space_def)

lemma example2:
  "place_code 200 \<lparr>code_cursor = Some (Some (pack_run 4096 112)), pages_slot = [0]\<rparr> example_space =
     Some (Some 112, \<lparr>code_cursor = Some (Some (pack_run 4096 320)), pages_slot = [0]\<rparr>,
       example_space\<lparr>g_imm_last_request_bytes := 208, g_code_alloc_from_cursor := 1, g_code_bytes_allocated := 320\<rparr>)"
  by (simp add: example_defs example_space_def run_pack)

lemma world_example:
  "\<exists>W. code_reachable W \<and> code_blocks W = [(0, 112, 208), (0, 0, 112)] \<and> pages_slot (owners W 0) = [0]"
proof -
  let ?W0 = "give_cursor 0 world_init"
  obtain W1 where W1: "compile_in 0 100 ?W0 = Some (Some 0, W1)" "space W1 = example_space" "code_blocks W1 = [(0, 0, 112)]"
      "owners W1 0 = \<lparr>code_cursor = Some (Some (pack_run 4096 112)), pages_slot = [0]\<rparr>"
    using example1 by (simp add: compile_in_def world_init_def give_cursor_def code_aligned_def)
  obtain W2 where W2: "compile_in 0 200 W1 = Some (Some 112, W2)" "code_blocks W2 = [(0, 112, 208), (0, 0, 112)]" "pages_slot (owners W2 0) = [0]"
    using example2 by (simp add: compile_in_def W1 code_aligned_def)
  have "code_reachable ?W0" by (rule code_reachable.step [OF code_reachable.start code_step.made]) (simp add: world_init_def)
  then have "code_reachable W1" by (rule code_reachable.step [OF _ code_step.compile [OF _ W1(1)]]) (simp add: JIT_CODE_SIZE_def)
  then have "code_reachable W2" by (rule code_reachable.step [OF _ code_step.compile [OF _ W2(1)]]) (simp add: JIT_CODE_SIZE_def)
  then show ?thesis using W2 by blast
qed

theorem placed_code_safe_witness:
  "\<exists>W. code_reachable W \<and> code_blocks W = [(0, 112, 208), (0, 0, 112)] \<and> span 112 208 \<inter> span 0 112 = {} \<and>
     (\<forall>x \<in> span 112 208. page_of x \<in> set (pages_slot (owners W 0)) \<and> page_of x \<notin> set (pages_slot (owners W 1)))"
proof -
  obtain W where W: "code_reachable W" "code_blocks W = [(0, 112, 208), (0, 0, 112)]" using world_example by blast
  show ?thesis using placed_code_safe [OF W(1)] W by (intro exI [of _ W]) simp
qed

end
