(* ===== verification/Spec2Isabelle.thy ===== *)
theory Spec2Isabelle
  imports Keyboard Collect Format Symbols ImmSpace
begin

text \<open>
  A model of isiki, an operating system for ISLisp on x86-64, from its C sources in
  \<^verbatim>\<open>src/src/c/\<close>. The Lisp code, the compiler \<^verbatim>\<open>za.c\<close> and the hardware set-up lie outside.

  The system: \<^verbatim>\<open>kernel.c\<close> boots, \<^verbatim>\<open>process.c\<close> spawns one REPL process per virtual frame buffer, and
  the timer of \<^verbatim>\<open>interrupt.c\<close> switches between them. Keystrokes go through the keyboard interrupt
  into the input buffer of the process on screen, whose REPL reads them with \<^verbatim>\<open>reader.c\<close>, evaluates,
  and prints with \<^verbatim>\<open>print.c\<close> to the console of \<^verbatim>\<open>framebuffer.c\<close>. Values are tagged words, numbers
  among them the work of \<^verbatim>\<open>runtime.c\<close>. Files live on a 9P server of the host, reached by the codec
  \<^verbatim>\<open>p9.c\<close>, the client \<^verbatim>\<open>virtio9p.c\<close> and the buffered streams of \<^verbatim>\<open>stream.c\<close>, or on a FAT volume
  behind Lisp functions.

  Theories and code, in the order of their imports:

  \<^item> \<open>Prelude\<close>: words, lists, C strings, characters and bytes, and the rules that
    carry 64-bit arithmetic over to the natural numbers.
  \<^item> \<open>Limbs\<close>, \<open>Values\<close>, \<open>Numbers\<close> (\<^verbatim>\<open>runtime.c\<close>, \<^verbatim>\<open>runtime.h\<close>): magnitudes of 32-bit limbs, the tags
    and immediate encodings, and the numeric primitives. A number is an immediate word, a bignum
    or a boxed double; each primitive is shown to compute its integer function as long as its
    working buffers fit the scratch arena of 32768 limbs, and to stop the machine when they do not;
    to agree with its fast paths, to end, and to signal what it signals. The floating point unit
    is the parameter \<open>fpu\<close>. A value has no address here; the one reference that the code holds
    across an allocation without protecting it is marked (\<open>Unprotected\<close>).
  \<^item> \<open>Reader\<close>, \<open>Printer\<close>, \<open>ReadPrint\<close> (\<^verbatim>\<open>reader.c\<close>, \<^verbatim>\<open>print.c\<close>): the reader ends on every text, and
    reads back what the printer prints. The reader's recursion has fuel twice the length of the
    input, of which every call uses less than it has. Printing of floats is a parameter.
  \<^item> \<open>P9\<close>, \<open>Virtio9p\<close> (\<^verbatim>\<open>p9.c\<close>, \<^verbatim>\<open>virtio9p.c\<close>): the messages are byte lists; an access
    outside a buffer is a value of its own (\<open>None\<close>, \<open>Fault\<close>). The server is the parameter
    \<open>p9_transport\<close>; what a server of 9P2000 promises is a hypothesis (\<open>serves_session\<close>, \<open>serves_path\<close>,
    \<open>serves_file\<close>) over the table of fids it keeps: a request is promised to succeed only on a fid
    in the state for it, a write only within the size limit of the server. \<open>client_synced\<close> is the
    invariant under which the client makes only such requests. A concrete server that refuses all
    others serves the witnesses. The loop of \<open>os_virtio9p_load_file\<close> ends because a chunk is not empty.
  \<^item> \<open>Console\<close> (\<^verbatim>\<open>framebuffer.c\<close>): a record per virtual frame buffer with its ring of text rows, and
    the pixels of the screen. The screen is at all times what drawing the visible buffer afresh
    would give, the ring holds the last rows of the text, and nothing is drawn outside.
  \<^item> \<open>Process\<close>, \<open>Keyboard\<close> (\<^verbatim>\<open>process.c\<close>, \<^verbatim>\<open>interrupt.c\<close>): the process table, stacks and canaries, the
    context frames on the stacks and the timer switch as a step relation on memory, in which a
    running process may write any stack, as the collector does, but not the saved frames and the
    guards; the keyboard handler as a refinement of a line editor.
  \<^item> \<open>Streams\<close> (\<^verbatim>\<open>stream.c\<close>, the positions of \<^verbatim>\<open>stream_lisp.c\<close>): one record per stream. The locale
    \<open>file_reader\<close> and \<open>file_writer\<close> are what filling and emptying a buffer promise, interpreted for 9P
    files and for FAT files, which have room for a bounded number of bytes; \<open>text_input\<close> is what an input stream promises, interpreted for both and for strings.
  \<^item> \<open>Heap\<close>, \<open>Gc\<close>, \<open>GcScan\<close>, \<open>Collect\<close> (\<^verbatim>\<open>runtime.c\<close>): the two half-spaces as memory, the roots, the
    allocator and the copying collector. \<open>heap_ok\<close> says what a well-formed heap is, \<open>gc_inv\<close> what holds
    at every step of a collection, and \<open>reclaimed\<close> what a collection achieves: the graph of live
    objects, moved. The scan loop is a partial function, shown to end.
  \<^item> \<open>Symbols\<close> (\<^verbatim>\<open>runtime.c\<close>): the symbol table with its hash, shown to be a map from names to symbols,
    and the caches of call sites.
  \<^item> \<open>ImmSpace\<close> (\<^verbatim>\<open>runtime.c\<close>, the placing of code of \<^verbatim>\<open>za.c\<close>): the pages for compiled code and cells, the
    run of bytes of an environment, and the reclaiming of its pages, as a step relation; live code
    is never overwritten.
  \<^item> \<open>Mount\<close> (\<^verbatim>\<open>mount.c\<close>): which mount a path lies in, the file operations over the FAT drivers
    written in Lisp (the parameter \<open>lisp\<close>), and the FAT16 reader in C over a block device, shown to
    return the content of a file from the layout of the volume.
  \<^item> \<open>StreamLisp\<close> (\<^verbatim>\<open>stream_lisp.c\<close>, the signalling of conditions of \<^verbatim>\<open>runtime.c\<close>): the stream functions of
    Lisp on a store of streams, from the path of a file through mount, stream and 9P client to the
    server and back. The loops that read to the end of a line or of a file are partial functions,
    shown to return on the streams of the properties.
  \<^item> \<open>Format\<close> (\<^verbatim>\<open>format.c\<close>): the directives of \<^verbatim>\<open>format\<close>, from the format string through the printer to a
    stream, and back through the reader.

  A stateful function takes the state it uses and returns it updated. A failing call is a value
  of a sum or option type. Outside the heap theories a C pointer to a Lisp object is a value; that
  the collector moves objects without changing their graph is what the heap theories show.

  Not modelled: the evaluator \<^verbatim>\<open>eval.c\<close> and the compiler \<^verbatim>\<open>za.c\<close> with its disassembler (machine code
  and its calling conventions); the variables and functions of environments, the object system and the boot
  allocator of \<^verbatim>\<open>runtime.c\<close>; the
  paging, descriptor tables and exception entries of \<^verbatim>\<open>interrupt.c\<close> and \<^verbatim>\<open>process.c\<close> (writes to
  hardware registers); PCI, virtio and IDE drivers (the transport and block device are
  parameters); \<^verbatim>\<open>cc_read\<close>;
  benchmarks, diagnostics and font data.
\<close>

end
